(* ===== verification/Prelude.thy ===== *)
theory Prelude
  imports Main "HOL-Library.Word" "HOL-Library.List_Lexorder" "HOL-Library.Product_Lexorder"
    "HOL-Library.Multiset"
begin

text \<open>
  Shared material of the development: the byte types, the little- and big-endian integer codecs
  of the Rust standard library, Rust's \<open>Reverse\<close> ordering wrapper, the simplification
  collections the component theories extend, and the generic facts on lists that several
  components use (sorting in descending order, majorities, contiguous prefixes).
\<close>

named_theorems frame_simps "what an operation leaves unchanged"
named_theorems codec_simps "encoders, decoders and their lengths"

type_synonym byte = "8 word"
type_synonym bytes = "byte list"

section \<open>Fixed-width integer codecs\<close>

text \<open>
  \<open>uN::to_le_bytes\<close> for an integer of \<open>n\<close> bytes; an argument that does not fit is
  truncated, as the \<open>as\<close> casts in front of the calls do.
\<close>

fun le_bytes :: "nat \<Rightarrow> nat \<Rightarrow> bytes" where
  "le_bytes 0 x = []"
| "le_bytes (Suc n) x = word_of_nat (x mod 256) # le_bytes n (x div 256)"

text \<open>\<open>uN::from_le_bytes\<close>.\<close>

fun le_nat :: "bytes \<Rightarrow> nat" where
  "le_nat [] = 0"
| "le_nat (b # bs) = unat b + 256 * le_nat bs"

definition be_bytes :: "nat \<Rightarrow> nat \<Rightarrow> bytes" where
  "be_bytes n x = rev (le_bytes n x)"

abbreviation u32_le :: "nat \<Rightarrow> bytes" where "u32_le \<equiv> le_bytes 4"
abbreviation u64_le :: "nat \<Rightarrow> bytes" where "u64_le \<equiv> le_bytes 8"
abbreviation u64_be :: "nat \<Rightarrow> bytes" where "u64_be \<equiv> be_bytes 8"

lemma length_le_bytes [simp, codec_simps]: "length (le_bytes n x) = n"
  by (induction n arbitrary: x) auto

lemma length_be_bytes [simp, codec_simps]: "length (be_bytes n x) = n"
  by (simp add: be_bytes_def)

lemma unat_byte_of_nat [simp]: "unat (word_of_nat (x mod 256) :: byte) = x mod 256"
  by (simp add: unat_of_nat)

lemma unat_byte_lt: "unat (b :: byte) < 256"
proof -
  have "(unsigned b :: nat) < 2 ^ LENGTH(8)" by (rule unsigned_less)
  then show ?thesis by simp
qed

lemma le_nat_le_bytes_mod: "le_nat (le_bytes n x) = x mod 256 ^ n"
proof (induction n arbitrary: x)
  case 0
  then show ?case by simp
next
  case (Suc n)
  then show ?case by (simp add: mod_mult2_eq)
qed

lemma le_nat_le_bytes [simp, codec_simps]: "x < 256 ^ n \<Longrightarrow> le_nat (le_bytes n x) = x"
  by (simp add: le_nat_le_bytes_mod)

lemma le_nat_bound: "le_nat bs < 256 ^ length bs"
proof (induction bs)
  case Nil
  then show ?case by simp
next
  case (Cons b bs)
  have "unat b < 256" by (rule unat_byte_lt)
  with Cons show ?case by simp
qed

lemma le_bytes_le_nat: "le_bytes (length bs) (le_nat bs) = bs"
proof (induction bs)
  case Nil
  then show ?case by simp
next
  case (Cons b bs)
  have "unat b < 256" by (rule unat_byte_lt)
  then show ?case using Cons by simp
qed

lemma le_bytes_inject: "x < 256 ^ n \<Longrightarrow> y < 256 ^ n \<Longrightarrow> le_bytes n x = le_bytes n y \<longleftrightarrow> x = y"
  by (metis le_nat_le_bytes)

lemma be_bytes_inject: "x < 256 ^ n \<Longrightarrow> y < 256 ^ n \<Longrightarrow> be_bytes n x = be_bytes n y \<longleftrightarrow> x = y"
  by (simp add: be_bytes_def le_bytes_inject)

lemma u32_of_le_bytes: "x < 2 ^ 32 \<Longrightarrow> le_nat (u32_le x) = x"
  by (rule le_nat_le_bytes) simp

lemma u64_of_le_bytes: "x < 2 ^ 64 \<Longrightarrow> le_nat (u64_le x) = x"
  by (rule le_nat_le_bytes) simp

lemma unat_u32_lt: "unat (w :: 32 word) < 2 ^ 32"
proof -
  have "(unsigned w :: nat) < 2 ^ LENGTH(32)" by (rule unsigned_less)
  then show ?thesis by simp
qed

lemma u32_of_word [simp]: "le_nat (u32_le (unat (w :: 32 word))) = unat w"
  by (rule u32_of_le_bytes) (rule unat_u32_lt)

section \<open>Rust's Reverse wrapper\<close>

text \<open>\<open>std::cmp::Reverse\<close>: the same values in the opposite order.\<close>

datatype 'a reverse = Reverse (unrev: 'a)

instantiation reverse :: (linorder) linorder
begin

definition less_eq_reverse :: "'a reverse \<Rightarrow> 'a reverse \<Rightarrow> bool" where
  "less_eq_reverse x y \<longleftrightarrow> unrev y \<le> unrev x"

definition less_reverse :: "'a reverse \<Rightarrow> 'a reverse \<Rightarrow> bool" where
  "less_reverse x y \<longleftrightarrow> unrev y < unrev x"

instance
  by standard (auto simp: less_eq_reverse_def less_reverse_def reverse.expand)

end

lemma Reverse_less_eq [simp]: "Reverse x \<le> Reverse y \<longleftrightarrow> y \<le> x"
  by (simp add: less_eq_reverse_def)

lemma Reverse_less [simp]: "Reverse x < Reverse y \<longleftrightarrow> y < x"
  by (simp add: less_reverse_def)

section \<open>Order statistics and majorities\<close>

text \<open>\<open>sort_unstable_by(|a, b| b.cmp(a))\<close>.\<close>

definition sort_desc :: "'a::linorder list \<Rightarrow> 'a list" where
  "sort_desc xs = rev (sort xs)"

lemma length_sort_desc [simp]: "length (sort_desc xs) = length xs"
  by (simp add: sort_desc_def)

lemma mset_sort_desc [simp]: "mset (sort_desc xs) = mset xs"
  by (simp add: sort_desc_def)

lemma set_sort_desc [simp]: "set (sort_desc xs) = set xs"
  by (simp add: sort_desc_def)

lemma sort_desc_ge: "i \<le> j \<Longrightarrow> j < length xs \<Longrightarrow> sort_desc xs ! j \<le> sort_desc xs ! i"
  by (simp add: sort_desc_def rev_nth sorted_nth_mono)

lemma length_filter_sort_desc: "length (filter P (sort_desc xs)) = length (filter P xs)"
  by (metis mset_filter mset_sort_desc size_mset)

text \<open>The value at place \<open>q - 1\<close> of the descending order is reached by at least \<open>q\<close> elements.\<close>

lemma sort_desc_nth_count:
  assumes "0 < q" and "q \<le> length xs"
  shows "q \<le> length (filter (\<lambda>x. sort_desc xs ! (q - 1) \<le> x) xs)"
proof -
  let ?v = "sort_desc xs ! (q - 1)"
  have "\<forall>x \<in> set (take q (sort_desc xs)). ?v \<le> x"
  proof
    fix x assume "x \<in> set (take q (sort_desc xs))"
    then obtain i where "i < q" and "x = sort_desc xs ! i"
      by (auto simp: in_set_conv_nth)
    then show "?v \<le> x" using assms sort_desc_ge [of i "q - 1" xs] by simp
  qed
  then have "filter (\<lambda>x. ?v \<le> x) (take q (sort_desc xs)) = take q (sort_desc xs)"
    by (simp add: filter_id_conv)
  then have "q = length (filter (\<lambda>x. ?v \<le> x) (take q (sort_desc xs)))"
    using assms by simp
  also have "\<dots> \<le> length (filter (\<lambda>x. ?v \<le> x) (take q (sort_desc xs) @ drop q (sort_desc xs)))"
    by (simp only: filter_append length_append le_add1)
  also have "\<dots> = length (filter (\<lambda>x. ?v \<le> x) xs)"
    by (simp add: length_filter_sort_desc)
  finally show ?thesis .
qed

lemma nth_sort_desc_in: "i < length xs \<Longrightarrow> sort_desc xs ! i \<in> set xs"
  by (metis length_sort_desc nth_mem set_sort_desc)

text \<open>Two majorities of one set share a member.\<close>

lemma majority_intersect:
  assumes "finite V" and "A \<subseteq> V" and "B \<subseteq> V"
    and "card V div 2 < card A" and "card V div 2 < card B"
  shows "A \<inter> B \<noteq> {}"
proof
  assume "A \<inter> B = {}"
  moreover have "finite A" and "finite B"
    using assms(1-3) by (auto intro: finite_subset)
  ultimately have "card A + card B = card (A \<union> B)"
    by (simp add: card_Un_disjoint)
  also have "\<dots> \<le> card V"
    using assms(1-3) by (auto intro: card_mono)
  finally show False using assms(4,5) by linarith
qed

section \<open>Lists\<close>

lemma nth_append_snoc: "i < length xs \<Longrightarrow> (xs @ ys) ! i = xs ! i"
  by (simp add: nth_append)

lemma last_nth: "xs \<noteq> [] \<Longrightarrow> last xs = xs ! (length xs - 1)"
  by (rule last_conv_nth)

lemma take_eq_nthI:
  assumes "length xs = length ys" and "\<And>i. i < length xs \<Longrightarrow> xs ! i = ys ! i"
  shows "xs = ys"
  using assms by (rule nth_equalityI)

lemma drop_take_split:
  assumes "a \<le> b" and "b \<le> c"
  shows "drop a (take c l) = drop a (take b l) @ drop b (take c l)"
proof -
  have "take c l = take b l @ take (c - b) (drop b l)"
    using assms(2) take_add [of b "c - b" l] by simp
  then show ?thesis using assms by (cases "b \<le> length l") simp_all
qed

end
