(* ===== verification/Raft_Types.thy ===== *)
theory Raft_Types
  imports Prelude
begin

text \<open>
  The types of \<open>crates/raft/src/types.rs\<close>. Node ids, terms, indexes and tick counts are \<open>u64\<close>
  (\<open>u32\<close> for the tick settings) in the code and only ever grow by small increments from zero, so
  they are natural numbers here; the one place where the code computes modulo a width, the
  randomised election timeout, keeps its widths.
\<close>

type_synonym node_id = nat
type_synonym raft_term = nat
type_synonym index = nat

datatype conf_change = AddNode node_id | RemoveNode node_id

datatype entry_payload = Noop | Normal bytes | ConfChange conf_change

record entry =
  e_term :: raft_term
  e_index :: index
  e_payload :: entry_payload

record hard_state =
  hs_term :: raft_term
  hs_voted_for :: "node_id option"

record snapshot =
  s_last_index :: index
  s_last_term :: raft_term
  s_voters :: "node_id list"
  s_data :: bytes

text \<open>
  The arguments stand in the order of the fields: the last log index and term for the two vote
  requests; previous index, previous term, entries, leader commit and read context for
  \<open>AppendEntries\<close>; success, match index, conflict index and read context for its response.
\<close>

datatype message_body =
    PreVote index raft_term
  | PreVoteResp bool
  | RequestVote index raft_term
  | RequestVoteResp bool
  | AppendEntries index raft_term "entry list" index nat
  | AppendEntriesResp bool index index nat
  | InstallSnapshot snapshot
  | InstallSnapshotResp index

record message =
  m_from :: node_id
  m_to :: node_id
  m_term :: raft_term
  m_body :: message_body

record raft_output =
  o_messages :: "message list"
  o_committed :: "entry list"
  o_hard_state :: "hard_state option"
  o_append :: "entry list"
  o_snapshot :: "snapshot option"
  o_read_states :: "(nat \<times> index) list"

definition output_default :: raft_output where
  "output_default =
     \<lparr>o_messages = [], o_committed = [], o_hard_state = None, o_append = [],
      o_snapshot = None, o_read_states = []\<rparr>"

definition output_is_empty :: "raft_output \<Rightarrow> bool" where
  "output_is_empty out \<longleftrightarrow>
     o_messages out = [] \<and> o_committed out = [] \<and> o_hard_state out = None \<and>
     o_append out = [] \<and> o_snapshot out = None \<and> o_read_states out = []"

lemma output_is_empty_iff: "output_is_empty out \<longleftrightarrow> out = output_default"
  by (auto simp: output_is_empty_def output_default_def)

record persisted =
  p_hard_state :: hard_state
  p_entries :: "entry list"
  p_snapshot :: "snapshot option"

definition hard_state_default :: hard_state where
  "hard_state_default = \<lparr>hs_term = 0, hs_voted_for = None\<rparr>"

definition persisted_default :: persisted where
  "persisted_default =
     \<lparr>p_hard_state = hard_state_default, p_entries = [], p_snapshot = None\<rparr>"

datatype role = Follower | PreCandidate | Candidate | Leader

datatype propose_error = NotLeader "node_id option" | ConfChangeInFlight | NotReady

record config =
  c_id :: node_id
  c_election_tick_min :: nat
  c_election_tick_max :: nat
  c_heartbeat_tick :: nat
  c_max_batch_entries :: nat
  c_max_inflight :: nat
  c_pre_vote :: bool
  c_seed :: "64 word"

definition config_new :: "node_id \<Rightarrow> 64 word \<Rightarrow> config" where
  "config_new i sd =
     \<lparr>c_id = i, c_election_tick_min = 10, c_election_tick_max = 20, c_heartbeat_tick = 2,
      c_max_batch_entries = 64, c_max_inflight = 10, c_pre_vote = True, c_seed = sd\<rparr>"

end
