(* ===== verification/Raft_Log.thy ===== *)
theory Raft_Log
  imports Raft_Types
begin

text \<open>
  \<open>crates/raft/src/log.rs\<close>: the in-memory log above a snapshot base. \<open>debug_assert\<close>s are not part
  of a release build and are not part of the definitions; that they hold is what the invariant
  \<open>log_contiguous\<close> and its preservation say. The panic of \<open>truncate_from\<close> is the value \<open>None\<close>.
\<close>

record raft_log =
  snap_index :: index
  snap_term :: raft_term
  log_entries :: "entry list"

definition log_new :: "index \<Rightarrow> raft_term \<Rightarrow> entry list \<Rightarrow> raft_log" where
  "log_new si st es = \<lparr>snap_index = si, snap_term = st, log_entries = es\<rparr>"

definition log_contiguous :: "raft_log \<Rightarrow> bool" where
  "log_contiguous l \<longleftrightarrow>
     (\<forall>i < length (log_entries l). e_index (log_entries l ! i) = snap_index l + 1 + i)"

definition first_index :: "raft_log \<Rightarrow> index" where
  "first_index l = snap_index l + 1"

definition last_index :: "raft_log \<Rightarrow> index" where
  "last_index l = snap_index l + length (log_entries l)"

definition last_term :: "raft_log \<Rightarrow> raft_term" where
  "last_term l = (if log_entries l = [] then snap_term l else e_term (last (log_entries l)))"

definition log_term :: "raft_log \<Rightarrow> index \<Rightarrow> raft_term option" where
  "log_term l idx =
     (if idx = snap_index l then Some (snap_term l)
      else if idx < snap_index l \<or> last_index l < idx then None
      else Some (e_term (log_entries l ! (idx - snap_index l - 1))))"

definition log_get :: "raft_log \<Rightarrow> index \<Rightarrow> entry option" where
  "log_get l idx =
     (if idx \<le> snap_index l \<or> last_index l < idx then None
      else Some (log_entries l ! (idx - snap_index l - 1)))"

definition log_slice :: "raft_log \<Rightarrow> index \<Rightarrow> nat \<Rightarrow> entry list" where
  "log_slice l from0 mx =
     (let frm = max from0 (first_index l)
      in if last_index l < frm then []
         else let start = frm - snap_index l - 1;
                  end' = min (start + mx) (length (log_entries l))
              in take (end' - start) (drop start (log_entries l)))"

definition log_push :: "entry \<Rightarrow> raft_log \<Rightarrow> raft_log" where
  "log_push e l = l\<lparr>log_entries := log_entries l @ [e]\<rparr>"

definition truncate_from :: "index \<Rightarrow> raft_log \<Rightarrow> raft_log option" where
  "truncate_from idx l =
     (if idx \<le> snap_index l then None
      else Some (l\<lparr>log_entries := take (idx - snap_index l - 1) (log_entries l)\<rparr>))"

definition log_compact :: "index \<Rightarrow> raft_term \<Rightarrow> raft_log \<Rightarrow> raft_log" where
  "log_compact idx t l =
     (if idx \<le> snap_index l then l
      else \<lparr>snap_index = idx, snap_term = t,
            log_entries = drop (min (idx - snap_index l) (length (log_entries l))) (log_entries l)\<rparr>)"

definition reset_to_snapshot :: "index \<Rightarrow> raft_term \<Rightarrow> raft_log \<Rightarrow> raft_log" where
  "reset_to_snapshot idx t l = l\<lparr>snap_index := idx, snap_term := t, log_entries := []\<rparr>"

section \<open>Lookup\<close>

lemmas log_defs = first_index_def last_index_def last_term_def log_term_def log_get_def

lemma log_term_last: "log_term l (last_index l) = Some (last_term l)"
  by (auto simp: log_defs last_conv_nth)

lemma log_term_get:
  "log_term l idx =
     (if idx = snap_index l then Some (snap_term l) else map_option e_term (log_get l idx))"
  by (auto simp: log_defs)

lemma log_term_Some_iff: "(\<exists>t. log_term l idx = Some t) \<longleftrightarrow> snap_index l \<le> idx \<and> idx \<le> last_index l"
  by (auto simp: log_defs)

lemma log_get_Some_iff: "(\<exists>e. log_get l idx = Some e) \<longleftrightarrow> snap_index l < idx \<and> idx \<le> last_index l"
  by (auto simp: log_defs)

lemma log_get_index: "log_contiguous l \<Longrightarrow> log_get l idx = Some e \<Longrightarrow> e_index e = idx"
  by (auto simp: log_contiguous_def log_defs split: if_splits)

lemma log_get_in_set: "log_get l idx = Some e \<Longrightarrow> e \<in> set (log_entries l)"
  by (auto simp: log_defs split: if_splits)

lemma log_get_of_mem:
  assumes "log_contiguous l" and "e \<in> set (log_entries l)"
  shows "log_get l (e_index e) = Some e"
proof -
  from assms(2) obtain i where "i < length (log_entries l)" "e = log_entries l ! i"
    by (auto simp: in_set_conv_nth)
  with assms(1) show ?thesis by (auto simp: log_contiguous_def log_defs)
qed

section \<open>The operations keep the log contiguous\<close>

lemma log_contiguous_push:
  "log_contiguous l \<Longrightarrow> e_index e = last_index l + 1 \<Longrightarrow> log_contiguous (log_push e l)"
  by (auto simp: log_contiguous_def log_push_def last_index_def nth_append less_Suc_eq)

lemma log_contiguous_truncate:
  "log_contiguous l \<Longrightarrow> truncate_from idx l = Some l' \<Longrightarrow> log_contiguous l'"
  by (auto simp: log_contiguous_def truncate_from_def split: if_splits)

lemma log_contiguous_compact:
  "log_contiguous l \<Longrightarrow> idx \<le> last_index l \<Longrightarrow> log_contiguous (log_compact idx t l)"
  by (auto simp: log_contiguous_def log_compact_def last_index_def)

lemma log_contiguous_reset: "log_contiguous (reset_to_snapshot idx t l)"
  by (simp add: log_contiguous_def reset_to_snapshot_def)

section \<open>What the operations do to the entries\<close>

lemma log_get_push:
  "log_get (log_push e l) idx = (if idx = last_index l + 1 then Some e else log_get l idx)"
  by (auto simp: log_push_def log_defs nth_append)

lemma last_index_push [simp]: "last_index (log_push e l) = last_index l + 1"
  by (simp add: log_push_def last_index_def)

lemma snap_index_push [simp]: "snap_index (log_push e l) = snap_index l"
  by (simp add: log_push_def)

lemma snap_term_push [simp]: "snap_term (log_push e l) = snap_term l"
  by (simp add: log_push_def)

lemma truncate_from_get:
  assumes "truncate_from idx l = Some l'"
  shows "log_get l' i = (if i < idx then log_get l i else None)"
    and "snap_index l' = snap_index l" and "snap_term l' = snap_term l"
    and "last_index l' = min (idx - 1) (last_index l)"
  using assms by (auto simp: truncate_from_def log_defs split: if_splits)

lemma log_compact_get:
  assumes "idx \<le> last_index l"
  shows "log_get (log_compact idx t l) i = (if i \<le> idx then None else log_get l i) \<or> idx \<le> snap_index l"
  using assms by (auto simp: log_compact_def log_defs)

lemma log_slice_nth:
  assumes "snap_index l < frm" and "k < length (log_slice l frm mx)"
  shows "log_get l (frm + k) = Some (log_slice l frm mx ! k)"
  using assms by (auto simp: log_slice_def log_defs Let_def split: if_splits)

lemma length_log_slice:
  assumes "snap_index l < frm"
  shows "length (log_slice l frm mx) = min mx (last_index l + 1 - frm)"
  using assms by (auto simp: log_slice_def log_defs Let_def)

end
