(* ===== verification/Ordered_Map.thy ===== *)
theory Ordered_Map
  imports Prelude
begin

text \<open>
  The standard library's \<open>BTreeMap\<close> as the code uses it: an association list kept in strictly
  increasing key order, so that iteration yields what \<open>BTreeMap::iter\<close> yields. \<open>HashMap\<close>s whose
  iteration order the code never observes use the same representation. The contract the clients
  rely on is the locale \<open>ordered_map\<close>, interpreted on these operations at the end.
\<close>

type_synonym ('k, 'v) btree_map = "('k \<times> 'v) list"

section \<open>Operations\<close>

definition bt_empty :: "('k, 'v) btree_map" where
  "bt_empty = []"

fun bt_insert :: "'k::linorder \<Rightarrow> 'v \<Rightarrow> ('k, 'v) btree_map \<Rightarrow> ('k, 'v) btree_map" where
  "bt_insert k v [] = [(k, v)]"
| "bt_insert k v (e # m) =
     (if fst e < k then e # bt_insert k v m
      else if fst e = k then (k, v) # m
      else (k, v) # e # m)"

definition bt_get :: "('k, 'v) btree_map \<Rightarrow> 'k \<Rightarrow> 'v option" where
  "bt_get m k = map_of m k"

definition bt_remove :: "'k \<Rightarrow> ('k, 'v) btree_map \<Rightarrow> ('k, 'v) btree_map" where
  "bt_remove k m = filter (\<lambda>e. fst e \<noteq> k) m"

definition bt_keys :: "('k, 'v) btree_map \<Rightarrow> 'k list" where
  "bt_keys m = map fst m"

definition bt_retain :: "('k \<Rightarrow> 'v \<Rightarrow> bool) \<Rightarrow> ('k, 'v) btree_map \<Rightarrow> ('k, 'v) btree_map" where
  "bt_retain P m = filter (\<lambda>(k, v). P k v) m"

text \<open>\<open>entry(k).or_insert_with(f)\<close>.\<close>

definition bt_or_insert :: "'k::linorder \<Rightarrow> 'v \<Rightarrow> ('k, 'v) btree_map \<Rightarrow> ('k, 'v) btree_map" where
  "bt_or_insert k v m = (if bt_get m k = None then bt_insert k v m else m)"

text \<open>\<open>into_iter().collect()\<close>: later pairs replace earlier ones.\<close>

definition bt_collect :: "('k::linorder \<times> 'v) list \<Rightarrow> ('k, 'v) btree_map" where
  "bt_collect kvs = fold (\<lambda>(k, v). bt_insert k v) kvs bt_empty"

definition bt_ok :: "('k::linorder, 'v) btree_map \<Rightarrow> bool" where
  "bt_ok m \<longleftrightarrow> sorted_wrt (<) (map fst m)"

section \<open>Laws\<close>

lemma bt_get_empty [simp]: "bt_get bt_empty k = None"
  by (simp add: bt_get_def bt_empty_def)

lemma bt_get_Nil [simp]: "bt_get [] k = None"
  by (simp add: bt_get_def)

lemma bt_get_insert [simp]: "bt_get (bt_insert k v m) k' = (if k' = k then Some v else bt_get m k')"
  unfolding bt_get_def by (induction m) auto

lemma bt_get_remove [simp]: "bt_get (bt_remove k m) k' = (if k' = k then None else bt_get m k')"
  unfolding bt_get_def bt_remove_def by (induction m) auto

lemma bt_get_or_insert [simp]:
  "bt_get (bt_or_insert k v m) k' = (if k' = k \<and> bt_get m k = None then Some v else bt_get m k')"
  by (auto simp: bt_or_insert_def)

lemma set_bt_keys: "set (bt_keys m) = {k. bt_get m k \<noteq> None}"
  unfolding bt_keys_def bt_get_def by (auto simp: map_of_eq_None_iff)

lemma fst_set_bt_insert [simp]: "fst ` set (bt_insert k v m) = insert k (fst ` set m)"
  by (induction m) auto

lemma bt_ok_empty [simp]: "bt_ok bt_empty"
  by (simp add: bt_ok_def bt_empty_def)

lemma bt_ok_Nil [simp]: "bt_ok []"
  by (simp add: bt_ok_def)

lemma bt_ok_Cons: "bt_ok (e # m) \<longleftrightarrow> (\<forall>k \<in> fst ` set m. fst e < k) \<and> bt_ok m"
  by (simp add: bt_ok_def)

lemma bt_ok_insert [simp]: "bt_ok m \<Longrightarrow> bt_ok (bt_insert k v m)"
proof (induction m)
  case Nil
  then show ?case by (simp add: bt_ok_def)
next
  case (Cons e m)
  consider "fst e < k" | "fst e = k" | "k < fst e" by (rule linorder_cases)
  then show ?case
    using Cons by cases (auto simp: bt_ok_Cons)
qed

lemma bt_ok_filter: "bt_ok m \<Longrightarrow> bt_ok (filter P m)"
  unfolding bt_ok_def by (induction m) auto

lemma bt_ok_remove [simp]: "bt_ok m \<Longrightarrow> bt_ok (bt_remove k m)"
  by (simp add: bt_remove_def bt_ok_filter)

lemma bt_ok_retain [simp]: "bt_ok m \<Longrightarrow> bt_ok (bt_retain P m)"
  by (simp add: bt_retain_def bt_ok_filter)

lemma bt_ok_or_insert [simp]: "bt_ok m \<Longrightarrow> bt_ok (bt_or_insert k v m)"
  by (simp add: bt_or_insert_def)

lemma bt_ok_distinct: "bt_ok m \<Longrightarrow> distinct (map fst m)"
  by (simp add: bt_ok_def strict_sorted_iff)

lemma bt_get_Some_iff: "bt_ok m \<Longrightarrow> bt_get m k = Some v \<longleftrightarrow> (k, v) \<in> set m"
  by (simp add: bt_get_def bt_ok_distinct map_of_eq_Some_iff)

lemma bt_get_in_set: "bt_get m k = Some v \<Longrightarrow> (k, v) \<in> set m"
  by (simp add: bt_get_def map_of_SomeD)

lemma bt_get_retain: "bt_ok m \<Longrightarrow>
  bt_get (bt_retain P m) k = (case bt_get m k of None \<Rightarrow> None | Some v \<Rightarrow> if P k v then Some v else None)"
proof (induction m)
  case Nil
  then show ?case by (simp add: bt_retain_def)
next
  case (Cons e m)
  obtain k0 v0 where e: "e = (k0, v0)" by (cases e)
  have fresh: "bt_get m k0 = None"
    using Cons.prems by (force simp: bt_ok_Cons e bt_get_def map_of_eq_None_iff)
  show ?case
    using Cons fresh by (auto simp: bt_ok_Cons e bt_retain_def bt_get_def split: option.splits)
qed

text \<open>Two well-formed maps with the same entries are the same list.\<close>

lemma alist_of_keys: "distinct (map fst m) \<Longrightarrow> map (\<lambda>k. (k, the (map_of m k))) (map fst m) = m"
  by (rule nth_equalityI) (auto, metis map_of_is_SomeI nth_mem option.sel prod.collapse)

lemma bt_ok_eqI:
  assumes ok: "bt_ok m" "bt_ok m'" and eq: "\<And>k. bt_get m k = bt_get m' k"
  shows "m = m'"
proof -
  have "set (map fst m) = set (map fst m')"
    using eq set_bt_keys [of m] set_bt_keys [of m'] by (simp add: bt_keys_def)
  then have keys: "map fst m = map fst m'"
    using ok by (metis bt_ok_def strict_sorted_equal)
  have "map_of m = map_of m'"
    using eq by (auto simp: bt_get_def)
  with keys show ?thesis
    using alist_of_keys [OF bt_ok_distinct [OF ok(1)]] alist_of_keys [OF bt_ok_distinct [OF ok(2)]]
    by metis
qed

section \<open>The contract\<close>

locale ordered_map =
  fixes empty :: "'m"
    and insert :: "'k::linorder \<Rightarrow> 'v \<Rightarrow> 'm \<Rightarrow> 'm"
    and remove :: "'k \<Rightarrow> 'm \<Rightarrow> 'm"
    and lookup :: "'m \<Rightarrow> 'k \<Rightarrow> 'v option"
    and entries :: "'m \<Rightarrow> ('k \<times> 'v) list"
    and invar :: "'m \<Rightarrow> bool"
  assumes lookup_empty: "lookup empty k = None"
    and lookup_insert: "invar m \<Longrightarrow> lookup (insert k v m) k' = (if k' = k then Some v else lookup m k')"
    and lookup_remove: "invar m \<Longrightarrow> lookup (remove k m) k' = (if k' = k then None else lookup m k')"
    and entries_sorted: "invar m \<Longrightarrow> sorted_wrt (<) (map fst (entries m))"
    and entries_lookup: "invar m \<Longrightarrow> (k, v) \<in> set (entries m) \<longleftrightarrow> lookup m k = Some v"
    and invar_empty: "invar empty"
    and invar_insert: "invar m \<Longrightarrow> invar (insert k v m)"
    and invar_remove: "invar m \<Longrightarrow> invar (remove k m)"
begin

text \<open>Reloading a dump rebuilds the map: what snapshots of a map-shaped state rely on.\<close>

definition load :: "('k \<times> 'v) list \<Rightarrow> 'm" where
  "load kvs = fold (\<lambda>(k, v). insert k v) kvs empty"

lemma fold_insert:
  "invar m \<Longrightarrow> invar (fold (\<lambda>(k, v). insert k v) kvs m) \<and>
   lookup (fold (\<lambda>(k, v). insert k v) kvs m) k =
     (case map_of (rev kvs) k of None \<Rightarrow> lookup m k | Some v \<Rightarrow> Some v)"
proof (induction kvs arbitrary: m)
  case Nil
  then show ?case by simp
next
  case (Cons e kvs)
  obtain a b where e: "e = (a, b)" by (cases e)
  have "invar (insert a b m)" using Cons.prems by (rule invar_insert)
  from Cons.IH [OF this] show ?case
    using Cons.prems by (auto simp: e lookup_insert map_add_def split: option.splits)
qed

lemma invar_load: "invar (load kvs)"
  using fold_insert [OF invar_empty] by (simp add: load_def)

lemma lookup_load_entries:
  assumes "invar m"
  shows "lookup (load (entries m)) k = lookup m k"
proof -
  have d: "distinct (map fst (entries m))"
    using entries_sorted [OF assms] by (simp add: strict_sorted_iff)
  then have "map_of (rev (entries m)) k = map_of (entries m) k"
    by (metis distinct_rev map_of_inject_set rev_map set_rev)
  also have "\<dots> = lookup m k"
    using entries_lookup [OF assms] d by (metis map_of_eq_Some_iff not_None_eq)
  finally have "map_of (rev (entries m)) k = lookup m k" .
  moreover have "lookup (load (entries m)) k =
      (case map_of (rev (entries m)) k of None \<Rightarrow> lookup empty k | Some v \<Rightarrow> Some v)"
    unfolding load_def using fold_insert [OF invar_empty] by blast
  ultimately show ?thesis
    by (auto simp: lookup_empty split: option.splits)
qed

end

interpretation bt: ordered_map bt_empty bt_insert bt_remove bt_get "\<lambda>m. m" bt_ok
  by unfold_locales (auto simp: bt_ok_def [symmetric] bt_get_Some_iff)

end
