(* ===== verification/Raft_Node.thy ===== *)
theory Raft_Node
  imports Raft_Log Ordered_Map
begin

unbundle bit_operations_syntax

text \<open>
  \<open>crates/raft/src/node.rs\<close>: the node state machine, one definition per method, in the order in
  which the methods call each other. A method that takes \<open>&mut self\<close> returns the new node.
  The \<open>assert!\<close> of \<open>handle_append_entries\<close> and the panic of \<open>truncate_from\<close> are values of
  \<open>raft_panic\<close>; \<open>step\<close> returns \<open>Inl\<close> when the code would panic. \<open>debug_assert\<close>s are absent, as
  in a release build.
\<close>

record progress =
  pr_next :: index
  pr_matched :: index
  pr_inflight :: nat
  pr_pending_snapshot :: bool
  pr_snapshot_sent_tick :: nat
  pr_acked_read_ctx :: nat
  pr_last_resp_tick :: nat

definition progress_new :: "index \<Rightarrow> progress" where
  "progress_new nxt =
     \<lparr>pr_next = nxt, pr_matched = 0, pr_inflight = 0, pr_pending_snapshot = False,
      pr_snapshot_sent_tick = 0, pr_acked_read_ctx = 0, pr_last_resp_tick = 0\<rparr>"

record raft_node =
  cfg :: config
  rlog :: raft_log
  hs :: hard_state
  role :: role
  leader_id :: "node_id option"
  commit :: index
  node_snapshot :: "snapshot option"
  voters_base :: "node_id list"
  election_elapsed :: nat
  randomized_timeout :: nat
  heartbeat_elapsed :: nat
  tick_counter :: nat
  votes :: "(node_id, bool) btree_map"
  prs :: "(node_id, progress) btree_map"
  read_ctx_counter :: nat
  pending_reads :: "(nat \<times> nat \<times> index) list"
  out :: raft_output
  rng :: "64 word"

abbreviation nid :: "raft_node \<Rightarrow> node_id" where "nid n \<equiv> c_id (cfg n)"
abbreviation cur_term :: "raft_node \<Rightarrow> raft_term" where "cur_term n \<equiv> hs_term (hs n)"

datatype raft_panic =
    OverwriteCommitted node_id index node_id
  | TruncateIntoSnapshot index

section \<open>Output, random numbers, timers\<close>

definition push_msg :: "node_id \<Rightarrow> raft_term \<Rightarrow> message_body \<Rightarrow> raft_node \<Rightarrow> raft_node" where
  "push_msg dst t b n =
     n\<lparr>out := (out n)\<lparr>o_messages := o_messages (out n) @
       [\<lparr>m_from = nid n, m_to = dst, m_term = t, m_body = b\<rparr>]\<rparr>\<rparr>"

definition take_output :: "raft_node \<Rightarrow> raft_output \<times> raft_node" where
  "take_output n = (out n, n\<lparr>out := output_default\<rparr>)"

definition next_rand :: "raft_node \<Rightarrow> 64 word \<times> raft_node" where
  "next_rand n =
     (let x0 = rng n;
          x1 = x0 XOR drop_bit 12 x0;
          x2 = x1 XOR push_bit 25 x1;
          x3 = x2 XOR drop_bit 27 x2
      in (x3 * 0x2545F4914F6CDD1D, n\<lparr>rng := x3\<rparr>))"

definition reset_election_timer :: "raft_node \<Rightarrow> raft_node" where
  "reset_election_timer n =
     (let mn = c_election_tick_min (cfg n); mx = c_election_tick_max (cfg n);
          span = max ((mx + 2 ^ 32 - mn) mod 2 ^ 32) 1;
          (r, n1) = next_rand n
      in n1\<lparr>randomized_timeout := (mn + (unat r mod span) mod 2 ^ 32) mod 2 ^ 32,
            election_elapsed := 0\<rparr>)"

definition set_term :: "raft_term \<Rightarrow> raft_node \<Rightarrow> raft_node" where
  "set_term t n =
     (if hs_term (hs n) \<noteq> t
      then let hs' = (hs n)\<lparr>hs_term := t\<rparr>
           in n\<lparr>hs := hs', out := (out n)\<lparr>o_hard_state := Some hs'\<rparr>\<rparr>
      else n)"

definition set_vote :: "node_id option \<Rightarrow> raft_node \<Rightarrow> raft_node" where
  "set_vote v n =
     (if hs_voted_for (hs n) \<noteq> v
      then let hs' = (hs n)\<lparr>hs_voted_for := v\<rparr>
           in n\<lparr>hs := hs', out := (out n)\<lparr>o_hard_state := Some hs'\<rparr>\<rparr>
      else n)"

section \<open>Construction\<close>

definition raft_node_new :: "config \<Rightarrow> node_id list \<Rightarrow> persisted \<Rightarrow> raft_node" where
  "raft_node_new c initial_voters p =
     (let (si, st, vb, snap) =
            (case p_snapshot p of
               Some s \<Rightarrow> (s_last_index s, s_last_term s, s_voters s, p_snapshot p)
             | None \<Rightarrow> (0, 0, initial_voters, None));
          sd = c_seed c XOR (word_of_nat (c_id c) * 0x9E3779B97F4A7C15)
      in reset_election_timer
           \<lparr>cfg = c, rlog = log_new si st (p_entries p), hs = p_hard_state p,
            role = Follower, leader_id = None, commit = si, node_snapshot = snap,
            voters_base = vb, election_elapsed = 0, randomized_timeout = 0,
            heartbeat_elapsed = 0, tick_counter = 0, votes = bt_empty, prs = bt_empty,
            read_ctx_counter = 0, pending_reads = [], out = output_default,
            rng = sd OR 1\<rparr>)"

section \<open>Voters and quorums\<close>

fun apply_conf :: "conf_change \<Rightarrow> node_id list \<Rightarrow> node_id list" where
  "apply_conf (AddNode i) v = (if i \<in> set v then v else v @ [i])"
| "apply_conf (RemoveNode i) v = filter (\<lambda>x. x \<noteq> i) v"

fun conf_loop :: "index \<Rightarrow> entry list \<Rightarrow> node_id list \<Rightarrow> node_id list" where
  "conf_loop idx [] v = v"
| "conf_loop idx (e # es) v =
     (if idx < e_index e then v
      else conf_loop idx es
             (case e_payload e of ConfChange cc \<Rightarrow> apply_conf cc v | _ \<Rightarrow> v))"

definition voters_at :: "raft_node \<Rightarrow> index \<Rightarrow> node_id list" where
  "voters_at n idx = conf_loop idx (log_entries (rlog n)) (voters_base n)"

definition voters :: "raft_node \<Rightarrow> node_id list" where
  "voters n = voters_at n (last_index (rlog n))"

definition quorum :: "raft_node \<Rightarrow> nat" where
  "quorum n = length (voters n) div 2 + 1"

definition lease_valid :: "raft_node \<Rightarrow> bool" where
  "lease_valid n =
     (if role n \<noteq> Leader then False
      else let ticks = sort_desc (map (\<lambda>v. if v = nid n then tick_counter n
                         else (case bt_get (prs n) v of Some p \<Rightarrow> pr_last_resp_tick p | None \<Rightarrow> 0))
                         (voters n));
               q = quorum n
           in if length ticks < q then False
              else tick_counter n - ticks ! (q - 1) < c_election_tick_min (cfg n))"

definition count_granted :: "raft_node \<Rightarrow> nat" where
  "count_granted n =
     length (filter (\<lambda>(i, g). g \<and> i \<in> set (voters n)) (votes n))"

definition log_up_to_date :: "raft_node \<Rightarrow> index \<Rightarrow> raft_term \<Rightarrow> bool" where
  "log_up_to_date n lli llt \<longleftrightarrow> (llt, lli) \<ge> (last_term (rlog n), last_index (rlog n))"

section \<open>Replication: sending\<close>

definition sync_progress_with_voters :: "raft_node \<Rightarrow> raft_node" where
  "sync_progress_with_voters n =
     (if role n \<noteq> Leader then n
      else let nxt = last_index (rlog n) + 1;
               vs = voters n;
               prs1 = fold (\<lambda>peer m. if peer \<noteq> nid n
                                     then bt_or_insert peer (progress_new nxt) m else m) vs (prs n)
           in n\<lparr>prs := bt_retain (\<lambda>i _. i \<in> set vs) prs1\<rparr>)"

definition set_progress :: "node_id \<Rightarrow> progress \<Rightarrow> raft_node \<Rightarrow> raft_node" where
  "set_progress peer p n = n\<lparr>prs := bt_insert peer p (prs n)\<rparr>"

definition send_entries :: "node_id \<Rightarrow> progress \<Rightarrow> raft_node \<Rightarrow> raft_node" where
  "send_entries peer pr n =
     (let prev = pr_next pr - 1 in
      case log_term (rlog n) prev of
        None \<Rightarrow> set_progress peer pr n
      | Some prev_term \<Rightarrow>
          let es0 = log_slice (rlog n) (pr_next pr) (c_max_batch_entries (cfg n));
              full = es0 \<noteq> [] \<and> c_max_inflight (cfg n) \<le> pr_inflight pr;
              es = (if full then [] else es0);
              pr1 = (if full then pr\<lparr>pr_inflight := pr_inflight pr - 1\<rparr> else pr);
              pr2 = (if es \<noteq> []
                     then pr1\<lparr>pr_next := pr_next pr1 + length es, pr_inflight := pr_inflight pr1 + 1\<rparr>
                     else pr1)
          in push_msg peer (cur_term n)
               (AppendEntries prev prev_term es (commit n) (read_ctx_counter n))
               (set_progress peer pr2 n))"

definition send_append :: "node_id \<Rightarrow> raft_node \<Rightarrow> raft_node" where
  "send_append peer n =
     (case bt_get (prs n) peer of
        None \<Rightarrow> n
      | Some pr0 \<Rightarrow>
          if pr_pending_snapshot pr0 \<and>
             tick_counter n - pr_snapshot_sent_tick pr0 < c_election_tick_min (cfg n)
          then n
          else let pr = pr0\<lparr>pr_pending_snapshot := False\<rparr> in
            if pr_next pr \<le> snap_index (rlog n)
            then (case node_snapshot n of
                    Some snap \<Rightarrow>
                      push_msg peer (cur_term n) (InstallSnapshot snap)
                        (set_progress peer
                           (pr\<lparr>pr_pending_snapshot := True, pr_snapshot_sent_tick := tick_counter n\<rparr>) n)
                  | None \<Rightarrow> set_progress peer pr n)
            else send_entries peer pr n)"

definition broadcast_append :: "raft_node \<Rightarrow> raft_node" where
  "broadcast_append n =
     (let n1 = sync_progress_with_voters n in fold send_append (bt_keys (prs n1)) n1)"

section \<open>Commit\<close>

definition become_follower :: "raft_term \<Rightarrow> node_id option \<Rightarrow> raft_node \<Rightarrow> raft_node" where
  "become_follower t ldr n =
     (let n1 = (if hs_term (hs n) < t then set_vote None (set_term t n) else n)
      in reset_election_timer
           (n1\<lparr>role := Follower, leader_id := ldr, prs := bt_empty, pending_reads := []\<rparr>))"

definition commit_one :: "index \<Rightarrow> raft_node \<times> bool \<Rightarrow> raft_node \<times> bool" where
  "commit_one idx st =
     (case st of (n, stepped_down) \<Rightarrow>
       (case log_get (rlog n) idx of
          None \<Rightarrow> (n, stepped_down)
        | Some e \<Rightarrow>
            (n\<lparr>out := (out n)\<lparr>o_committed := o_committed (out n) @ [e]\<rparr>\<rparr>,
             (case e_payload e of
                ConfChange (RemoveNode i) \<Rightarrow>
                  if i = nid n \<and> role n = Leader then True else stepped_down
              | _ \<Rightarrow> stepped_down))))"

definition advance_commit_to :: "index \<Rightarrow> raft_node \<Rightarrow> raft_node" where
  "advance_commit_to new_commit n =
     (let old = commit n;
          (n1, stepped_down) = fold commit_one [old + 1..<new_commit + 1]
                                 (n\<lparr>commit := new_commit\<rparr>, False)
      in if stepped_down then become_follower (cur_term n1) None n1 else n1)"

definition maybe_advance_commit :: "raft_node \<Rightarrow> raft_node" where
  "maybe_advance_commit n =
     (if role n \<noteq> Leader then n
      else let matches = sort_desc (map (\<lambda>v. if v = nid n then last_index (rlog n)
                           else (case bt_get (prs n) v of Some p \<Rightarrow> pr_matched p | None \<Rightarrow> 0))
                           (voters n));
               q = quorum n
           in if length matches < q then n
              else let candidate = matches ! (q - 1)
                   in if commit n < candidate \<and> log_term (rlog n) candidate = Some (cur_term n)
                      then advance_commit_to candidate n else n)"

section \<open>Proposals and reads\<close>

definition append_local :: "entry_payload \<Rightarrow> raft_node \<Rightarrow> index \<times> raft_node" where
  "append_local pl n =
     (let idx = last_index (rlog n) + 1;
          e = \<lparr>e_term = cur_term n, e_index = idx, e_payload = pl\<rparr>;
          n1 = n\<lparr>rlog := log_push e (rlog n),
                 out := (out n)\<lparr>o_append := o_append (out n) @ [e]\<rparr>\<rparr>
      in (idx, broadcast_append (maybe_advance_commit n1)))"

definition propose :: "bytes \<Rightarrow> raft_node \<Rightarrow> (propose_error + index) \<times> raft_node" where
  "propose data n =
     (if role n \<noteq> Leader then (Inl (NotLeader (leader_id n)), n)
      else let (idx, n1) = append_local (Normal data) n in (Inr idx, n1))"

fun is_conf_change :: "entry_payload \<Rightarrow> bool" where
  "is_conf_change (ConfChange _) = True"
| "is_conf_change _ = False"

definition propose_conf_change ::
    "conf_change \<Rightarrow> raft_node \<Rightarrow> (propose_error + index) \<times> raft_node" where
  "propose_conf_change cc n =
     (if role n \<noteq> Leader then (Inl (NotLeader (leader_id n)), n)
      else if list_ex (\<lambda>e. commit n < e_index e \<and> is_conf_change (e_payload e)) (log_entries (rlog n))
      then (Inl ConfChangeInFlight, n)
      else let (idx, n1) = append_local (ConfChange cc) n
           in (Inr idx, sync_progress_with_voters n1))"

definition release_reads :: "nat \<Rightarrow> raft_node \<Rightarrow> raft_node" where
  "release_reads up_to_ctx n =
     (let released = map (\<lambda>(ctx, i, idx). (i, idx))
                       (filter (\<lambda>(ctx, i, idx). ctx \<le> up_to_ctx) (pending_reads n))
      in n\<lparr>pending_reads := filter (\<lambda>(ctx, i, idx). \<not> ctx \<le> up_to_ctx) (pending_reads n),
           out := (out n)\<lparr>o_read_states := o_read_states (out n) @ released\<rparr>\<rparr>)"

definition process_read_acks :: "raft_node \<Rightarrow> raft_node" where
  "process_read_acks n =
     (if pending_reads n = [] then n
      else let acks = sort_desc (map (\<lambda>v. if v = nid n then read_ctx_counter n
                        else (case bt_get (prs n) v of Some p \<Rightarrow> pr_acked_read_ctx p | None \<Rightarrow> 0))
                        (voters n));
               q = quorum n
           in if q \<le> length acks
              then let quorum_ctx = acks ! (q - 1)
                   in if 0 < quorum_ctx then release_reads quorum_ctx n else n
              else n)"

definition read_index :: "nat \<Rightarrow> raft_node \<Rightarrow> (propose_error + unit) \<times> raft_node" where
  "read_index request_id n =
     (if role n \<noteq> Leader then (Inl (NotLeader (leader_id n)), n)
      else if log_term (rlog n) (commit n) \<noteq> Some (cur_term n) then (Inl NotReady, n)
      else let c = read_ctx_counter n + 1;
               n1 = n\<lparr>read_ctx_counter := c,
                      pending_reads := pending_reads n @ [(c, request_id, commit n)]\<rparr>
           in (Inr (), if quorum n1 = 1 then release_reads c n1 else broadcast_append n1))"

section \<open>Elections\<close>

definition become_leader :: "raft_node \<Rightarrow> raft_node" where
  "become_leader n =
     (let n1 = n\<lparr>role := Leader, leader_id := Some (nid n), heartbeat_elapsed := 0,
                 prs := bt_empty, pending_reads := [], read_ctx_counter := 0\<rparr>;
          nxt = last_index (rlog n1) + 1;
          n2 = n1\<lparr>prs := fold (\<lambda>peer m. if peer \<noteq> nid n1
                                          then bt_insert peer (progress_new nxt) m else m)
                             (voters n1) (prs n1)\<rparr>;
          (idx, n3) = append_local Noop n2
      in broadcast_append n3)"

definition campaign :: "raft_node \<Rightarrow> raft_node" where
  "campaign n =
     (let n1 = set_vote (Some (nid n)) (set_term (cur_term n + 1) n);
          n2 = n1\<lparr>role := Candidate, leader_id := None,
                  votes := bt_insert (nid n) True bt_empty\<rparr>
      in if quorum n2 \<le> count_granted n2 then become_leader n2
         else let lli = last_index (rlog n2); llt = last_term (rlog n2)
              in fold (\<lambda>peer m. if peer = nid n2 then m
                                else push_msg peer (cur_term m) (RequestVote lli llt) m)
                   (voters n2) n2)"

definition campaign_pre :: "raft_node \<Rightarrow> raft_node" where
  "campaign_pre n =
     (let n1 = n\<lparr>role := PreCandidate, votes := bt_insert (nid n) True bt_empty\<rparr>
      in if quorum n1 \<le> count_granted n1 then campaign n1
         else let lli = last_index (rlog n1); llt = last_term (rlog n1)
              in fold (\<lambda>peer m. if peer = nid n1 then m
                                else push_msg peer (cur_term m + 1) (PreVote lli llt) m)
                   (voters n1) n1)"

definition tick :: "raft_node \<Rightarrow> raft_node" where
  "tick n =
     (let n1 = n\<lparr>tick_counter := tick_counter n + 1\<rparr> in
      if role n1 = Leader
      then let n2 = n1\<lparr>heartbeat_elapsed := heartbeat_elapsed n1 + 1\<rparr>
           in if c_heartbeat_tick (cfg n2) \<le> heartbeat_elapsed n2
              then broadcast_append (n2\<lparr>heartbeat_elapsed := 0\<rparr>) else n2
      else let n2 = n1\<lparr>election_elapsed := election_elapsed n1 + 1\<rparr>
           in if randomized_timeout n2 \<le> election_elapsed n2
              then let n3 = reset_election_timer n2
                   in if nid n3 \<in> set (voters n3)
                      then if c_pre_vote (cfg n3) then campaign_pre n3 else campaign n3
                      else n3
              else n2)"

section \<open>Message handlers\<close>

definition handle_pre_vote :: "node_id \<Rightarrow> raft_term \<Rightarrow> index \<Rightarrow> raft_term \<Rightarrow> raft_node \<Rightarrow> raft_node" where
  "handle_pre_vote from t lli llt n =
     (let leader_alive = (leader_id n \<noteq> None \<and> election_elapsed n < c_election_tick_min (cfg n));
          granted = (cur_term n < t \<and> log_up_to_date n lli llt \<and> \<not> leader_alive)
      in push_msg from (if granted then t else cur_term n) (PreVoteResp granted) n)"

definition handle_pre_vote_resp :: "node_id \<Rightarrow> raft_term \<Rightarrow> bool \<Rightarrow> raft_node \<Rightarrow> raft_node" where
  "handle_pre_vote_resp from t granted n =
     (if \<not> granted
      then if cur_term n < t then become_follower t None n else n
      else if role n \<noteq> PreCandidate \<or> t \<noteq> cur_term n + 1 then n
      else let n1 = n\<lparr>votes := bt_insert from True (votes n)\<rparr>
           in if quorum n1 \<le> count_granted n1 then campaign n1 else n1)"

definition handle_request_vote :: "node_id \<Rightarrow> index \<Rightarrow> raft_term \<Rightarrow> raft_node \<Rightarrow> raft_node" where
  "handle_request_vote from lli llt n =
     (let can_vote = (hs_voted_for (hs n) = None \<or> hs_voted_for (hs n) = Some from);
          granted = (can_vote \<and> log_up_to_date n lli llt);
          n1 = (if granted then reset_election_timer (set_vote (Some from) n) else n)
      in push_msg from (cur_term n1) (RequestVoteResp granted) n1)"

definition handle_request_vote_resp :: "node_id \<Rightarrow> bool \<Rightarrow> raft_node \<Rightarrow> raft_node" where
  "handle_request_vote_resp from granted n =
     (if role n \<noteq> Candidate then n
      else let n1 = n\<lparr>votes := bt_insert from granted (votes n)\<rparr>
           in if quorum n1 \<le> count_granted n1 then become_leader n1 else n1)"

definition reply_append :: "node_id \<Rightarrow> bool \<Rightarrow> index \<Rightarrow> index \<Rightarrow> nat \<Rightarrow> raft_node \<Rightarrow> raft_node" where
  "reply_append dst success match_index conflict_index read_ctx n =
     push_msg dst (cur_term n) (AppendEntriesResp success match_index conflict_index read_ctx) n"

text \<open>The \<open>while\<close> loop that walks back to the first index of the conflicting term.\<close>

fun conflict_start :: "raft_log \<Rightarrow> raft_term \<Rightarrow> index \<Rightarrow> index" where
  "conflict_start l t 0 = 0"
| "conflict_start l t (Suc c) =
     (if first_index l < Suc c \<and> log_term l c = Some t then conflict_start l t c else Suc c)"

text \<open>
  The loop that looks for the first new entry: the truncated log and the entries to append, or
  the panic the code raises.
\<close>

fun find_new :: "node_id \<Rightarrow> node_id \<Rightarrow> index \<Rightarrow> raft_log \<Rightarrow> entry list \<Rightarrow> raft_panic + (raft_log \<times> entry list)" where
  "find_new from me cmt l [] = Inr (l, [])"
| "find_new from me cmt l (e # es) =
     (case log_term l (e_index e) of
        None \<Rightarrow> Inr (l, e # es)
      | Some t \<Rightarrow>
          if t = e_term e then find_new from me cmt l es
          else if \<not> cmt < e_index e then Inl (OverwriteCommitted from (e_index e) me)
          else (case truncate_from (e_index e) l of
                  None \<Rightarrow> Inl (TruncateIntoSnapshot (e_index e))
                | Some l' \<Rightarrow> Inr (l', e # es)))"

definition append_verified ::
    "node_id \<Rightarrow> index \<Rightarrow> entry list \<Rightarrow> index \<Rightarrow> nat \<Rightarrow> raft_node \<Rightarrow> raft_panic + raft_node" where
  "append_verified from prev_idx es leader_commit read_ctx n =
     (case find_new from (nid n) (commit n) (rlog n) es of
        Inl p \<Rightarrow> Inl p
      | Inr (l, to_append) \<Rightarrow>
          let n1 = n\<lparr>rlog := fold log_push to_append l,
                     out := (out n)\<lparr>o_append := o_append (out n) @ to_append\<rparr>\<rparr>;
              new_last = prev_idx + length es;
              commit_target = min leader_commit new_last;
              n2 = (if commit n1 < commit_target then advance_commit_to commit_target n1 else n1)
          in Inr (reply_append from True new_last 0 read_ctx n2))"

definition handle_append_entries ::
    "node_id \<Rightarrow> index \<Rightarrow> raft_term \<Rightarrow> entry list \<Rightarrow> index \<Rightarrow> nat \<Rightarrow> raft_node \<Rightarrow> raft_panic + raft_node" where
  "handle_append_entries from prev_log_index prev_log_term es0 leader_commit read_ctx n0 =
     (let n = n0\<lparr>role := Follower, leader_id := Some from, election_elapsed := 0\<rparr>;
          si = snap_index (rlog n);
          covered = si - prev_log_index in
      if prev_log_index < si \<and> length es0 \<le> covered
      then Inr (reply_append from True si 0 read_ctx n)
      else
        let (es, prev_idx, prev_term) =
              (if prev_log_index < si then (drop covered es0, si, snap_term (rlog n))
               else (es0, prev_log_index, prev_log_term))
        in case log_term (rlog n) prev_idx of
             None \<Rightarrow> Inr (reply_append from False 0 (last_index (rlog n) + 1) read_ctx n)
           | Some t \<Rightarrow>
               if t \<noteq> prev_term
               then Inr (reply_append from False 0 (conflict_start (rlog n) t prev_idx) read_ctx n)
               else append_verified from prev_idx es leader_commit read_ctx n)"

definition handle_append_resp ::
    "node_id \<Rightarrow> bool \<Rightarrow> index \<Rightarrow> index \<Rightarrow> nat \<Rightarrow> raft_node \<Rightarrow> raft_node" where
  "handle_append_resp from success match_index conflict_index read_ctx n =
     (if role n \<noteq> Leader then n
      else let li = last_index (rlog n) in
        case bt_get (prs n) from of
          None \<Rightarrow> n
        | Some pr0 \<Rightarrow>
            let pr = pr0\<lparr>pr_last_resp_tick := tick_counter n,
                         pr_acked_read_ctx := max (pr_acked_read_ctx pr0) read_ctx\<rparr>
            in if success
               then let pr1 = pr\<lparr>pr_matched := (if pr_matched pr < match_index then match_index
                                                else pr_matched pr),
                                 pr_next := max (pr_next pr) (match_index + 1),
                                 pr_inflight := pr_inflight pr - 1\<rparr>;
                        n1 = process_read_acks (maybe_advance_commit (set_progress from pr1 n))
                    in (case bt_get (prs n1) from of
                          Some p \<Rightarrow> if pr_next p \<le> li then send_append from n1 else n1
                        | None \<Rightarrow> n1)
               else if 0 < conflict_index
               then send_append from
                      (set_progress from
                         (pr\<lparr>pr_next := max 1 (min conflict_index (li + 1)), pr_inflight := 0\<rparr>) n)
               else set_progress from pr n)"

definition handle_install_snapshot :: "node_id \<Rightarrow> snapshot \<Rightarrow> raft_node \<Rightarrow> raft_node" where
  "handle_install_snapshot from snap n0 =
     (let n = n0\<lparr>role := Follower, leader_id := Some from, election_elapsed := 0\<rparr> in
      if s_last_index snap \<le> commit n
      then push_msg from (cur_term n) (InstallSnapshotResp (commit n)) n
      else if log_term (rlog n) (s_last_index snap) = Some (s_last_term snap)
      then let n1 = advance_commit_to (s_last_index snap) n
           in push_msg from (cur_term n1) (InstallSnapshotResp (s_last_index snap)) n1
      else let n1 = n\<lparr>rlog := reset_to_snapshot (s_last_index snap) (s_last_term snap) (rlog n),
                      commit := s_last_index snap,
                      voters_base := s_voters snap,
                      node_snapshot := Some snap,
                      out := (out n)\<lparr>o_snapshot := Some snap\<rparr>\<rparr>
           in push_msg from (cur_term n1) (InstallSnapshotResp (s_last_index snap)) n1)"

definition handle_install_snapshot_resp :: "node_id \<Rightarrow> index \<Rightarrow> raft_node \<Rightarrow> raft_node" where
  "handle_install_snapshot_resp from li n =
     (if role n \<noteq> Leader then n
      else case bt_get (prs n) from of
             None \<Rightarrow> n
           | Some pr \<Rightarrow>
               let pr1 = pr\<lparr>pr_pending_snapshot := False,
                            pr_last_resp_tick := tick_counter n,
                            pr_matched := (if pr_matched pr < li then li else pr_matched pr),
                            pr_next := max (pr_next pr) (li + 1),
                            pr_inflight := 0\<rparr>
               in send_append from (maybe_advance_commit (set_progress from pr1 n)))"

section \<open>The step function\<close>

text \<open>What a message from a lower term is answered with.\<close>

definition answer_stale :: "message \<Rightarrow> raft_node \<Rightarrow> raft_node" where
  "answer_stale msg n =
     (case m_body msg of
        AppendEntries _ _ _ _ read_ctx \<Rightarrow>
          push_msg (m_from msg) (cur_term n) (AppendEntriesResp False 0 0 read_ctx) n
      | RequestVote _ _ \<Rightarrow> push_msg (m_from msg) (cur_term n) (RequestVoteResp False) n
      | _ \<Rightarrow> n)"

definition leader_of_msg :: "message \<Rightarrow> node_id option" where
  "leader_of_msg msg =
     (case m_body msg of
        AppendEntries _ _ _ _ _ \<Rightarrow> Some (m_from msg)
      | InstallSnapshot _ \<Rightarrow> Some (m_from msg)
      | _ \<Rightarrow> None)"

definition dispatch :: "message \<Rightarrow> raft_node \<Rightarrow> raft_panic + raft_node" where
  "dispatch msg n =
     (case m_body msg of
        PreVote lli llt \<Rightarrow> Inr n
      | PreVoteResp granted \<Rightarrow> Inr n
      | RequestVote lli llt \<Rightarrow> Inr (handle_request_vote (m_from msg) lli llt n)
      | RequestVoteResp granted \<Rightarrow> Inr (handle_request_vote_resp (m_from msg) granted n)
      | AppendEntries pi pt es lc rc \<Rightarrow> handle_append_entries (m_from msg) pi pt es lc rc n
      | AppendEntriesResp s mi ci rc \<Rightarrow> Inr (handle_append_resp (m_from msg) s mi ci rc n)
      | InstallSnapshot snap \<Rightarrow> Inr (handle_install_snapshot (m_from msg) snap n)
      | InstallSnapshotResp li \<Rightarrow> Inr (handle_install_snapshot_resp (m_from msg) li n))"

definition step :: "message \<Rightarrow> raft_node \<Rightarrow> raft_panic + raft_node" where
  "step msg n =
     (case m_body msg of
        PreVote lli llt \<Rightarrow> Inr (handle_pre_vote (m_from msg) (m_term msg) lli llt n)
      | PreVoteResp granted \<Rightarrow> Inr (handle_pre_vote_resp (m_from msg) (m_term msg) granted n)
      | _ \<Rightarrow>
          if m_term msg < cur_term n then Inr (answer_stale msg n)
          else dispatch msg
                 (if cur_term n < m_term msg
                  then become_follower (m_term msg) (leader_of_msg msg) n else n))"

section \<open>Local compaction\<close>

definition compact :: "index \<Rightarrow> bytes \<Rightarrow> raft_node \<Rightarrow> snapshot option \<times> raft_node" where
  "compact applied sm_data n =
     (if applied \<le> snap_index (rlog n) \<or> commit n < applied then (None, n)
      else case log_term (rlog n) applied of
             None \<Rightarrow> (None, n)
           | Some t \<Rightarrow>
               let vs = voters_at n applied;
                   snap = \<lparr>s_last_index = applied, s_last_term = t, s_voters = vs, s_data = sm_data\<rparr>
               in (Some snap,
                   n\<lparr>voters_base := vs, rlog := log_compact applied t (rlog n),
                     node_snapshot := Some snap\<rparr>))"

end
