(* ===== verification/Raft_Safety.thy ===== *)
theory Raft_Safety
  imports Raft_Spec
begin

text \<open>
  The safety of the abstract protocol: its rules preserve the invariant of \<open>Raft_Spec\<close>, and the
  invariant gives one leader per term, log matching, leader completeness and agreement on committed
  prefixes.
\<close>

section \<open>Facts on logs, majorities and growing histories\<close>

lemma take_prefix: "prefix a b \<Longrightarrow> m \<le> length a \<Longrightarrow> take m b = take m a"
  by (auto elim!: prefixE)

lemma take_take_le: "take m a = take m b \<Longrightarrow> k \<le> m \<Longrightarrow> take k a = take k b"
  by (metis min.absorb1 take_take)

lemma take_eq_length: "take m a = take m b \<Longrightarrow> m \<le> length b \<Longrightarrow> m \<le> length a"
  by (metis length_take min.absorb_iff2 min.commute)

lemma take_eq_nth: "take m a = take m b \<Longrightarrow> k < m \<Longrightarrow> a ! k = b ! k"
  by (metis nth_take)

lemma tm_take: "take m a = take m b \<Longrightarrow> k \<le> m \<Longrightarrow> tm a k = tm b k"
  unfolding tm_def by (auto intro!: arg_cong [where f = e_term] take_eq_nth)

lemma majority_meet:
  assumes "finite V" and "majority V Q" and "majority V Q'"
  obtains j where "j \<in> Q" and "j \<in> Q'"
proof -
  have "Q \<inter> Q' \<noteq> {}"
    using assms majority_intersect [of V Q Q'] by (auto simp: majority_def)
  then show thesis using that by blast
qed

lemma take_llog_ext:
  "ext s s' \<Longrightarrow> h_leader s t = Some i \<Longrightarrow> m \<le> length (h_llog s t) \<Longrightarrow>
   take m (h_llog s' t) = take m (h_llog s t)"
  unfolding ext_def by (blast intro: take_prefix)

lemma length_llog_ext:
  "ext s s' \<Longrightarrow> h_leader s t = Some i \<Longrightarrow> length (h_llog s t) \<le> length (h_llog s' t)"
  unfolding ext_def using prefix_length_le by blast

lemma leader_ext: "ext s s' \<Longrightarrow> h_leader s t = Some i \<Longrightarrow> h_leader s' t = Some i"
  unfolding ext_def by blast

lemma base_ext: "ext s s' \<Longrightarrow> h_leader s t = Some i \<Longrightarrow> h_base s' t = h_base s t"
  unfolding ext_def by blast

lemma acks_ext: "ext s s' \<Longrightarrow> a \<in> h_acks s \<Longrightarrow> a \<in> h_acks s'"
  unfolding ext_def by blast

lemma vote_ext: "ext s s' \<Longrightarrow> h_vote s j t = Some c \<Longrightarrow> h_vote s' j t = Some c"
  unfolding ext_def by blast

lemma clog_ext: "ext s s' \<Longrightarrow> h_vote s c t = Some c \<Longrightarrow> h_clog s' t c = h_clog s t c"
  unfolding ext_def by blast

lemma term_ext: "ext s s' \<Longrightarrow> a_term (an s i) \<le> a_term (an s' i)"
  unfolding ext_def by blast

lemma origin_ext:
  assumes "origin s l" and "ext s s'"
  shows "origin s' l"
  unfolding origin_def Let_def
proof (intro allI impI)
  fix k
  let ?t = "e_term (l ! k)"
  assume "k < length l"
  then obtain i where o: "h_leader s ?t = Some i" "h_base s ?t \<le> k" "k < length (h_llog s ?t)"
    "take (Suc k) l = take (Suc k) (h_llog s ?t)"
    using assms(1) unfolding origin_def Let_def by blast
  then show "h_leader s' ?t \<noteq> None \<and> h_base s' ?t \<le> k \<and> k < length (h_llog s' ?t) \<and>
      take (Suc k) l = take (Suc k) (h_llog s' ?t)"
    using leader_ext [OF assms(2) o(1)] base_ext [OF assms(2) o(1)]
      length_llog_ext [OF assms(2) o(1)] take_llog_ext [OF assms(2) o(1), of "Suc k"] by simp
qed

lemma origin_take: "origin s l \<Longrightarrow> origin s (take n l)"
  unfolding origin_def Let_def by (auto simp: min_def)

lemma originD:
  assumes "origin s l" and "k < length l"
  shows "take (Suc k) l = take (Suc k) (h_llog s (e_term (l ! k)))"
    and "\<exists>i. h_leader s (e_term (l ! k)) = Some i"
    and "h_base s (e_term (l ! k)) \<le> k" and "k < length (h_llog s (e_term (l ! k)))"
  using assms unfolding origin_def Let_def by auto

text \<open>Log matching: the term at an index fixes the whole log up to that index.\<close>

lemma origin_matching:
  assumes "origin s a" and "origin s b" and "p \<le> length a" and "p \<le> length b" and "tm a p = tm b p"
  shows "take p a = take p b"
proof (cases p)
  case (Suc k)
  then show ?thesis
    using assms originD(1) [of s a k] originD(1) [of s b k] by (simp add: tm_def)
qed simp

lemma has_ext:
  assumes "ext s s'" and "h_leader s u = Some i" and "h_leader s t = Some j"
    and "h_base s u \<le> length (h_llog s u)" and "m \<le> length (h_llog s t)"
  shows "has s' u t m \<longleftrightarrow> has s u t m"
  using assms take_llog_ext [OF assms(1,2)] take_llog_ext [OF assms(1,3)]
  unfolding has_def base_ext [OF assms(1,2)] by auto

lemma committed_ext:
  assumes "committed V s t m" and "ext s s'"
  shows "committed V s' t m"
proof -
  obtain i Q where o: "h_leader s t = Some i" "h_base s t < m" "m \<le> length (h_llog s t)"
    "majority V Q" "\<forall>j\<in>Q. \<exists>m'\<ge>m. (j, t, m') \<in> h_acks s"
    using assms(1) unfolding committed_def by auto
  then have "\<forall>j\<in>Q. \<exists>m'\<ge>m. (j, t, m') \<in> h_acks s'"
    using acks_ext [OF assms(2)] by blast
  then show ?thesis
    using o leader_ext [OF assms(2) o(1)] base_ext [OF assms(2) o(1)]
      length_llog_ext [OF assms(2) o(1)] unfolding committed_def by auto
qed

lemma committedD: "committed V s t m \<Longrightarrow> \<exists>i. h_leader s t = Some i \<and> m \<le> length (h_llog s t)"
  unfolding committed_def by auto

lemma safe_ext:
  assumes "safe V s T l c" and "ext s s'" and "T \<le> T'"
    and "take c l' = take c l" and "c \<le> length l'"
  shows "safe V s' T' l' c"
proof (cases "c = 0")
  case False
  then obtain t m where tm: "committed V s t m" "c \<le> m" "t \<le> T" "take c l = take c (h_llog s t)"
    using assms(1) unfolding safe_def by auto
  moreover have "take c (h_llog s' t) = take c (h_llog s t)"
    using committedD [OF tm(1)] tm(2) take_llog_ext [OF assms(2)] by (meson order_trans)
  ultimately show ?thesis
    using assms(3-5) committed_ext [OF tm(1) assms(2)] unfolding safe_def
    by (intro conjI disjI2 exI [of _ t] exI [of _ m]) simp_all
qed (simp add: safe_def)

lemma safe_llog_ext:
  assumes "safe V s T (h_llog s T) c" and "ext s s'" and "h_leader s T = Some i"
  shows "safe V s' T (h_llog s' T) c"
  using assms take_llog_ext [OF assms(2,3)] length_llog_ext [OF assms(2,3)]
  by (intro safe_ext [OF assms(1,2)]) (auto simp: safe_def)

lemma safe_le: "safe V s T l c \<Longrightarrow> c' \<le> c \<Longrightarrow> safe V s T l c'"
  unfolding safe_def by (meson le_trans le_zero_eq take_take_le)

lemma msg_ok_ext: 
  assumes "msg_ok V s m" and "ext s s'"
  shows "msg_ok V s' m"
proof (cases m)
  case (AAppend ldr j T p pt es lc)
  have T: "h_leader s T = Some ldr" and le: "p + length es \<le> length (h_llog s T)"
    and es: "es = take (length es) (drop p (h_llog s T))" and pt: "pt = tm (h_llog s T) p"
    using assms(1) AAppend by auto
  have tk: "take (p + length es) (h_llog s' T) = take (p + length es) (h_llog s T)"
    by (rule take_llog_ext [OF assms(2) T le])
  then have "take (length es) (drop p (h_llog s' T)) = es"
    using es by (metis take_drop add.commute)
  moreover have "pt = tm (h_llog s' T) p"
    using pt tm_take [OF tk, of p] by simp
  ultimately show ?thesis
    using assms AAppend leader_ext [OF assms(2) T] length_llog_ext [OF assms(2) T]
      safe_llog_ext [OF _ assms(2) T] by simp
next
  case (ASnap ldr j T pfx)
  then have T: "h_leader s T = Some ldr" "prefix pfx (h_llog s T)"
    "safe V s T (h_llog s T) (length pfx)"
    using assms(1) by auto
  moreover have "prefix (h_llog s T) (h_llog s' T)"
    using assms(2) T(1) unfolding ext_def by blast
  ultimately show ?thesis
    using ASnap leader_ext [OF assms(2) T(1)] safe_llog_ext [OF T(3) assms(2) T(1)]
      prefix_order.trans by auto
next
  case (ARequestVote c j T lli llt)
  then show ?thesis
    using assms(1) vote_ext [OF assms(2), of c T c] clog_ext [OF assms(2), of c T] by simp
next
  case (AVote j c T)
  then show ?thesis using assms(1) vote_ext [OF assms(2), of j T c] by simp
next
  case (AAck j ldr T m')
  then show ?thesis using assms(1) acks_ext [OF assms(2)] by simp
qed

section \<open>Consequences of the invariant\<close>

lemma ainvD:
  assumes "ainv V s"
  shows ainv_node: "node_ok V s i"
    and ainv_leader: "h_leader s t = Some i \<Longrightarrow> leader_ok V s t i"
    and ainv_vote: "h_vote s j t = Some c \<Longrightarrow> vote_ok s j t c"
    and ainv_msg: "m \<in> anet s \<Longrightarrow> msg_ok V s m"
    and ainv_ack: "(j, t, n) \<in> h_acks s \<Longrightarrow> ack_ok s j t n"
    and ainv_ack_vote: "(j, t, n) \<in> h_acks s \<Longrightarrow> h_vote s j T = Some c \<Longrightarrow> h_leader s T = None \<Longrightarrow>
      ack_vote_ok s j t n T c"
  using assms unfolding ainv_def by blast+

lemma leader_unique:
  assumes "ainv V s" and "finite V" and "h_leader s t = Some i"
    and "majority V Q" and "\<forall>j\<in>Q. h_vote s j t = Some k"
  shows "k = i"
proof -
  obtain Q' where "majority V Q'" "\<forall>j\<in>Q'. h_vote s j t = Some i"
    using ainv_leader [OF assms(1,3)] unfolding leader_ok_def by auto
  then show ?thesis
    using majority_meet [OF assms(2,4)] assms(5) by (metis option.inject)
qed

lemma leader_completeness:
  assumes "ainv V s" and "finite V" and "committed V s t m"
  shows "t < T \<Longrightarrow> h_leader s T = Some c \<Longrightarrow> has s T t m"
proof (induction T arbitrary: c rule: less_induct)
  case (less T)
  obtain Q where Q: "majority V Q" "\<forall>j\<in>Q. \<exists>m'\<ge>m. (j, t, m') \<in> h_acks s"
    and m: "h_base s t < m" "m \<le> length (h_llog s t)"
    using assms(3) unfolding committed_def by auto
  obtain Q' where Q': "majority V Q'"
      "\<forall>j\<in>Q'. \<forall>u m. (j, u, m) \<in> h_acks s \<longrightarrow> ack_vote_ok s j u m T c"
    and cl: "h_clog s T c = take (h_base s T) (h_llog s T)" "h_base s T \<le> length (h_llog s T)"
    using ainv_leader [OF assms(1) less.prems(2)] unfolding leader_ok_def by auto
  obtain j where j: "j \<in> Q" "j \<in> Q'" by (rule majority_meet [OF assms(2) Q(1) Q'(1)])
  then obtain m' where m': "m \<le> m'" "(j, t, m') \<in> h_acks s" using Q(2) by blast
  have "ack_vote_ok s j t m' T c"
    using Q'(2) j(2) m'(2) by blast
  then have "take m (h_clog s T c) = take m (h_llog s t)"
    unfolding ack_vote_ok_def using less.IH less.prems(1) m(1) m'(1) by blast
  then have "m \<le> length (h_clog s T c)" "take m (h_llog s T) = take m (h_llog s t)"
    using m(2) cl(1) take_eq_length [of m "h_clog s T c"]
    by auto
  then show ?case unfolding has_def using cl by simp
qed

text \<open>A committed prefix is a prefix of the log of every leader from that term on.\<close>

lemma safe_in_leader:
  assumes "ainv V s" and "finite V" and "safe V s T l c" and "T \<le> T'" and "h_leader s T' = Some i"
  shows "take c l = take c (h_llog s T')" and "c \<le> length (h_llog s T')"
proof -
  have "take c l = take c (h_llog s T') \<and> c \<le> length (h_llog s T')"
  proof (cases "c = 0")
    case False
    then obtain t m where t: "committed V s t m" "c \<le> m" "t \<le> T" "take c l = take c (h_llog s t)"
      using assms(3) unfolding safe_def by auto
    have ml: "m \<le> length (h_llog s t)" using committedD [OF t(1)] by auto
    have "take m (h_llog s T') = take m (h_llog s t)"
    proof (cases "t = T'")
      case False
      then show ?thesis
        using leader_completeness [OF assms(1,2) t(1) _ assms(5)] t(3) assms(4)
        unfolding has_def by simp
    qed simp
    then show ?thesis
      using t ml take_eq_length take_take_le by (metis order_trans)
  qed simp
  then show "take c l = take c (h_llog s T')" "c \<le> length (h_llog s T')" by auto
qed

lemma safe_agree:
  assumes inv: "ainv V s" "finite V" and a: "safe V s T a c" and b: "safe V s T' b d" and le: "c \<le> d"
  shows "take c a = take c b"
proof (cases "c = 0")
  case False
  then obtain t m where t: "committed V s t m" "c \<le> m" "t \<le> T" "take c a = take c (h_llog s t)"
    using a unfolding safe_def by auto
  obtain u n where u: "committed V s u n" "d \<le> n" "u \<le> T'" "take d b = take d (h_llog s u)"
    using b le False unfolding safe_def by auto
  have "take c (h_llog s t) = take c (h_llog s u)"
  proof (cases "t \<le> u")
    case True
    have "safe V s t (h_llog s t) m" using t(1) committedD [OF t(1)] unfolding safe_def by auto
    then show ?thesis
      using safe_in_leader(1) [OF inv] True committedD [OF u(1)] t(2) take_take_le by metis
  next
    case False
    have "safe V s u (h_llog s u) n" using u(1) committedD [OF u(1)] unfolding safe_def by auto
    then show ?thesis
      using safe_in_leader(1) [OF inv, of u "h_llog s u" n t] False committedD [OF t(1)] u(2) le
        take_take_le [of n "h_llog s u" "h_llog s t" c] by auto
  qed
  then show ?thesis using t(4) u(4) take_take_le [OF u(4) le] by simp
qed simp

section \<open>What a step of one node leaves alone\<close>

definition local :: "node_id \<Rightarrow> acluster \<Rightarrow> acluster \<Rightarrow> bool" where
  "local i s s' \<longleftrightarrow> (\<forall>j. j \<noteq> i \<longrightarrow> an s' j = an s j \<and> h_vote s' j = h_vote s j \<and>
     (\<forall>t. h_leader s t = Some j \<longrightarrow> h_llog s' t = h_llog s t) \<and>
     (\<forall>t. h_leader s' t = Some j \<longrightarrow> h_leader s t = Some j))"

lemma node_okD:
  assumes "node_ok V s j"
  shows "wf_log (a_term (an s j)) (a_log (an s j))" and "origin s (a_log (an s j))"
    and "h_vote s j (a_term (an s j)) = a_vote (an s j)"
    and "safe V s (a_term (an s j)) (a_log (an s j)) (a_commit (an s j))"
    and "a_role (an s j) = Leader \<Longrightarrow> h_leader s (a_term (an s j)) = Some j"
    and "a_role (an s j) = Leader \<Longrightarrow> a_log (an s j) = h_llog s (a_term (an s j))"
    and "a_role (an s j) = Leader \<Longrightarrow> (j, a_term (an s j), length (a_log (an s j))) \<in> h_acks s"
    and "a_role (an s j) = Leader \<Longrightarrow>
      a_match (an s j) k = 0 \<or> (k, a_term (an s j), a_match (an s j) k) \<in> h_acks s"
    and "a_role (an s j) = Candidate \<Longrightarrow> a_vote (an s j) = Some j"
    and "a_role (an s j) = Candidate \<Longrightarrow> h_clog s (a_term (an s j)) j = a_log (an s j)"
    and "a_role (an s j) = Candidate \<Longrightarrow> k \<in> a_granted (an s j) \<Longrightarrow>
      h_vote s k (a_term (an s j)) = Some j"
  using assms unfolding node_ok_def by blast+

lemma node_ok_ext:
  assumes ok: "node_ok V s j" and e: "ext s s'" and l: "local i s s'" and ne: "j \<noteq> i"
  shows "node_ok V s' j"
proof -
  have j: "an s' j = an s j" "h_vote s' j = h_vote s j"
    "\<And>t. h_leader s t = Some j \<Longrightarrow> h_llog s' t = h_llog s t"
    using l ne unfolding local_def by blast+
  have "safe V s' (a_term (an s j)) (a_log (an s j)) (a_commit (an s j))"
    by (rule safe_ext [OF node_okD(4) [OF ok] e])
      (use node_okD(4) [OF ok] in \<open>simp_all add: safe_def\<close>)
  moreover have "h_vote s' k (a_term (an s j)) = Some j"
    if "a_role (an s j) = Candidate" "k \<in> a_granted (an s j)" for k
    using vote_ext [OF e node_okD(11) [OF ok that]] .
  moreover have "h_clog s' (a_term (an s j)) j = a_log (an s j)" if "a_role (an s j) = Candidate"
    using clog_ext [OF e, of j "a_term (an s j)"] node_okD(3,9,10) [OF ok] that by simp
  moreover have "a_log (an s j) = h_llog s' (a_term (an s j))" if "a_role (an s j) = Leader"
    using node_okD(5,6) [OF ok that] j(3) by simp
  moreover have "a_match (an s j) k = 0 \<or> (k, a_term (an s j), a_match (an s j) k) \<in> h_acks s'"
    if "a_role (an s j) = Leader" for k
    using node_okD(8) [OF ok that, of k] acks_ext [OF e] by blast
  ultimately show ?thesis
    using node_okD(1,3,9) [OF ok] origin_ext [OF node_okD(2) [OF ok] e]
      leader_ext [OF e node_okD(5) [OF ok]] acks_ext [OF e node_okD(7) [OF ok]]
    unfolding node_ok_def j(1,2) by (intro conjI impI allI ballI) simp_all
qed

lemma vote_ok_ext:
  assumes "vote_ok s j t c" and "ext s s'"
  shows "vote_ok s' j t c"
  using assms(1) vote_ext [OF assms(2), of c t c] clog_ext [OF assms(2), of c t]
    origin_ext [OF _ assms(2), of "h_clog s t c"] term_ext [OF assms(2), of j]
  unfolding vote_ok_def by simp

lemma later_leaders_ext:
  assumes "ainv V s" and "ext s s'" and "h_leader s t = Some l" and "m0 \<le> length (h_llog s t)"
    and "\<forall>u. t < u \<and> P' u \<and> h_leader s' u \<noteq> None \<longrightarrow> has s' u t m0" and "\<And>u. P u \<Longrightarrow> P' u"
  shows "\<forall>u. t < u \<and> P u \<and> h_leader s u \<noteq> None \<longrightarrow> has s u t m0"
proof (intro allI impI)
  fix u assume u: "t < u \<and> P u \<and> h_leader s u \<noteq> None"
  then obtain i where i: "h_leader s u = Some i" by auto
  have "has s' u t m0" using assms(5,6) u leader_ext [OF assms(2) i] by simp
  then show "has s u t m0"
    using has_ext [OF assms(2) i assms(3) _ assms(4)] ainv_leader [OF assms(1) i]
    unfolding leader_ok_def by simp
qed

lemma ack_vote_ok_ext:
  assumes "ainv V s" and "ext s s'" and "(j, t, m) \<in> h_acks s" and "h_vote s j T = Some c"
    and "ack_vote_ok s j t m T c"
  shows "ack_vote_ok s' j t m T c"
  unfolding ack_vote_ok_def
proof (intro allI impI)
  fix m0
  assume m0: "m0 \<le> m" and *: "t < T \<and> h_base s' t < m0 \<and>
    (\<forall>u. t < u \<and> u < T \<and> h_leader s' u \<noteq> None \<longrightarrow> has s' u t m0)"
  obtain l where l: "h_leader s t = Some l" and le: "m0 \<le> length (h_llog s t)"
    using ainv_ack [OF assms(1,3)] m0 unfolding ack_ok_def by auto
  have "\<forall>u. t < u \<and> u < T \<and> h_leader s u \<noteq> None \<longrightarrow> has s u t m0"
    using * by (intro later_leaders_ext [OF assms(1,2) l le, where P' = "\<lambda>u. u < T"]) auto
  then have "take m0 (h_clog s T c) = take m0 (h_llog s t)"
    using assms(5) m0 * base_ext [OF assms(2) l] unfolding ack_vote_ok_def by auto
  moreover have "h_clog s' T c = h_clog s T c"
    using ainv_vote [OF assms(1,4)] clog_ext [OF assms(2)] unfolding vote_ok_def by blast
  ultimately show "take m0 (h_clog s' T c) = take m0 (h_llog s' t)"
    using take_llog_ext [OF assms(2) l le] by simp
qed

lemma leader_ok_ext:
  assumes inv: "ainv V s" and ok: "leader_ok V s t k" and e: "ext s s'" and h: "h_leader s t = Some k"
    and l: "h_llog s' t = h_llog s t" and r: "a_term (an s' k) = t \<Longrightarrow> a_role (an s' k) \<noteq> Candidate"
    and acks: "\<And>j u m. (j, u, m) \<in> h_acks s' \<Longrightarrow> (j, u, m) \<in> h_acks s \<or> u = a_term (an s' j)"
  shows "leader_ok V s' t k"
proof -
  obtain Q where Q: "majority V Q" "\<And>j. j \<in> Q \<Longrightarrow> h_vote s j t = Some k"
    "\<And>j u m. j \<in> Q \<Longrightarrow> (j, u, m) \<in> h_acks s \<Longrightarrow> ack_vote_ok s j u m t k"
    using ok unfolding leader_ok_def by blast
  have av: "ack_vote_ok s' j u m t k" if j: "j \<in> Q" and a: "(j, u, m) \<in> h_acks s'" for j u m
  proof (cases "(j, u, m) \<in> h_acks s")
    case True
    then show ?thesis using ack_vote_ok_ext [OF inv e True Q(2) [OF j] Q(3) [OF j True]] by simp
  next
    case False
    have "t \<le> a_term (an s' j)"
      using ainv_vote [OF inv Q(2) [OF j]] term_ext [OF e, of j] unfolding vote_ok_def by simp
    then show ?thesis using acks [OF a] False unfolding ack_vote_ok_def by auto
  qed
  have "h_vote s k t = Some k"
  proof -
    have "Q \<noteq> {}" using Q(1) by (auto simp: majority_def)
    then show ?thesis using Q(2) ainv_vote [OF inv] unfolding vote_ok_def by blast
  qed
  then have "h_clog s' t k = h_clog s t k" by (rule clog_ext [OF e])
  moreover have "\<exists>Q. majority V Q \<and> (\<forall>j\<in>Q. h_vote s' j t = Some k \<and>
      (\<forall>u m. (j, u, m) \<in> h_acks s' \<longrightarrow> ack_vote_ok s' j u m t k))"
    using Q(1,2) av vote_ext [OF e] by blast
  ultimately show ?thesis
    using ok r base_ext [OF e h] origin_ext [OF _ e, of "h_llog s t"] term_ext [OF e, of k]
    unfolding leader_ok_def l by simp
qed

text \<open>
  The new log of node \<open>j\<close> keeps every prefix that the old one shared with the leader of the node's
  term.
\<close>

definition keeps :: "acluster \<Rightarrow> acluster \<Rightarrow> node_id \<Rightarrow> bool" where
  "keeps s s' j \<longleftrightarrow> a_log (an s' j) = a_log (an s j) \<or>
     (a_term (an s' j) = a_term (an s j) \<and> h_leader s (a_term (an s j)) \<noteq> None \<and>
      (\<forall>m\<le>length (h_llog s (a_term (an s j))).
         take m (a_log (an s j)) = take m (h_llog s (a_term (an s j))) \<longrightarrow>
         take m (a_log (an s' j)) = take m (a_log (an s j))))"

lemma ack_ok_ext:
  assumes "ainv V s" and "ext s s'" and "(j, t, m) \<in> h_acks s" and "keeps s s' j"
  shows "ack_ok s' j t m"
proof -
  have ok: "ack_ok s j t m" by (rule ainv_ack [OF assms(1,3)])
  then obtain l where l: "h_leader s t = Some l" and le: "m \<le> length (h_llog s t)"
    and t: "t \<le> a_term (an s j)" unfolding ack_ok_def by auto
  have "take m0 (a_log (an s' j)) = take m0 (h_llog s' t)"
    if m0: "m0 \<le> m"
      and *: "\<forall>u. t < u \<and> u \<le> a_term (an s' j) \<and> h_leader s' u \<noteq> None \<longrightarrow> has s' u t m0" for m0
  proof -
    have le0: "m0 \<le> length (h_llog s t)" using m0 le by simp
    have prem: "\<forall>u. t < u \<and> u \<le> a_term (an s j) \<and> h_leader s u \<noteq> None \<longrightarrow> has s u t m0"
      using * term_ext [OF assms(2), of j]
      by (intro later_leaders_ext [OF assms(1,2) l le0, where P' = "\<lambda>u. u \<le> a_term (an s' j)"]) auto
    then have old: "take m0 (a_log (an s j)) = take m0 (h_llog s t)"
      using ok m0 unfolding ack_ok_def by blast
    have "take m0 (a_log (an s' j)) = take m0 (a_log (an s j))"
    proof (cases "a_log (an s' j) = a_log (an s j)")
      case False
      let ?T = "a_term (an s j)"
      have lead: "h_leader s ?T \<noteq> None" using False assms(4) unfolding keeps_def by blast
      have eq: "take m0 (h_llog s ?T) = take m0 (h_llog s t)"
        using prem lead t unfolding has_def by (cases "t = ?T") auto
      then have "m0 \<le> length (h_llog s ?T)" using le0 take_eq_length by blast
      then show ?thesis using False assms(4) old eq unfolding keeps_def by auto
    qed simp
    then show ?thesis using old take_llog_ext [OF assms(2) l le0] by simp
  qed
  then show ?thesis
    using l le t leader_ext [OF assms(2) l] length_llog_ext [OF assms(2) l] term_ext [OF assms(2), of j]
    unfolding ack_ok_def by auto
qed

section \<open>Every rule preserves the invariant\<close>

lemma ainv_stepI:
  assumes inv: "ainv V s" and e: "ext s s'" and l: "local i s s'" and k: "keeps s s' i"
    and node: "node_ok V s' i"
    and lead: "\<And>t. h_leader s' t = Some i \<Longrightarrow> leader_ok V s' t i"
    and vote: "\<And>t c. h_vote s' i t = Some c \<Longrightarrow> h_vote s i t \<noteq> Some c \<Longrightarrow> vote_ok s' i t c"
    and av: "\<And>t c t0 m. h_vote s' i t = Some c \<Longrightarrow> h_vote s i t \<noteq> Some c \<Longrightarrow>
      (i, t0, m) \<in> h_acks s \<Longrightarrow> h_leader s t = None \<Longrightarrow> ack_vote_ok s' i t0 m t c"
    and msg: "\<And>m. m \<in> anet s' \<Longrightarrow> m \<notin> anet s \<Longrightarrow> msg_ok V s' m"
    and ack: "\<And>j t m. (j, t, m) \<in> h_acks s' \<Longrightarrow> (j, t, m) \<notin> h_acks s \<Longrightarrow>
      j = i \<and> t = a_term (an s' i) \<and> ack_ok s' i t m"
  shows "ainv V s'"
proof -
  have others: "an s' j = an s j" "h_vote s' j = h_vote s j"
    "h_leader s t = Some j \<Longrightarrow> h_llog s' t = h_llog s t"
    "h_leader s' t = Some j \<Longrightarrow> h_leader s t = Some j" if "j \<noteq> i" for j t
    using l that unfolding local_def by blast+
  have votes: "vote_ok s' j t c" if "h_vote s' j t = Some c" for j t c
  proof (cases "h_vote s j t = Some c")
    case True
    then show ?thesis by (rule vote_ok_ext [OF ainv_vote [OF inv] e])
  next
    case False
    then have "j = i" using that others(2) by metis
    then show ?thesis using vote that False by simp
  qed
  have leaders: "leader_ok V s' t j" if "h_leader s' t = Some j" for t j
  proof (cases "j = i")
    case False
    have h: "h_leader s t = Some j" by (rule others(4) [OF False that])
    have ok: "leader_ok V s t j" by (rule ainv_leader [OF inv h])
    have newacks: "(j, u, m) \<in> h_acks s \<or> u = a_term (an s' j)" if "(j, u, m) \<in> h_acks s'" for j u m
      using ack [OF that] by blast
    then show ?thesis
      using leader_ok_ext [OF inv ok e h others(3) [OF False h]] ok
      unfolding others(1) [OF False] leader_ok_def by blast
  qed (use lead that in simp)
  have acks: "ack_ok s' j t m" if "(j, t, m) \<in> h_acks s'" for j t m
  proof (cases "(j, t, m) \<in> h_acks s")
    case True
    have "keeps s s' j" using k others(1) [of j] by (cases "j = i") (simp_all add: keeps_def)
    then show ?thesis by (rule ack_ok_ext [OF inv e True])
  qed (use ack that in blast)
  have avs: "ack_vote_ok s' j t m T c" if a: "(j, t, m) \<in> h_acks s'" and v: "h_vote s' j T = Some c"
    and n: "h_leader s' T = None" for j t m T c
  proof (cases "(j, t, m) \<in> h_acks s")
    case True
    have n': "h_leader s T = None" using n leader_ext [OF e] by (cases "h_leader s T") auto
    show ?thesis
    proof (cases "h_vote s j T = Some c")
      case True': True
      show ?thesis by (rule ack_vote_ok_ext [OF inv e True True' ainv_ack_vote [OF inv True True' n']])
    next
      case False
      then have "j = i" using v others(2) by metis
      then show ?thesis using av v False True n' by blast
    qed
  next
    case False
    then have "T \<le> t" using ack [OF a] votes [OF v] unfolding vote_ok_def by auto
    then show ?thesis unfolding ack_vote_ok_def by simp
  qed
  have "node_ok V s' j" for j
    using node node_ok_ext [OF ainv_node [OF inv] e l, of j] by (cases "j = i") auto
  moreover have "msg_ok V s' m" if "m \<in> anet s'" for m
    using msg [OF that] msg_ok_ext [OF ainv_msg [OF inv] e, of m] by blast
  ultimately show ?thesis using leaders votes acks avs unfolding ainv_def by blast
qed

lemma self_vote:
  assumes "ainv V s" and "h_leader s t = Some i"
  shows "h_vote s i t = Some i"
proof -
  obtain Q where Q: "majority V Q" "\<forall>q\<in>Q. h_vote s q t = Some i"
    using ainv_leader [OF assms] unfolding leader_ok_def by blast
  then have "Q \<noteq> {}" by (auto simp: majority_def)
  then show ?thesis using Q(2) ainv_vote [OF assms(1)] unfolding vote_ok_def by blast
qed

text \<open>Steps that leave the history alone: they change node \<open>i\<close> without its log, or send messages.\<close>

lemma ainv_quietI:
  assumes inv: "ainv V s"
    and h: "h_leader s' = h_leader s" "h_llog s' = h_llog s" "h_base s' = h_base s"
      "h_vote s' = h_vote s" "h_clog s' = h_clog s" "h_acks s' = h_acks s"
    and n: "\<And>j. j \<noteq> i \<Longrightarrow> an s' j = an s j" "anet s \<subseteq> anet s'"
    and a: "a_log (an s' i) = a_log (an s i)" "a_term (an s i) \<le> a_term (an s' i)"
      "a_role (an s' i) = Candidate \<Longrightarrow> a_role (an s i) = Candidate \<and> a_term (an s' i) = a_term (an s i)"
    and node: "ext s s' \<Longrightarrow> node_ok V s' i"
    and msg: "\<And>m. ext s s' \<Longrightarrow> m \<in> anet s' \<Longrightarrow> m \<notin> anet s \<Longrightarrow> msg_ok V s' m"
  shows "ainv V s'"
proof (rule ainv_stepI [OF inv])
  show e: "ext s s'" unfolding ext_def h using n a(2) by (metis order_refl prefix_order.refl)
  show "local i s s'" unfolding local_def h using n(1) by simp
  show "keeps s s' i" unfolding keeps_def using a(1) by simp
  show "node_ok V s' i" by (rule node [OF e])
  show "leader_ok V s' t i" if t: "h_leader s' t = Some i" for t
  proof -
    have t': "h_leader s t = Some i" using t h(1) by simp
    have "a_role (an s' i) \<noteq> Candidate" if "a_term (an s' i) = t"
      using a(3) that ainv_leader [OF inv t'] unfolding leader_ok_def by auto
    then show ?thesis
      using leader_ok_ext [OF inv ainv_leader [OF inv t'] e t'] h(2,6) by simp
  qed
  show "msg_ok V s' m" if "m \<in> anet s'" "m \<notin> anet s" for m by (rule msg [OF e that])
qed (use h in simp_all)

lemmas astate_defs = upd_def send_def ack_def reply_ack_def

text \<open>A change of role or of the commit index within the safe prefix keeps node \<open>i\<close> well-formed.\<close>

lemma safe_selfI: "safe V s T l c \<Longrightarrow> ext s s' \<Longrightarrow> T \<le> T' \<Longrightarrow> safe V s' T' l c"
  by (rule safe_ext) (auto simp: safe_def)

lemma wf_log_mono: "wf_log T l \<Longrightarrow> T \<le> T' \<Longrightarrow> wf_log T' l"
  unfolding wf_log_def by (meson order_trans)

lemma ainv_new_term:
  assumes "ainv V s" and "a_term (an s i) < t"
  shows "ainv V (upd i (\<lambda>a. a\<lparr>a_term := t, a_vote := None, a_role := Follower\<rparr>) s)" (is "ainv V ?s")
proof (rule ainv_quietI [OF assms(1), where i = i])
  note ok = ainv_node [OF assms(1), of i]
  have "h_vote s i t = None"
    using ainv_vote [OF assms(1), of i t] assms(2) unfolding vote_ok_def by (cases "h_vote s i t") auto
  then show "node_ok V ?s i" if "ext s ?s"
    using node_okD(1,2) [OF ok] safe_selfI [OF node_okD(4) [OF ok] that, of t]
      wf_log_mono [OF node_okD(1) [OF ok], of t] origin_ext [OF node_okD(2) [OF ok] that] assms(2)
    unfolding node_ok_def by (simp add: astate_defs)
qed (use assms in \<open>simp_all add: astate_defs\<close>)

lemma ainv_follow:
  assumes "ainv V s" and "c \<le> a_commit (an s i)"
  shows "ainv V (upd i (\<lambda>a. a\<lparr>a_role := Follower, a_commit := c, a_granted := g a, a_match := f a\<rparr>) s)"
    (is "ainv V ?s")
proof (rule ainv_quietI [OF assms(1), where i = i])
  note ok = ainv_node [OF assms(1), of i]
  show "node_ok V ?s i" if "ext s ?s"
    using node_okD(1-3) [OF ok] safe_selfI [OF safe_le [OF node_okD(4) [OF ok] assms(2)] that order_refl]
      origin_ext [OF node_okD(2) [OF ok] that]
    unfolding node_ok_def by (simp add: astate_defs)
qed (simp_all add: astate_defs)

lemma ainv_step_down:
  assumes "ainv V s"
  shows "ainv V (upd i (\<lambda>a. a\<lparr>a_role := Follower\<rparr>) s)"
  using ainv_follow [OF assms order_refl, where i = i and g = a_granted and f = a_match]
  by (simp add: upd_def)

lemma ainv_send:
  assumes "ainv V s" and "msg_ok V s m"
  shows "ainv V (send m s)"
proof (rule ainv_quietI [OF assms(1), where i = undefined])
  show "node_ok V (send m s) undefined" if "ext s (send m s)"
    using node_ok_ext [OF ainv_node [OF assms(1)] that, where i = "Suc undefined"]
    by (auto simp: local_def astate_defs)
  show "msg_ok V (send m s) m'" if "ext s (send m s)" "m' \<in> anet (send m s)" "m' \<notin> anet s" for m'
    using that msg_ok_ext [OF assms(2) that(1)] by (simp add: send_def)
qed (simp_all add: astate_defs subset_insertI)

lemma ainv_count_vote:
  assumes "ainv V s" and "a_role (an s i) = Candidate" and "AVote j i (a_term (an s i)) \<in> anet s"
  shows "ainv V (upd i (\<lambda>a. a\<lparr>a_granted := insert j (a_granted a)\<rparr>) s)" (is "ainv V ?s")
proof (rule ainv_quietI [OF assms(1), where i = i])
  note ok = ainv_node [OF assms(1), of i]
  show "node_ok V ?s i" if "ext s ?s"
    using node_okD(1-3) [OF ok] safe_selfI [OF node_okD(4) [OF ok] that order_refl]
      origin_ext [OF node_okD(2) [OF ok] that] node_okD(9-11) [OF ok] assms(2)
      ainv_msg [OF assms(1,3)]
    unfolding node_ok_def by (simp add: astate_defs)
qed (use assms in \<open>simp_all add: astate_defs\<close>)

lemma ainv_count_ack:
  assumes "ainv V s" and "a_role (an s i) = Leader" and "AAck j i (a_term (an s i)) m \<in> anet s"
  shows "ainv V (upd i (\<lambda>a. a\<lparr>a_match := (a_match a)(j := max (a_match a j) m)\<rparr>) s)" (is "ainv V ?s")
proof (rule ainv_quietI [OF assms(1), where i = i])
  note ok = ainv_node [OF assms(1), of i]
  show "node_ok V ?s i" if "ext s ?s"
    using node_okD(1-3) [OF ok] safe_selfI [OF node_okD(4) [OF ok] that order_refl]
      origin_ext [OF node_okD(2) [OF ok] that] node_okD(5-8) [OF ok] assms(2)
      ainv_msg [OF assms(1,3)]
    unfolding node_ok_def by (auto simp: astate_defs max_def) (metis le0)
qed (use assms in \<open>simp_all add: astate_defs\<close>)

lemma ainv_commit:
  assumes "ainv V s" and "safe V s (a_term (an s i)) (a_log (an s i)) c"
  shows "ainv V (upd i (\<lambda>a. a\<lparr>a_commit := c\<rparr>) s)" (is "ainv V ?s")
proof (rule ainv_quietI [OF assms(1), where i = i])
  note ok = ainv_node [OF assms(1), of i]
  show "node_ok V ?s i" if "ext s ?s"
    using node_okD(1-3) [OF ok] safe_selfI [OF assms(2) that order_refl]
      origin_ext [OF node_okD(2) [OF ok] that] node_okD(5-11) [OF ok]
    unfolding node_ok_def by (simp add: astate_defs)
qed (use assms in \<open>simp_all add: astate_defs\<close>)

lemma leader_wf:
  assumes "ainv V s" and "h_leader s t = Some i"
  shows "wf_log t (h_llog s t)" and "origin s (h_llog s t)"
    and "k < length (h_llog s t) \<Longrightarrow> e_term (h_llog s t ! k) = t \<longleftrightarrow> h_base s t \<le> k"
    and "h_base s t \<le> length (h_llog s t)" and "t \<le> a_term (an s i)"
  using ainv_leader [OF assms] unfolding leader_ok_def by auto

text \<open>
  A follower that takes over a log agreeing with its leader's up to \<open>m\<close> and acknowledges \<open>m\<close>.
\<close>

lemma ainv_reply:
  assumes inv: "ainv V s" and T: "T = a_term (an s i)" and ld: "h_leader s T = Some ldr"
    and l: "wf_log T l" "origin s l" "safe V s T l c"
    and m: "take m l = take m (h_llog s T)" "m \<le> length (h_llog s T)"
    and k: "\<And>m. m \<le> length (h_llog s T) \<Longrightarrow> take m (a_log (an s i)) = take m (h_llog s T) \<Longrightarrow>
      take m l = take m (a_log (an s i))"
  shows "ainv V (reply_ack i ldr T m
    (upd i (\<lambda>a. a\<lparr>a_role := Follower, a_log := l, a_commit := c\<rparr>) s))" (is "ainv V ?s")
proof (rule ainv_stepI [OF inv, where i = i])
  note ok = ainv_node [OF inv, of i]
  show e: "ext s ?s" by (simp add: ext_def astate_defs subset_insertI)
  show "local i s ?s" by (simp add: local_def astate_defs)
  show "keeps s ?s i" unfolding keeps_def using k ld T by (simp add: astate_defs)
  show "node_ok V ?s i"
    using l(1) origin_ext [OF l(2) e] safe_selfI [OF l(3) e, of T] node_okD(3) [OF ok] T
    unfolding node_ok_def by (simp add: astate_defs)
  show "leader_ok V ?s t i" if "h_leader ?s t = Some i" for t
  proof -
    have t: "h_leader s t = Some i" using that by (simp add: astate_defs)
    show ?thesis
      by (rule leader_ok_ext [OF inv ainv_leader [OF inv t] e t]) (use T in \<open>auto simp: astate_defs\<close>)
  qed
  show "j = i \<and> t = a_term (an ?s i) \<and> ack_ok ?s i t n"
    if "(j, t, n) \<in> h_acks ?s" "(j, t, n) \<notin> h_acks s" for j t n
    using that m ld T take_take_le [OF m(1)] by (simp add: ack_ok_def astate_defs)
  show "msg_ok V ?s m'" if "m' \<in> anet ?s" "m' \<notin> anet s" for m'
    using that by (simp add: astate_defs)
qed (simp_all add: astate_defs)

lemma safe_maxI: "safe V s T l c \<Longrightarrow> safe V s T l d \<Longrightarrow> safe V s T l (max c d)"
  by (simp add: max_def)

lemma from_leaderD:
  "ainv V s \<Longrightarrow> from_leader s ldr i t \<Longrightarrow> h_leader s t = Some ldr"
  unfolding from_leader_def using ainv_msg by fastforce

lemma ainv_ack_commit:
  assumes inv: "ainv V s" "finite V" and "from_leader s ldr i (a_term (an s i))"
    and "c \<le> a_commit (an s i)"
  shows "ainv V (reply_ack i ldr (a_term (an s i)) c (upd i (\<lambda>a. a\<lparr>a_role := Follower\<rparr>) s))"
proof -
  note ok = ainv_node [OF inv(1), of i]
  have ld: "h_leader s (a_term (an s i)) = Some ldr" by (rule from_leaderD [OF inv(1) assms(3)])
  note sf = safe_in_leader [OF inv safe_le [OF node_okD(4) [OF ok] assms(4)] order_refl ld]
  have "ainv V (reply_ack i ldr (a_term (an s i)) c (upd i (\<lambda>a. a\<lparr>a_role := Follower,
      a_log := a_log (an s i), a_commit := a_commit (an s i)\<rparr>) s))"
    by (rule ainv_reply [OF inv(1) refl ld node_okD(1,2,4) [OF ok] sf]) simp
  then show ?thesis by (simp add: upd_def)
qed

lemma splice_same:
  assumes "take p l = take p g" and "es = take (length es) (drop p g)" and "p + length es \<le> length g"
  shows "take (p + length es) (splice l p es) = take (p + length es) g"
    and "splice l p es = l \<or> splice l p es = take (p + length es) g"
proof -
  have p: "p \<le> length l" by (rule take_eq_length [OF assms(1)]) (use assms(3) in simp)
  have g: "take (p + length es) g = take p l @ es"
    using assms(1,2) by (metis take_add)
  show "splice l p es = l \<or> splice l p es = take (p + length es) g"
    unfolding splice_def g by simp
  show "take (p + length es) (splice l p es) = take (p + length es) g"
    unfolding splice_def g using p by (auto simp: take_add)
qed

text \<open>Replacing a log by a prefix of the leader's keeps what it shared, if it goes beyond the shared part.\<close>

lemma splice_keeps:
  assumes p: "take p l = take p g" and es: "es = take (length es) (drop p g)" "p + length es \<le> length g"
    and m: "take m l = take m g" "m \<le> length g"
  shows "take m (splice l p es) = take m l"
proof (cases "m \<le> p + length es")
  case True
  then show ?thesis
    using splice_same(1) [OF p es] m(1) take_take_le by metis
next
  case False
  then have "take (p + length es) l = take (p + length es) g"
    using m(1) take_take_le [of m l g "p + length es"] by simp
  then have "take (length es) (drop p l) = es"
    using es(1) by (metis take_drop add.commute)
  then show ?thesis unfolding splice_def by simp
qed

lemma wf_log_take: "wf_log T l \<Longrightarrow> wf_log T (take n l)"
  unfolding wf_log_def by (auto simp: take_map [symmetric] dest: in_set_takeD intro: sorted_wrt_take)

lemma ext_refl: "ext s s"
  unfolding ext_def by simp

text \<open>What a follower knows when it takes an append message, after dropping \<open>k\<close> covered entries.\<close>

lemma accept_facts:
  assumes inv: "ainv V s" "finite V" and msg: "AAppend ldr i (a_term (an s i)) p pt es lc \<in> anet s"
    and k: "k \<le> length es"
    and g: "(k = 0 \<and> p \<le> length (a_log (an s i)) \<and> tm (a_log (an s i)) p = pt) \<or>
      (0 < k \<and> p + k \<le> a_commit (an s i))"
    and L: "L = h_llog s (a_term (an s i))"
  shows "h_leader s (a_term (an s i)) = Some ldr"
    and "take (p + k) (a_log (an s i)) = take (p + k) L"
    and "drop k es = take (length (drop k es)) (drop (p + k) L)"
    and "p + k + length (drop k es) \<le> length L" and "p + k + length (drop k es) = p + length es"
    and "take (a_commit (an s i)) (a_log (an s i)) = take (a_commit (an s i)) L"
    and "a_commit (an s i) \<le> length L" and "safe V s (a_term (an s i)) L lc"
proof -
  note ok = ainv_node [OF inv(1), of i]
  show ld: "h_leader s (a_term (an s i)) = Some ldr" and lc: "safe V s (a_term (an s i)) L lc"
    using ainv_msg [OF inv(1) msg] L by auto
  have le: "p + length es \<le> length L" and es: "es = take (length es) (drop p L)" and pt: "pt = tm L p"
    using ainv_msg [OF inv(1) msg] L by auto
  show sf: "take (a_commit (an s i)) (a_log (an s i)) = take (a_commit (an s i)) L"
    "a_commit (an s i) \<le> length L"
    using safe_in_leader [OF inv node_okD(4) [OF ok] order_refl ld] L by auto
  show "take (p + k) (a_log (an s i)) = take (p + k) L"
  proof (cases "k = 0")
    case True
    then show ?thesis
      using g origin_matching [OF node_okD(2) [OF ok] leader_wf(2) [OF inv(1) ld]] le pt L by auto
  next
    case False
    then show ?thesis using g sf(1) take_take_le by blast
  qed
  show "drop k es = take (length (drop k es)) (drop (p + k) L)"
    using es by (metis add.commute drop_drop drop_take length_drop)
  show "p + k + length (drop k es) \<le> length L" "p + k + length (drop k es) = p + length es"
    using le k by auto
qed

lemma ainv_accept:
  assumes inv: "ainv V s" "finite V" and msg: "AAppend ldr i (a_term (an s i)) p pt es lc \<in> anet s"
    and k: "k \<le> length es"
    and g: "(k = 0 \<and> p \<le> length (a_log (an s i)) \<and> tm (a_log (an s i)) p = pt) \<or>
      (0 < k \<and> p + k \<le> a_commit (an s i))"
  shows "ainv V (reply_ack i ldr (a_term (an s i)) (p + length es)
      (upd i (\<lambda>a. a\<lparr>a_role := Follower, a_log := splice (a_log a) (p + k) (drop k es),
                     a_commit := max (a_commit a) (min lc (p + length es))\<rparr>) s))"
proof -
  define T l c where "T = a_term (an s i)" and "l = a_log (an s i)" and "c = a_commit (an s i)"
  define L where "L = h_llog s T"
  note ok = ainv_node [OF inv(1), of i]
  note f = accept_facts [OF inv msg k g L_def [unfolded T_def], folded T_def l_def c_def]
  note wf = leader_wf [OF inv(1) f(1), folded L_def]
  let ?es = "drop k es"
  let ?l = "splice l (p + k) ?es"
  have keep: "take m ?l = take m l" if "m \<le> length L" "take m l = take m L" for m
    by (rule splice_keeps [OF f(2-4) that(2,1)])
  have new: "take (p + length es) ?l = take (p + length es) L"
    using splice_same(1) [OF f(2-4)] f(5) by simp
  have "?l = l \<or> ?l = take (p + length es) L" using splice_same(2) [OF f(2-4)] f(5) by simp
  then have l: "wf_log T ?l" "origin s ?l"
    using node_okD(1,2) [OF ok] wf(1,2) wf_log_take origin_take unfolding T_def l_def by metis+
  have le: "p + length es \<le> length L" using f(4,5) by simp
  have len: "p + length es \<le> length ?l" using take_eq_length [OF new le] .
  have "safe V s T ?l c"
    using safe_ext [OF node_okD(4) [OF ok] ext_refl order_refl, folded T_def l_def c_def, of ?l]
      keep [OF f(7,6)] f(7) take_eq_length [of c ?l L] f(6) by simp
  moreover have "safe V s T ?l (min lc (p + length es))"
    using safe_ext [OF safe_le [OF f(8), of "min lc (p + length es)"] ext_refl order_refl, of ?l]
      take_take_le [OF new, of "min lc (p + length es)"] len by simp
  ultimately have "safe V s T ?l (max c (min lc (p + length es)))" by (rule safe_maxI)
  then have "ainv V (reply_ack i ldr T (p + length es) (upd i (\<lambda>a. a\<lparr>a_role := Follower, a_log := ?l,
      a_commit := max c (min lc (p + length es))\<rparr>) s))"
    using ainv_reply [OF inv(1) T_def f(1) l _ new [unfolded L_def]] le keep unfolding L_def l_def by blast
  then show ?thesis by (simp add: T_def l_def c_def upd_def)
qed

lemma ainv_install:
  assumes inv: "ainv V s" "finite V" and msg: "ASnap ldr i (a_term (an s i)) pfx \<in> anet s"
    and l: "l = (if length pfx \<le> length (a_log (an s i)) \<and>
            tm (a_log (an s i)) (length pfx) = tm pfx (length pfx)
         then a_log (an s i) else pfx)"
  shows "ainv V (reply_ack i ldr (a_term (an s i)) (length pfx)
      (upd i (\<lambda>a. a\<lparr>a_role := Follower, a_log := l, a_commit := length pfx\<rparr>) s))"
proof -
  define T where "T = a_term (an s i)"
  define L where "L = h_llog s T"
  note ok = ainv_node [OF inv(1), of i]
  have ld: "h_leader s T = Some ldr" and pf: "prefix pfx L" and sf: "safe V s T L (length pfx)"
    using ainv_msg [OF inv(1) msg] unfolding T_def L_def by auto
  have pL: "pfx = take (length pfx) L" and len: "length pfx \<le> length L"
    using pf by (auto elim!: prefixE)
  have tmL: "tm pfx (length pfx) = tm L (length pfx)" using pL tm_take [of "length pfx" pfx L] by simp
  note wf = leader_wf [OF inv(1) ld, folded L_def]
  have same: "take (length pfx) l = take (length pfx) L"
    using origin_matching [OF node_okD(2) [OF ok] wf(2), of "length pfx"] len tmL pL l by auto
  have wl: "wf_log T l" "origin s l"
    using node_okD(1,2) [OF ok] wf(1,2) wf_log_take origin_take pL l unfolding T_def by metis+
  have "safe V s T l (length pfx)"
    using safe_ext [OF sf ext_refl order_refl same] take_eq_length [OF same len] by simp
  moreover have "take m l = take m (a_log (an s i))"
    if m: "m \<le> length (h_llog s T)" "take m (a_log (an s i)) = take m (h_llog s T)" for m
  proof (cases "m \<le> length pfx")
    case True
    then show ?thesis using take_take_le [OF same] m(2) unfolding L_def by simp
  next
    case False
    then have tk: "take (length pfx) (a_log (an s i)) = take (length pfx) L"
      using take_take_le [OF m(2), of "length pfx"] unfolding L_def by simp
    have "length pfx \<le> length (a_log (an s i))" by (rule take_eq_length [OF tk len])
    then show ?thesis using l tm_take [OF tk, of "length pfx"] tmL by simp
  qed
  ultimately show ?thesis
    using ainv_reply [OF inv(1) T_def ld wl _ same [unfolded L_def]] len unfolding L_def T_def by blast
qed

lemma ainv_commit_quorum:
  assumes inv: "ainv V s" and ld: "a_role (an s i) = Leader" and c: "a_commit (an s i) < c"
    "c \<le> length (a_log (an s i))" "tm (a_log (an s i)) c = a_term (an s i)"
    and q: "majority V {j \<in> V. j = i \<or> c \<le> a_match (an s i) j}"
  shows "ainv V (upd i (\<lambda>a. a\<lparr>a_commit := c\<rparr>) s)"
proof -
  note ok = ainv_node [OF inv, of i]
  note lo = node_okD(5,6,7) [OF ok ld] node_okD(8) [OF ok ld]
  have "h_base s (a_term (an s i)) < c"
    using leader_wf(3) [OF inv lo(1), of "c - 1"] c lo(2) by (auto simp: tm_def split: if_splits)
  moreover have "\<exists>m'\<ge>c. (j, a_term (an s i), m') \<in> h_acks s"
    if "j \<in> {j \<in> V. j = i \<or> c \<le> a_match (an s i) j}" for j
    using that lo(3) lo(4) [of j] c(1,2) by auto
  ultimately have "committed V s (a_term (an s i)) c"
    using lo(1,2) c(2) q unfolding committed_def by auto
  then have "safe V s (a_term (an s i)) (a_log (an s i)) c"
    using lo(2) c(2) unfolding safe_def by auto
  then show ?thesis by (rule ainv_commit [OF inv])
qed

lemma no_future_vote: "ainv V s \<Longrightarrow> a_term (an s i) < t \<Longrightarrow> h_vote s i t = None"
  using ainv_vote [of V s i t] unfolding vote_ok_def by (cases "h_vote s i t") auto

lemma ainv_campaign:
  assumes inv: "ainv V s" and t: "t = a_term (an s i) + 1"
  shows "ainv V (upd i (\<lambda>a. a\<lparr>a_term := t, a_vote := Some i, a_role := Candidate, a_granted := {i}\<rparr>)
      (s\<lparr>h_vote := (h_vote s)(i := (h_vote s i)(t \<mapsto> i)),
         h_clog := (h_clog s)(t := (h_clog s t)(i := a_log (an s i)))\<rparr>))" (is "ainv V ?s")
proof (rule ainv_stepI [OF inv, where i = i])
  note ok = ainv_node [OF inv, of i]
  have nv: "h_vote s i t = None" using no_future_vote [OF inv] t by simp
  show e: "ext s ?s" using nv t by (auto simp: ext_def astate_defs)
  show "local i s ?s" by (simp add: local_def astate_defs)
  show "keeps s ?s i" by (simp add: keeps_def astate_defs)
  have wf: "wf_log (t - 1) (a_log (an s i))" "origin ?s (a_log (an s i))"
    using node_okD(1) [OF ok] origin_ext [OF node_okD(2) [OF ok] e] t by auto
  show "node_ok V ?s i"
    using wf wf_log_mono [OF wf(1), of t] safe_selfI [OF node_okD(4) [OF ok] e, of t] t
    unfolding node_ok_def by (simp add: astate_defs)
  show "leader_ok V ?s u i" if "h_leader ?s u = Some i" for u
  proof -
    have u: "h_leader s u = Some i" using that by (simp add: astate_defs)
    show ?thesis
      by (rule leader_ok_ext [OF inv ainv_leader [OF inv u] e u])
        (use leader_wf(5) [OF inv u] t in \<open>auto simp: astate_defs\<close>)
  qed
  show "vote_ok ?s i u c" if "h_vote ?s i u = Some c" "h_vote s i u \<noteq> Some c" for u c
    using that wf t by (auto simp: vote_ok_def astate_defs split: if_splits)
  show "ack_vote_ok ?s i t0 m u c" if "h_vote ?s i u = Some c" "h_vote s i u \<noteq> Some c"
    "(i, t0, m) \<in> h_acks s" for u c t0 m
  proof -
    have uc: "u = t" "c = i" using that(1,2) by (auto simp: astate_defs split: if_splits)
    have "take m0 (a_log (an s i)) = take m0 (h_llog s t0)"
      if "m0 \<le> m" "\<forall>u. t0 < u \<and> u < t \<and> h_leader s u \<noteq> None \<longrightarrow> has s u t0 m0" for m0
      using ainv_ack [OF inv \<open>(i, t0, m) \<in> h_acks s\<close>] that t unfolding ack_ok_def by auto
    then show ?thesis unfolding ack_vote_ok_def uc by (simp add: astate_defs has_def)
  qed
qed (auto simp: astate_defs)

text \<open>
  The vote's log comparison: a candidate whose log is at least as up to date as that of a node that
  acknowledged an entry of term \<open>t\<close> has that entry, provided the leaders in between had it.
\<close>

lemma candidate_has:
  assumes inv: "ainv V s" and ak: "(i, t, m) \<in> h_acks s" and m0: "m0 \<le> m" and T: "t < T" "T = a_term (an s i)"
    and b: "h_base s t < m0" and nl: "h_leader s T = None"
    and hs: "\<forall>u. t < u \<and> u < T \<and> h_leader s u \<noteq> None \<longrightarrow> has s u t m0"
    and g: "wf_log (T - 1) g" "origin s g"
    and up: "(tm g (length g), length g) \<ge> (tm (a_log (an s i)) (length (a_log (an s i))), length (a_log (an s i)))"
  shows "take m0 g = take m0 (h_llog s t)"
proof -
  define l where "l = a_log (an s i)"
  note ak' = ainv_ack [OF inv ak, unfolded ack_ok_def, folded T(2) l_def]
  obtain ldr where ld: "h_leader s t = Some ldr" using ak' by auto
  have le: "m0 \<le> length (h_llog s t)" using ak' m0 by simp
  have eq: "take m0 l = take m0 (h_llog s t)"
    using ak' m0 hs nl by (metis le_neq_implies_less)
  have ml: "m0 \<le> length l" by (rule take_eq_length [OF eq le])
  have "l ! (m0 - 1) = h_llog s t ! (m0 - 1)" using take_eq_nth [OF eq, of "m0 - 1"] b by simp
  then have tl: "e_term (l ! (m0 - 1)) = t" using leader_wf(3) [OF inv ld, of "m0 - 1"] b le by auto
  have "sorted (map e_term l)"
    using node_okD(1) [OF ainv_node [OF inv, of i]] unfolding wf_log_def l_def by simp
  then have "t \<le> tm l (length l)"
    using sorted_nth_mono [of "map e_term l" "m0 - 1" "length l - 1"] tl ml b
    by (auto simp: tm_def)
  then have u: "t \<le> tm g (length g)" "tm g (length g) = t \<Longrightarrow> m0 \<le> length g"
    using up ml unfolding l_def [symmetric] by auto
  have ne: "0 < length g" using u up ml b unfolding l_def [symmetric] by (auto simp: tm_def)
  define k where "k = length g - 1"
  have k: "k < length g" "Suc k = length g" "tm g (length g) = e_term (g ! k)"
    using ne by (auto simp: k_def tm_def)
  note o = originD [OF g(2) k(1)]
  have "e_term (g ! k) \<le> T - 1" using g(1) k(1) unfolding wf_log_def by simp
  then have uT: "e_term (g ! k) < T" using T(1) by simp
  have gk: "g = take (length g) (h_llog s (e_term (g ! k)))" using o(1) k(2) by simp
  show ?thesis
  proof (cases "e_term (g ! k) = t")
    case True
    then show ?thesis using gk u(2) k(3) by (metis min.absorb1 take_take)
  next
    case False
    then have "has s (e_term (g ! k)) t m0" using hs o(2) u(1) k(3) uT by simp
    then show ?thesis
      using gk o(3) k(1) unfolding has_def by (metis le_trans less_imp_le min.absorb1 take_take)
  qed
qed

lemma ainv_grant_vote:
  assumes inv: "ainv V s" and msg: "ARequestVote c i (a_term (an s i)) lli llt \<in> anet s"
    and v: "a_vote (an s i) \<in> {None, Some c}"
    and up: "(llt, lli) \<ge> (tm (a_log (an s i)) (length (a_log (an s i))), length (a_log (an s i)))"
  shows "ainv V (send (AVote i c (a_term (an s i)))
      (upd i (\<lambda>a. a\<lparr>a_vote := Some c\<rparr>)
        (s\<lparr>h_vote := (h_vote s)(i := (h_vote s i)(a_term (an s i) \<mapsto> c))\<rparr>)))" (is "ainv V ?s")
proof (rule ainv_stepI [OF inv, where i = i])
  define T l where "T = a_term (an s i)" and "l = a_log (an s i)"
  note ok = ainv_node [OF inv, of i]
  have hv: "h_vote s i T \<in> {None, Some c}" using v node_okD(3) [OF ok] unfolding T_def by simp
  have cv: "h_vote s c T = Some c" and lli: "lli = length (h_clog s T c)"
    and llt: "llt = tm (h_clog s T c) lli"
    using ainv_msg [OF inv msg] unfolding T_def by auto
  have cok: "vote_ok s c T c" by (rule ainv_vote [OF inv cv])
  show e: "ext s ?s" using hv unfolding T_def by (auto simp: ext_def astate_defs)
  show "local i s ?s" by (simp add: local_def astate_defs)
  show "keeps s ?s i" by (simp add: keeps_def astate_defs)
  show "node_ok V ?s i"
    using node_okD(1) [OF ok] origin_ext [OF node_okD(2) [OF ok] e] node_okD(5-11) [OF ok]
      safe_selfI [OF node_okD(4) [OF ok] e order_refl] v
    unfolding node_ok_def by (auto simp: astate_defs)
  show "leader_ok V ?s u i" if "h_leader ?s u = Some i" for u
  proof -
    have u: "h_leader s u = Some i" using that by (simp add: astate_defs)
    show ?thesis
      by (rule leader_ok_ext [OF inv ainv_leader [OF inv u] e u])
        (use ainv_leader [OF inv u] in \<open>auto simp: astate_defs leader_ok_def\<close>)
  qed
  show "vote_ok ?s i u d" if "h_vote ?s i u = Some d" "h_vote s i u \<noteq> Some d" for u d
    using that vote_ok_ext [OF cok e] unfolding T_def
    by (auto simp: vote_ok_def astate_defs split: if_splits)
  show "ack_vote_ok ?s i t m u d" if "h_vote ?s i u = Some d" "h_vote s i u \<noteq> Some d"
    and ak: "(i, t, m) \<in> h_acks s" and nl: "h_leader s u = None" for u d t m
  proof -
    have ud: "u = T" "d = c" using that(1,2) unfolding T_def by (auto simp: astate_defs split: if_splits)
    have "take m0 (h_clog s T c) = take m0 (h_llog s t)"
      if m0: "m0 \<le> m" and tT: "t < T" and b: "h_base s t < m0"
        and has: "\<forall>u. t < u \<and> u < T \<and> h_leader s u \<noteq> None \<longrightarrow> has s u t m0" for m0
      using candidate_has [OF inv ak m0 tT T_def b _ has, of "h_clog s T c"] nl up cok
      unfolding ud vote_ok_def llt lli by blast
    then show ?thesis unfolding ack_vote_ok_def ud by (simp add: astate_defs has_def)
  qed
  show "msg_ok V ?s m" if "m \<in> anet ?s" "m \<notin> anet s" for m
    using that by (simp add: astate_defs)
qed (auto simp: astate_defs)

lemma ainv_win:
  assumes inv: "ainv V s" "finite V" and r: "a_role (an s i) = Candidate"
    and t: "t = a_term (an s i)" and l: "l = a_log (an s i)"
    and q: "majority V (a_granted (an s i) \<inter> V)"
  shows "ainv V (ack i t (length l) (upd i (\<lambda>a. a\<lparr>a_role := Leader, a_match := (\<lambda>_. 0)\<rparr>)
      (s\<lparr>h_leader := (h_leader s)(t \<mapsto> i), h_llog := (h_llog s)(t := l),
         h_base := (h_base s)(t := length l)\<rparr>)))" (is "ainv V ?s")
proof -
  note ok = ainv_node [OF inv(1), of i]
  have votes: "h_vote s j t = Some i" if "j \<in> a_granted (an s i)" for j
    using node_okD(11) [OF ok r that] t by simp
  have nl: "h_leader s t = None"
  proof (cases "h_leader s t")
    case (Some k)
    then have "k = i" using leader_unique [OF inv Some q, of i] votes by simp
    then show ?thesis using ainv_leader [OF inv(1) Some] r t unfolding leader_ok_def by simp
  qed
  have vi: "h_vote s i t = Some i" using node_okD(3,9) [OF ok] r t by simp
  have cl: "h_clog s t i = l" using node_okD(10) [OF ok r] t l by simp
  have wl: "wf_log (t - 1) l" "0 < t" using ainv_vote [OF inv(1) vi] cl unfolding vote_ok_def by auto
  show ?thesis
  proof (rule ainv_stepI [OF inv(1), where i = i])
    show e: "ext s ?s" using nl by (auto simp: ext_def astate_defs)
    show "local i s ?s" using nl by (auto simp: local_def astate_defs)
    show "keeps s ?s i" by (simp add: keeps_def astate_defs)
    have wf: "wf_log t l" "origin ?s l"
      using node_okD(1) [OF ok] origin_ext [OF node_okD(2) [OF ok] e] t l by auto
    show "node_ok V ?s i"
      using wf safe_selfI [OF node_okD(4) [OF ok] e order_refl] node_okD(3) [OF ok] t l
      unfolding node_ok_def by (simp add: astate_defs)
    show "leader_ok V ?s u i" if "h_leader ?s u = Some i" for u
    proof (cases "u = t")
      case True
      have av: "ack_vote_ok ?s j v m t i" if "j \<in> a_granted (an s i)" "(j, v, m) \<in> h_acks ?s" for j v m
      proof (cases "(j, v, m) \<in> h_acks s")
        case True
        show ?thesis
          by (rule ack_vote_ok_ext [OF inv(1) e True votes [OF that(1)]
                ainv_ack_vote [OF inv(1) True votes [OF that(1)] nl]])
      qed (use that in \<open>simp add: astate_defs ack_vote_ok_def\<close>)
      have "e_term (l ! k) \<noteq> t" if "k < length l" for k
        using wl nth_mem [OF that] unfolding wf_log_def by (metis diff_less leD less_one)
      moreover have "\<exists>Q. majority V Q \<and> (\<forall>j\<in>Q. h_vote ?s j t = Some i \<and>
          (\<forall>u m. (j, u, m) \<in> h_acks ?s \<longrightarrow> ack_vote_ok ?s j u m t i))"
        using q votes av by (intro exI [of _ "a_granted (an s i) \<inter> V"]) (simp add: astate_defs)
      ultimately show ?thesis
        using wf cl t unfolding leader_ok_def True by (simp add: astate_defs)
    next
      case False
      then have u: "h_leader s u = Some i" using that by (simp add: astate_defs)
      show ?thesis
        by (rule leader_ok_ext [OF inv(1) ainv_leader [OF inv(1) u] e u])
          (use False t in \<open>auto simp: astate_defs\<close>)
    qed
    show "j = i \<and> u = a_term (an ?s i) \<and> ack_ok ?s i u n"
      if "(j, u, n) \<in> h_acks ?s" "(j, u, n) \<notin> h_acks s" for j u n
      using that t l by (auto simp: ack_ok_def astate_defs)
  qed (auto simp: astate_defs)
qed

lemma wf_log_snoc:
  "wf_log t l \<Longrightarrow> \<forall>cc. pl \<noteq> ConfChange cc \<Longrightarrow>
   wf_log t (l @ [\<lparr>e_term = t, e_index = length l + 1, e_payload = pl\<rparr>])"
  unfolding wf_log_def by (auto simp: sorted_append nth_append less_Suc_eq)

lemma ainv_append:
  assumes inv: "ainv V s" and r: "a_role (an s i) = Leader" and t: "t = a_term (an s i)"
    and pl: "\<forall>cc. pl \<noteq> ConfChange cc"
    and l: "l = a_log (an s i) @ [\<lparr>e_term = t, e_index = length (a_log (an s i)) + 1, e_payload = pl\<rparr>]"
  shows "ainv V (ack i t (length l) (upd i (\<lambda>a. a\<lparr>a_log := l\<rparr>) (s\<lparr>h_llog := (h_llog s)(t := l)\<rparr>)))"
    (is "ainv V ?s")
proof (rule ainv_stepI [OF inv, where i = i])
  note ok = ainv_node [OF inv, of i]
  have ld: "h_leader s t = Some i" and L: "h_llog s t = a_log (an s i)"
    using node_okD(5,6) [OF ok r] t by auto
  note lw = leader_wf [OF inv ld]
  show e: "ext s ?s" using L l by (auto simp: ext_def astate_defs)
  show "local i s ?s" using ld by (auto simp: local_def astate_defs)
  show "keeps s ?s i" using ld t L by (simp add: keeps_def astate_defs l)
  have wf: "wf_log t l" unfolding l using wf_log_snoc [OF lw(1) [unfolded L] pl] .
  have o: "origin ?s l"
    unfolding origin_def Let_def
  proof (intro allI impI)
    fix k assume k: "k < length l"
    show "h_leader ?s (e_term (l ! k)) \<noteq> None \<and> h_base ?s (e_term (l ! k)) \<le> k \<and>
        k < length (h_llog ?s (e_term (l ! k))) \<and>
        take (Suc k) l = take (Suc k) (h_llog ?s (e_term (l ! k)))"
    proof (cases "k < length (a_log (an s i))")
      case True
      then show ?thesis
        using origin_ext [OF node_okD(2) [OF ok] e] unfolding origin_def Let_def
        by (simp add: l nth_append)
    next
      case False
      then have "k = length (a_log (an s i))" using k l by simp
      then show ?thesis using ld lw(4) L by (simp add: astate_defs l)
    qed
  qed
  have "safe V ?s t l (a_commit (an s i))"
    by (rule safe_ext [OF node_okD(4) [OF ok] e])
      (use node_okD(4) [OF ok] t in \<open>simp_all add: safe_def l\<close>)
  moreover have "a_match (an s i) j = 0 \<or> (j, t, a_match (an s i) j) \<in> h_acks ?s" for j
    using node_okD(8) [OF ok r, of j] t by (auto simp: astate_defs)
  ultimately show "node_ok V ?s i"
    using wf o node_okD(3) [OF ok] ld t r unfolding node_ok_def by (simp add: astate_defs)
  have el: "e_term (l ! k) = t \<longleftrightarrow> h_base s t \<le> k" if "k < length l" for k
    using that lw(3) [of k] lw(4) L by (cases "k < length (a_log (an s i))") (auto simp: l nth_append)
  show "leader_ok V ?s u i" if "h_leader ?s u = Some i" for u
  proof (cases "u = t")
    case True
    obtain Q where Q: "majority V Q" "\<forall>j\<in>Q. h_vote s j t = Some i"
      "\<forall>j\<in>Q. \<forall>v m. (j, v, m) \<in> h_acks s \<longrightarrow> ack_vote_ok s j v m t i"
      using ainv_leader [OF inv ld] unfolding leader_ok_def by auto
    have "ack_vote_ok ?s j v m t i" if "j \<in> Q" "(j, v, m) \<in> h_acks ?s" for j v m
    proof (cases "(j, v, m) \<in> h_acks s")
      case True
      show ?thesis
        using ack_vote_ok_ext [OF inv e True] Q(2,3) that(1) True by blast
    qed (use that in \<open>simp add: astate_defs ack_vote_ok_def\<close>)
    then have "\<exists>Q. majority V Q \<and> (\<forall>j\<in>Q. h_vote ?s j t = Some i \<and>
        (\<forall>u m. (j, u, m) \<in> h_acks ?s \<longrightarrow> ack_vote_ok ?s j u m t i))"
      using Q(1,2) by (intro exI [of _ Q]) (simp add: astate_defs)
    moreover have "h_clog ?s t i = take (h_base ?s t) (h_llog ?s t)"
      using ainv_leader [OF inv ld] lw(4) L unfolding leader_ok_def by (simp add: astate_defs l)
    ultimately show ?thesis
      using wf o el lw(4) L t r unfolding leader_ok_def True by (simp add: astate_defs l)
  next
    case False
    then have u: "h_leader s u = Some i" using that by (simp add: astate_defs)
    show ?thesis
      by (rule leader_ok_ext [OF inv ainv_leader [OF inv u] e u])
        (use False t r in \<open>auto simp: astate_defs\<close>)
  qed
  show "j = i \<and> u = a_term (an ?s i) \<and> ack_ok ?s i u n"
    if "(j, u, n) \<in> h_acks ?s" "(j, u, n) \<notin> h_acks s" for j u n
    using that t ld by (auto simp: ack_ok_def astate_defs)
qed (auto simp: astate_defs)

lemma payload_ok_conf: "payload_ok D pl \<Longrightarrow> \<forall>cc. pl \<noteq> ConfChange cc"
  by auto

theorem astep_ainv:
  assumes "ainv V s" and "finite V" and "astep D V i s s'"
  shows "ainv V s'"
  using assms(3)
proof cases
  case new_term
  then show ?thesis using ainv_new_term [OF assms(1)] by simp
next
  case step_down
  then show ?thesis using ainv_step_down [OF assms(1)] by simp
next
  case campaign
  then show ?thesis using ainv_campaign [OF assms(1)] by simp
next
  case request_vote
  note ok = ainv_node [OF assms(1), of i]
  show ?thesis
    unfolding request_vote using request_vote node_okD(3,9,10) [OF ok]
    by (intro ainv_send [OF assms(1)]) simp
next
  case grant_vote
  then show ?thesis using ainv_grant_vote [OF assms(1)] by blast
next
  case count_vote
  then show ?thesis using ainv_count_vote [OF assms(1)] by simp
next
  case win
  then show ?thesis using ainv_win [OF assms(1,2)] by blast
next
  case append
  then show ?thesis using ainv_append [OF assms(1)] payload_ok_conf by blast
next
  case (send_append p lc j k)
  note ok = ainv_node [OF assms(1), of i]
  have L: "a_log (an s i) = h_llog s (a_term (an s i))" by (rule node_okD(6) [OF ok send_append(2)])
  show ?thesis
    unfolding send_append(1)
    using node_okD(5) [OF ok send_append(2)] safe_le [OF node_okD(4) [OF ok] send_append(4)] send_append(3)
    by (intro ainv_send [OF assms(1)]) (auto simp: L min_def)
next
  case (send_snap k j)
  note ok = ainv_node [OF assms(1), of i]
  have L: "a_log (an s i) = h_llog s (a_term (an s i))" by (rule node_okD(6) [OF ok send_snap(2)])
  have "k \<le> length (a_log (an s i))" using node_okD(4) [OF ok] send_snap(3) unfolding safe_def by simp
  then show ?thesis
    unfolding send_snap(1)
    using node_okD(5) [OF ok send_snap(2)] safe_le [OF node_okD(4) [OF ok] send_snap(3)]
    by (intro ainv_send [OF assms(1)]) (simp add: L min_def take_is_prefix)
next
  case accept
  then show ?thesis using ainv_accept [OF assms(1,2)] by simp
next
  case ack_commit
  then show ?thesis using ainv_ack_commit [OF assms(1,2)] by simp
next
  case count_ack
  then show ?thesis using ainv_count_ack [OF assms(1)] by simp
next
  case commit_quorum
  then show ?thesis using ainv_commit_quorum [OF assms(1)] by simp
next
  case install
  then show ?thesis using ainv_install [OF assms(1,2)] by blast
next
  case restart
  then show ?thesis using ainv_follow [OF assms(1)] by simp
qed

lemma ainv_init: "ainv V acluster_init"
  by (simp add: ainv_def acluster_init_def anode_init_def node_ok_def wf_log_def origin_def safe_def)

lemma astep_frame:
  assumes "astep D V i s s'"
  shows "anet s \<subseteq> anet s'" and "j \<noteq> i \<Longrightarrow> an s' j = an s j"
  using assms by (cases; auto simp: astate_defs)+

lemma asteps_frame:
  assumes "(astep D V i)\<^sup>*\<^sup>* s s'"
  shows "anet s \<subseteq> anet s'" and "j \<noteq> i \<Longrightarrow> an s' j = an s j"
  using assms by (induction rule: rtranclp_induct) (auto dest: astep_frame)

lemma asteps_ainv: "(astep D V i)\<^sup>*\<^sup>* s s' \<Longrightarrow> ainv V s \<Longrightarrow> finite V \<Longrightarrow> ainv V s'"
  by (induction rule: rtranclp_induct) (auto intro: astep_ainv)

section \<open>Only decodable data is ever in a log\<close>

definition logs_ok :: "(bytes \<Rightarrow> bool) \<Rightarrow> acluster \<Rightarrow> bool" where
  "logs_ok D s \<longleftrightarrow> (\<forall>i. \<forall>e\<in>set (a_log (an s i)). payload_ok D (e_payload e)) \<and>
     (\<forall>ldr j t p pt es lc. AAppend ldr j t p pt es lc \<in> anet s \<longrightarrow> (\<forall>e\<in>set es. payload_ok D (e_payload e))) \<and>
     (\<forall>ldr j t pfx. ASnap ldr j t pfx \<in> anet s \<longrightarrow> (\<forall>e\<in>set pfx. payload_ok D (e_payload e)))"

lemma logs_okD:
  assumes "logs_ok D s"
  shows "e \<in> set (a_log (an s i)) \<Longrightarrow> payload_ok D (e_payload e)"
    and "AAppend ldr j t p pt es lc \<in> anet s \<Longrightarrow> e \<in> set es \<Longrightarrow> payload_ok D (e_payload e)"
    and "ASnap ldr j t pfx \<in> anet s \<Longrightarrow> e \<in> set pfx \<Longrightarrow> payload_ok D (e_payload e)"
  using assms unfolding logs_ok_def by blast+

lemma set_splice: "set (splice l p es) \<subseteq> set l \<union> set es"
  by (auto simp: splice_def dest: in_set_takeD)

lemma astep_logs_ok:
  assumes "logs_ok D s" and "astep D V i s s'"
  shows "logs_ok D s'"
  using assms(2)
proof cases
  case (send_append p lc j k)
  have "payload_ok D (e_payload e)" if "e \<in> set (take k (drop p (a_log (an s i))))" for e
    using logs_okD(1) [OF assms(1)] in_set_dropD [OF in_set_takeD [OF that]] by blast
  then show ?thesis
    using logs_okD [OF assms(1)] unfolding logs_ok_def send_append(1) by (auto simp: send_def)
next
  case (send_snap k j)
  then show ?thesis
    using logs_okD [OF assms(1)] unfolding logs_ok_def by (auto simp: send_def dest: in_set_takeD)
next
  case (accept ldr p pt es lc k)
  have "payload_ok D (e_payload e)" if "e \<in> set (splice (a_log (an s i)) (p + k) (drop k es))" for e
    using subsetD [OF set_splice that] logs_okD(1) [OF assms(1)] logs_okD(2) [OF assms(1) accept(2)]
      in_set_dropD [of e k es] by blast
  then show ?thesis
    using logs_okD [OF assms(1)] unfolding logs_ok_def accept(1) by (auto simp: astate_defs)
next
  case (install ldr pfx l)
  have "payload_ok D (e_payload e)" if "e \<in> set l" for e
    using that logs_okD(1,3) [OF assms(1)] install(2,4) by (auto split: if_splits)
  then show ?thesis
    using logs_okD [OF assms(1)] unfolding logs_ok_def install(1) by (auto simp: astate_defs)
next
  case (append t pl l)
  have "payload_ok D (e_payload e)" if "e \<in> set l" for e
    using that logs_okD(1) [OF assms(1)] append(4,5) by auto
  then show ?thesis
    using logs_okD [OF assms(1)] unfolding logs_ok_def append(1) by (auto simp: astate_defs)
qed (use logs_okD [OF assms(1)] in \<open>auto simp: logs_ok_def astate_defs\<close>)

lemma asteps_logs_ok: "(astep D V i)\<^sup>*\<^sup>* s s' \<Longrightarrow> logs_ok D s \<Longrightarrow> logs_ok D s'"
  by (induction rule: rtranclp_induct) (auto intro: astep_logs_ok)

lemma logs_ok_init: "logs_ok D acluster_init"
  by (simp add: logs_ok_def acluster_init_def anode_init_def)

section \<open>The history only grows\<close>

lemma astep_ext:
  assumes inv: "ainv V s" "finite V" and st: "astep D V i s s'"
  shows "ext s s'"
  using st
proof cases
  case (campaign t)
  then have "h_vote s i t = None" using no_future_vote [OF inv(1)] by simp
  then show ?thesis using campaign by (auto simp: ext_def astate_defs)
next
  case (grant_vote c lli llt)
  then have "h_vote s i (a_term (an s i)) \<in> {None, Some c}"
    using node_okD(3) [OF ainv_node [OF inv(1)]] by simp
  then show ?thesis using grant_vote by (auto simp: ext_def astate_defs)
next
  case (win t l)
  note ok = ainv_node [OF inv(1), of i]
  have "h_leader s t = None"
  proof (cases "h_leader s t")
    case (Some k)
    have "k = i" using leader_unique [OF inv Some win(5), of i] node_okD(11) [OF ok win(2)] win(3) by simp
    then show ?thesis using ainv_leader [OF inv(1) Some] win unfolding leader_ok_def by simp
  qed
  then show ?thesis using win by (auto simp: ext_def astate_defs)
next
  case (append t pl l)
  then show ?thesis
    using node_okD(6) [OF ainv_node [OF inv(1), of i] append(2)] by (auto simp: ext_def astate_defs)
qed (auto simp: ext_def astate_defs)

lemma ext_trans:
  assumes ab: "ext a b" and bc: "ext b c"
  shows "ext a c"
  unfolding ext_def
proof (intro conjI allI impI)
  fix t i assume t: "h_leader a t = Some i"
  note tb = leader_ext [OF ab t]
  show "h_leader c t = Some i" "h_base c t = h_base a t"
    using leader_ext [OF bc tb] base_ext [OF bc tb] base_ext [OF ab t] by auto
  show "prefix (h_llog a t) (h_llog c t)"
    using ab bc t tb unfolding ext_def by (meson prefix_order.trans)
next
  show "h_vote c j t = Some k" if "h_vote a j t = Some k" for j t k
    by (rule vote_ext [OF bc vote_ext [OF ab that]])
  show "h_clog c t k = h_clog a t k" if "h_vote a k t = Some k" for t k
    using clog_ext [OF ab that] clog_ext [OF bc vote_ext [OF ab that]] by simp
  show "a_term (an a i) \<le> a_term (an c i)" for i
    using term_ext [OF ab, of i] term_ext [OF bc, of i] by simp
qed (use ab bc in \<open>auto simp: ext_def\<close>)

lemma asteps_ext:
  assumes "(astep D V i)\<^sup>*\<^sup>* s s'" and "ainv V s" and "finite V"
  shows "ext s s'"
  using assms(1)
proof (induction rule: rtranclp_induct)
  case base
  show ?case by (rule ext_refl)
next
  case (step b c)
  then show ?case using astep_ext [OF asteps_ainv [OF step(1) assms(2,3)] assms(3)] ext_trans by blast
qed

text \<open>The committed prefix of a node is the same after any number of steps.\<close>

lemma asteps_prefix:
  assumes "(astep D V i)\<^sup>*\<^sup>* s s'" and "ainv V s" and "finite V" and "c \<le> a_commit (an s j)" and "c \<le> a_commit (an s' j)"
  shows "take c (a_log (an s' j)) = take c (a_log (an s j))"
proof -
  have e: "ext s s'" by (rule asteps_ext [OF assms(1-3)])
  have inv': "ainv V s'" by (rule asteps_ainv [OF assms(1-3)])
  have "safe V s' (a_term (an s j)) (a_log (an s j)) c"
    using safe_selfI [OF safe_le [OF node_okD(4) [OF ainv_node [OF assms(2)]] assms(4)] e order_refl] .
  moreover have "safe V s' (a_term (an s' j)) (a_log (an s' j)) c"
    using safe_le [OF node_okD(4) [OF ainv_node [OF inv']] assms(5)] .
  ultimately show ?thesis using safe_agree [OF inv' assms(3) _ _ order_refl] by blast
qed

end
