(* ===== verification/Sim_Disk.thy ===== *)
theory Sim_Disk
  imports Raft_Types
begin

text \<open>
  The durable part of the simulator's \<open>process_output\<close> (\<open>crates/sim/src/cluster.rs\<close>): how one drained
  \<open>Output\<close> changes the simulated disk, and what a later local compaction removes from it.
\<close>

text \<open>Truncate-from-then-append: \<open>position\<close>, \<open>truncate\<close>, \<open>push\<close>.\<close>

definition disk_append :: "entry \<Rightarrow> entry list \<Rightarrow> entry list" where
  "disk_append e es = takeWhile (\<lambda>x. e_index x < e_index e) es @ [e]"

definition persist_output :: "raft_output \<Rightarrow> persisted \<Rightarrow> persisted" where
  "persist_output o' d =
     (let d1 = (case o_hard_state o' of Some h \<Rightarrow> d\<lparr>p_hard_state := h\<rparr> | None \<Rightarrow> d);
          d2 = (case o_snapshot o' of Some s \<Rightarrow> d1\<lparr>p_snapshot := Some s, p_entries := []\<rparr> | None \<Rightarrow> d1)
      in d2\<lparr>p_entries := fold disk_append (o_append o') (p_entries d2)\<rparr>)"

definition disk_compact :: "snapshot \<Rightarrow> persisted \<Rightarrow> persisted" where
  "disk_compact s d =
     d\<lparr>p_snapshot := Some s, p_entries := filter (\<lambda>e. s_last_index s < e_index e) (p_entries d)\<rparr>"

lemma persist_output_default [simp]: "persist_output output_default d = d"
  by (simp add: persist_output_def output_default_def)

lemma persist_output_append:
  "persist_output (o'\<lparr>o_append := o_append o' @ es\<rparr>) d =
     (persist_output o' d)\<lparr>p_entries := fold disk_append es (p_entries (persist_output o' d))\<rparr>"
  by (simp add: persist_output_def Let_def split: option.splits)

lemma persist_output_hard_state:
  "persist_output (o'\<lparr>o_hard_state := Some h\<rparr>) d = (persist_output o' d)\<lparr>p_hard_state := h\<rparr>"
  by (simp add: persist_output_def Let_def split: option.splits)

lemma persist_output_frame [simp]:
  "persist_output (o'\<lparr>o_messages := ms\<rparr>) d = persist_output o' d"
  "persist_output (o'\<lparr>o_committed := cs\<rparr>) d = persist_output o' d"
  "persist_output (o'\<lparr>o_read_states := rs\<rparr>) d = persist_output o' d"
  by (simp_all add: persist_output_def Let_def split: option.splits)

text \<open>On contiguous entries the scan for the first index not below the new one is a \<open>take\<close>.\<close>

lemma takeWhile_contiguous:
  assumes "\<forall>k<length es. e_index (es ! k) = b + k"
  shows "takeWhile (\<lambda>x. e_index x < c) es = take (c - b) es"
  using assms
proof (induction es arbitrary: b)
  case (Cons e es)
  have "e_index e = b" using Cons.prems by force
  moreover have "\<forall>k<length es. e_index (es ! k) = Suc b + k"
    using Cons.prems by (auto dest: spec [where x = "Suc k" for k])
  ultimately show ?case
    using Cons.IH [of "Suc b"] by (cases "b < c") (simp_all add: Suc_diff_Suc [symmetric])
qed simp

lemma disk_append_contiguous:
  assumes "\<forall>k<length es. e_index (es ! k) = b + k"
  shows "disk_append e es = take (e_index e - b) es @ [e]"
  by (simp add: disk_append_def takeWhile_contiguous [OF assms])

lemma fold_disk_append_snoc:
  assumes "\<forall>k<length es. e_index (es ! k) = b + k" and "\<forall>k<length new. e_index (new ! k) = b + length es + k"
  shows "fold disk_append new es = es @ new"
  using assms
proof (induction new arbitrary: es)
  case (Cons e new)
  have e: "e_index e = b + length es" using Cons.prems(2) by force
  have "\<forall>k<length (es @ [e]). e_index ((es @ [e]) ! k) = b + k"
    using Cons.prems(1) e by (auto simp: nth_append less_Suc_eq)
  moreover have "\<forall>k<length new. e_index (new ! k) = b + length (es @ [e]) + k"
    using Cons.prems(2) by (auto dest: spec [where x = "Suc k" for k])
  ultimately show ?case
    using Cons.IH [of "es @ [e]"] disk_append_contiguous [OF Cons.prems(1), of e] e by simp
qed simp

text \<open>New entries that start at or before the end replace the tail.\<close>

lemma fold_disk_append:
  assumes "\<forall>k<length es. e_index (es ! k) = b + k" and "\<forall>k<length new. e_index (new ! k) = b + p + k"
    and "p \<le> length es" and "new \<noteq> []"
  shows "fold disk_append new es = take p es @ new"
proof -
  obtain e new' where n: "new = e # new'" using assms(4) by (cases new) auto
  have e: "e_index e = b + p" using assms(2) n by force
  have "\<forall>k<length (take p es @ [e]). e_index ((take p es @ [e]) ! k) = b + k"
    using assms(1,3) e by (auto simp: nth_append less_Suc_eq min_def)
  moreover have "\<forall>k<length new'. e_index (new' ! k) = b + length (take p es @ [e]) + k"
    using assms(2,3) n by (auto dest: spec [where x = "Suc k" for k] simp: min_def)
  ultimately show ?thesis
    using fold_disk_append_snoc [of "take p es @ [e]" b new'] disk_append_contiguous [OF assms(1), of e] e n
    by simp
qed

end
