(* ===== verification/Raft_Refine.thy ===== *)
theory Raft_Refine
  imports Raft_Node Raft_Safety Sim_Disk
begin

text \<open>
  The raft node refines the abstract protocol. \<open>nsim\<close> relates a concrete node, with the output it
  has not handed over yet, to a node of an abstract cluster; every method of \<open>node.rs\<close> is matched by
  steps of that abstract node. The relation also says what the pending output means for the host:
  replaying it on the disk gives the node's durable state, and its committed entries are those
  between the commit index at the last drain and the commit index now.
\<close>

section \<open>Logs\<close>

definition log_rel :: "raft_log \<Rightarrow> entry list \<Rightarrow> bool" where
  "log_rel l g \<longleftrightarrow> snap_index l \<le> length g \<and> log_entries l = drop (snap_index l) g \<and>
     snap_term l = tm g (snap_index l)"

lemma log_rel_last: "log_rel l g \<Longrightarrow> last_index l = length g"
  by (auto simp: log_rel_def last_index_def)

lemma log_rel_term:
  "log_rel l g \<Longrightarrow> log_term l idx = (if snap_index l \<le> idx \<and> idx \<le> length g then Some (tm g idx) else None)"
  by (auto simp: log_rel_def log_term_def last_index_def tm_def)

lemma log_rel_get:
  "log_rel l g \<Longrightarrow> log_get l idx = (if snap_index l < idx \<and> idx \<le> length g then Some (g ! (idx - 1)) else None)"
  by (auto simp: log_rel_def log_get_def last_index_def)

lemma log_rel_last_term: "log_rel l g \<Longrightarrow> last_term l = tm g (length g)"
  using log_term_last [of l] log_rel_term [of l g "last_index l"] log_rel_last [of l g]
  by (simp add: log_rel_def split: if_splits)

lemma log_rel_slice:
  assumes "log_rel l g" and "snap_index l < frm"
  shows "log_slice l frm mx = take mx (drop (frm - 1) g)"
proof (cases "length g < frm")
  case True
  then show ?thesis using assms log_rel_last [OF assms(1)] by (simp add: log_slice_def first_index_def Let_def)
next
  case False
  then have "drop (frm - snap_index l - 1) (log_entries l) = drop (frm - 1) g"
    using assms by (auto simp: log_rel_def)
  moreover have "length (log_entries l) = length g - snap_index l" using assms by (simp add: log_rel_def)
  ultimately show ?thesis
    using False assms log_rel_last [OF assms(1)]
    by (auto simp: log_slice_def first_index_def Let_def max_def min_def)
qed

lemma log_rel_push: "log_rel l g \<Longrightarrow> log_rel (log_push e l) (g @ [e])"
  by (auto simp: log_rel_def log_push_def tm_def nth_append)

lemma log_rel_pushes: "log_rel l g \<Longrightarrow> log_rel (fold log_push es l) (g @ es)"
proof (induction es arbitrary: l g)
  case (Cons e es)
  then show ?case using Cons.IH [OF log_rel_push [OF Cons.prems, of e]] by simp
qed simp

lemma snap_index_pushes [simp]: "snap_index (fold log_push es l) = snap_index l"
  by (induction es arbitrary: l) simp_all

lemma snap_term_pushes [simp]: "snap_term (fold log_push es l) = snap_term l"
  by (induction es arbitrary: l) simp_all

lemma log_entries_pushes [simp]: "log_entries (fold log_push es l) = log_entries l @ es"
  by (induction es arbitrary: l) (simp_all add: log_push_def)

lemma log_rel_compact:
  assumes "log_rel l g" and "snap_index l < idx" and "idx \<le> length g"
  shows "log_rel (log_compact idx (tm g idx) l) g"
  using assms by (auto simp: log_rel_def log_compact_def min_def)

lemma log_rel_truncate:
  assumes "log_rel l g" and "truncate_from idx l = Some l'" and "idx \<le> length g"
  shows "log_rel l' (take (idx - 1) g)"
  using assms by (auto simp: log_rel_def truncate_from_def tm_def drop_take split: if_splits)

lemma log_rel_reset: "log_rel (reset_to_snapshot (length g) (tm g (length g)) l) g"
  by (simp add: log_rel_def reset_to_snapshot_def)

lemma log_rel_contiguous: "log_rel l g \<Longrightarrow> wf_log T g \<Longrightarrow>
    \<forall>k<length (log_entries l). e_index (log_entries l ! k) = Suc (snap_index l) + k"
  by (auto simp: log_rel_def wf_log_def)

section \<open>The search for the first new entry\<close>

lemma splice_snoc: "p \<le> length g \<Longrightarrow> take (length es) (drop p g) \<noteq> es \<Longrightarrow> splice g p es = take p g @ es"
  by (simp add: splice_def)

lemma find_new_splice:
  assumes "log_rel l g" and "\<forall>k<length es. e_index (es ! k) = Suc (p + k)" and "snap_index l \<le> p"
    and "p \<le> length g"
    and "\<forall>k<length es. p + k < length g \<longrightarrow> e_term (g ! (p + k)) = e_term (es ! k) \<longrightarrow> g ! (p + k) = es ! k"
    and "\<forall>k<length es. p + k < length g \<longrightarrow> p + k < cmt \<longrightarrow> g ! (p + k) = es ! k"
  shows "\<exists>l' rest q. find_new from me cmt l es = Inr (l', rest) \<and> snap_index l' = snap_index l \<and>
     snap_term l' = snap_term l \<and>
     (if rest = [] then l' = l \<and> take (length es) (drop p g) = es
      else p \<le> q \<and> q \<le> length g \<and> log_rel l' (take q g) \<and> take q g @ rest = take p g @ es \<and>
           take (length es) (drop p g) \<noteq> es)"
  using assms
proof (induction es arbitrary: p)
  case (Cons e es)
  have e: "e_index e = Suc p" using Cons.prems(2) by force
  show ?case
  proof (cases "p < length g")
    case False
    then have "log_term l (e_index e) = None" using e Cons.prems(4) log_rel_term [OF Cons.prems(1)] by simp
    then show ?thesis
      using False Cons.prems(1,3,4) by (intro exI [of _ l] exI [of _ "e # es"] exI [of _ p]) simp
  next
    case True
    have t: "log_term l (e_index e) = Some (e_term (g ! p))"
      using log_rel_term [OF Cons.prems(1)] True e Cons.prems(3) by (simp add: tm_def)
    have dr: "drop p g = g ! p # drop (Suc p) g" using True by (simp add: Cons_nth_drop_Suc)
    show ?thesis
    proof (cases "e_term (g ! p) = e_term e")
      case eq: True
      have ge: "g ! p = e" using Cons.prems(5) eq True by (metis add_0_right length_greater_0_conv list.distinct(1) nth_Cons_0)
      have "\<forall>k<length es. e_index (es ! k) = Suc (Suc p + k)"
        using Cons.prems(2) by (auto dest: spec [where x = "Suc k" for k])
      moreover have "\<forall>k<length es. Suc p + k < length g \<longrightarrow> e_term (g ! (Suc p + k)) = e_term (es ! k) \<longrightarrow>
          g ! (Suc p + k) = es ! k"
        using Cons.prems(5) by (auto dest: spec [where x = "Suc k" for k])
      moreover have "\<forall>k<length es. Suc p + k < length g \<longrightarrow> Suc p + k < cmt \<longrightarrow> g ! (Suc p + k) = es ! k"
        using Cons.prems(6) by (auto dest: spec [where x = "Suc k" for k])
      moreover have "snap_index l \<le> Suc p" "Suc p \<le> length g" using Cons.prems(3) True by auto
      ultimately obtain l' rest q where r: "find_new from me cmt l es = Inr (l', rest)"
        "snap_index l' = snap_index l" "snap_term l' = snap_term l"
        "if rest = [] then l' = l \<and> take (length es) (drop (Suc p) g) = es
         else Suc p \<le> q \<and> q \<le> length g \<and> log_rel l' (take q g) \<and> take q g @ rest = take (Suc p) g @ es \<and>
           take (length es) (drop (Suc p) g) \<noteq> es"
        using Cons.IH [OF Cons.prems(1), of "Suc p"] by blast
      moreover have "take (Suc p) g = take p g @ [e]" using True ge by (simp add: take_Suc_conv_app_nth)
      ultimately show ?thesis
        using t eq dr ge by (intro exI [of _ l'] exI [of _ rest] exI [of _ q]) (auto split: if_splits)
    next
      case ne: False
      have "\<not> p < cmt" using Cons.prems(6) True ne by (metis add_0_right length_greater_0_conv list.distinct(1) nth_Cons_0)
      moreover obtain l' where l': "truncate_from (e_index e) l = Some l'"
        using Cons.prems(3) e by (auto simp: truncate_from_def)
      ultimately have "find_new from me cmt l (e # es) = Inr (l', e # es)" using t ne e by simp
      then show ?thesis
        using log_rel_truncate [OF Cons.prems(1) l'] truncate_from_get(2,3) [OF l'] True e ne dr
        by (intro exI [of _ l'] exI [of _ "e # es"] exI [of _ p]) auto
    qed
  qed
qed simp

section \<open>The simulation relation\<close>

text \<open>
  The parameters of the relation: the voters, the data that may be proposed, the bytes a snapshot of a log prefix holds, the disk and
  the commit index at the last drain, and the node's id.
\<close>

record sim_ctx =
  x_vs :: "node_id list"
  x_ok :: "bytes \<Rightarrow> bool"
  x_data :: "entry list \<Rightarrow> bytes"
  x_disk :: persisted
  x_commit :: index
  x_id :: node_id

abbreviation V_of :: "sim_ctx \<Rightarrow> node_id set" where "V_of X \<equiv> set (x_vs X)"

fun arole :: "role \<Rightarrow> role" where
  "arole PreCandidate = Follower"
| "arole r = r"

definition snap_rel :: "sim_ctx \<Rightarrow> snapshot \<Rightarrow> entry list \<Rightarrow> bool" where
  "snap_rel X s pfx \<longleftrightarrow> length pfx = s_last_index s \<and> tm pfx (length pfx) = s_last_term s \<and>
     s_voters s = x_vs X \<and> s_data s = x_data X pfx"

definition msg_rel :: "sim_ctx \<Rightarrow> amsg set \<Rightarrow> message \<Rightarrow> bool" where
  "msg_rel X N m \<longleftrightarrow> m_from m \<in> V_of X \<and> m_to m \<in> V_of X \<and>
     (case m_body m of
        RequestVote lli llt \<Rightarrow> ARequestVote (m_from m) (m_to m) (m_term m) lli llt \<in> N
      | RequestVoteResp g \<Rightarrow> g \<longrightarrow> AVote (m_from m) (m_to m) (m_term m) \<in> N
      | AppendEntries p pt es lc rc \<Rightarrow> AAppend (m_from m) (m_to m) (m_term m) p pt es lc \<in> N
      | AppendEntriesResp ok mi ci rc \<Rightarrow> ok \<longrightarrow> AAck (m_from m) (m_to m) (m_term m) mi \<in> N
      | InstallSnapshot s \<Rightarrow>
          (\<exists>pfx. ASnap (m_from m) (m_to m) (m_term m) pfx \<in> N \<and> snap_rel X s pfx)
      | InstallSnapshotResp li \<Rightarrow> AAck (m_from m) (m_to m) (m_term m) li \<in> N
      | _ \<Rightarrow> True)"

definition state_rel :: "sim_ctx \<Rightarrow> anode \<Rightarrow> raft_node \<Rightarrow> bool" where
  "state_rel X a n \<longleftrightarrow> nid n = x_id X \<and> voters_base n = x_vs X \<and>
     a_term a = cur_term n \<and> a_vote a = hs_voted_for (hs n) \<and> a_commit a = commit n \<and>
     a_role a = arole (role n) \<and> log_rel (rlog n) (a_log a) \<and> snap_index (rlog n) \<le> commit n \<and>
     (case node_snapshot n of None \<Rightarrow> snap_index (rlog n) = 0
      | Some s \<Rightarrow> snap_rel X s (take (snap_index (rlog n)) (a_log a)) \<and> s_last_index s = snap_index (rlog n))"

definition peers_rel :: "sim_ctx \<Rightarrow> anode \<Rightarrow> raft_node \<Rightarrow> bool" where
  "peers_rel X a n \<longleftrightarrow> bt_ok (votes n) \<and> bt_ok (prs n) \<and> set (bt_keys (prs n)) \<subseteq> V_of X \<and>
     (role n = Candidate \<longrightarrow> (\<forall>j. bt_get (votes n) j = Some True \<longrightarrow> j \<in> a_granted a)) \<and>
     (role n = Leader \<longrightarrow> (\<forall>j p. bt_get (prs n) j = Some p \<longrightarrow> pr_matched p \<le> a_match a j))"

definition out_rel :: "sim_ctx \<Rightarrow> anode \<Rightarrow> amsg set \<Rightarrow> raft_node \<Rightarrow> bool" where
  "out_rel X a N n \<longleftrightarrow> (\<forall>m\<in>set (o_messages (out n)). msg_rel X N m) \<and>
     persist_output (out n) (x_disk X) =
       \<lparr>p_hard_state = hs n, p_entries = log_entries (rlog n), p_snapshot = node_snapshot n\<rparr> \<and>
     (case o_snapshot (out n) of
        None \<Rightarrow> x_commit X \<le> commit n \<and> o_committed (out n) = drop (x_commit X) (take (commit n) (a_log a))
      | Some s \<Rightarrow> o_committed (out n) = [] \<and> node_snapshot n = Some s \<and> commit n = s_last_index s \<and>
          o_append (out n) = [] \<and> x_commit X \<le> commit n)"

definition nsim :: "sim_ctx \<Rightarrow> acluster \<Rightarrow> raft_node \<Rightarrow> bool" where
  "nsim X A n \<longleftrightarrow> ainv (V_of X) A \<and> distinct (x_vs X) \<and> x_id X \<in> V_of X \<and>
     state_rel X (an A (x_id X)) n \<and> peers_rel X (an A (x_id X)) n \<and>
     out_rel X (an A (x_id X)) (anet A) n"

text \<open>The abstract cluster can reach, by steps of this node alone, a state related to the node.\<close>

definition reaches :: "sim_ctx \<Rightarrow> acluster \<Rightarrow> raft_node \<Rightarrow> bool" where
  "reaches X A n \<longleftrightarrow> (\<exists>A'. (astep (x_ok X) (V_of X) (x_id X))\<^sup>*\<^sup>* A A' \<and> nsim X A' n)"

lemma reaches_refl: "nsim X A n \<Longrightarrow> reaches X A n"
  unfolding reaches_def by blast

lemma reaches_step: "astep (x_ok X) (V_of X) (x_id X) A A' \<Longrightarrow> reaches X A' n \<Longrightarrow> reaches X A n"
  unfolding reaches_def by (meson converse_rtranclp_into_rtranclp)

lemma reaches_trans_net:
  assumes "reaches X A n" and "\<And>A'. nsim X A' n \<Longrightarrow> anet A \<subseteq> anet A' \<Longrightarrow> reaches X A' n'"
  shows "reaches X A n'"
proof -
  obtain A' where A': "(astep (x_ok X) (V_of X) (x_id X))\<^sup>*\<^sup>* A A'" "nsim X A' n"
    using assms(1) unfolding reaches_def by blast
  then show ?thesis
    using assms(2) [OF A'(2) asteps_frame(1) [OF A'(1)]] unfolding reaches_def by (meson rtranclp_trans)
qed

lemma reaches_trans: "reaches X A n \<Longrightarrow> (\<And>A'. nsim X A' n \<Longrightarrow> reaches X A' n') \<Longrightarrow> reaches X A n'"
  by (rule reaches_trans_net)

lemma astep_inv: "nsim X A n \<Longrightarrow> astep (x_ok X) (V_of X) (x_id X) A A' \<Longrightarrow> ainv (V_of X) A'"
  unfolding nsim_def using astep_ainv by blast

section \<open>Fields the relation does not look at\<close>

lemma state_rel_frame [frame_simps]:
  "state_rel X a (n\<lparr>leader_id := x1\<rparr>) = state_rel X a n"
  "state_rel X a (n\<lparr>election_elapsed := x2\<rparr>) = state_rel X a n"
  "state_rel X a (n\<lparr>randomized_timeout := x2\<rparr>) = state_rel X a n"
  "state_rel X a (n\<lparr>heartbeat_elapsed := x2\<rparr>) = state_rel X a n"
  "state_rel X a (n\<lparr>tick_counter := x2\<rparr>) = state_rel X a n"
  "state_rel X a (n\<lparr>read_ctx_counter := x2\<rparr>) = state_rel X a n"
  "state_rel X a (n\<lparr>pending_reads := x3\<rparr>) = state_rel X a n"
  "state_rel X a (n\<lparr>rng := x4\<rparr>) = state_rel X a n"
  "state_rel X a (n\<lparr>votes := x5\<rparr>) = state_rel X a n"
  "state_rel X a (n\<lparr>prs := x6\<rparr>) = state_rel X a n"
  "state_rel X a (n\<lparr>out := x7\<rparr>) = state_rel X a n"
  by (simp_all add: state_rel_def cong: option.case_cong)

lemma peers_rel_frame [frame_simps]:
  "peers_rel X a (n\<lparr>leader_id := x1\<rparr>) = peers_rel X a n"
  "peers_rel X a (n\<lparr>election_elapsed := x2\<rparr>) = peers_rel X a n"
  "peers_rel X a (n\<lparr>randomized_timeout := x2\<rparr>) = peers_rel X a n"
  "peers_rel X a (n\<lparr>heartbeat_elapsed := x2\<rparr>) = peers_rel X a n"
  "peers_rel X a (n\<lparr>tick_counter := x2\<rparr>) = peers_rel X a n"
  "peers_rel X a (n\<lparr>read_ctx_counter := x2\<rparr>) = peers_rel X a n"
  "peers_rel X a (n\<lparr>pending_reads := x3\<rparr>) = peers_rel X a n"
  "peers_rel X a (n\<lparr>rng := x4\<rparr>) = peers_rel X a n"
  "peers_rel X a (n\<lparr>hs := x5\<rparr>) = peers_rel X a n"
  "peers_rel X a (n\<lparr>rlog := x6\<rparr>) = peers_rel X a n"
  "peers_rel X a (n\<lparr>commit := x2\<rparr>) = peers_rel X a n"
  "peers_rel X a (n\<lparr>out := x7\<rparr>) = peers_rel X a n"
  by (simp_all add: peers_rel_def)

lemma out_rel_frame [frame_simps]:
  "out_rel X a N (n\<lparr>role := x0\<rparr>) = out_rel X a N n"
  "out_rel X a N (n\<lparr>leader_id := x1\<rparr>) = out_rel X a N n"
  "out_rel X a N (n\<lparr>election_elapsed := x2\<rparr>) = out_rel X a N n"
  "out_rel X a N (n\<lparr>randomized_timeout := x2\<rparr>) = out_rel X a N n"
  "out_rel X a N (n\<lparr>heartbeat_elapsed := x2\<rparr>) = out_rel X a N n"
  "out_rel X a N (n\<lparr>tick_counter := x2\<rparr>) = out_rel X a N n"
  "out_rel X a N (n\<lparr>read_ctx_counter := x2\<rparr>) = out_rel X a N n"
  "out_rel X a N (n\<lparr>pending_reads := x3\<rparr>) = out_rel X a N n"
  "out_rel X a N (n\<lparr>rng := x4\<rparr>) = out_rel X a N n"
  "out_rel X a N (n\<lparr>votes := x5\<rparr>) = out_rel X a N n"
  "out_rel X a N (n\<lparr>prs := x6\<rparr>) = out_rel X a N n"
  by (simp_all add: out_rel_def cong: option.case_cong)

lemma nsim_frame [frame_simps]:
  "nsim X A (n\<lparr>leader_id := x1\<rparr>) = nsim X A n"
  "nsim X A (n\<lparr>election_elapsed := x2\<rparr>) = nsim X A n"
  "nsim X A (n\<lparr>randomized_timeout := x2\<rparr>) = nsim X A n"
  "nsim X A (n\<lparr>heartbeat_elapsed := x2\<rparr>) = nsim X A n"
  "nsim X A (n\<lparr>tick_counter := x2\<rparr>) = nsim X A n"
  "nsim X A (n\<lparr>read_ctx_counter := x2\<rparr>) = nsim X A n"
  "nsim X A (n\<lparr>pending_reads := x3\<rparr>) = nsim X A n"
  "nsim X A (n\<lparr>rng := x4\<rparr>) = nsim X A n"
  by (simp_all add: nsim_def frame_simps)

lemma reset_timer_form:
  "\<exists>r t. reset_election_timer n = n\<lparr>rng := r, randomized_timeout := t, election_elapsed := 0\<rparr>"
  unfolding reset_election_timer_def next_rand_def Let_def prod.case by (intro exI) (rule refl)

lemma reset_timer_sel [simp]:
  "cfg (reset_election_timer n) = cfg n" "rlog (reset_election_timer n) = rlog n"
  "hs (reset_election_timer n) = hs n" "role (reset_election_timer n) = role n"
  "commit (reset_election_timer n) = commit n" "prs (reset_election_timer n) = prs n"
  "votes (reset_election_timer n) = votes n" "out (reset_election_timer n) = out n"
  "voters_base (reset_election_timer n) = voters_base n"
  "node_snapshot (reset_election_timer n) = node_snapshot n"
  "pending_reads (reset_election_timer n) = pending_reads n"
  using reset_timer_form [of n] by auto

lemma nsim_reset_timer [frame_simps]: "nsim X A (reset_election_timer n) = nsim X A n"
  using reset_timer_form [of n] by (auto simp: frame_simps)

lemma msg_rel_mono: "msg_rel X N m \<Longrightarrow> N \<subseteq> N' \<Longrightarrow> msg_rel X N' m"
  unfolding msg_rel_def by (auto split: message_body.splits)

end
