(* ===== verification/Raft_Refine_Ops.thy ===== *)
theory Raft_Refine_Ops
  imports Raft_Refine
begin

text \<open>
  The private methods of \<open>node.rs\<close> are matched by steps of the abstract protocol, under a voter set that
  does not change: sending to peers, changing term and role, and advancing the commit index.
\<close>

section \<open>Building blocks\<close>

lemma nsimD:
  assumes "nsim X A n"
  shows "ainv (V_of X) A" and "distinct (x_vs X)" and "x_id X \<in> V_of X"
    and "state_rel X (an A (x_id X)) n" and "peers_rel X (an A (x_id X)) n"
    and "out_rel X (an A (x_id X)) (anet A) n"
  using assms unfolding nsim_def by auto

lemma nsim_state:
  assumes "nsim X A n"
  shows "nid n = x_id X" and "voters_base n = x_vs X" and "a_term (an A (x_id X)) = cur_term n"
    and "a_vote (an A (x_id X)) = hs_voted_for (hs n)" and "a_commit (an A (x_id X)) = commit n"
    and "a_role (an A (x_id X)) = arole (role n)" and "log_rel (rlog n) (a_log (an A (x_id X)))"
    and "snap_index (rlog n) \<le> commit n"
  using nsimD(4) [OF assms] unfolding state_rel_def by auto

lemma nsim_wf: "nsim X A n \<Longrightarrow> wf_log (cur_term n) (a_log (an A (x_id X)))"
  using node_okD(1) [OF ainv_node [OF nsimD(1)]] nsim_state(3) by metis

lemma nsim_commit_le: "nsim X A n \<Longrightarrow> commit n \<le> length (a_log (an A (x_id X)))"
  using node_okD(4) [OF ainv_node [OF nsimD(1)]] nsim_state(5) unfolding safe_def by metis

lemma conf_loop_none:
  "\<forall>e\<in>set es. \<forall>cc. e_payload e \<noteq> ConfChange cc \<Longrightarrow> conf_loop idx es v = v"
  by (induction es arbitrary: v) (auto split: entry_payload.splits)

lemma nsim_voters_at: "nsim X A n \<Longrightarrow> voters_at n idx = x_vs X"
  using nsim_wf [of X A n] nsim_state(2,7) [of X A n]
  unfolding voters_at_def log_rel_def wf_log_def by (auto intro!: conf_loop_none dest: in_set_dropD)

lemma nsim_voters: "nsim X A n \<Longrightarrow> voters n = x_vs X"
  by (simp add: voters_def nsim_voters_at)

lemma arole_eq [simp]: "arole r = Leader \<longleftrightarrow> r = Leader" "arole r = Candidate \<longleftrightarrow> r = Candidate"
  by (cases r; simp)+

lemma nsim_push:
  assumes "nsim X A n" and "msg_rel X (anet A) \<lparr>m_from = nid n, m_to = dst, m_term = t, m_body = b\<rparr>"
  shows "nsim X A (push_msg dst t b n)"
  using assms unfolding nsim_def
  by (simp add: push_msg_def frame_simps) (simp add: out_rel_def cong: option.case_cong)

lemma nsim_mono:
  assumes "nsim X A n" and "ainv (V_of X) A'" and "an A' (x_id X) = an A (x_id X)" and "anet A \<subseteq> anet A'"
  shows "nsim X A' n"
  using assms(1,2) msg_rel_mono [OF _ assms(4)] unfolding nsim_def out_rel_def assms(3) by blast

lemma reaches_send:
  assumes "nsim X A n" and "astep (x_ok X) (V_of X) (x_id X) A (send am A)"
    and "msg_rel X (insert am (anet A)) \<lparr>m_from = nid n, m_to = dst, m_term = t, m_body = b\<rparr>"
  shows "reaches X A (push_msg dst t b n)"
proof (rule reaches_step [OF assms(2) reaches_refl])
  have "nsim X (send am A) n"
    by (rule nsim_mono [OF assms(1) astep_inv [OF assms(1,2)]]) (auto simp: send_def)
  then show "nsim X (send am A) (push_msg dst t b n)"
    by (rule nsim_push) (use assms(3) in \<open>simp add: send_def\<close>)
qed

lemma push_msg_sel [simp]:
  "cfg (push_msg d t b n) = cfg n" "rlog (push_msg d t b n) = rlog n" "hs (push_msg d t b n) = hs n"
  "role (push_msg d t b n) = role n" "commit (push_msg d t b n) = commit n" "prs (push_msg d t b n) = prs n"
  "voters_base (push_msg d t b n) = voters_base n" "votes (push_msg d t b n) = votes n"
  by (simp_all add: push_msg_def)

lemma nsim_set_progress:
  assumes "nsim X A n" and "peer \<in> V_of X"
    and "role n = Leader \<Longrightarrow> pr_matched p \<le> a_match (an A (x_id X)) peer"
  shows "nsim X A (set_progress peer p n)"
  using assms nsimD(5) [OF assms(1)] unfolding nsim_def
  by (simp add: set_progress_def frame_simps) (auto simp: peers_rel_def set_bt_keys split: if_splits)

lemma nsim_prs:
  assumes "nsim X A n" and "bt_get (prs n) peer = Some p"
  shows "peer \<in> V_of X" and "role n = Leader \<Longrightarrow> pr_matched p \<le> a_match (an A (x_id X)) peer"
  using nsimD(5) [OF assms(1)] assms(2) unfolding peers_rel_def by (auto simp: set_bt_keys)

section \<open>Sending\<close>

lemma set_progress_sel [simp]:
  "cfg (set_progress j p n) = cfg n" "rlog (set_progress j p n) = rlog n" "hs (set_progress j p n) = hs n"
  "role (set_progress j p n) = role n" "commit (set_progress j p n) = commit n"
  "out (set_progress j p n) = out n" "voters_base (set_progress j p n) = voters_base n"
  by (simp_all add: set_progress_def)

lemma reaches_push_append:
  assumes "nsim X A n" and "role n = Leader" and "peer \<in> V_of X"
    and "log_term (rlog n) prev = Some pt" and "es = take k (drop prev (a_log (an A (x_id X))))"
  shows "reaches X A (push_msg peer (cur_term n) (AppendEntries prev pt es (commit n) rc) n)"
proof (rule reaches_send [OF assms(1)])
  note st = nsim_state [OF assms(1)]
  have "prev \<le> length (a_log (an A (x_id X)))" "pt = tm (a_log (an A (x_id X))) prev"
    using log_rel_term [OF st(7), of prev] assms(4) by (auto split: if_splits)
  then show "astep (x_ok X) (V_of X) (x_id X) A (send (AAppend (x_id X) peer (cur_term n) prev pt es (commit n)) A)"
    using astep.send_append [of A "x_id X" prev "commit n" "x_ok X" "V_of X" peer k] assms(2,5) st(3,5,6) by simp
  show "msg_rel X (insert (AAppend (x_id X) peer (cur_term n) prev pt es (commit n)) (anet A))
      \<lparr>m_from = nid n, m_to = peer, m_term = cur_term n, m_body = AppendEntries prev pt es (commit n) rc\<rparr>"
    using st(1) nsimD(3) [OF assms(1)] assms(3) by (simp add: msg_rel_def)
qed

lemma reaches_push_snapshot:
  assumes "nsim X A n" and "role n = Leader" and "peer \<in> V_of X" and "node_snapshot n = Some s"
  shows "reaches X A (push_msg peer (cur_term n) (InstallSnapshot s) n)"
proof (rule reaches_send [OF assms(1)])
  note st = nsim_state [OF assms(1)]
  let ?pfx = "take (snap_index (rlog n)) (a_log (an A (x_id X)))"
  show "astep (x_ok X) (V_of X) (x_id X) A (send (ASnap (x_id X) peer (cur_term n) ?pfx) A)"
    using astep.send_snap [of A "x_id X" "snap_index (rlog n)" "x_ok X" "V_of X" peer] assms(2) st(3,5,6,8) by simp
  have "snap_rel X s ?pfx" using nsimD(4) [OF assms(1)] assms(4) unfolding state_rel_def by simp
  then show "msg_rel X (insert (ASnap (x_id X) peer (cur_term n) ?pfx) (anet A))
      \<lparr>m_from = nid n, m_to = peer, m_term = cur_term n, m_body = InstallSnapshot s\<rparr>"
    using st(1) nsimD(3) [OF assms(1)] assms(3) by (auto simp: msg_rel_def)
qed

lemma reaches_send_entries:
  assumes "nsim X A n" and "role n = Leader" and "peer \<in> V_of X" and "snap_index (rlog n) < pr_next pr"
    and "pr_matched pr \<le> a_match (an A (x_id X)) peer"
  shows "reaches X A (send_entries peer pr n)"
proof (cases "log_term (rlog n) (pr_next pr - 1)")
  case None
  then show ?thesis
    using nsim_set_progress [OF assms(1,3)] assms(5) by (simp add: send_entries_def reaches_refl)
next
  case (Some pt)
  define es0 where "es0 = log_slice (rlog n) (pr_next pr) (c_max_batch_entries (cfg n))"
  define full where "full \<longleftrightarrow> es0 \<noteq> [] \<and> c_max_inflight (cfg n) \<le> pr_inflight pr"
  define es where "es = (if full then [] else es0)"
  define pr1 where "pr1 = (if full then pr\<lparr>pr_inflight := pr_inflight pr - 1\<rparr> else pr)"
  define pr2 where "pr2 = (if es \<noteq> [] then
    pr1\<lparr>pr_next := pr_next pr1 + length es, pr_inflight := pr_inflight pr1 + 1\<rparr> else pr1)"
  note defs = es0_def full_def es_def pr1_def pr2_def
  have m: "pr_matched pr2 = pr_matched pr" by (simp add: pr1_def pr2_def)
  have s: "nsim X A (set_progress peer pr2 n)" by (rule nsim_set_progress [OF assms(1,3)]) (simp add: m assms(5))
  have "es0 = take (c_max_batch_entries (cfg n)) (drop (pr_next pr - 1) (a_log (an A (x_id X))))"
    unfolding es0_def by (rule log_rel_slice [OF nsim_state(7) [OF assms(1)] assms(4)])
  then have "es = take (if full then 0 else c_max_batch_entries (cfg n))
      (drop (pr_next pr - 1) (a_log (an A (x_id X))))"
    by (simp add: es_def)
  then have "reaches X A (push_msg peer (cur_term n)
      (AppendEntries (pr_next pr - 1) pt es (commit n) (read_ctx_counter n)) (set_progress peer pr2 n))"
    using reaches_push_append [OF s _ assms(3), of "pr_next pr - 1" pt es] Some assms(2) by simp
  moreover have "send_entries peer pr n = push_msg peer (cur_term n)
      (AppendEntries (pr_next pr - 1) pt es (commit n) (read_ctx_counter n)) (set_progress peer pr2 n)"
    unfolding send_entries_def Let_def Some option.case defs ..
  ultimately show ?thesis by simp
qed

lemma reaches_send_append:
  assumes "nsim X A n" and "role n = Leader"
  shows "reaches X A (send_append peer n)"
proof (cases "bt_get (prs n) peer")
  case None
  then show ?thesis using assms by (simp add: send_append_def reaches_refl)
next
  case (Some pr0)
  note p = nsim_prs(1) [OF assms(1) Some] nsim_prs(2) [OF assms(1) Some assms(2)]
  let ?pr = "pr0\<lparr>pr_pending_snapshot := False\<rparr>"
  have a: "nsim X A (set_progress peer ?pr n)" by (rule nsim_set_progress [OF assms(1) p(1)]) (simp add: p(2))
  have b: "nsim X A (set_progress peer (?pr\<lparr>pr_pending_snapshot := True,
      pr_snapshot_sent_tick := tick_counter n\<rparr>) n)"
    by (rule nsim_set_progress [OF assms(1) p(1)]) (simp add: p(2))
  have "reaches X A (send_entries peer ?pr n)" if "\<not> pr_next ?pr \<le> snap_index (rlog n)"
    by (rule reaches_send_entries [OF assms p(1)]) (use that p(2) in simp_all)
  then show ?thesis
    using Some assms reaches_refl [OF assms(1)] reaches_refl [OF a]
      reaches_push_snapshot [OF b _ p(1)]
    by (simp add: send_append_def set_progress_def Let_def split: option.split)
qed

lemma send_append_sel [simp]:
  "cfg (send_append j n) = cfg n" "rlog (send_append j n) = rlog n" "hs (send_append j n) = hs n"
  "role (send_append j n) = role n" "commit (send_append j n) = commit n"
  by (simp_all add: send_append_def send_entries_def Let_def split: option.split)

lemma reaches_send_appends:
  assumes "nsim X A n" and "role n = Leader"
  shows "reaches X A (fold send_append js n)"
  using assms
proof (induction js arbitrary: A n)
  case (Cons j js)
  show ?case
    using reaches_trans [OF reaches_send_append [OF Cons.prems, of j]] Cons.IH Cons.prems(2) by simp
qed (simp add: reaches_refl)

lemma nsim_prs_update:
  assumes "nsim X A n" and "bt_ok ps" and "set (bt_keys ps) \<subseteq> V_of X"
    and "\<And>j p. bt_get ps j = Some p \<Longrightarrow> pr_matched p = 0 \<or> bt_get (prs n) j = Some p"
  shows "nsim X A (n\<lparr>prs := ps\<rparr>)"
  using assms nsimD(5) [OF assms(1)] unfolding nsim_def
  by (simp add: frame_simps) (fastforce simp: peers_rel_def)

lemma bt_get_fold_or_insert:
  "bt_get (fold (\<lambda>peer m. if P peer then bt_or_insert peer v m else m) js m0) j =
     (case bt_get m0 j of Some p \<Rightarrow> Some p | None \<Rightarrow> if j \<in> set js \<and> P j then Some v else None)"
  by (induction js arbitrary: m0) (auto split: option.split)

lemma bt_ok_fold_or_insert:
  "bt_ok m0 \<Longrightarrow> bt_ok (fold (\<lambda>peer m. if P peer then bt_or_insert peer v m else m) js m0)"
  by (induction js arbitrary: m0) simp_all

lemma nsim_sync_progress:
  assumes "nsim X A n"
  shows "nsim X A (sync_progress_with_voters n)"
proof (cases "role n = Leader")
  case True
  define m where "m = fold (\<lambda>peer m. if peer \<noteq> nid n
    then bt_or_insert peer (progress_new (last_index (rlog n) + 1)) m else m) (voters n) (prs n)"
  have prs: "bt_ok (prs n)" "set (bt_keys (prs n)) \<subseteq> V_of X"
    using nsimD(5) [OF assms] unfolding peers_rel_def by auto
  have ok: "bt_ok m" unfolding m_def by (rule bt_ok_fold_or_insert [OF prs(1)])
  have get: "bt_get m j = (case bt_get (prs n) j of Some p \<Rightarrow> Some p
      | None \<Rightarrow> if j \<in> V_of X \<and> j \<noteq> nid n then Some (progress_new (last_index (rlog n) + 1)) else None)" for j
    unfolding m_def bt_get_fold_or_insert nsim_voters [OF assms] by (simp split: option.split)
  have "nsim X A (n\<lparr>prs := bt_retain (\<lambda>i _. i \<in> set (voters n)) m\<rparr>)"
  proof (rule nsim_prs_update [OF assms])
    show "bt_ok (bt_retain (\<lambda>i _. i \<in> set (voters n)) m)" using ok by simp
    show "set (bt_keys (bt_retain (\<lambda>i _. i \<in> set (voters n)) m)) \<subseteq> V_of X"
      unfolding set_bt_keys bt_get_retain [OF ok] nsim_voters [OF assms] by (auto split: option.splits)
    show "pr_matched p = 0 \<or> bt_get (prs n) j = Some p"
      if "bt_get (bt_retain (\<lambda>i _. i \<in> set (voters n)) m) j = Some p" for j p
      using that unfolding bt_get_retain [OF ok] get
      by (auto simp: progress_new_def split: option.splits if_splits)
  qed
  then show ?thesis
    using True unfolding sync_progress_with_voters_def Let_def m_def by (simp only: simp_thms if_False)
qed (simp add: assms sync_progress_with_voters_def)

lemma sync_progress_sel [simp]:
  "cfg (sync_progress_with_voters n) = cfg n" "rlog (sync_progress_with_voters n) = rlog n"
  "hs (sync_progress_with_voters n) = hs n" "role (sync_progress_with_voters n) = role n"
  "commit (sync_progress_with_voters n) = commit n"
  by (simp_all add: sync_progress_with_voters_def Let_def)

lemma reaches_broadcast:
  assumes "nsim X A n" and "role n = Leader"
  shows "reaches X A (broadcast_append n)"
  using reaches_send_appends [OF nsim_sync_progress [OF assms(1)]] assms(2)
  by (simp add: broadcast_append_def Let_def)

lemma send_appends_sel [simp]:
  "cfg (fold send_append js n) = cfg n" "rlog (fold send_append js n) = rlog n"
  "hs (fold send_append js n) = hs n" "role (fold send_append js n) = role n"
  "commit (fold send_append js n) = commit n"
  by (induction js arbitrary: n) simp_all

lemma broadcast_sel [simp]:
  "cfg (broadcast_append n) = cfg n" "rlog (broadcast_append n) = rlog n" "hs (broadcast_append n) = hs n"
  "role (broadcast_append n) = role n" "commit (broadcast_append n) = commit n"
  by (simp_all add: broadcast_append_def Let_def)

section \<open>Terms, votes, commit\<close>

lemma become_follower_form:
  "\<exists>r t'. become_follower t ldr n =
     (if cur_term n < t then set_vote None (set_term t n) else n)
       \<lparr>role := Follower, leader_id := ldr, prs := bt_empty, pending_reads := [],
         rng := r, randomized_timeout := t', election_elapsed := 0\<rparr>"
  unfolding become_follower_def Let_def using reset_timer_form by blast

lemma persist_hs:
  "out_rel X a N n \<Longrightarrow> out_rel X a N (n\<lparr>hs := h, out := (out n)\<lparr>o_hard_state := Some h\<rparr>\<rparr>)"
  by (simp add: out_rel_def persist_output_hard_state cong: option.case_cong)

lemma nsim_hs_votes:
  assumes "nsim X A n" and "ainv (V_of X) A'"
    and "an A' (x_id X) = (an A (x_id X))\<lparr>a_term := t, a_vote := v, a_role := arole r, a_granted := g\<rparr>"
    and "anet A \<subseteq> anet A'" and "peers_rel X (an A' (x_id X)) (n\<lparr>role := r, votes := vt\<rparr>)"
  shows "nsim X A' (n\<lparr>hs := \<lparr>hs_term = t, hs_voted_for = v\<rparr>,
    out := (out n)\<lparr>o_hard_state := Some \<lparr>hs_term = t, hs_voted_for = v\<rparr>\<rparr>, role := r, votes := vt\<rparr>)"
  (is "nsim X A' (_\<lparr>hs := ?h, out := ?o, role := r, votes := vt\<rparr>)")
proof -
  have "out_rel X (an A' (x_id X)) (anet A') (n\<lparr>hs := ?h, out := ?o\<rparr>)"
    using persist_hs [OF nsimD(6) [OF assms(1)], of ?h] msg_rel_mono [OF _ assms(4)] assms(3)
    unfolding out_rel_def by (auto split: option.splits)
  then have "out_rel X (an A' (x_id X)) (anet A') (n\<lparr>hs := ?h, out := ?o, role := r, votes := vt\<rparr>)"
    by (simp add: out_rel_def cong: option.case_cong)
  moreover have "state_rel X (an A' (x_id X)) (n\<lparr>hs := ?h, out := ?o, role := r, votes := vt\<rparr>)"
    using nsimD(4) [OF assms(1)] assms(3) by (simp add: state_rel_def split: option.splits)
  ultimately show ?thesis
    using nsimD(2,3) [OF assms(1)] assms(2,5) unfolding nsim_def by (simp add: peers_rel_def)
qed

lemmas nsim_hs = nsim_hs_votes [where vt = "votes n" and n = n for n, simplified]

lemma set_hs_form:
  "t \<noteq> cur_term n \<Longrightarrow> set_vote v (set_term t n) = n\<lparr>hs := \<lparr>hs_term = t, hs_voted_for = v\<rparr>,
     out := (out n)\<lparr>o_hard_state := Some \<lparr>hs_term = t, hs_voted_for = v\<rparr>\<rparr>\<rparr>"
  by (cases "hs n") (auto simp: set_vote_def set_term_def Let_def)

lemma set_hs_frame [simp]:
  "cfg (set_vote v n) = cfg n" "rlog (set_vote v n) = rlog n" "role (set_vote v n) = role n"
  "commit (set_vote v n) = commit n" "voters_base (set_vote v n) = voters_base n"
  "prs (set_vote v n) = prs n" "votes (set_vote v n) = votes n"
  "cfg (set_term t n) = cfg n" "rlog (set_term t n) = rlog n" "role (set_term t n) = role n"
  "commit (set_term t n) = commit n" "voters_base (set_term t n) = voters_base n"
  "prs (set_term t n) = prs n" "votes (set_term t n) = votes n"
  by (simp_all add: set_vote_def set_term_def Let_def)

text \<open>Stepping down within a term.\<close>

lemma nsim_role_follower:
  assumes "nsim X A n" and "r = Follower \<or> r = PreCandidate" and "bt_ok vt"
  shows "reaches X A (n\<lparr>role := r, votes := vt\<rparr>)"
proof (rule reaches_step [OF astep.step_down reaches_refl])
  let ?A = "upd (x_id X) (\<lambda>a. a\<lparr>a_role := Follower\<rparr>) A"
  have inv: "ainv (V_of X) ?A" by (rule astep_inv [OF assms(1) astep.step_down])
  have "state_rel X (an ?A (x_id X)) (n\<lparr>role := r, votes := vt\<rparr>)"
    using nsimD(4) [OF assms(1)] assms(2) by (auto simp: state_rel_def upd_def cong: option.case_cong)
  moreover have "peers_rel X (an ?A (x_id X)) (n\<lparr>role := r, votes := vt\<rparr>)"
    using nsimD(5) [OF assms(1)] assms(2,3) by (auto simp: peers_rel_def)
  moreover have "out_rel X (an ?A (x_id X)) (anet ?A) (n\<lparr>role := r, votes := vt\<rparr>)"
    using nsimD(6) [OF assms(1)] by (simp add: out_rel_def upd_def cong: option.case_cong)
  ultimately show "nsim X ?A (n\<lparr>role := r, votes := vt\<rparr>)"
    using inv nsimD(2,3) [OF assms(1)] unfolding nsim_def by simp
qed

lemma nsim_clear_prs: "nsim X A n \<Longrightarrow> nsim X A (n\<lparr>prs := bt_empty\<rparr>)"
  by (rule nsim_prs_update) (auto simp: bt_keys_def bt_empty_def)

lemma reaches_become_follower:
  assumes "nsim X A n" and "cur_term n \<le> t"
  shows "reaches X A (become_follower t ldr n)"
proof -
  obtain r t' where eq: "become_follower t ldr n =
     (if cur_term n < t then set_vote None (set_term t n) else n)
       \<lparr>role := Follower, leader_id := ldr, prs := bt_empty, pending_reads := [],
         rng := r, randomized_timeout := t', election_elapsed := 0\<rparr>"
    using become_follower_form by blast
  show ?thesis
  proof (cases "cur_term n < t")
    case True
    let ?A = "upd (x_id X) (\<lambda>a. a\<lparr>a_term := t, a_vote := None, a_role := Follower\<rparr>) A"
    have st: "astep (x_ok X) (V_of X) (x_id X) A ?A"
      by (rule astep.new_term) (use True nsim_state(3) [OF assms(1)] in simp)
    have "nsim X ?A (n\<lparr>hs := \<lparr>hs_term = t, hs_voted_for = None\<rparr>,
        out := (out n)\<lparr>o_hard_state := Some \<lparr>hs_term = t, hs_voted_for = None\<rparr>\<rparr>, role := Follower\<rparr>)"
      by (rule nsim_hs [OF assms(1) astep_inv [OF assms(1) st], where g = "a_granted (an A (x_id X))"])
        (use nsimD(5) [OF assms(1)] in \<open>auto simp: upd_def peers_rel_def\<close>)
    moreover have "set_vote None (set_term t n) = n\<lparr>hs := \<lparr>hs_term = t, hs_voted_for = None\<rparr>,
        out := (out n)\<lparr>o_hard_state := Some \<lparr>hs_term = t, hs_voted_for = None\<rparr>\<rparr>\<rparr>"
      by (rule set_hs_form) (use True in simp)
    ultimately have "nsim X ?A (become_follower t ldr n)"
      using True eq by (simp add: frame_simps nsim_clear_prs)
    then show ?thesis by (rule reaches_step [OF st reaches_refl])
  next
    case False
    have vok: "bt_ok (votes n)" using nsimD(5) [OF assms(1)] unfolding peers_rel_def by simp
    have "reaches X A (n\<lparr>role := Follower\<rparr>)"
      using nsim_role_follower [OF assms(1) _ vok, of Follower] by simp
    then show ?thesis
      by (rule reaches_trans) (use False eq nsim_clear_prs in \<open>auto simp: frame_simps intro!: reaches_refl\<close>)
  qed
qed

lemma fold_commit_one:
  assumes "log_rel (rlog n) g" and "\<forall>e\<in>set g. \<forall>cc. e_payload e \<noteq> ConfChange cc"
    and "snap_index (rlog n) \<le> a" and "a \<le> b" and "b \<le> length g"
  shows "fold commit_one [Suc a..<Suc b] (n, False) =
    (n\<lparr>out := (out n)\<lparr>o_committed := o_committed (out n) @ drop a (take b g)\<rparr>\<rparr>, False)"
  using assms(4,5)
proof (induction b)
  case (Suc b)
  show ?case
  proof (cases "a = Suc b")
    case False
    then have ab: "a \<le> b" "b < length g" using Suc.prems by auto
    let ?n = "n\<lparr>out := (out n)\<lparr>o_committed := o_committed (out n) @ drop a (take b g)\<rparr>\<rparr>"
    have IH: "fold commit_one [Suc a..<Suc b] (n, False) = (?n, False)" using Suc.IH ab by simp
    have "log_get (rlog ?n) (Suc b) = Some (g ! b)" using log_rel_get [OF assms(1), of "Suc b"] ab assms(3) by simp
    moreover have "drop a (take (Suc b) g) = drop a (take b g) @ [g ! b]"
      using ab by (simp add: take_Suc_conv_app_nth)
    moreover have "\<forall>cc. e_payload (g ! b) \<noteq> ConfChange cc" using assms(2) ab by simp
    ultimately have "commit_one (Suc b) (?n, False) =
        (n\<lparr>out := (out n)\<lparr>o_committed := o_committed (out n) @ drop a (take (Suc b) g)\<rparr>\<rparr>, False)"
      by (simp add: commit_one_def split: entry_payload.split)
    moreover have "[Suc a..<Suc (Suc b)] = [Suc a..<Suc b] @ [Suc b]" using ab by simp
    ultimately show ?thesis using IH by (simp del: upt_Suc)
  qed simp
qed simp

lemma advance_commit_form:
  assumes "log_rel (rlog n) g" and "\<forall>e\<in>set g. \<forall>cc. e_payload e \<noteq> ConfChange cc"
    and "snap_index (rlog n) \<le> commit n" and "commit n \<le> c" and "c \<le> length g"
  shows "advance_commit_to c n = n\<lparr>commit := c,
    out := (out n)\<lparr>o_committed := o_committed (out n) @ drop (commit n) (take c g)\<rparr>\<rparr>"
  using fold_commit_one [of "n\<lparr>commit := c\<rparr>" g "commit n" c] assms
  by (simp add: advance_commit_to_def Let_def del: upt_Suc)

lemma out_rel_advance:
  assumes "out_rel X a N n" and "o_snapshot (out n) = None" and "commit n \<le> c" and "c \<le> length (a_log a)"
    and "a_log a' = a_log a"
  shows "out_rel X a' N (n\<lparr>commit := c,
    out := (out n)\<lparr>o_committed := o_committed (out n) @ drop (commit n) (take c (a_log a))\<rparr>\<rparr>)"
proof -
  have c: "x_commit X \<le> commit n" "o_committed (out n) = drop (x_commit X) (take (commit n) (a_log a))"
    using assms(1,2) unfolding out_rel_def by auto
  have "drop (x_commit X) (take c (a_log a)) =
      drop (x_commit X) (take (commit n) (a_log a)) @ drop (commit n) (take c (a_log a))"
    by (rule drop_take_split [OF c(1) assms(3)])
  then show ?thesis using assms c unfolding out_rel_def by simp
qed

lemma quorum_value_majority:
  assumes "distinct vs" and "vs \<noteq> []"
  shows "majority (set vs) {j \<in> set vs. sort_desc (map f vs) ! (length vs div 2) \<le> f j}"
proof -
  let ?v = "sort_desc (map f vs) ! (length vs div 2)"
  have "length vs div 2 + 1 \<le> length vs" using assms(2) by (cases vs) auto
  then have "length vs div 2 + 1 \<le> length (filter (\<lambda>x. ?v \<le> x) (map f vs))"
    using sort_desc_nth_count [of "length vs div 2 + 1" "map f vs"] by simp
  also have "\<dots> = length (filter (\<lambda>j. ?v \<le> f j) vs)" by (simp add: filter_map o_def)
  also have "\<dots> = card {j \<in> set vs. ?v \<le> f j}"
    using assms(1) by (metis distinct_card distinct_filter set_filter)
  finally show ?thesis using assms(1) by (auto simp: majority_def distinct_card)
qed

lemma majority_mono: "majority V Q \<Longrightarrow> Q \<subseteq> Q' \<Longrightarrow> Q' \<subseteq> V \<Longrightarrow> finite V \<Longrightarrow> majority V Q'"
  unfolding majority_def by (meson card_mono finite_subset less_le_trans)

lemma nsim_noconf: "nsim X A n \<Longrightarrow> \<forall>e\<in>set (a_log (an A (x_id X))). \<forall>cc. e_payload e \<noteq> ConfChange cc"
  using nsim_wf unfolding wf_log_def by blast

lemma nsim_advance:
  assumes "nsim X A n" and "o_snapshot (out n) = None" and "commit n \<le> c"
    and "c \<le> length (a_log (an A (x_id X)))" and "ainv (V_of X) A'"
    and "an A' (x_id X) = (an A (x_id X))\<lparr>a_commit := c\<rparr>" and "anet A' = anet A"
  shows "nsim X A' (advance_commit_to c n)"
proof -
  note st = nsim_state [OF assms(1)]
  note eq = advance_commit_form [OF st(7) nsim_noconf [OF assms(1)] st(8) assms(3,4)]
  have "state_rel X (an A' (x_id X)) (advance_commit_to c n)"
    using nsimD(4) [OF assms(1)] assms(3,6) unfolding eq by (auto simp: state_rel_def cong: option.case_cong)
  moreover have "peers_rel X (an A' (x_id X)) (advance_commit_to c n)"
    using nsimD(5) [OF assms(1)] assms(6) unfolding eq by (simp add: peers_rel_def)
  moreover have "out_rel X (an A' (x_id X)) (anet A') (advance_commit_to c n)"
    unfolding eq assms(7) by (rule out_rel_advance [OF nsimD(6) [OF assms(1)] assms(2-4)]) (simp add: assms(6))
  ultimately show ?thesis using assms(5) nsimD(2,3) [OF assms(1)] unfolding nsim_def by simp
qed

lemma reaches_maybe_advance:
  assumes "nsim X A n" and "o_snapshot (out n) = None"
  shows "reaches X A (maybe_advance_commit n)"
proof (cases "role n = Leader")
  case True
  note st = nsim_state [OF assms(1)]
  define f where "f = (\<lambda>v. if v = nid n then last_index (rlog n)
    else (case bt_get (prs n) v of Some p \<Rightarrow> pr_matched p | None \<Rightarrow> 0))"
  define c where "c = sort_desc (map f (x_vs X)) ! (length (x_vs X) div 2)"
  have ne: "x_vs X \<noteq> []" using nsimD(3) [OF assms(1)] by auto
  then have "\<not> length (x_vs X) < length (x_vs X) div 2 + 1" by (cases "x_vs X") auto
  then have form: "maybe_advance_commit n =
      (if commit n < c \<and> log_term (rlog n) c = Some (cur_term n) then advance_commit_to c n else n)"
    unfolding maybe_advance_commit_def quorum_def nsim_voters [OF assms(1)] Let_def c_def f_def
    using True by simp
  show ?thesis
  proof (cases "commit n < c \<and> log_term (rlog n) c = Some (cur_term n)")
    case adv: True
    let ?g = "a_log (an A (x_id X))"
    have c: "c \<le> length ?g" "tm ?g c = cur_term n"
      using adv log_rel_term [OF st(7), of c] by (auto split: if_splits)
    have "{j \<in> V_of X. c \<le> f j} \<subseteq> {j \<in> V_of X. j = x_id X \<or> c \<le> a_match (an A (x_id X)) j}"
      using adv nsim_prs(2) [OF assms(1) _ True] st(1) unfolding f_def
      by (auto split: if_splits option.splits intro: order_trans)
    then have "majority (V_of X) {j \<in> V_of X. j = x_id X \<or> c \<le> a_match (an A (x_id X)) j}"
      using majority_mono [OF quorum_value_majority [OF nsimD(2) [OF assms(1)] ne, of f]]
      unfolding c_def by auto
    then have step: "astep (x_ok X) (V_of X) (x_id X) A (upd (x_id X) (\<lambda>a. a\<lparr>a_commit := c\<rparr>) A)"
      using astep.commit_quorum [of A "x_id X" c "V_of X" "x_ok X"] True adv c st(3,5,6) by simp
    have "nsim X (upd (x_id X) (\<lambda>a. a\<lparr>a_commit := c\<rparr>) A) (advance_commit_to c n)"
      by (rule nsim_advance [OF assms _ c(1) astep_inv [OF assms(1) step]]) (use adv in \<open>auto simp: upd_def\<close>)
    then have "reaches X A (advance_commit_to c n)" by (rule reaches_step [OF step reaches_refl])
    then show ?thesis using form adv by simp
  next
    case False
    then show ?thesis using form reaches_refl [OF assms(1)] by auto
  qed
qed (simp add: maybe_advance_commit_def reaches_refl assms)

end
