(* ===== verification/Raft_Refine_Step.thy ===== *)
theory Raft_Refine_Step
  imports Raft_Refine_Ops
begin

text \<open>
  The public methods of \<open>node.rs\<close> and the message handlers are matched by steps of the abstract
  protocol. The last lemmas are the ones the cluster uses: \<open>tick\<close>, \<open>propose\<close>, \<open>read_index\<close>,
  \<open>step\<close> (which also does not panic), \<open>compact\<close> and a restart from the disk.
\<close>

section \<open>Proposals and reads\<close>

lemma out_push_append:
  assumes "out_rel X a N n" and "log_rel (rlog n) (a_log a)" and "wf_log T (a_log a)"
    and "e_index e = length (a_log a) + 1" and "o_snapshot (out n) = None" and "commit n \<le> length (a_log a)"
    and "a_log a' = a_log a @ [e]"
  shows "out_rel X a' N (n\<lparr>rlog := log_push e (rlog n), out := (out n)\<lparr>o_append := o_append (out n) @ [e]\<rparr>\<rparr>)"
proof -
  have "fold disk_append [e] (log_entries (rlog n)) = log_entries (rlog n) @ [e]"
    using log_rel_contiguous [OF assms(2,3)] assms(2,4)
    by (intro fold_disk_append_snoc [where b = "Suc (snap_index (rlog n))"]) (auto simp: log_rel_def)
  then show ?thesis
    using assms unfolding out_rel_def by (simp add: persist_output_append log_push_def)
qed

lemma nsim_append:
  assumes "nsim X A n" and "role n = Leader" and "payload_ok (x_ok X) pl" and "o_snapshot (out n) = None"
    and "e = \<lparr>e_term = cur_term n, e_index = last_index (rlog n) + 1, e_payload = pl\<rparr>"
  shows "reaches X A (n\<lparr>rlog := log_push e (rlog n), out := (out n)\<lparr>o_append := o_append (out n) @ [e]\<rparr>\<rparr>)"
    (is "reaches X A ?n")
proof -
  note st = nsim_state [OF assms(1)]
  let ?i = "x_id X"
  let ?g = "a_log (an A ?i)"
  let ?A = "ack ?i (cur_term n) (length (?g @ [e])) (upd ?i (\<lambda>a. a\<lparr>a_log := ?g @ [e]\<rparr>)
    (A\<lparr>h_llog := (h_llog A)(cur_term n := ?g @ [e])\<rparr>))"
  have e: "e = \<lparr>e_term = cur_term n, e_index = length ?g + 1, e_payload = pl\<rparr>"
    using assms(5) log_rel_last [OF st(7)] by simp
  have step: "astep (x_ok X) (V_of X) ?i A ?A"
    by (rule astep.append) (use assms(2,3) e st(3,6) in simp_all)
  have le: "commit n \<le> length ?g" by (rule nsim_commit_le [OF assms(1)])
  have "nsim X ?A ?n"
    unfolding nsim_def
  proof (intro conjI)
    show "out_rel X (an ?A ?i) (anet ?A) ?n"
      using out_push_append [OF nsimD(6) [OF assms(1)] st(7) nsim_wf [OF assms(1)] _ assms(4) le, of e]
      by (simp add: astate_defs e)
    show "state_rel X (an ?A ?i) ?n"
      using nsimD(4) [OF assms(1)] le log_rel_push [OF st(7), of e]
      by (auto simp: state_rel_def astate_defs split: option.splits)
    show "peers_rel X (an ?A ?i) ?n"
      using nsimD(5) [OF assms(1)] by (simp add: peers_rel_def astate_defs)
  qed (use astep_inv [OF assms(1) step] nsimD(2,3) [OF assms(1)] in auto)
  then show ?thesis by (rule reaches_step [OF step reaches_refl])
qed

lemma nsim_advance_sel:
  assumes "nsim X A n"
  shows "role (maybe_advance_commit n) = role n" and "hs (maybe_advance_commit n) = hs n"
    and "o_snapshot (out (maybe_advance_commit n)) = o_snapshot (out n)"
    and "prs (maybe_advance_commit n) = prs n" and "rlog (maybe_advance_commit n) = rlog n"
proof -
  note st = nsim_state [OF assms]
  have *: "role (advance_commit_to c n) = role n \<and> hs (advance_commit_to c n) = hs n \<and>
      o_snapshot (out (advance_commit_to c n)) = o_snapshot (out n) \<and> prs (advance_commit_to c n) = prs n \<and>
      rlog (advance_commit_to c n) = rlog n"
    if "commit n < c" "log_term (rlog n) c = Some t" for c t
    using advance_commit_form [OF st(7) nsim_noconf [OF assms] st(8), of c] that
      log_rel_term [OF st(7), of c] by (simp split: if_splits)
  show "role (maybe_advance_commit n) = role n" "hs (maybe_advance_commit n) = hs n"
    "o_snapshot (out (maybe_advance_commit n)) = o_snapshot (out n)" "prs (maybe_advance_commit n) = prs n"
    "rlog (maybe_advance_commit n) = rlog n"
    using * by (auto simp: maybe_advance_commit_def Let_def)
qed

lemma send_append_snap [simp]: "o_snapshot (out (send_append j n)) = o_snapshot (out n)"
  by (simp add: send_append_def send_entries_def push_msg_def Let_def split: option.split)

lemma broadcast_snap [simp]: "o_snapshot (out (broadcast_append n)) = o_snapshot (out n)"
proof -
  have "o_snapshot (out (fold send_append js m)) = o_snapshot (out m)" for js m
    by (induction js arbitrary: m) simp_all
  then show ?thesis by (simp add: broadcast_append_def Let_def sync_progress_with_voters_def)
qed

lemma reaches_append_local:
  assumes "nsim X A n" and "role n = Leader" and "payload_ok (x_ok X) pl" and "o_snapshot (out n) = None"
  shows "reaches X A (snd (append_local pl n))"
proof -
  define e where "e = \<lparr>e_term = cur_term n, e_index = last_index (rlog n) + 1, e_payload = pl\<rparr>"
  define n1 where "n1 = n\<lparr>rlog := log_push e (rlog n), out := (out n)\<lparr>o_append := o_append (out n) @ [e]\<rparr>\<rparr>"
  have "reaches X A n1" unfolding n1_def by (rule nsim_append [OF assms e_def])
  then have "reaches X A (broadcast_append (maybe_advance_commit n1))"
  proof (rule reaches_trans)
    fix A' assume s: "nsim X A' n1"
    have l: "role n1 = Leader" "o_snapshot (out n1) = None" using assms(2,4) by (simp_all add: n1_def)
    show "reaches X A' (broadcast_append (maybe_advance_commit n1))"
      by (rule reaches_trans [OF reaches_maybe_advance [OF s l(2)] reaches_broadcast])
        (use nsim_advance_sel(1) [OF s] l(1) in simp_all)
  qed
  then show ?thesis by (simp add: append_local_def Let_def n1_def e_def)
qed

lemma append_local_role:
  assumes "nsim X A n" and "role n = Leader" and "payload_ok (x_ok X) pl" and "o_snapshot (out n) = None"
  shows "role (snd (append_local pl n)) = Leader"
  using nsim_append [OF assms refl] nsim_advance_sel(1) assms(2)
  unfolding reaches_def append_local_def Let_def by fastforce

lemma reaches_propose:
  assumes "nsim X A n" and "o_snapshot (out n) = None" and "x_ok X data"
  shows "reaches X A (snd (propose data n))"
  using reaches_append_local [OF assms(1) _ _ assms(2), of "Normal data"] reaches_refl [OF assms(1)] assms(3)
  by (simp add: propose_def case_prod_beta)

lemma nsim_release_reads [frame_simps]: "nsim X A (release_reads c n) = nsim X A n"
  unfolding nsim_def release_reads_def Let_def
  by (simp add: frame_simps) (simp add: out_rel_def cong: option.case_cong)

lemma nsim_process_read_acks [frame_simps]: "nsim X A (process_read_acks n) = nsim X A n"
  by (simp add: process_read_acks_def Let_def nsim_release_reads)

lemma read_acks_sel [simp]:
  "role (process_read_acks n) = role n" "hs (process_read_acks n) = hs n"
  "o_snapshot (out (process_read_acks n)) = o_snapshot (out n)"
  by (simp_all add: process_read_acks_def release_reads_def Let_def)

lemma reaches_read_index:
  assumes "nsim X A n"
  shows "reaches X A (snd (read_index rid n))"
proof (cases "role n = Leader")
  case True
  let ?n = "n\<lparr>read_ctx_counter := read_ctx_counter n + 1,
    pending_reads := pending_reads n @ [(read_ctx_counter n + 1, rid, commit n)]\<rparr>"
  have "nsim X A ?n" using assms by (simp add: frame_simps)
  then have "reaches X A (broadcast_append ?n)" "reaches X A (release_reads (read_ctx_counter n + 1) ?n)"
    using reaches_broadcast [of X A ?n] True by (simp_all add: frame_simps reaches_refl)
  then show ?thesis
    using reaches_refl [OF assms] True unfolding read_index_def Let_def by simp
qed (simp add: read_index_def reaches_refl assms)

section \<open>Elections\<close>

lemma card_granted:
  assumes "bt_ok vt" and "distinct vs"
  shows "length (filter (\<lambda>(i, g). g \<and> i \<in> set vs) vt) = card {i \<in> set vs. bt_get vt i = Some True}"
proof -
  have d: "distinct (map fst (filter (\<lambda>(i, g). g \<and> i \<in> set vs) vt))"
    using bt_ok_distinct [OF bt_ok_filter [OF assms(1)]] .
  have "fst ` set (filter (\<lambda>(i, g). g \<and> i \<in> set vs) vt) = {i \<in> set vs. bt_get vt i = Some True}"
    using bt_get_Some_iff [OF assms(1)] by force
  then show ?thesis using distinct_card [OF d] by simp
qed

lemma bt_get_fold_insert:
  "bt_get (fold (\<lambda>peer m. if P peer then bt_insert peer v m else m) js m0) j =
     (if j \<in> set js \<and> P j then Some v else bt_get m0 j)"
  by (induction js arbitrary: m0) auto

lemma bt_ok_fold_insert:
  "bt_ok m0 \<Longrightarrow> bt_ok (fold (\<lambda>peer m. if P peer then bt_insert peer v m else m) js m0)"
  by (induction js arbitrary: m0) simp_all

lemma reaches_become_leader:
  assumes "nsim X A n" and "role n = Candidate" and "quorum n \<le> count_granted n"
    and "o_snapshot (out n) = None"
  shows "reaches X A (become_leader n)"
proof -
  note st = nsim_state [OF assms(1)]
  let ?i = "x_id X"
  define l where "l = a_log (an A ?i)"
  define ps where "ps = fold (\<lambda>peer m. if peer \<noteq> nid n
    then bt_insert peer (progress_new (last_index (rlog n) + 1)) m else m) (x_vs X) bt_empty"
  define n1 where "n1 = n\<lparr>role := Leader, leader_id := Some (nid n), heartbeat_elapsed := 0,
    prs := bt_empty, pending_reads := [], read_ctx_counter := 0\<rparr>"
  define n2 where "n2 = n1\<lparr>prs := ps\<rparr>"
  have n1: "nid n1 = nid n" "rlog n1 = rlog n" "prs n1 = bt_empty" "voters n1 = x_vs X"
    using nsim_voters [OF assms(1)] by (simp_all add: n1_def voters_def voters_at_def)
  have votes: "bt_ok (votes n)" "\<And>j. bt_get (votes n) j = Some True \<Longrightarrow> j \<in> a_granted (an A ?i)"
    using nsimD(5) [OF assms(1)] assms(2) unfolding peers_rel_def by auto
  have "length (x_vs X) div 2 + 1 \<le> card {i \<in> V_of X. bt_get (votes n) i = Some True}"
    using assms(3) card_granted [OF votes(1) nsimD(2) [OF assms(1)]]
    unfolding quorum_def count_granted_def nsim_voters [OF assms(1)] by simp
  also have "\<dots> \<le> card (a_granted (an A ?i) \<inter> V_of X)"
    by (rule card_mono) (use votes(2) in auto)
  finally have maj: "majority (V_of X) (a_granted (an A ?i) \<inter> V_of X)"
    using distinct_card [OF nsimD(2) [OF assms(1)]] by (simp add: majority_def)
  let ?A = "ack ?i (cur_term n) (length l) (upd ?i (\<lambda>a. a\<lparr>a_role := Leader, a_match := (\<lambda>_. 0)\<rparr>)
      (A\<lparr>h_leader := (h_leader A)(cur_term n \<mapsto> ?i), h_llog := (h_llog A)(cur_term n := l),
         h_base := (h_base A)(cur_term n := length l)\<rparr>))"
  have step: "astep (x_ok X) (V_of X) ?i A ?A"
    by (rule astep.win) (use assms(2) maj st(3,6) in \<open>simp_all add: l_def\<close>)
  have ps: "bt_get ps j = (if j \<in> V_of X \<and> j \<noteq> nid n then Some (progress_new (last_index (rlog n) + 1)) else None)" for j
    unfolding ps_def bt_get_fold_insert by simp
  have "nsim X ?A n2"
    unfolding nsim_def
  proof (intro conjI)
    show "state_rel X (an ?A ?i) n2"
      using nsimD(4) [OF assms(1)] by (simp add: state_rel_def n2_def n1_def astate_defs cong: option.case_cong)
    have "bt_ok ps" unfolding ps_def by (rule bt_ok_fold_insert) simp
    then show "peers_rel X (an ?A ?i) n2"
      using votes(1) by (auto simp: peers_rel_def n2_def n1_def set_bt_keys ps progress_new_def split: if_splits)
    show "out_rel X (an ?A ?i) (anet ?A) n2"
      using nsimD(6) [OF assms(1)] by (simp add: out_rel_def n2_def n1_def astate_defs cong: option.case_cong)
  qed (use astep_inv [OF assms(1) step] nsimD(2,3) [OF assms(1)] in auto)
  then have r: "reaches X A n2" by (rule reaches_step [OF step reaches_refl])
  have "reaches X A (broadcast_append (snd (append_local Noop n2)))"
  proof (rule reaches_trans [OF r])
    fix A' assume s: "nsim X A' n2"
    have l: "role n2 = Leader" "o_snapshot (out n2) = None" using assms(4) by (simp_all add: n2_def n1_def)
    have "reaches X A' (snd (append_local Noop n2))" by (rule reaches_append_local [OF s l(1) _ l(2)]) simp
    then show "reaches X A' (broadcast_append (snd (append_local Noop n2)))"
    proof (rule reaches_trans)
      fix A'' assume s': "nsim X A'' (snd (append_local Noop n2))"
      have "role (snd (append_local Noop n2)) = Leader"
        by (rule append_local_role [OF s l(1) _ l(2)]) simp
      then show "reaches X A'' (broadcast_append (snd (append_local Noop n2)))"
        by (rule reaches_broadcast [OF s'])
    qed
  qed
  moreover have "become_leader n = broadcast_append (snd (append_local Noop n2))"
    unfolding become_leader_def Let_def case_prod_beta n1_def [symmetric] n1 n2_def ps_def ..
  ultimately show ?thesis by simp
qed

lemma reaches_request_votes:
  assumes "nsim X A n" and "role n = Candidate" and "set js \<subseteq> V_of X"
    and "lli = last_index (rlog n)" and "llt = last_term (rlog n)"
  shows "reaches X A (fold (\<lambda>peer m. if peer = i then m
    else push_msg peer (cur_term m) (RequestVote lli llt) m) js n)"
  using assms
proof (induction js arbitrary: A n)
  case (Cons j js)
  note st = nsim_state [OF Cons.prems(1)]
  let ?m = "ARequestVote (x_id X) j (cur_term n) lli llt"
  have "astep (x_ok X) (V_of X) (x_id X) A (send ?m A)"
    using astep.request_vote [of A "x_id X" "x_ok X" "V_of X" j] Cons.prems(2,4,5) st(3,6)
      log_rel_last [OF st(7)] log_rel_last_term [OF st(7)] by simp
  moreover have "msg_rel X (insert ?m (anet A))
      \<lparr>m_from = nid n, m_to = j, m_term = cur_term n, m_body = RequestVote lli llt\<rparr>"
    using st(1) nsimD(3) [OF Cons.prems(1)] Cons.prems(3) by (simp add: msg_rel_def)
  ultimately have r: "reaches X A (push_msg j (cur_term n) (RequestVote lli llt) n)"
    by (rule reaches_send [OF Cons.prems(1)])
  show ?case
  proof (cases "j = i")
    case True
    then show ?thesis using Cons.IH [OF Cons.prems(1,2)] Cons.prems(3-5) by simp
  next
    case False
    then show ?thesis
      using reaches_trans [OF r Cons.IH] Cons.prems(2-5) by simp
  qed
qed (simp add: reaches_refl)

lemma reaches_campaign:
  assumes "nsim X A n" and "o_snapshot (out n) = None"
  shows "reaches X A (campaign n)"
proof -
  note st = nsim_state [OF assms(1)]
  let ?i = "x_id X"
  let ?t = "cur_term n + 1"
  let ?h = "\<lparr>hs_term = ?t, hs_voted_for = Some (nid n)\<rparr>"
  let ?vt = "bt_insert (nid n) True bt_empty"
  define n1 where "n1 = n\<lparr>hs := ?h, out := (out n)\<lparr>o_hard_state := Some ?h\<rparr>\<rparr>"
  define n2 where "n2 = n1\<lparr>role := Candidate, leader_id := None, votes := ?vt\<rparr>"
  let ?A = "upd ?i (\<lambda>a. a\<lparr>a_term := ?t, a_vote := Some ?i, a_role := Candidate, a_granted := {?i}\<rparr>)
      (A\<lparr>h_vote := (h_vote A)(?i := (h_vote A ?i)(?t \<mapsto> ?i)),
         h_clog := (h_clog A)(?t := (h_clog A ?t)(?i := a_log (an A ?i)))\<rparr>)"
  have step: "astep (x_ok X) (V_of X) ?i A ?A" by (rule astep.campaign) (simp add: st(3))
  have "nsim X ?A (n1\<lparr>role := Candidate, votes := ?vt\<rparr>)"
    unfolding n1_def
    by (rule nsim_hs_votes [OF assms(1) astep_inv [OF assms(1) step], where g = "{?i}"])
      (use nsimD(5) [OF assms(1)] st(1) in \<open>auto simp: upd_def peers_rel_def split: if_splits\<close>)
  moreover have "n2 = n1\<lparr>role := Candidate, votes := ?vt, leader_id := None\<rparr>"
    unfolding n2_def by (rule raft_node.equality) simp_all
  ultimately have s: "nsim X ?A n2" by (simp add: frame_simps)
  have n2: "role n2 = Candidate" "o_snapshot (out n2) = None" using assms(2) by (simp_all add: n2_def n1_def)
  have "set_vote (Some (nid n)) (set_term ?t n) = n1" unfolding n1_def by (rule set_hs_form) simp
  then have eq: "campaign n = (if quorum n2 \<le> count_granted n2 then become_leader n2
      else fold (\<lambda>peer m. if peer = nid n2 then m else push_msg peer (cur_term m)
        (RequestVote (last_index (rlog n2)) (last_term (rlog n2))) m) (voters n2) n2)"
    unfolding campaign_def Let_def n2_def by (simp only: split: if_split)
  have "reaches X ?A (campaign n)"
    using reaches_become_leader [OF s n2(1) _ n2(2)]
      reaches_request_votes [OF s n2(1), where js = "voters n2"] nsim_voters [OF s]
    unfolding eq by simp
  then show ?thesis by (rule reaches_step [OF step])
qed

lemma reaches_pre_votes:
  assumes "nsim X A n" and "set js \<subseteq> V_of X"
  shows "nsim X A (fold (\<lambda>peer m. if peer = i then m
    else push_msg peer (cur_term m + 1) (PreVote lli llt) m) js n)"
  using assms
proof (induction js arbitrary: n)
  case (Cons j js)
  have "nsim X A (push_msg j (cur_term n + 1) (PreVote lli llt) n)"
    by (rule nsim_push [OF Cons.prems(1)])
      (use nsim_state(1) [OF Cons.prems(1)] nsimD(3) [OF Cons.prems(1)] Cons.prems(2) in \<open>simp add: msg_rel_def\<close>)
  then show ?case using Cons.IH Cons.prems by simp
qed simp

lemma reaches_campaign_pre:
  assumes "nsim X A n" and "o_snapshot (out n) = None"
  shows "reaches X A (campaign_pre n)"
proof -
  let ?n = "n\<lparr>role := PreCandidate, votes := bt_insert (nid n) True bt_empty\<rparr>"
  have "reaches X A ?n" by (rule nsim_role_follower [OF assms(1)]) simp_all
  then show ?thesis
  proof (rule reaches_trans)
    fix A' assume s: "nsim X A' ?n"
    show "reaches X A' (campaign_pre n)"
      using reaches_campaign [OF s] reaches_refl [OF reaches_pre_votes [OF s, of "voters ?n"]]
        nsim_voters [OF s] assms(2)
      unfolding campaign_pre_def Let_def by simp
  qed
qed

theorem reaches_tick:
  assumes "nsim X A n" and "o_snapshot (out n) = None"
  shows "reaches X A (tick n)"
proof (cases "role n = Leader")
  case True
  let ?n = "n\<lparr>tick_counter := tick_counter n + 1, heartbeat_elapsed := heartbeat_elapsed n + 1\<rparr>"
  have "nsim X A ?n" "nsim X A (?n\<lparr>heartbeat_elapsed := 0\<rparr>)" using assms(1) by (simp_all add: frame_simps)
  then show ?thesis
    using reaches_broadcast [of X A "?n\<lparr>heartbeat_elapsed := 0\<rparr>"] True
    by (simp add: tick_def Let_def reaches_refl)
next
  case False
  let ?n = "n\<lparr>tick_counter := tick_counter n + 1, election_elapsed := election_elapsed n + 1\<rparr>"
  have s: "nsim X A ?n" "nsim X A (reset_election_timer ?n)" using assms(1) by (simp_all add: frame_simps)
  have "o_snapshot (out (reset_election_timer ?n)) = None" using assms(2) by simp
  then show ?thesis
    using reaches_campaign_pre [OF s(2)] reaches_campaign [OF s(2)] reaches_refl [OF s(1)]
      reaches_refl [OF s(2)] False
    by (simp add: tick_def Let_def)
qed

section \<open>Vote handlers\<close>

lemma nsim_reply:
  assumes "nsim X A n" and "dst \<in> V_of X"
    and "b = PreVoteResp g \<or> b = RequestVoteResp False \<or> b = AppendEntriesResp False mi ci rc"
  shows "nsim X A (push_msg dst t b n)"
  by (rule nsim_push [OF assms(1)])
    (use nsim_state(1) [OF assms(1)] nsimD(3) [OF assms(1)] assms(2,3) in \<open>auto simp: msg_rel_def\<close>)

lemma reaches_pre_vote:
  assumes "nsim X A n" and "from \<in> V_of X"
  shows "reaches X A (handle_pre_vote from t lli llt n)"
  unfolding handle_pre_vote_def Let_def by (rule reaches_refl, rule nsim_reply [OF assms]) blast

lemma reaches_pre_vote_resp:
  assumes "nsim X A n" and "o_snapshot (out n) = None"
  shows "reaches X A (handle_pre_vote_resp from t granted n)"
proof -
  have s: "nsim X A (n\<lparr>votes := bt_insert from True (votes n)\<rparr>)" if "role n = PreCandidate"
    using assms(1) that unfolding nsim_def by (simp add: frame_simps) (simp add: peers_rel_def)
  show ?thesis
    using reaches_become_follower [OF assms(1), of t] reaches_refl [OF assms(1)]
      reaches_campaign [OF s] reaches_refl [OF s] assms(2)
    by (auto simp: handle_pre_vote_resp_def Let_def)
qed

lemma reaches_request_vote:
  assumes "nsim X A n" and "from \<in> V_of X" and "ARequestVote from (x_id X) (cur_term n) lli llt \<in> anet A"
  shows "reaches X A (handle_request_vote from lli llt n)"
proof (cases "(hs_voted_for (hs n) = None \<or> hs_voted_for (hs n) = Some from) \<and> log_up_to_date n lli llt")
  case True
  note st = nsim_state [OF assms(1)]
  let ?i = "x_id X"
  let ?A = "send (AVote ?i from (cur_term n)) (upd ?i (\<lambda>a. a\<lparr>a_vote := Some from\<rparr>)
        (A\<lparr>h_vote := (h_vote A)(?i := (h_vote A ?i)(cur_term n \<mapsto> from))\<rparr>))"
  have step: "astep (x_ok X) (V_of X) ?i A ?A"
    using astep.grant_vote [of "from" ?i A lli llt "x_ok X" "V_of X"] assms(3) True st(3,4)
      log_rel_last [OF st(7)] log_rel_last_term [OF st(7)] by (auto simp: log_up_to_date_def)
  have inv: "ainv (V_of X) ?A" by (rule astep_inv [OF assms(1) step])
  have "nsim X ?A (set_vote (Some from) n)"
  proof (cases "hs_voted_for (hs n) = Some from")
    case same: True
    have "an ?A ?i = an A ?i" using st(4) same by (simp add: astate_defs)
    then show ?thesis
      using nsim_mono [OF assms(1) inv] same by (simp add: set_vote_def astate_defs subset_insertI)
  next
    case False
    have "an ?A ?i = (an A ?i)\<lparr>a_term := cur_term n, a_vote := Some from, a_role := arole (role n),
        a_granted := a_granted (an A ?i)\<rparr>"
      using st(3,6) by (simp add: astate_defs)
    then have "nsim X ?A (n\<lparr>hs := \<lparr>hs_term = cur_term n, hs_voted_for = Some from\<rparr>, out := (out n)\<lparr>o_hard_state :=
        Some \<lparr>hs_term = cur_term n, hs_voted_for = Some from\<rparr>\<rparr>, role := role n\<rparr>)"
      by (rule nsim_hs [OF assms(1) inv])
        (use nsimD(5) [OF assms(1)] in \<open>auto simp: astate_defs peers_rel_def\<close>)
    moreover have "set_vote (Some from) n = n\<lparr>hs := \<lparr>hs_term = cur_term n, hs_voted_for = Some from\<rparr>,
        out := (out n)\<lparr>o_hard_state := Some \<lparr>hs_term = cur_term n, hs_voted_for = Some from\<rparr>\<rparr>\<rparr>"
      using False by (cases "hs n") (simp add: set_vote_def Let_def)
    ultimately show ?thesis by simp
  qed
  then have s: "nsim X ?A (reset_election_timer (set_vote (Some from) n))" by (simp add: frame_simps)
  have c: "cur_term (set_vote (Some from) n) = cur_term n" by (simp add: set_vote_def Let_def)
  have "nsim X ?A (push_msg from (cur_term n) (RequestVoteResp True)
      (reset_election_timer (set_vote (Some from) n)))"
    by (rule nsim_push [OF s]) (use st(1) nsimD(3) [OF assms(1)] assms(2) in \<open>simp add: msg_rel_def astate_defs\<close>)
  then show ?thesis
    using reaches_step [OF step reaches_refl] True c by (simp add: handle_request_vote_def)
next
  case False
  then have "handle_request_vote from lli llt n = push_msg from (cur_term n) (RequestVoteResp False) n"
    unfolding handle_request_vote_def Let_def by (simp only: if_False)
  then show ?thesis using reaches_refl [OF nsim_reply [OF assms(1,2)]] by simp
qed

lemma reaches_request_vote_resp:
  assumes "nsim X A n" and "granted \<Longrightarrow> AVote from (x_id X) (cur_term n) \<in> anet A"
    and "o_snapshot (out n) = None"
  shows "reaches X A (handle_request_vote_resp from granted n)"
proof (cases "role n = Candidate")
  case True
  note st = nsim_state [OF assms(1)]
  let ?i = "x_id X"
  let ?n = "n\<lparr>votes := bt_insert from granted (votes n)\<rparr>"
  have "reaches X A ?n"
  proof (cases granted)
    case g: True
    let ?A = "upd ?i (\<lambda>a. a\<lparr>a_granted := insert from (a_granted a)\<rparr>) A"
    have step: "astep (x_ok X) (V_of X) ?i A ?A"
      by (rule astep.count_vote) (use True assms(2) g st(3,6) in simp_all)
    have "nsim X ?A ?n"
      using nsimD [OF assms(1)] astep_inv [OF assms(1) step] True g unfolding nsim_def
      by (simp add: frame_simps)
        (auto simp: state_rel_def peers_rel_def out_rel_def astate_defs cong: option.case_cong)
    then show ?thesis by (rule reaches_step [OF step reaches_refl])
  next
    case False
    then have "nsim X A ?n"
      using assms(1) unfolding nsim_def by (simp add: frame_simps) (simp add: peers_rel_def)
    then show ?thesis by (rule reaches_refl)
  qed
  then have "reaches X A (if quorum ?n \<le> count_granted ?n then become_leader ?n else ?n)"
    by (rule reaches_trans) (use reaches_become_leader [of X _ ?n] True assms(3) reaches_refl in auto)
  then show ?thesis using True by (simp add: handle_request_vote_resp_def Let_def)
qed (simp add: handle_request_vote_resp_def reaches_refl assms(1))

section \<open>Append handlers\<close>

text \<open>
  The pure effect of \<open>append_verified\<close> on log and disk: the log becomes the spliced one and the
  appended entries replay to it.
\<close>

lemma find_new_effect:
  assumes rel: "log_rel l g" and wfg: "wf_log T g" and wfL: "wf_log T L"
    and q: "take q g = take q L" "snap_index l \<le> q" "q \<le> length g"
    and es: "es = take (length es) (drop q L)" "q + length es \<le> length L"
    and m: "\<And>k. k < length g \<Longrightarrow> k < length L \<Longrightarrow> e_term (g ! k) = e_term (L ! k) \<Longrightarrow> g ! k = L ! k"
    and c: "take c g = take c L"
  obtains l' rest where "find_new from me c l es = Inr (l', rest)" and "snap_index l' = snap_index l"
    and "snap_term l' = snap_term l" and "log_rel (fold log_push rest l') (splice g q es)"
    and "fold disk_append rest (log_entries l) = log_entries l' @ rest"
proof -
  have nth: "es ! k = L ! (q + k)" if "k < length es" for k
    using that es by (metis nth_drop nth_take trans_le_add1 add_leD1)
  have "\<exists>l' rest qq. find_new from me c l es = Inr (l', rest) \<and> snap_index l' = snap_index l \<and>
     snap_term l' = snap_term l \<and>
     (if rest = [] then l' = l \<and> take (length es) (drop q g) = es
      else q \<le> qq \<and> qq \<le> length g \<and> log_rel l' (take qq g) \<and> take qq g @ rest = take q g @ es \<and>
           take (length es) (drop q g) \<noteq> es)"
  proof (rule find_new_splice [OF rel _ q(2,3)])
    show "\<forall>k<length es. e_index (es ! k) = Suc (q + k)"
      using nth es(2) wfL unfolding wf_log_def by simp
    show "\<forall>k<length es. q + k < length g \<longrightarrow> e_term (g ! (q + k)) = e_term (es ! k) \<longrightarrow> g ! (q + k) = es ! k"
      using nth m es(2) by simp
    show "\<forall>k<length es. q + k < length g \<longrightarrow> q + k < c \<longrightarrow> g ! (q + k) = es ! k"
      using nth take_eq_nth [OF c] by simp
  qed
  then obtain l' rest qq where r: "find_new from me c l es = Inr (l', rest)" "snap_index l' = snap_index l"
     "snap_term l' = snap_term l"
     "if rest = [] then l' = l \<and> take (length es) (drop q g) = es
      else q \<le> qq \<and> qq \<le> length g \<and> log_rel l' (take qq g) \<and> take qq g @ rest = take q g @ es \<and>
           take (length es) (drop q g) \<noteq> es" by blast
  show thesis
  proof (cases "rest = []")
    case True
    then show thesis using r rel that [of l' rest] by (simp add: splice_def)
  next
    case False
    then have qq: "q \<le> qq" "qq \<le> length g" "log_rel l' (take qq g)" "take qq g @ rest = take q g @ es"
      "take (length es) (drop q g) \<noteq> es" using r(4) by auto
    have "log_rel (fold log_push rest l') (splice g q es)"
      using log_rel_pushes [OF qq(3), of rest] qq(4) splice_snoc [OF q(3) qq(5)] by simp
    moreover have "fold disk_append rest (log_entries l) = log_entries l' @ rest"
    proof -
      let ?s = "snap_index l"
      have full: "take qq g @ rest = take (q + length es) L" using qq(4) q(1) es(1) by (metis take_add)
      have idx: "e_index (rest ! k) = Suc (qq + k)" if "k < length rest" for k
      proof -
        have "rest ! k = (take qq g @ rest) ! (qq + k)" using qq(2) by (simp add: nth_append)
        also have "\<dots> = L ! (qq + k)"
        proof -
          have "length (take qq g @ rest) = q + length es" unfolding full using es(2) by simp
          then have "qq + k < q + length es" using that qq(2) by simp
          then show ?thesis unfolding full by simp
        qed
        finally show ?thesis
        proof -
          assume a: "rest ! k = L ! (qq + k)"
          have "length (take qq g @ rest) = q + length es" unfolding full using es(2) by simp
          then have "qq + k < length L" using that qq(2) es(2) by simp
          then show ?thesis using a wfL unfolding wf_log_def by simp
        qed
      qed
      have "log_entries l' = take (qq - ?s) (log_entries l)"
        using qq(3) rel r(2) unfolding log_rel_def by (simp add: drop_take)
      moreover have "fold disk_append rest (log_entries l) = take (qq - ?s) (log_entries l) @ rest"
        by (rule fold_disk_append [OF log_rel_contiguous [OF rel wfg]])
          (use idx False q(2) qq(1,2) rel in \<open>auto simp: log_rel_def\<close>)
      ultimately show ?thesis by simp
    qed
    ultimately show thesis using that [OF r(1-3)] by blast
  qed
qed

lemma append_verified_sim:
  assumes s: "nsim X A n" and f: "from \<in> V_of X" and o: "o_snapshot (out n) = None"
    and msg: "AAppend from (x_id X) (cur_term n) p pt es lc \<in> anet A" and k: "k \<le> length es"
    and g: "(k = 0 \<and> log_term (rlog n) p = Some pt) \<or> (0 < k \<and> p + k = snap_index (rlog n))"
    and r: "role n = Follower"
  shows "\<exists>n'. append_verified from (p + k) (drop k es) lc rc n = Inr n' \<and> reaches X A n'"
proof -
  note st = nsim_state [OF s]
  define i where "i = x_id X"
  define gl where "gl = a_log (an A i)"
  define L where "L = h_llog A (a_term (an A i))"
  note st' = st [folded i_def, folded gl_def]
  have inv: "ainv (V_of X) A" "finite (V_of X)" using nsimD(1) [OF s] by auto
  have msg': "AAppend from i (a_term (an A i)) p pt es lc \<in> anet A" using msg st'(3) by (simp add: i_def)
  have g': "(k = 0 \<and> p \<le> length (a_log (an A i)) \<and> tm (a_log (an A i)) p = pt) \<or>
      (0 < k \<and> p + k \<le> a_commit (an A i))"
    using g log_rel_term [OF st'(7), of p] st'(5,8) by (auto simp: gl_def split: if_splits)
  note F = accept_facts [OF inv msg' k g' L_def, folded gl_def]
  let ?es = "drop k es"
  have q: "snap_index (rlog n) \<le> p + k"
    using g log_rel_term [OF st'(7), of p] by (auto split: if_splits)
  have q': "p + k \<le> length gl" using take_eq_length [OF F(2)] F(4) by simp
  have le: "commit n \<le> length gl" using nsim_commit_le [OF s] by (simp add: gl_def i_def)
  have wfg: "wf_log (a_term (an A i)) gl" using node_okD(1) [OF ainv_node [OF inv(1), of i]] by (simp add: gl_def)
  note wfL = leader_wf(1,2) [OF inv(1) F(1), folded L_def]
  have m: "gl ! j = L ! j" if "j < length gl" "j < length L" "e_term (gl ! j) = e_term (L ! j)" for j
    using origin_matching [OF node_okD(2) [OF ainv_node [OF inv(1)]] wfL(2), of "Suc j" i] that
      take_eq_nth [of "Suc j" gl L j] by (simp add: tm_def gl_def)
  have c: "take (commit n) gl = take (commit n) L" using F(6) st'(5) by simp
  obtain l' rest where fn: "find_new from (nid n) (commit n) (rlog n) ?es = Inr (l', rest)"
    "snap_index l' = snap_index (rlog n)" "snap_term l' = snap_term (rlog n)"
    "log_rel (fold log_push rest l') (splice gl (p + k) ?es)"
    "fold disk_append rest (log_entries (rlog n)) = log_entries l' @ rest"
    by (rule find_new_effect [OF st'(7) wfg wfL(1) F(2) q q' F(3,4) m c])
  define n1 where "n1 = n\<lparr>rlog := fold log_push rest l', out := (out n)\<lparr>o_append := o_append (out n) @ rest\<rparr>\<rparr>"
  define ct where "ct = min lc (p + length es)"
  define gl' where "gl' = splice gl (p + k) ?es"
  define n2 where "n2 = (if commit n1 < ct then advance_commit_to ct n1 else n1)"
  let ?A = "reply_ack i from (cur_term n) (p + length es)
      (upd i (\<lambda>a. a\<lparr>a_role := Follower, a_log := splice (a_log a) (p + k) ?es,
                     a_commit := max (a_commit a) ct\<rparr>) A)"
  have step: "astep (x_ok X) (V_of X) i A ?A"
    using astep.accept [OF msg' k g', of "x_ok X" "V_of X"] st'(3) unfolding ct_def by simp
  have inv': "ainv (V_of X) ?A" using astep_inv [OF s] step by (simp add: i_def)
  have a': "a_log (an ?A i) = gl'" "a_commit (an ?A i) = max (commit n) ct" "a_term (an ?A i) = cur_term n"
    using st'(3,5) by (simp_all add: astate_defs gl'_def gl_def)
  have wf': "wf_log (cur_term n) gl'" and ctle: "max (commit n) ct \<le> length gl'"
    using node_okD(1,4) [OF ainv_node [OF inv', of i]] unfolding a' safe_def by auto
  have keep: "take m gl' = take m gl" if "m \<le> commit n" for m
    using splice_keeps [OF F(2-4) _, of m] take_take_le [OF c that] that F(7) st'(5) unfolding gl'_def by simp
  have n1: "log_rel (rlog n1) gl'" "snap_index (rlog n1) = snap_index (rlog n)" "snap_term (rlog n1) = snap_term (rlog n)"
    "commit n1 = commit n" "role n1 = Follower"
    using fn r by (simp_all add: n1_def gl'_def)
  have adv: "advance_commit_to ct n1 = n1\<lparr>commit := ct,
      out := (out n1)\<lparr>o_committed := o_committed (out n1) @ drop (commit n1) (take ct gl')\<rparr>\<rparr>" if "commit n < ct"
    by (rule advance_commit_form [OF n1(1)]) (use wf' n1 st'(8) that ctle in \<open>auto simp: wf_log_def\<close>)
  have out1: "out_rel X (an ?A i) (anet ?A) n1"
    using nsimD(6) [OF s, folded i_def] fn(5) keep [OF order_refl] o msg_rel_mono [of X "anet A" _ "anet ?A"] a'(1)
    unfolding out_rel_def by (auto simp: n1_def persist_output_append astate_defs gl_def)
  have "nsim X ?A n2"
    unfolding nsim_def i_def [symmetric]
  proof (intro conjI)
    show "out_rel X (an ?A i) (anet ?A) n2"
      using out1 out_rel_advance [OF out1, of ct "an ?A i"] adv n1(4) ctle o
      unfolding n2_def a' by (auto simp: n1_def)
    have snap: "take (snap_index (rlog n)) gl' = take (snap_index (rlog n)) gl" by (rule keep [OF st'(8)])
    show "state_rel X (an ?A i) n2"
      using nsimD(4) [OF s, folded i_def] n1 adv st'(8) r a' snap
      unfolding state_rel_def n2_def
      by (auto simp: n1_def astate_defs gl_def max_def split: option.splits)
    show "peers_rel X (an ?A i) n2"
      using nsimD(5) [OF s, folded i_def] adv r unfolding n2_def by (auto simp: peers_rel_def n1_def)
  qed (use inv' nsimD(2,3) [OF s] i_def in auto)
  then have "nsim X ?A (reply_append from True (p + length es) 0 rc n2)"
    unfolding reply_append_def
    by (rule nsim_push) (use st'(1) nsimD(3) [OF s] f adv in
      \<open>auto simp: msg_rel_def n2_def n1_def i_def astate_defs\<close>)
  then have "reaches X A (reply_append from True (p + length es) 0 rc n2)"
    using reaches_step [of X A ?A] step reaches_refl by (simp add: i_def)
  moreover have "append_verified from (p + k) ?es lc rc n = Inr (reply_append from True (p + length es) 0 rc n2)"
    using fn(1) F(5) unfolding append_verified_def n2_def n1_def ct_def by (simp add: Let_def)
  ultimately show ?thesis by blast
qed

lemma reaches_follow:
  assumes "nsim X A n"
  shows "reaches X A (n\<lparr>role := Follower, leader_id := ldr, election_elapsed := 0\<rparr>)"
proof -
  have "bt_ok (votes n)" using nsimD(5) [OF assms] unfolding peers_rel_def by simp
  then have "reaches X A (n\<lparr>role := Follower\<rparr>)"
    using nsim_role_follower [OF assms, of Follower "votes n"] by simp
  then show ?thesis by (rule reaches_trans) (simp add: frame_simps reaches_refl)
qed

lemma reaches_ack_commit:
  assumes "nsim X A n" and "role n = Follower" and "from \<in> V_of X" and "from_leader A from (x_id X) (cur_term n)"
    and "c \<le> commit n" and "b = AppendEntriesResp True c ci rc \<or> b = InstallSnapshotResp c"
  shows "reaches X A (push_msg from (cur_term n) b n)"
proof -
  note st = nsim_state [OF assms(1)]
  let ?i = "x_id X"
  let ?A = "reply_ack ?i from (cur_term n) c (upd ?i (\<lambda>a. a\<lparr>a_role := Follower\<rparr>) A)"
  have step: "astep (x_ok X) (V_of X) ?i A ?A"
    using astep.ack_commit [of A "from" ?i c "x_ok X" "V_of X"] assms(4,5) st(3,5) by simp
  have "an ?A ?i = an A ?i" using st(6) assms(2) by (simp add: astate_defs)
  then have "nsim X ?A n"
    by (intro nsim_mono [OF assms(1) astep_inv [OF assms(1) step]]) (auto simp: astate_defs)
  then have "nsim X ?A (push_msg from (cur_term n) b n)"
    by (rule nsim_push)
      (use st(1) nsimD(3) [OF assms(1)] assms(3,6) in \<open>auto simp: msg_rel_def astate_defs\<close>)
  then show ?thesis by (rule reaches_step [OF step reaches_refl])
qed

lemma handle_append_entries_sim:
  assumes s: "nsim X A n0" and f: "from \<in> V_of X" and o: "o_snapshot (out n0) = None"
    and msg: "AAppend from (x_id X) (cur_term n0) p pt es lc \<in> anet A"
  shows "\<exists>n'. handle_append_entries from p pt es lc rc n0 = Inr n' \<and> reaches X A n'"
proof -
  define n where "n = n0\<lparr>role := Follower, leader_id := Some from, election_elapsed := 0\<rparr>"
  have n: "rlog n0 = rlog n" "cur_term n0 = cur_term n" "role n = Follower" "o_snapshot (out n) = None"
    using o by (simp_all add: n_def)
  obtain A' where A': "(astep (x_ok X) (V_of X) (x_id X))\<^sup>*\<^sup>* A A'" "nsim X A' n"
    using reaches_follow [OF s] unfolding reaches_def n_def by blast
  have msg': "AAppend from (x_id X) (cur_term n) p pt es lc \<in> anet A'"
    using msg asteps_frame(1) [OF A'(1)] n(2) by auto
  have "\<exists>n'. handle_append_entries from p pt es lc rc n0 = Inr n' \<and> reaches X A' n'"
  proof -
    let ?si = "snap_index (rlog n)"
    note st = nsim_state [OF A'(2)]
    have fl: "from_leader A' from (x_id X) (cur_term n)" unfolding from_leader_def using msg' by blast
    have rej: "reaches X A' (reply_append from False 0 ci rc n)" for ci
      unfolding reply_append_def by (rule reaches_refl, rule nsim_reply [OF A'(2) f]) blast
    consider (covered) "p < ?si" "length es \<le> ?si - p" | (trim) "p < ?si" "?si - p < length es" | (plain) "\<not> p < ?si"
      by linarith
    then show ?thesis
    proof cases
      case covered
      have "reaches X A' (reply_append from True ?si 0 rc n)"
        unfolding reply_append_def by (rule reaches_ack_commit [OF A'(2) n(3) f fl st(8)]) blast
      then show ?thesis using covered unfolding handle_append_entries_def n_def [symmetric] by simp
    next
      case trim
      have "\<exists>n'. append_verified from (p + (?si - p)) (drop (?si - p) es) lc rc n = Inr n' \<and> reaches X A' n'"
        by (rule append_verified_sim [OF A'(2) f n(4) msg' _ _ n(3)]) (use trim in auto)
      moreover have "log_term (rlog n) ?si = Some (snap_term (rlog n))" by (simp add: log_term_def)
      ultimately show ?thesis using trim unfolding handle_append_entries_def n_def [symmetric] Let_def by simp
    next
      case plain
      show ?thesis
      proof (cases "log_term (rlog n) p = Some pt")
        case True
        have "\<exists>n'. append_verified from (p + 0) (drop 0 es) lc rc n = Inr n' \<and> reaches X A' n'"
          by (rule append_verified_sim [OF A'(2) f n(4) msg' _ _ n(3)]) (use True in auto)
        then show ?thesis using plain True unfolding handle_append_entries_def n_def [symmetric] by simp
      next
        case False
        then show ?thesis
          using plain rej unfolding handle_append_entries_def n_def [symmetric] by (auto split: option.split)
      qed
    qed
  qed
  then show ?thesis using A'(1) unfolding reaches_def by (meson rtranclp_trans)
qed

lemma reaches_count_ack:
  assumes "nsim X A n" and "role n = Leader" and "from \<in> V_of X" and "AAck from (x_id X) (cur_term n) mi \<in> anet A"
    and "bt_get (prs n) from = Some pr0" and "pr_matched p \<le> max (pr_matched pr0) mi"
  shows "reaches X A (set_progress from p n)"
proof -
  note st = nsim_state [OF assms(1)]
  let ?i = "x_id X"
  let ?A = "upd ?i (\<lambda>a. a\<lparr>a_match := (a_match a)(from := max (a_match a from) mi)\<rparr>) A"
  have step: "astep (x_ok X) (V_of X) ?i A ?A"
    by (rule astep.count_ack) (use assms(2,4) st(3,6) in simp_all)
  have "nsim X ?A n"
    using nsimD [OF assms(1)] astep_inv [OF assms(1) step] unfolding nsim_def
    by (auto simp: state_rel_def peers_rel_def out_rel_def upd_def le_max_iff_disj cong: option.case_cong)
  then have "nsim X ?A (set_progress from p n)"
    by (rule nsim_set_progress [OF _ assms(3)])
      (use nsim_prs(2) [OF assms(1,5,2)] assms(6) in \<open>auto simp: upd_def max_def split: if_splits\<close>)
  then show ?thesis by (rule reaches_step [OF step reaches_refl])
qed

lemma reaches_append_resp:
  assumes s: "nsim X A n" and o: "o_snapshot (out n) = None"
    and msg: "ok \<Longrightarrow> AAck from (x_id X) (cur_term n) mi \<in> anet A"
  shows "reaches X A (handle_append_resp from ok mi ci rc n)"
proof (cases "role n = Leader \<and> bt_get (prs n) from \<noteq> None")
  case True
  then obtain pr0 where r: "role n = Leader" and pr0: "bt_get (prs n) from = Some pr0" by auto
  have f: "from \<in> V_of X" by (rule nsim_prs(1) [OF s pr0])
  define pr where "pr = pr0\<lparr>pr_last_resp_tick := tick_counter n,
    pr_acked_read_ctx := max (pr_acked_read_ctx pr0) rc\<rparr>"
  have same: "nsim X A (set_progress from p n)" if "pr_matched p = pr_matched pr0" for p
    by (rule nsim_set_progress [OF s f]) (use nsim_prs(2) [OF s pr0 r] that in simp)
  show ?thesis
  proof (cases ok)
    case True
    define pr1 where "pr1 = pr\<lparr>pr_matched := (if pr_matched pr < mi then mi else pr_matched pr),
      pr_next := max (pr_next pr) (mi + 1), pr_inflight := pr_inflight pr - 1\<rparr>"
    define n1 where "n1 = set_progress from pr1 n"
    define n2 where "n2 = process_read_acks (maybe_advance_commit n1)"
    have "reaches X A n1"
      unfolding n1_def by (rule reaches_count_ack [OF s r f msg [OF True] pr0]) (simp add: pr1_def pr_def)
    then have "reaches X A (case bt_get (prs n2) from of
        Some p \<Rightarrow> if pr_next p \<le> last_index (rlog n) then send_append from n2 else n2 | None \<Rightarrow> n2)"
    proof (rule reaches_trans)
      fix A' assume s1: "nsim X A' n1"
      have n1: "role n1 = Leader" "o_snapshot (out n1) = None" using r o by (simp_all add: n1_def)
      show "reaches X A' (case bt_get (prs n2) from of
          Some p \<Rightarrow> if pr_next p \<le> last_index (rlog n) then send_append from n2 else n2 | None \<Rightarrow> n2)"
      proof (rule reaches_trans [OF reaches_maybe_advance [OF s1 n1(2)]])
        fix A'' assume "nsim X A'' (maybe_advance_commit n1)"
        then have s2: "nsim X A'' n2" by (simp add: n2_def frame_simps)
        have "role n2 = Leader" using nsim_advance_sel(1) [OF s1] n1 by (simp add: n2_def)
        then show "reaches X A'' (case bt_get (prs n2) from of
          Some p \<Rightarrow> if pr_next p \<le> last_index (rlog n) then send_append from n2 else n2 | None \<Rightarrow> n2)"
          using reaches_refl [OF s2] reaches_send_append [OF s2] by (simp split: option.split)
      qed
    qed
    then show ?thesis
      unfolding handle_append_resp_def Let_def r pr0 n2_def n1_def pr1_def pr_def option.case
      using True by (simp only: simp_thms if_True if_False)
  next
    case False
    have "nsim X A (set_progress from (pr\<lparr>pr_next := x, pr_inflight := 0\<rparr>) n)" for x
      by (rule same) (simp add: pr_def)
    then have "reaches X A (send_append from (set_progress from (pr\<lparr>pr_next := x, pr_inflight := 0\<rparr>) n))" for x
      using reaches_send_append [of X A "set_progress from (pr\<lparr>pr_next := x, pr_inflight := 0\<rparr>) n"] r by simp
    moreover have "reaches X A (set_progress from pr n)" by (rule reaches_refl, rule same) (simp add: pr_def)
    ultimately show ?thesis
      unfolding handle_append_resp_def Let_def r pr0 pr_def option.case
      using False by (simp only: simp_thms if_True if_False split: if_split)
  qed
next
  case False
  then have "handle_append_resp from ok mi ci rc n = n"
    by (auto simp: handle_append_resp_def Let_def split: option.split)
  then show ?thesis using reaches_refl [OF s] by simp
qed

section \<open>Snapshot handlers\<close>

lemma reaches_snapshot_resp:
  assumes s: "nsim X A n" and o: "o_snapshot (out n) = None"
    and msg: "AAck from (x_id X) (cur_term n) li \<in> anet A"
  shows "reaches X A (handle_install_snapshot_resp from li n)"
proof (cases "role n = Leader \<and> bt_get (prs n) from \<noteq> None")
  case True
  then obtain pr where r: "role n = Leader" and pr: "bt_get (prs n) from = Some pr" by auto
  define n1 where "n1 = set_progress from (pr\<lparr>pr_pending_snapshot := False, pr_last_resp_tick := tick_counter n,
    pr_matched := (if pr_matched pr < li then li else pr_matched pr),
    pr_next := max (pr_next pr) (li + 1), pr_inflight := 0\<rparr>) n"
  have "reaches X A n1"
    unfolding n1_def by (rule reaches_count_ack [OF s r nsim_prs(1) [OF s pr] msg pr]) simp
  then have "reaches X A (send_append from (maybe_advance_commit n1))"
  proof (rule reaches_trans)
    fix A' assume s1: "nsim X A' n1"
    have n1: "role n1 = Leader" "o_snapshot (out n1) = None" using r o by (simp_all add: n1_def)
    show "reaches X A' (send_append from (maybe_advance_commit n1))"
      by (rule reaches_trans [OF reaches_maybe_advance [OF s1 n1(2)] reaches_send_append])
        (use nsim_advance_sel(1) [OF s1] n1(1) in simp_all)
  qed
  then show ?thesis
    unfolding handle_install_snapshot_resp_def Let_def r pr n1_def option.case by (simp only: simp_thms if_False)
next
  case False
  then have "handle_install_snapshot_resp from li n = n"
    by (auto simp: handle_install_snapshot_resp_def split: option.split)
  then show ?thesis using reaches_refl [OF s] by simp
qed

lemma reaches_install:
  assumes s: "nsim X A n" and r: "role n = Follower" and f: "from \<in> V_of X"
    and o: "o_snapshot (out n) = None" "o_append (out n) = []" "o_committed (out n) = []"
    and msg: "ASnap from (x_id X) (cur_term n) pfx \<in> anet A" and rel: "snap_rel X snap pfx"
    and c: "commit n < s_last_index snap"
  shows "reaches X A (push_msg from (cur_term n) (InstallSnapshotResp (s_last_index snap))
    (if log_term (rlog n) (s_last_index snap) = Some (s_last_term snap)
     then advance_commit_to (s_last_index snap) n
     else n\<lparr>rlog := reset_to_snapshot (s_last_index snap) (s_last_term snap) (rlog n),
            commit := s_last_index snap, voters_base := s_voters snap, node_snapshot := Some snap,
            out := (out n)\<lparr>o_snapshot := Some snap\<rparr>\<rparr>))" (is "reaches X A (push_msg _ _ _ ?n)")
proof -
  note st = nsim_state [OF s]
  let ?i = "x_id X"
  define g where "g = a_log (an A ?i)"
  have pfx: "length pfx = s_last_index snap" "tm pfx (length pfx) = s_last_term snap"
    using rel unfolding snap_rel_def by auto
  define keep where "keep \<longleftrightarrow> length pfx \<le> length g \<and> tm g (length pfx) = tm pfx (length pfx)"
  define l where "l = (if keep then g else pfx)"
  let ?A = "reply_ack ?i from (cur_term n) (length pfx)
      (upd ?i (\<lambda>a. a\<lparr>a_role := Follower, a_log := l, a_commit := length pfx\<rparr>) A)"
  have lg: "l = (if length pfx \<le> length (a_log (an A ?i)) \<and>
      tm (a_log (an A ?i)) (length pfx) = tm pfx (length pfx) then a_log (an A ?i) else pfx)"
    by (simp add: l_def keep_def g_def)
  have step: "astep (x_ok X) (V_of X) ?i A ?A"
    using astep.install [OF _ _ lg, of "from" "x_ok X" "V_of X"] msg c pfx(1) st(3,5) by simp
  have inv': "ainv (V_of X) ?A" by (rule astep_inv [OF s step])
  have lt: "log_term (rlog n) (s_last_index snap) = Some (s_last_term snap) \<longleftrightarrow> keep"
    using log_rel_term [OF st(7), of "length pfx"] pfx c st(8) by (auto simp: keep_def g_def)
  have dis: "out_rel X (an A ?i) (anet A) n" by (rule nsimD(6) [OF s])
  have mono: "\<And>m. msg_rel X (anet A) m \<Longrightarrow> msg_rel X (anet ?A) m"
    by (rule msg_rel_mono) (auto simp: astate_defs)
  have "nsim X ?A ?n"
  proof (cases keep)
    case True
    have le: "s_last_index snap \<le> length g" using True pfx by (simp add: keep_def)
    have eq: "advance_commit_to (s_last_index snap) n = n\<lparr>commit := s_last_index snap,
        out := (out n)\<lparr>o_committed := o_committed (out n) @ drop (commit n) (take (s_last_index snap) g)\<rparr>\<rparr>"
      by (rule advance_commit_form [OF st(7) [folded g_def]])
        (use nsim_noconf [OF s] st(8) c le in \<open>auto simp: g_def\<close>)
    have "out_rel X (an A ?i) (anet ?A) n" using dis mono unfolding out_rel_def by blast
    then have "out_rel X (an ?A ?i) (anet ?A) (advance_commit_to (s_last_index snap) n)"
      unfolding eq g_def
      by (rule out_rel_advance) (use o c le True in \<open>auto simp: astate_defs l_def g_def\<close>)
    moreover have "state_rel X (an ?A ?i) (advance_commit_to (s_last_index snap) n)"
      using nsimD(4) [OF s] pfx c True r unfolding eq
      by (auto simp: state_rel_def astate_defs l_def g_def split: option.splits)
    moreover have "peers_rel X (an ?A ?i) (advance_commit_to (s_last_index snap) n)"
      using nsimD(5) [OF s] r unfolding eq by (auto simp: peers_rel_def)
    ultimately show ?thesis
      using inv' nsimD(2,3) [OF s] True lt unfolding nsim_def by simp
  next
    case False
    let ?m = "n\<lparr>rlog := reset_to_snapshot (s_last_index snap) (s_last_term snap) (rlog n),
            commit := s_last_index snap, voters_base := s_voters snap, node_snapshot := Some snap,
            out := (out n)\<lparr>o_snapshot := Some snap\<rparr>\<rparr>"
    have lr: "log_rel (rlog ?m) pfx" using log_rel_reset [of pfx "rlog n"] pfx by simp
    have vs: "s_voters snap = x_vs X" using rel unfolding snap_rel_def by simp
    have xc: "x_commit X \<le> commit n" using dis o(1) unfolding out_rel_def by simp
    have "p_hard_state (persist_output (out n) (x_disk X)) = hs n" using dis unfolding out_rel_def by simp
    then have "persist_output ((out n)\<lparr>o_snapshot := Some snap\<rparr>) (x_disk X) =
        \<lparr>p_hard_state = hs n, p_entries = [], p_snapshot = Some snap\<rparr>"
      using o(1,2) by (simp add: persist_output_def Let_def split: option.splits)
    then have "out_rel X (an ?A ?i) (anet ?A) ?m"
      using dis mono o c xc unfolding out_rel_def by (auto simp: reset_to_snapshot_def)
    moreover have "state_rel X (an ?A ?i) ?m"
      using nsimD(4) [OF s] lr pfx rel False r vs
      by (auto simp: state_rel_def astate_defs l_def reset_to_snapshot_def)
    moreover have "peers_rel X (an ?A ?i) ?m"
      using nsimD(5) [OF s] r by (auto simp: peers_rel_def)
    ultimately show ?thesis
      using inv' nsimD(2,3) [OF s] False lt unfolding nsim_def by simp
  qed
  moreover have "msg_rel X (anet ?A) \<lparr>m_from = nid ?n, m_to = from, m_term = cur_term n,
      m_body = InstallSnapshotResp (s_last_index snap)\<rparr>"
    using nsim_state(1) [OF calculation] nsimD(3) [OF s] f pfx by (simp add: msg_rel_def astate_defs)
  ultimately have "nsim X ?A (push_msg from (cur_term n) (InstallSnapshotResp (s_last_index snap)) ?n)"
    by (rule nsim_push)
  then show ?thesis by (rule reaches_step [OF step reaches_refl])
qed

definition drained :: "raft_node \<Rightarrow> bool" where
  "drained n \<longleftrightarrow> o_snapshot (out n) = None \<and> o_append (out n) = [] \<and> o_committed (out n) = []"

lemma reaches_install_snapshot:
  assumes s: "nsim X A n0" and f: "from \<in> V_of X" and o: "drained n0"
    and msg: "ASnap from (x_id X) (cur_term n0) pfx \<in> anet A" and rel: "snap_rel X snap pfx"
  shows "reaches X A (handle_install_snapshot from snap n0)"
proof -
  define n where "n = n0\<lparr>role := Follower, leader_id := Some from, election_elapsed := 0\<rparr>"
  have n: "cur_term n0 = cur_term n" "role n = Follower"
    "o_snapshot (out n) = None" "o_append (out n) = []" "o_committed (out n) = []"
    using o by (simp_all add: n_def drained_def)
  have "reaches X A n" unfolding n_def by (rule reaches_follow [OF s])
  then show ?thesis
  proof (rule reaches_trans_net)
    fix A' assume s': "nsim X A' n" and net: "anet A \<subseteq> anet A'"
    have msg': "ASnap from (x_id X) (cur_term n) pfx \<in> anet A'" using msg net n(1) by auto
    show "reaches X A' (handle_install_snapshot from snap n0)"
    proof (cases "s_last_index snap \<le> commit n")
      case True
      have "from_leader A' from (x_id X) (cur_term n)" unfolding from_leader_def using msg' by blast
      then have "reaches X A' (push_msg from (cur_term n) (InstallSnapshotResp (commit n)) n)"
        by (rule reaches_ack_commit [OF s' n(2) f _ order_refl]) blast
      then show ?thesis using True by (simp add: handle_install_snapshot_def n_def [symmetric])
    next
      case False
      note R = reaches_install [OF s' n(2) f n(3-5) msg' rel]
      have "cur_term (advance_commit_to (s_last_index snap) n) = cur_term n"
        if "log_term (rlog n) (s_last_index snap) = Some (s_last_term snap)"
        using advance_commit_form [OF nsim_state(7) [OF s'] nsim_noconf [OF s'] nsim_state(8) [OF s'],
            of "s_last_index snap"] False that log_rel_term [OF nsim_state(7) [OF s'], of "s_last_index snap"]
        by (simp split: if_splits)
      then show ?thesis
        using False R unfolding handle_install_snapshot_def n_def [symmetric] Let_def
        by (auto split: if_splits)
    qed
  qed
qed

section \<open>The public operations\<close>

lemma become_follower_drained [simp]: "drained (become_follower t ldr n) = drained n"
  using become_follower_form [of t ldr n]
  by (cases "cur_term n < t") (auto simp: drained_def set_vote_def set_term_def Let_def split: if_splits)

lemma become_follower_term: "cur_term n \<le> t \<Longrightarrow> cur_term (become_follower t ldr n) = t"
  using become_follower_form [of t ldr n]
  by (cases "cur_term n < t") (auto simp: set_vote_def set_term_def Let_def)

lemma dispatch_sim:
  assumes s: "nsim X A n" and d: "drained n" and m: "msg_rel X (anet A) m" "m_to m = x_id X" "m_term m = cur_term n"
  shows "\<exists>n'. dispatch m n = Inr n' \<and> reaches X A n'"
proof -
  have f: "m_from m \<in> V_of X" and o: "o_snapshot (out n) = None"
    using m(1) d by (auto simp: msg_rel_def drained_def)
  note m' = m(1) [unfolded msg_rel_def m(2,3)]
  show ?thesis
  proof (cases "m_body m")
    case (RequestVote lli llt)
    then show ?thesis using reaches_request_vote [OF s f, of lli llt] m' by (simp add: dispatch_def)
  next
    case (RequestVoteResp g)
    then show ?thesis using reaches_request_vote_resp [OF s _ o, of g "m_from m"] m' by (simp add: dispatch_def)
  next
    case (AppendEntries p pt es lc rc)
    then show ?thesis using handle_append_entries_sim [OF s f o, of p pt es lc rc] m' by (simp add: dispatch_def)
  next
    case (AppendEntriesResp ok mi ci rc)
    then show ?thesis using reaches_append_resp [OF s o, of ok "m_from m" mi ci rc] m' by (simp add: dispatch_def)
  next
    case (InstallSnapshot snap)
    then show ?thesis using reaches_install_snapshot [OF s f d] m' by (auto simp: dispatch_def)
  next
    case (InstallSnapshotResp li)
    then show ?thesis using reaches_snapshot_resp [OF s o, of "m_from m" li] m' by (simp add: dispatch_def)
  qed (simp_all add: dispatch_def reaches_refl s)
qed

theorem step_sim:
  assumes s: "nsim X A n" and d: "drained n" and m: "msg_rel X (anet A) m" "m_to m = x_id X"
  shows "\<exists>n'. step m n = Inr n' \<and> reaches X A n'"
proof -
  have f: "m_from m \<in> V_of X" and o: "o_snapshot (out n) = None"
    using m(1) d by (auto simp: msg_rel_def drained_def)
  have stale: "reaches X A (answer_stale m n)"
    unfolding answer_stale_def using reaches_refl [OF s] reaches_refl [OF nsim_reply [OF s f]]
    by (simp split: message_body.split)
  have disp: "\<exists>n'. dispatch m (if cur_term n < m_term m then become_follower (m_term m) ldr n else n) = Inr n' \<and>
      reaches X A n'" if "\<not> m_term m < cur_term n" for ldr
  proof (cases "cur_term n < m_term m")
    case True
    define n1 where "n1 = become_follower (m_term m) ldr n"
    obtain A' where A': "(astep (x_ok X) (V_of X) (x_id X))\<^sup>*\<^sup>* A A'" "nsim X A' n1"
      using reaches_become_follower [OF s, of "m_term m" ldr] True unfolding reaches_def n1_def by auto
    have "\<exists>n'. dispatch m n1 = Inr n' \<and> reaches X A' n'"
      by (rule dispatch_sim [OF A'(2) _ msg_rel_mono [OF m(1) asteps_frame(1) [OF A'(1)]] m(2)])
        (use d True in \<open>simp_all add: n1_def become_follower_term\<close>)
    then show ?thesis using A'(1) True unfolding reaches_def n1_def by (auto intro: rtranclp_trans)
  next
    case False
    then show ?thesis using dispatch_sim [OF s d m] that by simp
  qed
  show ?thesis
    unfolding step_def
    using disp [of "leader_of_msg m"] stale reaches_pre_vote [OF s f] reaches_pre_vote_resp [OF s o]
    by (auto split: message_body.split)
qed

section \<open>Draining, compaction, restart\<close>

theorem nsim_take_output:
  assumes "nsim X A n"
  shows "nsim (X\<lparr>x_disk := persist_output (out n) (x_disk X), x_commit := commit n\<rparr>) A (snd (take_output n))"
proof -
  have "persist_output (out n) (x_disk X) =
      \<lparr>p_hard_state = hs n, p_entries = log_entries (rlog n), p_snapshot = node_snapshot n\<rparr>"
    using nsimD(6) [OF assms] unfolding out_rel_def by simp
  then show ?thesis
    using nsimD [OF assms] unfolding nsim_def take_output_def
    by (simp add: frame_simps)
      (simp add: state_rel_def peers_rel_def out_rel_def output_default_def snap_rel_def
        persist_output_def cong: option.case_cong)
qed

lemma filter_contiguous:
  assumes "\<forall>k<length es. e_index (es ! k) = Suc b + k" and "b \<le> c"
  shows "filter (\<lambda>e. c < e_index e) es = drop (c - b) es"
  using assms
proof (induction es arbitrary: b)
  case (Cons e es)
  have e: "e_index e = Suc b" using Cons.prems(1) by force
  have IH: "\<forall>k<length es. e_index (es ! k) = Suc (Suc b) + k"
    using Cons.prems(1) by (auto dest: spec [where x = "Suc k" for k])
  show ?case
  proof (cases "b < c")
    case True
    then show ?thesis using Cons.IH [OF IH] e by (simp add: Suc_diff_Suc [symmetric])
  next
    case False
    then have "\<forall>x\<in>set es. c < e_index x" using IH Cons.prems(2) by (auto simp: in_set_conv_nth)
    then show ?thesis using False e Cons.prems(2) by (simp add: filter_id_conv)
  qed
qed simp

theorem nsim_compact:
  assumes s: "nsim X A n" and o: "out n = output_default"
    and c: "compact applied data n = (Some snap, n')" and d: "data = x_data X (take applied (a_log (an A (x_id X))))"
  shows "nsim (X\<lparr>x_disk := disk_compact snap (x_disk X)\<rparr>) A n'" and "out n' = output_default"
    and "commit n' = commit n" and "s_last_index snap = applied"
proof -
  note st = nsim_state [OF s]
  let ?g = "a_log (an A (x_id X))"
  have ap: "snap_index (rlog n) < applied" "applied \<le> commit n" and lt: "log_term (rlog n) applied = Some (s_last_term snap)"
    and snap: "snap = \<lparr>s_last_index = applied, s_last_term = s_last_term snap, s_voters = x_vs X, s_data = data\<rparr>"
    and n': "n' = n\<lparr>voters_base := x_vs X, rlog := log_compact applied (s_last_term snap) (rlog n), node_snapshot := Some snap\<rparr>"
    using c nsim_voters_at [OF s] by (auto simp: compact_def Let_def split: if_splits option.splits)
  show "out n' = output_default" "commit n' = commit n" "s_last_index snap = applied"
    using o n' snap by (simp_all, metis snapshot.select_convs(1))
  have le: "applied \<le> length ?g" using ap(2) nsim_commit_le [OF s] by simp
  have tm: "s_last_term snap = tm ?g applied"
    using lt log_rel_term [OF st(7), of applied] by (simp split: if_splits)
  have lr: "log_rel (log_compact applied (s_last_term snap) (rlog n)) ?g"
    unfolding tm by (rule log_rel_compact [OF st(7) ap(1) le])
  have si: "snap_index (log_compact applied (s_last_term snap) (rlog n)) = applied"
    using ap(1) by (simp add: log_compact_def)
  have dk: "x_disk X = \<lparr>p_hard_state = hs n, p_entries = log_entries (rlog n), p_snapshot = node_snapshot n\<rparr>"
    using nsimD(6) [OF s] o unfolding out_rel_def by simp
  have "filter (\<lambda>e. s_last_index snap < e_index e) (log_entries (rlog n)) =
      drop (applied - snap_index (rlog n)) (log_entries (rlog n))"
    using filter_contiguous [OF log_rel_contiguous [OF st(7) nsim_wf [OF s]], of applied] ap(1)
      \<open>s_last_index snap = applied\<close> by simp
  also have "\<dots> = drop applied ?g" using st(7) ap(1) unfolding log_rel_def by simp
  also have "\<dots> = log_entries (log_compact applied (s_last_term snap) (rlog n))"
    using lr si unfolding log_rel_def by simp
  finally have dc: "disk_compact snap (x_disk X) = \<lparr>p_hard_state = hs n',
      p_entries = log_entries (rlog n'), p_snapshot = node_snapshot n'\<rparr>"
    unfolding disk_compact_def dk n' by simp
  have sr: "snap_rel X snap (take applied ?g)"
    using le tm d tm_take [of applied "take applied ?g" ?g applied] unfolding snap_rel_def
    by (subst (1 2 3 4) snap) simp
  have "out_rel (X\<lparr>x_disk := disk_compact snap (x_disk X)\<rparr>) (an A (x_id X)) (anet A) n'"
    using nsimD(6) [OF s] o unfolding out_rel_def dc n' by (simp add: output_default_def persist_output_def)
  moreover have "state_rel (X\<lparr>x_disk := disk_compact snap (x_disk X)\<rparr>) (an A (x_id X)) n'"
    using nsimD(4) [OF s] lr si sr ap(2) le \<open>s_last_index snap = applied\<close> unfolding state_rel_def n'
    by (simp add: snap_rel_def min.absorb2)
  moreover have "peers_rel (X\<lparr>x_disk := disk_compact snap (x_disk X)\<rparr>) (an A (x_id X)) n'"
    using nsimD(5) [OF s] unfolding peers_rel_def n' by simp
  ultimately show "nsim (X\<lparr>x_disk := disk_compact snap (x_disk X)\<rparr>) A n'"
    using nsimD(1-3) [OF s] unfolding nsim_def by simp
qed

text \<open>What the disk of a node that is down holds.\<close>

definition disk_rel :: "sim_ctx \<Rightarrow> anode \<Rightarrow> persisted \<Rightarrow> bool" where
  "disk_rel X a d \<longleftrightarrow> p_hard_state d = \<lparr>hs_term = a_term a, hs_voted_for = a_vote a\<rparr> \<and>
     (case p_snapshot d of
        None \<Rightarrow> p_entries d = a_log a
      | Some s \<Rightarrow> s_last_index s \<le> a_commit a \<and> s_last_index s \<le> length (a_log a) \<and>
          snap_rel X s (take (s_last_index s) (a_log a)) \<and> p_entries d = drop (s_last_index s) (a_log a))"

lemma nsim_disk_rel:
  assumes "nsim X A n" and "out n = output_default"
  shows "disk_rel X (an A (x_id X)) (x_disk X)"
proof -
  note st = nsim_state [OF assms(1)]
  have dk: "x_disk X = \<lparr>p_hard_state = hs n, p_entries = log_entries (rlog n), p_snapshot = node_snapshot n\<rparr>"
    using nsimD(6) [OF assms(1)] assms(2) unfolding out_rel_def by simp
  have "hs n = \<lparr>hs_term = a_term (an A (x_id X)), hs_voted_for = a_vote (an A (x_id X))\<rparr>"
    using st(3,4) by simp
  then show ?thesis
    using nsimD(4) [OF assms(1)] st(7) unfolding disk_rel_def state_rel_def log_rel_def dk
    by (auto split: option.splits)
qed

theorem restart_sim:
  assumes "disk_rel X (an A (x_id X)) d" and "ainv (V_of X) A" and "distinct (x_vs X)" and "x_id X \<in> V_of X"
    and "c_id c = x_id X"
  shows "\<exists>A'. astep (x_ok X) (V_of X) (x_id X) A A' \<and>
    nsim (X\<lparr>x_disk := d, x_commit := commit (raft_node_new c (x_vs X) d)\<rparr>) A' (raft_node_new c (x_vs X) d)"
    and "out (raft_node_new c (x_vs X) d) = output_default"
    and "commit (raft_node_new c (x_vs X) d) = (case p_snapshot d of None \<Rightarrow> 0 | Some s \<Rightarrow> s_last_index s)"
proof -
  define n where "n = raft_node_new c (x_vs X) d"
  define si where "si = (case p_snapshot d of None \<Rightarrow> 0 | Some s \<Rightarrow> s_last_index s)"
  define st where "st = (case p_snapshot d of None \<Rightarrow> 0 | Some s \<Rightarrow> s_last_term s)"
  define vb where "vb = (case p_snapshot d of None \<Rightarrow> x_vs X | Some s \<Rightarrow> s_voters s)"
  let ?a = "an A (x_id X)"
  have f: "cfg n = c" "rlog n = log_new si st (p_entries d)" "hs n = p_hard_state d" "role n = Follower"
    "commit n = si" "node_snapshot n = p_snapshot d" "voters_base n = vb" "votes n = bt_empty"
    "prs n = bt_empty" "out n = output_default"
    by (simp_all add: n_def raft_node_new_def si_def st_def vb_def Let_def split: option.split)
  let ?A = "upd (x_id X) (\<lambda>a. a\<lparr>a_role := Follower, a_commit := si, a_granted := {}, a_match := (\<lambda>_. 0)\<rparr>) A"
  have "si \<le> a_commit ?a" using assms(1) unfolding disk_rel_def si_def by (auto split: option.splits)
  then have step: "astep (x_ok X) (V_of X) (x_id X) A ?A" by (rule astep.restart)
  have inv: "ainv (V_of X) ?A" by (rule astep_ainv [OF assms(2) _ step]) simp
  have "log_rel (rlog n) (a_log ?a)"
    using assms(1) tm_take [of si "take si (a_log ?a)" "a_log ?a" si]
    unfolding f log_rel_def log_new_def disk_rel_def si_def st_def snap_rel_def
    by (auto simp: tm_def min_def split: option.splits)
  then have "state_rel (X\<lparr>x_disk := d, x_commit := si\<rparr>) (an ?A (x_id X)) n"
    using assms(1,5) unfolding state_rel_def f disk_rel_def
    by (auto simp: upd_def si_def st_def vb_def snap_rel_def log_new_def split: option.splits)
  moreover have "peers_rel (X\<lparr>x_disk := d, x_commit := si\<rparr>) (an ?A (x_id X)) n"
    unfolding peers_rel_def f by (simp add: bt_keys_def bt_empty_def)
  moreover have "out_rel (X\<lparr>x_disk := d, x_commit := si\<rparr>) (an ?A (x_id X)) (anet ?A) n"
    unfolding out_rel_def f by (simp add: output_default_def persist_output_def log_new_def)
  ultimately have "nsim (X\<lparr>x_disk := d, x_commit := si\<rparr>) ?A n"
    using inv assms(3,4) unfolding nsim_def by simp
  then show "\<exists>A'. astep (x_ok X) (V_of X) (x_id X) A A' \<and>
      nsim (X\<lparr>x_disk := d, x_commit := commit (raft_node_new c (x_vs X) d)\<rparr>) A' (raft_node_new c (x_vs X) d)"
    using step f(5) unfolding n_def by auto
  show "out (raft_node_new c (x_vs X) d) = output_default"
    "commit (raft_node_new c (x_vs X) d) = (case p_snapshot d of None \<Rightarrow> 0 | Some s \<Rightarrow> s_last_index s)"
    using f(5,10) unfolding n_def si_def by auto
qed

end
