(* ===== verification/Kvsm.thy ===== *)
theory Kvsm
  imports Ordered_Map
begin

text \<open>
  \<open>crates/kvsm/src/lib.rs\<close>: the replicated key-value state machine. The trait \<open>Backend\<close> is a record
  of its methods, the state machine is generic in it, and the locale \<open>kv_backend\<close> states what a
  backend promises; \<open>MemBackend\<close> is the instance of this file. \<open>bincode\<close> is a parameter (an encoder
  and a decoder), and so is the order in which a \<open>HashMap\<close> is iterated: the session table is kept as
  a finite map, and \<open>iter\<close> lists its entries in some order.
\<close>

section \<open>Commands and results\<close>

datatype op =
    Put bytes bytes
  | Delete bytes
  | Cas bytes "bytes option" "bytes option"
  | Get bytes

record command =
  cmd_session :: nat
  cmd_seq :: nat
  cmd_op :: op

datatype op_result = OpOk | OpValue "bytes option" | OpCas bool "bytes option" | OpStale

record session_state =
  last_seq :: nat
  last_result :: op_result

record snapshot_payload =
  pl_kvs :: "(bytes \<times> bytes) list"
  pl_sessions :: "(nat \<times> session_state) list"

section \<open>The backend trait and its in-memory instance\<close>

record 'b backend =
  be_get :: "'b \<Rightarrow> bytes \<Rightarrow> bytes option"
  be_set :: "bytes \<Rightarrow> bytes option \<Rightarrow> 'b \<Rightarrow> 'b"
  be_scan :: "'b \<Rightarrow> bytes \<Rightarrow> bytes option \<Rightarrow> nat \<Rightarrow> (bytes \<times> bytes) list"
  be_dump :: "'b \<Rightarrow> (bytes \<times> bytes) list"
  be_clear_and_load :: "(bytes \<times> bytes) list \<Rightarrow> 'b \<Rightarrow> 'b"

type_synonym mem_backend = "(bytes, bytes) btree_map"

definition mem_set :: "bytes \<Rightarrow> bytes option \<Rightarrow> mem_backend \<Rightarrow> mem_backend" where
  "mem_set key v m = (case v of Some x \<Rightarrow> bt_insert key x m | None \<Rightarrow> bt_remove key m)"

definition below_end :: "bytes option \<Rightarrow> bytes \<Rightarrow> bool" where
  "below_end e k = (case e of None \<Rightarrow> True | Some x \<Rightarrow> k < x)"

definition mem_scan :: "mem_backend \<Rightarrow> bytes \<Rightarrow> bytes option \<Rightarrow> nat \<Rightarrow> (bytes \<times> bytes) list" where
  "mem_scan m start e limit =
     take limit (takeWhile (\<lambda>(k, _). below_end e k) (filter (\<lambda>(k, _). start \<le> k) m))"

definition mem_clear_and_load :: "(bytes \<times> bytes) list \<Rightarrow> mem_backend \<Rightarrow> mem_backend" where
  "mem_clear_and_load kvs m = bt_collect kvs"

definition mem_backend :: "mem_backend backend" where
  "mem_backend = \<lparr>be_get = bt_get, be_set = mem_set, be_scan = mem_scan, be_dump = (\<lambda>m. m),
                  be_clear_and_load = mem_clear_and_load\<rparr>"

section \<open>The state machine\<close>

record 'b state_machine =
  sm_backend :: 'b
  sm_sessions :: "(nat, session_state) btree_map"

definition sm_new :: "'b \<Rightarrow> 'b state_machine" where
  "sm_new b = \<lparr>sm_backend = b, sm_sessions = bt_empty\<rparr>"

fun execute :: "'b backend \<Rightarrow> op \<Rightarrow> 'b \<Rightarrow> op_result \<times> 'b" where
  "execute B (Put key v) b = (OpOk, be_set B key (Some v) b)"
| "execute B (Delete key) b = (OpOk, be_set B key None b)"
| "execute B (Cas key expect new) b =
     (let actual = be_get B b key
      in if actual = expect then (OpCas True actual, be_set B key new b)
         else (OpCas False actual, b))"
| "execute B (Get key) b = (OpValue (be_get B b key), b)"

definition execute_and_record ::
    "'b backend \<Rightarrow> command \<Rightarrow> 'b state_machine \<Rightarrow> op_result \<times> 'b state_machine" where
  "execute_and_record B cmd sm =
     (let (result, b) = execute B (cmd_op cmd) (sm_backend sm);
          sm1 = sm\<lparr>sm_backend := b\<rparr>
      in (result,
          if cmd_session cmd \<noteq> 0
          then sm1\<lparr>sm_sessions := bt_insert (cmd_session cmd)
                     \<lparr>last_seq = cmd_seq cmd, last_result = result\<rparr> (sm_sessions sm1)\<rparr>
          else sm1))"

definition sm_apply :: "'b backend \<Rightarrow> command \<Rightarrow> 'b state_machine \<Rightarrow> op_result \<times> 'b state_machine" where
  "sm_apply B cmd sm =
     (if cmd_session cmd \<noteq> 0
      then (case bt_get (sm_sessions sm) (cmd_session cmd) of
              Some s \<Rightarrow>
                if cmd_seq cmd = last_seq s then (last_result s, sm)
                else if cmd_seq cmd < last_seq s then (OpStale, sm)
                else execute_and_record B cmd sm
            | None \<Rightarrow> execute_and_record B cmd sm)
      else execute_and_record B cmd sm)"

definition sm_read :: "'b backend \<Rightarrow> 'b state_machine \<Rightarrow> bytes \<Rightarrow> bytes option" where
  "sm_read B sm key = be_get B (sm_backend sm) key"

definition sm_read_range ::
    "'b backend \<Rightarrow> 'b state_machine \<Rightarrow> bytes \<Rightarrow> bytes option \<Rightarrow> nat \<Rightarrow> (bytes \<times> bytes) list" where
  "sm_read_range B sm start e limit = be_scan B (sm_backend sm) start e limit"

definition sm_payload :: "'b backend \<Rightarrow> ((nat \<times> session_state) list \<Rightarrow> (nat \<times> session_state) list) \<Rightarrow>
    'b state_machine \<Rightarrow> snapshot_payload" where
  "sm_payload B iter sm =
     \<lparr>pl_kvs = be_dump B (sm_backend sm), pl_sessions = sort_key fst (iter (sm_sessions sm))\<rparr>"

definition sm_snapshot :: "'b backend \<Rightarrow> (snapshot_payload \<Rightarrow> bytes) \<Rightarrow>
    ((nat \<times> session_state) list \<Rightarrow> (nat \<times> session_state) list) \<Rightarrow> 'b state_machine \<Rightarrow> bytes" where
  "sm_snapshot B enc iter sm = enc (sm_payload B iter sm)"

definition sm_restore :: "'b backend \<Rightarrow> (bytes \<Rightarrow> snapshot_payload option) \<Rightarrow> bytes \<Rightarrow>
    'b state_machine \<Rightarrow> 'b state_machine option" where
  "sm_restore B dec data sm =
     (case dec data of
        None \<Rightarrow> None
      | Some p \<Rightarrow> Some \<lparr>sm_backend = be_clear_and_load B (pl_kvs p) (sm_backend sm),
                        sm_sessions = bt_collect (pl_sessions p)\<rparr>)"

text \<open>A whole log of commands, applied in order.\<close>

definition sm_run :: "'b backend \<Rightarrow> command list \<Rightarrow> 'b state_machine \<Rightarrow> 'b state_machine" where
  "sm_run B cmds sm = fold (\<lambda>c s. snd (sm_apply B c s)) cmds sm"

section \<open>The abstract key-value store\<close>

text \<open>
  What clients are promised: a map and a table of the last answered request per session. The
  operations on it are the specification the state machine refines.
\<close>

type_synonym kv_state = "(bytes \<rightharpoonup> bytes) \<times> (nat \<rightharpoonup> session_state)"

fun kv_execute :: "op \<Rightarrow> (bytes \<rightharpoonup> bytes) \<Rightarrow> op_result \<times> (bytes \<rightharpoonup> bytes)" where
  "kv_execute (Put k v) m = (OpOk, m(k \<mapsto> v))"
| "kv_execute (Delete k) m = (OpOk, m(k := None))"
| "kv_execute (Cas k expect new) m =
     (if m k = expect then (OpCas True (m k), m(k := new)) else (OpCas False (m k), m))"
| "kv_execute (Get k) m = (OpValue (m k), m)"

definition kv_record :: "command \<Rightarrow> kv_state \<Rightarrow> op_result \<times> kv_state" where
  "kv_record c st =
     (let (r, m) = kv_execute (cmd_op c) (fst st)
      in (r, m, if cmd_session c = 0 then snd st
                else (snd st)(cmd_session c \<mapsto> \<lparr>last_seq = cmd_seq c, last_result = r\<rparr>)))"

definition kv_apply :: "command \<Rightarrow> kv_state \<Rightarrow> op_result \<times> kv_state" where
  "kv_apply c st =
     (case (if cmd_session c = 0 then None else snd st (cmd_session c)) of
        Some s \<Rightarrow>
          if cmd_seq c = last_seq s then (last_result s, st)
          else if cmd_seq c < last_seq s then (OpStale, st)
          else kv_record c st
      | None \<Rightarrow> kv_record c st)"

text \<open>The commands of a log that the dedup table lets through.\<close>

fun effective :: "(nat \<rightharpoonup> nat) \<Rightarrow> command list \<Rightarrow> command list" where
  "effective seqs [] = []"
| "effective seqs (c # cs) =
     (if cmd_session c = 0 then c # effective seqs cs
      else case seqs (cmd_session c) of
             Some q \<Rightarrow> if cmd_seq c \<le> q then effective seqs cs
                       else c # effective (seqs(cmd_session c \<mapsto> cmd_seq c)) cs
           | None \<Rightarrow> c # effective (seqs(cmd_session c \<mapsto> cmd_seq c)) cs)"

definition seqs_of :: "'b state_machine \<Rightarrow> nat \<rightharpoonup> nat" where
  "seqs_of sm = (\<lambda>i. map_option last_seq (bt_get (sm_sessions sm) i))"

section \<open>Dedup\<close>

lemma execute_and_record_sessions:
  "sm_sessions (snd (execute_and_record B c sm)) =
     (if cmd_session c = 0 then sm_sessions sm
      else bt_insert (cmd_session c)
        \<lparr>last_seq = cmd_seq c, last_result = fst (execute_and_record B c sm)\<rparr> (sm_sessions sm))"
  by (simp add: execute_and_record_def Let_def case_prod_beta)

lemma sm_apply_cases:
  obtains (dup) s where "cmd_session c \<noteq> 0" "bt_get (sm_sessions sm) (cmd_session c) = Some s"
      "cmd_seq c = last_seq s" "sm_apply B c sm = (last_result s, sm)"
  | (stale) s where "cmd_session c \<noteq> 0" "bt_get (sm_sessions sm) (cmd_session c) = Some s"
      "cmd_seq c < last_seq s" "sm_apply B c sm = (OpStale, sm)"
  | (fresh) "cmd_session c = 0 \<or> bt_get (sm_sessions sm) (cmd_session c) = None \<or>
        (\<exists>s. bt_get (sm_sessions sm) (cmd_session c) = Some s \<and> last_seq s < cmd_seq c)"
      "sm_apply B c sm = execute_and_record B c sm"
proof (cases "cmd_session c = 0 \<or> bt_get (sm_sessions sm) (cmd_session c) = None")
  case True
  then show thesis using fresh unfolding sm_apply_def by auto
next
  case False
  then obtain s where s: "cmd_session c \<noteq> 0" "bt_get (sm_sessions sm) (cmd_session c) = Some s" by auto
  then show thesis
    using dup [OF s] stale [OF s] fresh unfolding sm_apply_def
    by (cases "cmd_seq c" "last_seq s" rule: linorder_cases) auto
qed

lemma seqs_of_record:
  "cmd_session c \<noteq> 0 \<Longrightarrow>
   seqs_of (snd (execute_and_record B c sm)) = (seqs_of sm)(cmd_session c \<mapsto> cmd_seq c)"
  by (rule ext) (simp add: seqs_of_def execute_and_record_sessions)

lemma seqs_of_record0: "cmd_session c = 0 \<Longrightarrow> seqs_of (snd (execute_and_record B c sm)) = seqs_of sm"
  by (simp add: seqs_of_def execute_and_record_sessions)

lemma sm_run_effective: "sm_run B cmds sm = sm_run B (effective (seqs_of sm) cmds) sm"
proof (induction cmds arbitrary: sm)
  case (Cons c cmds)
  have seqs: "seqs_of sm (cmd_session c) = map_option last_seq (bt_get (sm_sessions sm) (cmd_session c))"
    by (simp add: seqs_of_def)
  show ?case
  proof (cases rule: sm_apply_cases [of c sm B])
    case (dup s)
    then show ?thesis using Cons.IH [of sm] seqs by (simp add: sm_run_def)
  next
    case (stale s)
    then show ?thesis using Cons.IH [of sm] seqs by (simp add: sm_run_def)
  next
    case fresh
    show ?thesis
    proof (cases "cmd_session c = 0")
      case True
      then show ?thesis
        using fresh(2) Cons.IH [of "snd (execute_and_record B c sm)"]
        by (simp add: sm_run_def seqs_of_record0)
    next
      case False
      then have "effective (seqs_of sm) (c # cmds) =
          c # effective ((seqs_of sm)(cmd_session c \<mapsto> cmd_seq c)) cmds"
        using fresh(1) seqs by (auto split: option.splits)
      moreover have "sm_run B (c # cs) sm = sm_run B cs (snd (execute_and_record B c sm))" for cs
        by (simp add: sm_run_def fresh(2))
      ultimately show ?thesis
        using Cons.IH [of "snd (execute_and_record B c sm)"] seqs_of_record [OF False, of B sm] by metis
    qed
  qed
qed (simp add: sm_run_def)

lemma bt_ok_sm_apply: "bt_ok (sm_sessions sm) \<Longrightarrow> bt_ok (sm_sessions (snd (sm_apply B c sm)))"
  by (cases rule: sm_apply_cases [of c sm B]) (simp_all add: execute_and_record_sessions)

section \<open>Canonical snapshots\<close>

lemma sort_key_iter:
  assumes "bt_ok m" and "mset (iter m) = mset m"
  shows "sort_key fst (iter m) = m"
proof (rule bt_ok_eqI)
  have "mset (map fst (sort_key fst (iter m))) = mset (map fst m)" using assms(2) by simp
  then have "distinct (map fst (sort_key fst (iter m)))"
    using bt_ok_distinct [OF assms(1)] mset_eq_imp_distinct_iff by blast
  then show ok: "bt_ok (sort_key fst (iter m))" by (simp add: bt_ok_def strict_sorted_iff)
  have "set (sort_key fst (iter m)) = set m" using mset_eq_setD [OF assms(2)] by simp
  then show "bt_get (sort_key fst (iter m)) k = bt_get m k" for k
    using bt_get_Some_iff [OF ok] bt_get_Some_iff [OF assms(1)] by (metis not_None_eq)
qed (rule assms(1))

section \<open>What a backend promises\<close>

locale kv_backend =
  fixes B :: "'b backend" and abs :: "'b \<Rightarrow> bytes \<rightharpoonup> bytes" and ok :: "'b \<Rightarrow> bool"
  assumes get_abs: "ok b \<Longrightarrow> be_get B b = abs b"
    and set_abs: "ok b \<Longrightarrow> abs (be_set B k v b) = (abs b)(k := v)"
    and set_ok: "ok b \<Longrightarrow> ok (be_set B k v b)"
    and dump_sorted: "ok b \<Longrightarrow> sorted_wrt (<) (map fst (be_dump B b))"
    and dump_abs: "ok b \<Longrightarrow> map_of (be_dump B b) = abs b"
    and load_abs: "ok b \<Longrightarrow> abs (be_clear_and_load B kvs b) = map_of (rev kvs)"
    and load_ok: "ok b \<Longrightarrow> ok (be_clear_and_load B kvs b)"
    and scan_dump: "ok b \<Longrightarrow>
      be_scan B b s e n = take n (filter (\<lambda>(k, _). s \<le> k \<and> below_end e k) (be_dump B b))"
begin

definition sm_ok :: "'b state_machine \<Rightarrow> bool" where
  "sm_ok sm \<longleftrightarrow> ok (sm_backend sm) \<and> bt_ok (sm_sessions sm)"

definition sm_abs :: "'b state_machine \<Rightarrow> kv_state" where
  "sm_abs sm = (abs (sm_backend sm), bt_get (sm_sessions sm))"

lemma execute_refines:
  assumes "ok b"
  shows "fst (execute B x b) = fst (kv_execute x (abs b))"
    and "abs (snd (execute B x b)) = snd (kv_execute x (abs b))"
    and "ok (snd (execute B x b))"
  using assms by (cases x; simp add: Let_def get_abs set_abs set_ok)+

lemma record_refines:
  assumes "sm_ok sm"
  shows "fst (execute_and_record B c sm) = fst (kv_record c (sm_abs sm))"
    and "sm_abs (snd (execute_and_record B c sm)) = snd (kv_record c (sm_abs sm))"
    and "sm_ok (snd (execute_and_record B c sm))"
proof -
  have ok: "ok (sm_backend sm)" using assms by (simp add: sm_ok_def)
  note e = execute_refines [OF ok, of "cmd_op c"]
  show r: "fst (execute_and_record B c sm) = fst (kv_record c (sm_abs sm))"
    by (simp add: execute_and_record_def kv_record_def case_prod_beta Let_def sm_abs_def e)
  have "bt_get (sm_sessions (snd (execute_and_record B c sm))) = snd (snd (kv_record c (sm_abs sm)))"
    using r by (auto simp: execute_and_record_sessions kv_record_def case_prod_beta Let_def sm_abs_def fun_eq_iff)
  moreover have b: "sm_backend (snd (execute_and_record B c sm)) = snd (execute B (cmd_op c) (sm_backend sm))"
    by (simp add: execute_and_record_def case_prod_beta Let_def)
  ultimately show "sm_abs (snd (execute_and_record B c sm)) = snd (kv_record c (sm_abs sm))"
    by (simp add: sm_abs_def e kv_record_def case_prod_beta Let_def)
  show "sm_ok (snd (execute_and_record B c sm))"
    using assms e(3) b by (simp add: sm_ok_def execute_and_record_sessions)
qed

lemma apply_refines:
  assumes "sm_ok sm"
  shows "fst (sm_apply B c sm) = fst (kv_apply c (sm_abs sm))"
    and "sm_abs (snd (sm_apply B c sm)) = snd (kv_apply c (sm_abs sm))"
    and "sm_ok (snd (sm_apply B c sm))"
proof -
  have "fst (sm_apply B c sm) = fst (kv_apply c (sm_abs sm)) \<and>
      sm_abs (snd (sm_apply B c sm)) = snd (kv_apply c (sm_abs sm)) \<and> sm_ok (snd (sm_apply B c sm))"
  proof (cases rule: sm_apply_cases [of c sm B])
    case fresh
    then have "kv_apply c (sm_abs sm) = kv_record c (sm_abs sm)"
      by (auto simp: kv_apply_def sm_abs_def)
    then show ?thesis using fresh(2) record_refines [OF assms] by simp
  qed (use assms in \<open>simp_all add: kv_apply_def sm_abs_def\<close>)
  then show "fst (sm_apply B c sm) = fst (kv_apply c (sm_abs sm))"
    "sm_abs (snd (sm_apply B c sm)) = snd (kv_apply c (sm_abs sm))" "sm_ok (snd (sm_apply B c sm))" by auto
qed

lemma dump_canonical: "ok b \<Longrightarrow> ok b' \<Longrightarrow> abs b = abs b' \<Longrightarrow> be_dump B b = be_dump B b'"
  using dump_sorted dump_abs by (intro bt_ok_eqI) (simp_all add: bt_ok_def bt_get_def)

text \<open>
  The bytes of a snapshot depend on the abstract state alone: not on how the backend got there, and
  not on the order in which the session table is iterated.
\<close>

lemma snapshot_canonical:
  assumes "sm_ok sm" and "sm_ok sm'" and "sm_abs sm = sm_abs sm'"
    and "mset (iter (sm_sessions sm)) = mset (sm_sessions sm)"
    and "mset (iter' (sm_sessions sm')) = mset (sm_sessions sm')"
  shows "sm_snapshot B enc iter sm = sm_snapshot B enc iter' sm'"
proof -
  have "sm_sessions sm = sm_sessions sm'"
    using assms(1-3) by (intro bt_ok_eqI) (simp_all add: sm_ok_def sm_abs_def)
  moreover have "sort_key fst (iter (sm_sessions sm)) = sm_sessions sm"
    by (rule sort_key_iter) (use assms(1,4) in \<open>simp_all add: sm_ok_def\<close>)
  moreover have "sort_key fst (iter' (sm_sessions sm')) = sm_sessions sm'"
    by (rule sort_key_iter) (use assms(2,5) in \<open>simp_all add: sm_ok_def\<close>)
  moreover have "be_dump B (sm_backend sm) = be_dump B (sm_backend sm')"
    by (rule dump_canonical) (use assms(1-3) in \<open>simp_all add: sm_ok_def sm_abs_def\<close>)
  ultimately show ?thesis unfolding sm_snapshot_def sm_payload_def by simp
qed

lemma map_of_rev_distinct: "distinct (map fst xs) \<Longrightarrow> map_of (rev xs) = map_of xs"
  by (metis distinct_rev map_of_inject_set rev_map set_rev)

lemma restore_snapshot:
  assumes "sm_ok sm" and "sm_ok sm'" and "mset (iter (sm_sessions sm)) = mset (sm_sessions sm)"
    and "\<And>p. dec (enc p) = Some p"
  shows "\<exists>r. sm_restore B dec (sm_snapshot B enc iter sm) sm' = Some r \<and> sm_abs r = sm_abs sm \<and> sm_ok r"
proof -
  have s: "sort_key fst (iter (sm_sessions sm)) = sm_sessions sm"
    by (rule sort_key_iter) (use assms(1,3) in \<open>simp_all add: sm_ok_def\<close>)
  have "distinct (map fst (be_dump B (sm_backend sm)))"
    using dump_sorted assms(1) by (auto simp: sm_ok_def strict_sorted_iff)
  then have "map_of (rev (be_dump B (sm_backend sm))) = abs (sm_backend sm)"
    using dump_abs assms(1) by (simp add: sm_ok_def map_of_rev_distinct)
  moreover have "bt_collect (sm_sessions sm) = sm_sessions sm"
    using assms(1) bt.lookup_load_entries bt.invar_load
    by (intro bt_ok_eqI) (auto simp: sm_ok_def bt_collect_def bt.load_def)
  ultimately show ?thesis
    using assms s load_abs load_ok
    by (simp add: sm_restore_def sm_snapshot_def sm_payload_def sm_ok_def sm_abs_def)
qed

end

lemma takeWhile_sorted_filter:
  assumes "sorted_wrt (<) (map fst (m :: (bytes \<times> bytes) list))"
  shows "takeWhile (\<lambda>(k, _). below_end e k) (filter (\<lambda>(k, _). s \<le> k) m) =
     filter (\<lambda>(k, _). s \<le> k \<and> below_end e k) m"
  using assms
proof (induction m)
  case (Cons kv m)
  obtain k v where kv: "kv = (k, v)" by (cases kv)
  show ?case
  proof (cases "s \<le> k \<and> \<not> below_end e k")
    case True
    then have "\<not> below_end e k'" if "(k', v') \<in> set m" for k' v'
      using Cons.prems that kv by (force simp: below_end_def split: option.splits)
    then have "filter (\<lambda>(k, _). s \<le> k \<and> below_end e k) m = []" by (auto simp: filter_empty_conv)
    then show ?thesis using True by (simp add: kv)
  next
    case False
    then show ?thesis using Cons by (auto simp: kv)
  qed
qed simp

lemma mem_load: "bt_get (bt_collect kvs) = map_of (rev kvs)" "bt_ok (bt_collect kvs)"
  using bt.fold_insert [OF bt.invar_empty, of kvs]
  by (auto simp: bt_collect_def fun_eq_iff split: option.splits)

interpretation mem: kv_backend mem_backend bt_get bt_ok
  by unfold_locales
    (auto simp: mem_backend_def mem_set_def mem_scan_def mem_clear_and_load_def fun_eq_iff bt_ok_def [symmetric]
      bt_get_def [symmetric] mem_load takeWhile_sorted_filter [unfolded bt_ok_def [symmetric]] split: option.splits)

end
