(* ===== verification/Sim_History.thy ===== *)
theory Sim_History
  imports Prelude
begin

text \<open>
  \<open>crates/sim/src/history.rs\<close>: client operations, their results, the records of a run, and how a
  register value is stored as bytes.
\<close>

datatype h_op =
    HRead "8 word"
  | HWrite "8 word" nat
  | HCas "8 word" "nat option" nat

fun h_key :: "h_op \<Rightarrow> 8 word" where
  "h_key (HRead k) = k"
| "h_key (HWrite k _) = k"
| "h_key (HCas k _ _) = k"

datatype h_res = ReadOk "nat option" | WriteOk | CasOk bool

record h_record =
  hr_client :: nat
  hr_invoke :: nat
  hr_ret :: "nat option"
  hr_op :: h_op
  hr_result :: "h_res option"

definition encode_val :: "nat \<Rightarrow> bytes" where
  "encode_val v = u64_le v"

definition decode_val :: "bytes \<Rightarrow> nat" where
  "decode_val bs = le_nat (take (min (length bs) 8) bs @ replicate (8 - min (length bs) 8) 0)"

lemma decode_encode_val: "v < 2 ^ 64 \<Longrightarrow> decode_val (encode_val v) = v"
  by (simp add: decode_val_def encode_val_def)

end
