(* ===== verification/Sim_Cluster.thy ===== *)
theory Sim_Cluster
  imports Raft_Refine_Step Kvsm Sim_History
begin

text \<open>
  \<open>crates/sim/src/cluster.rs\<close>: the deterministic simulator as a state machine over whole clusters.
  What the simulator draws from its random generator (which message arrives when, or twice, or
  never; when nodes tick, crash and restart; how links are cut) is the choice of the next event: a
  message once sent may be delivered at any later point, any number of times. The simulator's
  assertions, the \<open>expect\<close>s and the panics of the raft core are values of \<open>sim_abort\<close>.
\<close>

section \<open>State\<close>

text \<open>The code the sources only call: \<open>bincode\<close> for commands and snapshots, hash map iteration.\<close>

record sim_env =
  enc_cmd :: "command \<Rightarrow> bytes"
  dec_cmd :: "bytes \<Rightarrow> command option"
  enc_snap :: "snapshot_payload \<Rightarrow> bytes"
  dec_snap :: "bytes \<Rightarrow> snapshot_payload option"
  hash_iter :: "(nat \<times> session_state) list \<Rightarrow> (nat \<times> session_state) list"

record sim_config =
  sc_seed :: "64 word"
  sc_nodes :: nat
  sc_snapshot_every :: nat

datatype c_req =
    ReqWrite nat "8 word" nat
  | ReqCas nat "8 word" "nat option" nat
  | ReqRead nat "8 word"

datatype c_resp =
    Retry nat "node_id option"
  | WriteDone nat op_result
  | ReadDone nat "nat option"

record sim_node =
  sn_id :: node_id
  sn_up :: bool
  sn_raft :: "raft_node option"
  sn_sm :: "mem_backend state_machine"
  sn_applied :: index
  sn_applied_since_snap :: nat
  sn_next_read_id :: nat
  sn_pending_reads :: "(nat, nat \<times> nat \<times> 8 word) btree_map"
  sn_ready_reads :: "(nat \<times> index) list"
  sn_waiting_writes :: "(nat \<times> nat, unit) btree_map"
  sn_disk :: persisted
  sn_restarts :: nat

record sim =
  sim_nodes :: "sim_node list"
  sim_net :: "message set"
  sim_resps :: "(nat \<times> c_resp) set"
  sim_blocked :: "(node_id \<times> node_id) set"
  sim_leaders :: "(raft_term, node_id) btree_map"
  sim_applied :: "(index, entry) btree_map"

datatype sim_abort =
    RaftAbort raft_panic
  | StateMachineSafety index
  | ElectionSafety raft_term
  | CommandDecode
  | SnapshotDecode
  | LogMatching index raft_term
  | NoRaft

definition sim_voters :: "sim_config \<Rightarrow> node_id list" where
  "sim_voters c = [1..<sc_nodes c + 1]"

definition node_cfg :: "sim_config \<Rightarrow> node_id \<Rightarrow> nat \<Rightarrow> config" where
  "node_cfg c i restarts =
     config_new i (sc_seed c * 0x9E3779B97F4A7C15 + word_of_nat (i * 1000003 + restarts * 7))"

definition boot_node :: "sim_config \<Rightarrow> node_id \<Rightarrow> sim_node" where
  "boot_node c i =
     \<lparr>sn_id = i, sn_up = True,
      sn_raft = Some (raft_node_new (node_cfg c i 0) (sim_voters c) persisted_default),
      sn_sm = sm_new bt_empty, sn_applied = 0, sn_applied_since_snap = 0, sn_next_read_id = 1,
      sn_pending_reads = bt_empty, sn_ready_reads = [], sn_waiting_writes = bt_empty,
      sn_disk = persisted_default, sn_restarts = 0\<rparr>"

definition boot :: "sim_config \<Rightarrow> sim" where
  "boot c =
     \<lparr>sim_nodes = map (boot_node c) (sim_voters c), sim_net = {}, sim_resps = {}, sim_blocked = {},
      sim_leaders = bt_empty, sim_applied = bt_empty\<rparr>"

section \<open>Draining the output of a node\<close>

text \<open>(1) Durable state, and the state machine when a snapshot was installed.\<close>

definition persist_stage :: "sim_env \<Rightarrow> raft_output \<Rightarrow> sim_node \<Rightarrow> sim_abort + sim_node" where
  "persist_stage E o' n =
     (let n1 = n\<lparr>sn_disk := persist_output o' (sn_disk n)\<rparr> in
      case o_snapshot o' of
        None \<Rightarrow> Inr n1
      | Some snap \<Rightarrow>
          (case sm_restore mem_backend (dec_snap E) (s_data snap) (sn_sm n1) of
             None \<Rightarrow> Inl SnapshotDecode
           | Some sm \<Rightarrow> Inr (n1\<lparr>sn_sm := sm, sn_applied := s_last_index snap, sn_applied_since_snap := 0\<rparr>)))"

text \<open>(2) One committed entry: the state-machine safety check, the apply, the answer to a waiting client.\<close>

definition check_applied :: "entry \<Rightarrow> (index, entry) btree_map \<Rightarrow> sim_abort + (index, entry) btree_map" where
  "check_applied e ag =
     (case bt_get ag (e_index e) of
        Some prev \<Rightarrow> if prev = e then Inr ag else Inl (StateMachineSafety (e_index e))
      | None \<Rightarrow> Inr (bt_insert (e_index e) e ag))"

definition apply_cmd :: "command \<Rightarrow> sim_node \<Rightarrow> sim_node \<times> (nat \<times> c_resp) list" where
  "apply_cmd cmd n =
     (let (result, sm) = sm_apply mem_backend cmd (sn_sm n);
          n1 = n\<lparr>sn_sm := sm\<rparr>;
          key = (cmd_session cmd, cmd_seq cmd)
      in if cmd_session cmd \<noteq> 0 \<and> bt_get (sn_waiting_writes n1) key \<noteq> None
         then (n1\<lparr>sn_waiting_writes := bt_remove key (sn_waiting_writes n1)\<rparr>,
               [(cmd_session cmd - 101, WriteDone (cmd_seq cmd) result)])
         else (n1, []))"

definition apply_entry :: "sim_env \<Rightarrow> entry \<Rightarrow> sim_node \<times> (index, entry) btree_map \<times> (nat \<times> c_resp) list \<Rightarrow>
    sim_abort + (sim_node \<times> (index, entry) btree_map \<times> (nat \<times> c_resp) list)" where
  "apply_entry E e st =
     (case st of (n, ag, rs) \<Rightarrow>
       case check_applied e ag of
         Inl a \<Rightarrow> Inl a
       | Inr ag' \<Rightarrow>
           let done = (\<lambda>(m, rs'). Inr (m\<lparr>sn_applied := e_index e,
                         sn_applied_since_snap := sn_applied_since_snap m + 1\<rparr>, ag', rs @ rs'))
           in case e_payload e of
                Normal data \<Rightarrow>
                  (case dec_cmd E data of
                     None \<Rightarrow> Inl CommandDecode
                   | Some cmd \<Rightarrow> done (apply_cmd cmd n))
              | _ \<Rightarrow> done (n, []))"

fun apply_entries :: "sim_env \<Rightarrow> entry list \<Rightarrow> sim_node \<times> (index, entry) btree_map \<times> (nat \<times> c_resp) list \<Rightarrow>
    sim_abort + (sim_node \<times> (index, entry) btree_map \<times> (nat \<times> c_resp) list)" where
  "apply_entries E [] st = Inr st"
| "apply_entries E (e # es) st =
     (case apply_entry E e st of Inl a \<Rightarrow> Inl a | Inr st' \<Rightarrow> apply_entries E es st')"

text \<open>Log compaction after enough applied entries.\<close>

definition compact_stage :: "sim_env \<Rightarrow> sim_config \<Rightarrow> sim_node \<Rightarrow> sim_abort + sim_node" where
  "compact_stage E c n =
     (if sc_snapshot_every c \<le> sn_applied_since_snap n
      then case sn_raft n of
             None \<Rightarrow> Inl NoRaft
           | Some r \<Rightarrow>
               let data = sm_snapshot mem_backend (enc_snap E) (hash_iter E) (sn_sm n)
               in (case compact (sn_applied n) data r of
                     (Some snap, r') \<Rightarrow>
                       Inr (n\<lparr>sn_raft := Some r', sn_disk := disk_compact snap (sn_disk n),
                              sn_applied_since_snap := 0\<rparr>)
                   | (None, r') \<Rightarrow> Inr (n\<lparr>sn_raft := Some r', sn_applied_since_snap := 0\<rparr>))
      else Inr n)"

text \<open>(3) Reads whose round completed and whose index is applied.\<close>

fun serve_reads :: "index \<Rightarrow> mem_backend state_machine \<Rightarrow> (nat \<times> index) list \<Rightarrow>
    (nat, nat \<times> nat \<times> 8 word) btree_map \<Rightarrow>
    (nat \<times> index) list \<times> (nat, nat \<times> nat \<times> 8 word) btree_map \<times> (nat \<times> c_resp) list" where
  "serve_reads applied sm [] pending = ([], pending, [])"
| "serve_reads applied sm ((rid, idx) # rest) pending =
     (if idx \<le> applied
      then case bt_get pending rid of
             Some (client, op_ts, key) \<Rightarrow>
               let v = map_option decode_val (sm_read mem_backend sm [key]);
                   (waiting, pending', rs) = serve_reads applied sm rest (bt_remove rid pending)
               in (waiting, pending', (client, ReadDone op_ts v) # rs)
           | None \<Rightarrow> serve_reads applied sm rest pending
      else let (waiting, pending', rs) = serve_reads applied sm rest pending
           in ((rid, idx) # waiting, pending', rs))"

definition read_stage :: "raft_output \<Rightarrow> sim_node \<Rightarrow> sim_node \<times> (nat \<times> c_resp) list" where
  "read_stage o' n =
     (let (waiting, pending, rs) =
            serve_reads (sn_applied n) (sn_sm n) (sn_ready_reads n @ o_read_states o') (sn_pending_reads n)
      in (n\<lparr>sn_ready_reads := waiting, sn_pending_reads := pending\<rparr>, rs))"

text \<open>The election safety check.\<close>

definition check_leader :: "raft_node \<Rightarrow> (raft_term, node_id) btree_map \<Rightarrow>
    sim_abort + (raft_term, node_id) btree_map" where
  "check_leader r lb =
     (if role r = Leader
      then case bt_get lb (cur_term r) of
             Some other \<Rightarrow> if other = nid r then Inr lb else Inl (ElectionSafety (cur_term r))
           | None \<Rightarrow> Inr (bt_insert (cur_term r) (nid r) lb)
      else Inr lb)"

definition process_output :: "sim_env \<Rightarrow> sim_config \<Rightarrow> nat \<Rightarrow> sim \<Rightarrow> sim_abort + sim" where
  "process_output E c i s =
     (let n = sim_nodes s ! i in
      case sn_raft n of
        None \<Rightarrow> Inl NoRaft
      | Some r0 \<Rightarrow>
          let (o', r) = take_output r0 in
          case persist_stage E o' (n\<lparr>sn_raft := Some r\<rparr>) of
            Inl a \<Rightarrow> Inl a
          | Inr n1 \<Rightarrow>
              case apply_entries E (o_committed o') (n1, sim_applied s, []) of
                Inl a \<Rightarrow> Inl a
              | Inr (n2, ag, rs) \<Rightarrow>
                  case compact_stage E c n2 of
                    Inl a \<Rightarrow> Inl a
                  | Inr n3 \<Rightarrow>
                      let (n4, rs') = read_stage o' n3 in
                      case sn_raft n4 of
                        None \<Rightarrow> Inl NoRaft
                      | Some r' \<Rightarrow>
                          case check_leader r' (sim_leaders s) of
                            Inl a \<Rightarrow> Inl a
                          | Inr lb \<Rightarrow>
                              Inr (s\<lparr>sim_nodes := (sim_nodes s)[i := n4], sim_applied := ag,
                                     sim_resps := sim_resps s \<union> set (rs @ rs'),
                                     sim_net := sim_net s \<union> set (o_messages o'),
                                     sim_leaders := lb\<rparr>))"

section \<open>Events\<close>

definition set_raft :: "nat \<Rightarrow> raft_node \<Rightarrow> sim \<Rightarrow> sim" where
  "set_raft i r s = s\<lparr>sim_nodes := (sim_nodes s)[i := (sim_nodes s ! i)\<lparr>sn_raft := Some r\<rparr>]\<rparr>"

definition on_node_tick :: "sim_env \<Rightarrow> sim_config \<Rightarrow> node_id \<Rightarrow> sim \<Rightarrow> sim_abort + sim" where
  "on_node_tick E c node s =
     (let i = node - 1; n = sim_nodes s ! i in
      if sn_up n
      then case sn_raft n of
             None \<Rightarrow> Inl NoRaft
           | Some r \<Rightarrow> process_output E c i (set_raft i (tick r) s)
      else Inr s)"

definition on_raft_msg :: "sim_env \<Rightarrow> sim_config \<Rightarrow> message \<Rightarrow> sim \<Rightarrow> sim_abort + sim" where
  "on_raft_msg E c m s =
     (if (m_from m, m_to m) \<in> sim_blocked s then Inr s
      else let i = m_to m - 1; n = sim_nodes s ! i in
        if \<not> sn_up n then Inr s
        else case sn_raft n of
               None \<Rightarrow> Inl NoRaft
             | Some r \<Rightarrow>
                 (case step m r of
                    Inl p \<Rightarrow> Inl (RaftAbort p)
                  | Inr r' \<Rightarrow> process_output E c i (set_raft i r' s)))"

definition send_client_resp :: "nat \<Rightarrow> c_resp \<Rightarrow> sim \<Rightarrow> sim" where
  "send_client_resp client resp s = s\<lparr>sim_resps := insert (client, resp) (sim_resps s)\<rparr>"

definition try_propose :: "sim_env \<Rightarrow> sim_config \<Rightarrow> nat \<Rightarrow> nat \<Rightarrow> nat \<Rightarrow> nat \<Rightarrow> command \<Rightarrow> sim \<Rightarrow> sim_abort + sim" where
  "try_propose E c i client session sq cmd s =
     (let n = sim_nodes s ! i in
      case sn_raft n of
        None \<Rightarrow> Inl NoRaft
      | Some r \<Rightarrow>
          (case propose (enc_cmd E cmd) r of
             (Inr idx, r') \<Rightarrow>
               process_output E c i (s\<lparr>sim_nodes := (sim_nodes s)[i := n\<lparr>sn_raft := Some r',
                 sn_waiting_writes := bt_insert (session, sq) () (sn_waiting_writes n)\<rparr>]\<rparr>)
           | (Inl (NotLeader hint), r') \<Rightarrow> Inr (send_client_resp client (Retry sq hint) (set_raft i r' s))
           | (Inl _, r') \<Rightarrow> Inr (send_client_resp client (Retry sq (Some (sn_id n))) (set_raft i r' s))))"

definition on_client_read :: "sim_env \<Rightarrow> sim_config \<Rightarrow> nat \<Rightarrow> node_id \<Rightarrow> nat \<Rightarrow> 8 word \<Rightarrow> sim \<Rightarrow> sim_abort + sim" where
  "on_client_read E c client node op_ts key s =
     (let i = node - 1; n = sim_nodes s ! i; rid = sn_next_read_id n in
      case sn_raft n of
        None \<Rightarrow> Inl NoRaft
      | Some r \<Rightarrow>
          (case read_index rid r of
             (Inr u, r') \<Rightarrow>
               process_output E c i (s\<lparr>sim_nodes := (sim_nodes s)[i := n\<lparr>sn_raft := Some r',
                 sn_next_read_id := rid + 1,
                 sn_pending_reads := bt_insert rid (client, op_ts, key) (sn_pending_reads n)\<rparr>]\<rparr>)
           | (Inl err, r') \<Rightarrow>
               Inr (send_client_resp client
                      (Retry op_ts (case err of NotLeader hint \<Rightarrow> hint | _ \<Rightarrow> Some node))
                      (s\<lparr>sim_nodes := (sim_nodes s)[i := n\<lparr>sn_raft := Some r', sn_next_read_id := rid + 1\<rparr>]\<rparr>))))"

definition on_client_req :: "sim_env \<Rightarrow> sim_config \<Rightarrow> nat \<Rightarrow> node_id \<Rightarrow> c_req \<Rightarrow> sim \<Rightarrow> sim_abort + sim" where
  "on_client_req E c client node req s =
     (let i = node - 1; session = 100 + client + 1 in
      if \<not> sn_up (sim_nodes s ! i) then Inr s
      else case req of
             ReqWrite sq key v \<Rightarrow>
               try_propose E c i client session sq
                 \<lparr>cmd_session = session, cmd_seq = sq, cmd_op = Put [key] (encode_val v)\<rparr> s
           | ReqCas sq key expect new \<Rightarrow>
               try_propose E c i client session sq
                 \<lparr>cmd_session = session, cmd_seq = sq,
                  cmd_op = Cas [key] (map_option encode_val expect) (Some (encode_val new))\<rparr> s
           | ReqRead op_ts key \<Rightarrow> on_client_read E c client node op_ts key s)"

definition crash :: "node_id \<Rightarrow> sim \<Rightarrow> sim" where
  "crash node s =
     (let i = node - 1; n = sim_nodes s ! i in
      if \<not> sn_up n then s
      else s\<lparr>sim_nodes := (sim_nodes s)[i := n\<lparr>sn_up := False, sn_raft := None, sn_sm := sm_new bt_empty,
               sn_applied := 0, sn_applied_since_snap := 0, sn_pending_reads := bt_empty,
               sn_ready_reads := [], sn_waiting_writes := bt_empty\<rparr>]\<rparr>)"

definition on_restart :: "sim_env \<Rightarrow> sim_config \<Rightarrow> node_id \<Rightarrow> sim \<Rightarrow> sim_abort + sim" where
  "on_restart E c node s =
     (let i = node - 1; n = sim_nodes s ! i in
      if sn_up n then Inr s
      else let restarts = sn_restarts n + 1;
               r = raft_node_new (node_cfg c node restarts) (sim_voters c) (sn_disk n);
               n1 = n\<lparr>sn_restarts := restarts, sn_raft := Some r\<rparr>
           in case (case p_snapshot (sn_disk n1) of
                      None \<Rightarrow> Inr n1
                    | Some snap \<Rightarrow>
                        (case sm_restore mem_backend (dec_snap E) (s_data snap) (sn_sm n1) of
                           None \<Rightarrow> Inl SnapshotDecode
                         | Some sm \<Rightarrow> Inr (n1\<lparr>sn_sm := sm, sn_applied := s_last_index snap\<rparr>))) of
                Inl a \<Rightarrow> Inl a
              | Inr n2 \<Rightarrow> process_output E c i (s\<lparr>sim_nodes := (sim_nodes s)[i := n2\<lparr>sn_up := True\<rparr>]\<rparr>))"

text \<open>The split is the one the simulator draws: link directions from \<open>a\<close> to \<open>b\<close>, and back unless asymmetric.\<close>

definition start_partition :: "node_id list \<Rightarrow> node_id list \<Rightarrow> bool \<Rightarrow> sim \<Rightarrow> sim" where
  "start_partition a b asymmetric s =
     s\<lparr>sim_blocked := sim_blocked s \<union> set (List.product a b) \<union>
         (if asymmetric then {} else set (List.product b a))\<rparr>"

datatype sim_event =
    NodeTick node_id
  | RaftMsg message
  | ClientReq nat node_id c_req
  | Crash node_id
  | Restart node_id
  | StartPartition "node_id list" "node_id list" bool
  | HealPartition

fun sim_handle :: "sim_env \<Rightarrow> sim_config \<Rightarrow> sim_event \<Rightarrow> sim \<Rightarrow> sim_abort + sim" where
  "sim_handle E c (NodeTick i) s = on_node_tick E c i s"
| "sim_handle E c (RaftMsg m) s = on_raft_msg E c m s"
| "sim_handle E c (ClientReq client node req) s = on_client_req E c client node req s"
| "sim_handle E c (Crash i) s = Inr (crash i s)"
| "sim_handle E c (Restart i) s = on_restart E c i s"
| "sim_handle E c (StartPartition a b asy) s = Inr (start_partition a b asy s)"
| "sim_handle E c HealPartition s = Inr (s\<lparr>sim_blocked := {}\<rparr>)"

text \<open>Which events the event queue can hold: nodes exist, and messages were sent.\<close>

fun enabled :: "sim_config \<Rightarrow> sim \<Rightarrow> sim_event \<Rightarrow> bool" where
  "enabled c s (NodeTick i) = (i \<in> set (sim_voters c))"
| "enabled c s (RaftMsg m) = (m \<in> sim_net s)"
| "enabled c s (ClientReq client node req) = (node \<in> set (sim_voters c))"
| "enabled c s (Crash i) = (i \<in> set (sim_voters c))"
| "enabled c s (Restart i) = (i \<in> set (sim_voters c))"
| "enabled c s (StartPartition a b asy) = True"
| "enabled c s HealPartition = True"

inductive sim_reach :: "sim_env \<Rightarrow> sim_config \<Rightarrow> sim \<Rightarrow> bool" for E :: sim_env and c :: sim_config where
  boot: "sim_reach E c (boot c)"
| event: "sim_reach E c s \<Longrightarrow> enabled c s ev \<Longrightarrow> sim_handle E c ev s = Inr s' \<Longrightarrow> sim_reach E c s'"

definition sim_step :: "sim_env \<Rightarrow> sim_config \<Rightarrow> sim \<Rightarrow> sim \<Rightarrow> bool" where
  "sim_step E c s s' \<longleftrightarrow> (\<exists>ev. enabled c s ev \<and> sim_handle E c ev s = Inr s')"

text \<open>The sampled log matching check over the nodes that are up.\<close>

fun match_log :: "raft_log \<Rightarrow> index list \<Rightarrow> (index \<times> raft_term, entry) btree_map \<Rightarrow>
    sim_abort + (index \<times> raft_term, entry) btree_map" where
  "match_log l [] seen = Inr seen"
| "match_log l (idx # rest) seen =
     (case log_get l idx of
        None \<Rightarrow> match_log l rest seen
      | Some e \<Rightarrow>
          (case bt_get seen (idx, e_term e) of
             Some prev \<Rightarrow> if prev = e then match_log l rest seen else Inl (LogMatching idx (e_term e))
           | None \<Rightarrow> match_log l rest (bt_insert (idx, e_term e) e seen)))"

fun match_nodes :: "sim_node list \<Rightarrow> (index \<times> raft_term, entry) btree_map \<Rightarrow>
    sim_abort + (index \<times> raft_term, entry) btree_map" where
  "match_nodes [] seen = Inr seen"
| "match_nodes (n # ns) seen =
     (case sn_raft n of
        Some r \<Rightarrow>
          if sn_up n
          then (case match_log (rlog r) [first_index (rlog r)..<last_index (rlog r) + 1] seen of
                  Inl a \<Rightarrow> Inl a
                | Inr seen' \<Rightarrow> match_nodes ns seen')
          else match_nodes ns seen
      | None \<Rightarrow> match_nodes ns seen)"

definition check_log_matching :: "sim \<Rightarrow> sim_abort + (index \<times> raft_term, entry) btree_map" where
  "check_log_matching s = match_nodes (sim_nodes s) bt_empty"

end
