(* ===== verification/Sim_Safety.thy ===== *)
theory Sim_Safety
  imports Sim_Cluster
begin

text \<open>
  The simulated cluster is related to the abstract protocol node by node; every event keeps the
  relation and none of the simulator's assertions fires. The state machine of every node is the one
  obtained by applying the committed prefix to an empty store.
\<close>

section \<open>The invariant of the cluster\<close>

definition env_ok :: "sim_env \<Rightarrow> bool" where
  "env_ok E \<longleftrightarrow> (\<forall>c. dec_cmd E (enc_cmd E c) = Some c) \<and> (\<forall>p. dec_snap E (enc_snap E p) = Some p) \<and>
     (\<forall>xs. mset (hash_iter E xs) = mset xs)"

fun entry_cmds :: "sim_env \<Rightarrow> entry_payload \<Rightarrow> command list" where
  "entry_cmds E (Normal d) = (case dec_cmd E d of Some c \<Rightarrow> [c] | None \<Rightarrow> [])"
| "entry_cmds E _ = []"

text \<open>The state machine that has applied a log prefix.\<close>

definition sm_after :: "sim_env \<Rightarrow> entry list \<Rightarrow> mem_backend state_machine" where
  "sm_after E es = sm_run mem_backend (concat (map (entry_cmds E \<circ> e_payload) es)) (sm_new bt_empty)"

definition sim_ctx :: "sim_env \<Rightarrow> sim_config \<Rightarrow> node_id \<Rightarrow> persisted \<Rightarrow> index \<Rightarrow> sim_ctx" where
  "sim_ctx E c i d cm =
     \<lparr>x_vs = sim_voters c, x_ok = (\<lambda>d. dec_cmd E d \<noteq> None),
      x_data = (\<lambda>pfx. sm_snapshot mem_backend (enc_snap E) (hash_iter E) (sm_after E pfx)),
      x_disk = d, x_commit = cm, x_id = i\<rparr>"

definition up_inv :: "sim_env \<Rightarrow> sim_config \<Rightarrow> acluster \<Rightarrow> node_id \<Rightarrow> sim_node \<Rightarrow> bool" where
  "up_inv E c A i n \<longleftrightarrow> sn_up n \<and> sn_id n = i \<and>
     (\<exists>r. sn_raft n = Some r \<and> nsim (sim_ctx E c i (sn_disk n) (sn_applied n)) A r) \<and>
     sn_sm n = sm_after E (take (sn_applied n) (a_log (an A i)))"

definition node_inv :: "sim_env \<Rightarrow> sim_config \<Rightarrow> acluster \<Rightarrow> node_id \<Rightarrow> sim_node \<Rightarrow> bool" where
  "node_inv E c A i n \<longleftrightarrow>
     (if sn_up n
      then up_inv E c A i n \<and> (\<exists>r. sn_raft n = Some r \<and> out r = output_default \<and> sn_applied n = commit r)
      else sn_id n = i \<and> sn_raft n = None \<and> sn_sm n = sm_new bt_empty \<and> sn_applied n = 0 \<and>
        disk_rel (sim_ctx E c i (sn_disk n) 0) (an A i) (sn_disk n))"

text \<open>An entry that some node has applied is at that index of a committed prefix.\<close>

definition applied_ok :: "node_id set \<Rightarrow> acluster \<Rightarrow> index \<Rightarrow> entry \<Rightarrow> bool" where
  "applied_ok V A idx e \<longleftrightarrow> (\<exists>T l k. safe V A T l k \<and> 0 < idx \<and> idx \<le> k \<and> l ! (idx - 1) = e)"

definition world_inv :: "sim_env \<Rightarrow> sim_config \<Rightarrow> sim \<Rightarrow> acluster \<Rightarrow> bool" where
  "world_inv E c s A \<longleftrightarrow> length (sim_nodes s) = sc_nodes c \<and> ainv (set (sim_voters c)) A \<and>
     logs_ok (\<lambda>d. dec_cmd E d \<noteq> None) A \<and>
     (\<forall>m\<in>sim_net s. msg_rel (sim_ctx E c 0 persisted_default 0) (anet A) m) \<and>
     (\<forall>idx e. bt_get (sim_applied s) idx = Some e \<longrightarrow> applied_ok (set (sim_voters c)) A idx e) \<and>
     (\<forall>t j. bt_get (sim_leaders s) t = Some j \<longrightarrow> h_leader A t = Some j)"

definition sim_inv :: "sim_env \<Rightarrow> sim_config \<Rightarrow> sim \<Rightarrow> acluster \<Rightarrow> bool" where
  "sim_inv E c s A \<longleftrightarrow> world_inv E c s A \<and>
     (\<forall>i\<in>set (sim_voters c). node_inv E c A i (sim_nodes s ! (i - 1)))"

section \<open>State machines and snapshots of a prefix\<close>

lemma sm_after_ok: "mem.sm_ok (sm_after E es)"
proof -
  have "mem.sm_ok (sm_run mem_backend cs sm)" if "mem.sm_ok sm" for cs sm
    using that by (induction cs arbitrary: sm) (simp_all add: sm_run_def mem.apply_refines(3))
  then show ?thesis by (simp add: sm_after_def mem.sm_ok_def sm_new_def)
qed

lemma sm_after_snoc:
  "sm_after E (es @ [e]) = sm_run mem_backend (entry_cmds E (e_payload e)) (sm_after E es)"
  by (simp add: sm_after_def sm_run_def)

lemma mem_sm_eqI:
  assumes "mem.sm_ok a" and "mem.sm_ok b" and "mem.sm_abs a = mem.sm_abs b"
  shows "a = b"
proof -
  have "sm_backend a = sm_backend b" "sm_sessions a = sm_sessions b"
    using assms by (auto intro!: bt_ok_eqI simp: mem.sm_ok_def mem.sm_abs_def)
  then show ?thesis by simp
qed

lemma restore_after:
  assumes "env_ok E" and "mem.sm_ok sm"
  shows "sm_restore mem_backend (dec_snap E)
    (sm_snapshot mem_backend (enc_snap E) (hash_iter E) (sm_after E es)) sm = Some (sm_after E es)"
proof -
  have "mset (hash_iter E (sm_sessions (sm_after E es))) = mset (sm_sessions (sm_after E es))"
    "\<And>p. dec_snap E (enc_snap E p) = Some p"
    using assms(1) by (simp_all add: env_ok_def)
  then obtain r where r: "sm_restore mem_backend (dec_snap E)
      (sm_snapshot mem_backend (enc_snap E) (hash_iter E) (sm_after E es)) sm = Some r"
    "mem.sm_abs r = mem.sm_abs (sm_after E es)" "mem.sm_ok r"
    using mem.restore_snapshot [OF sm_after_ok assms(2)] by blast
  then show ?thesis using mem_sm_eqI [OF r(3) sm_after_ok r(2)] by simp
qed

lemma applied_agree:
  assumes "ainv V A" and "finite V" and "applied_ok V A idx e" and "safe V A T l k" and "idx \<le> k"
  shows "l ! (idx - 1) = e"
proof -
  obtain T' l' k' where s: "safe V A T' l' k'" "0 < idx" "idx \<le> k'" "l' ! (idx - 1) = e"
    using assms(3) unfolding applied_ok_def by blast
  have "take idx l = take idx l'"
    using safe_agree [OF assms(1,2) safe_le [OF assms(4,5)] safe_le [OF s(1,3)] order_refl] .
  then show ?thesis using s(2,4) take_eq_nth [of idx l l' "idx - 1"] by simp
qed

lemma applied_ok_ext: "applied_ok V A idx e \<Longrightarrow> ext A A' \<Longrightarrow> applied_ok V A' idx e"
  unfolding applied_ok_def using safe_selfI by blast

section \<open>Applying committed entries\<close>

lemma apply_cmd_sel:
  "sn_sm (fst (apply_cmd cmd n)) = snd (sm_apply mem_backend cmd (sn_sm n))"
  "sn_raft (fst (apply_cmd cmd n)) = sn_raft n" "sn_disk (fst (apply_cmd cmd n)) = sn_disk n"
  "sn_up (fst (apply_cmd cmd n)) = sn_up n" "sn_id (fst (apply_cmd cmd n)) = sn_id n"
  by (simp_all add: apply_cmd_def Let_def case_prod_beta)

definition same_host :: "sim_node \<Rightarrow> sim_node \<Rightarrow> bool" where
  "same_host n n' \<longleftrightarrow> sn_raft n' = sn_raft n \<and> sn_disk n' = sn_disk n \<and> sn_up n' = sn_up n \<and> sn_id n' = sn_id n"

lemma apply_entry_ok:
  assumes inv: "ainv V A" "finite V" and g: "safe V A T g k" and idx: "j < k" "e_index (g ! j) = Suc j"
    and pl: "payload_ok (\<lambda>d. dec_cmd E d \<noteq> None) (e_payload (g ! j))"
    and ag: "\<And>idx e. bt_get ag idx = Some e \<Longrightarrow> applied_ok V A idx e"
    and sm: "sn_sm n = sm_after E (take j g)"
  shows "\<exists>n' ag' rs'. apply_entry E (g ! j) (n, ag, rs) = Inr (n', ag', rs') \<and> same_host n n' \<and>
    sn_applied n' = Suc j \<and> sn_sm n' = sm_after E (take (Suc j) g) \<and>
    (\<forall>idx e. bt_get ag' idx = Some e \<longrightarrow> applied_ok V A idx e)"
proof -
  have kg: "j < length g" using g idx(1) unfolding safe_def by auto
  then have tk: "take (Suc j) g = take j g @ [g ! j]" by (rule take_Suc_conv_app_nth)
  have "applied_ok V A (Suc j) (g ! j)" unfolding applied_ok_def using g idx(1)
    by (intro exI [of _ T] exI [of _ g] exI [of _ k]) simp
  then obtain ag' where ck: "check_applied (g ! j) ag = Inr ag'"
    and ag': "\<And>idx e. bt_get ag' idx = Some e \<Longrightarrow> applied_ok V A idx e"
  proof (cases "bt_get ag (Suc j)")
    case None
    then have "check_applied (g ! j) ag = Inr (bt_insert (Suc j) (g ! j) ag)"
      by (simp add: check_applied_def idx(2))
    moreover have "applied_ok V A idx e" if "bt_get (bt_insert (Suc j) (g ! j) ag) idx = Some e" for idx e
      using that ag \<open>applied_ok V A (Suc j) (g ! j)\<close> by (auto split: if_splits)
    ultimately show ?thesis using that by blast
  next
    case (Some prev)
    have "g ! j = prev" using applied_agree [OF inv ag [OF Some] g] idx(1) by simp
    then have "check_applied (g ! j) ag = Inr ag" unfolding check_applied_def idx(2) Some by simp
    then show ?thesis using that ag by blast
  qed
  show ?thesis
  proof (cases "e_payload (g ! j)")
    case (Normal d)
    then obtain cmd where c: "dec_cmd E d = Some cmd" using pl by auto
    have "sm_after E (take (Suc j) g) = snd (sm_apply mem_backend cmd (sn_sm n))"
      unfolding tk sm_after_snoc sm using Normal c by (simp add: sm_run_def)
    then show ?thesis
      using ck ag' Normal c apply_cmd_sel [of cmd n]
      by (auto simp: apply_entry_def Let_def case_prod_beta idx(2) same_host_def)
  next
    case Noop
    then have "sm_after E (take (Suc j) g) = sn_sm n" unfolding tk sm_after_snoc sm by (simp add: sm_run_def)
    then show ?thesis using ck ag' Noop by (auto simp: apply_entry_def Let_def idx(2) same_host_def)
  next
    case (ConfChange cc)
    then show ?thesis using pl by simp
  qed
qed

lemma apply_entries_ok:
  assumes inv: "ainv V A" "finite V" and g: "safe V A T g k" and wf: "\<forall>j<length g. e_index (g ! j) = Suc j"
    and pl: "\<forall>e\<in>set g. payload_ok (\<lambda>d. dec_cmd E d \<noteq> None) (e_payload e)"
    and ag: "\<And>idx e. bt_get ag idx = Some e \<Longrightarrow> applied_ok V A idx e"
    and sm: "sn_sm n = sm_after E (take a g)" and a: "a \<le> k" "sn_applied n = a"
  shows "\<exists>n' ag' rs'. apply_entries E (drop a (take k g)) (n, ag, rs) = Inr (n', ag', rs') \<and> same_host n n' \<and>
    sn_applied n' = k \<and> sn_sm n' = sm_after E (take k g) \<and>
    (\<forall>idx e. bt_get ag' idx = Some e \<longrightarrow> applied_ok V A idx e)"
  using ag sm a
proof (induction "k - a" arbitrary: a n ag rs)
  case 0
  then show ?case by (simp add: same_host_def)
next
  case (Suc d)
  have lt: "a < k" using Suc.hyps(2) by simp
  have kg: "k \<le> length g" using g unfolding safe_def by simp
  have "drop a (take k g) = g ! a # drop (Suc a) (take k g)"
    using lt kg by (metis Cons_nth_drop_Suc length_take min.absorb2 nth_take)
  moreover have e: "e_index (g ! a) = Suc a" "payload_ok (\<lambda>d. dec_cmd E d \<noteq> None) (e_payload (g ! a))"
    using wf pl lt kg by auto
  obtain n1 ag1 rs1 where s1: "apply_entry E (g ! a) (n, ag, rs) = Inr (n1, ag1, rs1)" "same_host n n1"
    "sn_applied n1 = Suc a" "sn_sm n1 = sm_after E (take (Suc a) g)"
    "\<forall>idx e. bt_get ag1 idx = Some e \<longrightarrow> applied_ok V A idx e"
    using apply_entry_ok [OF inv g lt e Suc.prems(1,2), where rs = rs] by blast
  moreover have "\<exists>n' ag' rs'. apply_entries E (drop (Suc a) (take k g)) (n1, ag1, rs1) = Inr (n', ag', rs') \<and>
      same_host n1 n' \<and> sn_applied n' = k \<and> sn_sm n' = sm_after E (take k g) \<and>
      (\<forall>idx e. bt_get ag' idx = Some e \<longrightarrow> applied_ok V A idx e)"
    using Suc.hyps(1) [of "Suc a" ag1 n1 rs1] Suc.hyps(2) s1 lt by auto
  ultimately show ?case by (auto simp: same_host_def)
qed

section \<open>Draining a node\<close>

lemma sim_ctx_upd [simp]:
  "(sim_ctx E c i d cm)\<lparr>x_disk := d'\<rparr> = sim_ctx E c i d' cm"
  "(sim_ctx E c i d cm)\<lparr>x_commit := cm'\<rparr> = sim_ctx E c i d cm'"
  "(sim_ctx E c i d cm)\<lparr>x_disk := d', x_commit := cm'\<rparr> = sim_ctx E c i d' cm'"
  "x_id (sim_ctx E c i d cm) = i" "x_vs (sim_ctx E c i d cm) = sim_voters c" "x_disk (sim_ctx E c i d cm) = d"
  "x_commit (sim_ctx E c i d cm) = cm" "x_ok (sim_ctx E c i d cm) = (\<lambda>d. dec_cmd E d \<noteq> None)"
  "x_data (sim_ctx E c i d cm) pfx = sm_snapshot mem_backend (enc_snap E) (hash_iter E) (sm_after E pfx)"
  by (simp_all add: sim_ctx_def)

lemma msg_rel_ctx: "msg_rel (sim_ctx E c i d cm) N m = msg_rel (sim_ctx E c 0 persisted_default 0) N m"
  unfolding msg_rel_def snap_rel_def by (simp cong: message_body.case_cong)

lemma disk_rel_ctx: "disk_rel (sim_ctx E c i d cm) a d' = disk_rel (sim_ctx E c i' d'' cm') a d'"
  unfolding disk_rel_def snap_rel_def by (simp cong: option.case_cong)

text \<open>Stages (1) and (2): afterwards everything committed is applied.\<close>

lemma persist_apply_ok:
  assumes env: "env_ok E" and s: "nsim (sim_ctx E c i (sn_disk n) (sn_applied n)) A r0"
    and lo: "logs_ok (\<lambda>d. dec_cmd E d \<noteq> None) A"
    and sm: "sn_sm n = sm_after E (take (sn_applied n) (a_log (an A i)))"
    and ag: "\<And>idx e. bt_get ag idx = Some e \<Longrightarrow> applied_ok (set (sim_voters c)) A idx e"
  shows "\<exists>n1 n2 ag' rs. persist_stage E (out r0) (n\<lparr>sn_raft := Some r\<rparr>) = Inr n1 \<and>
    apply_entries E (o_committed (out r0)) (n1, ag, []) = Inr (n2, ag', rs) \<and>
    same_host (n\<lparr>sn_raft := Some r, sn_disk := persist_output (out r0) (sn_disk n)\<rparr>) n2 \<and>
    sn_applied n2 = commit r0 \<and> sn_sm n2 = sm_after E (take (commit r0) (a_log (an A i))) \<and>
    (\<forall>idx e. bt_get ag' idx = Some e \<longrightarrow> applied_ok (set (sim_voters c)) A idx e)"
proof -
  let ?X = "sim_ctx E c i (sn_disk n) (sn_applied n)"
  let ?g = "a_log (an A i)"
  have inv: "ainv (set (sim_voters c)) A" using nsimD(1) [OF s] by simp
  note st = nsim_state [OF s, simplified]
  note ok = ainv_node [OF inv, of i]
  have "out_rel ?X (an A i) (anet A) r0" using nsimD(6) [OF s] by simp
  note o = this [unfolded out_rel_def, simplified]
  show ?thesis
  proof (cases "o_snapshot (out r0)")
    case None
    then have com: "sn_applied n \<le> commit r0" "o_committed (out r0) = drop (sn_applied n) (take (commit r0) ?g)"
      using o by auto
    let ?n1 = "n\<lparr>sn_raft := Some r, sn_disk := persist_output (out r0) (sn_disk n)\<rparr>"
    have sf: "safe (set (sim_voters c)) A (a_term (an A i)) ?g (commit r0)" using node_okD(4) [OF ok] st(5) by simp
    have "\<exists>n' ag' rs'. apply_entries E (drop (sn_applied n) (take (commit r0) ?g)) (?n1, ag, []) = Inr (n', ag', rs') \<and>
        same_host ?n1 n' \<and> sn_applied n' = commit r0 \<and> sn_sm n' = sm_after E (take (commit r0) ?g) \<and>
        (\<forall>idx e. bt_get ag' idx = Some e \<longrightarrow> applied_ok (set (sim_voters c)) A idx e)"
      by (rule apply_entries_ok [OF inv _ sf])
        (use node_okD(1) [OF ok] logs_okD(1) [OF lo] ag sm com(1) in \<open>auto simp: wf_log_def\<close>)
    then show ?thesis using None com(2) by (auto simp: persist_stage_def)
  next
    case (Some snap)
    then have com: "o_committed (out r0) = []" "node_snapshot r0 = Some snap" "commit r0 = s_last_index snap"
      using o by auto
    have "snap_rel ?X snap (take (s_last_index snap) ?g)"
      using nsimD(4) [OF s] com(2) by (simp add: state_rel_def)
    then have "s_data snap = sm_snapshot mem_backend (enc_snap E) (hash_iter E) (sm_after E (take (s_last_index snap) ?g))"
      by (simp add: snap_rel_def)
    then have "sm_restore mem_backend (dec_snap E) (s_data snap) (sn_sm n) = Some (sm_after E (take (s_last_index snap) ?g))"
      using restore_after [OF env] sm_after_ok sm by simp
    then show ?thesis using Some com ag by (auto simp: persist_stage_def same_host_def)
  qed
qed

lemma compact_stage_ok:
  assumes r: "sn_raft n = Some r" and s: "nsim (sim_ctx E c i (sn_disk n) (commit r)) A r"
    and o: "out r = output_default" and ap: "sn_applied n = commit r"
    and sm: "sn_sm n = sm_after E (take (commit r) (a_log (an A i)))"
  shows "\<exists>n' r'. compact_stage E c n = Inr n' \<and> sn_raft n' = Some r' \<and>
    nsim (sim_ctx E c i (sn_disk n') (commit r)) A r' \<and> out r' = output_default \<and> commit r' = commit r \<and>
    role r' = role r \<and> hs r' = hs r \<and> nid r' = nid r \<and>
    sn_up n' = sn_up n \<and> sn_id n' = sn_id n \<and> sn_applied n' = sn_applied n \<and> sn_sm n' = sn_sm n"
proof (cases "sc_snapshot_every c \<le> sn_applied_since_snap n")
  case False
  then show ?thesis using assms by (simp add: compact_stage_def)
next
  case True
  define data where "data = sm_snapshot mem_backend (enc_snap E) (hash_iter E) (sn_sm n)"
  obtain so r' where c: "compact (commit r) data r = (so, r')" by force
  show ?thesis
  proof (cases so)
    case None
    then have "r' = r" using c by (auto simp: compact_def Let_def split: if_splits option.splits)
    then show ?thesis
      using True r s o ap sm None c by (simp add: compact_stage_def data_def Let_def)
  next
    case (Some snap)
    have d: "data = x_data (sim_ctx E c i (sn_disk n) (commit r)) (take (commit r)
        (a_log (an A (x_id (sim_ctx E c i (sn_disk n) (commit r))))))"
      using sm by (simp add: data_def)
    note k = nsim_compact [OF s o c [unfolded Some] d]
    have "role r' = role r \<and> hs r' = hs r \<and> nid r' = nid r"
      using c Some by (auto simp: compact_def Let_def split: if_splits option.splits)
    then show ?thesis
      using True r ap sm Some c k by (simp add: compact_stage_def data_def Let_def)
  qed
qed

lemma read_stage_sel:
  "sn_raft (fst (read_stage o' n)) = sn_raft n" "sn_disk (fst (read_stage o' n)) = sn_disk n"
  "sn_up (fst (read_stage o' n)) = sn_up n" "sn_id (fst (read_stage o' n)) = sn_id n"
  "sn_applied (fst (read_stage o' n)) = sn_applied n" "sn_sm (fst (read_stage o' n)) = sn_sm n"
  by (simp_all add: read_stage_def Let_def case_prod_beta)

lemma check_leader_ok:
  assumes "nsim (sim_ctx E c i d cm) A r" and "\<forall>t j. bt_get lb t = Some j \<longrightarrow> h_leader A t = Some j"
  shows "\<exists>lb'. check_leader r lb = Inr lb' \<and> (\<forall>t j. bt_get lb' t = Some j \<longrightarrow> h_leader A t = Some j)"
proof (cases "role r = Leader")
  case True
  note st = nsim_state [OF assms(1), simplified]
  have "ainv (set (sim_voters c)) A" using nsimD(1) [OF assms(1)] by simp
  then have "h_leader A (cur_term r) = Some i"
    using node_okD(5) [OF ainv_node, of "set (sim_voters c)" A i] st(3,6) True by simp
  then show ?thesis
    using assms(2) st(1) True by (auto simp: check_leader_def split: option.split)
qed (use assms(2) in \<open>simp add: check_leader_def\<close>)

lemma voters_index:
  assumes "i \<in> set (sim_voters c)" and "length (sim_nodes s) = sc_nodes c"
  shows "i - 1 < length (sim_nodes s)"
  using assms by (auto simp: sim_voters_def)

lemma voters_index_inj:
  "i \<in> set (sim_voters c) \<Longrightarrow> j \<in> set (sim_voters c) \<Longrightarrow> i - 1 = j - 1 \<longleftrightarrow> i = j"
  by (auto simp: sim_voters_def)

theorem process_output_ok:
  assumes env: "env_ok E" and w: "world_inv E c s A" and i: "i \<in> set (sim_voters c)"
    and up: "up_inv E c A i (sim_nodes s ! (i - 1))"
    and others: "\<And>j. j \<in> set (sim_voters c) \<Longrightarrow> j \<noteq> i \<Longrightarrow> node_inv E c A j (sim_nodes s ! (j - 1))"
  shows "\<exists>s'. process_output E c (i - 1) s = Inr s' \<and> sim_inv E c s' A"
proof -
  define n where "n = sim_nodes s ! (i - 1)"
  obtain r0 where r0: "sn_raft n = Some r0" "nsim (sim_ctx E c i (sn_disk n) (sn_applied n)) A r0"
    and n: "sn_up n" "sn_id n = i" "sn_sm n = sm_after E (take (sn_applied n) (a_log (an A i)))"
    using up unfolding up_inv_def n_def by blast
  have inv: "ainv (set (sim_voters c)) A" and lo: "logs_ok (\<lambda>d. dec_cmd E d \<noteq> None) A"
    and len: "length (sim_nodes s) = sc_nodes c"
    and net: "\<forall>m\<in>sim_net s. msg_rel (sim_ctx E c 0 persisted_default 0) (anet A) m"
    and ag: "\<forall>idx e. bt_get (sim_applied s) idx = Some e \<longrightarrow> applied_ok (set (sim_voters c)) A idx e"
    and lb: "\<forall>t j. bt_get (sim_leaders s) t = Some j \<longrightarrow> h_leader A t = Some j"
    using w unfolding world_inv_def by auto
  define r where "r = snd (take_output r0)"
  have to: "take_output r0 = (out r0, r)" by (simp add: take_output_def r_def)
  have r: "out r = output_default" "commit r = commit r0" "role r = role r0" "hs r = hs r0" "cfg r = cfg r0"
    by (simp_all add: r_def take_output_def)
  have ns: "nsim (sim_ctx E c i (persist_output (out r0) (sn_disk n)) (commit r0)) A r"
    using nsim_take_output [OF r0(2)] by (simp add: r_def)
  obtain n1 n2 ag' rs where pa: "persist_stage E (out r0) (n\<lparr>sn_raft := Some r\<rparr>) = Inr n1"
    "apply_entries E (o_committed (out r0)) (n1, sim_applied s, []) = Inr (n2, ag', rs)"
    "same_host (n\<lparr>sn_raft := Some r, sn_disk := persist_output (out r0) (sn_disk n)\<rparr>) n2"
    "sn_applied n2 = commit r0" "sn_sm n2 = sm_after E (take (commit r0) (a_log (an A i)))"
    "\<forall>idx e. bt_get ag' idx = Some e \<longrightarrow> applied_ok (set (sim_voters c)) A idx e"
    using persist_apply_ok [OF env r0(2) lo n(3), of "sim_applied s" r] ag by blast
  have h2: "sn_raft n2 = Some r" "sn_disk n2 = persist_output (out r0) (sn_disk n)" "sn_up n2" "sn_id n2 = i"
    using pa(3) n by (simp_all add: same_host_def)
  obtain n3 r' where cs: "compact_stage E c n2 = Inr n3" "sn_raft n3 = Some r'"
    "nsim (sim_ctx E c i (sn_disk n3) (commit r)) A r'" "out r' = output_default" "commit r' = commit r"
    "sn_up n3 = sn_up n2" "sn_id n3 = sn_id n2" "sn_applied n3 = sn_applied n2" "sn_sm n3 = sn_sm n2"
    using compact_stage_ok [OF h2(1) _ r(1), of E c i A] ns h2 pa(4,5) r(2) by auto
  obtain n4 rs' where rd: "read_stage (out r0) n3 = (n4, rs')" by force
  note n4 = read_stage_sel [of "out r0" n3, unfolded rd fst_conv]
  obtain lb' where cl: "check_leader r' (sim_leaders s) = Inr lb'" "\<forall>t j. bt_get lb' t = Some j \<longrightarrow> h_leader A t = Some j"
    using check_leader_ok [OF cs(3) lb] by blast
  define s' where "s' = s\<lparr>sim_nodes := (sim_nodes s)[i - 1 := n4], sim_applied := ag',
    sim_resps := sim_resps s \<union> set (rs @ rs'), sim_net := sim_net s \<union> set (o_messages (out r0)), sim_leaders := lb'\<rparr>"
  have po: "process_output E c (i - 1) s = Inr s'"
    unfolding process_output_def n_def [symmetric]
    using r0(1) to pa(1,2) cs(1,2) rd n4(1) cl(1) by (simp add: s'_def)
  have "\<forall>m\<in>set (o_messages (out r0)). msg_rel (sim_ctx E c 0 persisted_default 0) (anet A) m"
    using nsimD(6) [OF r0(2)] msg_rel_ctx [of E c i "sn_disk n" "sn_applied n"] unfolding out_rel_def by blast
  then have "world_inv E c s' A"
    using inv lo len net pa(6) cl(2) unfolding world_inv_def s'_def by auto
  moreover have "node_inv E c A j (sim_nodes s' ! (j - 1))" if j: "j \<in> set (sim_voters c)" for j
  proof (cases "j = i")
    case True
    have "sim_nodes s' ! (i - 1) = n4" using voters_index [OF i len] by (simp add: s'_def)
    then show ?thesis
      using True n4 cs h2 pa(4,5) r(2) unfolding node_inv_def up_inv_def by simp
  next
    case False
    then have "i - 1 \<noteq> j - 1" using voters_index_inj [OF i j] by auto
    then have "sim_nodes s' ! (j - 1) = sim_nodes s ! (j - 1)" by (simp add: s'_def)
    then show ?thesis using others [OF j False] by simp
  qed
  ultimately show ?thesis using po unfolding sim_inv_def by blast
qed

section \<open>Every event\<close>

lemma world_inv_asteps:
  assumes w: "world_inv E c s A" and st: "(astep (\<lambda>d. dec_cmd E d \<noteq> None) (set (sim_voters c)) i)\<^sup>*\<^sup>* A A'"
    and s1: "length (sim_nodes s1) = length (sim_nodes s)" "sim_net s1 = sim_net s"
      "sim_applied s1 = sim_applied s" "sim_leaders s1 = sim_leaders s"
  shows "world_inv E c s1 A'"
proof -
  have inv: "ainv (set (sim_voters c)) A" using w unfolding world_inv_def by blast
  have e: "ext A A'" by (rule asteps_ext [OF st inv]) simp
  show ?thesis
    using w asteps_ainv [OF st inv] asteps_logs_ok [OF st] msg_rel_mono [OF _ asteps_frame(1) [OF st]]
      applied_ok_ext [OF _ e] leader_ext [OF e]
    unfolding world_inv_def s1 by blast
qed

lemma node_inv_asteps:
  assumes "node_inv E c A j n" and st: "(astep D (set (sim_voters c)) i)\<^sup>*\<^sup>* A A'" and "j \<noteq> i"
    and "ainv (set (sim_voters c)) A'"
  shows "node_inv E c A' j n"
proof -
  have a: "an A' j = an A j" by (rule asteps_frame(2) [OF st assms(3)])
  have "nsim (sim_ctx E c j d cm) A' r" if "nsim (sim_ctx E c j d cm) A r" for d cm r
    by (rule nsim_mono [OF that]) (use assms(4) a asteps_frame(1) [OF st] in simp_all)
  then show ?thesis
    using assms(1) unfolding node_inv_def up_inv_def a by (simp split: if_splits) blast
qed

lemma after_op:
  assumes env: "env_ok E" and inv: "sim_inv E c s A" and i: "i \<in> set (sim_voters c)"
    and n: "n = sim_nodes s ! (i - 1)" "sn_up n" "sn_raft n = Some r"
    and op: "reaches (sim_ctx E c i (sn_disk n) (sn_applied n)) A r'"
    and n': "sn_raft n' = Some r'" "sn_up n'" "sn_id n' = sn_id n" "sn_disk n' = sn_disk n" "sn_sm n' = sn_sm n"
      "sn_applied n' = sn_applied n"
    and s1: "sim_nodes s1 = (sim_nodes s)[i - 1 := n']" "sim_net s1 = sim_net s"
      "sim_applied s1 = sim_applied s" "sim_leaders s1 = sim_leaders s"
  shows "\<exists>s'. process_output E c (i - 1) s1 = Inr s' \<and> (\<exists>A'. sim_inv E c s' A' \<and> ext A A')"
proof -
  let ?V = "set (sim_voters c)"
  have w: "world_inv E c s A" and nodes: "\<And>j. j \<in> ?V \<Longrightarrow> node_inv E c A j (sim_nodes s ! (j - 1))"
    using inv unfolding sim_inv_def by auto
  obtain A' where A': "(astep (\<lambda>d. dec_cmd E d \<noteq> None) ?V i)\<^sup>*\<^sup>* A A'"
    "nsim (sim_ctx E c i (sn_disk n) (sn_applied n)) A' r'"
    using op unfolding reaches_def by auto
  have w': "world_inv E c s1 A'" by (rule world_inv_asteps [OF w A'(1)]) (simp_all add: s1)
  have len: "length (sim_nodes s) = sc_nodes c" and ai: "ainv ?V A" using w unfolding world_inv_def by auto
  have up: "sn_id n = i" "sn_sm n = sm_after E (take (sn_applied n) (a_log (an A i)))"
    "nsim (sim_ctx E c i (sn_disk n) (sn_applied n)) A r" "sn_applied n = commit r"
    using nodes [OF i] n unfolding node_inv_def up_inv_def by auto
  have "sn_applied n \<le> commit r'"
    using nsimD(6) [OF A'(2)] unfolding out_rel_def by (auto split: option.splits)
  then have "take (sn_applied n) (a_log (an A' i)) = take (sn_applied n) (a_log (an A i))"
    using asteps_prefix [OF A'(1) ai, of "sn_applied n" i] nsim_state(5) [OF A'(2)] nsim_state(5) [OF up(3)] up(4)
    by simp
  then have "up_inv E c A' i n'"
    using n' up A'(2) unfolding up_inv_def by simp
  moreover have "sim_nodes s1 ! (i - 1) = n'" using voters_index [OF i len] by (simp add: s1)
  ultimately have up': "up_inv E c A' i (sim_nodes s1 ! (i - 1))" by simp
  have "node_inv E c A' j (sim_nodes s1 ! (j - 1))" if j: "j \<in> ?V" "j \<noteq> i" for j
  proof -
    have "i - 1 \<noteq> j - 1" using voters_index_inj [OF i j(1)] j(2) by auto
    then have "sim_nodes s1 ! (j - 1) = sim_nodes s ! (j - 1)" by (simp add: s1)
    then show ?thesis
      using node_inv_asteps [OF nodes [OF j(1)] A'(1) j(2)] w' unfolding world_inv_def by simp
  qed
  then show ?thesis using process_output_ok [OF env w' i up'] asteps_ext [OF A'(1) ai] by blast
qed

lemma up_node:
  assumes "sim_inv E c s A" and "i \<in> set (sim_voters c)" and "n = sim_nodes s ! (i - 1)" and "sn_up n"
  obtains r where "sn_raft n = Some r" "nsim (sim_ctx E c i (sn_disk n) (sn_applied n)) A r"
    "out r = output_default" "sn_applied n = commit r" "drained r"
proof -
  have "node_inv E c A i n" using assms unfolding sim_inv_def by blast
  then obtain r where r: "sn_raft n = Some r" "nsim (sim_ctx E c i (sn_disk n) (sn_applied n)) A r"
    "out r = output_default" "sn_applied n = commit r"
    using assms(4) unfolding node_inv_def up_inv_def by auto
  moreover have "drained r" using r(3) by (simp add: drained_def output_default_def)
  ultimately show thesis using that by blast
qed

lemma output_default_snap [simp]: "o_snapshot output_default = None"
  by (simp add: output_default_def)

lemma on_node_tick_ok:
  assumes "env_ok E" and "sim_inv E c s A" and "i \<in> set (sim_voters c)"
  shows "\<exists>s'. on_node_tick E c i s = Inr s' \<and> (\<exists>A'. sim_inv E c s' A' \<and> ext A A')"
proof (cases "sn_up (sim_nodes s ! (i - 1))")
  case True
  obtain r where r: "sn_raft (sim_nodes s ! (i - 1)) = Some r"
    "nsim (sim_ctx E c i (sn_disk (sim_nodes s ! (i - 1))) (sn_applied (sim_nodes s ! (i - 1)))) A r" "out r = output_default"
    using up_node [OF assms(2,3) refl True] by metis
  have "\<exists>s'. process_output E c (i - 1) (set_raft (i - 1) (tick r) s) = Inr s' \<and> (\<exists>A'. sim_inv E c s' A' \<and> ext A A')"
    by (rule after_op [OF assms refl True r(1) reaches_tick [OF r(2)]])
      (use True r(3) in \<open>simp_all add: set_raft_def\<close>)
  then show ?thesis using True r(1) by (simp add: on_node_tick_def Let_def)
next
  case False
  then show ?thesis using assms(2) ext_refl by (auto simp: on_node_tick_def)
qed

lemma on_raft_msg_ok:
  assumes env: "env_ok E" and inv: "sim_inv E c s A" and m: "m \<in> sim_net s"
  shows "\<exists>s'. on_raft_msg E c m s = Inr s' \<and> (\<exists>A'. sim_inv E c s' A' \<and> ext A A')"
proof -
  let ?i = "m_to m"
  let ?n = "sim_nodes s ! (?i - 1)"
  have mr: "msg_rel (sim_ctx E c 0 persisted_default 0) (anet A) m"
    using inv m unfolding sim_inv_def world_inv_def by blast
  then have i: "?i \<in> set (sim_voters c)" by (simp add: msg_rel_def)
  show ?thesis
  proof (cases "(m_from m, m_to m) \<in> sim_blocked s \<or> \<not> sn_up ?n")
    case True
    then show ?thesis using inv ext_refl by (auto simp: on_raft_msg_def Let_def)
  next
    case False
    then have u: "sn_up ?n" by simp
    obtain r where r: "sn_raft ?n = Some r"
      "nsim (sim_ctx E c ?i (sn_disk ?n) (sn_applied ?n)) A r" "drained r"
      using up_node [OF inv i refl u] by metis
    obtain r' where r': "step m r = Inr r'" "reaches (sim_ctx E c ?i (sn_disk ?n) (sn_applied ?n)) A r'"
      using step_sim [OF r(2,3), of m] mr msg_rel_ctx [of E c ?i "sn_disk ?n" "sn_applied ?n"] by auto
    have "\<exists>s'. process_output E c (?i - 1) (set_raft (?i - 1) r' s) = Inr s' \<and> (\<exists>A'. sim_inv E c s' A' \<and> ext A A')"
      by (rule after_op [OF env inv i refl u r(1) r'(2)]) (use u in \<open>simp_all add: set_raft_def\<close>)
    then show ?thesis using False r(1) r'(1) by (simp add: on_raft_msg_def Let_def)
  qed
qed

lemma sim_inv_frame:
  assumes "sim_inv E c s A" and "sim_nodes s' = sim_nodes s" and "sim_net s' = sim_net s"
    and "sim_applied s' = sim_applied s" and "sim_leaders s' = sim_leaders s"
  shows "sim_inv E c s' A"
  using assms(1) unfolding sim_inv_def world_inv_def assms(2-5) .

text \<open>A raft call that failed leaves the raft node alone.\<close>

lemma sim_inv_node_frame:
  assumes inv: "sim_inv E c s A" and i: "i \<in> set (sim_voters c)" and n: "n = sim_nodes s ! (i - 1)" "sn_up n"
    and n': "sn_raft n' = sn_raft n" "sn_up n' = sn_up n" "sn_id n' = sn_id n" "sn_disk n' = sn_disk n"
      "sn_sm n' = sn_sm n" "sn_applied n' = sn_applied n"
    and s': "sim_nodes s' = (sim_nodes s)[i - 1 := n']" "sim_net s' = sim_net s"
      "sim_applied s' = sim_applied s" "sim_leaders s' = sim_leaders s"
  shows "sim_inv E c s' A"
proof -
  have w: "world_inv E c s A" and nodes: "\<And>j. j \<in> set (sim_voters c) \<Longrightarrow> node_inv E c A j (sim_nodes s ! (j - 1))"
    using inv unfolding sim_inv_def by auto
  have len: "length (sim_nodes s) = sc_nodes c" using w unfolding world_inv_def by simp
  have "node_inv E c A i n'"
    using nodes [OF i] n n' unfolding node_inv_def up_inv_def by simp
  then have "node_inv E c A j (sim_nodes s' ! (j - 1))" if j: "j \<in> set (sim_voters c)" for j
    using nodes [OF j] voters_index_inj [OF i j] voters_index [OF i len] by (cases "j = i") (auto simp: s')
  then show ?thesis using w unfolding sim_inv_def world_inv_def s' by simp
qed

lemma try_propose_ok:
  assumes env: "env_ok E" and inv: "sim_inv E c s A" and i: "i \<in> set (sim_voters c)" and u: "sn_up (sim_nodes s ! (i - 1))"
  shows "\<exists>s'. try_propose E c (i - 1) client session sq cmd s = Inr s' \<and> (\<exists>A'. sim_inv E c s' A' \<and> ext A A')"
proof -
  let ?n = "sim_nodes s ! (i - 1)"
  obtain r where r: "sn_raft ?n = Some r"
    "nsim (sim_ctx E c i (sn_disk ?n) (sn_applied ?n)) A r" "out r = output_default"
    using up_node [OF inv i refl u] by metis
  obtain res r' where p: "propose (enc_cmd E cmd) r = (res, r')" by force
  show ?thesis
  proof (cases res)
    case (Inr idx)
    have "reaches (sim_ctx E c i (sn_disk ?n) (sn_applied ?n)) A (snd (propose (enc_cmd E cmd) r))"
      by (rule reaches_propose [OF r(2)]) (use r(3) env in \<open>simp_all add: env_ok_def\<close>)
    then have re: "reaches (sim_ctx E c i (sn_disk ?n) (sn_applied ?n)) A r'" using p by simp
    have "\<exists>s'. process_output E c (i - 1) (s\<lparr>sim_nodes := (sim_nodes s)[i - 1 := ?n\<lparr>sn_raft := Some r',
        sn_waiting_writes := bt_insert (session, sq) () (sn_waiting_writes ?n)\<rparr>]\<rparr>) = Inr s' \<and> (\<exists>A'. sim_inv E c s' A' \<and> ext A A')"
      by (rule after_op [OF env inv i refl u r(1) re]) (use u in simp_all)
    then show ?thesis using Inr p r(1) by (simp add: try_propose_def Let_def)
  next
    case (Inl err)
    then have "r' = r" using p by (auto simp: propose_def Let_def split: if_splits prod.splits)
    have "sim_inv E c (send_client_resp client resp (set_raft (i - 1) r' s)) A" for resp
      by (rule sim_inv_node_frame [OF inv i refl u, of "?n\<lparr>sn_raft := Some r'\<rparr>"])
        (use r(1) \<open>r' = r\<close> in \<open>simp_all add: send_client_resp_def set_raft_def\<close>)
    then show ?thesis using Inl p r(1) ext_refl by (cases err) (auto simp: try_propose_def)
  qed
qed

lemma on_client_read_ok:
  assumes env: "env_ok E" and inv: "sim_inv E c s A" and i: "i \<in> set (sim_voters c)" and u: "sn_up (sim_nodes s ! (i - 1))"
  shows "\<exists>s'. on_client_read E c client i op_ts key s = Inr s' \<and> (\<exists>A'. sim_inv E c s' A' \<and> ext A A')"
proof -
  let ?n = "sim_nodes s ! (i - 1)"
  obtain r where r: "sn_raft ?n = Some r"
    "nsim (sim_ctx E c i (sn_disk ?n) (sn_applied ?n)) A r" "out r = output_default"
    using up_node [OF inv i refl u] by metis
  obtain res r' where p: "read_index (sn_next_read_id ?n) r = (res, r')" by force
  show ?thesis
  proof (cases res)
    case (Inr x)
    have re: "reaches (sim_ctx E c i (sn_disk ?n) (sn_applied ?n)) A r'"
      using reaches_read_index [OF r(2), of "sn_next_read_id ?n"] p by simp
    have "\<exists>s'. process_output E c (i - 1) (s\<lparr>sim_nodes := (sim_nodes s)[i - 1 := ?n\<lparr>sn_raft := Some r',
        sn_next_read_id := sn_next_read_id ?n + 1,
        sn_pending_reads := bt_insert (sn_next_read_id ?n) (client, op_ts, key) (sn_pending_reads ?n)\<rparr>]\<rparr>) = Inr s' \<and>
        (\<exists>A'. sim_inv E c s' A' \<and> ext A A')"
      by (rule after_op [OF env inv i refl u r(1) re]) (use u in simp_all)
    then show ?thesis using Inr p r(1) by (simp add: on_client_read_def Let_def)
  next
    case (Inl err)
    then have "r' = r" using p by (auto simp: read_index_def Let_def split: if_splits)
    have "sim_inv E c (send_client_resp client resp (s\<lparr>sim_nodes := (sim_nodes s)[i - 1 :=
        ?n\<lparr>sn_raft := Some r', sn_next_read_id := sn_next_read_id ?n + 1\<rparr>]\<rparr>)) A" for resp
      by (rule sim_inv_node_frame [OF inv i refl u,
            of "?n\<lparr>sn_raft := Some r', sn_next_read_id := sn_next_read_id ?n + 1\<rparr>"])
        (use r(1) \<open>r' = r\<close> in \<open>simp_all add: send_client_resp_def\<close>)
    then show ?thesis using Inl p r(1) ext_refl by (auto simp: on_client_read_def Let_def)
  qed
qed

lemma crash_ok:
  assumes inv: "sim_inv E c s A" and i: "i \<in> set (sim_voters c)"
  shows "sim_inv E c (crash i s) A"
proof (cases "sn_up (sim_nodes s ! (i - 1))")
  case True
  let ?n = "sim_nodes s ! (i - 1)"
  have w: "world_inv E c s A" and nodes: "\<And>j. j \<in> set (sim_voters c) \<Longrightarrow> node_inv E c A j (sim_nodes s ! (j - 1))"
    using inv unfolding sim_inv_def by auto
  have len: "length (sim_nodes s) = sc_nodes c" using w unfolding world_inv_def by simp
  obtain r where r: "nsim (sim_ctx E c i (sn_disk ?n) (sn_applied ?n)) A r" "out r = output_default"
    using up_node [OF inv i refl True] by metis
  have "disk_rel (sim_ctx E c i (sn_disk ?n) 0) (an A i) (sn_disk ?n)"
    using nsim_disk_rel [OF r] disk_rel_ctx [of E c i "sn_disk ?n" "sn_applied ?n" "an A i" _ i "sn_disk ?n" 0]
    by simp
  moreover have "sn_id ?n = i" using nodes [OF i] True unfolding node_inv_def up_inv_def by simp
  ultimately have "node_inv E c A i (sim_nodes (crash i s) ! (i - 1))"
    using True voters_index [OF i len] by (simp add: crash_def node_inv_def Let_def)
  then have "node_inv E c A j (sim_nodes (crash i s) ! (j - 1))" if j: "j \<in> set (sim_voters c)" for j
    using nodes [OF j] voters_index_inj [OF i j] by (cases "j = i") (auto simp: crash_def Let_def)
  then show ?thesis
    using w True unfolding sim_inv_def world_inv_def by (simp add: crash_def Let_def)
next
  case False
  then show ?thesis using inv by (auto simp: crash_def)
qed

lemma on_restart_ok:
  assumes env: "env_ok E" and inv: "sim_inv E c s A" and i: "i \<in> set (sim_voters c)"
  shows "\<exists>s'. on_restart E c i s = Inr s' \<and> (\<exists>A'. sim_inv E c s' A' \<and> ext A A')"
proof (cases "sn_up (sim_nodes s ! (i - 1))")
  case True
  then show ?thesis using inv ext_refl by (auto simp: on_restart_def)
next
  case False
  let ?V = "set (sim_voters c)"
  define n where "n = sim_nodes s ! (i - 1)"
  define r where "r = raft_node_new (node_cfg c i (sn_restarts n + 1)) (sim_voters c) (sn_disk n)"
  have w: "world_inv E c s A" and nodes: "\<And>j. j \<in> ?V \<Longrightarrow> node_inv E c A j (sim_nodes s ! (j - 1))"
    using inv unfolding sim_inv_def by auto
  have len: "length (sim_nodes s) = sc_nodes c" and ai: "ainv ?V A" using w unfolding world_inv_def by auto
  have n: "sn_id n = i" "sn_sm n = sm_new bt_empty" "sn_applied n = 0"
    "disk_rel (sim_ctx E c i (sn_disk n) 0) (an A i) (sn_disk n)"
    using nodes [OF i] False unfolding node_inv_def n_def by auto
  have id: "c_id (node_cfg c i (sn_restarts n + 1)) = i" by (simp add: node_cfg_def config_new_def)
  have vs: "distinct (sim_voters c)" by (simp add: sim_voters_def)
  obtain A' where A': "astep (\<lambda>d. dec_cmd E d \<noteq> None) ?V i A A'" "nsim (sim_ctx E c i (sn_disk n) (commit r)) A' r"
    using restart_sim(1) [of "sim_ctx E c i (sn_disk n) 0" A "sn_disk n" "node_cfg c i (sn_restarts n + 1)"] n(4) ai vs i id
    by (auto simp: r_def)
  have st: "(astep (\<lambda>d. dec_cmd E d \<noteq> None) ?V i)\<^sup>*\<^sup>* A A'" using A'(1) by blast
  have com: "commit r = (case p_snapshot (sn_disk n) of None \<Rightarrow> 0 | Some sp \<Rightarrow> s_last_index sp)"
    using restart_sim(3) [of "sim_ctx E c i (sn_disk n) 0" A "sn_disk n" "node_cfg c i (sn_restarts n + 1)"] n(4) ai vs i id
    by (simp add: r_def)
  define n2 where "n2 = n\<lparr>sn_restarts := sn_restarts n + 1, sn_raft := Some r,
    sn_sm := sm_after E (take (commit r) (a_log (an A' i))), sn_applied := commit r\<rparr>"
  have res: "(case p_snapshot (sn_disk n) of
        None \<Rightarrow> Inr (n\<lparr>sn_restarts := sn_restarts n + 1, sn_raft := Some r\<rparr>)
      | Some snap \<Rightarrow>
          (case sm_restore mem_backend (dec_snap E) (s_data snap) (sn_sm n) of
             None \<Rightarrow> Inl SnapshotDecode
           | Some sm \<Rightarrow> Inr (n\<lparr>sn_restarts := sn_restarts n + 1, sn_raft := Some r, sn_sm := sm,
               sn_applied := s_last_index snap\<rparr>))) = Inr n2"
  proof (cases "p_snapshot (sn_disk n)")
    case None
    then show ?thesis using n com by (simp add: n2_def sm_after_def sm_run_def)
  next
    case (Some snap)
    have "node_snapshot r = Some snap" using Some by (simp add: r_def raft_node_new_def Let_def)
    then have "snap_rel (sim_ctx E c i (sn_disk n) (commit r)) snap (take (s_last_index snap) (a_log (an A' i)))"
      using nsimD(4) [OF A'(2)] by (simp add: state_rel_def)
    then have "sm_restore mem_backend (dec_snap E) (s_data snap) (sn_sm n) =
        Some (sm_after E (take (s_last_index snap) (a_log (an A' i))))"
      using restore_after [OF env, of "sn_sm n"] n(2) by (simp add: snap_rel_def mem.sm_ok_def sm_new_def)
    then show ?thesis using Some com by (simp add: n2_def)
  qed
  define s1 where "s1 = s\<lparr>sim_nodes := (sim_nodes s)[i - 1 := n2\<lparr>sn_up := True\<rparr>]\<rparr>"
  have w': "world_inv E c s1 A'" by (rule world_inv_asteps [OF w st]) (simp_all add: s1_def)
  have "up_inv E c A' i (n2\<lparr>sn_up := True\<rparr>)"
    using A'(2) n(1) by (simp add: up_inv_def n2_def)
  then have up: "up_inv E c A' i (sim_nodes s1 ! (i - 1))"
    using voters_index [OF i len] by (simp add: s1_def)
  have "node_inv E c A' j (sim_nodes s1 ! (j - 1))" if j: "j \<in> ?V" "j \<noteq> i" for j
  proof -
    have "i - 1 \<noteq> j - 1" using voters_index_inj [OF i j(1)] j(2) by auto
    then have "sim_nodes s1 ! (j - 1) = sim_nodes s ! (j - 1)" by (simp add: s1_def)
    then show ?thesis
      using node_inv_asteps [OF nodes [OF j(1)] st j(2)] w' unfolding world_inv_def by simp
  qed
  then have "\<exists>s'. process_output E c (i - 1) s1 = Inr s' \<and> (\<exists>A'. sim_inv E c s' A' \<and> ext A A')"
    using process_output_ok [OF env w' i up] asteps_ext [OF st ai] by blast
  moreover have "on_restart E c i s = process_output E c (i - 1) s1"
  proof -
    have "on_restart E c i s = (case (case p_snapshot (sn_disk n) of
        None \<Rightarrow> Inr (n\<lparr>sn_restarts := sn_restarts n + 1, sn_raft := Some r\<rparr>)
      | Some snap \<Rightarrow>
          (case sm_restore mem_backend (dec_snap E) (s_data snap) (sn_sm n) of
             None \<Rightarrow> Inl SnapshotDecode
           | Some sm \<Rightarrow> Inr (n\<lparr>sn_restarts := sn_restarts n + 1, sn_raft := Some r, sn_sm := sm,
               sn_applied := s_last_index snap\<rparr>))) of
        Inl a \<Rightarrow> Inl a
      | Inr n2 \<Rightarrow> process_output E c (i - 1) (s\<lparr>sim_nodes := (sim_nodes s)[i - 1 := n2\<lparr>sn_up := True\<rparr>]\<rparr>))"
      using False unfolding on_restart_def Let_def n_def [symmetric] r_def [symmetric]
      by (simp cong: option.case_cong)
    then show ?thesis unfolding res s1_def by simp
  qed
  ultimately show ?thesis by simp
qed

lemma sim_inv_boot: "sim_inv E c (boot c) acluster_init"
proof -
  have "node_inv E c acluster_init i (boot_node c i)" if i: "i \<in> set (sim_voters c)" for i
  proof -
    let ?r = "raft_node_new (node_cfg c i 0) (sim_voters c) persisted_default"
    have o: "out ?r = output_default" "commit ?r = 0"
      by (simp_all add: raft_node_new_def persisted_default_def Let_def)
    have "nsim (sim_ctx E c i persisted_default 0) acluster_init ?r"
      unfolding nsim_def
    proof (intro conjI)
      show "state_rel (sim_ctx E c i persisted_default 0) (an acluster_init (x_id (sim_ctx E c i persisted_default 0))) ?r"
        by (simp add: state_rel_def acluster_init_def anode_init_def raft_node_new_def persisted_default_def
            hard_state_default_def node_cfg_def config_new_def log_rel_def log_new_def tm_def Let_def)
      show "peers_rel (sim_ctx E c i persisted_default 0) (an acluster_init (x_id (sim_ctx E c i persisted_default 0))) ?r"
        by (simp add: peers_rel_def raft_node_new_def persisted_default_def bt_keys_def bt_empty_def Let_def)
      show "out_rel (sim_ctx E c i persisted_default 0) (an acluster_init (x_id (sim_ctx E c i persisted_default 0)))
          (anet acluster_init) ?r"
        by (simp add: out_rel_def raft_node_new_def persisted_default_def output_default_def persist_output_def
            log_new_def acluster_init_def anode_init_def Let_def)
    qed (use ainv_init i in \<open>auto simp: sim_voters_def\<close>)
    then show ?thesis
      using o by (simp add: node_inv_def up_inv_def boot_node_def sm_after_def sm_run_def)
  qed
  moreover have "sim_nodes (boot c) ! (i - 1) = boot_node c i" if "i \<in> set (sim_voters c)" for i
    using that by (auto simp: boot_def sim_voters_def simp del: upt_Suc)
  moreover have "world_inv E c (boot c) acluster_init"
    using ainv_init logs_ok_init by (simp add: world_inv_def boot_def sim_voters_def)
  ultimately show ?thesis unfolding sim_inv_def by simp
qed

theorem sim_handle_ok:
  assumes env: "env_ok E" and inv: "sim_inv E c s A" and en: "enabled c s ev"
  shows "\<exists>s'. sim_handle E c ev s = Inr s' \<and> (\<exists>A'. sim_inv E c s' A' \<and> ext A A')"
proof (cases ev)
  case (NodeTick i)
  then show ?thesis using on_node_tick_ok [OF env inv] en by simp
next
  case (RaftMsg m)
  then show ?thesis using on_raft_msg_ok [OF env inv] en by simp
next
  case (ClientReq client node req)
  show ?thesis
  proof (cases "sn_up (sim_nodes s ! (node - 1))")
    case True
    then show ?thesis
      using try_propose_ok [OF env inv, of node] on_client_read_ok [OF env inv, of node] en ClientReq
      by (auto simp: on_client_req_def Let_def split: c_req.split)
  next
    case False
    then show ?thesis using inv ClientReq ext_refl by (auto simp: on_client_req_def Let_def)
  qed
next
  case (Crash i)
  then show ?thesis using crash_ok [OF inv] en ext_refl by auto
next
  case (Restart i)
  then show ?thesis using on_restart_ok [OF env inv] en by simp
next
  case (StartPartition a b asy)
  then show ?thesis
    using sim_inv_frame [OF inv, of "start_partition a b asy s"] ext_refl by (auto simp: start_partition_def)
next
  case HealPartition
  then show ?thesis using sim_inv_frame [OF inv, of "s\<lparr>sim_blocked := {}\<rparr>"] ext_refl by auto
qed

lemma sim_reach_inv: "sim_reach E c s \<Longrightarrow> env_ok E \<Longrightarrow> \<exists>A. sim_inv E c s A"
proof (induction rule: sim_reach.induct)
  case boot
  then show ?case using sim_inv_boot by blast
next
  case (event s ev s')
  then obtain A where "sim_inv E c s A" by blast
  then show ?case using sim_handle_ok [OF event(5) _ event(2)] event(3) by auto
qed

end
