(* ===== verification/Cluster_Facts.thy ===== *)
theory Cluster_Facts
  imports Sim_Safety
begin

text \<open>
  What the invariant of the simulated cluster says about its nodes, their disks and the messages in
  flight, in terms of the simulator's own state; the history variables of the abstract protocol
  connect states at different times.
\<close>

section \<open>Runs\<close>

lemma sim_steps_inv:
  assumes "(sim_step E c)\<^sup>*\<^sup>* s s'" and "env_ok E" and "sim_inv E c s A"
  shows "\<exists>A'. sim_inv E c s' A' \<and> ext A A'"
  using assms(1)
proof (induction rule: rtranclp_induct)
  case base
  then show ?case using assms(3) ext_refl by blast
next
  case (step s1 s2)
  then obtain A1 where A1: "sim_inv E c s1 A1" "ext A A1" by blast
  obtain ev where ev: "enabled c s1 ev" "sim_handle E c ev s1 = Inr s2"
    using step(2) unfolding sim_step_def by blast
  obtain A2 where "sim_inv E c s2 A2" "ext A1 A2"
    using sim_handle_ok [OF assms(2) A1(1) ev(1)] ev(2) by auto
  then show ?case using ext_trans [OF A1(2)] by blast
qed

lemma sim_reach_steps:
  assumes "sim_reach E c s" and "env_ok E" and "(sim_step E c)\<^sup>*\<^sup>* s s'"
  obtains A A' where "sim_inv E c s A" "sim_inv E c s' A'" "ext A A'"
  using sim_reach_inv [OF assms(1,2)] sim_steps_inv [OF assms(3,2)] by blast

section \<open>Nodes\<close>

abbreviation voter_set :: "sim_config \<Rightarrow> node_id set" where "voter_set c \<equiv> set (sim_voters c)"

lemma sim_invD:
  assumes "sim_inv E c s A"
  shows "ainv (voter_set c) A" and "length (sim_nodes s) = sc_nodes c"
    and "m \<in> sim_net s \<Longrightarrow> msg_rel (sim_ctx E c 0 persisted_default 0) (anet A) m"
    and "bt_get (sim_applied s) idx = Some e \<Longrightarrow> applied_ok (voter_set c) A idx e"
    and "i \<in> voter_set c \<Longrightarrow> node_inv E c A i (sim_nodes s ! (i - 1))"
  using assms unfolding sim_inv_def world_inv_def by auto

lemma sim_node_inv:
  assumes "sim_inv E c s A" and "n \<in> set (sim_nodes s)"
  shows "sn_id n \<in> voter_set c" and "n = sim_nodes s ! (sn_id n - 1)" and "node_inv E c A (sn_id n) n"
proof -
  obtain k where k: "k < sc_nodes c" "n = sim_nodes s ! k"
    using assms sim_invD(2) [OF assms(1)] by (metis in_set_conv_nth)
  then have v: "Suc k \<in> voter_set c" by (auto simp: sim_voters_def)
  have n: "node_inv E c A (Suc k) n" using sim_invD(5) [OF assms(1) v] k(2) by simp
  then have "sn_id n = Suc k" unfolding node_inv_def up_inv_def by (auto split: if_splits)
  then show "sn_id n \<in> voter_set c" "n = sim_nodes s ! (sn_id n - 1)" "node_inv E c A (sn_id n) n"
    using v k n by simp_all
qed

lemma sim_node_unique:
  "sim_inv E c s A \<Longrightarrow> n \<in> set (sim_nodes s) \<Longrightarrow> n' \<in> set (sim_nodes s) \<Longrightarrow> sn_id n = sn_id n' \<Longrightarrow> n = n'"
  using sim_node_inv(2) by metis

lemma running_node:
  assumes "sim_inv E c s A" and "n \<in> set (sim_nodes s)" and "sn_raft n = Some r"
  shows "nsim (sim_ctx E c (sn_id n) (sn_disk n) (commit r)) A r"
    and "out r = output_default" and "sn_applied n = commit r" and "sn_up n"
    and "sn_sm n = sm_after E (take (commit r) (a_log (an A (sn_id n))))"
  using sim_node_inv(3) [OF assms(1,2)] assms(3) unfolding node_inv_def up_inv_def by (auto split: if_splits)

lemma running_log:
  assumes "sim_inv E c s A" and "n \<in> set (sim_nodes s)" and "sn_raft n = Some r"
  defines "g \<equiv> a_log (an A (sn_id n))"
  shows "nid r = sn_id n" and "log_rel (rlog r) g" and "origin A g" and "wf_log (cur_term r) g"
    and "safe (voter_set c) A (cur_term r) g (commit r)"
    and "role r = Leader \<Longrightarrow> h_leader A (cur_term r) = Some (sn_id n) \<and> g = h_llog A (cur_term r)"
proof -
  note ns = running_node(1) [OF assms(1-3)]
  note st = nsim_state [OF ns, simplified]
  note ok = node_okD [OF ainv_node [OF sim_invD(1) [OF assms(1)], of "sn_id n"], unfolded st(3,5,6)]
  show "nid r = sn_id n" "log_rel (rlog r) g" "origin A g" "wf_log (cur_term r) g"
    "safe (voter_set c) A (cur_term r) g (commit r)"
    using st(1,7) ok(1,2,4) unfolding g_def by simp_all
  show "h_leader A (cur_term r) = Some (sn_id n) \<and> g = h_llog A (cur_term r)" if "role r = Leader"
    using ok(5,6) that unfolding g_def by simp
qed

text \<open>The disk of a node, running or not.\<close>

lemma node_disk:
  assumes "sim_inv E c s A" and "n \<in> set (sim_nodes s)"
  shows "disk_rel (sim_ctx E c 0 persisted_default 0) (an A (sn_id n)) (sn_disk n)"
proof (cases "sn_up n")
  case True
  then obtain r where r: "sn_raft n = Some r"
    using sim_node_inv(3) [OF assms] unfolding node_inv_def up_inv_def by auto
  show ?thesis
    using nsim_disk_rel [OF running_node(1,2) [OF assms r]]
      disk_rel_ctx [of E c "sn_id n" "sn_disk n" "commit r" _ _ 0 persisted_default 0] by simp
next
  case False
  then show ?thesis
    using sim_node_inv(3) [OF assms] disk_rel_ctx unfolding node_inv_def by metis
qed

section \<open>Agreement\<close>

text \<open>Committed prefixes agree, also between different points of a run.\<close>

lemma committed_prefix_agree:
  assumes inv: "sim_inv E c s A" "sim_inv E c s' A'" "ext A A'"
    and n: "n \<in> set (sim_nodes s)" "sn_raft n = Some r" and n': "n' \<in> set (sim_nodes s')" "sn_raft n' = Some r'"
    and k: "k \<le> commit r" "k \<le> commit r'"
  shows "take k (a_log (an A (sn_id n))) = take k (a_log (an A' (sn_id n')))"
proof -
  have "safe (voter_set c) A' (cur_term r) (a_log (an A (sn_id n))) k"
    using safe_le [OF safe_selfI [OF running_log(5) [OF inv(1) n] inv(3) order_refl] k(1)] .
  moreover have "safe (voter_set c) A' (cur_term r') (a_log (an A' (sn_id n'))) k"
    using safe_le [OF running_log(5) [OF inv(2) n'] k(2)] .
  ultimately show ?thesis
    by (rule safe_agree [OF sim_invD(1) [OF inv(2)], rotated 1]) simp_all
qed

lemma log_get_prefix:
  assumes "log_rel l g" and "log_get l idx = Some e"
  shows "0 < idx" and "idx \<le> length g" and "g ! (idx - 1) = e" and "take idx g \<noteq> []" and "last (take idx g) = e"
proof -
  have *: "0 < idx" "idx \<le> length g" "g ! (idx - 1) = e"
    using assms log_rel_get [OF assms(1), of idx] by (auto split: if_splits)
  then show "0 < idx" "idx \<le> length g" "g ! (idx - 1) = e" "take idx g \<noteq> []" by auto
  show "last (take idx g) = e" using * by (cases idx) (simp_all add: take_Suc_conv_app_nth)
qed

lemma committed_entry_agree:
  assumes inv: "sim_inv E c s A" "sim_inv E c s' A'" "ext A A'"
    and n: "n \<in> set (sim_nodes s)" "sn_raft n = Some r" and n': "n' \<in> set (sim_nodes s')" "sn_raft n' = Some r'"
    and k: "idx \<le> commit r" "idx \<le> commit r'"
    and e: "log_get (rlog r) idx = Some e" and e': "log_get (rlog r') idx = Some e'"
  shows "e = e'"
  using committed_prefix_agree [OF assms(1-9)]
    log_get_prefix(5) [OF running_log(2) [OF inv(1) n] e] log_get_prefix(5) [OF running_log(2) [OF inv(2) n'] e']
  by simp

lemma committed_in_later_leader:
  assumes inv: "sim_inv E c s A" "sim_inv E c s' A'" "ext A A'"
    and n: "n \<in> set (sim_nodes s)" "sn_raft n = Some r" and n': "n' \<in> set (sim_nodes s')" "sn_raft n' = Some r'"
    and idx: "idx \<le> commit r" "log_get (rlog r) idx = Some e"
    and ldr: "role r' = Leader" "cur_term r \<le> cur_term r'"
  shows "idx \<le> snap_index (rlog r') \<or> log_get (rlog r') idx = Some e"
proof -
  let ?g = "a_log (an A (sn_id n))" and ?g' = "a_log (an A' (sn_id n'))"
  note L = running_log [OF inv(2) n'] and G = log_get_prefix [OF running_log(2) [OF inv(1) n] idx(2)]
  have "safe (voter_set c) A' (cur_term r) ?g idx"
    using safe_le [OF safe_selfI [OF running_log(5) [OF inv(1) n] inv(3) order_refl] idx(1)] .
  then have "take idx ?g = take idx ?g'" "idx \<le> length ?g'"
    using safe_in_leader [OF sim_invD(1) [OF inv(2)] _ _ ldr(2), of ?g idx] L(6) [OF ldr(1)] by auto
  then show ?thesis
    using log_rel_get [OF L(2), of idx] G take_eq_nth [of idx ?g ?g' "idx - 1"] by simp
qed

lemma log_matching_facts:
  assumes inv: "sim_inv E c s A" and n: "n \<in> set (sim_nodes s)" "sn_raft n = Some r"
    and n': "n' \<in> set (sim_nodes s)" "sn_raft n' = Some r'"
    and t: "log_get (rlog r) idx = Some e" "log_get (rlog r') idx = Some e'" "e_term e = e_term e'"
    and k: "k \<le> idx" "log_get (rlog r) k = Some x" "log_get (rlog r') k = Some y"
  shows "x = y"
proof -
  let ?g = "a_log (an A (sn_id n))" and ?g' = "a_log (an A (sn_id n'))"
  note G = running_log(2,3) [OF inv n] and G' = running_log(2,3) [OF inv n']
  note e = log_get_prefix [OF G(1) t(1)] and e' = log_get_prefix [OF G'(1) t(2)]
  have "take idx ?g = take idx ?g'"
    using origin_matching [OF G(2) G'(2) e(2) e'(2)] e(1,3) e'(3) t(3) by (simp add: tm_def)
  then have "take k ?g = take k ?g'" by (rule take_take_le [OF _ k(1)])
  then show ?thesis
    using log_get_prefix(5) [OF G(1) k(2)] log_get_prefix(5) [OF G'(1) k(3)] by simp
qed

section \<open>The log matching check\<close>

definition seen_ok :: "(index \<Rightarrow> entry \<Rightarrow> bool) \<Rightarrow> (index \<times> raft_term, entry) btree_map \<Rightarrow> bool" where
  "seen_ok P seen \<longleftrightarrow> (\<forall>idx t e. bt_get seen (idx, t) = Some e \<longrightarrow> P idx e \<and> e_term e = t)"

lemma match_log_ok:
  assumes agree: "\<forall>idx e e'. P idx e \<longrightarrow> P idx e' \<longrightarrow> e_term e = e_term e' \<longrightarrow> e = e'"
    and l: "\<forall>idx e. log_get l idx = Some e \<longrightarrow> P idx e" and seen: "seen_ok P seen"
  shows "\<exists>seen'. match_log l idxs seen = Inr seen' \<and> seen_ok P seen'"
  using seen
proof (induction idxs arbitrary: seen)
  case (Cons idx idxs)
  show ?case
  proof (cases "log_get l idx")
    case None
    then show ?thesis using Cons by simp
  next
    case (Some e)
    show ?thesis
    proof (cases "bt_get seen (idx, e_term e)")
      case None
      have "seen_ok P (bt_insert (idx, e_term e) e seen)"
        using Cons.prems l Some unfolding seen_ok_def by simp
      then show ?thesis using Cons.IH Some None by simp
    next
      case prev: (Some p)
      then have "p = e" using agree l Some Cons.prems unfolding seen_ok_def by blast
      then show ?thesis using Cons Some prev by simp
    qed
  qed
qed simp

lemma match_nodes_ok:
  assumes agree: "\<forall>idx e e'. P idx e \<longrightarrow> P idx e' \<longrightarrow> e_term e = e_term e' \<longrightarrow> e = e'"
    and l: "\<forall>n\<in>set ns. \<forall>r idx e. sn_raft n = Some r \<longrightarrow> log_get (rlog r) idx = Some e \<longrightarrow> P idx e"
    and seen: "seen_ok P seen"
  shows "\<exists>seen'. match_nodes ns seen = Inr seen' \<and> seen_ok P seen'"
  using l seen
proof (induction ns arbitrary: seen)
  case (Cons n ns)
  have IH: "\<exists>seen'. match_nodes ns seen = Inr seen' \<and> seen_ok P seen'" if "seen_ok P seen" for seen
    by (rule Cons.IH [OF _ that]) (use Cons.prems(1) in simp)
  show ?case
  proof (cases "sn_raft n")
    case None
    then show ?thesis using IH [OF Cons.prems(2)] by simp
  next
    case (Some r)
    have "\<forall>idx e. log_get (rlog r) idx = Some e \<longrightarrow> P idx e"
      using Cons.prems(1) Some by simp
    then obtain seen' where "match_log (rlog r) [first_index (rlog r)..<last_index (rlog r) + 1] seen = Inr seen'"
      "seen_ok P seen'"
      using match_log_ok [OF agree _ Cons.prems(2)] by blast
    then show ?thesis using IH [OF Cons.prems(2)] IH [of seen'] Some by (cases "sn_up n") auto
  qed
qed simp

lemma check_log_matching_ok:
  assumes "sim_inv E c s A"
  shows "\<exists>seen. check_log_matching s = Inr seen"
proof -
  define P where "P idx e \<longleftrightarrow> (\<exists>n r. n \<in> set (sim_nodes s) \<and> sn_raft n = Some r \<and> log_get (rlog r) idx = Some e)"
    for idx e
  have "\<forall>idx e e'. P idx e \<longrightarrow> P idx e' \<longrightarrow> e_term e = e_term e' \<longrightarrow> e = e'"
    using log_matching_facts [OF assms] unfolding P_def by blast
  then have "\<exists>seen'. match_nodes (sim_nodes s) bt_empty = Inr seen' \<and> seen_ok P seen'"
    by (rule match_nodes_ok) (auto simp: P_def seen_ok_def)
  then show ?thesis by (auto simp: check_log_matching_def)
qed

section \<open>What is on disk\<close>

text \<open>An entry is durable on a node when its disk holds it or a snapshot that covers it.\<close>

definition disk_covers :: "persisted \<Rightarrow> index \<Rightarrow> entry \<Rightarrow> bool" where
  "disk_covers d idx e \<longleftrightarrow>
     (case p_snapshot d of Some s \<Rightarrow> idx \<le> s_last_index s | None \<Rightarrow> False) \<or> e \<in> set (p_entries d)"

lemma disk_covers_log:
  assumes "disk_rel X a d" and "0 < idx" and "idx \<le> length (a_log a)" and "a_log a ! (idx - 1) = e"
  shows "disk_covers d idx e"
proof -
  have ge: "e \<in> set (drop k (a_log a))" if "k < idx" for k
    using that assms(2-4) by (auto simp: in_set_conv_nth intro!: exI [of _ "idx - 1 - k"])
  show ?thesis
  proof (cases "p_snapshot d")
    case None
    then show ?thesis using ge [OF assms(2)] assms(1) unfolding disk_rel_def disk_covers_def by simp
  next
    case (Some s)
    then show ?thesis
      using ge [of "s_last_index s"] assms(1) unfolding disk_rel_def disk_covers_def by (simp add: not_le [symmetric]) blast
  qed
qed

text \<open>The quorum that acknowledged a committed prefix still has it.\<close>

lemma ack_kept:
  assumes inv: "ainv V A" "finite V" and com: "committed V A t m" and j: "(j, t, m') \<in> h_acks A" "m \<le> m'"
  shows "take m (a_log (an A j)) = take m (h_llog A t)"
proof -
  have "has A u t m" if "t < u \<and> u \<le> a_term (an A j) \<and> h_leader A u \<noteq> None" for u
    using that leader_completeness [OF inv com, of u] by auto
  then have later: "\<forall>u. t < u \<and> u \<le> a_term (an A j) \<and> h_leader A u \<noteq> None \<longrightarrow> has A u t m"
    by (intro allI impI)
  note ok = ainv_ack [OF inv(1) j(1), unfolded ack_ok_def, THEN conjunct2, THEN conjunct2, THEN conjunct2]
  from ok [THEN spec, THEN mp, OF j(2), THEN mp, OF later] show ?thesis .
qed

lemma committed_on_quorum:
  assumes inv: "ainv V A" "finite V" and com: "committed V A t m"
  shows "\<exists>Q. majority V Q \<and> (\<forall>j\<in>Q. take m (a_log (an A j)) = take m (h_llog A t))"
proof -
  obtain Q where Q: "majority V Q" "\<forall>j\<in>Q. \<exists>m'\<ge>m. (j, t, m') \<in> h_acks A"
    using com unfolding committed_def by (elim conjE exE)
  show ?thesis using Q ack_kept [OF inv com] by (intro exI [of _ Q] conjI ballI) auto
qed

lemma safe_on_quorum:
  assumes inv: "ainv V A" "finite V" and "safe V A T l k" and "0 < idx" and "idx \<le> k" and "l ! (idx - 1) = e"
  shows "\<exists>Q. majority V Q \<and> (\<forall>j\<in>Q. idx \<le> length (a_log (an A j)) \<and> a_log (an A j) ! (idx - 1) = e)"
proof -
  obtain t m where t: "committed V A t m" "k \<le> m" "take k l = take k (h_llog A t)"
    using assms(3-5) unfolding safe_def by auto
  obtain Q where Q: "majority V Q" "\<forall>j\<in>Q. take m (a_log (an A j)) = take m (h_llog A t)"
    using committed_on_quorum [OF inv t(1)] by blast
  have m: "m \<le> length (h_llog A t)" using t(1) unfolding committed_def by blast
  have "h_llog A t ! (idx - 1) = e" using take_eq_nth [OF t(3), of "idx - 1"] assms(4-6) by simp
  then have "idx \<le> length (a_log (an A j)) \<and> a_log (an A j) ! (idx - 1) = e" if "j \<in> Q" for j
    using take_eq_nth [of m "a_log (an A j)" "h_llog A t" "idx - 1"] take_eq_length [of m "a_log (an A j)" "h_llog A t"]
      Q(2) that m t(2) assms(4,5) by auto
  then show ?thesis using Q(1) by blast
qed

text \<open>Whatever any node has applied is durable on a majority.\<close>

lemma applied_durable:
  assumes inv: "sim_inv E c s A" and ap: "bt_get (sim_applied s) idx = Some e"
  shows "majority (voter_set c) {i \<in> voter_set c. disk_covers (sn_disk (sim_nodes s ! (i - 1))) idx e}"
proof -
  obtain T l k where s: "safe (voter_set c) A T l k" "0 < idx" "idx \<le> k" "l ! (idx - 1) = e"
    using sim_invD(4) [OF inv ap] unfolding applied_ok_def by blast
  obtain Q where Q: "majority (voter_set c) Q"
    "\<forall>j\<in>Q. idx \<le> length (a_log (an A j)) \<and> a_log (an A j) ! (idx - 1) = e"
    using safe_on_quorum [OF sim_invD(1) [OF inv] _ s] by auto
  have "disk_covers (sn_disk (sim_nodes s ! (j - 1))) idx e" if j: "j \<in> Q" for j
  proof -
    have v: "j \<in> voter_set c" using Q(1) j unfolding majority_def by blast
    let ?n = "sim_nodes s ! (j - 1)"
    have n: "?n \<in> set (sim_nodes s)" using voters_index [OF v sim_invD(2) [OF inv]] by simp
    have "sn_id ?n = j"
      using sim_invD(5) [OF inv v] unfolding node_inv_def up_inv_def by (auto split: if_splits)
    then show ?thesis using disk_covers_log [OF node_disk [OF inv n]] Q(2) j s(2) by simp
  qed
  then have "Q \<subseteq> {i \<in> voter_set c. disk_covers (sn_disk (sim_nodes s ! (i - 1))) idx e}"
    using Q(1) unfolding majority_def by blast
  then show ?thesis using Q(1) card_mono [of "{i \<in> voter_set c. disk_covers (sn_disk (sim_nodes s ! (i - 1))) idx e}" Q]
    unfolding majority_def by auto
qed

text \<open>A vote that was sent is on the voter's disk.\<close>

lemma vote_durable:
  assumes inv: "sim_inv E c s A" and m: "m \<in> sim_net s" "m_body m = RequestVoteResp True"
    and n: "n \<in> set (sim_nodes s)" "sn_id n = m_from m"
  shows "m_term m < hs_term (p_hard_state (sn_disk n)) \<or>
    p_hard_state (sn_disk n) = \<lparr>hs_term = m_term m, hs_voted_for = Some (m_to m)\<rparr>"
proof -
  let ?a = "an A (sn_id n)"
  have "AVote (m_from m) (m_to m) (m_term m) \<in> anet A"
    using sim_invD(3) [OF inv m(1)] m(2) unfolding msg_rel_def by simp
  then have v: "h_vote A (sn_id n) (m_term m) = Some (m_to m)"
    using ainv_msg [OF sim_invD(1) [OF inv]] n(2) by fastforce
  have "m_term m \<le> a_term ?a" using ainv_vote [OF sim_invD(1) [OF inv] v] unfolding vote_ok_def by simp
  moreover have "h_vote A (sn_id n) (a_term ?a) = a_vote ?a"
    using node_okD(3) [OF ainv_node [OF sim_invD(1) [OF inv]]] .
  moreover have "p_hard_state (sn_disk n) = \<lparr>hs_term = a_term ?a, hs_voted_for = a_vote ?a\<rparr>"
    using node_disk [OF inv n(1)] unfolding disk_rel_def by blast
  ultimately show ?thesis using v by (cases "m_term m = a_term ?a") auto
qed

text \<open>A snapshot restores to the state machine any node had at that index, at any later time too.\<close>

lemma snapshot_state:
  assumes env: "env_ok E" and inv: "sim_inv E c s A" "sim_inv E c s' A'" "ext A A'"
    and n: "n \<in> set (sim_nodes s)" "p_snapshot (sn_disk n) = Some snap"
    and n': "n' \<in> set (sim_nodes s')" "sn_raft n' = Some r'" "sn_applied n' = s_last_index snap"
  shows "sm_restore mem_backend (dec_snap E) (s_data snap) (sm_new bt_empty) = Some (sn_sm n')"
proof -
  let ?g = "a_log (an A (sn_id n))" and ?k = "s_last_index snap"
  have d: "?k \<le> a_commit (an A (sn_id n))"
    "snap_rel (sim_ctx E c 0 persisted_default 0) snap (take ?k ?g)"
    using node_disk [OF inv(1) n(1)] n(2) unfolding disk_rel_def by simp_all
  have "safe (voter_set c) A' (a_term (an A (sn_id n))) ?g ?k"
    using safe_le [OF safe_selfI [OF node_okD(4) [OF ainv_node [OF sim_invD(1) [OF inv(1)]]] inv(3) order_refl] d(1)] .
  then have "take ?k ?g = take ?k (a_log (an A' (sn_id n')))"
    using safe_agree [OF sim_invD(1) [OF inv(2)] _ _ running_log(5) [OF inv(2) n'(1,2)], of _ ?g ?k]
      running_node(3) [OF inv(2) n'(1,2)] n'(3) by simp
  then have "sn_sm n' = sm_after E (take ?k ?g)"
    using running_node(3,5) [OF inv(2) n'(1,2)] n'(3) by simp
  then show ?thesis
    using restore_after [OF env, of "sm_new bt_empty"] d(2) by (simp add: snap_rel_def mem.sm_ok_def sm_new_def)
qed

text \<open>Between events the disk of a running node is its durable state.\<close>

lemma running_disk:
  assumes "sim_inv E c s A" and "n \<in> set (sim_nodes s)" and "sn_raft n = Some r"
  shows "sn_disk n = \<lparr>p_hard_state = hs r, p_entries = log_entries (rlog r), p_snapshot = node_snapshot r\<rparr>"
  using nsimD(6) [OF running_node(1) [OF assms]] running_node(2) [OF assms] unfolding out_rel_def by simp

lemma snapshot_base:
  assumes "sim_inv E c s A" and "n \<in> set (sim_nodes s)" and "sn_raft n = Some r"
  shows "rlog r = log_new (case node_snapshot r of None \<Rightarrow> 0 | Some sp \<Rightarrow> s_last_index sp)
    (case node_snapshot r of None \<Rightarrow> 0 | Some sp \<Rightarrow> s_last_term sp) (log_entries (rlog r))"
proof -
  let ?g = "a_log (an A (sn_id n))"
  have lr: "log_rel (rlog r) ?g" by (rule running_log(2) [OF assms])
  have "snap_index (rlog r) = (case node_snapshot r of None \<Rightarrow> 0 | Some sp \<Rightarrow> s_last_index sp) \<and>
      snap_term (rlog r) = (case node_snapshot r of None \<Rightarrow> 0 | Some sp \<Rightarrow> s_last_term sp)"
  proof (cases "node_snapshot r")
    case None
    then show ?thesis
      using nsimD(4) [OF running_node(1) [OF assms]] lr by (simp add: state_rel_def log_rel_def tm_def)
  next
    case (Some sp)
    then have "s_last_index sp = snap_index (rlog r)"
      "tm (take (snap_index (rlog r)) ?g) (snap_index (rlog r)) = s_last_term sp"
      using nsimD(4) [OF running_node(1) [OF assms]] lr by (auto simp: state_rel_def snap_rel_def log_rel_def min_def)
    then show ?thesis
      using Some lr tm_take [of "snap_index (rlog r)" "take (snap_index (rlog r)) ?g" ?g "snap_index (rlog r)"]
      by (simp add: log_rel_def)
  qed
  then show ?thesis by (simp add: log_new_def)
qed

text \<open>Draining a node that has no output and has nothing left to compact changes no raft state.\<close>

lemma process_output_idle:
  assumes "process_output E c i s = Inr s'" and "i < length (sim_nodes s)" and "sn_raft (sim_nodes s ! i) = Some r"
    and "out r = output_default" and "sn_applied (sim_nodes s ! i) \<le> snap_index (rlog r)"
  shows "sn_raft (sim_nodes s' ! i) = Some r" and "sn_disk (sim_nodes s' ! i) = sn_disk (sim_nodes s ! i)"
    and "sn_up (sim_nodes s' ! i) = sn_up (sim_nodes s ! i)"
proof -
  let ?n = "sim_nodes s ! i"
  have r: "take_output r = (output_default, r)" using assms(4) by (simp add: take_output_def)
  have p: "persist_stage E output_default (?n\<lparr>sn_raft := Some r\<rparr>) = Inr ?n"
    using assms(3) by (simp add: persist_stage_def)
  define n3 where "n3 = (if sc_snapshot_every c \<le> sn_applied_since_snap ?n
    then ?n\<lparr>sn_raft := Some r, sn_applied_since_snap := 0\<rparr> else ?n)"
  have "compact (sn_applied ?n) data r = (None, r)" for data using assms(5) by (simp add: compact_def)
  then have n3: "compact_stage E c ?n = Inr n3" "sn_raft n3 = Some r" "sn_disk n3 = sn_disk ?n" "sn_up n3 = sn_up ?n"
    using assms(3) by (simp_all add: compact_stage_def n3_def)
  obtain n4 rs where n4: "read_stage output_default n3 = (n4, rs)" by force
  note sel = read_stage_sel [of output_default n3, unfolded n4 fst_conv]
  have "o_committed output_default = []" by (simp add: output_default_def)
  then have "\<exists>lb. s' = s\<lparr>sim_nodes := (sim_nodes s)[i := n4], sim_applied := sim_applied s,
      sim_resps := sim_resps s \<union> set ([] @ rs), sim_net := sim_net s \<union> set (o_messages output_default), sim_leaders := lb\<rparr>"
    using assms(1,3) r p n3(1,2) n4 sel(1) by (auto simp: process_output_def split: sum.splits)
  then have "sim_nodes s' = (sim_nodes s)[i := n4]" by auto
  then show "sn_raft (sim_nodes s' ! i) = Some r" "sn_disk (sim_nodes s' ! i) = sn_disk ?n"
    "sn_up (sim_nodes s' ! i) = sn_up ?n"
    using assms(2) sel n3 by simp_all
qed

lemma restart_fields:
  "hs (raft_node_new cf vs d) = p_hard_state d" "node_snapshot (raft_node_new cf vs d) = p_snapshot d"
  "rlog (raft_node_new cf vs d) = log_new (case p_snapshot d of None \<Rightarrow> 0 | Some sp \<Rightarrow> s_last_index sp)
     (case p_snapshot d of None \<Rightarrow> 0 | Some sp \<Rightarrow> s_last_term sp) (p_entries d)"
  "role (raft_node_new cf vs d) = Follower" "out (raft_node_new cf vs d) = output_default"
  by (simp_all add: raft_node_new_def Let_def split: option.split)

lemma crash_restart_node:
  assumes inv: "sim_inv E c s A" and i: "i \<in> voter_set c" and r: "sn_raft (sim_nodes s ! (i - 1)) = Some r"
    and re: "on_restart E c i (crash i s) = Inr s'"
  shows "\<exists>r'. sn_raft (sim_nodes s' ! (i - 1)) = Some r' \<and> hs r' = hs r \<and> rlog r' = rlog r \<and>
    node_snapshot r' = node_snapshot r \<and> role r' = Follower"
proof -
  let ?n = "sim_nodes s ! (i - 1)"
  have lt: "i - 1 < length (sim_nodes s)" by (rule voters_index [OF i sim_invD(2) [OF inv]])
  then have n: "?n \<in> set (sim_nodes s)" by simp
  have up: "sn_up ?n" by (rule running_node(4) [OF inv n r])
  define m where "m = sim_nodes (crash i s) ! (i - 1)"
  have m: "\<not> sn_up m" "sn_disk m = sn_disk ?n" "sn_applied m = 0" "length (sim_nodes (crash i s)) = length (sim_nodes s)"
    using up lt by (simp_all add: m_def crash_def Let_def)
  define r' where "r' = raft_node_new (node_cfg c i (sn_restarts m + 1)) (sim_voters c) (sn_disk m)"
  have f: "hs r' = hs r" "rlog r' = rlog r" "node_snapshot r' = node_snapshot r" "role r' = Follower" "out r' = output_default"
    using running_disk [OF inv n r] snapshot_base [OF inv n r] m(2) by (simp_all add: r'_def restart_fields)
  have si: "snap_index (rlog r) = (case p_snapshot (sn_disk m) of None \<Rightarrow> 0 | Some sp \<Rightarrow> s_last_index sp)"
    using snapshot_base [OF inv n r] running_disk [OF inv n r] m(2)
    by (metis log_new_def persisted.select_convs(3) raft_log.select_convs(1))
  obtain n2 where n2: "process_output E c (i - 1) ((crash i s)\<lparr>sim_nodes := (sim_nodes (crash i s))[i - 1 := n2\<lparr>sn_up := True\<rparr>]\<rparr>) = Inr s'"
    "sn_raft n2 = Some r'" "sn_applied n2 \<le> snap_index (rlog r)"
    using re m(1,3) si unfolding on_restart_def Let_def m_def [symmetric] r'_def [symmetric]
    by (auto split: option.splits sum.splits)
  then show ?thesis
    using process_output_idle(1) [OF n2(1), of r'] lt m(4) f by auto
qed

end
