(* ===== verification/Byte_Codec.thy ===== *)
theory Byte_Codec
  imports Kvsm
begin

text \<open>
  A concrete, executable serialisation of commands and snapshot payloads. It stands for \<open>bincode\<close>
  where a statement about the program has to be instantiated: what the sources rely on, that
  decoding inverts encoding, holds of it for every value.
\<close>

section \<open>Writers and readers\<close>

definition put_nat :: "nat \<Rightarrow> bytes" where
  "put_nat n = replicate n 1 @ [0]"

fun get_nat :: "bytes \<Rightarrow> (nat \<times> bytes) option" where
  "get_nat [] = None"
| "get_nat (b # bs) =
     (if b = 0 then Some (0, bs)
      else case get_nat bs of None \<Rightarrow> None | Some (n, r) \<Rightarrow> Some (Suc n, r))"

lemma get_put_nat [codec_simps]: "get_nat (put_nat n @ r) = Some (n, r)"
  by (induction n) (simp_all add: put_nat_def)

definition put_bytes :: "bytes \<Rightarrow> bytes" where
  "put_bytes bs = put_nat (length bs) @ bs"

definition get_bytes :: "bytes \<Rightarrow> (bytes \<times> bytes) option" where
  "get_bytes bs =
     (case get_nat bs of
        None \<Rightarrow> None
      | Some (n, r) \<Rightarrow> if n \<le> length r then Some (take n r, drop n r) else None)"

lemma get_put_bytes [codec_simps]: "get_bytes (put_bytes bs @ r) = Some (bs, r)"
  by (simp add: get_bytes_def put_bytes_def get_put_nat)

fun put_opt :: "bytes option \<Rightarrow> bytes" where
  "put_opt None = [0]"
| "put_opt (Some x) = 1 # put_bytes x"

fun get_opt :: "bytes \<Rightarrow> (bytes option \<times> bytes) option" where
  "get_opt [] = None"
| "get_opt (b # bs) =
     (if b = 0 then Some (None, bs)
      else case get_bytes bs of None \<Rightarrow> None | Some (x, r) \<Rightarrow> Some (Some x, r))"

lemma get_put_opt [codec_simps]: "get_opt (put_opt x @ r) = Some (x, r)"
  by (cases x) (simp_all add: get_put_bytes)

text \<open>A list is its length followed by its elements.\<close>

fun get_many :: "(bytes \<Rightarrow> ('a \<times> bytes) option) \<Rightarrow> nat \<Rightarrow> bytes \<Rightarrow> ('a list \<times> bytes) option" where
  "get_many g 0 bs = Some ([], bs)"
| "get_many g (Suc n) bs =
     (case g bs of
        None \<Rightarrow> None
      | Some (x, r) \<Rightarrow> (case get_many g n r of None \<Rightarrow> None | Some (xs, r') \<Rightarrow> Some (x # xs, r')))"

definition put_list :: "('a \<Rightarrow> bytes) \<Rightarrow> 'a list \<Rightarrow> bytes" where
  "put_list p xs = put_nat (length xs) @ concat (map p xs)"

definition get_list :: "(bytes \<Rightarrow> ('a \<times> bytes) option) \<Rightarrow> bytes \<Rightarrow> ('a list \<times> bytes) option" where
  "get_list g bs = (case get_nat bs of None \<Rightarrow> None | Some (n, r) \<Rightarrow> get_many g n r)"

lemma get_put_list:
  assumes "\<And>x r. g (p x @ r) = Some (x, r)"
  shows "get_list g (put_list p xs @ r) = Some (xs, r)"
proof -
  have "get_many g (length xs) (concat (map p xs) @ r) = Some (xs, r)"
    by (induction xs) (simp_all add: assms)
  then show ?thesis by (simp add: get_list_def put_list_def get_put_nat)
qed

section \<open>Commands and snapshots\<close>

fun put_op :: "op \<Rightarrow> bytes" where
  "put_op (Put k v) = 0 # put_bytes k @ put_bytes v"
| "put_op (Delete k) = 1 # put_bytes k"
| "put_op (Cas k e n) = 2 # put_bytes k @ put_opt e @ put_opt n"
| "put_op (Get k) = 3 # put_bytes k"

fun get_op :: "bytes \<Rightarrow> (op \<times> bytes) option" where
  "get_op [] = None"
| "get_op (t # bs) =
     (case get_bytes bs of
        None \<Rightarrow> None
      | Some (k, r) \<Rightarrow>
          if t = 0 then (case get_bytes r of None \<Rightarrow> None | Some (v, r') \<Rightarrow> Some (Put k v, r'))
          else if t = 1 then Some (Delete k, r)
          else if t = 2 then
            (case get_opt r of
               None \<Rightarrow> None
             | Some (e, r') \<Rightarrow> (case get_opt r' of None \<Rightarrow> None | Some (n, r'') \<Rightarrow> Some (Cas k e n, r'')))
          else Some (Get k, r))"

lemma get_put_op [codec_simps]: "get_op (put_op x @ r) = Some (x, r)"
  by (cases x) (simp_all add: get_put_bytes get_put_opt)

definition put_command :: "command \<Rightarrow> bytes" where
  "put_command c = put_nat (cmd_session c) @ put_nat (cmd_seq c) @ put_op (cmd_op c)"

definition get_command :: "bytes \<Rightarrow> command option" where
  "get_command bs =
     (case get_nat bs of
        None \<Rightarrow> None
      | Some (i, r) \<Rightarrow>
          (case get_nat r of
             None \<Rightarrow> None
           | Some (q, r') \<Rightarrow>
               (case get_op r' of
                  None \<Rightarrow> None
                | Some (x, _) \<Rightarrow> Some \<lparr>cmd_session = i, cmd_seq = q, cmd_op = x\<rparr>)))"

lemma get_put_command: "get_command (put_command c) = Some c"
  using get_put_op [of "cmd_op c" "[]"] by (simp add: get_command_def put_command_def get_put_nat)

fun put_result :: "op_result \<Rightarrow> bytes" where
  "put_result OpOk = [0]"
| "put_result (OpValue v) = 1 # put_opt v"
| "put_result (OpCas b v) = (if b then 2 else 3) # put_opt v"
| "put_result OpStale = [4]"

fun get_result :: "bytes \<Rightarrow> (op_result \<times> bytes) option" where
  "get_result [] = None"
| "get_result (t # bs) =
     (if t = 0 then Some (OpOk, bs)
      else if t = 4 then Some (OpStale, bs)
      else case get_opt bs of
             None \<Rightarrow> None
           | Some (v, r) \<Rightarrow> Some (if t = 1 then OpValue v else OpCas (t = 2) v, r))"

lemma get_put_result [codec_simps]: "get_result (put_result x @ r) = Some (x, r)"
  by (cases x) (simp_all add: get_put_opt)

definition put_session :: "nat \<times> session_state \<Rightarrow> bytes" where
  "put_session s = put_nat (fst s) @ put_nat (last_seq (snd s)) @ put_result (last_result (snd s))"

definition get_session :: "bytes \<Rightarrow> ((nat \<times> session_state) \<times> bytes) option" where
  "get_session bs =
     (case get_nat bs of
        None \<Rightarrow> None
      | Some (i, r) \<Rightarrow>
          (case get_nat r of
             None \<Rightarrow> None
           | Some (q, r') \<Rightarrow>
               (case get_result r' of
                  None \<Rightarrow> None
                | Some (x, r'') \<Rightarrow> Some ((i, \<lparr>last_seq = q, last_result = x\<rparr>), r''))))"

lemma get_put_session: "get_session (put_session s @ r) = Some (s, r)"
  by (cases s) (simp add: get_session_def put_session_def get_put_nat get_put_result)

definition put_kv :: "bytes \<times> bytes \<Rightarrow> bytes" where
  "put_kv kv = put_bytes (fst kv) @ put_bytes (snd kv)"

definition get_kv :: "bytes \<Rightarrow> ((bytes \<times> bytes) \<times> bytes) option" where
  "get_kv bs =
     (case get_bytes bs of
        None \<Rightarrow> None
      | Some (k, r) \<Rightarrow> (case get_bytes r of None \<Rightarrow> None | Some (v, r') \<Rightarrow> Some ((k, v), r')))"

lemma get_put_kv: "get_kv (put_kv kv @ r) = Some (kv, r)"
  by (cases kv) (simp add: get_kv_def put_kv_def get_put_bytes)

definition put_payload :: "snapshot_payload \<Rightarrow> bytes" where
  "put_payload p = put_list put_kv (pl_kvs p) @ put_list put_session (pl_sessions p)"

definition get_payload :: "bytes \<Rightarrow> snapshot_payload option" where
  "get_payload bs =
     (case get_list get_kv bs of
        None \<Rightarrow> None
      | Some (kvs, r) \<Rightarrow>
          (case get_list get_session r of
             None \<Rightarrow> None
           | Some (ss, _) \<Rightarrow> Some \<lparr>pl_kvs = kvs, pl_sessions = ss\<rparr>))"

lemma get_put_payload: "get_payload (put_payload p) = Some p"
  using get_put_list [of get_kv put_kv, OF get_put_kv, of "pl_kvs p" "put_list put_session (pl_sessions p)"]
    get_put_list [of get_session put_session, OF get_put_session, of "pl_sessions p" "[]"]
  by (simp add: get_payload_def put_payload_def)

end
