(* ===== verification/Sim_Runs.thy ===== *)
theory Sim_Runs
  imports Cluster_Facts Byte_Codec
begin

text \<open>
  Sequences of events of the simulated cluster. \<open>sim_exec\<close> runs a list of events and checks that each
  can occur, so that concrete histories can be evaluated; \<open>demo_env\<close> instantiates the code the sources
  only call with the codec of \<open>Byte_Codec\<close>.
\<close>

fun sim_exec :: "sim_env \<Rightarrow> sim_config \<Rightarrow> sim_event list \<Rightarrow> sim \<Rightarrow> sim option" where
  "sim_exec E c [] s = Some s"
| "sim_exec E c (ev # evs) s =
     (if enabled c s ev
      then case sim_handle E c ev s of Inl _ \<Rightarrow> None | Inr s' \<Rightarrow> sim_exec E c evs s'
      else None)"

definition demo_env :: sim_env where
  "demo_env = \<lparr>enc_cmd = put_command, dec_cmd = get_command, enc_snap = put_payload,
               dec_snap = get_payload, hash_iter = rev\<rparr>"

lemma demo_env_ok: "env_ok demo_env"
  by (simp add: env_ok_def demo_env_def get_put_command get_put_payload)

section \<open>Evaluation\<close>

text \<open>The generator's three shifts, as rewrite rules for numerals only.\<close>

definition xs1 :: "64 word \<Rightarrow> 64 word" where "xs1 x = x XOR drop_bit 12 x"
definition xs2 :: "64 word \<Rightarrow> 64 word" where "xs2 x = x XOR push_bit 25 x"
definition xs3 :: "64 word \<Rightarrow> 64 word" where "xs3 x = x XOR drop_bit 27 x"

lemma xs2_nat: "xs2 (word_of_nat x) = word_of_nat (take_bit 64 (x XOR push_bit 25 x))"
  by (rule bit_word_eqI) (auto simp: xs2_def bit_simps)

lemma xs_numeral:
  "xs1 (numeral k) = numeral k XOR drop_bit 12 (numeral k)"
  "xs2 (numeral k) = word_of_nat (take_bit 64 (numeral k XOR push_bit 25 (numeral k)))"
  "xs3 (numeral k) = numeral k XOR drop_bit 27 (numeral k)"
  using xs2_nat [of "numeral k"] by (simp_all only: xs1_def xs3_def of_nat_numeral)

definition xs :: "64 word \<Rightarrow> 64 word" where "xs x = xs3 (xs2 (xs1 x))"

lemma xs_eval: "xs (numeral k) = xs3 (xs2 (xs1 (numeral k)))"
  by (simp only: xs_def)

definition draw :: "nat \<Rightarrow> nat \<Rightarrow> nat \<Rightarrow> nat" where
  "draw mn mx r = (mn + (r mod max ((mx + 2 ^ 32 - mn) mod 2 ^ 32) 1) mod 2 ^ 32) mod 2 ^ 32"

lemma draw_eval: "draw (numeral a) (numeral b) (numeral k) =
    (numeral a + (numeral k mod max ((numeral b + 4294967296 - numeral a) mod 4294967296) 1) mod 4294967296) mod 4294967296"
  by (simp add: draw_def)

lemma reset_election_timer_eval:
  "reset_election_timer n =
     n\<lparr>rng := xs (rng n),
       randomized_timeout := draw (c_election_tick_min (cfg n)) (c_election_tick_max (cfg n))
         (unat (xs (rng n) * 0x2545F4914F6CDD1D)),
       election_elapsed := 0\<rparr>"
  by (simp only: reset_election_timer_def next_rand_def xs_def xs1_def xs2_def xs3_def draw_def Let_def
      prod.case raft_node.simps)

lemma Suc_Suc_0: "Suc (Suc 0) = 2"
  by simp

lemmas sim_eval = xs_numeral
  Let_def sort_desc_def upt_conv_Cons Suc_Suc_0 xs_eval draw_eval reset_election_timer_eval
  output_default_def hard_state_default_def persisted_default_def
  config_new_def log_new_def first_index_def last_index_def last_term_def log_term_def log_get_def
  log_slice_def log_push_def truncate_from_def log_compact_def reset_to_snapshot_def
  progress_new_def push_msg_def take_output_def set_term_def set_vote_def
  raft_node_new_def voters_at_def voters_def quorum_def lease_valid_def count_granted_def
  log_up_to_date_def sync_progress_with_voters_def set_progress_def send_entries_def send_append_def
  broadcast_append_def become_follower_def commit_one_def advance_commit_to_def
  maybe_advance_commit_def append_local_def propose_def propose_conf_change_def release_reads_def
  process_read_acks_def read_index_def become_leader_def campaign_def campaign_pre_def tick_def
  handle_pre_vote_def handle_pre_vote_resp_def handle_request_vote_def handle_request_vote_resp_def
  reply_append_def append_verified_def handle_append_entries_def handle_append_resp_def
  handle_install_snapshot_def handle_install_snapshot_resp_def answer_stale_def leader_of_msg_def
  dispatch_def step_def compact_def bt_empty_def bt_get_def bt_remove_def bt_keys_def bt_retain_def
  bt_or_insert_def bt_collect_def disk_append_def persist_output_def disk_compact_def mem_set_def
  below_end_def mem_scan_def mem_clear_and_load_def mem_backend_def sm_new_def
  execute_and_record_def sm_apply_def sm_read_def sm_read_range_def sm_payload_def sm_snapshot_def
  sm_restore_def sm_run_def sim_voters_def node_cfg_def boot_node_def
  boot_def persist_stage_def check_applied_def apply_cmd_def apply_entry_def compact_stage_def
  read_stage_def check_leader_def process_output_def set_raft_def on_node_tick_def on_raft_msg_def
  send_client_resp_def try_propose_def on_client_read_def on_client_req_def crash_def on_restart_def
  start_partition_def check_log_matching_def get_put_command get_put_payload demo_env_def

section \<open>A run\<close>

text \<open>
  Three nodes; node 2 times out first, wins the election of term 1 with the vote of node 1, and
  replicates two client writes to it. Both nodes take a snapshot after the first write.
\<close>

definition demo_cfg :: sim_config where
  "demo_cfg = \<lparr>sc_seed = 1, sc_nodes = 3, sc_snapshot_every = 2\<rparr>"

definition demo_entry :: "nat \<Rightarrow> nat \<Rightarrow> entry" where
  "demo_entry sq v = \<lparr>e_term = 1, e_index = sq + 1,
     e_payload = Normal (put_command \<lparr>cmd_session = 101, cmd_seq = sq, cmd_op = Put [7] (encode_val v)\<rparr>)\<rparr>"

definition demo_msg :: "node_id \<Rightarrow> node_id \<Rightarrow> message_body \<Rightarrow> sim_event" where
  "demo_msg src dst b = RaftMsg \<lparr>m_from = src, m_to = dst, m_term = 1, m_body = b\<rparr>"

definition demo_election :: "sim_event list" where
  "demo_election =
     [NodeTick 2, NodeTick 2, NodeTick 2, NodeTick 2, NodeTick 2, NodeTick 2, NodeTick 2, NodeTick 2,
      NodeTick 2, NodeTick 2, demo_msg 2 1 (PreVote 0 0), demo_msg 1 2 (PreVoteResp True),
      demo_msg 2 1 (RequestVote 0 0), demo_msg 1 2 (RequestVoteResp True)]"

definition demo_write :: "sim_event list" where
  "demo_write =
     [demo_msg 2 1 (AppendEntries 0 0 [\<lparr>e_term = 1, e_index = 1, e_payload = Noop\<rparr>] 0 0),
      demo_msg 1 2 (AppendEntriesResp True 1 0 0), ClientReq 0 2 (ReqWrite 1 7 42),
      demo_msg 2 1 (AppendEntries 1 1 [demo_entry 1 42] 1 0), demo_msg 1 2 (AppendEntriesResp True 2 0 0),
      NodeTick 2, NodeTick 2, demo_msg 2 1 (AppendEntries 2 1 [] 2 0)]"

definition demo_write2 :: "sim_event list" where
  "demo_write2 =
     [ClientReq 0 2 (ReqWrite 2 7 43),
      demo_msg 2 1 (AppendEntries 2 1 [demo_entry 2 43] 2 0), demo_msg 1 2 (AppendEntriesResp True 3 0 0),
      NodeTick 2, NodeTick 2, demo_msg 2 1 (AppendEntries 3 1 [] 3 0)]"

definition demo_s1 :: sim where
  "demo_s1 = the (sim_exec demo_env demo_cfg demo_election (boot demo_cfg))"

definition demo_mid :: sim where
  "demo_mid = the (sim_exec demo_env demo_cfg demo_write demo_s1)"

definition demo_s2 :: sim where
  "demo_s2 = the (sim_exec demo_env demo_cfg demo_write2 demo_mid)"

lemmas demo_defs = demo_cfg_def demo_entry_def demo_msg_def demo_election_def demo_write_def demo_write2_def

text \<open>What the witnesses use of the three states.\<close>

definition demo_check :: "sim \<Rightarrow> sim \<Rightarrow> sim \<Rightarrow> bool" where
  "demo_check s u t \<longleftrightarrow>
     (case (sim_nodes s, sim_nodes t) of
        ([_, l, _], [f, m, _]) \<Rightarrow>
          (case (sn_raft l, sn_raft f, sn_raft m) of
             (Some rl, Some rf, Some rm) \<Rightarrow>
               role rl = Leader \<and> cur_term rl = 1 \<and> role rm = Leader \<and> cur_term rm = 1 \<and>
               commit rm = 3 \<and> commit rf = 3 \<and> log_get (rlog rm) 3 = Some (demo_entry 2 43) \<and>
               log_get (rlog rf) 3 = Some (demo_entry 2 43) \<and> snap_index (rlog rm) = 2 \<and>
               map_option s_last_index (p_snapshot (sn_disk f)) = Some 2 \<and>
               sn_id l = 2 \<and> sn_id f = 1 \<and> sn_id m = 2 \<and> sn_applied f = 3 \<and> sn_applied m = 3
           | _ \<Rightarrow> False)
      | _ \<Rightarrow> False) \<and>
     (case sim_nodes u of
        [f, m, _] \<Rightarrow> map_option s_last_index (p_snapshot (sn_disk f)) = Some 2 \<and> sn_raft m \<noteq> None \<and> sn_applied m = 2
      | _ \<Rightarrow> False) \<and>
     bt_get (sim_applied t) 3 = Some (demo_entry 2 43) \<and>
     \<lparr>m_from = 1, m_to = 2, m_term = 1, m_body = RequestVoteResp True\<rparr> \<in> sim_net t"

lemma demo_eval:
  "case sim_exec demo_env demo_cfg demo_election (boot demo_cfg) of
     None \<Rightarrow> False
   | Some s \<Rightarrow> (case sim_exec demo_env demo_cfg demo_write s of
       None \<Rightarrow> False
     | Some u \<Rightarrow> (case sim_exec demo_env demo_cfg demo_write2 u of None \<Rightarrow> False | Some t \<Rightarrow> demo_check s u t))"
  by (simp add: sim_eval demo_defs demo_check_def cong: let_weak_cong prod.case_cong_weak)

lemma demo_exec:
  "sim_exec demo_env demo_cfg demo_election (boot demo_cfg) = Some demo_s1"
  "sim_exec demo_env demo_cfg demo_write demo_s1 = Some demo_mid"
  "sim_exec demo_env demo_cfg demo_write2 demo_mid = Some demo_s2" "demo_check demo_s1 demo_mid demo_s2"
  using demo_eval by (auto simp: demo_s1_def demo_mid_def demo_s2_def split: option.splits)

lemma sim_exec_steps: "sim_exec E c evs s = Some s' \<Longrightarrow> (sim_step E c)\<^sup>*\<^sup>* s s'"
proof (induction evs arbitrary: s)
  case (Cons ev evs)
  then obtain s1 where s1: "enabled c s ev" "sim_handle E c ev s = Inr s1" "sim_exec E c evs s1 = Some s'"
    by (auto split: if_splits sum.splits)
  then have "sim_step E c s s1" unfolding sim_step_def by blast
  then show ?case using Cons.IH [OF s1(3)] by simp
qed simp

lemma sim_reach_step: "(sim_step E c)\<^sup>*\<^sup>* s s' \<Longrightarrow> sim_reach E c s \<Longrightarrow> sim_reach E c s'"
  by (induction rule: rtranclp_induct) (auto simp: sim_step_def intro: sim_reach.event)

lemma demo_steps:
  "(sim_step demo_env demo_cfg)\<^sup>*\<^sup>* (boot demo_cfg) demo_s1" "(sim_step demo_env demo_cfg)\<^sup>*\<^sup>* demo_s1 demo_mid"
  "(sim_step demo_env demo_cfg)\<^sup>*\<^sup>* demo_mid demo_s2"
  by (rule sim_exec_steps, rule demo_exec)+

lemma demo_reach:
  "sim_reach demo_env demo_cfg demo_s1" "sim_reach demo_env demo_cfg demo_s2"
  "(sim_step demo_env demo_cfg)\<^sup>*\<^sup>* demo_s1 demo_s2" "sim_reach demo_env demo_cfg demo_mid"
  using demo_steps sim_reach_step sim_reach.boot rtranclp_trans [OF demo_steps(2,3)] by blast+

lemma demo_mid_nodes:
  obtains f m r snap where "f \<in> set (sim_nodes demo_mid)" "m \<in> set (sim_nodes demo_mid)" "sn_raft m = Some r"
    "p_snapshot (sn_disk f) = Some snap" "s_last_index snap = 2" "sn_applied m = 2"
proof -
  obtain f m d where n: "sim_nodes demo_mid = [f, m, d]"
    using demo_exec(4) unfolding demo_check_def by (auto split: list.splits)
  obtain r snap where "p_snapshot (sn_disk f) = Some snap" "s_last_index snap = 2" "sn_raft m = Some r" "sn_applied m = 2"
    using demo_exec(4) n unfolding demo_check_def by auto
  then show thesis using that [of f m r snap] n by simp
qed

lemma demo_nodes:
  obtains l rl f rf m rm snap where "l \<in> set (sim_nodes demo_s1)" "sn_raft l = Some rl" "role rl = Leader" "cur_term rl = 1"
    "sn_id l = 2" "f \<in> set (sim_nodes demo_s2)" "f = sim_nodes demo_s2 ! 0" "sn_raft f = Some rf" "commit rf = 3"
    "log_get (rlog rf) 3 = Some (demo_entry 2 43)" "sn_applied f = 3" "sn_id f = 1"
    "p_snapshot (sn_disk f) = Some snap" "s_last_index snap = 2"
    "m \<in> set (sim_nodes demo_s2)" "m = sim_nodes demo_s2 ! 1" "sn_raft m = Some rm" "role rm = Leader" "cur_term rm = 1" "commit rm = 3"
    "log_get (rlog rm) 3 = Some (demo_entry 2 43)" "sn_applied m = 3" "sn_id m = 2"
proof -
  obtain a l b f m d where n: "sim_nodes demo_s1 = [a, l, b]" "sim_nodes demo_s2 = [f, m, d]"
    using demo_exec(4) unfolding demo_check_def by (auto split: list.splits)
  obtain rl rf rm where r: "sn_raft l = Some rl" "sn_raft f = Some rf" "sn_raft m = Some rm"
    using demo_exec(4) n unfolding demo_check_def by (auto split: option.splits)
  obtain snap where snap: "p_snapshot (sn_disk f) = Some snap" "s_last_index snap = 2"
    using demo_exec(4) n r unfolding demo_check_def by auto
  show thesis
    by (rule that [of l rl f rf snap m rm]) (use demo_exec(4) n r snap in \<open>simp_all add: demo_check_def\<close>)
qed

end
