(* ===== verification/Wgl.thy ===== *)
theory Wgl
  imports Sim_History
begin

text \<open>
  \<open>crates/sim/src/wgl.rs\<close>: the linearizability checker. The depth-first search over bit masks with
  its memo table and its expansion budget is modelled as written; it is proved to accept exactly the
  linearizable histories, up to the budget.
\<close>

unbundle bit_operations_syntax

section \<open>Operations on one key\<close>

datatype p_kind =
    PRead "nat option"
  | PWrite nat
  | PCas "nat option" nat "bool option"

record p_op =
  po_invoke :: nat
  po_ret :: "nat option"
  po_kind :: p_kind
  po_client :: nat

fun try_apply :: "p_kind \<Rightarrow> nat option \<Rightarrow> nat option option" where
  "try_apply (PRead result) value = (if result = value then Some value else None)"
| "try_apply (PWrite val) value = Some (Some val)"
| "try_apply (PCas expect new success) value =
     (let would_succeed = (value = expect) in
      case success of
        Some s \<Rightarrow>
          if s \<noteq> would_succeed then None else Some (if would_succeed then Some new else value)
      | None \<Rightarrow> Some (if would_succeed then Some new else value))"

section \<open>Masks of linearized operations\<close>

definition mask_has :: "64 word list \<Rightarrow> nat \<Rightarrow> bool" where
  "mask_has m i \<longleftrightarrow> m ! (i div 64) AND push_bit (i mod 64) 1 \<noteq> 0"

definition mask_set :: "64 word list \<Rightarrow> nat \<Rightarrow> 64 word list" where
  "mask_set m i = m[i div 64 := m ! (i div 64) OR push_bit (i mod 64) 1]"

definition mask_words :: "nat \<Rightarrow> nat" where
  "mask_words n = (n + 63) div 64"

definition mask_empty :: "nat \<Rightarrow> 64 word list" where
  "mask_empty n = replicate (mask_words n) 0"

definition completed_mask :: "p_op list \<Rightarrow> 64 word list" where
  "completed_mask ops =
     fold (\<lambda>i m. if po_ret (ops ! i) \<noteq> None then mask_set m i else m) [0..<length ops] (mask_empty (length ops))"

definition mask_done :: "64 word list \<Rightarrow> 64 word list \<Rightarrow> bool" where
  "mask_done cmask msk \<longleftrightarrow> list_all (\<lambda>(m, c). m AND c = c) (zip msk cmask)"

section \<open>The search\<close>

datatype wgl_error =
    TooManyOps nat
  | BudgetExceeded nat nat
  | NotLinearizable "p_op list"
  | MalformedCas "h_res option"
  | MalformedRecord h_op "h_res option"

definition expansion_budget :: nat where
  "expansion_budget = 5000000"

definition u64_max :: nat where
  "u64_max = 2 ^ 64 - 1"

definition min_ret :: "p_op list \<Rightarrow> 64 word list \<Rightarrow> nat" where
  "min_ret ops msk =
     fold (\<lambda>i m. if mask_has msk i then m
                 else (case po_ret (ops ! i) of Some r \<Rightarrow> min m r | None \<Rightarrow> m)) [0..<length ops] u64_max"

definition expand :: "p_op list \<Rightarrow> 64 word list \<Rightarrow> nat option \<Rightarrow> (64 word list \<times> nat option) list" where
  "expand ops msk value =
     (let mr = min_ret ops msk in
      concat (map (\<lambda>i.
        if mask_has msk i then []
        else if mr < po_invoke (ops ! i) then []
        else (case try_apply (po_kind (ops ! i)) value of
                None \<Rightarrow> []
              | Some v \<Rightarrow> [(mask_set msk i, v)])) [0..<length ops]))"

text \<open>The stack's top is the head of the list: what is pushed last is popped first.\<close>

function wgl_loop :: "p_op list \<Rightarrow> 64 word list \<Rightarrow> (64 word list \<times> nat option) set \<Rightarrow> nat \<Rightarrow>
    (64 word list \<times> nat option) list \<Rightarrow> wgl_error + unit" where
  "wgl_loop ops cmask memo ex [] = Inl (NotLinearizable ops)"
| "wgl_loop ops cmask memo ex ((msk, value) # stack) =
     (if mask_done cmask msk then Inr ()
      else if (msk, value) \<in> memo then wgl_loop ops cmask memo ex stack
      else if expansion_budget < ex + 1 then Inl (BudgetExceeded (ex + 1) (length ops))
      else wgl_loop ops cmask (insert (msk, value) memo) (ex + 1) (rev (expand ops msk value) @ stack))"
  by pat_completeness auto

termination
  by (relation "measures [\<lambda>(ops, cmask, memo, ex, stack). expansion_budget - ex,
        \<lambda>(ops, cmask, memo, ex, stack). length stack]") auto

definition check_key :: "p_op list \<Rightarrow> wgl_error + unit" where
  "check_key ops0 =
     (let ops = sort_key po_invoke ops0; n = length ops in
      if n = 0 then Inr ()
      else if 4096 < n then Inl (TooManyOps n)
      else wgl_loop ops (completed_mask ops) {} 0 [(mask_empty n, None)])"

section \<open>Whole histories\<close>

fun prep_kind :: "h_op \<Rightarrow> h_res option \<Rightarrow> wgl_error + p_kind option" where
  "prep_kind (HRead k) None = Inr None"
| "prep_kind (HRead k) (Some (ReadOk v)) = Inr (Some (PRead v))"
| "prep_kind (HWrite k v) res = Inr (Some (PWrite v))"
| "prep_kind (HCas k e n) (Some (CasOk s)) = Inr (Some (PCas e n (Some s)))"
| "prep_kind (HCas k e n) None = Inr (Some (PCas e n None))"
| "prep_kind (HCas k e n) res = Inl (MalformedCas res)"
| "prep_kind x res = Inl (MalformedRecord x res)"

fun prep_ops :: "h_record list \<Rightarrow> wgl_error + p_op list" where
  "prep_ops [] = Inr []"
| "prep_ops (r # rs) =
     (case prep_kind (hr_op r) (hr_result r) of
        Inl e \<Rightarrow> Inl e
      | Inr k \<Rightarrow>
          (case prep_ops rs of
             Inl e \<Rightarrow> Inl e
           | Inr ops \<Rightarrow>
               Inr (case k of
                      None \<Rightarrow> ops
                    | Some kind \<Rightarrow>
                        \<lparr>po_invoke = hr_invoke r, po_ret = hr_ret r, po_kind = kind, po_client = hr_client r\<rparr> # ops)))"

fun check_keys :: "h_record list \<Rightarrow> 8 word list \<Rightarrow> ((8 word) option \<times> wgl_error) + unit" where
  "check_keys history [] = Inr ()"
| "check_keys history (key # keys) =
     (case prep_ops (filter (\<lambda>r. h_key (hr_op r) = key) history) of
        Inl e \<Rightarrow> Inl (None, e)
      | Inr ops \<Rightarrow> (case check_key ops of Inl e \<Rightarrow> Inl (Some key, e) | Inr u \<Rightarrow> check_keys history keys))"

definition check_history :: "h_record list \<Rightarrow> ((8 word) option \<times> wgl_error) + unit" where
  "check_history history = check_keys history (remdups_adj (sort (map (h_key \<circ> hr_op) history)))"

section \<open>Orders of prepared operations\<close>

text \<open>
  What the search looks for on one key: an order of the completed operations and some of the pending
  ones in which no operation comes before one that returned before it was invoked, and which
  \<open>try_apply\<close> lets pass. What this has to do with the recorded history is stated and proved at the end.
\<close>

fun reg_run :: "nat option \<Rightarrow> p_op list \<Rightarrow> nat option option" where
  "reg_run v [] = Some v"
| "reg_run v (x # xs) = (case try_apply (po_kind x) v of None \<Rightarrow> None | Some w \<Rightarrow> reg_run w xs)"

definition precedes :: "p_op \<Rightarrow> p_op \<Rightarrow> bool" where
  "precedes a b \<longleftrightarrow> (case po_ret a of None \<Rightarrow> False | Some r \<Rightarrow> r < po_invoke b)"

definition linearizable :: "p_op list \<Rightarrow> bool" where
  "linearizable ops \<longleftrightarrow> (\<exists>lin pending. mset (lin @ pending) = mset ops \<and>
     (\<forall>x\<in>set pending. po_ret x = None) \<and> sorted_wrt (\<lambda>a b. \<not> precedes b a) lin \<and> reg_run None lin \<noteq> None)"

text \<open>Stamps are 64 bit and an operation returns no earlier than it was invoked.\<close>

definition stamps_ok :: "p_op list \<Rightarrow> bool" where
  "stamps_ok ops \<longleftrightarrow> (\<forall>x\<in>set ops. po_invoke x \<le> u64_max \<and> \<not> precedes x x)"

section \<open>Masks\<close>

lemma mask_has_bit: "mask_has m i \<longleftrightarrow> bit (m ! (i div 64)) (i mod 64)"
  by (simp only: mask_has_def bit_iff_and_push_bit_not_eq_0)

lemma mask_words_bound: "i < n \<Longrightarrow> i div 64 < mask_words n"
proof (cases n)
  case (Suc k)
  have "mask_words n = k div 64 + 1"
    using div_add_self2 [of 64 k] by (simp add: mask_words_def Suc)
  moreover assume "i < n"
  ultimately show ?thesis using div_le_mono [of i k 64] Suc by simp
qed simp

lemma index_split: "i div 64 = j div 64 \<Longrightarrow> i mod 64 = j mod 64 \<Longrightarrow> i = (j :: nat)"
  by (metis div_mult_mod_eq)

lemma mask_set_length [simp]: "length (mask_set m i) = length m"
  by (simp add: mask_set_def)

lemma bit_single: "j < 64 \<Longrightarrow> bit (push_bit i (1 :: 64 word)) j \<longleftrightarrow> i = j"
  by (auto simp: bit_exp_iff)

lemma mask_has_set:
  assumes "i div 64 < length m"
  shows "mask_has (mask_set m i) j \<longleftrightarrow> i = j \<or> mask_has m j"
proof (cases "i div 64 = j div 64")
  case True
  have "i mod 64 = j mod 64 \<longleftrightarrow> i = j" using index_split [OF True] by blast
  then show ?thesis
    using assms True bit_single [of "j mod 64" "i mod 64"] unfolding mask_has_bit mask_set_def
    by (simp add: bit_or_iff disj_commute)
next
  case False
  then show ?thesis unfolding mask_has_bit mask_set_def by auto
qed

lemma mask_empty_has: "i < n \<Longrightarrow> \<not> mask_has (mask_empty n) i"
  using mask_words_bound [of i n] by (simp add: mask_has_bit mask_empty_def)

text \<open>The operations a mask stands for.\<close>

definition mask_abs :: "nat \<Rightarrow> 64 word list \<Rightarrow> nat set" where
  "mask_abs n m = {i. i < n \<and> mask_has m i}"

definition mask_ok :: "nat \<Rightarrow> 64 word list \<Rightarrow> bool" where
  "mask_ok n m \<longleftrightarrow> length m = mask_words n"

lemma mask_ok_empty [simp]: "mask_ok n (mask_empty n)"
  by (simp add: mask_ok_def mask_empty_def)

lemma mask_abs_empty [simp]: "mask_abs n (mask_empty n) = {}"
  using mask_empty_has by (auto simp: mask_abs_def)

lemma mask_ok_set [simp]: "mask_ok n (mask_set m i) = mask_ok n m"
  by (simp add: mask_ok_def)

lemma mask_abs_set: "mask_ok n m \<Longrightarrow> i < n \<Longrightarrow> mask_abs n (mask_set m i) = insert i (mask_abs n m)"
  using mask_has_set [of i m] mask_words_bound [of i n] by (auto simp: mask_abs_def mask_ok_def)

text \<open>Masks carry no bit outside the operations, so the word-wise test is set inclusion.\<close>

definition mask_tight :: "nat \<Rightarrow> 64 word list \<Rightarrow> bool" where
  "mask_tight n m \<longleftrightarrow> (\<forall>i. i div 64 < length m \<longrightarrow> mask_has m i \<longrightarrow> i < n)"

lemma mask_tight_empty [simp]: "mask_tight n (mask_empty n)"
  by (simp add: mask_tight_def mask_has_bit mask_empty_def)

lemma mask_tight_set: "mask_tight n m \<Longrightarrow> i < n \<Longrightarrow> mask_ok n m \<Longrightarrow> mask_tight n (mask_set m i)"
  using mask_has_set [of i m] mask_words_bound [of i n] by (auto simp: mask_tight_def mask_ok_def)

definition mask_completed :: "p_op list \<Rightarrow> nat \<Rightarrow> 64 word list" where
  "mask_completed ops k =
     fold (\<lambda>i m. if po_ret (ops ! i) \<noteq> None then mask_set m i else m) [0..<k] (mask_empty (length ops))"

lemma mask_completed_simps:
  "mask_completed ops 0 = mask_empty (length ops)"
  "mask_completed ops (Suc k) =
     (if po_ret (ops ! k) \<noteq> None then mask_set (mask_completed ops k) k else mask_completed ops k)"
  by (simp_all add: mask_completed_def)

lemma mask_completed_facts:
  "k \<le> length ops \<Longrightarrow> mask_ok (length ops) (mask_completed ops k) \<and>
     mask_abs (length ops) (mask_completed ops k) = {i. i < k \<and> po_ret (ops ! i) \<noteq> None} \<and>
     mask_tight (length ops) (mask_completed ops k)"
proof (induction k)
  case 0
  then show ?case by (simp add: mask_completed_simps)
next
  case (Suc k)
  then have ok: "mask_ok (length ops) (mask_completed ops k)"
    and ab: "mask_abs (length ops) (mask_completed ops k) = {i. i < k \<and> po_ret (ops ! i) \<noteq> None}"
    and ti: "mask_tight (length ops) (mask_completed ops k)" and lt: "k < length ops"
    by auto
  have "{i. i < Suc k \<and> po_ret (ops ! i) \<noteq> None} =
      (if po_ret (ops ! k) \<noteq> None then insert k {i. i < k \<and> po_ret (ops ! i) \<noteq> None}
       else {i. i < k \<and> po_ret (ops ! i) \<noteq> None})"
    by (auto simp: less_Suc_eq)
  then show ?case
    using ok ti mask_abs_set [OF ok lt] mask_tight_set [OF ti lt ok]
    by (simp add: mask_completed_simps(2) ab)
qed

lemma completed_mask_eq: "completed_mask ops = mask_completed ops (length ops)"
  by (simp add: completed_mask_def mask_completed_def)

lemmas completed_mask_facts = mask_completed_facts [OF order_refl, folded completed_mask_eq]

lemma word_subset_iff: "(a :: 64 word) AND b = b \<longleftrightarrow> (\<forall>k<64. bit b k \<longrightarrow> bit a k)"
proof
  assume "a AND b = b"
  then show "\<forall>k<64. bit b k \<longrightarrow> bit a k" by (metis bit_and_iff)
next
  assume r: "\<forall>k<64. bit b k \<longrightarrow> bit a k"
  show "a AND b = b" by (rule bit_word_eqI) (use r in \<open>auto simp: bit_and_iff\<close>)
qed

lemma mask_done_iff:
  assumes "mask_ok n m" and "mask_ok n c" and "mask_tight n c"
  shows "mask_done c m \<longleftrightarrow> mask_abs n c \<subseteq> mask_abs n m"
proof -
  have "mask_done c m \<longleftrightarrow> (\<forall>w<mask_words n. \<forall>k<64. bit (c ! w) k \<longrightarrow> bit (m ! w) k)"
    using assms(1,2) unfolding mask_done_def mask_ok_def
    by (simp add: list_all_length word_subset_iff)
  also have "\<dots> \<longleftrightarrow> (\<forall>i. i div 64 < mask_words n \<longrightarrow> mask_has c i \<longrightarrow> mask_has m i)" (is "?l \<longleftrightarrow> ?r")
  proof
    assume r: ?r
    show ?l
    proof (intro allI impI)
      fix w k :: nat
      assume "w < mask_words n" "k < 64" "bit (c ! w) k"
      then show "bit (m ! w) k" using r [THEN spec, of "w * 64 + k"] by (simp add: mask_has_bit)
    qed
  qed (simp add: mask_has_bit)
  also have "\<dots> \<longleftrightarrow> mask_abs n c \<subseteq> mask_abs n m"
    using assms mask_words_bound by (auto simp: mask_abs_def mask_tight_def mask_ok_def)
  finally show ?thesis .
qed

section \<open>Candidates\<close>

lemma fold_min_le:
  "x \<le> fold (\<lambda>i m. if P i then m else (case f i of Some r \<Rightarrow> min m r | None \<Rightarrow> m)) js a \<longleftrightarrow>
     x \<le> a \<and> (\<forall>i\<in>set js. \<not> P i \<longrightarrow> (\<forall>r. f i = Some r \<longrightarrow> x \<le> r))" for x a :: nat
  by (induction js arbitrary: a) (auto split: option.splits)

lemma le_min_ret:
  "x \<le> min_ret ops m \<longleftrightarrow> x \<le> u64_max \<and>
     (\<forall>i<length ops. \<not> mask_has m i \<longrightarrow> (\<forall>r. po_ret (ops ! i) = Some r \<longrightarrow> x \<le> r))"
  unfolding min_ret_def fold_min_le by auto

lemma set_expand:
  "(m', v') \<in> set (expand ops m v) \<longleftrightarrow> (\<exists>i<length ops. \<not> mask_has m i \<and> po_invoke (ops ! i) \<le> min_ret ops m \<and>
     try_apply (po_kind (ops ! i)) v = Some v' \<and> m' = mask_set m i)"
proof -
  define g where "g i = (if mask_has m i then [] else if min_ret ops m < po_invoke (ops ! i) then []
    else (case try_apply (po_kind (ops ! i)) v of None \<Rightarrow> [] | Some w \<Rightarrow> [(mask_set m i, w)]))" for i
  have "(m', v') \<in> set (expand ops m v) \<longleftrightarrow> (\<exists>i<length ops. (m', v') \<in> set (g i))"
    unfolding expand_def Let_def g_def [symmetric] by auto
  moreover have "(m', v') \<in> set (g i) \<longleftrightarrow> \<not> mask_has m i \<and> po_invoke (ops ! i) \<le> min_ret ops m \<and>
      try_apply (po_kind (ops ! i)) v = Some v' \<and> m' = mask_set m i" for i
    by (auto simp: g_def not_less split: option.splits)
  ultimately show ?thesis by simp
qed

lemma reg_run_snoc:
  "reg_run v (xs @ [x]) = (case reg_run v xs of None \<Rightarrow> None | Some w \<Rightarrow> try_apply (po_kind x) w)"
  by (induction xs arbitrary: v) (auto split: option.splits)

lemma reg_run_append: "reg_run v (xs @ ys) = (case reg_run v xs of None \<Rightarrow> None | Some w \<Rightarrow> reg_run w ys)"
  by (induction xs arbitrary: v) (auto split: option.splits)

section \<open>Acceptance is sound\<close>

text \<open>The operations \<open>js\<close>, in this order, are what a search state has linearized.\<close>

definition lin_path :: "p_op list \<Rightarrow> nat list \<Rightarrow> 64 word list \<Rightarrow> nat option \<Rightarrow> bool" where
  "lin_path ops js m v \<longleftrightarrow> mask_ok (length ops) m \<and> mask_abs (length ops) m = set js \<and> distinct js \<and>
     reg_run None (map (nth ops) js) = Some v \<and>
     (\<forall>p<length js. \<forall>j<length ops. j \<notin> set (take p js) \<longrightarrow>
        (\<forall>r. po_ret (ops ! j) = Some r \<longrightarrow> po_invoke (ops ! (js ! p)) \<le> r))"

lemma lin_path_init: "lin_path ops [] (mask_empty (length ops)) None"
  by (simp add: lin_path_def)

lemma lin_path_step:
  assumes "lin_path ops js m v" and "(m', v') \<in> set (expand ops m v)"
  shows "\<exists>i. lin_path ops (js @ [i]) m' v'"
proof -
  obtain i where i: "i < length ops" "\<not> mask_has m i" "po_invoke (ops ! i) \<le> min_ret ops m"
    "try_apply (po_kind (ops ! i)) v = Some v'" "m' = mask_set m i"
    using assms(2) set_expand by blast
  have ok: "mask_ok (length ops) m" and ab: "mask_abs (length ops) m = set js"
    using assms(1) by (simp_all add: lin_path_def)
  have "i \<notin> set js" using i(2) ab [symmetric] by (simp add: mask_abs_def)
  moreover have "mask_abs (length ops) m' = set (js @ [i])" using mask_abs_set [OF ok i(1)] ab i(5) by simp
  moreover have "po_invoke (ops ! i) \<le> r" if "j < length ops" "j \<notin> set js" "po_ret (ops ! j) = Some r" for j r
    using i(3) that ab [symmetric] unfolding le_min_ret by (auto simp: mask_abs_def)
  ultimately have "lin_path ops (js @ [i]) m' v'"
    using assms(1) i ok unfolding lin_path_def
    by (auto simp: reg_run_snoc nth_append less_Suc_eq)
  then show ?thesis ..
qed

lemma mset_split_indices:
  assumes "distinct js" and "set js \<subseteq> {..<length xs}"
  shows "mset (map (nth xs) js @ map (nth xs) (filter (\<lambda>i. i \<notin> set js) [0..<length xs])) = mset xs"
proof -
  have "mset (js @ filter (\<lambda>i. i \<notin> set js) [0..<length xs]) = mset [0..<length xs]"
    by (subst set_eq_iff_mset_eq_distinct [symmetric]) (use assms in auto)
  then have "image_mset (nth xs) (mset (js @ filter (\<lambda>i. i \<notin> set js) [0..<length xs])) =
      image_mset (nth xs) (mset [0..<length xs])" by simp
  then show ?thesis by (metis map_append map_nth mset_map)
qed

lemma lin_path_done:
  assumes "lin_path ops js m v" and "mask_done (completed_mask ops) m"
  shows "linearizable ops"
proof -
  have l: "mask_ok (length ops) m" "mask_abs (length ops) m = set js" "distinct js"
    "reg_run None (map (nth ops) js) = Some v"
    "\<And>p j r. p < length js \<Longrightarrow> j < length ops \<Longrightarrow> j \<notin> set (take p js) \<Longrightarrow> po_ret (ops ! j) = Some r \<Longrightarrow>
      po_invoke (ops ! (js ! p)) \<le> r"
    using assms(1) by (auto simp: lin_path_def)
  have sub: "set js \<subseteq> {..<length ops}" using l(2) by (auto simp: mask_abs_def)
  let ?rest = "filter (\<lambda>i. i \<notin> set js) [0..<length ops]"
  have "mask_abs (length ops) (completed_mask ops) \<subseteq> set js"
    using assms(2) l(1,2) mask_done_iff completed_mask_facts by metis
  then have pend: "\<forall>x\<in>set (map (nth ops) ?rest). po_ret x = None"
    using completed_mask_facts [of ops] by auto
  have "\<not> precedes (ops ! (js ! q)) (ops ! (js ! p))" if "p < q" "q < length js" for p q
  proof -
    have "js ! q \<notin> set (take p js)"
      using that l(3) by (auto simp: in_set_conv_nth distinct_conv_nth)
    moreover have "js ! q < length ops" using that(2) sub by (auto simp: subset_iff)
    ultimately show ?thesis
      using l(5) [of p "js ! q"] that unfolding precedes_def by (auto split: option.splits simp: not_less)
  qed
  then have "sorted_wrt (\<lambda>a b. \<not> precedes b a) (map (nth ops) js)"
    by (simp add: sorted_wrt_iff_nth_less)
  then show ?thesis
    unfolding linearizable_def using mset_split_indices [OF l(3) sub] pend l(4)
    by (intro exI [of _ "map (nth ops) js"] exI [of _ "map (nth ops) ?rest"]) simp
qed

lemma wgl_loop_sound:
  assumes "wgl_loop ops cmask memo ex stack = Inr ()" and "cmask = completed_mask ops"
    and "\<forall>(m, v)\<in>set stack. \<exists>js. lin_path ops js m v"
  shows "linearizable ops"
  using assms
proof (induction ops cmask memo ex stack rule: wgl_loop.induct)
  case (2 ops cmask memo ex msk w stack)
  obtain js where js: "lin_path ops js msk w" using "2.prems"(3) by auto
  show ?case
  proof (cases "mask_done cmask msk")
    case True
    then show ?thesis using lin_path_done [OF js] "2.prems"(2) by simp
  next
    case False
    have "\<forall>(m, v)\<in>set (rev (expand ops msk w) @ stack). \<exists>js. lin_path ops js m v"
      using lin_path_step [OF js] "2.prems"(3) by (simp add: ball_Un) blast
    then show ?thesis
      using False "2.IH" "2.prems" by (auto split: if_splits)
  qed
qed simp

section \<open>Rejection is complete\<close>

lemma indices_of_submset:
  "mset xs \<subseteq># mset ys \<Longrightarrow> \<exists>js. distinct js \<and> set js \<subseteq> {..<length ys} \<and> map (nth ys) js = xs"
proof (induction xs rule: rev_induct)
  case (snoc x xs)
  have "mset xs \<subseteq># mset (xs @ [x])" by simp
  then have "mset xs \<subseteq># mset ys" using snoc.prems by (rule subset_mset.order_trans)
  then obtain js where js: "distinct js" "set js \<subseteq> {..<length ys}" "map (nth ys) js = xs"
    using snoc.IH by blast
  let ?rest = "filter (\<lambda>i. i \<notin> set js) [0..<length ys]"
  have "mset xs + mset (map (nth ys) ?rest) = mset ys"
    using mset_split_indices [OF js(1,2)] js(3) by simp
  then have "mset xs + {#x#} \<subseteq># mset xs + mset (map (nth ys) ?rest)" using snoc.prems by simp
  then have "{#x#} \<subseteq># mset (map (nth ys) ?rest)" by (simp only: subset_mset.add_le_cancel_left)
  then have "x \<in># mset (map (nth ys) ?rest)" by (rule mset_subset_eqD) simp
  then have "x \<in> set (map (nth ys) ?rest)" by simp
  then obtain i where "i < length ys" "i \<notin> set js" "ys ! i = x" by auto
  then show ?case using js by (intro exI [of _ "js @ [i]"]) auto
qed simp

lemma wgl_loop_closed:
  assumes "wgl_loop ops cmask memo ex stack = Inl (NotLinearizable xs)"
    and "\<forall>(m, v)\<in>memo. \<not> mask_done cmask m \<and> set (expand ops m v) \<subseteq> memo \<union> set stack"
  shows "\<exists>M. memo \<union> set stack \<subseteq> M \<and> (\<forall>(m, v)\<in>M. \<not> mask_done cmask m \<and> set (expand ops m v) \<subseteq> M)"
  using assms
proof (induction ops cmask memo ex stack rule: wgl_loop.induct)
  case (1 ops cmask memo ex)
  then show ?case by (intro exI [of _ memo]) simp
next
  case (2 ops cmask memo ex msk w stack)
  have nd: "\<not> mask_done cmask msk" using "2.prems"(1) by (auto split: if_splits)
  show ?case
  proof (cases "(msk, w) \<in> memo")
    case True
    have "wgl_loop ops cmask memo ex stack = Inl (NotLinearizable xs)" using "2.prems"(1) nd True by simp
    moreover have "memo \<union> set ((msk, w) # stack) = memo \<union> set stack" using True by auto
    ultimately show ?thesis using "2.IH"(1) [OF nd True] "2.prems"(2) by simp
  next
    case False
    have b: "\<not> expansion_budget < ex + 1" using "2.prems"(1) nd False by (auto split: if_splits)
    have w: "wgl_loop ops cmask (insert (msk, w) memo) (ex + 1) (rev (expand ops msk w) @ stack) =
        Inl (NotLinearizable xs)"
      using "2.prems"(1) nd False b by simp
    have "\<not> mask_done cmask m \<and> set (expand ops m v) \<subseteq> insert (msk, w) memo \<union> set (rev (expand ops msk w) @ stack)"
      if "(m, v) \<in> insert (msk, w) memo" for m v
      using that "2.prems"(2) nd by fastforce
    then obtain M where M: "insert (msk, w) memo \<union> set (rev (expand ops msk w) @ stack) \<subseteq> M"
      "\<forall>(m, v)\<in>M. \<not> mask_done cmask m \<and> set (expand ops m v) \<subseteq> M"
      using "2.IH"(2) [OF nd False b w] by blast
    then show ?thesis by (intro exI [of _ M]) simp
  qed
qed

lemma linearizable_indices:
  assumes "linearizable ops"
  shows "\<exists>js. distinct js \<and> set js \<subseteq> {..<length ops} \<and> (\<forall>i<length ops. i \<notin> set js \<longrightarrow> po_ret (ops ! i) = None) \<and>
    sorted_wrt (\<lambda>a b. \<not> precedes b a) (map (nth ops) js) \<and> reg_run None (map (nth ops) js) \<noteq> None"
proof -
  obtain lin pending where l: "mset (lin @ pending) = mset ops" "\<forall>x\<in>set pending. po_ret x = None"
    "sorted_wrt (\<lambda>a b. \<not> precedes b a) lin" "reg_run None lin \<noteq> None"
    using assms unfolding linearizable_def by blast
  have "mset lin \<subseteq># mset ops" using l(1) by (metis mset_append mset_subset_eq_add_left)
  then obtain js where js: "distinct js" "set js \<subseteq> {..<length ops}" "map (nth ops) js = lin"
    using indices_of_submset by blast
  let ?rest = "filter (\<lambda>i. i \<notin> set js) [0..<length ops]"
  have "mset (map (nth ops) ?rest) = mset pending"
    using mset_split_indices [OF js(1,2)] l(1) js(3) by (metis add_left_cancel mset_append)
  then have "set (map (nth ops) ?rest) = set pending" by (rule mset_eq_setD)
  then have "po_ret (ops ! i) = None" if "i < length ops" "i \<notin> set js" for i
    using that l(2) by force
  then show ?thesis using js l(3,4) by blast
qed

lemma wgl_path_in_closed:
  assumes "\<forall>(m, v)\<in>M. set (expand ops m v) \<subseteq> M" and "(mask_empty (length ops), None) \<in> M"
    and js: "distinct js" "set js \<subseteq> {..<length ops}" "\<forall>i<length ops. i \<notin> set js \<longrightarrow> po_ret (ops ! i) = None"
      "sorted_wrt (\<lambda>a b. \<not> precedes b a) (map (nth ops) js)" "reg_run None (map (nth ops) js) \<noteq> None"
    and st: "stamps_ok ops" and p: "p \<le> length js"
  shows "\<exists>m v. (m, v) \<in> M \<and> mask_ok (length ops) m \<and> mask_abs (length ops) m = set (take p js) \<and>
    reg_run None (map (nth ops) (take p js)) = Some v"
  using p
proof (induction p)
  case 0
  then show ?case using assms(2) by (intro exI [of _ "mask_empty (length ops)"] exI [of _ None]) simp
next
  case (Suc p)
  then obtain m v where mv: "(m, v) \<in> M" "mask_ok (length ops) m" "mask_abs (length ops) m = set (take p js)"
    "reg_run None (map (nth ops) (take p js)) = Some v" by auto
  let ?i = "js ! p"
  have i: "?i < length ops" using Suc.prems js(2) by (auto simp: subset_iff)
  have tk: "take (Suc p) js = take p js @ [?i]" using Suc.prems by (simp add: take_Suc_conv_app_nth)
  have "?i \<notin> set (take p js)" using js(1) Suc.prems by (auto simp: in_set_conv_nth distinct_conv_nth)
  then have nm: "\<not> mask_has m ?i" using mv(3) i by (auto simp: mask_abs_def)
  have "po_invoke (ops ! ?i) \<le> r" if j: "j < length ops" "\<not> mask_has m j" "po_ret (ops ! j) = Some r" for j r
  proof -
    have "j \<in> set js" "j \<notin> set (take p js)" using js(3) j mv(3) by (auto simp: mask_abs_def)
    then obtain q where q: "q < length js" "js ! q = j" by (auto simp: in_set_conv_nth)
    have "p \<le> q"
    proof (rule ccontr)
      assume "\<not> p \<le> q"
      then have "j \<in> set (take p js)" using q by (auto simp: in_set_conv_nth intro!: exI [of _ q])
      then show False using \<open>j \<notin> set (take p js)\<close> by simp
    qed
    note q = q this
    have "\<not> precedes (ops ! j) (ops ! ?i)"
    proof (cases "p = q")
      case True
      then show ?thesis using st j(1) q(2) by (simp add: stamps_ok_def)
    next
      case False
      then show ?thesis using js(4) q unfolding sorted_wrt_iff_nth_less by auto
    qed
    then show ?thesis using j(3) by (simp add: precedes_def)
  qed
  moreover have "po_invoke (ops ! ?i) \<le> u64_max" using st i by (simp add: stamps_ok_def)
  ultimately have le: "po_invoke (ops ! ?i) \<le> min_ret ops m" unfolding le_min_ret by blast
  have "map (nth ops) js = map (nth ops) (take (Suc p) js) @ map (nth ops) (drop (Suc p) js)"
    by (metis append_take_drop_id map_append)
  then have "reg_run None (map (nth ops) (take (Suc p) js)) \<noteq> None"
    using js(5) by (auto simp: reg_run_append split: option.splits)
  then obtain v' where v': "try_apply (po_kind (ops ! ?i)) v = Some v'"
    "reg_run None (map (nth ops) (take (Suc p) js)) = Some v'"
    using mv(4) tk by (auto simp: reg_run_snoc)
  have "(mask_set m ?i, v') \<in> set (expand ops m v)" using i nm le v'(1) set_expand by blast
  then have "(mask_set m ?i, v') \<in> M" using assms(1) mv(1) by auto
  moreover have "mask_abs (length ops) (mask_set m ?i) = set (take (Suc p) js)"
    using mask_abs_set [OF mv(2) i] mv(3) tk by simp
  ultimately show ?case using v'(2) mv(2) by (intro exI [of _ "mask_set m ?i"] exI [of _ v']) simp
qed

lemma wgl_loop_complete:
  assumes "wgl_loop ops (completed_mask ops) {} 0 [(mask_empty (length ops), None)] = Inl (NotLinearizable xs)"
    and "stamps_ok ops"
  shows "\<not> linearizable ops"
proof
  assume lin: "linearizable ops"
  obtain M where M: "(mask_empty (length ops), None) \<in> M"
    "\<forall>(m, v)\<in>M. \<not> mask_done (completed_mask ops) m \<and> set (expand ops m v) \<subseteq> M"
    using wgl_loop_closed [OF assms(1)] by auto
  obtain js where js: "distinct js" "set js \<subseteq> {..<length ops}" "\<forall>i<length ops. i \<notin> set js \<longrightarrow> po_ret (ops ! i) = None"
      "sorted_wrt (\<lambda>a b. \<not> precedes b a) (map (nth ops) js)" "reg_run None (map (nth ops) js) \<noteq> None"
    using linearizable_indices [OF lin] by blast
  have "\<forall>(m, v)\<in>M. set (expand ops m v) \<subseteq> M" using M(2) by auto
  then obtain m v where mv: "(m, v) \<in> M" "mask_ok (length ops) m" "mask_abs (length ops) m = set js"
    using wgl_path_in_closed [OF _ M(1) js assms(2) order_refl] by auto
  have "mask_abs (length ops) (completed_mask ops) \<subseteq> mask_abs (length ops) m"
    using js(3) mv(3) completed_mask_facts [of ops] by auto
  then have "mask_done (completed_mask ops) m"
    using mask_done_iff [OF mv(2)] completed_mask_facts by blast
  then show False using M(2) mv(1) by auto
qed

lemma linearizable_mset: "mset ops = mset ops' \<Longrightarrow> linearizable ops = linearizable ops'"
  by (simp add: linearizable_def)

lemma stamps_ok_mset: "mset ops = mset ops' \<Longrightarrow> stamps_ok ops = stamps_ok ops'"
  unfolding stamps_ok_def by (metis mset_eq_setD)

lemma check_key_sound:
  assumes "check_key ops = Inr ()"
  shows "linearizable ops"
proof (cases "ops = []")
  case True
  then show ?thesis by (simp add: linearizable_def)
next
  case False
  let ?s = "sort_key po_invoke ops"
  have "?s \<noteq> []" using False by (metis length_sort length_0_conv)
  then have "wgl_loop ?s (completed_mask ?s) {} 0 [(mask_empty (length ?s), None)] = Inr ()"
    using assms False by (auto simp: check_key_def Let_def split: if_splits)
  then have "linearizable ?s" by (rule wgl_loop_sound) (use lin_path_init [of ?s] in auto)
  then show ?thesis using linearizable_mset [of ?s ops] by simp
qed

lemma check_key_complete:
  assumes "check_key ops = Inl (NotLinearizable xs)" and "stamps_ok ops"
  shows "\<not> linearizable ops"
proof -
  let ?s = "sort_key po_invoke ops"
  have "wgl_loop ?s (completed_mask ?s) {} 0 [(mask_empty (length ?s), None)] = Inl (NotLinearizable xs)"
    using assms by (auto simp: check_key_def Let_def split: if_splits)
  then have "\<not> linearizable ?s"
    by (rule wgl_loop_complete) (use assms(2) stamps_ok_mset [of ?s ops] in simp)
  then show ?thesis using linearizable_mset [of ?s ops] by simp
qed

section \<open>Whole histories\<close>

text \<open>The operations of a history with their keys; pending reads have no effect and are left out.\<close>

definition record_ops :: "h_record \<Rightarrow> (8 word \<times> p_op) list" where
  "record_ops r =
     (case prep_kind (hr_op r) (hr_result r) of
        Inr (Some kind) \<Rightarrow>
          [(h_key (hr_op r),
            \<lparr>po_invoke = hr_invoke r, po_ret = hr_ret r, po_kind = kind, po_client = hr_client r\<rparr>)]
      | _ \<Rightarrow> [])"

definition history_ops :: "h_record list \<Rightarrow> (8 word \<times> p_op) list" where
  "history_ops h = concat (map record_ops h)"

definition key_ops :: "8 word \<Rightarrow> (8 word \<times> p_op) list \<Rightarrow> p_op list" where
  "key_ops k gs = map snd (filter (\<lambda>g. fst g = k) gs)"

text \<open>Linearizability of operations on many registers, none of which is present at first.\<close>

fun kv_run :: "(8 word \<Rightarrow> nat option) \<Rightarrow> (8 word \<times> p_op) list \<Rightarrow> (8 word \<Rightarrow> nat option) option" where
  "kv_run st [] = Some st"
| "kv_run st ((k, x) # gs) =
     (case try_apply (po_kind x) (st k) of None \<Rightarrow> None | Some v \<Rightarrow> kv_run (st(k := v)) gs)"

definition kv_linearizable :: "(8 word \<times> p_op) list \<Rightarrow> bool" where
  "kv_linearizable gs \<longleftrightarrow> (\<exists>lin pending. mset (lin @ pending) = mset gs \<and>
     (\<forall>g\<in>set pending. po_ret (snd g) = None) \<and> sorted_wrt (\<lambda>a b. \<not> precedes (snd b) (snd a)) lin \<and>
     kv_run (\<lambda>_. None) lin \<noteq> None)"

lemma key_ops_simps [simp]:
  "key_ops k [] = []" "key_ops k (g # gs) = (if fst g = k then snd g # key_ops k gs else key_ops k gs)"
  "key_ops k (gs @ gs') = key_ops k gs @ key_ops k gs'"
  by (simp_all add: key_ops_def)

lemma kv_run_iff: "kv_run st gs \<noteq> None \<longleftrightarrow> (\<forall>k. reg_run (st k) (key_ops k gs) \<noteq> None)"
proof (induction gs arbitrary: st)
  case (Cons g gs)
  obtain k x where g: "g = (k, x)" by force
  show ?case
  proof (cases "try_apply (po_kind x) (st k)")
    case None
    then show ?thesis using g by (auto intro!: exI [of _ k])
  next
    case (Some v)
    have "reg_run (st k') (key_ops k' (g # gs)) = reg_run ((st(k := v)) k') (key_ops k' gs)" for k'
      using g Some by simp
    moreover have "kv_run st (g # gs) = kv_run (st(k := v)) gs" using g Some by simp
    ultimately show ?thesis by (simp only: Cons.IH)
  qed
qed simp

lemma mset_key_ops: "mset gs = mset gs' \<Longrightarrow> mset (key_ops k gs) = mset (key_ops k gs')"
  by (simp add: key_ops_def)

lemma sorted_wrt_key_ops: "sorted_wrt (\<lambda>a b. R (snd a) (snd b)) gs \<Longrightarrow> sorted_wrt R (key_ops k gs)"
  by (induction gs) (auto simp: key_ops_def)

text \<open>The easy half of locality: a linearization of everything gives one of every key.\<close>

lemma kv_linearizable_key: "kv_linearizable gs \<Longrightarrow> linearizable (key_ops k gs)"
proof -
  assume "kv_linearizable gs"
  then obtain lin pending where l: "mset (lin @ pending) = mset gs" "\<forall>g\<in>set pending. po_ret (snd g) = None"
    "sorted_wrt (\<lambda>a b. \<not> precedes (snd b) (snd a)) lin" "kv_run (\<lambda>_. None) lin \<noteq> None"
    unfolding kv_linearizable_def by blast
  have "mset (key_ops k lin @ key_ops k pending) = mset (key_ops k gs)"
    using mset_key_ops [OF l(1), of k] by simp
  moreover have "\<forall>x\<in>set (key_ops k pending). po_ret x = None" using l(2) by (auto simp: key_ops_def)
  moreover have "sorted_wrt (\<lambda>a b. \<not> precedes b a) (key_ops k lin)" using l(3) by (rule sorted_wrt_key_ops)
  moreover have "reg_run None (key_ops k lin) \<noteq> None" using l(4) kv_run_iff [of "\<lambda>_. None" lin] by simp
  ultimately show ?thesis unfolding linearizable_def by blast
qed

text \<open>
  The other half: give every operation of a key's linearization the latest invocation up to it as its
  linearization point; the point lies between its own invocation and its return, and sorting all
  operations by their points keeps the order of every key.
\<close>

fun points :: "nat \<Rightarrow> p_op list \<Rightarrow> (nat \<times> p_op) list" where
  "points t [] = []"
| "points t (x # xs) = (max t (po_invoke x), x) # points (max t (po_invoke x)) xs"

lemma points_snd [simp]: "map snd (points t xs) = xs"
  by (induction xs arbitrary: t) simp_all

lemma points_ge: "p \<in> set (points t xs) \<Longrightarrow> t \<le> fst p \<and> po_invoke (snd p) \<le> fst p"
proof (induction xs arbitrary: t)
  case (Cons x xs)
  then consider "p = (max t (po_invoke x), x)" | "p \<in> set (points (max t (po_invoke x)) xs)" by auto
  then show ?case
  proof cases
    case 2
    then show ?thesis using Cons.IH [of "max t (po_invoke x)"] by simp
  qed simp
qed simp

lemma points_sorted: "sorted (map fst (points t xs))"
proof (induction xs arbitrary: t)
  case (Cons x xs)
  have "\<forall>y\<in>set (map fst (points (max t (po_invoke x)) xs)). max t (po_invoke x) \<le> y"
    using points_ge [of _ "max t (po_invoke x)" xs] by auto
  then show ?case using Cons.IH [of "max t (po_invoke x)"] by simp
qed simp

lemma points_le_ret:
  assumes "sorted_wrt (\<lambda>a b. \<not> precedes b a) xs" and "\<forall>x\<in>set xs. \<not> precedes x x"
    and "\<forall>x\<in>set xs. \<forall>r. po_ret x = Some r \<longrightarrow> t \<le> r" and "p \<in> set (points t xs)" and "po_ret (snd p) = Some r"
  shows "fst p \<le> r"
  using assms
proof (induction xs arbitrary: t)
  case (Cons x xs)
  have x: "po_invoke x \<le> s" if "y \<in> set (x # xs)" "po_ret y = Some s" for y s
  proof -
    have "\<not> precedes y x" using Cons.prems(1,2) that(1) by auto
    then show ?thesis using that(2) by (simp add: precedes_def)
  qed
  show ?case
  proof (cases "p = (max t (po_invoke x), x)")
    case True
    then show ?thesis using Cons.prems(3,5) x [of x r] by simp
  next
    case False
    have "\<forall>y\<in>set xs. \<forall>s. po_ret y = Some s \<longrightarrow> max t (po_invoke x) \<le> s" using Cons.prems(3) x by auto
    then show ?thesis using Cons.IH [of "max t (po_invoke x)"] Cons.prems(1,2,4,5) False by simp
  qed
qed simp

lemma group_by_key:
  "distinct ks \<Longrightarrow> \<forall>g\<in>set gs. fst g \<in> set ks \<Longrightarrow> mset (concat (map (\<lambda>k. map (Pair k) (key_ops k gs)) ks)) = mset gs"
proof (induction ks arbitrary: gs)
  case (Cons k ks)
  let ?rest = "filter (\<lambda>g. fst g \<noteq> k) gs"
  have a: "key_ops k' gs = key_ops k' ?rest" if "k' \<in> set ks" for k'
    using that Cons.prems(1) unfolding key_ops_def by (auto intro!: arg_cong [where f = "map snd"] filter_cong)
  have b: "map (Pair k) (key_ops k gs) = filter (\<lambda>g. fst g = k) gs"
    unfolding key_ops_def by (induction gs) auto
  have "\<forall>g\<in>set ?rest. fst g \<in> set ks" using Cons.prems(2) by auto
  then have "mset (concat (map (\<lambda>k. map (Pair k) (key_ops k ?rest)) ks)) = mset ?rest"
    using Cons.IH [of ?rest] Cons.prems(1) by simp
  moreover have "map (\<lambda>k. map (Pair k) (key_ops k gs)) ks = map (\<lambda>k. map (Pair k) (key_ops k ?rest)) ks"
    using a by (intro map_cong) simp_all
  ultimately have "mset (concat (map (\<lambda>k. map (Pair k) (key_ops k gs)) ks)) = mset ?rest" by (simp only:)
  then show ?case
    unfolding list.map concat.simps mset_append b
    using multiset_partition [of "mset gs" "\<lambda>g. fst g = k"] by simp
next
  case Nil
  then show ?case by (cases gs) auto
qed

lemma mset_concat_append: "mset (concat (map f ks)) + mset (concat (map g ks)) = mset (concat (map (\<lambda>k. f k @ g k) ks))"
  by (induction ks) simp_all

lemma mset_concat_cong: "(\<And>k. mset (f k) = mset (g k)) \<Longrightarrow> mset (concat (map f ks)) = mset (concat (map g ks))"
  by (induction ks) simp_all

lemma locality:
  assumes lin: "\<And>k. linearizable (key_ops k gs)" and st: "\<forall>g\<in>set gs. \<not> precedes (snd g) (snd g)"
  shows "kv_linearizable gs"
proof -
  define ks where "ks = remdups (map fst gs)"
  have ks: "distinct ks" "\<forall>g\<in>set gs. fst g \<in> set ks" by (auto simp: ks_def)
  obtain L P where LP: "\<And>k. mset (L k @ P k) = mset (key_ops k gs)" "\<And>k. \<forall>x\<in>set (P k). po_ret x = None"
    "\<And>k. sorted_wrt (\<lambda>a b. \<not> precedes b a) (L k)" "\<And>k. reg_run None (L k) \<noteq> None"
    using lin unfolding linearizable_def by metis
  define T where "T = concat (map (\<lambda>k. map (\<lambda>p. (fst p, k, snd p)) (points 0 (L k))) ks)"
  define lin where "lin = map snd (sort_key fst T)"
  define pend where "pend = concat (map (\<lambda>k. map (Pair k) (P k)) ks)"
  have sub: "set (L k) \<subseteq> set (key_ops k gs)" for k using LP(1) [of k] by (metis mset_eq_setD set_append Un_upper1)
  then have refl: "\<forall>x\<in>set (L k). \<not> precedes x x" for k using st by (fastforce simp: key_ops_def)
  have T: "fst p \<le> r" if p: "p \<in> set T" "po_ret (snd (snd p)) = Some r" for p r
  proof -
    obtain k q where q: "q \<in> set (points 0 (L k))" "p = (fst q, k, snd q)" using p(1) by (auto simp: T_def)
    then show ?thesis using points_le_ret [OF LP(3) refl _ q(1)] p(2) by simp
  qed
  have T0: "po_invoke (snd (snd p)) \<le> fst p" if "p \<in> set T" for p
    using that points_ge by (fastforce simp: T_def)
  have "sorted_wrt (\<lambda>a b. fst a \<le> fst b) (sort_key fst T)"
    using sorted_sort_key [of fst T] by (simp add: sorted_map)
  moreover have "\<not> precedes (snd (snd b)) (snd (snd a))" if "a \<in> set T" "b \<in> set T" "fst a \<le> fst b" for a b
    using T [OF that(2)] T0 [OF that(1)] that(3) by (fastforce simp: precedes_def split: option.splits)
  ultimately have srt: "sorted_wrt (\<lambda>a b. \<not> precedes (snd b) (snd a)) lin"
    unfolding lin_def sorted_wrt_map by (rule sorted_wrt_mono_rel [rotated]) simp_all
  have key: "key_ops k lin = L k" if "k \<in> set ks" for k
  proof -
    have f: "filter (\<lambda>p. fst (snd p) = k) T = map (\<lambda>p. (fst p, k, snd p)) (points 0 (L k))"
      using ks(1) that unfolding T_def
    proof (induction ks)
      case (Cons k' ks')
      have none: "filter (\<lambda>p. fst (snd p) = k) (concat (map (\<lambda>k. map (\<lambda>p. (fst p, k, snd p)) (points 0 (L k))) ks')) = []"
        if "k \<notin> set ks'" using that by (auto simp: filter_empty_conv)
      show ?case using Cons none by (cases "k = k'") (auto simp: filter_empty_conv filter_map o_def)
    qed simp
    have "filter (\<lambda>p. fst (snd p) = k) (sort_key fst T) = map (\<lambda>p. (fst p, k, snd p)) (points 0 (L k))"
      unfolding filter_sort f using points_sorted [of 0 "L k"] by (intro sort_key_id_if_sorted) (simp add: o_def)
    then have "map (snd \<circ> snd) (filter (\<lambda>p. fst (snd p) = k) (sort_key fst T)) = L k"
      using points_snd [of 0 "L k"] by (simp add: o_def)
    then show ?thesis by (simp add: key_ops_def lin_def filter_map o_def)
  qed
  have nokey: "key_ops k lin = []" if "k \<notin> set ks" for k
    using that by (auto simp: key_ops_def lin_def T_def filter_empty_conv)
  have run: "kv_run (\<lambda>_. None) lin \<noteq> None"
    unfolding kv_run_iff using key nokey LP(4) by (metis option.distinct(1) reg_run.simps(1))
  have "mset lin = mset (map snd T)" by (simp add: lin_def)
  also have "map snd T = concat (map (\<lambda>k. map (Pair k) (L k)) ks)"
  proof -
    have pts: "map snd (map (\<lambda>p. (fst p, k, snd p)) xs) = map (Pair k) (map snd xs)" for k :: "8 word" and xs :: "(nat \<times> p_op) list"
      by (induction xs) simp_all
    have "map snd T = concat (map (\<lambda>k. map snd (map (\<lambda>p. (fst p, k, snd p)) (points 0 (L k)))) ks)"
      by (simp add: T_def map_concat o_def)
    then show ?thesis unfolding pts points_snd .
  qed
  finally have "mset (lin @ pend) = mset (concat (map (\<lambda>k. map (Pair k) (L k @ P k)) ks))"
    unfolding pend_def by (simp add: mset_concat_append)
  also have "\<dots> = mset (concat (map (\<lambda>k. map (Pair k) (key_ops k gs)) ks))"
    by (rule mset_concat_cong) (simp only: mset_map LP(1))
  also have "\<dots> = mset gs" by (rule group_by_key [OF ks])
  finally have "mset (lin @ pend) = mset gs" .
  moreover have "\<forall>g\<in>set pend. po_ret (snd g) = None" using LP(2) by (auto simp: pend_def)
  ultimately show ?thesis unfolding kv_linearizable_def using srt run by blast
qed

lemma prep_ops_key_ops:
  "prep_ops (filter (\<lambda>r. h_key (hr_op r) = k) h) = Inr ops \<Longrightarrow> ops = key_ops k (history_ops h)"
proof (induction h arbitrary: ops)
  case (Cons r h)
  have other: "key_ops k (record_ops r) = []" if "h_key (hr_op r) \<noteq> k"
    using that by (simp add: record_ops_def split: sum.splits option.splits)
  show ?case
  proof (cases "h_key (hr_op r) = k")
    case True
    then show ?thesis
      using Cons by (auto simp: history_ops_def record_ops_def split: sum.splits option.splits)
  next
    case False
    then show ?thesis using Cons other by (simp add: history_ops_def)
  qed
qed (simp add: history_ops_def)

lemma check_keys_ok:
  assumes "check_keys h ks = Inr ()" and "k \<in> set ks"
  shows "check_key (key_ops k (history_ops h)) = Inr ()"
  using assms
proof (induction ks)
  case (Cons k' ks)
  then show ?case using prep_ops_key_ops [of k' h] by (auto split: sum.splits)
qed simp

lemma check_keys_fail:
  assumes "check_keys h ks = Inl (Some k, NotLinearizable xs)"
  shows "check_key (key_ops k (history_ops h)) = Inl (NotLinearizable xs)"
  using assms
proof (induction ks)
  case (Cons k' ks)
  then show ?case using prep_ops_key_ops [of k' h] by (auto split: sum.splits)
qed simp

lemma history_ops_keys: "g \<in> set (history_ops h) \<Longrightarrow> fst g \<in> set (map (h_key \<circ> hr_op) h)"
  by (force simp: history_ops_def record_ops_def split: sum.splits option.splits)

lemma check_history_accepts:
  assumes "check_history h = Inr ()" and "\<forall>g\<in>set (history_ops h). \<not> precedes (snd g) (snd g)"
  shows "kv_linearizable (history_ops h)"
proof (rule locality [OF _ assms(2)])
  fix k
  show "linearizable (key_ops k (history_ops h))"
  proof (cases "k \<in> set (map (h_key \<circ> hr_op) h)")
    case True
    then show ?thesis
      using check_keys_ok [OF assms(1) [unfolded check_history_def], of k] check_key_sound by simp
  next
    case False
    then have "key_ops k (history_ops h) = []"
      using history_ops_keys [of _ h] by (auto simp: key_ops_def filter_empty_conv)
    then show ?thesis by (simp add: linearizable_def)
  qed
qed

lemma check_history_rejects:
  assumes "check_history h = Inl (Some k, NotLinearizable xs)"
    and "\<forall>g\<in>set (history_ops h). po_invoke (snd g) \<le> u64_max \<and> \<not> precedes (snd g) (snd g)"
  shows "\<not> kv_linearizable (history_ops h)"
proof
  assume "kv_linearizable (history_ops h)"
  then have "linearizable (key_ops k (history_ops h))" by (rule kv_linearizable_key)
  moreover have "stamps_ok (key_ops k (history_ops h))"
    using assms(2) by (auto simp: stamps_ok_def key_ops_def)
  ultimately show False
    using check_key_complete [OF check_keys_fail [OF assms(1) [unfolded check_history_def]]] by blast
qed

section \<open>The specification\<close>

text \<open>
  Linearizability of a recorded history, stated on the records and on registers of its own, without
  the checker's \<open>try_apply\<close> and \<open>prep_kind\<close>. A register answers a read with its value, takes the value
  of a write, and takes the new value of a compare-and-swap exactly when it holds the expected one.
\<close>

fun register :: "h_op \<Rightarrow> nat option \<Rightarrow> h_res \<times> nat option" where
  "register (HRead k) v = (ReadOk v, v)"
| "register (HWrite k x) v = (WriteOk, Some x)"
| "register (HCas k e x) v = (CasOk (v = e), if v = e then Some x else v)"

text \<open>The records, run one after the other on registers, answer what was recorded.\<close>

fun explained :: "(8 word \<Rightarrow> nat option) \<Rightarrow> h_record list \<Rightarrow> bool" where
  "explained st [] \<longleftrightarrow> True"
| "explained st (r # rs) \<longleftrightarrow>
     (let k = h_key (hr_op r); (res, v) = register (hr_op r) (st k)
      in (hr_result r = None \<or> hr_result r = Some res) \<and> explained (st(k := v)) rs)"

definition returned_before :: "h_record \<Rightarrow> h_record \<Rightarrow> bool" where
  "returned_before a b \<longleftrightarrow> (case hr_ret a of None \<Rightarrow> False | Some t \<Rightarrow> t < hr_invoke b)"

text \<open>
  All the operations that returned, and some that did not, have an order in which none comes before
  one that returned before it was invoked, and which the registers, absent at first, explain.
\<close>

definition history_linearizable :: "h_record list \<Rightarrow> bool" where
  "history_linearizable h \<longleftrightarrow> (\<exists>lin pending. mset (lin @ pending) = mset h \<and>
     (\<forall>r\<in>set pending. hr_ret r = None) \<and> sorted_wrt (\<lambda>a b. \<not> returned_before b a) lin \<and>
     explained (\<lambda>_. None) lin)"

text \<open>
  A record as the simulator leaves it: the response and its stamp are set together, the stamp is no
  earlier than the invocation, and a write has no response but \<open>WriteOk\<close>.
\<close>

definition record_ok :: "h_record \<Rightarrow> bool" where
  "record_ok r \<longleftrightarrow> (hr_ret r = None \<longleftrightarrow> hr_result r = None) \<and> \<not> returned_before r r \<and>
     (case hr_op r of HWrite k v \<Rightarrow> hr_result r = None \<or> hr_result r = Some WriteOk | _ \<Rightarrow> True)"

subsection \<open>The checker's operations against the registers\<close>

text \<open>A record the checker keeps, and the operation it keeps for it.\<close>

definition unanswered_read :: "h_record \<Rightarrow> bool" where
  "unanswered_read r \<longleftrightarrow> (\<exists>k. hr_op r = HRead k) \<and> hr_result r = None"

definition record_typed :: "h_record \<Rightarrow> bool" where
  "record_typed r \<longleftrightarrow> (\<exists>k. prep_kind (hr_op r) (hr_result r) = Inr k)"

definition record_op :: "h_record \<Rightarrow> 8 word \<times> p_op" where
  "record_op r = hd (record_ops r)"

lemma record_ops_typed:
  "record_typed r \<Longrightarrow> record_ops r = (if unanswered_read r then [] else [record_op r])"
  by (cases "(hr_op r, hr_result r)" rule: prep_kind.cases)
    (auto simp: record_typed_def record_ops_def record_op_def unanswered_read_def)

lemma record_op_fields:
  assumes "record_typed r" "\<not> unanswered_read r"
  shows "fst (record_op r) = h_key (hr_op r)" "po_ret (snd (record_op r)) = hr_ret r"
    "po_invoke (snd (record_op r)) = hr_invoke r"
  using assms by (cases "(hr_op r, hr_result r)" rule: prep_kind.cases;
      auto simp: record_typed_def record_ops_def record_op_def unanswered_read_def)+

lemma record_op_apply:
  assumes "record_ok r" "record_typed r" "\<not> unanswered_read r"
  shows "try_apply (po_kind (snd (record_op r))) v =
    (case register (hr_op r) v of (res, w) \<Rightarrow> if hr_result r = None \<or> hr_result r = Some res then Some w else None)"
  using assms by (cases "(hr_op r, hr_result r)" rule: prep_kind.cases)
    (auto simp: record_ok_def record_typed_def record_ops_def record_op_def unanswered_read_def Let_def)

lemma record_op_precedes:
  assumes "record_typed a" "\<not> unanswered_read a" "record_typed b" "\<not> unanswered_read b"
  shows "precedes (snd (record_op a)) (snd (record_op b)) = returned_before a b"
  using record_op_fields [OF assms(1,2)] record_op_fields [OF assms(3,4)]
  by (simp add: precedes_def returned_before_def split: option.splits)

lemma history_ops_typed:
  "\<forall>r\<in>set h. record_typed r \<Longrightarrow> history_ops h = map record_op (filter (\<lambda>r. \<not> unanswered_read r) h)"
  by (induction h) (auto simp: history_ops_def record_ops_typed)

lemma explained_run:
  assumes "\<forall>r\<in>set rs. record_ok r \<and> record_typed r \<and> \<not> unanswered_read r"
  shows "explained st rs \<longleftrightarrow> kv_run st (map record_op rs) \<noteq> None"
  using assms
proof (induction rs arbitrary: st)
  case (Cons r rs)
  obtain res w where reg: "register (hr_op r) (st (h_key (hr_op r))) = (res, w)" by force
  have r: "record_ok r" "record_typed r" "\<not> unanswered_read r" using Cons.prems by simp_all
  obtain k x where kx: "record_op r = (k, x)" by force
  have "k = h_key (hr_op r)" using record_op_fields(1) [OF r(2,3)] kx by simp
  moreover have "try_apply (po_kind x) (st (h_key (hr_op r))) =
      (if hr_result r = None \<or> hr_result r = Some res then Some w else None)"
    using record_op_apply [OF r] reg kx by simp
  ultimately show ?case using Cons.IH [of "st(k := w)"] Cons.prems kx reg by (simp add: fun_upd_def)
qed simp

text \<open>A pending read changes nothing, so it may be dropped from an order.\<close>

lemma explained_filter: "explained st rs \<Longrightarrow> explained st (filter (\<lambda>r. \<not> unanswered_read r) rs)"
  by (induction st rs rule: explained.induct)
    (auto simp: unanswered_read_def Let_def split: prod.splits)

lemma explained_typed: "explained st rs \<Longrightarrow> r \<in> set rs \<Longrightarrow> record_typed r"
proof (induction rs arbitrary: st)
  case (Cons r' rs)
  show ?case
  proof (cases "r = r'")
    case True
    then show ?thesis using Cons.prems(1)
      by (cases "hr_op r"; cases "hr_result r") (auto simp: record_typed_def)
  next
    case False
    then have "r \<in> set rs" using Cons.prems(2) by simp
    then show ?thesis using Cons.IH Cons.prems(1) by (auto simp: Let_def split: prod.splits)
  qed
qed simp

lemma mset_map_preimage:
  "mset xs = mset (map f ys) \<Longrightarrow> \<exists>zs. mset zs = mset ys \<and> xs = map f zs"
proof (induction xs arbitrary: ys)
  case (Cons x xs)
  then have "x \<in> set (map f ys)" by (metis list.set_intros(1) mset_eq_setD)
  then obtain y where y: "y \<in> set ys" "x = f y" by auto
  then obtain as bs where ys: "ys = as @ y # bs" by (meson split_list)
  then have "mset xs = mset (map f (as @ bs))" using Cons.prems y(2) by simp
  then obtain zs where "mset zs = mset (as @ bs)" "xs = map f zs" using Cons.IH by blast
  then show ?case using y(2) ys by (intro exI [of _ "y # zs"]) simp
qed simp

lemma order_records:
  assumes "\<forall>r\<in>set rs. record_typed r \<and> \<not> unanswered_read r"
  shows "sorted_wrt (\<lambda>a b. \<not> precedes (snd b) (snd a)) (map record_op rs) \<longleftrightarrow>
    sorted_wrt (\<lambda>a b. \<not> returned_before b a) rs"
  using assms by (induction rs) (auto simp: record_op_precedes)

lemma kv_linearizable_history:
  assumes ok: "\<forall>r\<in>set h. record_ok r \<and> record_typed r" and lin: "kv_linearizable (history_ops h)"
  shows "history_linearizable h"
proof -
  let ?kept = "filter (\<lambda>r. \<not> unanswered_read r) h" and ?reads = "filter unanswered_read h"
  have h: "history_ops h = map record_op ?kept" using history_ops_typed ok by blast
  obtain gs ps where l: "mset (gs @ ps) = mset (map record_op ?kept)" "\<forall>g\<in>set ps. po_ret (snd g) = None"
    "sorted_wrt (\<lambda>a b. \<not> precedes (snd b) (snd a)) gs" "kv_run (\<lambda>_. None) gs \<noteq> None"
    using lin unfolding h kv_linearizable_def by blast
  obtain zs where zs: "mset zs = mset ?kept" "gs @ ps = map record_op zs"
    using mset_map_preimage [OF l(1)] by blast
  obtain ls qs where q: "zs = ls @ qs" "gs = map record_op ls" "ps = map record_op qs"
    using zs(2) by (metis append_eq_map_conv)
  have kept: "\<forall>r\<in>set zs. record_ok r \<and> record_typed r \<and> \<not> unanswered_read r"
    using ok mset_eq_setD [OF zs(1)] by auto
  have "mset (ls @ qs @ ?reads) = mset zs + mset ?reads" by (simp add: q(1))
  also have "\<dots> = mset h"
    using multiset_partition [of "mset h" unanswered_read] unfolding zs(1) mset_filter by (simp only: add.commute)
  finally have "mset (ls @ qs @ ?reads) = mset h" .
  moreover have "\<forall>r\<in>set (qs @ ?reads). hr_ret r = None"
    using l(2) kept ok record_op_fields(2) unfolding q by (auto simp: unanswered_read_def record_ok_def)
  moreover have "sorted_wrt (\<lambda>a b. \<not> returned_before b a) ls" using l(3) order_records [of ls] kept q by auto
  moreover have "explained (\<lambda>_. None) ls" using l(4) explained_run [of ls] kept q by auto
  ultimately show ?thesis unfolding history_linearizable_def by blast
qed

lemma history_linearizable_kv:
  assumes ok: "\<forall>r\<in>set h. record_ok r" and lin: "history_linearizable h"
  shows "kv_linearizable (history_ops h)"
proof -
  let ?f = "filter (\<lambda>r. \<not> unanswered_read r)"
  obtain ls qs where l: "mset (ls @ qs) = mset h" "\<forall>r\<in>set qs. hr_ret r = None"
    "sorted_wrt (\<lambda>a b. \<not> returned_before b a) ls" "explained (\<lambda>_. None) ls"
    using lin unfolding history_linearizable_def by blast
  have set: "set ls \<union> set qs = set h" using mset_eq_setD [OF l(1)] by simp
  have "record_typed r" if "r \<in> set qs" for r
  proof -
    have "record_ok r" "hr_ret r = None" using that l(2) ok set by auto
    then have "hr_result r = None" by (simp add: record_ok_def)
    then show ?thesis by (cases "hr_op r") (simp_all add: record_typed_def)
  qed
  then have typed: "\<forall>r\<in>set h. record_typed r" using explained_typed [OF l(4)] set by blast
  have "mset (map record_op (?f ls) @ map record_op (?f qs)) = mset (map record_op (?f h))"
    using arg_cong [OF l(1), of "\<lambda>m. image_mset record_op (filter_mset (\<lambda>r. \<not> unanswered_read r) m)"] by simp
  moreover have "po_ret (snd (record_op r)) = None" if "r \<in> set qs" "\<not> unanswered_read r" for r
    using record_op_fields(2) [of r] that l(2) typed set by auto
  then have "\<forall>g\<in>set (map record_op (?f qs)). po_ret (snd g) = None" by auto
  moreover have kept: "\<forall>r\<in>set (?f ls). record_ok r \<and> record_typed r \<and> \<not> unanswered_read r" using ok typed set by auto
  then have "sorted_wrt (\<lambda>a b. \<not> precedes (snd b) (snd a)) (map record_op (?f ls))"
    using order_records [of "?f ls"] sorted_wrt_filter [OF l(3)] by blast
  moreover have "kv_run (\<lambda>_. None) (map record_op (?f ls)) \<noteq> None"
    using explained_run [OF kept] explained_filter [OF l(4)] by blast
  ultimately show ?thesis unfolding history_ops_typed [OF typed] kv_linearizable_def by blast
qed

lemma prep_ops_typed: "prep_ops rs = Inr ops \<Longrightarrow> r \<in> set rs \<Longrightarrow> record_typed r"
  by (induction rs arbitrary: ops) (auto simp: record_typed_def split: sum.splits)

lemma check_keys_typed:
  assumes "check_keys h ks = Inr ()" and "r \<in> set h" and "h_key (hr_op r) \<in> set ks"
  shows "record_typed r"
  using assms
proof (induction ks)
  case (Cons k ks)
  show ?case
  proof (cases "h_key (hr_op r) = k")
    case True
    then show ?thesis using Cons.prems prep_ops_typed [of "filter (\<lambda>r. h_key (hr_op r) = k) h" _ r] by (auto split: sum.splits)
  next
    case False
    then show ?thesis using Cons by (auto split: sum.splits)
  qed
qed simp

lemma history_ops_stamps:
  assumes "\<forall>r\<in>set h. record_ok r" and "g \<in> set (history_ops h)"
  shows "\<not> precedes (snd g) (snd g)" "\<exists>r\<in>set h. po_invoke (snd g) = hr_invoke r"
  using assms by (auto simp: history_ops_def record_ops_def record_ok_def precedes_def returned_before_def
      split: sum.splits option.splits)

section \<open>The checker decides linearizability\<close>

lemmas wgl_eval = check_history_def check_key_def completed_mask_def mask_empty_def mask_words_def mask_has_def
  mask_set_def mask_done_def expand_def min_ret_def u64_max_def expansion_budget_def upt_conv_Cons Let_def

text \<open>A write, then two overlapping operations: a read that sees it and a compare-and-swap that never returned.\<close>

definition demo_history :: "h_record list" where
  "demo_history =
     [\<lparr>hr_client = 101, hr_invoke = 1, hr_ret = Some 2, hr_op = HWrite 7 42, hr_result = Some WriteOk\<rparr>,
      \<lparr>hr_client = 102, hr_invoke = 3, hr_ret = Some 5, hr_op = HRead 7, hr_result = Some (ReadOk (Some 42))\<rparr>,
      \<lparr>hr_client = 103, hr_invoke = 4, hr_ret = None, hr_op = HCas 7 (Some 42) 43, hr_result = None\<rparr>]"

text \<open>A compare-and-swap that failed although the only value ever written is the one it expects.\<close>

definition stale_history :: "h_record list" where
  "stale_history =
     [\<lparr>hr_client = 101, hr_invoke = 1, hr_ret = Some 2, hr_op = HWrite 7 42, hr_result = Some WriteOk\<rparr>,
      \<lparr>hr_client = 102, hr_invoke = 3, hr_ret = Some 4, hr_op = HCas 7 (Some 42) 43, hr_result = Some (CasOk False)\<rparr>]"

text \<open>
  C31: an accepted history is linearizable: its completed operations, on all keys together, and some of
  the pending ones have an order that respects real time and in which registers give every recorded
  response. Linearizability is stated on the recorded history and on registers of its own, so that the
  checker's reading of the records and its model of a register are part of what is proved, as is that
  looking at every key alone is enough.
\<close>

theorem check_history_sound:
  assumes "check_history h = Inr ()" and "\<forall>r\<in>set h. record_ok r"
  shows "history_linearizable h"
proof (rule kv_linearizable_history)
  show "\<forall>r\<in>set h. record_ok r \<and> record_typed r"
    using check_keys_typed [OF assms(1) [unfolded check_history_def]] assms(2) by simp
  show "kv_linearizable (history_ops h)"
    by (rule check_history_accepts [OF assms(1)]) (use history_ops_stamps(1) [OF assms(2)] in blast)
qed

theorem check_history_sound_witness:
  "check_history demo_history = Inr () \<and> history_linearizable demo_history"
proof -
  have c: "check_history demo_history = Inr ()" by (simp add: demo_history_def wgl_eval)
  have "history_linearizable demo_history"
    by (rule check_history_sound [OF c]) (simp add: demo_history_def record_ok_def returned_before_def)
  then show ?thesis using c by simp
qed

text \<open>
  C32: a history the checker reports as not linearizable is not: no order of its completed operations
  on all keys and of any of its pending ones respects real time and lets registers give every recorded
  response. Stamps are 64 bit.
\<close>

theorem check_history_complete:
  assumes "check_history h = Inl (Some k, NotLinearizable xs)"
    and "\<forall>r\<in>set h. record_ok r \<and> hr_invoke r \<le> u64_max"
  shows "\<not> history_linearizable h"
proof -
  have ok: "\<forall>r\<in>set h. record_ok r" using assms(2) by simp
  have "po_invoke (snd g) \<le> u64_max \<and> \<not> precedes (snd g) (snd g)" if "g \<in> set (history_ops h)" for g
    using history_ops_stamps [OF ok that] assms(2) by auto
  then have "\<not> kv_linearizable (history_ops h)" by (intro check_history_rejects [OF assms(1)]) blast
  then show ?thesis using history_linearizable_kv [OF ok] by blast
qed

theorem check_history_complete_witness:
  "(\<exists>xs. check_history stale_history = Inl (Some 7, NotLinearizable xs)) \<and> \<not> history_linearizable stale_history"
proof -
  obtain xs where c: "check_history stale_history = Inl (Some 7, NotLinearizable xs)"
    by (simp add: stale_history_def wgl_eval)
  have "\<not> history_linearizable stale_history"
    by (rule check_history_complete [OF c])
      (simp add: stale_history_def record_ok_def returned_before_def u64_max_def)
  then show ?thesis using c by blast
qed

end
