(* ===== verification/Wal.thy ===== *)
theory Wal
  imports Byte_Codec
begin

text \<open>
  The write-ahead log of the storage engine (\<open>storage/src/wal.rs\<close>): frames of a length, a
  checksum and an encoded batch. The log file is its bytes together with how many of them an
  \<open>fsync\<close> has made durable, so that what a crash leaves behind is any extension of the durable
  part inside the written part. \<open>bincode\<close> and \<open>crc32fast\<close> are parameters.
\<close>

section \<open>Batches, frames and the log file\<close>

datatype sync_policy = Always | Never

record wal_batch =
  first_seq :: nat
  wb_ops :: "(bytes \<times> bytes option) list"

text \<open>The two libraries: serialisation of a batch and the checksum.\<close>

record wal_lib =
  enc_batch :: "wal_batch \<Rightarrow> bytes"
  dec_batch :: "bytes \<Rightarrow> wal_batch option"
  crc32 :: "bytes \<Rightarrow> 32 word"

text \<open>
  What the code relies on, for the batches it writes: decoding inverts encoding, an encoding fits
  the frame's 32-bit length, a checksum is a 32-bit value.
\<close>

definition wal_lib_ok :: "wal_lib \<Rightarrow> wal_batch \<Rightarrow> bool" where
  "wal_lib_ok L b \<longleftrightarrow>
     dec_batch L (enc_batch L b) = Some b \<and> length (enc_batch L b) < 2 ^ 32"

record wal =
  wal_data :: bytes
  wal_synced :: nat
  policy :: sync_policy

definition wal_frame :: "wal_lib \<Rightarrow> wal_batch \<Rightarrow> bytes" where
  "wal_frame L batch =
     (let payload = enc_batch L batch
      in u32_le (length payload) @ u32_le (unat (crc32 L payload)) @ payload)"

text \<open>\<open>Wal::open\<close> positions the handle at the end of the file; what was there is durable.\<close>

definition wal_open :: "bytes \<Rightarrow> sync_policy \<Rightarrow> wal" where
  "wal_open data p = \<lparr>wal_data = data, wal_synced = length data, policy = p\<rparr>"

definition wal_sync :: "wal \<Rightarrow> wal" where
  "wal_sync w = w\<lparr>wal_synced := length (wal_data w)\<rparr>"

definition wal_append :: "wal_lib \<Rightarrow> wal_batch \<Rightarrow> wal \<Rightarrow> wal" where
  "wal_append L batch w =
     (let w' = w\<lparr>wal_data := wal_data w @ wal_frame L batch\<rparr>
      in if policy w' = Always then wal_sync w' else w')"

definition wal_reset :: "wal \<Rightarrow> wal" where
  "wal_reset w = wal_sync (w\<lparr>wal_data := []\<rparr>)"

text \<open>
  The loop of \<open>Wal::replay\<close> from offset \<open>off\<close>: the batches of the valid frames and the offset at
  which the loop stopped.
\<close>

function replay_from :: "wal_lib \<Rightarrow> bytes \<Rightarrow> nat \<Rightarrow> wal_batch list \<times> nat" where
  "replay_from L data off =
     (if off + 8 > length data then ([], off)
      else
        let len = le_nat (take 4 (drop off data));
            crc = le_nat (take 4 (drop (off + 4) data))
        in if off + 8 + len > length data then ([], off)
           else
             let payload = take len (drop (off + 8) data)
             in if unat (crc32 L payload) \<noteq> crc then ([], off)
                else case dec_batch L payload of
                       None \<Rightarrow> ([], off)
                     | Some b \<Rightarrow>
                         let (bs, off') = replay_from L data (off + 8 + len) in (b # bs, off'))"
  by pat_completeness auto
termination by (relation "measure (\<lambda>(L, data, off). length data - off)") auto

declare replay_from.simps [simp del]

text \<open>\<open>Wal::replay\<close>: the batches and the file with a torn tail cut off; no file, no batches.\<close>

definition wal_replay :: "wal_lib \<Rightarrow> bytes option \<Rightarrow> wal_batch list \<times> bytes option" where
  "wal_replay L f =
     (case f of
        None \<Rightarrow> ([], None)
      | Some data \<Rightarrow>
          let (batches, off) = replay_from L data 0
          in (batches, Some (if off < length data then take off data else data)))"

section \<open>Crashes\<close>

text \<open>
  What a power failure may leave of the file: the durable bytes and any prefix of what was written
  after them.
\<close>

definition wal_crash :: "wal \<Rightarrow> bytes \<Rightarrow> bool" where
  "wal_crash w data \<longleftrightarrow> (\<exists>n. wal_synced w \<le> n \<and> n \<le> length (wal_data w) \<and> data = take n (wal_data w))"

abbreviation wal_frames :: "wal_lib \<Rightarrow> wal_batch list \<Rightarrow> bytes" where
  "wal_frames L bs \<equiv> concat (map (wal_frame L) bs)"

section \<open>Reading back what was written\<close>

lemma length_wal_frame [codec_simps]: "length (wal_frame L b) = 8 + length (enc_batch L b)"
  by (simp add: wal_frame_def Let_def)

lemma replay_frame:
  assumes ok: "wal_lib_ok L b"
  shows "replay_from L (pre @ wal_frame L b @ post) (length pre) =
     (let (bs, off) = replay_from L (pre @ wal_frame L b @ post) (length (pre @ wal_frame L b))
      in (b # bs, off))"
proof -
  have crc: "unat (crc32 L (enc_batch L b)) < 2 ^ 32" by (rule unat_u32_lt)
  have len: "length (enc_batch L b) < 2 ^ 32" and dec: "dec_batch L (enc_batch L b) = Some b"
    using ok by (simp_all add: wal_lib_ok_def)
  show ?thesis
    by (subst replay_from.simps)
      (simp add: wal_frame_def Let_def u32_of_le_bytes [OF len] u32_of_le_bytes [OF crc] dec
        add.assoc)
qed

text \<open>A frame of which only part is there is not accepted, whatever its bytes are.\<close>

lemma replay_torn:
  assumes "n < length (wal_frame L b)" and len: "length (enc_batch L b) < 2 ^ 32"
  shows "replay_from L (pre @ take n (wal_frame L b)) (length pre) = ([], length pre)"
proof (cases "n < 8")
  case True
  then show ?thesis by (subst replay_from.simps) (simp add: min_less_iff_disj)
next
  case False
  then have "take 4 (take n (wal_frame L b)) = u32_le (length (enc_batch L b))"
    by (simp add: wal_frame_def Let_def min_def)
  then have "le_nat (take 4 (take n (wal_frame L b))) = length (enc_batch L b)"
    using u32_of_le_bytes [OF len] by simp
  then show ?thesis
    using False assms(1) by (subst replay_from.simps) (simp add: length_wal_frame Let_def)
qed

lemma replay_frames:
  assumes "\<forall>b \<in> set bs. wal_lib_ok L b"
  shows "replay_from L (pre @ wal_frames L bs @ post) (length pre) =
     (let (bs', off) = replay_from L (pre @ wal_frames L bs @ post) (length (pre @ wal_frames L bs))
      in (bs @ bs', off))"
  using assms
proof (induction bs arbitrary: pre)
  case Nil
  then show ?case by simp
next
  case (Cons b bs)
  have b: "wal_lib_ok L b" and bs: "\<forall>b \<in> set bs. wal_lib_ok L b" using Cons.prems by simp_all
  show ?case
    using replay_frame [OF b, of pre "wal_frames L bs @ post"]
      Cons.IH [OF bs, of "pre @ wal_frame L b"]
    by (simp add: split_beta add.assoc Let_def)
qed

lemma replay_end: "replay_from L data (length data) = ([], length data)"
  by (subst replay_from.simps) simp

lemma replay_frames_torn:
  assumes ok: "\<forall>b \<in> set bs. wal_lib_ok L b"
    and torn: "torn = [] \<or> (\<exists>b n. length (enc_batch L b) < 2 ^ 32 \<and> n < length (wal_frame L b) \<and>
                             torn = take n (wal_frame L b))"
  shows "replay_from L (wal_frames L bs @ torn) 0 = (bs, length (wal_frames L bs))"
proof -
  have "replay_from L (wal_frames L bs @ torn) (length (wal_frames L bs)) =
      ([], length (wal_frames L bs))"
    using torn replay_end [of L "wal_frames L bs"] replay_torn [of _ L _ "wal_frames L bs"] by auto
  then show ?thesis
    using replay_frames [OF ok, of "[]" torn] by simp
qed

lemma wal_replay_frames_torn:
  assumes "\<forall>b \<in> set bs. wal_lib_ok L b"
    and "torn = [] \<or> (\<exists>b n. length (enc_batch L b) < 2 ^ 32 \<and> n < length (wal_frame L b) \<and>
                             torn = take n (wal_frame L b))"
  shows "wal_replay L (Some (wal_frames L bs @ torn)) = (bs, Some (wal_frames L bs))"
  using replay_frames_torn [OF assms] by (auto simp: wal_replay_def)

section \<open>Prefix durability\<close>

text \<open>Every prefix of a sequence of frames is whole frames and possibly a torn one.\<close>

lemma take_frames:
  "\<exists>m \<le> length bs. \<exists>torn. take n (wal_frames L bs) = wal_frames L (take m bs) @ torn \<and>
     (torn = [] \<or> (m < length bs \<and> (\<exists>k. k < length (wal_frame L (bs ! m)) \<and> torn = take k (wal_frame L (bs ! m)))))"
proof (induction bs arbitrary: n)
  case Nil
  then show ?case by simp
next
  case (Cons b bs)
  show ?case
  proof (cases "n < length (wal_frame L b)")
    case True
    then show ?thesis
      by (intro exI [of _ 0] conjI) (auto simp: exI [of _ n])
  next
    case False
    obtain m torn where m: "m \<le> length bs"
      and eq: "take (n - length (wal_frame L b)) (wal_frames L bs) = wal_frames L (take m bs) @ torn"
      and torn: "torn = [] \<or> (m < length bs \<and>
        (\<exists>k. k < length (wal_frame L (bs ! m)) \<and> torn = take k (wal_frame L (bs ! m))))"
      using Cons.IH [of "n - length (wal_frame L b)"] by blast
    show ?thesis
      using False m eq torn by (intro exI [of _ "Suc m"] conjI exI [of _ torn]) auto
  qed
qed

text \<open>
  The log as its users see it: the batches appended since the last reset and how many of them are
  known to be durable.
\<close>

datatype wal_event = Append wal_batch | Sync | Reset

fun wal_do :: "wal_lib \<Rightarrow> wal_event \<Rightarrow> wal \<Rightarrow> wal" where
  "wal_do L (Append b) w = wal_append L b w"
| "wal_do L Sync w = wal_sync w"
| "wal_do L Reset w = wal_reset w"

fun wal_spec :: "sync_policy \<Rightarrow> wal_event \<Rightarrow> wal_batch list \<times> nat \<Rightarrow> wal_batch list \<times> nat" where
  "wal_spec p (Append b) (bs, m) = (bs @ [b], if p = Always then Suc (length bs) else m)"
| "wal_spec p Sync (bs, m) = (bs, length bs)"
| "wal_spec p Reset (bs, m) = ([], 0)"

fun event_ok :: "wal_lib \<Rightarrow> wal_event \<Rightarrow> bool" where
  "event_ok L (Append b) = wal_lib_ok L b"
| "event_ok L _ = True"

definition wal_rel :: "wal_lib \<Rightarrow> sync_policy \<Rightarrow> wal \<Rightarrow> wal_batch list \<times> nat \<Rightarrow> bool" where
  "wal_rel L p w s \<longleftrightarrow>
     policy w = p \<and> wal_data w = wal_frames L (fst s) \<and> snd s \<le> length (fst s) \<and>
     wal_synced w = length (wal_frames L (take (snd s) (fst s))) \<and> (\<forall>b \<in> set (fst s). wal_lib_ok L b)"

lemma wal_rel_step:
  "wal_rel L p w s \<Longrightarrow> event_ok L e \<Longrightarrow> wal_rel L p (wal_do L e w) (wal_spec p e s)"
  by (cases s; cases e)
    (auto simp: wal_rel_def wal_append_def wal_sync_def wal_reset_def Let_def)

lemma wal_rel_run:
  "wal_rel L p w s \<Longrightarrow> \<forall>e \<in> set es. event_ok L e \<Longrightarrow>
   wal_rel L p (fold (wal_do L) es w) (fold (wal_spec p) es s)"
  by (induction es arbitrary: w s) (simp_all add: wal_rel_step)

lemma wal_rel_open: "\<forall>b \<in> set bs. wal_lib_ok L b \<Longrightarrow>
  wal_rel L p (wal_open (wal_frames L bs) p) (bs, length bs)"
  by (simp add: wal_rel_def wal_open_def)

lemma length_wal_frames_mono: "m \<le> length bs \<Longrightarrow> m' < m \<Longrightarrow>
  length (wal_frames L (take m' bs)) + 8 \<le> length (wal_frames L (take m bs))"
proof (induction m)
  case 0
  then show ?case by simp
next
  case (Suc m)
  have t: "take (Suc m) bs = take m bs @ [bs ! m]"
    using Suc.prems by (simp add: take_Suc_conv_app_nth)
  show ?case
    using Suc by (cases "m' = m") (auto simp: t length_wal_frame)
qed

text \<open>
  Recovery after a crash: the batches that come back are a prefix of the batches written, the
  durable ones among them, and the file is exactly the frames of that prefix.
\<close>

lemma crash_replay_prefix:
  assumes rel: "wal_rel L p w (bs, m)" and crash: "wal_crash w d"
  shows "\<exists>n. m \<le> n \<and> n \<le> length bs \<and> wal_replay L (Some d) = (take n bs, Some (wal_frames L (take n bs)))"
proof -
  obtain k where k: "wal_synced w \<le> k" "k \<le> length (wal_data w)" and d: "d = take k (wal_frames L bs)"
    using crash rel by (auto simp: wal_crash_def wal_rel_def)
  obtain n torn where n: "n \<le> length bs" and eq: "take k (wal_frames L bs) = wal_frames L (take n bs) @ torn"
    and torn: "torn = [] \<or> (n < length bs \<and>
        (\<exists>j. j < length (wal_frame L (bs ! n)) \<and> torn = take j (wal_frame L (bs ! n))))"
    using take_frames [of bs k L] by blast
  have ok: "\<forall>b \<in> set bs. wal_lib_ok L b" using rel by (simp add: wal_rel_def)
  have torn': "torn = [] \<or> (\<exists>b j. length (enc_batch L b) < 2 ^ 32 \<and> j < length (wal_frame L b) \<and>
      torn = take j (wal_frame L b))"
    using torn ok by (metis nth_mem wal_lib_ok_def)
  have replay: "wal_replay L (Some d) = (take n bs, Some (wal_frames L (take n bs)))"
    unfolding d eq using ok torn' by (intro wal_replay_frames_torn) (auto dest: in_set_takeD)
  have "m \<le> n"
  proof (rule ccontr)
    assume "\<not> m \<le> n"
    then have less: "n < m" by simp
    have m: "m \<le> length bs" and syn: "wal_synced w = length (wal_frames L (take m bs))"
      using rel by (simp_all add: wal_rel_def)
    have "length (wal_frames L (take (Suc n) bs)) \<le> length (wal_frames L (take m bs))"
      using length_wal_frames_mono [OF m, of "Suc n" L] less by (cases "Suc n = m") auto
    moreover have "length (wal_frames L (take (Suc n) bs)) =
        length (wal_frames L (take n bs)) + length (wal_frame L (bs ! n))"
      using less m by (simp add: take_Suc_conv_app_nth)
    moreover have "length (wal_frames L (take n bs) @ torn) = min (length (wal_frames L bs)) k"
      unfolding eq [symmetric] by simp
    moreover have "length torn < length (wal_frame L (bs ! n))"
      using torn by (auto simp: length_wal_frame)
    moreover have "k \<le> length (wal_frames L bs)" using k(2) rel by (simp add: wal_rel_def)
    ultimately show False using k(1) syn by simp
  qed
  then show ?thesis using n replay by blast
qed

text \<open>With \<open>Always\<close> every append is durable when it returns.\<close>

lemma wal_spec_always:
  "snd s = length (fst s) \<Longrightarrow>
   snd (fold (wal_spec Always) es s) = length (fst (fold (wal_spec Always) es s))"
proof (induction es arbitrary: s)
  case Nil
  then show ?case by simp
next
  case (Cons e es)
  have "snd (wal_spec Always e s) = length (fst (wal_spec Always e s))"
    using Cons.prems by (cases s; cases e) auto
  from Cons.IH [OF this] show ?case by simp
qed

section \<open>The contract of the log\<close>

text \<open>C33: prefix durability of the write-ahead log. Open a log that holds the frames of any batches,
  run any sequence of appends, syncs and resets under either sync policy, and let a power failure
  keep the durable bytes and any part of the rest: \<open>Wal::replay\<close> then returns a prefix of the
  batches written since the last reset that contains every durable one, so no acknowledged batch
  is lost and no torn batch comes back, and it leaves the file holding exactly the frames of the
  batches it returned, so later appends land on a clean prefix.\<close>

theorem wal_prefix_durability:
  assumes "\<forall>b \<in> set bs. wal_lib_ok L b" and "\<forall>e \<in> set es. event_ok L e"
    and "fold (wal_spec p) es (bs, length bs) = (written, durable)"
    and "wal_crash (fold (wal_do L) es (wal_open (wal_frames L bs) p)) d"
  shows "(\<exists>n. durable \<le> n \<and> n \<le> length written \<and>
            wal_replay L (Some d) = (take n written, Some (wal_frames L (take n written)))) \<and>
         (p = Always \<longrightarrow> durable = length written \<and> fst (wal_replay L (Some d)) = written)"
proof -
  have rel: "wal_rel L p (fold (wal_do L) es (wal_open (wal_frames L bs) p)) (written, durable)"
    using wal_rel_run [OF wal_rel_open [OF assms(1), of p] assms(2)] assms(3) by simp
  have "p = Always \<Longrightarrow> durable = length written"
    using wal_spec_always [of "(bs, length bs)" es] assms(3) by simp
  with crash_replay_prefix [OF rel assms(4)] show ?thesis by auto
qed

text \<open>A concrete pair of libraries, for the statements' instances.\<close>

definition put_op_pair :: "bytes \<times> bytes option \<Rightarrow> bytes" where
  "put_op_pair e = put_bytes (fst e) @ put_opt (snd e)"

definition get_op_pair :: "bytes \<Rightarrow> ((bytes \<times> bytes option) \<times> bytes) option" where
  "get_op_pair bs =
     (case get_bytes bs of
        None \<Rightarrow> None
      | Some (k, r) \<Rightarrow> (case get_opt r of None \<Rightarrow> None | Some (v, r') \<Rightarrow> Some ((k, v), r')))"

lemma get_put_op_pair [codec_simps]: "get_op_pair (put_op_pair e @ r) = Some (e, r)"
  by (simp add: put_op_pair_def get_op_pair_def codec_simps)

definition plain_wal_lib :: wal_lib where
  "plain_wal_lib =
     \<lparr>enc_batch = (\<lambda>b. put_nat (first_seq b) @ put_list put_op_pair (wb_ops b)),
      dec_batch = (\<lambda>bs. case get_nat bs of
          None \<Rightarrow> None
        | Some (n, r) \<Rightarrow> (case get_list get_op_pair r of
            None \<Rightarrow> None
          | Some (ops, r') \<Rightarrow> Some \<lparr>first_seq = n, wb_ops = ops\<rparr>)),
      crc32 = (\<lambda>bs. word_of_nat (sum_list (map unat bs)))\<rparr>"

lemma plain_wal_dec: "dec_batch plain_wal_lib (enc_batch plain_wal_lib b) = Some b"
  using get_put_list [of get_op_pair put_op_pair "wb_ops b" "[]", OF get_put_op_pair]
  by (simp add: plain_wal_lib_def codec_simps)

theorem wal_prefix_durability_witness:
  "let L = plain_wal_lib; b = \<lparr>first_seq = 1, wb_ops = [([7], Some [8]), ([9], None)]\<rparr>;
       w = fold (wal_do L) [Append b] (wal_open (wal_frames L []) Always)
   in fst (wal_replay L (Some (wal_data w))) = [b]"
proof -
  let ?b = "\<lparr>first_seq = 1, wb_ops = [([7], Some [8]), ([9], None)]\<rparr>"
  let ?w = "fold (wal_do plain_wal_lib) [Append ?b] (wal_open (wal_frames plain_wal_lib []) Always)"
  have ok: "wal_lib_ok plain_wal_lib ?b"
    by (simp add: wal_lib_ok_def plain_wal_dec)
      (simp add: plain_wal_lib_def put_list_def put_op_pair_def put_nat_def put_bytes_def)
  have crash: "wal_crash ?w (wal_data ?w)"
    by (auto simp: wal_crash_def wal_append_def wal_sync_def wal_open_def)
  show ?thesis
    using wal_prefix_durability [of "[]" plain_wal_lib "[Append ?b]" Always "[?b]" 1, OF _ _ _ crash] ok
    by (simp add: Let_def)
qed

end
