(* ===== verification/Versions.thy ===== *)
theory Versions
  imports Ordered_Map
begin

text \<open>
  What the storage engine stores and what a read of it means. An entry is a key, the sequence
  number of the write and the value, where no value is a tombstone. Memtables, tables and merged
  streams hold entries in one order, keys ascending and sequence numbers descending; the meaning
  of a read at a snapshot is the newest version at or below it. The reference is the list of all
  writes, the \<open>n\<close>-th of which has sequence number \<open>n\<close>.
\<close>

section \<open>Entries and errors\<close>

type_synonym entry = "bytes \<times> nat \<times> bytes option"

text \<open>
  \<open>Error\<close> of \<open>storage/src/error.rs\<close>, and the panics of \<open>unwrap\<close>, \<open>expect\<close> and out-of-range indexing as
  a third case.
\<close>

datatype storage_error = Io | Corruption string | Panic

type_synonym 'a storage_result = "storage_error + 'a"

text \<open>The operator \<open>?\<close>, and a loop whose body uses it.\<close>

fun and_then :: "'e + 'a \<Rightarrow> ('a \<Rightarrow> 'e + 'b) \<Rightarrow> 'e + 'b" where
  "and_then (Inl e) f = Inl e"
| "and_then (Inr x) f = f x"

fun each_ok :: "('x \<Rightarrow> 's \<Rightarrow> 'e + 's) \<Rightarrow> 'x list \<Rightarrow> 's \<Rightarrow> 'e + 's" where
  "each_ok f [] s = Inr s"
| "each_ok f (x # xs) s = and_then (f x s) (each_ok f xs)"

lemma and_then_Inr_iff: "and_then r f = Inr y \<longleftrightarrow> (\<exists>x. r = Inr x \<and> f x = Inr y)"
  by (cases r) auto

lemma and_then_cong [fundef_cong]:
  "r = r' \<Longrightarrow> (\<And>x. r' = Inr x \<Longrightarrow> f x = g x) \<Longrightarrow> and_then r f = and_then r' g"
  by (cases r') auto

lemma each_ok_append: "each_ok f (xs @ ys) s = and_then (each_ok f xs s) (each_ok f ys)"
proof (induction xs arbitrary: s)
  case Nil
  then show ?case by simp
next
  case (Cons x xs)
  then show ?case by (cases "f x s") simp_all
qed

text \<open>The order of entries in every sorted stream.\<close>

fun entry_before :: "entry \<Rightarrow> entry \<Rightarrow> bool" where
  "entry_before (k, s, _) (k', s', _) \<longleftrightarrow> k < k' \<or> (k = k' \<and> s > s')"

abbreviation entries_sorted :: "entry list \<Rightarrow> bool" where
  "entries_sorted \<equiv> sorted_wrt entry_before"

text \<open>A stream that may repeat a version.\<close>

abbreviation entries_ordered :: "entry list \<Rightarrow> bool" where
  "entries_ordered \<equiv> sorted_wrt (\<lambda>a b. \<not> entry_before b a)"

lemma entry_before_trans: "entry_before a b \<Longrightarrow> entry_before b c \<Longrightarrow> entry_before a c"
  by (cases a; cases b; cases c) auto

lemma entry_before_irrefl: "\<not> entry_before a a"
  by (cases a) auto

lemma entry_before_iff:
  "entry_before a b \<longleftrightarrow> (fst a, Reverse (fst (snd a))) < (fst b, Reverse (fst (snd b)))"
  by (cases a; cases b) (auto simp: less_prod_def less_le)

lemma entry_before_asym: "entry_before a b \<Longrightarrow> \<not> entry_before b a"
  by (cases a; cases b) auto

lemma not_entry_before_trans: "\<not> entry_before b a \<Longrightarrow> \<not> entry_before c b \<Longrightarrow> \<not> entry_before c a"
  by (cases a; cases b; cases c) auto

lemma entries_sorted_ordered: "entries_sorted es \<Longrightarrow> entries_ordered es"
  by (erule sorted_wrt_mono_rel [rotated]) (auto dest: entry_before_asym)

lemma entries_sorted_distinct: "entries_sorted es \<Longrightarrow> distinct es"
  by (induction es) (auto simp: entry_before_irrefl)

lemma entries_sorted_keys: "entries_sorted es \<Longrightarrow> sorted (map fst es)"
  by (induction es) (auto, metis entry_before.simps order.strict_iff_not order_refl less_imp_le)

lemma entry_before_key: "entry_before a b \<Longrightarrow> fst a \<le> fst b"
  by (cases a; cases b) auto

lemma entries_sorted_head: "entries_sorted (e # es) \<Longrightarrow> x \<in> set (e # es) \<Longrightarrow> fst e \<le> fst x"
  by (auto dest: entry_before_key)

section \<open>The newest visible version\<close>

text \<open>A sequence number has one value per key.\<close>

definition single_valued_versions :: "entry set \<Rightarrow> bool" where
  "single_valued_versions V \<longleftrightarrow> (\<forall>k s v v'. (k, s, v) \<in> V \<longrightarrow> (k, s, v') \<in> V \<longrightarrow> v = v')"

lemma single_valuedD:
  "single_valued_versions V \<Longrightarrow> (k, s, v) \<in> V \<Longrightarrow> (k, s, v') \<in> V \<Longrightarrow> v = v'"
  unfolding single_valued_versions_def by blast

fun newest :: "entry set \<Rightarrow> bytes \<Rightarrow> nat \<Rightarrow> (nat \<times> bytes option) option \<Rightarrow> bool" where
  "newest V k sn None \<longleftrightarrow> (\<forall>s v. (k, s, v) \<in> V \<longrightarrow> sn < s)"
| "newest V k sn (Some (s, v)) \<longleftrightarrow>
     (k, s, v) \<in> V \<and> s \<le> sn \<and> (\<forall>s' v'. (k, s', v') \<in> V \<longrightarrow> s' \<le> sn \<longrightarrow> s' \<le> s)"

text \<open>What a client sees of a version: a tombstone and an absent key look the same.\<close>

fun live_value :: "(nat \<times> bytes option) option \<Rightarrow> bytes option" where
  "live_value None = None"
| "live_value (Some (s, v)) = v"

lemma newest_unique:
  assumes "single_valued_versions V" "newest V k sn r" "newest V k sn r'"
  shows "r = r'"
proof (cases r)
  case None
  then show ?thesis using assms by (cases r') (auto, meson leD)
next
  case (Some p)
  then obtain s v where r: "r = Some (s, v)" by (cases p) auto
  then show ?thesis
  proof (cases r')
    case None
    then show ?thesis using assms r by (auto dest: leD)
  next
    case (Some q)
    then obtain s' v' where r': "r' = Some (s', v')" by (cases q) auto
    have "s' \<le> s" using assms(2,3) unfolding r r' newest.simps by blast
    moreover have "s \<le> s'" using assms(2,3) unfolding r r' newest.simps by blast
    ultimately have "s = s'" by simp
    then show ?thesis using assms by (auto simp: r r' single_valued_versions_def)
  qed
qed

text \<open>In a sorted list the newest visible version is the first one that is visible.\<close>

definition lookup_at :: "entry list \<Rightarrow> bytes \<Rightarrow> nat \<Rightarrow> (nat \<times> bytes option) option" where
  "lookup_at es key sn = map_option snd (find (\<lambda>(k, s, _). k = key \<and> s \<le> sn) es)"

lemma lookup_at_Nil [simp]: "lookup_at [] key sn = None"
  by (simp add: lookup_at_def)

lemma lookup_at_Cons:
  "lookup_at ((k, s, v) # es) key sn = (if k = key \<and> s \<le> sn then Some (s, v) else lookup_at es key sn)"
  by (simp add: lookup_at_def)

lemma lookup_at_append:
  "lookup_at (xs @ ys) key sn = (case lookup_at xs key sn of None \<Rightarrow> lookup_at ys key sn | Some r \<Rightarrow> Some r)"
proof (induction xs)
  case Nil
  then show ?case by simp
next
  case (Cons e xs)
  then show ?case by (cases e) (simp add: lookup_at_Cons)
qed

lemma lookup_at_not_key: "k \<notin> fst ` set es \<Longrightarrow> lookup_at es k sn = None"
proof (induction es)
  case Nil
  then show ?case by simp
next
  case (Cons e es)
  then show ?case by (cases e) (auto simp: lookup_at_Cons)
qed

lemma newest_lookup_at: "entries_ordered es \<Longrightarrow> newest (set es) k sn (lookup_at es k sn)"
proof (induction es)
  case Nil
  then show ?case by simp
next
  case (Cons e es)
  obtain k' s v where e: "e = (k', s, v)" by (cases e) auto
  show ?case
  proof (cases "k' = k \<and> s \<le> sn")
    case True
    have "s' \<le> s" if "(k, s', v') \<in> set es" for s' v'
      using Cons.prems that True by (fastforce simp: e)
    then show ?thesis using True by (auto simp: e lookup_at_Cons)
  next
    case False
    moreover have "newest (set es) k sn (lookup_at es k sn)" using Cons by simp
    ultimately show ?thesis
      by (cases "lookup_at es k sn") (auto simp: e lookup_at_Cons)
  qed
qed

section \<open>The reference: all writes in order\<close>

text \<open>The versions of a list of writes: the write at position \<open>i\<close> has sequence number \<open>i + 1\<close>.\<close>

definition versions_of :: "(bytes \<times> bytes option) list \<Rightarrow> entry set" where
  "versions_of ops = {(k, s, v). 0 < s \<and> s \<le> length ops \<and> ops ! (s - 1) = (k, v)}"

text \<open>The contents of the database after the first \<open>n\<close> writes.\<close>

definition state_at :: "(bytes \<times> bytes option) list \<Rightarrow> nat \<Rightarrow> bytes \<Rightarrow> bytes option" where
  "state_at ops n = fold (\<lambda>(k, v) m. m(k := v)) (take n ops) (\<lambda>_. None)"

lemma single_valued_versions_of: "single_valued_versions (versions_of ops)"
  by (auto simp: single_valued_versions_def versions_of_def)

lemma single_valued_versions_subset:
  "V \<subseteq> W \<Longrightarrow> single_valued_versions W \<Longrightarrow> single_valued_versions V"
  unfolding single_valued_versions_def by blast

lemma versions_of_append: "versions_of ops \<subseteq> versions_of (ops @ more)"
  by (auto simp: versions_of_def nth_append)

lemma versions_of_snoc:
  "versions_of (ops @ [(k, v)]) = insert (k, Suc (length ops), v) (versions_of ops)"
  by (auto simp: versions_of_def nth_append le_Suc_eq split: if_splits)

lemma versions_of_seq: "(k, s, v) \<in> versions_of ops \<Longrightarrow> 0 < s \<and> s \<le> length ops"
  by (simp add: versions_of_def)

lemma state_at_append: "n \<le> length ops \<Longrightarrow> state_at (ops @ more) n = state_at ops n"
  by (simp add: state_at_def)

lemma state_at_snoc:
  "state_at (ops @ [(k, v)]) (Suc (length ops)) = (state_at ops (length ops))(k := v)"
  by (simp add: state_at_def)

lemma newest_versions_of_upto:
  assumes "newest (versions_of ops) k (length ops) r"
  shows "live_value r = state_at ops (length ops) k"
  using assms
proof (induction ops arbitrary: r rule: rev_induct)
  case Nil
  then have "r = None" by (cases r) (auto simp: versions_of_def)
  then show ?case by (simp add: state_at_def)
next
  case (snoc op ops)
  obtain k' v' where op: "op = (k', v')" by (cases op)
  have st: "state_at (ops @ [op]) (length (ops @ [op])) = (state_at ops (length ops))(k' := v')"
    by (simp add: op state_at_snoc)
  show ?case
  proof (cases "k = k'")
    case True
    have "newest (versions_of (ops @ [op])) k (length (ops @ [op])) (Some (Suc (length ops), v'))"
      using versions_of_seq [of k _ _ ops] by (auto simp: op True versions_of_snoc)
    then have "r = Some (Suc (length ops), v')"
      using newest_unique [OF single_valued_versions_of snoc.prems] by blast
    then show ?thesis using True st by simp
  next
    case False
    have "newest (versions_of ops) k (length ops) r"
    proof (cases r)
      case None
      have False if "(k, s, v) \<in> versions_of ops" for s v
      proof -
        have "Suc (length ops) < s" using snoc.prems None that by (auto simp: op versions_of_snoc)
        then show False using versions_of_seq [OF that] by simp
      qed
      then show ?thesis using None by auto
    next
      case (Some p)
      obtain s v where p: "p = (s, v)" by (cases p)
      have in_ops: "(k, s, v) \<in> versions_of ops"
        using snoc.prems Some p False by (auto simp: op versions_of_snoc)
      have "s' \<le> s" if "(k, s', v') \<in> versions_of ops" for s' v'
        using snoc.prems Some p that versions_of_seq [OF that] by (auto simp: op versions_of_snoc)
      then show ?thesis using Some p in_ops versions_of_seq [OF in_ops] by auto
    qed
    from snoc.IH [OF this] show ?thesis using False st by simp
  qed
qed

lemma newest_versions_of:
  assumes "newest (versions_of ops) k sn r"
  shows "live_value r = state_at ops sn k"
proof -
  have sub: "(k, s, v) \<in> versions_of (take sn ops) \<longleftrightarrow> (k, s, v) \<in> versions_of ops \<and> s \<le> sn" for k s v
    by (auto simp: versions_of_def nth_take)
  have "newest (versions_of (take sn ops)) k (length (take sn ops)) r"
    using assms by (cases r) (auto simp: sub dest: versions_of_seq)
  moreover have "take (min (length ops) sn) ops = take sn ops" by (simp add: min_def)
  ultimately show ?thesis
    using newest_versions_of_upto [of "take sn ops" k r] by (simp add: state_at_def)
qed

end
