(* ===== verification/Manifest.thy ===== *)
theory Manifest
  imports Versions
begin

text \<open>
  The catalogue of tables (\<open>storage/src/manifest.rs\<close>): it is rewritten as a whole, through a
  temporary file that replaces the old one. \<open>save_steps\<close> lists the effects of \<open>Manifest::save\<close> on
  the two files in order, so that the directory a crash leaves is what a prefix of them makes.
  \<open>bincode\<close> on the manifest and \<open>crc32fast\<close> are parameters.
\<close>

section \<open>Data and operations\<close>

record table_meta =
  tm_id :: nat
  tm_min_key :: bytes
  tm_max_key :: bytes
  tm_entries :: nat
  tm_bytes :: nat

record manifest =
  mf_levels :: "table_meta list list"
  next_table_id :: nat
  last_seq :: nat

definition manifest_default :: manifest where
  "manifest_default = \<lparr>mf_levels = [], next_table_id = 0, last_seq = 0\<rparr>"

record manifest_lib =
  enc_manifest :: "manifest \<Rightarrow> bytes"
  dec_manifest :: "bytes \<Rightarrow> manifest option"
  man_crc :: "bytes \<Rightarrow> 32 word"

text \<open>The files \<open>MANIFEST\<close> and \<open>MANIFEST.tmp\<close>.\<close>

record manifest_dir =
  md_main :: "bytes option"
  md_tmp :: "bytes option"

text \<open>The loop of \<open>load\<close> over the paths that exist.\<close>

fun load_from :: "manifest_lib \<Rightarrow> bytes option list \<Rightarrow> manifest option storage_result" where
  "load_from L [] = Inr None"
| "load_from L (None # paths) = load_from L paths"
| "load_from L (Some data # paths) =
     (if length data < 4 then load_from L paths
      else
        let payload = take (length data - 4) data;
            crc = le_nat (drop (length data - 4) data)
        in if unat (man_crc L payload) \<noteq> crc then load_from L paths
           else case dec_manifest L payload of
                  None \<Rightarrow> Inl (Corruption ''manifest'')
                | Some m \<Rightarrow> Inr (Some m))"

definition manifest_load :: "manifest_lib \<Rightarrow> manifest_dir \<Rightarrow> manifest option storage_result" where
  "manifest_load L d = load_from L [md_main d, md_tmp d]"

definition manifest_frame :: "manifest_lib \<Rightarrow> manifest \<Rightarrow> bytes" where
  "manifest_frame L m =
     (let payload = enc_manifest L m in payload @ u32_le (unat (man_crc L payload)))"

text \<open>\<open>save\<close>: create the temporary file, write it, remove the old file, rename.\<close>

definition save_steps :: "manifest_lib \<Rightarrow> manifest \<Rightarrow> (manifest_dir \<Rightarrow> manifest_dir) list" where
  "save_steps L m =
     [\<lambda>d. d\<lparr>md_tmp := Some []\<rparr>,
      \<lambda>d. d\<lparr>md_tmp := Some (manifest_frame L m)\<rparr>,
      \<lambda>d. if md_main d \<noteq> None then d\<lparr>md_main := None\<rparr> else d,
      \<lambda>d. d\<lparr>md_main := md_tmp d, md_tmp := None\<rparr>]"

definition manifest_save :: "manifest_lib \<Rightarrow> manifest \<Rightarrow> manifest_dir \<Rightarrow> manifest_dir" where
  "manifest_save L m d = fold (\<lambda>f. f) (save_steps L m) d"

text \<open>
  What a crash during \<open>save\<close> leaves: the directory after some of the steps, or the temporary file
  written in part.
\<close>

definition save_crash :: "manifest_lib \<Rightarrow> manifest \<Rightarrow> manifest_dir \<Rightarrow> manifest_dir \<Rightarrow> bool" where
  "save_crash L m d d' \<longleftrightarrow>
     (\<exists>n. d' = fold (\<lambda>f. f) (take n (save_steps L m)) d) \<or>
     (\<exists>n. d' = d\<lparr>md_tmp := Some (take n (manifest_frame L m))\<rparr>)"

section \<open>Loading what was saved\<close>

lemma load_from_frame:
  "dec_manifest L (enc_manifest L m) = Some m \<Longrightarrow>
   load_from L (Some (manifest_frame L m) # paths) = Inr (Some m)"
  by (simp add: manifest_frame_def Let_def)

lemma manifest_save_eq: "manifest_save L m d = d\<lparr>md_main := Some (manifest_frame L m), md_tmp := None\<rparr>"
  by (simp add: manifest_save_def save_steps_def)

lemma manifest_load_save:
  "dec_manifest L (enc_manifest L m) = Some m \<Longrightarrow> manifest_load L (manifest_save L m d) = Inr (Some m)"
  by (simp add: manifest_load_def manifest_save_eq load_from_frame del: load_from.simps)

text \<open>The states between the steps of a save.\<close>

lemma save_crash_cases:
  assumes "save_crash L m d d'"
  obtains "d' = d"
    | n where "d' = d\<lparr>md_tmp := Some (take n (manifest_frame L m))\<rparr>"
    | "d' = d\<lparr>md_main := None, md_tmp := Some (manifest_frame L m)\<rparr>"
    | "d' = manifest_save L m d"
proof -
  consider n where "d' = fold (\<lambda>f. f) (take n (save_steps L m)) d"
    | n where "d' = d\<lparr>md_tmp := Some (take n (manifest_frame L m))\<rparr>"
    using assms by (auto simp: save_crash_def)
  then show thesis
  proof cases
    case (1 n)
    consider "n = 0" | "n = 1" | "n = 2" | "n = 3" | "n \<ge> 4" by linarith
    then show thesis
    proof cases
      case 3
      then have "d' = d\<lparr>md_tmp := Some (take (length (manifest_frame L m)) (manifest_frame L m))\<rparr>"
        using 1 by (simp add: save_steps_def numeral_eq_Suc)
      then show thesis by (rule that(2))
    next
      case 2
      then have "d' = d\<lparr>md_tmp := Some (take 0 (manifest_frame L m))\<rparr>"
        using 1 by (simp add: save_steps_def)
      then show thesis by (rule that(2))
    next
      case 4
      then have "d' = d\<lparr>md_main := None, md_tmp := Some (manifest_frame L m)\<rparr>"
        using 1 by (cases d) (simp add: save_steps_def numeral_eq_Suc)
      then show thesis by (rule that(3))
    next
      case 5
      then have "d' = manifest_save L m d" using 1 by (simp add: manifest_save_def save_steps_def)
      then show thesis by (rule that(4))
    qed (use 1 that in simp)
  qed (use that in blast)
qed

text \<open>
  A crash at any point of a save leaves a directory that loads the old manifest or the new one,
  when there is an old one in place.
\<close>

lemma save_crash_load:
  assumes "dec_manifest L (enc_manifest L m) = Some m" "dec_manifest L (enc_manifest L m') = Some m'"
    and "md_main d = Some (manifest_frame L m)" and "save_crash L m' d d'"
  shows "manifest_load L d' = Inr (Some (if md_main d' = md_main d then m else m')) \<and>
     (md_main d' = md_main d \<or> md_main d' = None \<and> md_tmp d' = Some (manifest_frame L m') \<or>
      md_main d' = Some (manifest_frame L m'))"
proof -
  note load = load_from_frame [OF assms(1)] load_from_frame [OF assms(2)]
  have inj: "m = m'" if "manifest_frame L m = manifest_frame L m'"
    using load(1) [of "[]"] load(2) [of "[]"] unfolding that by simp
  show ?thesis
    using assms(4)
  proof (cases rule: save_crash_cases)
    case 1
    have "manifest_load L d' = Inr (Some m)"
      unfolding 1 manifest_load_def assms(3) by (rule load)
    then show ?thesis using 1 by simp
  next
    case (2 n)
    have "manifest_load L d' = Inr (Some m)"
      unfolding 2 manifest_load_def by (simp add: assms(3) load del: load_from.simps(3))
    then show ?thesis using 2 by simp
  next
    case 3
    have "manifest_load L d' = Inr (Some m')"
      unfolding 3 manifest_load_def by (simp add: load del: load_from.simps(3))
    then show ?thesis using 3 assms(3) by simp
  next
    case 4
    then have "md_main d' = Some (manifest_frame L m')" by (simp add: manifest_save_eq)
    moreover have "manifest_load L d' = Inr (Some m')"
      unfolding 4 by (rule manifest_load_save [OF assms(2)])
    ultimately show ?thesis
      using inj assms(3) by (cases "manifest_frame L m = manifest_frame L m'") simp_all
  qed
qed

end
