(* ===== verification/Bloom.thy ===== *)
theory Bloom
  imports Versions
begin

unbundle bit_operations_syntax

text \<open>
  The Bloom filter of a table (\<open>storage/src/bloom.rs\<close>): FNV-1a and the splitmix finaliser on
  wrapping 64-bit words, double hashing, and the filter's encoding. The probe count is
  \<open>bits_per_key\<close> times 0.69 cut to an integer between 1 and 30; in the range where the clamp does
  not decide, the floating-point product is at least a hundredth away from any integer, so integer
  arithmetic gives the same count.
\<close>

section \<open>Hashes\<close>

definition fnv1a :: "bytes \<Rightarrow> 64 word" where
  "fnv1a data = fold (\<lambda>b h. (h XOR ucast b) * 0x100000001b3) data 0xcbf29ce484222325"

definition mix :: "64 word \<Rightarrow> 64 word" where
  "mix x0 =
     (let x = (x0 XOR drop_bit 30 x0) * 0xbf58476d1ce4e5b9;
          x = (x XOR drop_bit 27 x) * 0x94d049bb133111eb
      in x XOR drop_bit 31 x)"

section \<open>The filter\<close>

record bloom_filter =
  bf_k :: nat
  bf_bits :: bytes

text \<open>One probe: the byte and the bit within it; \<open>|=\<close> sets it, \<open>&\<close> tests it.\<close>

definition set_bit_at :: "nat \<Rightarrow> bytes \<Rightarrow> bytes" where
  "set_bit_at i bits = bits[i div 8 := (bits ! (i div 8)) OR push_bit (i mod 8) 1]"

definition test_bit_at :: "nat \<Rightarrow> bytes \<Rightarrow> bool" where
  "test_bit_at i bits \<longleftrightarrow> (bits ! (i div 8)) AND push_bit (i mod 8) 1 \<noteq> 0"

fun add_probes :: "nat \<Rightarrow> 64 word \<Rightarrow> 64 word \<Rightarrow> bytes \<Rightarrow> bytes" where
  "add_probes 0 pos h2 bits = bits"
| "add_probes (Suc n) pos h2 bits =
     add_probes n (pos + h2) h2 (set_bit_at (unat pos mod (length bits * 8)) bits)"

fun test_probes :: "nat \<Rightarrow> 64 word \<Rightarrow> 64 word \<Rightarrow> bytes \<Rightarrow> bool" where
  "test_probes 0 pos h2 bits = True"
| "test_probes (Suc n) pos h2 bits =
     (if \<not> test_bit_at (unat pos mod (length bits * 8)) bits then False
      else test_probes n (pos + h2) h2 bits)"

definition add_hash :: "64 word \<Rightarrow> bloom_filter \<Rightarrow> bloom_filter" where
  "add_hash h1 f = f\<lparr>bf_bits := add_probes (bf_k f) h1 (mix h1 OR 1) (bf_bits f)\<rparr>"

definition may_contain :: "bloom_filter \<Rightarrow> bytes \<Rightarrow> bool" where
  "may_contain f key = (let h1 = fnv1a key in test_probes (bf_k f) h1 (mix h1 OR 1) (bf_bits f))"

definition probe_count :: "nat \<Rightarrow> nat" where
  "probe_count bits_per_key = max 1 (min 30 (bits_per_key * 69 div 100))"

definition from_hashes :: "64 word list \<Rightarrow> nat \<Rightarrow> bloom_filter" where
  "from_hashes hashes bits_per_key =
     (let nbits = max (length hashes * bits_per_key) 64;
          nbits = (nbits + 7) div 8 * 8
      in fold add_hash hashes
           \<lparr>bf_k = probe_count bits_per_key, bf_bits = replicate (nbits div 8) 0\<rparr>)"

definition bf_encode :: "bloom_filter \<Rightarrow> bytes" where
  "bf_encode f = u32_le (bf_k f) @ bf_bits f"

definition bf_decode :: "bytes \<Rightarrow> bloom_filter storage_result" where
  "bf_decode data =
     (if length data < 5 then Inl (Corruption ''bloom filter too short'')
      else Inr \<lparr>bf_k = le_nat (take 4 data), bf_bits = drop 4 data\<rparr>)"

section \<open>No false negatives\<close>

lemma length_set_bit_at [simp]: "length (set_bit_at i bits) = length bits"
  by (simp add: set_bit_at_def)

lemma length_add_probes [simp]: "length (add_probes n pos h2 bits) = length bits"
  by (induction n pos h2 bits rule: add_probes.induct) simp_all

lemma test_bit_at_iff: "test_bit_at i bits \<longleftrightarrow> bit (bits ! (i div 8)) (i mod 8)"
  by (simp add: test_bit_at_def bit_iff_and_push_bit_not_eq_0)

lemma test_set_bit_at:
  assumes "i < length bits * 8"
  shows "test_bit_at i (set_bit_at i bits)"
proof -
  have "i div 8 < length bits" using assms by (simp add: div_less_iff_less_mult)
  then show ?thesis by (simp add: test_bit_at_iff set_bit_at_def bit_or_iff bit_exp_iff)
qed

lemma test_set_bit_at_mono: "test_bit_at i bits \<Longrightarrow> test_bit_at i (set_bit_at j bits)"
  by (cases "j div 8 < length bits")
    (auto simp: test_bit_at_iff set_bit_at_def nth_list_update bit_or_iff list_update_beyond)

lemma test_add_probes_mono: "test_bit_at i bits \<Longrightarrow> test_bit_at i (add_probes n pos h2 bits)"
  by (induction n pos h2 bits rule: add_probes.induct) (simp_all add: test_set_bit_at_mono)

lemma test_probes_add: "bits \<noteq> [] \<Longrightarrow> test_probes n pos h2 (add_probes n pos h2 bits)"
proof (induction n pos h2 bits rule: add_probes.induct)
  case (1 pos h2 bits)
  then show ?case by simp
next
  case (2 n pos h2 bits)
  have "unat pos mod (length bits * 8) < length bits * 8" using "2.prems" by simp
  then have "test_bit_at (unat pos mod (length bits * 8)) (set_bit_at (unat pos mod (length bits * 8)) bits)"
    by (rule test_set_bit_at)
  moreover have "set_bit_at (unat pos mod (length bits * 8)) bits \<noteq> []"
    using "2.prems" length_set_bit_at by (metis length_0_conv)
  ultimately show ?case using "2.IH" by (simp add: test_add_probes_mono)
qed

lemma test_probes_mono:
  assumes "length bits' = length bits" "\<forall>i. test_bit_at i bits \<longrightarrow> test_bit_at i bits'"
  shows "test_probes n pos h2 bits \<Longrightarrow> test_probes n pos h2 bits'"
  by (induction n arbitrary: pos) (auto simp: assms split: if_splits)

definition has_hash :: "bloom_filter \<Rightarrow> 64 word \<Rightarrow> bool" where
  "has_hash f h = test_probes (bf_k f) h (mix h OR 1) (bf_bits f)"

lemma add_hash_fields [simp]:
  "bf_k (add_hash h f) = bf_k f" "length (bf_bits (add_hash h f)) = length (bf_bits f)"
  by (simp_all add: add_hash_def)

lemma has_hash_add: "bf_bits f \<noteq> [] \<Longrightarrow> has_hash (add_hash h f) h"
  by (simp add: has_hash_def add_hash_def test_probes_add)

lemma has_hash_mono: "has_hash f h \<Longrightarrow> has_hash (add_hash h' f) h"
  unfolding has_hash_def add_hash_fields
  by (rule test_probes_mono) (auto simp: add_hash_def test_add_probes_mono)

lemma fold_add_hash_fields [simp]:
  "bf_k (fold add_hash hs f) = bf_k f" "length (bf_bits (fold add_hash hs f)) = length (bf_bits f)"
  by (induction hs arbitrary: f) simp_all

lemma has_hash_fold_mono: "has_hash f h \<Longrightarrow> has_hash (fold add_hash hs f) h"
  by (induction hs arbitrary: f) (simp_all add: has_hash_mono)

lemma has_hash_fold: "bf_bits f \<noteq> [] \<Longrightarrow> h \<in> set hs \<Longrightarrow> has_hash (fold add_hash hs f) h"
proof (induction hs arbitrary: f)
  case Nil
  then show ?case by simp
next
  case (Cons h' hs)
  have "bf_bits (add_hash h' f) \<noteq> []"
    using Cons.prems(1) add_hash_fields(2) by (metis length_0_conv)
  then show ?case
    using Cons by (auto simp: has_hash_add has_hash_fold_mono)
qed

lemma bf_bits_from_hashes:
  "8 \<le> length (bf_bits (from_hashes hs n))" "bf_k (from_hashes hs n) = probe_count n"
  by (simp_all add: from_hashes_def Let_def)

lemma may_contain_from_hashes:
  assumes "fnv1a key \<in> set hs"
  shows "may_contain (from_hashes hs n) key"
proof -
  have "has_hash (from_hashes hs n) (fnv1a key)"
    unfolding from_hashes_def Let_def by (rule has_hash_fold [OF _ assms]) simp
  then show ?thesis by (simp add: may_contain_def has_hash_def Let_def)
qed

section \<open>Encoding\<close>

lemma bf_decode_encode:
  "bf_k f < 2 ^ 32 \<Longrightarrow> bf_bits f \<noteq> [] \<Longrightarrow> bf_decode (bf_encode f) = Inr f"
  by (cases "bf_bits f") (auto simp: bf_decode_def bf_encode_def)

lemma bf_decode_from_hashes: "bf_decode (bf_encode (from_hashes hs n)) = Inr (from_hashes hs n)"
  using bf_bits_from_hashes [of hs n] by (intro bf_decode_encode) (auto simp: probe_count_def)

end
