(* ===== verification/Memtable.thy ===== *)
theory Memtable
  imports Versions
begin

text \<open>
  The in-memory write buffer (\<open>storage/src/memtable.rs\<close>): a \<open>BTreeMap\<close> keyed by the user key and
  the reversed sequence number, and a running estimate of its size.
\<close>

section \<open>Operations\<close>

record mem_table =
  mt_map :: "(bytes \<times> nat reverse, bytes option) btree_map"
  mt_bytes :: nat

definition mt_new :: mem_table where
  "mt_new = \<lparr>mt_map = bt_empty, mt_bytes = 0\<rparr>"

definition value_len :: "bytes option \<Rightarrow> nat" where
  "value_len v = (case v of None \<Rightarrow> 0 | Some v \<Rightarrow> length v)"

definition mt_insert :: "bytes \<Rightarrow> nat \<Rightarrow> bytes option \<Rightarrow> mem_table \<Rightarrow> mem_table" where
  "mt_insert key seq v m =
     \<lparr>mt_map = bt_insert (key, Reverse seq) v (mt_map m),
      mt_bytes = mt_bytes m + (length key + value_len v + 24)\<rparr>"

text \<open>\<open>BTreeMap::range(start..=end).next()\<close> on the entries in key order.\<close>

definition bt_first_in :: "'k::linorder \<Rightarrow> 'k \<Rightarrow> ('k, 'v) btree_map \<Rightarrow> ('k \<times> 'v) option" where
  "bt_first_in lo hi m = find (\<lambda>(k, _). lo \<le> k \<and> k \<le> hi) m"

definition mt_get :: "mem_table \<Rightarrow> bytes \<Rightarrow> nat \<Rightarrow> bytes option option" where
  "mt_get m key snapshot =
     map_option snd (bt_first_in (key, Reverse snapshot) (key, Reverse 0) (mt_map m))"

definition mt_len :: "mem_table \<Rightarrow> nat" where
  "mt_len m = length (mt_map m)"

definition mt_is_empty :: "mem_table \<Rightarrow> bool" where
  "mt_is_empty m \<longleftrightarrow> mt_map m = []"

definition mt_iter :: "mem_table \<Rightarrow> entry list" where
  "mt_iter m = map (\<lambda>((k, s), v). (k, unrev s, v)) (mt_map m)"

abbreviation mt_ok :: "mem_table \<Rightarrow> bool" where
  "mt_ok m \<equiv> bt_ok (mt_map m)"

section \<open>Correctness\<close>

lemma mt_ok_new [simp]: "mt_ok mt_new"
  by (simp add: mt_new_def)

lemma mt_iter_new [simp]: "mt_iter mt_new = []"
  by (simp add: mt_new_def mt_iter_def bt_empty_def)

lemma mt_ok_insert [simp]: "mt_ok m \<Longrightarrow> mt_ok (mt_insert k s v m)"
  by (simp add: mt_insert_def)

text \<open>Iteration is in the order every table relies on.\<close>

lemma mt_iter_sorted: "mt_ok m \<Longrightarrow> entries_sorted (mt_iter m)"
proof -
  have "sorted_wrt (<) (map fst xs) \<Longrightarrow>
      entries_sorted (map (\<lambda>((k, s), v). (k, unrev s, v)) xs)" for xs :: "((bytes \<times> nat reverse) \<times> bytes option) list"
    by (induction xs) (auto simp: less_prod_def less_reverse_def less_eq_reverse_def reverse.expand
        less_le)
  then show "mt_ok m \<Longrightarrow> entries_sorted (mt_iter m)" by (simp add: bt_ok_def mt_iter_def)
qed

lemma set_mt_iter:
  assumes "mt_ok m"
  shows "(k, s, v) \<in> set (mt_iter m) \<longleftrightarrow> bt_get (mt_map m) (k, Reverse s) = Some v"
  using assms by (force simp: bt_get_Some_iff mt_iter_def)

lemma set_mt_iter_insert:
  assumes "mt_ok m"
  shows "set (mt_iter (mt_insert k s v m)) = insert (k, s, v) {(k', s', v'). (k', s', v') \<in> set (mt_iter m) \<and> (k', s') \<noteq> (k, s)}"
proof -
  have "(k', s', v') \<in> set (mt_iter (mt_insert k s v m)) \<longleftrightarrow>
      (k', s', v') = (k, s, v) \<or> (k', s', v') \<in> set (mt_iter m) \<and> (k', s') \<noteq> (k, s)" for k' s' v'
    using assms by (auto simp: set_mt_iter mt_insert_def)
  then show ?thesis by auto
qed

text \<open>A lookup is the lookup in the sorted entries, so it is the newest visible version.\<close>

lemma version_range:
  "(key, Reverse sn) \<le> (k, s) \<and> (k, s) \<le> (key, Reverse 0) \<longleftrightarrow> k = key \<and> unrev s \<le> (sn :: nat)"
  for key :: "'a::linorder"
  by (cases s) (use less_asym in \<open>auto simp: less_le\<close>)

lemma mt_get_lookup_at: "mt_get m key sn = map_option snd (lookup_at (mt_iter m) key sn)"
proof -
  have "map_option snd (find (\<lambda>(k, _). (key, Reverse sn) \<le> k \<and> k \<le> (key, Reverse 0)) xs) =
     map_option snd (lookup_at (map (\<lambda>((k, s), v). (k, unrev s, v)) xs) key sn)"
    for xs :: "((bytes \<times> nat reverse) \<times> bytes option) list"
  proof (induction xs)
    case Nil
    then show ?case by simp
  next
    case (Cons e xs)
    obtain k s v where e: "e = ((k, s), v)" by (metis surj_pair)
    show ?case
      using Cons version_range [of key sn k s] by (simp add: e lookup_at_Cons del: less_eq_prod_simp)
  qed
  then show ?thesis by (simp add: mt_get_def bt_first_in_def mt_iter_def)
qed

end
