(* ===== verification/Sstable.thy ===== *)
theory Sstable
  imports Bloom Memtable
begin

text \<open>
  Sorted tables (\<open>storage/src/sstable.rs\<close>): the builder that encodes entries into blocks and writes
  the index and the footer, and the reader with its point lookup and iterator. A file is its bytes
  and the directory of table files a map from table numbers to files. \<open>bincode\<close> on the index and
  \<open>crc32fast\<close> are parameters.
\<close>

section \<open>Data\<close>

definition magic :: nat where
  "magic = 0x7266744b56535354"

record block_meta =
  first_key :: bytes
  bm_offset :: nat
  bm_len :: nat
  bm_crc :: nat

record table_index =
  ti_blocks :: "block_meta list"
  ti_bloom :: bytes
  ti_entry_count :: nat
  ti_min_key :: bytes
  ti_max_key :: bytes
  ti_max_seq :: nat

record sst_lib =
  enc_index :: "table_index \<Rightarrow> bytes"
  dec_index :: "bytes \<Rightarrow> table_index option"
  block_crc :: "bytes \<Rightarrow> 32 word"

section \<open>The builder\<close>

record table_builder =
  tb_file :: bytes
  tb_block :: bytes
  tb_block_first_key :: "bytes option"
  tb_blocks :: "block_meta list"
  tb_offset :: nat
  tb_key_hashes :: "64 word list"
  tb_last_user_key :: "bytes option"
  tb_entry_count :: nat
  tb_min_key :: "bytes option"
  tb_max_key :: "bytes option"
  tb_max_seq :: nat
  tb_block_bytes :: nat
  tb_bits_per_key :: nat

definition tb_create :: "nat \<Rightarrow> nat \<Rightarrow> table_builder" where
  "tb_create block_bytes bits_per_key =
     \<lparr>tb_file = [], tb_block = [], tb_block_first_key = None, tb_blocks = [], tb_offset = 0,
      tb_key_hashes = [], tb_last_user_key = None, tb_entry_count = 0, tb_min_key = None,
      tb_max_key = None, tb_max_seq = 0, tb_block_bytes = block_bytes,
      tb_bits_per_key = bits_per_key\<rparr>"

definition flush_block :: "sst_lib \<Rightarrow> table_builder \<Rightarrow> table_builder storage_result" where
  "flush_block L b =
     (if tb_block b = [] then Inr b
      else case tb_block_first_key b of
             None \<Rightarrow> Inl Panic
           | Some k \<Rightarrow>
               Inr (b\<lparr>tb_file := tb_file b @ tb_block b,
                      tb_block_first_key := None,
                      tb_blocks := tb_blocks b @
                        [\<lparr>first_key = k, bm_offset = tb_offset b,
                          bm_len = length (tb_block b) mod 2 ^ 32,
                          bm_crc = unat (block_crc L (tb_block b))\<rparr>],
                      tb_offset := tb_offset b + length (tb_block b),
                      tb_block := []\<rparr>))"

text \<open>The bytes of one entry: \<open>[klen u32][key][seq u64][kind u8][vlen u32][value]\<close>.\<close>

fun encode_entry :: "entry \<Rightarrow> bytes" where
  "encode_entry (key, seq, Some v) = u32_le (length key) @ key @ u64_le seq @ [1] @ u32_le (length v) @ v"
| "encode_entry (key, seq, None) = u32_le (length key) @ key @ u64_le seq @ [0] @ u32_le 0"

definition tb_add :: "sst_lib \<Rightarrow> entry \<Rightarrow> table_builder \<Rightarrow> table_builder storage_result" where
  "tb_add L e b =
     (case e of (key, seq, v) \<Rightarrow>
      let b = (if tb_block_first_key b = None then b\<lparr>tb_block_first_key := Some key\<rparr> else b);
          b = (if tb_last_user_key b \<noteq> Some key
               then b\<lparr>tb_key_hashes := tb_key_hashes b @ [fnv1a key], tb_last_user_key := Some key\<rparr>
               else b);
          b = (if tb_min_key b = None then b\<lparr>tb_min_key := Some key\<rparr> else b);
          b = b\<lparr>tb_max_key := Some key, tb_max_seq := max (tb_max_seq b) seq,
                tb_entry_count := tb_entry_count b + 1,
                tb_block := tb_block b @ encode_entry (key, seq, v)\<rparr>
      in if length (tb_block b) \<ge> tb_block_bytes b then flush_block L b else Inr b)"

definition unwrap_or_default :: "bytes option \<Rightarrow> bytes" where
  "unwrap_or_default x = (case x of None \<Rightarrow> [] | Some b \<Rightarrow> b)"

definition index_of :: "table_builder \<Rightarrow> table_index" where
  "index_of b =
     \<lparr>ti_blocks = tb_blocks b,
      ti_bloom = bf_encode (from_hashes (tb_key_hashes b) (tb_bits_per_key b)),
      ti_entry_count = tb_entry_count b,
      ti_min_key = unwrap_or_default (tb_min_key b),
      ti_max_key = unwrap_or_default (tb_max_key b),
      ti_max_seq = tb_max_seq b\<rparr>"

text \<open>\<open>finish\<close>: the file it leaves, and the entry count, file size and key range it returns.\<close>

definition tb_finish :: "sst_lib \<Rightarrow> table_builder \<Rightarrow> (bytes \<times> nat \<times> nat \<times> bytes \<times> bytes) storage_result" where
  "tb_finish L b0 =
     and_then (flush_block L b0) (\<lambda>b.
       let index = index_of b;
           payload = enc_index L index;
           index_off = tb_offset b;
           footer = u64_le index_off @ u32_le (length payload) @ u32_le (unat (block_crc L payload)) @
                    u64_le magic;
           size = index_off + length payload + 24
       in Inr (tb_file b @ payload @ footer, tb_entry_count b, size, ti_min_key index, ti_max_key index))"

section \<open>The reader\<close>

type_synonym table_files = "nat \<Rightarrow> bytes option"

record ss_table =
  st_id :: nat
  st_index :: table_index
  st_bloom :: bloom_filter

text \<open>\<open>read_exact\<close> of \<open>n\<close> bytes at an offset.\<close>

definition read_at :: "bytes \<Rightarrow> nat \<Rightarrow> nat \<Rightarrow> bytes storage_result" where
  "read_at file off n = (if off + n > length file then Inl Io else Inr (take n (drop off file)))"

definition sst_open :: "sst_lib \<Rightarrow> table_files \<Rightarrow> nat \<Rightarrow> ss_table storage_result" where
  "sst_open L files tid =
     (case files tid of
        None \<Rightarrow> Inl Io
      | Some file \<Rightarrow>
          if length file < 24 then Inl (Corruption ''too short'')
          else
            let footer = drop (length file - 24) file
            in if le_nat (take 8 (drop 16 footer)) \<noteq> magic then Inl (Corruption ''bad magic'')
               else
                 let index_off = le_nat (take 8 footer);
                     index_len = le_nat (take 4 (drop 8 footer));
                     index_crc = le_nat (take 4 (drop 12 footer))
                 in and_then (read_at file index_off index_len) (\<lambda>payload.
                      if unat (block_crc L payload) \<noteq> index_crc
                      then Inl (Corruption ''index crc mismatch'')
                      else case dec_index L payload of
                             None \<Rightarrow> Inl (Corruption ''decode'')
                           | Some index \<Rightarrow>
                               and_then (bf_decode (ti_bloom index)) (\<lambda>bloom.
                                 Inr \<lparr>st_id = tid, st_index = index, st_bloom = bloom\<rparr>)))"

abbreviation st_min_key :: "ss_table \<Rightarrow> bytes" where
  "st_min_key t \<equiv> ti_min_key (st_index t)"

abbreviation st_max_key :: "ss_table \<Rightarrow> bytes" where
  "st_max_key t \<equiv> ti_max_key (st_index t)"

text \<open>\<open>decode_block\<close>, on the part of the buffer from the current offset on.\<close>

function decode_block :: "bytes \<Rightarrow> entry list storage_result" where
  "decode_block buf =
     (if buf = [] then Inr []
      else if length buf < 4 then Inl (Corruption ''truncated block entry'')
      else
        let klen = le_nat (take 4 buf); buf1 = drop 4 buf
        in if length buf1 < klen + 9 then Inl (Corruption ''truncated block entry'')
           else
             let key = take klen buf1;
                 seq = le_nat (take 8 (drop klen buf1));
                 kind = buf1 ! (klen + 8);
                 buf2 = drop (klen + 9) buf1
             in if length buf2 < 4 then Inl (Corruption ''truncated block entry'')
                else
                  let vlen = le_nat (take 4 buf2); buf3 = drop 4 buf2
                  in if kind = 1 then
                       if length buf3 < vlen then Inl (Corruption ''truncated block entry'')
                       else and_then (decode_block (drop vlen buf3))
                              (\<lambda>es. Inr ((key, seq, Some (take vlen buf3)) # es))
                     else and_then (decode_block buf3) (\<lambda>es. Inr ((key, seq, None) # es)))"
  by pat_completeness auto
termination by (relation "measure length") auto

declare decode_block.simps [simp del]

definition read_block :: "sst_lib \<Rightarrow> table_files \<Rightarrow> ss_table \<Rightarrow> nat \<Rightarrow> entry list storage_result" where
  "read_block L files t i =
     (if i \<ge> length (ti_blocks (st_index t)) then Inl Panic
      else
        let meta = ti_blocks (st_index t) ! i
        in case files (st_id t) of
             None \<Rightarrow> Inl Io
           | Some file \<Rightarrow>
               and_then (read_at file (bm_offset meta) (bm_len meta)) (\<lambda>buf.
                 if unat (block_crc L buf) \<noteq> bm_crc meta then Inl (Corruption ''block crc mismatch'')
                 else decode_block buf))"

text \<open>The \<open>for\<close> loop of \<open>get\<close> over one block: an answer, or on to the next block.\<close>

fun scan_block :: "bytes \<Rightarrow> nat \<Rightarrow> entry list \<Rightarrow> (nat \<times> bytes option) option option" where
  "scan_block key snapshot [] = None"
| "scan_block key snapshot ((k, seq, v) # es) =
     (if k < key then scan_block key snapshot es
      else if k = key then (if seq \<le> snapshot then Some (Some (seq, v)) else scan_block key snapshot es)
      else Some None)"

text \<open>\<open>partition_point\<close> on a slice the predicate partitions.\<close>

definition partition_point :: "('a \<Rightarrow> bool) \<Rightarrow> 'a list \<Rightarrow> nat" where
  "partition_point P xs = length (takeWhile P xs)"

function get_loop :: "sst_lib \<Rightarrow> table_files \<Rightarrow> ss_table \<Rightarrow> bytes \<Rightarrow> nat \<Rightarrow> nat \<Rightarrow>
    (nat \<times> bytes option) option storage_result" where
  "get_loop L files t key snapshot idx =
     and_then (read_block L files t idx) (\<lambda>entries.
       case scan_block key snapshot entries of
         Some r \<Rightarrow> Inr r
       | None \<Rightarrow>
           if idx + 1 \<ge> length (ti_blocks (st_index t)) \<or> first_key (ti_blocks (st_index t) ! (idx + 1)) > key
           then Inr None
           else get_loop L files t key snapshot (idx + 1))"
  by pat_completeness auto
termination
  by (relation "measure (\<lambda>(L, files, t, key, snapshot, idx). length (ti_blocks (st_index t)) - idx)") auto

declare get_loop.simps [simp del]

definition sst_get :: "sst_lib \<Rightarrow> table_files \<Rightarrow> ss_table \<Rightarrow> bytes \<Rightarrow> nat \<Rightarrow>
    (nat \<times> bytes option) option storage_result" where
  "sst_get L files t key snapshot =
     (if key < st_min_key t \<or> key > st_max_key t then Inr None
      else if \<not> may_contain (st_bloom t) key then Inr None
      else get_loop L files t key snapshot
             (partition_point (\<lambda>b. first_key b < key) (ti_blocks (st_index t)) - 1))"

text \<open>
  \<open>TableIter\<close>: the entries it yields from block \<open>i\<close> on; a block that cannot be read is a panic.
\<close>

function iter_from :: "sst_lib \<Rightarrow> table_files \<Rightarrow> ss_table \<Rightarrow> nat \<Rightarrow> entry list storage_result" where
  "iter_from L files t block_idx =
     (if block_idx \<ge> length (ti_blocks (st_index t)) then Inr []
      else case read_block L files t block_idx of
             Inl _ \<Rightarrow> Inl Panic
           | Inr block \<Rightarrow> and_then (iter_from L files t (block_idx + 1)) (\<lambda>rest. Inr (block @ rest)))"
  by pat_completeness auto
termination
  by (relation "measure (\<lambda>(L, files, t, i). length (ti_blocks (st_index t)) - i)") auto

declare iter_from.simps [simp del]

definition sst_iter :: "sst_lib \<Rightarrow> table_files \<Rightarrow> ss_table \<Rightarrow> entry list storage_result" where
  "sst_iter L files t = iter_from L files t 0"

section \<open>Blocks decode to what was encoded\<close>

text \<open>Sizes that fit the widths of the encoding.\<close>

definition entry_fits :: "nat \<Rightarrow> entry \<Rightarrow> bool" where
  "entry_fits block_bytes e \<longleftrightarrow>
     length (encode_entry e) + block_bytes < 2 ^ 32 \<and> fst (snd e) < 2 ^ 64"

abbreviation encode_block :: "entry list \<Rightarrow> bytes" where
  "encode_block es \<equiv> concat (map encode_entry es)"

lemma length_encode_entry: "length (encode_entry (k, s, v)) = 17 + length k + value_len v"
  by (cases v) (simp_all add: value_len_def)

lemma encode_entry_not_Nil [simp]: "encode_entry e \<noteq> []"
proof -
  obtain k s v where "e = (k, s, v)" by (cases e) auto
  then have "length (encode_entry e) \<noteq> 0" by (simp only: length_encode_entry)
  then show ?thesis by auto
qed

lemma entry_fits_lengths:
  assumes "entry_fits n (k, s, v)"
  shows "length k < 2 ^ 32" "s < 2 ^ 64" "v = Some x \<Longrightarrow> length x < 2 ^ 32"
  using assms by (auto simp: entry_fits_def length_encode_entry value_len_def simp del: encode_entry.simps)

lemma decode_block_entry:
  assumes "entry_fits n e"
  shows "decode_block (encode_entry e @ rest) = and_then (decode_block rest) (\<lambda>es. Inr (e # es))"
proof -
  obtain k s v where e: "e = (k, s, v)" by (cases e) auto
  note fits = entry_fits_lengths [OF assms [unfolded e]]
  have k: "le_nat (u32_le (length k)) = length k" and s: "le_nat (u64_le s) = s"
    using fits by (simp_all add: u32_of_le_bytes u64_of_le_bytes)
  show ?thesis
  proof (cases v)
    case None
    then show ?thesis
      unfolding e by (subst decode_block.simps) (simp add: k s Let_def nth_append)
  next
    case (Some x)
    then have "le_nat (u32_le (length x)) = length x" using fits by (simp add: u32_of_le_bytes)
    then show ?thesis
      unfolding e Some by (subst decode_block.simps) (simp add: k s Let_def nth_append)
  qed
qed

lemma decode_block_Nil [simp]: "decode_block [] = Inr []"
  by (subst decode_block.simps) simp

lemma decode_encode_block: "\<forall>e \<in> set es. entry_fits n e \<Longrightarrow> decode_block (encode_block es) = Inr es"
  by (induction es) (simp_all add: decode_block_entry [of n])

section \<open>What the builder writes\<close>

text \<open>The metadata of consecutive blocks.\<close>

fun block_metas :: "sst_lib \<Rightarrow> nat \<Rightarrow> entry list list \<Rightarrow> block_meta list" where
  "block_metas L off [] = []"
| "block_metas L off (b # bs) =
     \<lparr>first_key = fst (hd b), bm_offset = off, bm_len = length (encode_block b) mod 2 ^ 32,
      bm_crc = unat (block_crc L (encode_block b))\<rparr> #
     block_metas L (off + length (encode_block b)) bs"

lemma length_block_metas [simp]: "length (block_metas L off bs) = length bs"
  by (induction bs arbitrary: off) simp_all

lemma block_metas_snoc:
  "block_metas L off (bs @ [b]) = block_metas L off bs @ block_metas L (off + length (encode_block (concat bs))) [b]"
  by (induction bs arbitrary: off) (simp_all add: add.assoc)

lemma nth_block_metas:
  "i < length bs \<Longrightarrow> block_metas L off bs ! i =
     \<lparr>first_key = fst (hd (bs ! i)), bm_offset = off + length (encode_block (concat (take i bs))),
      bm_len = length (encode_block (bs ! i)) mod 2 ^ 32,
      bm_crc = unat (block_crc L (encode_block (bs ! i)))\<rparr>"
proof (induction bs arbitrary: off i)
  case Nil
  then show ?case by simp
next
  case (Cons b bs)
  then show ?case by (cases i) (simp_all add: add.assoc)
qed

text \<open>The builder after the entries \<open>concat blks @ cur\<close>, of which \<open>cur\<close> is the open block.\<close>

definition tb_inv :: "sst_lib \<Rightarrow> nat \<Rightarrow> nat \<Rightarrow> entry list list \<Rightarrow> entry list \<Rightarrow> table_builder \<Rightarrow> bool" where
  "tb_inv L n m blks cur b \<longleftrightarrow>
     tb_file b = encode_block (concat blks) \<and> tb_offset b = length (tb_file b) \<and>
     tb_block b = encode_block cur \<and>
     tb_block_first_key b = (if cur = [] then None else Some (fst (hd cur))) \<and>
     tb_blocks b = block_metas L 0 blks \<and> tb_block_bytes b = n \<and> tb_bits_per_key b = m"

text \<open>Blocks are not empty and close with the entry that fills them.\<close>

definition blocks_small :: "nat \<Rightarrow> entry list list \<Rightarrow> bool" where
  "blocks_small n blks \<longleftrightarrow> (\<forall>blk \<in> set blks. blk \<noteq> [] \<and> length (encode_block (butlast blk)) \<le> n)"

text \<open>The builder's summary of the entries \<open>es\<close>.\<close>

definition tb_summary :: "entry list \<Rightarrow> table_builder \<Rightarrow> bool" where
  "tb_summary es b \<longleftrightarrow>
     set (tb_key_hashes b) = fnv1a ` fst ` set es \<and>
     tb_last_user_key b = (if es = [] then None else Some (fst (last es))) \<and>
     tb_entry_count b = length es \<and>
     tb_min_key b = (if es = [] then None else Some (fst (hd es))) \<and>
     tb_max_key b = (if es = [] then None else Some (fst (last es)))"

lemma tb_inv_create: "tb_inv L n m [] [] (tb_create n m)"
  by (simp add: tb_inv_def tb_create_def)

lemma tb_summary_create: "tb_summary [] (tb_create n m)"
  by (simp add: tb_summary_def tb_create_def)

lemma flush_block_fields:
  assumes "flush_block L b = Inr b'"
  shows "tb_key_hashes b' = tb_key_hashes b" "tb_last_user_key b' = tb_last_user_key b"
    "tb_entry_count b' = tb_entry_count b" "tb_min_key b' = tb_min_key b"
    "tb_max_key b' = tb_max_key b" "tb_bits_per_key b' = tb_bits_per_key b"
  using assms by (auto simp: flush_block_def split: if_splits option.splits)

lemma tb_summary_flush: "flush_block L b = Inr b' \<Longrightarrow> tb_summary es b' \<longleftrightarrow> tb_summary es b"
  by (simp add: tb_summary_def flush_block_fields)

lemma encode_block_Nil_iff [simp]: "encode_block es = [] \<longleftrightarrow> es = []"
  by (cases es) auto

lemma flush_block_inv:
  assumes "tb_inv L n m blks cur b"
  shows "\<exists>b'. flush_block L b = Inr b' \<and> tb_inv L n m (if cur = [] then blks else blks @ [cur]) [] b'"
  using assms
  by (cases "cur = []") (auto simp: tb_inv_def flush_block_def block_metas_snoc simp del: concat_eq_Nil_conv)

text \<open>The builder with the entry in its open block, before the block is written out.\<close>

definition tb_note :: "entry \<Rightarrow> table_builder \<Rightarrow> table_builder" where
  "tb_note e b =
     b\<lparr>tb_block_first_key := Some (case tb_block_first_key b of None \<Rightarrow> fst e | Some k \<Rightarrow> k),
       tb_key_hashes := (if tb_last_user_key b \<noteq> Some (fst e) then tb_key_hashes b @ [fnv1a (fst e)]
                         else tb_key_hashes b),
       tb_last_user_key := Some (fst e),
       tb_min_key := Some (case tb_min_key b of None \<Rightarrow> fst e | Some k \<Rightarrow> k),
       tb_max_key := Some (fst e), tb_max_seq := max (tb_max_seq b) (fst (snd e)),
       tb_entry_count := tb_entry_count b + 1, tb_block := tb_block b @ encode_entry e\<rparr>"

lemma tb_add_note:
  "tb_add L e b =
     (if length (tb_block (tb_note e b)) \<ge> tb_block_bytes b then flush_block L (tb_note e b)
      else Inr (tb_note e b))"
proof -
  obtain k s v where e: "e = (k, s, v)" by (cases e) auto
  show ?thesis
    unfolding e tb_add_def tb_note_def Let_def
    by (cases b; cases "tb_block_first_key b"; cases "tb_last_user_key b = Some k"; cases "tb_min_key b")
      simp_all
qed

lemma tb_inv_note: "tb_inv L n m blks cur b \<Longrightarrow> tb_inv L n m blks (cur @ [e]) (tb_note e b)"
  by (cases cur) (auto simp: tb_inv_def tb_note_def)

lemma tb_summary_note: "tb_summary es b \<Longrightarrow> tb_summary (es @ [e]) (tb_note e b)"
proof -
  have "fnv1a (fst e) \<in> fnv1a ` fst ` set es" if "es \<noteq> []" "fst (last es) = fst e"
    using that last_in_set [of es] by (metis imageI)
  then show "tb_summary es b \<Longrightarrow> tb_summary (es @ [e]) (tb_note e b)"
    by (cases "es = []") (auto simp: tb_summary_def tb_note_def)
qed

lemma tb_add_inv:
  assumes inv: "tb_inv L n m blks cur b" and sum: "tb_summary (concat blks @ cur) b"
    and small: "blocks_small n blks" and cur: "length (encode_block cur) \<le> n"
  shows "\<exists>blks' cur' b'. tb_add L e b = Inr b' \<and> tb_inv L n m blks' cur' b' \<and>
     tb_summary (concat blks' @ cur') b' \<and> concat blks' @ cur' = concat blks @ cur @ [e] \<and>
     blocks_small n blks' \<and> length (encode_block cur') \<le> n"
proof -
  have inv': "tb_inv L n m blks (cur @ [e]) (tb_note e b)" using tb_inv_note [OF inv] .
  have sum': "tb_summary (concat blks @ cur @ [e]) (tb_note e b)" using tb_summary_note [OF sum] by simp
  have bytes: "tb_block_bytes b = n" using inv by (simp add: tb_inv_def)
  show ?thesis
  proof (cases "length (tb_block (tb_note e b)) \<ge> n")
    case True
    obtain b' where b': "flush_block L (tb_note e b) = Inr b'" "tb_inv L n m (blks @ [cur @ [e]]) [] b'"
      using flush_block_inv [OF inv'] by auto
    have "tb_add L e b = Inr b'" using True b'(1) by (simp add: tb_add_note bytes)
    moreover have "blocks_small n (blks @ [cur @ [e]])" using small cur by (simp add: blocks_small_def)
    moreover have "tb_summary (concat (blks @ [cur @ [e]]) @ []) b'"
      using sum' tb_summary_flush [OF b'(1)] by simp
    ultimately show ?thesis
      using b'(2) by (intro exI [of _ "blks @ [cur @ [e]]"] exI [of _ "[]"] exI [of _ b']) simp
  next
    case False
    then have "tb_add L e b = Inr (tb_note e b)" by (simp add: tb_add_note bytes)
    moreover have "length (encode_block (cur @ [e])) \<le> n"
      using False inv' by (simp add: tb_inv_def)
    ultimately show ?thesis
      using inv' sum' small
      by (intro exI [of _ blks] exI [of _ "cur @ [e]"] exI [of _ "tb_note e b"]) simp
  qed
qed

lemma tb_adds_inv:
  assumes "tb_inv L n m blks cur b" "tb_summary (concat blks @ cur) b"
    and "blocks_small n blks" "length (encode_block cur) \<le> n"
  shows "\<exists>blks' cur' b'. each_ok (tb_add L) es b = Inr b' \<and> tb_inv L n m blks' cur' b' \<and>
     tb_summary (concat blks' @ cur') b' \<and> concat blks' @ cur' = concat blks @ cur @ es \<and>
     blocks_small n blks' \<and> length (encode_block cur') \<le> n"
  using assms
proof (induction es arbitrary: blks cur b)
  case Nil
  then show ?case by auto
next
  case (Cons e es)
  obtain blks1 cur1 b1 where 1: "tb_add L e b = Inr b1" "tb_inv L n m blks1 cur1 b1"
     "tb_summary (concat blks1 @ cur1) b1" "concat blks1 @ cur1 = concat blks @ cur @ [e]"
     "blocks_small n blks1" "length (encode_block cur1) \<le> n"
    using tb_add_inv [OF Cons.prems] by metis
  obtain blks2 cur2 b2 where 2: "each_ok (tb_add L) es b1 = Inr b2" "tb_inv L n m blks2 cur2 b2"
     "tb_summary (concat blks2 @ cur2) b2" "concat blks2 @ cur2 = concat blks1 @ cur1 @ es"
     "blocks_small n blks2" "length (encode_block cur2) \<le> n"
    using Cons.IH [OF 1(2,3,5,6)] by metis
  have eq: "concat blks2 @ cur2 = concat blks @ cur @ (e # es)"
    using 1(4) 2(4) by (metis append.assoc append_Cons append_Nil)
  have run: "each_ok (tb_add L) (e # es) b = Inr b2" using 1(1) 2(1) by simp
  show ?case by (intro exI conjI) (rule run 2(2) 2(3) eq 2(5) 2(6))+
qed

section \<open>Tables on disk\<close>

text \<open>Build a table from entries: \<open>create\<close>, \<open>add\<close> for each entry, \<open>finish\<close>.\<close>

definition build_table :: "sst_lib \<Rightarrow> nat \<Rightarrow> nat \<Rightarrow> entry list \<Rightarrow>
    (bytes \<times> nat \<times> nat \<times> bytes \<times> bytes) storage_result" where
  "build_table L block_bytes bits_per_key es =
     and_then (each_ok (tb_add L) es (tb_create block_bytes bits_per_key)) (tb_finish L)"

text \<open>
  The condition on sizes under which the table format can represent the entries: entries and
  blocks within 32-bit lengths, offsets within 64 bits, and an index that \<open>bincode\<close> reads back and
  whose length fits the footer's 32-bit field.
\<close>

definition table_fits :: "sst_lib \<Rightarrow> nat \<Rightarrow> nat \<Rightarrow> entry list \<Rightarrow> bool" where
  "table_fits L n m es \<longleftrightarrow>
     (\<forall>e \<in> set es. entry_fits n e) \<and> length (encode_block es) < 2 ^ 64 \<and>
     (case and_then (each_ok (tb_add L) es (tb_create n m)) (flush_block L) of
        Inl _ \<Rightarrow> True
      | Inr b \<Rightarrow> dec_index L (enc_index L (index_of b)) = Some (index_of b) \<and>
                 length (enc_index L (index_of b)) < 2 ^ 32)"

text \<open>The open table \<open>t\<close> is readable and holds exactly the entries \<open>es\<close>.\<close>

definition table_holds :: "sst_lib \<Rightarrow> nat \<Rightarrow> nat \<Rightarrow> table_files \<Rightarrow> ss_table \<Rightarrow> entry list \<Rightarrow> bool" where
  "table_holds L n m files t es \<longleftrightarrow>
     sst_open L files (st_id t) = Inr t \<and> es \<noteq> [] \<and> entries_sorted es \<and>
     (\<forall>e \<in> set es. entry_fits n e) \<and> st_min_key t = fst (hd es) \<and> st_max_key t = fst (last es) \<and>
     (\<exists>blks hs rest.
        concat blks = es \<and> blocks_small n blks \<and> files (st_id t) = Some (encode_block es @ rest) \<and>
        ti_blocks (st_index t) = block_metas L 0 blks \<and>
        st_bloom t = from_hashes hs m \<and> set hs = fnv1a ` fst ` set es)"

lemma table_holds_entries:
  assumes "table_holds L n m files t es"
  shows "es \<noteq> []" "entries_sorted es" "st_min_key t = fst (hd es)" "st_max_key t = fst (last es)"
    "sst_open L files (st_id t) = Inr t"
  using assms by (simp_all add: table_holds_def)

lemma sst_open_file: "files i = files' i \<Longrightarrow> sst_open L files i = sst_open L files' i"
  by (simp add: sst_open_def)

lemma table_holds_file:
  "files (st_id t) = files' (st_id t) \<Longrightarrow> table_holds L n m files t es \<longleftrightarrow> table_holds L n m files' t es"
  using sst_open_file [of files "st_id t" files' L] by (simp add: table_holds_def)

text \<open>Opening a file whose footer points at an index that reads back.\<close>

lemma sst_open_footer:
  assumes data: "files i = Some (body @ payload @ u64_le (length body) @ u32_le (length payload) @
      u32_le (unat (block_crc L payload)) @ u64_le magic)"
    and body: "length body < 2 ^ 64" and payload: "length payload < 2 ^ 32"
    and dec: "dec_index L payload = Some index" and bloom: "bf_decode (ti_bloom index) = Inr bloom"
  shows "sst_open L files i = Inr \<lparr>st_id = i, st_index = index, st_bloom = bloom\<rparr>"
proof -
  have "magic < 2 ^ 64" by (simp add: magic_def)
  then show ?thesis
    using u64_of_le_bytes [OF body] u32_of_le_bytes [OF payload] u64_of_le_bytes [of magic]
    by (simp add: sst_open_def data dec bloom Let_def read_at_def)
qed

lemma build_table_ok:
  assumes fits: "table_fits L n m es" and ne: "es \<noteq> []" and sorted: "entries_sorted es"
  shows "\<exists>file size. build_table L n m es = Inr (file, length es, size, fst (hd es), fst (last es)) \<and>
     size = length file \<and>
     (\<exists>t. sst_open L (files(i := Some file)) i = Inr t \<and> st_id t = i \<and>
          table_holds L n m (files(i := Some file)) t es)"
proof -
  obtain blks cur b where adds: "each_ok (tb_add L) es (tb_create n m) = Inr b"
    and inv: "tb_inv L n m blks cur b" and sum: "tb_summary es b" and es: "concat blks @ cur = es"
    and small: "blocks_small n blks" and cur: "length (encode_block cur) \<le> n"
    using tb_adds_inv [OF tb_inv_create [of L n m], of es] tb_summary_create
    by (auto simp: blocks_small_def)
  define blks' where "blks' = (if cur = [] then blks else blks @ [cur])"
  obtain b' where b': "flush_block L b = Inr b'" and inv': "tb_inv L n m blks' [] b'"
    using flush_block_inv [OF inv] by (auto simp: blks'_def)
  have es': "concat blks' = es" using es by (auto simp: blks'_def)
  have small': "blocks_small n blks'"
    using small cur by (cases cur rule: rev_cases) (auto simp: blks'_def blocks_small_def)
  have sum': "tb_summary es b'" using sum tb_summary_flush [OF b'] by simp
  let ?index = "index_of b'"
  let ?payload = "enc_index L ?index"
  let ?file = "encode_block es @ ?payload @ u64_le (length (encode_block es)) @
      u32_le (length ?payload) @ u32_le (unat (block_crc L ?payload)) @ u64_le magic"
  have fit: "dec_index L ?payload = Some ?index" "length ?payload < 2 ^ 32"
      "length (encode_block es) < 2 ^ 64" "\<forall>e \<in> set es. entry_fits n e"
    using fits by (simp_all add: table_fits_def adds b')
  have data: "tb_file b' = encode_block es" "tb_offset b' = length (encode_block es)"
    using inv' es' by (simp_all add: tb_inv_def)
  have build: "build_table L n m es =
      Inr (?file, length es, length ?file, fst (hd es), fst (last es))"
    using sum' ne
    by (simp add: build_table_def adds tb_finish_def b' data Let_def index_of_def tb_summary_def
        unwrap_or_default_def)
  let ?t = "\<lparr>st_id = i, st_index = ?index, st_bloom = from_hashes (tb_key_hashes b') m\<rparr>"
  have "sst_open L (files(i := Some ?file)) i = Inr ?t"
    using inv' by (intro sst_open_footer [OF _ fit(3,2,1)])
      (simp_all add: index_of_def tb_inv_def bf_decode_from_hashes)
  moreover have "table_holds L n m (files(i := Some ?file)) ?t es"
    unfolding table_holds_def using calculation sum' inv' ne sorted fit(4) es' small'
    by (auto simp: index_of_def tb_summary_def tb_inv_def unwrap_or_default_def)
  ultimately show ?thesis using build by auto
qed

section \<open>Reading a table\<close>

text \<open>The table's blocks, as the reader finds them.\<close>

definition table_blocks :: "sst_lib \<Rightarrow> table_files \<Rightarrow> ss_table \<Rightarrow> entry list list \<Rightarrow> bool" where
  "table_blocks L files t blks \<longleftrightarrow>
     length (ti_blocks (st_index t)) = length blks \<and>
     (\<forall>i < length blks. blks ! i \<noteq> [] \<and> first_key (ti_blocks (st_index t) ! i) = fst (hd (blks ! i)) \<and>
        read_block L files t i = Inr (blks ! i))"

lemma concat_nth_split:
  "i < length xss \<Longrightarrow> concat xss = concat (take i xss) @ xss ! i @ concat (drop (Suc i) xss)"
  by (metis concat.simps(2) concat_append id_take_nth_drop)

lemma block_length:
  assumes "blocks_small n blks" "\<forall>e \<in> set (concat blks). entry_fits n e" "blk \<in> set blks"
  shows "length (encode_block blk) < 2 ^ 32"
proof -
  have ne: "blk \<noteq> []" and len: "length (encode_block (butlast blk)) \<le> n"
    using assms(1,3) by (auto simp: blocks_small_def)
  have "last blk \<in> set (concat blks)" using last_in_set [OF ne] assms(3) by auto
  then have "length (encode_entry (last blk)) + n < 2 ^ 32"
    using assms(2) unfolding entry_fits_def by blast
  moreover have "length (encode_block blk) = length (encode_block (butlast blk)) + length (encode_entry (last blk))"
    by (subst append_butlast_last_id [OF ne, symmetric]) (simp del: append_butlast_last_id)
  ultimately show ?thesis using len by simp
qed

lemma table_holds_blocks:
  assumes "table_holds L n m files t es"
  shows "\<exists>blks. concat blks = es \<and> table_blocks L files t blks"
proof -
  obtain blks hs rest where es: "concat blks = es" and small: "blocks_small n blks"
    and data: "files (st_id t) = Some (encode_block es @ rest)"
    and metas: "ti_blocks (st_index t) = block_metas L 0 blks"
    and fit: "\<forall>e \<in> set es. entry_fits n e"
    using assms unfolding table_holds_def by blast
  have "read_block L files t i = Inr (blks ! i)" if i: "i < length blks" for i
  proof -
    have blk: "blks ! i \<in> set blks" using i by simp
    have len: "length (encode_block (blks ! i)) < 2 ^ 32"
      using block_length [OF small _ blk] fit es by simp
    have split: "encode_block es = encode_block (concat (take i blks)) @ encode_block (blks ! i) @
        encode_block (concat (drop (Suc i) blks))"
      by (simp only: es [symmetric] concat_nth_split [OF i] map_append concat_append)
    have "\<forall>e \<in> set (blks ! i). entry_fits n e" using fit blk es by auto
    then have "decode_block (encode_block (blks ! i)) = Inr (blks ! i)" by (rule decode_encode_block)
    then show ?thesis
      using i len by (simp add: read_block_def metas nth_block_metas data split read_at_def Let_def
          del: length_concat)
  qed
  then show ?thesis
    using es small by (intro exI [of _ blks]) (auto simp: table_blocks_def metas nth_block_metas blocks_small_def)
qed

lemma iter_from_blocks:
  "table_blocks L files t blks \<Longrightarrow> iter_from L files t i = Inr (concat (drop i blks))"
proof (induction "length blks - i" arbitrary: i)
  case 0
  then show ?case by (subst iter_from.simps) (simp add: table_blocks_def)
next
  case (Suc d)
  then have i: "i < length blks" by simp
  have "iter_from L files t (i + 1) = Inr (concat (drop (Suc i) blks))" using Suc by simp
  moreover have "drop i blks = blks ! i # drop (Suc i) blks" using i by (simp add: Cons_nth_drop_Suc)
  ultimately show ?case using Suc.prems i by (subst iter_from.simps) (simp add: table_blocks_def)
qed

text \<open>The iterator yields the entries the table was built from.\<close>

lemma sst_iter_entries: "table_holds L n m files t es \<Longrightarrow> sst_iter L files t = Inr es"
  using table_holds_blocks [of L n m files t es] iter_from_blocks [of L files t _ 0]
  by (auto simp: sst_iter_def)

lemma scan_block_sorted:
  assumes "entries_sorted (es @ rest)"
  shows "(case scan_block key sn es of
            Some r \<Rightarrow> r = lookup_at (es @ rest) key sn
          | None \<Rightarrow> lookup_at (es @ rest) key sn = lookup_at rest key sn)"
  using assms
proof (induction es)
  case Nil
  then show ?case by simp
next
  case (Cons e es)
  obtain k s v where e: "e = (k, s, v)" by (cases e) auto
  have later: "k \<le> fst x" if "x \<in> set (es @ rest)" for x
    using entries_sorted_head [of e "es @ rest"] Cons.prems that by (simp add: e)
  have IH: "case scan_block key sn es of
      Some r \<Rightarrow> r = lookup_at (es @ rest) key sn
    | None \<Rightarrow> lookup_at (es @ rest) key sn = lookup_at rest key sn"
    using Cons by simp
  consider "k < key" | "k = key" "s \<le> sn" | "k = key" "s > sn" | "k > key" by fastforce
  then show ?case
  proof cases
    case 4
    then have "key \<notin> fst ` set (es @ rest)" using later by fastforce
    then have "lookup_at (es @ rest) key sn = None" by (rule lookup_at_not_key)
    then show ?thesis using 4 by (auto simp: e lookup_at_Cons)
  qed (use IH in \<open>auto simp: e lookup_at_Cons split: option.splits\<close>)
qed

lemma get_loop_blocks:
  assumes "table_blocks L files t blks" "entries_sorted (concat blks)" "i < length blks"
  shows "get_loop L files t key sn i = Inr (lookup_at (concat (drop i blks)) key sn)"
  using assms
proof (induction "length blks - i" arbitrary: i)
  case 0
  then show ?case by simp
next
  case (Suc d)
  note i = Suc.prems(3)
  have read: "read_block L files t i = Inr (blks ! i)" and len: "length (ti_blocks (st_index t)) = length blks"
    using Suc.prems by (simp_all add: table_blocks_def)
  have drop: "concat (drop i blks) = blks ! i @ concat (drop (Suc i) blks)"
    using i by (metis Cons_nth_drop_Suc concat.simps(2))
  have sorted: "entries_sorted (blks ! i @ concat (drop (Suc i) blks))"
    using Suc.prems(2) concat_nth_split [OF i] by (simp add: sorted_wrt_append)
  show ?case
  proof (cases "scan_block key sn (blks ! i)")
    case (Some r)
    then show ?thesis
      using scan_block_sorted [OF sorted, of key sn]
      by (subst get_loop.simps) (simp add: read drop)
  next
    case None
    then have rest: "lookup_at (concat (drop i blks)) key sn = lookup_at (concat (drop (Suc i) blks)) key sn"
      using scan_block_sorted [OF sorted, of key sn] by (simp add: drop)
    show ?thesis
    proof (cases "Suc i < length blks")
      case False
      then show ?thesis using None rest by (subst get_loop.simps) (simp add: read len)
    next
      case True
      have fk: "first_key (ti_blocks (st_index t) ! Suc i) = fst (hd (blks ! Suc i))" "blks ! Suc i \<noteq> []"
        using Suc.prems(1) True by (simp_all add: table_blocks_def)
      show ?thesis
      proof (cases "fst (hd (blks ! Suc i)) > key")
        case gt: True
        have "concat (drop (Suc i) blks) = hd (blks ! Suc i) # tl (blks ! Suc i) @ concat (drop (Suc (Suc i)) blks)"
          using True fk(2) by (metis Cons_nth_drop_Suc append_Cons concat.simps(2) list.collapse)
        moreover have "entries_sorted (concat (drop (Suc i) blks))"
          using sorted by (simp add: sorted_wrt_append)
        ultimately have "fst (hd (blks ! Suc i)) \<le> fst x" if "x \<in> set (concat (drop (Suc i) blks))" for x
          using entries_sorted_head that by metis
        then have "key \<notin> fst ` set (concat (drop (Suc i) blks))" using gt by fastforce
        then have "lookup_at (concat (drop (Suc i) blks)) key sn = None" by (rule lookup_at_not_key)
        then show ?thesis using None rest gt fk by (subst get_loop.simps) (simp add: read len)
      next
        case False
        have "get_loop L files t key sn (Suc i) = Inr (lookup_at (concat (drop (Suc i) blks)) key sn)"
          using Suc True by simp
        then show ?thesis using None rest False fk True by (subst get_loop.simps) (simp add: read len)
      qed
    qed
  qed
qed

lemma takeWhile_nth_P: "i < length (takeWhile P xs) \<Longrightarrow> P (xs ! i)"
  using nth_mem [of i "takeWhile P xs"] set_takeWhileD [of "takeWhile P xs ! i" P xs]
  by (simp add: takeWhile_nth)

lemma entries_sorted_range:
  assumes "entries_sorted es" "x \<in> set es"
  shows "fst (hd es) \<le> fst x \<and> fst x \<le> fst (last es)"
proof -
  obtain ys y where es: "es = ys @ [y]" using assms(2) by (cases es rule: rev_cases) auto
  obtain z zs where es': "es = z # zs" using assms(2) by (cases es) auto
  have "fst z \<le> fst x" using entries_sorted_head [of z zs x] assms es' by simp
  moreover have "x = y \<or> entry_before x y" using assms unfolding es by (auto simp: sorted_wrt_append)
  then have "fst x \<le> fst y" by (auto dest: entry_before_key)
  ultimately show ?thesis using es es' by (metis last_snoc list.sel(1))
qed

text \<open>Blocks in front of one that starts below the key hold smaller keys only.\<close>

lemma lookup_at_later_blocks:
  assumes "entries_sorted (concat blks)" "i < length blks" "blks ! i \<noteq> []" "fst (hd (blks ! i)) < key"
  shows "lookup_at (concat blks) key sn = lookup_at (concat (drop i blks)) key sn"
proof -
  have split: "concat blks = concat (take i blks) @ concat (drop i blks)"
    by (metis append_take_drop_id concat_append)
  have "drop i blks = blks ! i # drop (Suc i) blks" using assms(2) by (simp add: Cons_nth_drop_Suc)
  then have "hd (blks ! i) \<in> set (concat (drop i blks))" using assms(3) by simp
  then have "entry_before x (hd (blks ! i))" if "x \<in> set (concat (take i blks))" for x
    using assms(1) that unfolding split sorted_wrt_append by blast
  then have less: "fst x < key" if "x \<in> set (concat (take i blks))" for x
    using entry_before_key [of x "hd (blks ! i)"] that assms(4) by auto
  have "key \<notin> fst ` set (concat (take i blks))"
  proof
    assume "key \<in> fst ` set (concat (take i blks))"
    then obtain x where "x \<in> set (concat (take i blks))" "key = fst x" by (rule imageE)
    then show False using less [of x] by simp
  qed
  then have "lookup_at (concat (take i blks)) key sn = None" by (rule lookup_at_not_key)
  then show ?thesis unfolding split lookup_at_append by simp
qed

text \<open>
  The point lookup answers as a search of all the entries would: the key range, the Bloom filter
  and the block index only skip what cannot hold the key.
\<close>

lemma sst_get_lookup:
  assumes holds: "table_holds L n m files t es"
  shows "sst_get L files t key sn = Inr (lookup_at es key sn)"
proof -
  obtain blks where es: "concat blks = es" and blks: "table_blocks L files t blks"
    using table_holds_blocks [OF holds] by blast
  note facts = table_holds_entries [OF holds]
  have none: "sst_get L files t key sn = Inr None \<Longrightarrow> key \<notin> fst ` set es \<Longrightarrow> ?thesis"
    by (simp add: lookup_at_not_key)
  have range: "st_min_key t \<le> fst x \<and> fst x \<le> st_max_key t" if "x \<in> set es" for x
    using entries_sorted_range [OF facts(2) that] facts(3,4) by simp
  consider (out) "key < st_min_key t \<or> key > st_max_key t"
    | (bloom) "\<not> (key < st_min_key t \<or> key > st_max_key t)" "\<not> may_contain (st_bloom t) key"
    | (search) "\<not> (key < st_min_key t \<or> key > st_max_key t)" "may_contain (st_bloom t) key"
    by blast
  then show ?thesis
  proof cases
    case out
    then have "key \<notin> fst ` set es" using range by fastforce
    then show ?thesis using out none by (simp add: sst_get_def)
  next
    case bloom
    have "key \<notin> fst ` set es"
    proof
      assume "key \<in> fst ` set es"
      then have "fnv1a key \<in> fnv1a ` fst ` set es" by blast
      then show False
        using holds bloom(2) may_contain_from_hashes unfolding table_holds_def by metis
    qed
    then show ?thesis using bloom none by (simp add: sst_get_def)
  next
    case search
    let ?P = "\<lambda>b. first_key b < key"
    let ?metas = "ti_blocks (st_index t)"
    define i where "i = partition_point ?P ?metas - 1"
    have len: "length ?metas = length blks" using blks by (simp add: table_blocks_def)
    have "0 < length blks" using facts(1) es by auto
    moreover have "length (takeWhile ?P ?metas) \<le> length ?metas" by (rule length_takeWhile_le)
    ultimately have i: "i < length blks" using len unfolding i_def partition_point_def by linarith
    have "lookup_at es key sn = lookup_at (concat (drop i blks)) key sn"
    proof (cases "i = 0")
      case True
      then show ?thesis using es by simp
    next
      case False
      then have "i < length (takeWhile ?P ?metas)" by (simp add: i_def partition_point_def)
      then have "?P (?metas ! i)" by (rule takeWhile_nth_P)
      then show ?thesis
        using lookup_at_later_blocks [of blks i key sn] facts(2) es i blks unfolding table_blocks_def by simp
    qed
    then show ?thesis
      using search get_loop_blocks [OF blks _ i] facts(2) es
      by (simp add: sst_get_def i_def)
  qed
qed

end
