(* ===== verification/Merge_Iter.thy ===== *)
theory Merge_Iter
  imports Versions
begin

text \<open>
  The merge of sorted streams and the visibility filter (\<open>storage/src/iter.rs\<close>). An iterator is
  the list of the items it still has to yield; \<open>merge_next\<close> is one call of \<open>MergeIter::next\<close>, and
  \<open>merge_iter\<close> and \<open>visible_iter\<close> are what the iterators yield in total.
\<close>

section \<open>Merging\<close>

text \<open>The loop over the heads: the index and the head chosen so far.\<close>

fun best_source :: "entry list list \<Rightarrow> nat \<Rightarrow> (nat \<times> bytes \<times> nat) option \<Rightarrow> (nat \<times> bytes \<times> nat) option" where
  "best_source [] i best = best"
| "best_source ([] # srcs) i best = best_source srcs (Suc i) best"
| "best_source (((k, s, _) # _) # srcs) i best =
     best_source srcs (Suc i)
       (case best of
          None \<Rightarrow> Some (i, k, s)
        | Some (_, bk, bs) \<Rightarrow> if k < bk \<or> (k = bk \<and> s > bs) then Some (i, k, s) else best)"

definition merge_next :: "entry list list \<Rightarrow> (entry \<times> entry list list) option" where
  "merge_next sources =
     (case best_source sources 0 None of
        None \<Rightarrow> None
      | Some (i, _, _) \<Rightarrow> Some (hd (sources ! i), sources[i := tl (sources ! i)]))"

text \<open>The choice is a head of a source that no other head precedes.\<close>

definition is_head :: "entry list list \<Rightarrow> nat \<Rightarrow> entry \<Rightarrow> bool" where
  "is_head srcs i e \<longleftrightarrow> i < length srcs \<and> srcs ! i \<noteq> [] \<and> hd (srcs ! i) = e"

fun best_ok :: "entry list list \<Rightarrow> (nat \<times> bytes \<times> nat) option \<Rightarrow> bool" where
  "best_ok done None \<longleftrightarrow> (\<forall>src \<in> set done. src = [])"
| "best_ok done (Some (i, k, s)) \<longleftrightarrow>
     (\<exists>v. is_head done i (k, s, v)) \<and> (\<forall>j e. is_head done j e \<longrightarrow> \<not> entry_before e (k, s, None))"

lemma is_head_snoc:
  "is_head (done @ [src]) i e \<longleftrightarrow>
     is_head done i e \<or> (i = length done \<and> src \<noteq> [] \<and> hd src = e)"
  by (auto simp: is_head_def nth_append less_Suc_eq)

lemma entry_before_value: "entry_before e (k, s, v) = entry_before e (k, s, v')"
  by (cases e) auto

lemma best_ok_step:
  assumes "best_ok done best"
  shows "best_ok (done @ [(k, s, v) # src])
     (case best of
        None \<Rightarrow> Some (length done, k, s)
      | Some (_, bk, bs) \<Rightarrow> if k < bk \<or> (k = bk \<and> s > bs) then Some (length done, k, s) else best)"
proof (cases best)
  case None
  then have "\<not> is_head done j e" for j e
    using assms by (auto simp: is_head_def dest: nth_mem)
  then show ?thesis using None by (auto simp: is_head_snoc)
next
  case (Some b)
  obtain i bk bs where b: "b = (i, bk, bs)" by (cases b) auto
  have low: "\<not> entry_before e (bk, bs, None)" if "is_head done j e" for j e
    using assms that unfolding Some b best_ok.simps by blast
  obtain bv where head: "is_head done i (bk, bs, bv)" using assms Some b by auto
  show ?thesis
  proof (cases "k < bk \<or> (k = bk \<and> s > bs)")
    case True
    have "\<not> entry_before e (k, s, None)" if "is_head done j e" for j e
    proof
      assume "entry_before e (k, s, None)"
      moreover have "entry_before (k, s, None) (bk, bs, None)" using True by auto
      ultimately show False using low [OF that] entry_before_trans by blast
    qed
    then show ?thesis using True Some b by (auto simp: is_head_snoc)
  next
    case False
    then show ?thesis using low head Some b by (auto simp: is_head_snoc)
  qed
qed

lemma best_ok_source:
  assumes "best_ok done best"
  shows "best_ok (done @ srcs) (best_source srcs (length done) best)"
  using assms
proof (induction srcs "length done" best arbitrary: "done" rule: best_source.induct)
  case (1 best)
  then show ?case by simp
next
  case (2 srcs best)
  have "best_ok (done @ [[]]) best"
    using "2.prems" by (cases best) (auto simp: is_head_snoc)
  with "2.hyps" [of "done @ [[]]"] show ?case by simp
next
  case (3 k s v rest srcs best)
  from "3.hyps" [of "done @ [(k, s, v) # rest]", OF _ best_ok_step [OF "3.prems"]] show ?case by simp
qed

lemma merge_next_None: "merge_next srcs = None \<longleftrightarrow> (\<forall>src \<in> set srcs. src = [])"
proof -
  have "best_ok srcs (best_source srcs 0 None)" using best_ok_source [of "[]" None srcs] by simp
  then show ?thesis
    by (cases "best_source srcs 0 None") (auto simp: merge_next_def is_head_def dest: nth_mem)
qed

lemma merge_next_Some:
  assumes "merge_next srcs = Some (e, srcs')"
  shows "\<exists>i. is_head srcs i e \<and> srcs' = srcs[i := tl (srcs ! i)] \<and>
     (\<forall>j e'. is_head srcs j e' \<longrightarrow> \<not> entry_before e' e)"
proof -
  have ok: "best_ok srcs (best_source srcs 0 None)" using best_ok_source [of "[]" None srcs] by simp
  obtain i k s where b: "best_source srcs 0 None = Some (i, k, s)"
    and e: "e = hd (srcs ! i)" and srcs': "srcs' = srcs[i := tl (srcs ! i)]"
    using assms by (auto simp: merge_next_def split: option.splits)
  obtain v where head: "is_head srcs i (k, s, v)"
    and low: "\<forall>j e. is_head srcs j e \<longrightarrow> \<not> entry_before e (k, s, None)"
    using ok b by auto
  have "e = (k, s, v)" using head e by (simp add: is_head_def)
  then show ?thesis using head low srcs' entry_before_value by blast
qed

lemma sum_length_update:
  assumes "i < length srcs" "srcs ! i \<noteq> []"
  shows "sum_list (map length (srcs[i := tl (srcs ! i)])) < sum_list (map length srcs)"
  using assms
proof (induction srcs arbitrary: i)
  case Nil
  then show ?case by simp
next
  case (Cons src srcs)
  then show ?case by (cases i) auto
qed

function merge_iter :: "entry list list \<Rightarrow> entry list" where
  "merge_iter sources =
     (case merge_next sources of
        None \<Rightarrow> []
      | Some (e, sources') \<Rightarrow> e # merge_iter sources')"
  by pat_completeness auto
termination
proof (relation "measure (\<lambda>srcs. sum_list (map length srcs))")
  show "(srcs', srcs) \<in> measure (\<lambda>srcs. sum_list (map length srcs))"
    if "merge_next srcs = Some p" "(e, srcs') = p" for srcs p e srcs'
    using merge_next_Some [of srcs e srcs'] that sum_length_update
    by (auto simp: is_head_def)
qed simp

declare merge_iter.simps [simp del]

lemma mset_update_tl:
  assumes "is_head srcs i e"
  shows "\<Sum>\<^sub># (mset (map mset srcs)) = add_mset e (\<Sum>\<^sub># (mset (map mset (srcs[i := tl (srcs ! i)]))))"
  using assms
proof (induction srcs arbitrary: i)
  case Nil
  then show ?case by (simp add: is_head_def)
next
  case (Cons src srcs)
  show ?case
  proof (cases i)
    case 0
    then show ?thesis using Cons.prems by (cases src) (auto simp: is_head_def)
  next
    case (Suc j)
    then have "is_head srcs j e" using Cons.prems by (simp add: is_head_def)
    from Cons.IH [OF this] show ?thesis using Suc by simp
  qed
qed

text \<open>The merge yields every item of every source, as often as the sources hold it.\<close>

lemma mset_merge_iter: "mset (merge_iter srcs) = \<Sum>\<^sub># (mset (map mset srcs))"
proof (induction srcs rule: merge_iter.induct)
  case (1 srcs)
  show ?case
  proof (cases "merge_next srcs")
    case None
    then have "\<forall>src \<in> set srcs. src = []" by (simp add: merge_next_None)
    then have "\<Sum>\<^sub># (mset (map mset srcs)) = {#}" by (induction srcs) auto
    then show ?thesis using None by (simp add: merge_iter.simps [of srcs])
  next
    case (Some p)
    then obtain e srcs' where p: "merge_next srcs = Some (e, srcs')" by (cases p) auto
    obtain i where i: "is_head srcs i e" "srcs' = srcs[i := tl (srcs ! i)]"
      using merge_next_Some [OF p] by blast
    show ?thesis
      using "1.IH" [OF p refl] mset_update_tl [OF i(1)] i(2) p
      by (simp add: merge_iter.simps [of srcs])
  qed
qed

lemma set_merge_iter: "set (merge_iter srcs) = \<Union> (set ` set srcs)"
proof -
  have "set_mset (mset (merge_iter srcs)) = \<Union> (set ` set srcs)"
    unfolding mset_merge_iter by (induction srcs) auto
  then show ?thesis by simp
qed

lemma length_merge_iter: "length (merge_iter srcs) = sum_list (map length srcs)"
proof -
  have "size (mset (merge_iter srcs)) = sum_list (map length srcs)"
    unfolding mset_merge_iter by (induction srcs) auto
  then show ?thesis by simp
qed

lemma ordered_hd: "entries_ordered src \<Longrightarrow> e \<in> set src \<Longrightarrow> \<not> entry_before e (hd src)"
  by (cases src) (auto simp: entry_before_irrefl)

lemma tl_subset: "x \<in> set (tl src) \<Longrightarrow> x \<in> set src"
  by (cases src) auto

lemma ordered_tl: "entries_ordered src \<Longrightarrow> entries_ordered (tl src)"
  by (cases src) auto

text \<open>Merging ordered sources gives an ordered stream.\<close>

lemma merge_iter_ordered:
  "\<forall>src \<in> set srcs. entries_ordered src \<Longrightarrow> entries_ordered (merge_iter srcs)"
proof (induction srcs rule: merge_iter.induct)
  case (1 srcs)
  show ?case
  proof (cases "merge_next srcs")
    case None
    then show ?thesis by (simp add: merge_iter.simps [of srcs])
  next
    case (Some p)
    then obtain e srcs' where p: "merge_next srcs = Some (e, srcs')" by (cases p) auto
    obtain i where i: "is_head srcs i e" "srcs' = srcs[i := tl (srcs ! i)]"
      and low: "\<forall>j e'. is_head srcs j e' \<longrightarrow> \<not> entry_before e' e"
      using merge_next_Some [OF p] by blast
    have sub: "\<exists>src \<in> set srcs. src' = src \<or> src' = tl src" if "src' \<in> set srcs'" for src'
    proof -
      have "src' = tl (srcs ! i) \<or> src' \<in> set srcs"
        using that set_update_subset_insert [of srcs i "tl (srcs ! i)"] unfolding i(2) by blast
      moreover have "srcs ! i \<in> set srcs" using i(1) by (simp add: is_head_def)
      ultimately show ?thesis by blast
    qed
    have ord: "\<forall>src \<in> set srcs'. entries_ordered src"
      using "1.prems" sub ordered_tl by blast
    have "\<not> entry_before x e" if x: "x \<in> set (merge_iter srcs')" for x
    proof -
      obtain src where src: "src \<in> set srcs" "x \<in> set src"
        using x sub tl_subset unfolding set_merge_iter by fast
      then obtain j where j: "j < length srcs" "srcs ! j = src" by (auto simp: in_set_conv_nth)
      have "is_head srcs j (hd src)" using j src by (auto simp: is_head_def)
      then have "\<not> entry_before (hd src) e" using low by blast
      moreover have "\<not> entry_before x (hd src)" using "1.prems" src ordered_hd by blast
      ultimately show ?thesis using not_entry_before_trans by blast
    qed
    then show ?thesis
      using "1.IH" [OF p refl ord] p by (simp add: merge_iter.simps [of srcs])
  qed
qed

section \<open>Visibility\<close>

text \<open>
  What \<open>VisibleIter\<close> yields from the state in which \<open>current_key\<close> is the last key it decided on.
\<close>

fun visible_iter :: "nat \<Rightarrow> bytes option \<Rightarrow> entry list \<Rightarrow> (bytes \<times> bytes option) list" where
  "visible_iter snapshot current_key [] = []"
| "visible_iter snapshot current_key ((k, s, v) # inner) =
     (if current_key = Some k then visible_iter snapshot current_key inner
      else if s > snapshot then visible_iter snapshot current_key inner
      else (k, v) # visible_iter snapshot (Some k) inner)"

lemma visible_iter_keys: "fst ` set (visible_iter sn cur es) \<subseteq> fst ` set es"
proof (induction sn cur es rule: visible_iter.induct)
  case (1 sn cur)
  then show ?case by simp
next
  case (2 sn cur k s v es)
  then show ?case by (auto split: if_splits)
qed

lemma ordered_ConsD:
  assumes "entries_ordered ((k, s, v) # es)"
  shows "entries_ordered es" and "e \<in> set es \<Longrightarrow> k \<le> fst e"
  using assms by (auto, metis entry_before.simps fst_conv not_le_imp_less prod_cases3)

text \<open>
  On an ordered stream the filter yields, in strictly ascending key order, exactly the newest
  visible version of every key that has one.
\<close>

lemma visible_iter_lookup:
  assumes "entries_ordered es" and "\<forall>k \<in> set_option cur. \<forall>e \<in> set es. k \<le> fst e"
  shows "(\<forall>key. map_of (visible_iter sn cur es) key =
      (if cur = Some key then None else map_option snd (lookup_at es key sn))) \<and>
     sorted_wrt (<) (map fst (visible_iter sn cur es))"
  using assms
proof (induction sn cur es rule: visible_iter.induct)
  case (1 sn cur)
  then show ?case by simp
next
  case (2 sn cur k s v es)
  have ord: "entries_ordered es" and ge: "\<forall>e \<in> set es. k \<le> fst e"
    using ordered_ConsD [OF "2.prems"(1)] by blast+
  have cur: "\<forall>k \<in> set_option cur. \<forall>e \<in> set es. k \<le> fst e" using "2.prems"(2) by auto
  consider "cur = Some k" | "cur \<noteq> Some k" "s > sn" | "cur \<noteq> Some k" "s \<le> sn" by fastforce
  then show ?case
  proof cases
    case 1
    with "2.IH"(1) [OF 1 ord cur] show ?thesis by (auto simp: lookup_at_Cons)
  next
    case 2
    with "2.IH"(2) [OF 2 ord cur] show ?thesis by (auto simp: lookup_at_Cons)
  next
    case 3
    have "\<not> sn < s" "\<forall>k \<in> set_option (Some k). \<forall>e \<in> set es. k \<le> fst e" using 3 ge by simp_all
    note IH = "2.IH"(3) [OF 3(1) this(1) ord this(2)]
    have "map_of (visible_iter sn (Some k) es) k = None" using IH by simp
    then have "k \<notin> fst ` set (visible_iter sn (Some k) es)" by (simp add: map_of_eq_None_iff)
    then have less: "k < k'" if "k' \<in> fst ` set (visible_iter sn (Some k) es)" for k'
      using that visible_iter_keys [of sn "Some k" es] ge by (metis (no_types) imageE less_le subsetD)
    have gone: "lookup_at es key sn = None" if "cur = Some key" for key
    proof (rule lookup_at_not_key, rule notI)
      assume "key \<in> fst ` set es"
      then have "k \<le> key" using ge by auto
      moreover have "key \<le> k" using "2.prems"(2) that by auto
      ultimately show False using 3 that by simp
    qed
    have "map_of (visible_iter sn cur ((k, s, v) # es)) key =
        (if cur = Some key then None else map_option snd (lookup_at ((k, s, v) # es) key sn))" for key
      using IH 3 gone [of key] by (auto simp: lookup_at_Cons)
    moreover have "sorted_wrt (<) (map fst (visible_iter sn cur ((k, s, v) # es)))"
      using IH 3 less by auto
    ultimately show ?thesis by blast
  qed
qed

lemma visible_iter_sorted:
  "entries_ordered es \<Longrightarrow> sorted_wrt (<) (map fst (visible_iter sn None es))"
  using visible_iter_lookup [of es None] by simp

lemma visible_iter_map_of:
  "entries_ordered es \<Longrightarrow> map_of (visible_iter sn None es) key = map_option snd (lookup_at es key sn)"
  using visible_iter_lookup [of es None] by simp

end
