(* ===== verification/Db.thy ===== *)
theory Db
  imports Wal Manifest Sstable Merge_Iter "HOL-Library.Monad_Syntax"
begin

text \<open>
  The storage engine (\<open>storage/src/db.rs\<close>): the write-ahead log, the memtable, the levels of sorted
  tables, the manifest and the registry of read snapshots, with every operation of \<open>Db\<close>. A database
  record holds the engine's fields and the files of its directory. A loop that may not end,
  \<open>maybe_compact\<close>, is a partial function whose value \<open>None\<close> means that it does not return.
\<close>

section \<open>State\<close>

record options =
  memtable_bytes :: nat
  sync :: sync_policy
  l0_trigger :: nat
  level_base_bytes :: nat
  level_multiplier :: nat
  target_table_bytes :: nat
  block_bytes :: nat
  bits_per_key :: nat

definition default_options :: options where
  "default_options =
     \<lparr>memtable_bytes = 4 * 2 ^ 20, sync = Always, l0_trigger = 4, level_base_bytes = 32 * 2 ^ 20,
      level_multiplier = 10, target_table_bytes = 4 * 2 ^ 20, block_bytes = 4096, bits_per_key = 10\<rparr>"

record storage_lib =
  lib_wal :: wal_lib
  lib_sst :: sst_lib
  lib_man :: manifest_lib

record db =
  db_opts :: options
  db_mem :: mem_table
  db_wal :: wal
  db_levels :: "ss_table list list"
  db_manifest :: manifest
  db_seq :: nat
  db_snapshots :: "(nat, nat) btree_map"
  db_files :: table_files
  db_mdir :: manifest_dir

text \<open>The directory as a process that opens it finds it.\<close>

record db_dir =
  dir_files :: table_files
  dir_manifest :: manifest_dir
  dir_wal :: "bytes option"

section \<open>Snapshots\<close>

definition db_snapshot :: "db \<Rightarrow> nat \<times> db" where
  "db_snapshot db =
     (let reg = db_snapshots db; n = (case bt_get reg (db_seq db) of None \<Rightarrow> 0 | Some c \<Rightarrow> c)
      in (db_seq db, db\<lparr>db_snapshots := bt_insert (db_seq db) (n + 1) reg\<rparr>))"

text \<open>\<open>Drop for Snapshot\<close>.\<close>

definition drop_snapshot :: "nat \<Rightarrow> db \<Rightarrow> db" where
  "drop_snapshot s db =
     (case bt_get (db_snapshots db) s of
        None \<Rightarrow> db
      | Some c \<Rightarrow>
          db\<lparr>db_snapshots := (if c - 1 = 0 then bt_remove s (db_snapshots db)
                              else bt_insert s (c - 1) (db_snapshots db))\<rparr>)"

section \<open>Reads\<close>

text \<open>Level 0: look in every table, the highest sequence number wins.\<close>

fun best_l0 :: "sst_lib \<Rightarrow> table_files \<Rightarrow> bytes \<Rightarrow> nat \<Rightarrow> ss_table list \<Rightarrow>
    (nat \<times> bytes option) option \<Rightarrow> (nat \<times> bytes option) option storage_result" where
  "best_l0 L files key snapshot [] best = Inr best"
| "best_l0 L files key snapshot (t # ts) best =
     and_then (sst_get L files t key snapshot) (\<lambda>r.
       best_l0 L files key snapshot ts
         (case r of
            None \<Rightarrow> best
          | Some (s, v) \<Rightarrow>
              (case best of
                 None \<Rightarrow> Some (s, v)
               | Some (bs, _) \<Rightarrow> if s > bs then Some (s, v) else best)))"

text \<open>Deeper levels: the only table whose range can hold the key.\<close>

definition best_deep :: "sst_lib \<Rightarrow> table_files \<Rightarrow> bytes \<Rightarrow> nat \<Rightarrow> ss_table list \<Rightarrow>
    (nat \<times> bytes option) option storage_result" where
  "best_deep L files key snapshot level =
     (let idx = partition_point (\<lambda>t. st_max_key t < key) level
      in if idx < length level \<and> st_min_key (level ! idx) \<le> key
         then sst_get L files (level ! idx) key snapshot
         else Inr None)"

fun get_levels :: "sst_lib \<Rightarrow> table_files \<Rightarrow> bytes \<Rightarrow> nat \<Rightarrow> nat \<Rightarrow> ss_table list list \<Rightarrow>
    bytes option storage_result" where
  "get_levels L files key snapshot li [] = Inr None"
| "get_levels L files key snapshot li (level # levels) =
     and_then (if li = 0 then best_l0 L files key snapshot level None
               else best_deep L files key snapshot level)
       (\<lambda>best. case best of
            Some (_, v) \<Rightarrow> Inr v
          | None \<Rightarrow> get_levels L files key snapshot (Suc li) levels)"

definition get_at :: "storage_lib \<Rightarrow> db \<Rightarrow> bytes \<Rightarrow> nat \<Rightarrow> bytes option storage_result" where
  "get_at L db key snapshot =
     (case mt_get (db_mem db) key snapshot of
        Some v \<Rightarrow> Inr v
      | None \<Rightarrow> get_levels (lib_sst L) (db_files db) key snapshot 0 (db_levels db))"

definition db_get :: "storage_lib \<Rightarrow> db \<Rightarrow> bytes \<Rightarrow> bytes option storage_result" where
  "db_get L db key = get_at L db key (db_seq db)"

text \<open>The entries of several tables, each read to its end.\<close>

fun iter_all :: "sst_lib \<Rightarrow> table_files \<Rightarrow> ss_table list \<Rightarrow> entry list list storage_result" where
  "iter_all L files [] = Inr []"
| "iter_all L files (t # ts) =
     and_then (sst_iter L files t) (\<lambda>es. and_then (iter_all L files ts) (\<lambda>ess. Inr (es # ess)))"

text \<open>The loop of \<open>scan_at\<close> over the visible versions, with what it has collected.\<close>

fun scan_visible :: "bytes \<Rightarrow> bytes option \<Rightarrow> nat \<Rightarrow> (bytes \<times> bytes) list \<Rightarrow>
    (bytes \<times> bytes option) list \<Rightarrow> (bytes \<times> bytes) list" where
  "scan_visible start stop limit out [] = out"
| "scan_visible start stop limit out ((k, v) # rest) =
     (if k < start then scan_visible start stop limit out rest
      else if (case stop of None \<Rightarrow> False | Some e \<Rightarrow> k \<ge> e) then out
      else case v of
             None \<Rightarrow> scan_visible start stop limit out rest
           | Some v \<Rightarrow>
               let out' = out @ [(k, v)]
               in if length out' \<ge> limit then out' else scan_visible start stop limit out' rest)"

definition scan_at :: "storage_lib \<Rightarrow> db \<Rightarrow> bytes \<Rightarrow> bytes option \<Rightarrow> nat \<Rightarrow> nat \<Rightarrow>
    (bytes \<times> bytes) list storage_result" where
  "scan_at L db start stop limit snapshot =
     and_then (iter_all (lib_sst L) (db_files db) (concat (db_levels db))) (\<lambda>ess.
       Inr (scan_visible start stop limit []
              (visible_iter snapshot None (merge_iter (mt_iter (db_mem db) # ess)))))"

definition db_scan :: "storage_lib \<Rightarrow> db \<Rightarrow> bytes \<Rightarrow> bytes option \<Rightarrow> nat \<Rightarrow>
    (bytes \<times> bytes) list storage_result" where
  "db_scan L db start stop limit = scan_at L db start stop limit (db_seq db)"

section \<open>Flush\<close>

text \<open>The table number the next new table gets is \<open>next_table_id\<close> of the manifest.\<close>

definition flush :: "storage_lib \<Rightarrow> db \<Rightarrow> db storage_result" where
  "flush L db =
     (if mt_is_empty (db_mem db) then Inr db
      else
        let tid = next_table_id (db_manifest db); opts = db_opts db
        in and_then (each_ok (tb_add (lib_sst L)) (mt_iter (db_mem db))
                      (tb_create (block_bytes opts) (bits_per_key opts))) (\<lambda>b.
           and_then (tb_finish (lib_sst L) b) (\<lambda>(file, entries, size, min_key, max_key).
             let files = (db_files db)(tid := Some file)
             in and_then (sst_open (lib_sst L) files tid) (\<lambda>table.
                  let m = db_manifest db;
                      lvls = (if mf_levels m = [] then [[]] else mf_levels m);
                      meta = \<lparr>tm_id = tid, tm_min_key = min_key, tm_max_key = max_key,
                              tm_entries = entries, tm_bytes = size\<rparr>;
                      m' = m\<lparr>next_table_id := tid + 1, last_seq := db_seq db,
                             mf_levels := lvls[0 := lvls ! 0 @ [meta]]\<rparr>
                  in Inr (db\<lparr>db_files := files, db_manifest := m',
                             db_mdir := manifest_save (lib_man L) m' (db_mdir db),
                             db_levels := (db_levels db)[0 := db_levels db ! 0 @ [table]],
                             db_mem := mt_new, db_wal := wal_reset (db_wal db)\<rparr>)))))"

section \<open>Compaction\<close>

definition level_bytes :: "db \<Rightarrow> nat \<Rightarrow> nat" where
  "level_bytes db i =
     (if i < length (mf_levels (db_manifest db))
      then sum_list (map tm_bytes (mf_levels (db_manifest db) ! i)) mod 2 ^ 64 else 0)"

definition level_limit :: "db \<Rightarrow> nat \<Rightarrow> nat" where
  "level_limit db i =
     level_base_bytes (db_opts db) * level_multiplier (db_opts db) ^ (i mod 2 ^ 32 - 1) mod 2 ^ 64"

text \<open>\<open>while levels.len() <= n { levels.push(Vec::new()) }\<close>.\<close>

definition pad_levels :: "nat \<Rightarrow> 'a list list \<Rightarrow> 'a list list" where
  "pad_levels n xs = xs @ replicate (Suc n - length xs) []"

text \<open>The locals of the output loop.\<close>

record compact_state =
  cs_builder :: "table_builder option"
  cs_builder_id :: nat
  cs_next_id :: nat
  cs_out_bytes :: nat
  cs_cur_key :: "bytes option"
  cs_kept_baseline :: bool
  cs_last_written :: "(bytes \<times> nat) option"
  cs_outputs :: "table_meta list"
  cs_files :: table_files

text \<open>\<open>if let Some(b) = builder.take() { ... outputs.push(...) }\<close>.\<close>

definition finish_output :: "sst_lib \<Rightarrow> compact_state \<Rightarrow> compact_state storage_result" where
  "finish_output L st =
     (case cs_builder st of
        None \<Rightarrow> Inr st
      | Some b \<Rightarrow>
          and_then (tb_finish L b) (\<lambda>(file, entries, size, mn, mx).
            Inr (st\<lparr>cs_builder := None,
                    cs_files := (cs_files st)(cs_builder_id st := Some file),
                    cs_outputs := cs_outputs st @
                      [\<lparr>tm_id = cs_builder_id st, tm_min_key = mn, tm_max_key = mx,
                        tm_entries = entries, tm_bytes = size\<rparr>]\<rparr>)))"

definition start_key :: "sst_lib \<Rightarrow> options \<Rightarrow> bytes \<Rightarrow> compact_state \<Rightarrow> compact_state storage_result" where
  "start_key L opts k st =
     (if cs_cur_key st \<noteq> Some k then
        let st = st\<lparr>cs_cur_key := Some k, cs_kept_baseline := False\<rparr>
        in if cs_out_bytes st \<ge> target_table_bytes opts
           then and_then (finish_output L st) (\<lambda>st. Inr (st\<lparr>cs_out_bytes := 0\<rparr>))
           else Inr st
      else Inr st)"

text \<open>Add the entry to the open output table, or to a new one.\<close>

definition write_output :: "sst_lib \<Rightarrow> options \<Rightarrow> entry \<Rightarrow> compact_state \<Rightarrow> compact_state storage_result" where
  "write_output L opts e st =
     (case e of (k, s, v) \<Rightarrow>
      let (b, bid, nid) = (case cs_builder st of
             None \<Rightarrow> (tb_create (block_bytes opts) (bits_per_key opts), cs_next_id st, cs_next_id st + 1)
           | Some b \<Rightarrow> (b, cs_builder_id st, cs_next_id st))
      in and_then (tb_add L (k, s, v) b) (\<lambda>b'.
           Inr (st\<lparr>cs_builder := Some b', cs_builder_id := bid, cs_next_id := nid,
                   cs_out_bytes := cs_out_bytes st + (length k + value_len v + 17),
                   cs_last_written := Some (k, s)\<rparr>)))"

definition compact_entry :: "sst_lib \<Rightarrow> options \<Rightarrow> nat \<Rightarrow> bool \<Rightarrow> entry \<Rightarrow> compact_state \<Rightarrow>
    compact_state storage_result" where
  "compact_entry L opts min_snap bottom e st0 =
     (case e of (k, s, v) \<Rightarrow>
      and_then (start_key L opts k st0) (\<lambda>st.
        if cs_last_written st = Some (k, s) then Inr st
        else if s \<le> min_snap then
          if cs_kept_baseline st then Inr st
          else
            let st = st\<lparr>cs_kept_baseline := True\<rparr>
            in if v = None \<and> bottom then Inr st else write_output L opts (k, s, v) st
        else write_output L opts (k, s, v) st))"

text \<open>The smallest and the largest key of the chosen tables.\<close>

definition key_range :: "ss_table list \<Rightarrow> bytes option \<times> bytes option" where
  "key_range ts =
     fold (\<lambda>t (mn, mx).
       (if (case mn of None \<Rightarrow> True | Some m \<Rightarrow> st_min_key t < m) then Some (st_min_key t) else mn,
        if (case mx of None \<Rightarrow> True | Some m \<Rightarrow> st_max_key t > m) then Some (st_max_key t) else mx))
       ts (None, None)"

text \<open>The table's range meets the range from \<open>min_k\<close> to \<open>max_k\<close>.\<close>

definition overlaps :: "bytes \<Rightarrow> bytes \<Rightarrow> ss_table \<Rightarrow> bool" where
  "overlaps min_k max_k t \<longleftrightarrow> \<not> (st_max_key t < min_k \<or> st_min_key t > max_k)"

definition min_snapshot :: "db \<Rightarrow> nat" where
  "min_snapshot db = (case db_snapshots db of [] \<Rightarrow> db_seq db | (s, _) # _ \<Rightarrow> s)"

definition source_ids :: "nat \<Rightarrow> ss_table list \<Rightarrow> nat list" where
  "source_ids level ts =
     (if level = 0 then map st_id ts
      else case map st_id ts of [] \<Rightarrow> [] | ids \<Rightarrow> [min_list ids])"

fun open_all :: "sst_lib \<Rightarrow> table_files \<Rightarrow> nat list \<Rightarrow> ss_table list storage_result" where
  "open_all L files [] = Inr []"
| "open_all L files (i # is) =
     and_then (sst_open L files i) (\<lambda>t. and_then (open_all L files is) (\<lambda>ts. Inr (t # ts)))"

definition compact_level :: "storage_lib \<Rightarrow> nat \<Rightarrow> db \<Rightarrow> db storage_result" where
  "compact_level L level db0 =
     (let m0 = db_manifest db0;
          db = db0\<lparr>db_levels := pad_levels (level + 1) (db_levels db0),
                   db_manifest := m0\<lparr>mf_levels := pad_levels (level + 1) (mf_levels m0)\<rparr>\<rparr>;
          src = db_levels db ! level; dst = db_levels db ! (level + 1);
          src_ids = source_ids level src
      in if src_ids = [] then Inr db
         else
           case key_range (filter (\<lambda>t. st_id t \<in> set src_ids) src) of
             (Some min_k, Some max_k) \<Rightarrow>
               let dst_ids = map st_id (filter (overlaps min_k max_k) dst);
                   min_snap = min_snapshot db;
                   bottom = (\<forall>l \<in> set [level + 2..<length (db_levels db)]. db_levels db ! l = []);
                   inputs = filter (\<lambda>t. st_id t \<in> set src_ids) src @
                            filter (\<lambda>t. st_id t \<in> set dst_ids) dst
               in and_then (iter_all (lib_sst L) (db_files db) inputs) (\<lambda>sources.
                  and_then (each_ok (compact_entry (lib_sst L) (db_opts db) min_snap bottom)
                      (merge_iter sources)
                      \<lparr>cs_builder = None, cs_builder_id = 0,
                       cs_next_id = next_table_id (db_manifest db), cs_out_bytes = 0,
                       cs_cur_key = None, cs_kept_baseline = False, cs_last_written = None,
                       cs_outputs = [], cs_files = db_files db\<rparr>) (\<lambda>st.
                  and_then (finish_output (lib_sst L) st) (\<lambda>st.
                    let m = db_manifest db;
                        outputs = cs_outputs st;
                        lvls = (mf_levels m)
                          [level := filter (\<lambda>t. tm_id t \<notin> set src_ids) (mf_levels m ! level)];
                        lvls = lvls
                          [level + 1 := sort_key tm_min_key
                             (filter (\<lambda>t. tm_id t \<notin> set dst_ids) (lvls ! (level + 1)) @ outputs)];
                        m' = m\<lparr>next_table_id := cs_next_id st, mf_levels := lvls\<rparr>
                    in and_then (open_all (lib_sst L) (cs_files st) (map tm_id outputs)) (\<lambda>opened.
                         let ls = (db_levels db)
                               [level := filter (\<lambda>t. st_id t \<notin> set src_ids) src];
                             ls = ls
                               [level + 1 := sort_key st_min_key
                                  (filter (\<lambda>t. st_id t \<notin> set dst_ids) (ls ! (level + 1)) @ opened)]
                         in Inr (db\<lparr>db_manifest := m',
                                    db_mdir := manifest_save (lib_man L) m' (db_mdir db),
                                    db_levels := ls,
                                    db_files := fold (\<lambda>i f. f(i := None)) (src_ids @ dst_ids)
                                                  (cs_files st)\<rparr>)))))
           | _ \<Rightarrow> Inl Panic)"

text \<open>The level the next round of \<open>maybe_compact\<close> works on.\<close>

definition compact_choice :: "db \<Rightarrow> nat option" where
  "compact_choice db =
     (if length (db_levels db ! 0) \<ge> l0_trigger (db_opts db) then Some 0
      else find (\<lambda>i. level_bytes db i > level_limit db i) [1..<length (db_levels db)])"

partial_function (option) maybe_compact :: "storage_lib \<Rightarrow> db \<Rightarrow> db storage_result option" where
  "maybe_compact L db =
     (case compact_choice db of
        None \<Rightarrow> Some (Inr db)
      | Some level \<Rightarrow>
          (case compact_level L level db of
             Inl e \<Rightarrow> Some (Inl e)
           | Inr db' \<Rightarrow> maybe_compact L db'))"

section \<open>Writes and opening\<close>

definition maybe_flush :: "storage_lib \<Rightarrow> db \<Rightarrow> db storage_result option" where
  "maybe_flush L db =
     (if mt_bytes (db_mem db) \<ge> memtable_bytes (db_opts db)
      then (case flush L db of Inl e \<Rightarrow> Some (Inl e) | Inr db' \<Rightarrow> maybe_compact L db')
      else Some (Inr db))"

text \<open>Insert operations with consecutive sequence numbers.\<close>

fun insert_ops :: "nat \<Rightarrow> (bytes \<times> bytes option) list \<Rightarrow> mem_table \<Rightarrow> mem_table" where
  "insert_ops s [] mem = mem"
| "insert_ops s ((k, v) # ops) mem = insert_ops (s + 1) ops (mt_insert k s v mem)"

text \<open>The batch in the log and in the memtable.\<close>

definition log_batch :: "storage_lib \<Rightarrow> (bytes \<times> bytes option) list \<Rightarrow> db \<Rightarrow> db" where
  "log_batch L ops db =
     (let first = db_seq db + 1
      in db\<lparr>db_wal := wal_append (lib_wal L) \<lparr>wal_batch.first_seq = first, wb_ops = ops\<rparr> (db_wal db),
            db_mem := insert_ops first ops (db_mem db),
            db_seq := first + length ops - 1\<rparr>)"

definition write_batch :: "storage_lib \<Rightarrow> (bytes \<times> bytes option) list \<Rightarrow> db \<Rightarrow> db storage_result option" where
  "write_batch L ops db =
     (if ops = [] then Some (Inr db) else maybe_flush L (log_batch L ops db))"

definition put :: "storage_lib \<Rightarrow> bytes \<Rightarrow> bytes \<Rightarrow> db \<Rightarrow> db storage_result option" where
  "put L k v = write_batch L [(k, Some v)]"

definition delete :: "storage_lib \<Rightarrow> bytes \<Rightarrow> db \<Rightarrow> db storage_result option" where
  "delete L k = write_batch L [(k, None)]"

fun open_levels :: "sst_lib \<Rightarrow> table_files \<Rightarrow> table_meta list list \<Rightarrow> ss_table list list storage_result" where
  "open_levels L files [] = Inr []"
| "open_levels L files (ms # mss) =
     and_then (open_all L files (map tm_id ms)) (\<lambda>ts.
       and_then (open_levels L files mss) (\<lambda>tss. Inr (ts # tss)))"

text \<open>Replay into a fresh memtable, with the highest sequence number seen.\<close>

definition replay_batch :: "wal_batch \<Rightarrow> mem_table \<times> nat \<Rightarrow> mem_table \<times> nat" where
  "replay_batch b st =
     (insert_ops (wal_batch.first_seq b) (wb_ops b) (fst st),
      if wb_ops b = [] then snd st else max (snd st) (wal_batch.first_seq b + length (wb_ops b) - 1))"

text \<open>\<open>Db::open\<close> up to the flush it ends with.\<close>

definition db_load :: "storage_lib \<Rightarrow> options \<Rightarrow> db_dir \<Rightarrow> db storage_result" where
  "db_load L opts d =
     and_then (manifest_load (lib_man L) (dir_manifest d)) (\<lambda>om.
       let m = (case om of None \<Rightarrow> manifest_default | Some m \<Rightarrow> m)
       in and_then (open_levels (lib_sst L) (dir_files d) (mf_levels m)) (\<lambda>lvls.
            let (batches, f) = wal_replay (lib_wal L) (dir_wal d);
                (mem, s) = fold replay_batch batches (mt_new, last_seq m)
            in Inr \<lparr>db_opts = opts, db_mem = mem,
                    db_wal = wal_open (case f of None \<Rightarrow> [] | Some data \<Rightarrow> data) (sync opts),
                    db_levels = (if lvls = [] then [[]] else lvls), db_manifest = m,
                    db_seq = s, db_snapshots = bt_empty, db_files = dir_files d,
                    db_mdir = dir_manifest d\<rparr>))"

definition db_open :: "storage_lib \<Rightarrow> options \<Rightarrow> db_dir \<Rightarrow> db storage_result option" where
  "db_open L opts d = (case db_load L opts d of Inl e \<Rightarrow> Some (Inl e) | Inr db \<Rightarrow> maybe_flush L db)"

definition level_table_counts :: "db \<Rightarrow> (nat \<times> nat) list" where
  "level_table_counts db = zip [0..<length (db_levels db)] (map length (db_levels db))"

end
