(* ===== verification/Db_Compact.thy ===== *)
theory Db_Compact
  imports Db
begin

text \<open>
  The output loop of a compaction. A pure function \<open>gc\<close> says which entries of the merged stream
  the loop writes, its meaning is a set of versions, and the loop cuts the written entries into
  tables at key boundaries.
\<close>

section \<open>Which entries a compaction keeps\<close>

fun gc :: "nat \<Rightarrow> bool \<Rightarrow> bytes option \<Rightarrow> bool \<Rightarrow> (bytes \<times> nat) option \<Rightarrow> entry list \<Rightarrow> entry list" where
  "gc min_snap bottom ck kept lw [] = []"
| "gc min_snap bottom ck kept lw ((k, s, v) # es) =
     (let kept = (if ck \<noteq> Some k then False else kept)
      in if lw = Some (k, s) then gc min_snap bottom (Some k) kept lw es
         else if s \<le> min_snap then
           if kept then gc min_snap bottom (Some k) True lw es
           else if v = None \<and> bottom then gc min_snap bottom (Some k) True lw es
           else (k, s, v) # gc min_snap bottom (Some k) True (Some (k, s)) es
         else (k, s, v) # gc min_snap bottom (Some k) kept (Some (k, s)) es)"

text \<open>
  The versions that survive: those above the oldest snapshot, and per key the newest at or below
  it, unless that is a tombstone with nothing beneath.
\<close>

definition survivors :: "nat \<Rightarrow> bool \<Rightarrow> entry set \<Rightarrow> entry set" where
  "survivors min_snap bottom V =
     {(k, s, v). (k, s, v) \<in> V \<and>
        (min_snap < s \<or>
         ((\<forall>s' v'. (k, s', v') \<in> V \<longrightarrow> s' \<le> min_snap \<longrightarrow> s' \<le> s) \<and> \<not> (v = None \<and> bottom)))}"

text \<open>The loop's locals after it has read the entries \<open>P\<close>.\<close>

definition gc_locals :: "nat \<Rightarrow> entry list \<Rightarrow> bytes option \<Rightarrow> bool \<Rightarrow> (bytes \<times> nat) option \<Rightarrow> bool" where
  "gc_locals min_snap P ck kept lw \<longleftrightarrow>
     ck = (if P = [] then None else Some (fst (last P))) \<and>
     (kept \<longleftrightarrow> P \<noteq> [] \<and> fst (snd (last P)) \<le> min_snap) \<and>
     (P \<noteq> [] \<longrightarrow> min_snap < fst (snd (last P)) \<longrightarrow> lw = Some (fst (last P), fst (snd (last P)))) \<and>
     (\<forall>k s. lw = Some (k, s) \<longrightarrow> (\<exists>v. (k, s, v) \<in> set P))"

lemma ordered_key_run:
  assumes "entries_ordered (P @ (k, s, v) # es)" "(k, s', v') \<in> set P"
  shows "fst (last P) = k" "s \<le> fst (snd (last P))" "fst (snd (last P)) \<le> s'"
proof -
  obtain P' l where P: "P = P' @ [l]" using assms(2) by (cases P rule: rev_cases) auto
  obtain kl sl vl where l: "l = (kl, sl, vl)" by (cases l) auto
  have 1: "\<not> entry_before (k, s, v) (kl, sl, vl)"
    using assms(1) by (auto simp: P l sorted_wrt_append)
  have 2: "(k, s', v') = (kl, sl, vl) \<or> \<not> entry_before (kl, sl, vl) (k, s', v')"
    using assms by (auto simp: P l sorted_wrt_append)
  have "kl \<le> k" using 1 by auto
  moreover have "k \<le> kl" using 2 by auto
  ultimately have "kl = k" by simp
  then show "fst (last P) = k" "s \<le> fst (snd (last P))" "fst (snd (last P)) \<le> s'"
    using 1 2 by (auto simp: P l)
qed

lemma ordered_later:
  assumes "entries_ordered (P @ (k, s, v) # es)" "(k, s', v') \<in> set es"
  shows "s' \<le> s"
  using assms by (fastforce simp: sorted_wrt_append)

lemma sorted_Cons_gc:
  assumes ord: "entries_ordered (P @ e # es)" and sv: "single_valued_versions (set (P @ e # es))"
    and out: "set out \<subseteq> set es" "e \<notin> set out" and sorted: "entries_sorted out"
  shows "entries_sorted (e # out)"
proof -
  obtain k s v where e: "e = (k, s, v)" by (cases e) auto
  have "entry_before e x" if x: "x \<in> set out" for x
  proof -
    obtain k' s' v' where x': "x = (k', s', v')" by (cases x) auto
    have "x \<in> set es" "x \<noteq> e" using x out by auto
    then have "\<not> entry_before x e" using ord by (simp add: sorted_wrt_append)
    moreover have "(k', s') \<noteq> (k, s)"
    proof
      assume "(k', s') = (k, s)"
      then have "v' = v" using single_valuedD [OF sv, of k s v' v] \<open>x \<in> set es\<close> by (simp add: x' e)
      then show False using \<open>x \<noteq> e\<close> \<open>(k', s') = (k, s)\<close> by (simp add: x' e)
    qed
    ultimately show ?thesis by (auto simp: x' e)
  qed
  then show ?thesis using sorted by simp
qed

lemma survivors_old:
  assumes ord: "entries_ordered (P @ (k, s, v) # es)" and s: "s \<le> min_snap"
    and sv: "single_valued_versions (set (P @ (k, s, v) # es))"
    and surv: "(k, s, v) \<in> survivors min_snap bottom (set (P @ (k, s, v) # es))"
    and last: "P \<noteq> []" "fst (last P) = k" "fst (snd (last P)) \<le> min_snap"
  shows "(k, s, v) \<in> set P"
proof -
  obtain P' l where P: "P = P' @ [l]" using last(1) by (cases P rule: rev_cases) auto
  obtain sl vl where l: "l = (k, sl, vl)" using last(2) by (cases l) (auto simp: P)
  have "(k, sl, vl) \<in> set (P @ (k, s, v) # es)" by (simp add: P l)
  moreover have "sl \<le> min_snap" using last(3) by (simp add: P l)
  ultimately have "sl \<le> s" using surv s by (auto simp: survivors_def)
  moreover have "s \<le> sl" using ordered_key_run(2) [OF ord, of sl vl] by (simp add: P l)
  ultimately have "sl = s" by simp
  then have "vl = v" using single_valuedD [OF sv, of k s vl v] by (simp add: P l)
  then show ?thesis using \<open>sl = s\<close> by (simp add: P l)
qed

text \<open>
  The entries the loop writes from \<open>es\<close>, after it has read \<open>P\<close>, are the surviving ones it has not
  seen before, in order and without repetition.
\<close>

lemma gc_spec:
  assumes "entries_ordered (P @ es)" "single_valued_versions (set (P @ es))"
    and "gc_locals min_snap P ck kept lw"
  shows "set (gc min_snap bottom ck kept lw es) =
           {e \<in> survivors min_snap bottom (set (P @ es)). e \<in> set es \<and> e \<notin> set P} \<and>
         entries_sorted (gc min_snap bottom ck kept lw es)"
  using assms
proof (induction es arbitrary: P ck kept lw)
  case Nil
  then show ?case by simp
next
  case (Cons e es)
  obtain k s v where e: "e = (k, s, v)" by (cases e) auto
  let ?S = "survivors min_snap bottom (set (P @ e # es))"
  note ord = Cons.prems(1) [unfolded e] and sv = Cons.prems(2) [unfolded e]
  define kept' where "kept' = (if ck \<noteq> Some k then False else kept)"
  have kept': "kept' \<longleftrightarrow> P \<noteq> [] \<and> fst (last P) = k \<and> fst (snd (last P)) \<le> min_snap"
    using Cons.prems(3) by (auto simp: kept'_def gc_locals_def)
  have lw: "lw = Some (k', s') \<Longrightarrow> \<exists>v'. (k', s', v') \<in> set P" for k' s'
    using Cons.prems(3) by (simp add: gc_locals_def)
  have lwP: "(k, s, v) \<in> set P" if l: "lw = Some (k, s)"
  proof -
    obtain v' where v': "(k, s, v') \<in> set P" using lw [OF l] by blast
    then have "v' = v" using single_valuedD [OF sv, of k s v' v] by simp
    then show ?thesis using v' by simp
  qed
  have runs: "(k, s, v) \<in> set P \<Longrightarrow> P \<noteq> [] \<and> fst (last P) = k \<and> fst (snd (last P)) = s"
    using ordered_key_run [OF ord, of s v] by (cases "P = []") (simp_all add: order.antisym)
  have IH: "set (gc min_snap bottom (Some k) b lw' es) = {x \<in> ?S. x \<in> set es \<and> x \<notin> set (P @ [e])} \<and>
      entries_sorted (gc min_snap bottom (Some k) b lw' es)"
    if "gc_locals min_snap (P @ [e]) (Some k) b lw'" for b lw'
    using Cons.IH [OF _ _ that] Cons.prems(1,2) by simp
  have skip: "?case" if skip: "gc min_snap bottom ck kept lw (e # es) = gc min_snap bottom (Some k) b lw es"
    and loc: "gc_locals min_snap (P @ [e]) (Some k) b lw" and out: "e \<in> ?S \<Longrightarrow> e \<in> set P" for b
  proof -
    have "{x \<in> ?S. x \<in> set es \<and> x \<notin> set (P @ [e])} = {x \<in> ?S. x \<in> set (e # es) \<and> x \<notin> set P}"
      using out by auto
    then show ?thesis using IH [OF loc] unfolding skip by simp
  qed
  have emit: "?case"
    if eq: "gc min_snap bottom ck kept lw (e # es) = e # gc min_snap bottom (Some k) b (Some (k, s)) es"
    and loc: "gc_locals min_snap (P @ [e]) (Some k) b (Some (k, s))" and out: "e \<in> ?S" "e \<notin> set P" for b
  proof -
    let ?rest = "gc min_snap bottom (Some k) b (Some (k, s)) es"
    have rest: "set ?rest = {x \<in> ?S. x \<in> set es \<and> x \<notin> set (P @ [e])}" and sorted: "entries_sorted ?rest"
      using IH [OF loc] by blast+
    then have "entries_sorted (e # ?rest)"
      using sorted_Cons_gc [OF Cons.prems(1,2) _ _ sorted] by auto
    moreover have "set (e # ?rest) = {x \<in> ?S. x \<in> set (e # es) \<and> x \<notin> set P}"
      using rest out by auto
    ultimately show ?thesis unfolding eq by blast
  qed
  consider (dup) "lw = Some (k, s)" | (shadow) "lw \<noteq> Some (k, s)" "s \<le> min_snap" "kept'"
    | (base) "lw \<noteq> Some (k, s)" "s \<le> min_snap" "\<not> kept'" | (new) "lw \<noteq> Some (k, s)" "min_snap < s"
    by fastforce
  then show ?case
  proof cases
    case dup
    have "kept' \<longleftrightarrow> s \<le> min_snap" using runs [OF lwP [OF dup]] kept' by auto
    then have "gc_locals min_snap (P @ [e]) (Some k) kept' lw"
      using dup lwP by (auto simp: gc_locals_def e)
    moreover have "gc min_snap bottom ck kept lw (e # es) = gc min_snap bottom (Some k) kept' lw es"
      using dup by (simp add: e kept'_def)
    ultimately show ?thesis using skip lwP [OF dup] e by blast
  next
    case shadow
    have "gc_locals min_snap (P @ [e]) (Some k) True lw"
      using shadow(2) lw by (auto simp: gc_locals_def e)
    moreover have "gc min_snap bottom ck kept lw (e # es) = gc min_snap bottom (Some k) True lw es"
      using shadow by (auto simp: e kept'_def split: if_splits)
    moreover have "e \<in> ?S \<Longrightarrow> e \<in> set P"
      using survivors_old [OF ord shadow(2) sv] shadow(3) kept' unfolding e by blast
    ultimately show ?thesis using skip by blast
  next
    case base
    have P: "min_snap < s'" if "(k, s', v') \<in> set P" for s' v'
    proof -
      have "P \<noteq> []" "fst (last P) = k" using that ordered_key_run(1) [OF ord that] by auto
      then show ?thesis using base(3) kept' ordered_key_run(3) [OF ord that] by auto
    qed
    have newest: "s' \<le> s" if "(k, s', v') \<in> set (P @ e # es)" "s' \<le> min_snap" for s' v'
      using that P [of s' v'] ordered_later [OF ord, of s' v'] by (auto simp: e)
    show ?thesis
    proof (cases "v = None \<and> bottom")
      case True
      have "gc_locals min_snap (P @ [e]) (Some k) True lw"
        using base(2) lw by (auto simp: gc_locals_def e)
      moreover have "gc min_snap bottom ck kept lw (e # es) = gc min_snap bottom (Some k) True lw es"
        using base True by (simp add: e kept'_def)
      moreover have "e \<notin> ?S" using True base(2) by (simp add: survivors_def e)
      ultimately show ?thesis using skip by blast
    next
      case False
      have "gc_locals min_snap (P @ [e]) (Some k) True (Some (k, s))"
        using base(2) by (auto simp: gc_locals_def e)
      moreover have "gc min_snap bottom ck kept lw (e # es) =
          e # gc min_snap bottom (Some k) True (Some (k, s)) es"
        using base False by (auto simp: e kept'_def)
      moreover have "e \<in> ?S" using False newest by (auto simp: survivors_def e)
      moreover have "e \<notin> set P" using P [of s v] base(2) by (auto simp: e)
      ultimately show ?thesis using emit by blast
    qed
  next
    case new
    have notP: "e \<notin> set P"
    proof
      assume "e \<in> set P"
      then have "P \<noteq> []" "last P = (k, s, snd (snd (last P)))"
        using runs by (auto simp: e prod_eq_iff)
      then show False using new Cons.prems(3) unfolding gc_locals_def by (metis fst_conv snd_conv)
    qed
    have "\<not> kept'"
      using ordered_key_run(2) [OF ord, of "fst (snd (last P))" "snd (snd (last P))"] new(2) kept'
      by (cases "P = []") (auto simp: prod_eq_iff dest: last_in_set)
    then have "gc_locals min_snap (P @ [e]) (Some k) kept' (Some (k, s))"
      using new by (auto simp: gc_locals_def e)
    moreover have "gc min_snap bottom ck kept lw (e # es) =
        e # gc min_snap bottom (Some k) kept' (Some (k, s)) es"
      using new by (simp add: e kept'_def)
    moreover have "e \<in> ?S" using new by (simp add: survivors_def e)
    ultimately show ?thesis using emit notP by blast
  qed
qed

lemma gc_all:
  assumes "entries_ordered es" "single_valued_versions (set es)"
  shows "set (gc min_snap bottom None False None es) = survivors min_snap bottom (set es)"
    and "entries_sorted (gc min_snap bottom None False None es)"
proof -
  have "gc_locals min_snap [] None False None" by (simp add: gc_locals_def)
  from gc_spec [OF _ _ this] assms show
    "set (gc min_snap bottom None False None es) = survivors min_snap bottom (set es)"
    and "entries_sorted (gc min_snap bottom None False None es)"
    by (auto simp: survivors_def)
qed

section \<open>The tables a compaction writes\<close>

text \<open>Adding entries and finishing never fail.\<close>

lemma tb_adds_total: "\<exists>b. each_ok (tb_add L) es (tb_create n m) = Inr b"
  using tb_adds_inv [OF tb_inv_create [of L n m], of es] tb_summary_create
  by (auto simp: blocks_small_def)

lemma build_table_total: "\<exists>data entries size mn mx. build_table L n m es = Inr (data, entries, size, mn, mx)"
proof -
  obtain blks cur b where adds: "each_ok (tb_add L) es (tb_create n m) = Inr b"
    and inv: "tb_inv L n m blks cur b"
    using tb_adds_inv [OF tb_inv_create [of L n m], of es] tb_summary_create
    by (auto simp: blocks_small_def)
  obtain b' where "flush_block L b = Inr b'" using flush_block_inv [OF inv] by blast
  then show ?thesis by (simp add: build_table_def adds tb_finish_def Let_def)
qed

text \<open>The finished output tables \<open>outs\<close>, with their numbers, files and metadata.\<close>

definition out_ok :: "sst_lib \<Rightarrow> options \<Rightarrow> table_files \<Rightarrow> nat \<times> entry list \<Rightarrow> table_meta \<Rightarrow> bool" where
  "out_ok L opts files o' meta \<longleftrightarrow>
     snd o' \<noteq> [] \<and> tm_id meta = fst o' \<and>
     (\<exists>file. files (fst o') = Some file \<and>
        build_table L (block_bytes opts) (bits_per_key opts) (snd o') =
          Inr (file, tm_entries meta, tm_bytes meta, tm_min_key meta, tm_max_key meta))"

definition cs_inv :: "sst_lib \<Rightarrow> options \<Rightarrow> nat \<Rightarrow> table_files \<Rightarrow> (nat \<times> entry list) list \<Rightarrow> entry list \<Rightarrow>
    compact_state \<Rightarrow> bool" where
  "cs_inv L opts id0 files0 outs cur st \<longleftrightarrow>
     list_all2 (out_ok L opts (cs_files st)) outs (cs_outputs st) \<and>
     map fst outs = [id0..<id0 + length outs] \<and>
     (\<forall>i < id0. cs_files st i = files0 i) \<and>
     (if cur = [] then cs_builder st = None \<and> cs_next_id st = id0 + length outs
      else cs_builder_id st = id0 + length outs \<and> cs_next_id st = id0 + length outs + 1 \<and>
           (\<exists>b. cs_builder st = Some b \<and>
              each_ok (tb_add L) cur (tb_create (block_bytes opts) (bits_per_key opts)) = Inr b))"

lemma out_ok_file: "files (fst o') = files' (fst o') \<Longrightarrow> out_ok L opts files o' m \<longleftrightarrow> out_ok L opts files' o' m"
  by (simp add: out_ok_def)

lemma finish_output_ok:
  assumes inv: "cs_inv L opts id0 files0 outs cur st"
  shows "\<exists>st'. finish_output L st = Inr st' \<and>
     cs_inv L opts id0 files0 (if cur = [] then outs else outs @ [(id0 + length outs, cur)]) [] st' \<and>
     cs_cur_key st' = cs_cur_key st \<and> cs_kept_baseline st' = cs_kept_baseline st \<and>
     cs_last_written st' = cs_last_written st"
proof (cases "cur = []")
  case True
  then show ?thesis using inv by (auto simp: finish_output_def cs_inv_def)
next
  case False
  obtain b where b: "cs_builder st = Some b"
      "each_ok (tb_add L) cur (tb_create (block_bytes opts) (bits_per_key opts)) = Inr b"
    using inv False by (auto simp: cs_inv_def)
  obtain data entries size mn mx
    where build: "build_table L (block_bytes opts) (bits_per_key opts) cur = Inr (data, entries, size, mn, mx)"
    using build_table_total by blast
  then have fin: "tb_finish L b = Inr (data, entries, size, mn, mx)" by (simp add: build_table_def b(2))
  have bid: "cs_builder_id st = id0 + length outs" and nid: "cs_next_id st = Suc (id0 + length outs)"
    and ids: "map fst outs = [id0..<id0 + length outs]"
    using inv False by (simp_all add: cs_inv_def)
  have fresh: "fst o' \<noteq> id0 + length outs" if "o' \<in> set outs" for o'
  proof -
    have "fst o' \<in> set (map fst outs)" using that by simp
    then show ?thesis unfolding ids by simp
  qed
  have "list_all2 (out_ok L opts ((cs_files st)(id0 + length outs := Some data))) outs (cs_outputs st)"
    using inv fresh unfolding cs_inv_def
    by (auto intro!: list_all2_all_nthI simp: out_ok_file list_all2_conv_all_nth out_ok_def)
  then have "list_all2 (out_ok L opts ((cs_files st)(id0 + length outs := Some data)))
      (outs @ [(id0 + length outs, cur)])
      (cs_outputs st @ [\<lparr>tm_id = id0 + length outs, tm_min_key = mn, tm_max_key = mx,
        tm_entries = entries, tm_bytes = size\<rparr>])"
    by (rule list_all2_appendI) (simp add: out_ok_def False build)
  then show ?thesis
    using inv False by (auto simp: finish_output_def b(1) fin bid nid cs_inv_def)
qed

lemma write_output_ok:
  assumes inv: "cs_inv L opts id0 files0 outs cur st"
  shows "\<exists>st'. write_output L opts (k, s, v) st = Inr st' \<and>
     cs_inv L opts id0 files0 outs (cur @ [(k, s, v)]) st' \<and>
     cs_cur_key st' = cs_cur_key st \<and> cs_kept_baseline st' = cs_kept_baseline st \<and>
     cs_last_written st' = Some (k, s)"
proof -
  let ?new = "tb_create (block_bytes opts) (bits_per_key opts)"
  obtain b' where b': "each_ok (tb_add L) (cur @ [(k, s, v)]) ?new = Inr b'" using tb_adds_total by blast
  show ?thesis
  proof (cases "cur = []")
    case True
    then show ?thesis
      using inv b' by (auto simp: cs_inv_def write_output_def and_then_Inr_iff)
  next
    case False
    then obtain b where b: "cs_builder st = Some b" "each_ok (tb_add L) cur ?new = Inr b"
      using inv by (auto simp: cs_inv_def)
    then have "tb_add L (k, s, v) b = Inr b'" using b' by (auto simp: each_ok_append and_then_Inr_iff)
    then show ?thesis
      using inv False b b' by (auto simp: cs_inv_def write_output_def)
  qed
qed

text \<open>Two tables whose key ranges do not meet.\<close>

definition keys_below :: "entry list \<Rightarrow> entry list \<Rightarrow> bool" where
  "keys_below xs ys \<longleftrightarrow> (\<forall>x \<in> set xs. \<forall>y \<in> set ys. fst x < fst y)"

lemma start_key_ok:
  assumes inv: "cs_inv L opts id0 files0 outs cur st"
    and sep: "sorted_wrt keys_below (map snd outs @ [cur @ rest])"
    and cur: "cs_cur_key st \<noteq> Some k \<longrightarrow> keys_below cur rest"
  shows "\<exists>st' outs' cur'. start_key L opts k st = Inr st' \<and> cs_inv L opts id0 files0 outs' cur' st' \<and>
     concat (map snd outs') @ cur' = concat (map snd outs) @ cur \<and> set cur' \<subseteq> set cur \<and>
     sorted_wrt keys_below (map snd outs' @ [cur' @ rest]) \<and>
     cs_cur_key st' = Some k \<and>
     cs_kept_baseline st' = (if cs_cur_key st \<noteq> Some k then False else cs_kept_baseline st) \<and>
     cs_last_written st' = cs_last_written st"
proof -
  let ?st = "st\<lparr>cs_cur_key := Some k, cs_kept_baseline := False\<rparr>"
  have inv1: "cs_inv L opts id0 files0 outs cur ?st" using inv by (simp add: cs_inv_def)
  consider (same) "cs_cur_key st = Some k"
    | (stay) "cs_cur_key st \<noteq> Some k" "cs_out_bytes st < target_table_bytes opts"
    | (rotate) "cs_cur_key st \<noteq> Some k" "target_table_bytes opts \<le> cs_out_bytes st" by fastforce
  then show ?thesis
  proof cases
    case same
    then have "start_key L opts k st = Inr st" by (simp add: start_key_def)
    then show ?thesis
      by (intro exI [of _ st] exI [of _ outs] exI [of _ cur]) (simp add: inv sep same)
  next
    case stay
    then have "start_key L opts k st = Inr ?st" by (simp add: start_key_def Let_def)
    then show ?thesis
      by (intro exI [of _ ?st] exI [of _ outs] exI [of _ cur]) (simp add: inv1 sep stay)
  next
    case rotate
    let ?outs = "if cur = [] then outs else outs @ [(id0 + length outs, cur)]"
    obtain st' where st': "finish_output L ?st = Inr st'" "cs_inv L opts id0 files0 ?outs [] st'"
      "cs_cur_key st' = Some k" "\<not> cs_kept_baseline st'" "cs_last_written st' = cs_last_written st"
      using finish_output_ok [OF inv1] by auto
    have "start_key L opts k st = Inr (st'\<lparr>cs_out_bytes := 0\<rparr>)"
      using rotate st' by (simp add: start_key_def Let_def)
    moreover have "cs_inv L opts id0 files0 ?outs [] (st'\<lparr>cs_out_bytes := 0\<rparr>)"
      using st'(2) by (simp add: cs_inv_def)
    moreover have "sorted_wrt keys_below (map snd ?outs @ [[] @ rest])"
      using sep cur rotate(1) by (auto simp: sorted_wrt_append keys_below_def)
    ultimately show ?thesis
      using rotate(1) st'
      by (intro exI [of _ "st'\<lparr>cs_out_bytes := 0\<rparr>"] exI [of _ ?outs] exI [of _ "[]"]) simp
  qed
qed

text \<open>
  The loop writes the entries of \<open>gc\<close> into consecutive tables with disjoint key ranges.
\<close>

lemma compact_loop:
  assumes "cs_inv L opts id0 files0 outs cur st" and "entries_ordered es"
    and "sorted_wrt keys_below (map snd outs @ [cur @ es])"
    and "\<forall>x \<in> set cur. \<exists>k. cs_cur_key st = Some k \<and> fst x \<le> k"
    and "\<forall>k y. cs_cur_key st = Some k \<longrightarrow> y \<in> set es \<longrightarrow> k \<le> fst y"
  shows "\<exists>st' outs' cur'. each_ok (compact_entry L opts min_snap bottom) es st = Inr st' \<and>
     cs_inv L opts id0 files0 outs' cur' st' \<and>
     concat (map snd outs') @ cur' = concat (map snd outs) @ cur @
       gc min_snap bottom (cs_cur_key st) (cs_kept_baseline st) (cs_last_written st) es \<and>
     sorted_wrt keys_below (map snd outs' @ [cur'])"
  using assms
proof (induction es arbitrary: outs cur st)
  case Nil
  then show ?case by auto
next
  case (Cons e es)
  obtain k s v where e: "e = (k, s, v)" by (cases e) auto
  note ord = ordered_ConsD [OF Cons.prems(2) [unfolded e]]
  have "keys_below cur (e # es)" if ck: "cs_cur_key st \<noteq> Some k"
    unfolding keys_below_def
  proof (intro ballI)
    fix x y assume x: "x \<in> set cur" and y: "y \<in> set (e # es)"
    obtain kk where kk: "cs_cur_key st = Some kk" "fst x \<le> kk" using Cons.prems(4) x by blast
    have "kk \<le> k" using Cons.prems(5) kk by (simp add: e)
    then have "kk < k" using kk ck by auto
    moreover have "k \<le> fst y" using y ord(2) [of y] by (auto simp: e)
    ultimately show "fst x < fst y" using kk(2) by order
  qed
  then obtain st1 outs1 cur1 where 1: "start_key L opts k st = Inr st1" "cs_inv L opts id0 files0 outs1 cur1 st1"
     "concat (map snd outs1) @ cur1 = concat (map snd outs) @ cur" "set cur1 \<subseteq> set cur"
     "sorted_wrt keys_below (map snd outs1 @ [cur1 @ e # es])" "cs_cur_key st1 = Some k"
     "cs_kept_baseline st1 = (if cs_cur_key st \<noteq> Some k then False else cs_kept_baseline st)"
     "cs_last_written st1 = cs_last_written st"
    using start_key_ok [OF Cons.prems(1,3), of k] by blast
  have below: "fst x \<le> k" if "x \<in> set cur1" for x
    using that 1(4) Cons.prems(4,5) e by fastforce
  have skip: ?case
    if step: "compact_entry L opts min_snap bottom e st = Inr st2"
      and inv: "cs_inv L opts id0 files0 outs1 cur2 st2" and ck: "cs_cur_key st2 = Some k"
      and cur2: "cur2 = cur1 @ out" "set out \<subseteq> {e}"
      and gc: "gc min_snap bottom (cs_cur_key st) (cs_kept_baseline st) (cs_last_written st) (e # es) =
        out @ gc min_snap bottom (Some k) (cs_kept_baseline st2) (cs_last_written st2) es"
    for st2 cur2 out
  proof -
    have sep: "sorted_wrt keys_below (map snd outs1 @ [cur2 @ es])"
      using 1(5) cur2 unfolding sorted_wrt_append keys_below_def by auto
    have cur: "\<forall>x \<in> set cur2. \<exists>k. cs_cur_key st2 = Some k \<and> fst x \<le> k"
      using below cur2 ck e by auto
    have rest: "\<forall>k y. cs_cur_key st2 = Some k \<longrightarrow> y \<in> set es \<longrightarrow> k \<le> fst y"
      using ord(2) ck by auto
    obtain st' outs' cur' where 2: "each_ok (compact_entry L opts min_snap bottom) es st2 = Inr st'"
       "cs_inv L opts id0 files0 outs' cur' st'" "concat (map snd outs') @ cur' = concat (map snd outs1) @ cur2 @
         gc min_snap bottom (cs_cur_key st2) (cs_kept_baseline st2) (cs_last_written st2) es"
       "sorted_wrt keys_below (map snd outs' @ [cur'])"
      using Cons.IH [OF inv ord(1) sep cur rest] by blast
    have run: "each_ok (compact_entry L opts min_snap bottom) (e # es) st = Inr st'"
      using step 2(1) by simp
    have "concat (map snd outs') @ cur' = concat (map snd outs) @ cur @
        gc min_snap bottom (cs_cur_key st) (cs_kept_baseline st) (cs_last_written st) (e # es)"
      unfolding gc 2(3) cur2(1) ck using 1(3) by (metis append.assoc)
    then show ?thesis using run 2(2,4) by blast
  qed
  let ?kept = "cs_kept_baseline st1"
  have inv1: "cs_inv L opts id0 files0 outs1 cur1 (st1\<lparr>cs_kept_baseline := b\<rparr>)" for b
    using 1(2) by (simp add: cs_inv_def)
  have kept1: "st1\<lparr>cs_kept_baseline := cs_kept_baseline st1\<rparr> = st1" by simp
  note defs = compact_entry_def e 1(1,6,8) Let_def
  consider (dup) "cs_last_written st = Some (k, s)"
    | (shadow) "cs_last_written st \<noteq> Some (k, s)" "s \<le> min_snap" "?kept"
    | (tomb) "cs_last_written st \<noteq> Some (k, s)" "s \<le> min_snap" "\<not> ?kept" "v = None \<and> bottom"
    | (base) "cs_last_written st \<noteq> Some (k, s)" "s \<le> min_snap" "\<not> ?kept" "\<not> (v = None \<and> bottom)"
    | (new) "cs_last_written st \<noteq> Some (k, s)" "min_snap < s" by fastforce
  then show ?case
  proof cases
    case dup
    show ?thesis
      by (rule skip [of st1 cur1 "[]"]) (use dup 1 in \<open>simp_all add: defs\<close>)
  next
    case shadow
    then have gc: "gc min_snap bottom (cs_cur_key st) (cs_kept_baseline st) (cs_last_written st) (e # es) =
        gc min_snap bottom (Some k) True (cs_last_written st) es"
      using 1(7) by (auto simp: e Let_def split: if_splits)
    have "compact_entry L opts min_snap bottom e st = Inr st1" using shadow by (simp add: defs)
    then show ?thesis
      by (rule skip [of st1 cur1 "[]"]) (use shadow(3) 1(2,6,8) gc in simp_all)
  next
    case tomb
    show ?thesis
      by (rule skip [of "st1\<lparr>cs_kept_baseline := True\<rparr>" cur1 "[]"])
        (use tomb 1 inv1 in \<open>simp_all add: defs split: if_splits\<close>)
  next
    case base
    obtain st2 where 2: "write_output L opts (k, s, v) (st1\<lparr>cs_kept_baseline := True\<rparr>) = Inr st2"
      "cs_inv L opts id0 files0 outs1 (cur1 @ [(k, s, v)]) st2" "cs_cur_key st2 = Some k"
      "cs_kept_baseline st2" "cs_last_written st2 = Some (k, s)"
      using write_output_ok [OF inv1, of k s v True] 1(6) by auto
    have gc: "gc min_snap bottom (cs_cur_key st) (cs_kept_baseline st) (cs_last_written st) (e # es) =
        [e] @ gc min_snap bottom (Some k) True (Some (k, s)) es"
      using base 1(7) by (auto simp: e Let_def split: if_splits)
    have "compact_entry L opts min_snap bottom e st = Inr st2" using base 2(1) by (auto simp: defs)
    then show ?thesis
      by (rule skip [of st2 "cur1 @ [e]" "[e]"]) (use 2 gc in \<open>simp_all add: e\<close>)
  next
    case new
    obtain st2 where 2: "write_output L opts (k, s, v) st1 = Inr st2"
      "cs_inv L opts id0 files0 outs1 (cur1 @ [(k, s, v)]) st2" "cs_cur_key st2 = Some k"
      "cs_kept_baseline st2 = ?kept" "cs_last_written st2 = Some (k, s)"
      using write_output_ok [OF 1(2), of k s v] 1(6) by auto
    have gc: "gc min_snap bottom (cs_cur_key st) (cs_kept_baseline st) (cs_last_written st) (e # es) =
        [e] @ gc min_snap bottom (Some k) ?kept (Some (k, s)) es"
      using new 1(7) by (auto simp: e Let_def)
    have "compact_entry L opts min_snap bottom e st = Inr st2" using new 2(1) by (simp add: defs)
    then show ?thesis
      by (rule skip [of st2 "cur1 @ [e]" "[e]"]) (use 2 gc in \<open>simp_all add: e\<close>)
  qed
qed

text \<open>From the loop's first state to the finished tables.\<close>

lemma compact_run:
  assumes ord: "entries_ordered es" and sv: "single_valued_versions (set es)"
  shows "\<exists>st1 st outs.
     each_ok (compact_entry L opts min_snap bottom) es
       \<lparr>cs_builder = None, cs_builder_id = 0, cs_next_id = id0, cs_out_bytes = 0, cs_cur_key = None,
        cs_kept_baseline = False, cs_last_written = None, cs_outputs = [], cs_files = files0\<rparr> = Inr st1 \<and>
     finish_output L st1 = Inr st \<and> cs_inv L opts id0 files0 outs [] st \<and>
     entries_sorted (concat (map snd outs)) \<and>
     set (concat (map snd outs)) = survivors min_snap bottom (set es) \<and>
     sorted_wrt keys_below (map snd outs)"
proof -
  let ?st0 = "\<lparr>cs_builder = None, cs_builder_id = 0, cs_next_id = id0, cs_out_bytes = 0, cs_cur_key = None,
        cs_kept_baseline = False, cs_last_written = None, cs_outputs = [], cs_files = files0\<rparr>"
  have inv0: "cs_inv L opts id0 files0 [] [] ?st0" by (simp add: cs_inv_def)
  obtain st1 outs cur where 1: "each_ok (compact_entry L opts min_snap bottom) es ?st0 = Inr st1"
    "cs_inv L opts id0 files0 outs cur st1"
    "concat (map snd outs) @ cur = gc min_snap bottom None False None es"
    "sorted_wrt keys_below (map snd outs @ [cur])"
    using compact_loop [OF inv0 ord, of min_snap bottom] by auto
  let ?outs = "if cur = [] then outs else outs @ [(id0 + length outs, cur)]"
  obtain st where 2: "finish_output L st1 = Inr st" "cs_inv L opts id0 files0 ?outs [] st"
    using finish_output_ok [OF 1(2)] by blast
  have all: "concat (map snd ?outs) = gc min_snap bottom None False None es" using 1(3) by auto
  have "sorted_wrt keys_below (map snd ?outs)" using 1(4) by (auto simp: sorted_wrt_append)
  moreover have "set (concat (map snd ?outs)) = survivors min_snap bottom (set es)"
      "entries_sorted (concat (map snd ?outs))"
    unfolding all by (rule gc_all [OF ord sv])+
  ultimately show ?thesis using 1(1) 2 by blast
qed

end
