(* ===== verification/Db_Inv.thy ===== *)
theory Db_Inv
  imports Db_Compact
begin

text \<open>
  The invariant of the storage engine and what reads return under it. The invariant relates a
  database to the list of all writes it has acknowledged; a read at any sequence number not below
  the oldest live snapshot returns the state after that many writes.
\<close>

section \<open>Searching sources from new to old\<close>

text \<open>
  \<open>A\<close> is searched before \<open>B\<close>: whatever \<open>B\<close> holds of a key above a version in \<open>A\<close> is in \<open>A\<close> too.
\<close>

definition up_closed :: "entry set \<Rightarrow> entry set \<Rightarrow> bool" where
  "up_closed A B \<longleftrightarrow> (\<forall>k s v s' v'. (k, s, v) \<in> A \<longrightarrow> (k, s', v') \<in> B \<longrightarrow> s < s' \<longrightarrow> (k, s', v') \<in> A)"

lemma up_closedD: "up_closed A B \<Longrightarrow> (k, s, v) \<in> A \<Longrightarrow> (k, s', v') \<in> B \<Longrightarrow> s < s' \<Longrightarrow> (k, s', v') \<in> A"
  unfolding up_closed_def by blast

lemma up_closed_Union: "(\<forall>B \<in> Bs. up_closed A B) \<Longrightarrow> up_closed A (\<Union> Bs)"
  unfolding up_closed_def by blast

lemma up_closed_empty [simp]: "up_closed {} B" "up_closed A {}"
  by (simp_all add: up_closed_def)

fun or_else :: "'a option \<Rightarrow> 'a option \<Rightarrow> 'a option" where
  "or_else None r = r"
| "or_else (Some x) r = Some x"

lemma newest_union:
  assumes "newest A k sn ra" "newest B k sn rb" "up_closed A B"
  shows "newest (A \<union> B) k sn (or_else ra rb)"
proof (cases ra)
  case None
  then have A: "sn < s" if "(k, s, v) \<in> A" for s v using assms(1) that by auto
  show ?thesis
  proof (cases rb)
    case rb: None
    then show ?thesis using None A assms(2) by auto
  next
    case (Some q)
    then show ?thesis using None A assms(2) by (cases q) fastforce
  qed
next
  case (Some p)
  obtain s v where p: "p = (s, v)" by (cases p)
  have in_A: "(k, s, v) \<in> A" "s \<le> sn" and max: "s' \<le> s" if "(k, s', v') \<in> A" "s' \<le> sn" for s' v'
    using assms(1) that Some p by auto
  have A: "(k, s, v) \<in> A" "s \<le> sn" using assms(1) Some p by auto
  have "s' \<le> s" if "(k, s', v') \<in> A \<union> B" "s' \<le> sn" for s' v'
  proof (rule ccontr)
    assume "\<not> s' \<le> s"
    then have "(k, s', v') \<in> A" using up_closedD [OF assms(3) A(1)] that by auto
    then show False using max [of s' v'] that(2) \<open>\<not> s' \<le> s\<close> by blast
  qed
  then show ?thesis using A Some p by auto
qed

section \<open>What a table, a level and a database hold\<close>

definition table_entries :: "sst_lib \<Rightarrow> table_files \<Rightarrow> ss_table \<Rightarrow> entry list" where
  "table_entries L files t = (case sst_iter L files t of Inl _ \<Rightarrow> [] | Inr es \<Rightarrow> es)"

definition good_table :: "sst_lib \<Rightarrow> options \<Rightarrow> table_files \<Rightarrow> ss_table \<Rightarrow> bool" where
  "good_table L opts files t \<longleftrightarrow>
     table_holds L (block_bytes opts) (bits_per_key opts) files t (table_entries L files t)"

definition level_set :: "sst_lib \<Rightarrow> table_files \<Rightarrow> ss_table list \<Rightarrow> entry set" where
  "level_set L files ts = (\<Union>t \<in> set ts. set (table_entries L files t))"

lemma level_setE:
  assumes "e \<in> level_set L files ts"
  obtains i where "i < length ts" "e \<in> set (table_entries L files (ts ! i))"
  using assms unfolding level_set_def by (metis UN_E in_set_conv_nth)

lemma table_holds_good:
  assumes "table_holds L (block_bytes opts) (bits_per_key opts) files t es"
  shows "good_table L opts files t" "table_entries L files t = es"
  using assms sst_iter_entries [OF assms] by (simp_all add: good_table_def table_entries_def)

lemma good_table_get:
  "good_table L opts files t \<Longrightarrow> sst_get L files t key sn = Inr (lookup_at (table_entries L files t) key sn)"
  unfolding good_table_def by (rule sst_get_lookup)

lemma good_table_iter: "good_table L opts files t \<Longrightarrow> sst_iter L files t = Inr (table_entries L files t)"
  unfolding good_table_def by (rule sst_iter_entries)

lemma good_table_facts:
  assumes "good_table L opts files t"
  shows "table_entries L files t \<noteq> []" "entries_sorted (table_entries L files t)"
    "x \<in> set (table_entries L files t) \<Longrightarrow> st_min_key t \<le> fst x \<and> fst x \<le> st_max_key t"
    "sst_open L files (st_id t) = Inr t"
    "\<exists>x \<in> set (table_entries L files t). fst x = st_min_key t"
    "\<exists>x \<in> set (table_entries L files t). fst x = st_max_key t"
proof -
  note facts = table_holds_entries [OF assms [unfolded good_table_def]]
  show "table_entries L files t \<noteq> []" "entries_sorted (table_entries L files t)"
    "sst_open L files (st_id t) = Inr t"
    using facts by simp_all
  show "x \<in> set (table_entries L files t) \<Longrightarrow> st_min_key t \<le> fst x \<and> fst x \<le> st_max_key t"
    using entries_sorted_range [OF facts(2)] facts(3,4) by simp
  show "\<exists>x \<in> set (table_entries L files t). fst x = st_min_key t"
    using facts(1,3) hd_in_set by metis
  show "\<exists>x \<in> set (table_entries L files t). fst x = st_max_key t"
    using facts(1,4) last_in_set by metis
qed

lemma table_entries_file: "files (st_id t) = files' (st_id t) \<Longrightarrow> table_entries L files t = table_entries L files' t"
proof -
  assume eq: "files (st_id t) = files' (st_id t)"
  have "read_block L files t i = read_block L files' t i" for i by (simp add: read_block_def eq)
  then have "iter_from L files t i = iter_from L files' t i" for i
  proof (induction "length (ti_blocks (st_index t)) - i" arbitrary: i)
    case 0
    then show ?case by (simp add: iter_from.simps [of L _ t i])
  next
    case (Suc d)
    then have "iter_from L files t (i + 1) = iter_from L files' t (i + 1)" by simp
    then show ?case
      using Suc.prems by (simp add: iter_from.simps [of L _ t i] split: sum.splits)
  qed
  then show ?thesis by (simp add: table_entries_def sst_iter_def)
qed

lemma good_table_file:
  assumes "files (st_id t) = files' (st_id t)"
  shows "good_table L opts files t \<longleftrightarrow> good_table L opts files' t"
  unfolding good_table_def table_entries_file [of files t files', OF assms]
  by (rule table_holds_file [of files t files', OF assms])

lemma newest_table:
  "good_table L opts files t \<Longrightarrow>
   newest (set (table_entries L files t)) k sn (lookup_at (table_entries L files t) k sn)"
  using newest_lookup_at entries_sorted_ordered good_table_facts(2) by blast

lemma newest_memtable: "mt_ok m \<Longrightarrow> newest (set (mt_iter m)) k sn (lookup_at (mt_iter m) k sn)"
  using newest_lookup_at entries_sorted_ordered mt_iter_sorted by blast

section \<open>Lookups in a level\<close>

lemma newest_best:
  assumes "newest B k sn best" "newest A k sn r"
  shows "newest (A \<union> B) k sn
     (case r of None \<Rightarrow> best
      | Some (s, v) \<Rightarrow> (case best of None \<Rightarrow> Some (s, v) | Some (bs, _) \<Rightarrow> if s > bs then Some (s, v) else best))"
proof (cases r)
  case None
  then show ?thesis using assms by (cases best) (auto, (metis leD)+)
next
  case (Some p)
  obtain s v where p: "p = (s, v)" by (cases p)
  have A: "(k, s, v) \<in> A" "s \<le> sn" and maxA: "\<forall>s' v'. (k, s', v') \<in> A \<longrightarrow> s' \<le> sn \<longrightarrow> s' \<le> s"
    using assms(2) by (simp_all add: Some p)
  show ?thesis
  proof (cases best)
    case None
    then have "\<forall>s' v'. (k, s', v') \<in> B \<longrightarrow> sn < s'" using assms(1) by simp
    then show ?thesis using A maxA Some p None by (auto dest: leD)
  next
    case (Some q)
    obtain bs bv where q: "q = (bs, bv)" by (cases q)
    have B: "(k, bs, bv) \<in> B" "bs \<le> sn" and maxB: "\<forall>s' v'. (k, s', v') \<in> B \<longrightarrow> s' \<le> sn \<longrightarrow> s' \<le> bs"
      using assms(1) by (simp_all add: Some q)
    show ?thesis
    proof (cases "s > bs")
      case True
      then have "\<forall>s' v'. (k, s', v') \<in> A \<union> B \<longrightarrow> s' \<le> sn \<longrightarrow> s' \<le> s"
        using maxA maxB by (meson Un_iff less_imp_le order.trans)
      then show ?thesis using True A Some q \<open>r = Some p\<close> p by simp
    next
      case False
      then have "\<forall>s' v'. (k, s', v') \<in> A \<union> B \<longrightarrow> s' \<le> sn \<longrightarrow> s' \<le> bs"
        using maxA maxB by (meson Un_iff leI order.trans)
      then show ?thesis using False B Some q \<open>r = Some p\<close> p by simp
    qed
  qed
qed

lemma best_l0_newest:
  assumes "\<forall>t \<in> set ts. good_table L opts files t" "newest B key sn best"
  shows "\<exists>r. best_l0 L files key sn ts best = Inr r \<and> newest (level_set L files ts \<union> B) key sn r"
  using assms
proof (induction ts arbitrary: B best)
  case Nil
  then show ?case by (auto simp: level_set_def)
next
  case (Cons t ts)
  let ?E = "set (table_entries L files t)"
  have t: "good_table L opts files t" using Cons.prems by simp
  note newest_best [OF Cons.prems(2) newest_table [OF t]]
  from Cons.IH [OF _ this] Cons.prems(1) obtain r where
    "best_l0 L files key sn (t # ts) best = Inr r" "newest (level_set L files ts \<union> (?E \<union> B)) key sn r"
    by (auto simp: good_table_get [OF t])
  moreover have "level_set L files ts \<union> (?E \<union> B) = level_set L files (t # ts) \<union> B"
    by (auto simp: level_set_def)
  ultimately show ?case by auto
qed

definition level_sorted :: "ss_table list \<Rightarrow> bool" where
  "level_sorted ts \<longleftrightarrow> sorted_wrt (\<lambda>a b. st_max_key a < st_min_key b) ts"

text \<open>In a level whose tables do not overlap, one table decides.\<close>

lemma best_deep_newest:
  assumes good: "\<forall>t \<in> set ts. good_table L opts files t" and sorted: "level_sorted ts"
  shows "\<exists>r. best_deep L files key sn ts = Inr r \<and> newest (level_set L files ts) key sn r"
proof -
  let ?P = "\<lambda>t. st_max_key t < key"
  let ?i = "partition_point ?P ts"
  have range: "st_min_key t \<le> k \<and> k \<le> st_max_key t" if "t \<in> set ts" "(k, s, v) \<in> set (table_entries L files t)" for t k s v
    using good_table_facts(3) [of L opts files t "(k, s, v)"] good that by auto
  have before: "st_max_key (ts ! j) < key" if "j < ?i" for j
    using takeWhile_nth_P [of j ?P ts] that by (simp add: partition_point_def)
  have le: "?i \<le> length ts" by (simp add: partition_point_def length_takeWhile_le)
  have others: "j = ?i" if j: "j < length ts" "(key, s, v) \<in> set (table_entries L files (ts ! j))" for j s v
  proof (rule ccontr)
    assume "j \<noteq> ?i"
    then consider "j < ?i" | "?i < j" by linarith
    then show False
    proof cases
      case 1
      then show False using before [OF 1] range [of "ts ! j" key s v] j by auto
    next
      case 2
      have "\<not> ?P (ts ! ?i)"
        using 2 j(1) nth_length_takeWhile [of ?P ts] by (simp add: partition_point_def)
      moreover have "st_max_key (ts ! ?i) < st_min_key (ts ! j)"
        using sorted 2 j(1) by (auto simp: level_sorted_def sorted_wrt_iff_nth_less)
      ultimately show False using range [of "ts ! j" key s v] j by auto
    qed
  qed
  show ?thesis
  proof (cases "?i < length ts \<and> st_min_key (ts ! ?i) \<le> key")
    case True
    then have t: "good_table L opts files (ts ! ?i)" using good by simp
    have "newest (level_set L files ts) key sn (lookup_at (table_entries L files (ts ! ?i)) key sn)"
    proof -
      have same: "(key, s, v) \<in> level_set L files ts \<longleftrightarrow> (key, s, v) \<in> set (table_entries L files (ts ! ?i))" for s v
      proof
        assume "(key, s, v) \<in> level_set L files ts"
        then obtain j where j: "j < length ts" "(key, s, v) \<in> set (table_entries L files (ts ! j))"
          by (rule level_setE)
        show "(key, s, v) \<in> set (table_entries L files (ts ! ?i))" using others [OF j] j by simp
      next
        assume "(key, s, v) \<in> set (table_entries L files (ts ! ?i))"
        then show "(key, s, v) \<in> level_set L files ts" using True unfolding level_set_def by auto
      qed
      show ?thesis
        using newest_table [OF t, of key sn]
        by (cases "lookup_at (table_entries L files (ts ! ?i)) key sn") (auto simp: same)
    qed
    then show ?thesis using True by (simp add: best_deep_def good_table_get [OF t] Let_def)
  next
    case False
    have "(key, s, v) \<notin> level_set L files ts" for s v
    proof
      assume "(key, s, v) \<in> level_set L files ts"
      then obtain j where j: "j < length ts" "(key, s, v) \<in> set (table_entries L files (ts ! j))"
        by (rule level_setE)
      then have "j = ?i" by (rule others)
      then show False using False j range [of "ts ! j" key s v] by auto
    qed
    then show ?thesis using False by (auto simp: best_deep_def Let_def)
  qed
qed

section \<open>The invariant\<close>

definition sources :: "storage_lib \<Rightarrow> db \<Rightarrow> entry set list" where
  "sources L db = set (mt_iter (db_mem db)) # map (level_set (lib_sst L) (db_files db)) (db_levels db)"

abbreviation all_versions :: "storage_lib \<Rightarrow> db \<Rightarrow> entry set" where
  "all_versions L db \<equiv> \<Union> (set (sources L db))"

definition tables_ok :: "storage_lib \<Rightarrow> db \<Rightarrow> bool" where
  "tables_ok L db \<longleftrightarrow>
     db_levels db \<noteq> [] \<and>
     (\<forall>t \<in> set (concat (db_levels db)).
        good_table (lib_sst L) (db_opts db) (db_files db) t \<and> st_id t < next_table_id (db_manifest db)) \<and>
     distinct (map st_id (concat (db_levels db))) \<and>
     (\<forall>ts \<in> set (tl (db_levels db)). level_sorted ts)"

text \<open>
  \<open>ops\<close> is the list of all writes: every version held is one of them, sources are searched from
  new to old, and every read at or above the oldest live snapshot sees the state of that moment.
\<close>

definition visible_ok :: "storage_lib \<Rightarrow> (bytes \<times> bytes option) list \<Rightarrow> db \<Rightarrow> bool" where
  "visible_ok L ops db \<longleftrightarrow>
     (\<forall>k sn r. min_snapshot db \<le> sn \<longrightarrow> newest (all_versions L db) k sn r \<longrightarrow>
        live_value r = state_at ops sn k)"

definition db_inv :: "storage_lib \<Rightarrow> (bytes \<times> bytes option) list \<Rightarrow> db \<Rightarrow> bool" where
  "db_inv L ops db \<longleftrightarrow>
     db_seq db = length ops \<and> mt_ok (db_mem db) \<and> tables_ok L db \<and>
     all_versions L db \<subseteq> versions_of ops \<and> sorted_wrt up_closed (sources L db) \<and>
     visible_ok L ops db \<and>
     bt_ok (db_snapshots db) \<and> (\<forall>(s, c) \<in> set (db_snapshots db). s \<le> length ops \<and> 0 < c)"

lemma min_snapshot_le:
  assumes "db_inv L ops db"
  shows "min_snapshot db \<le> length ops" and "(s, c) \<in> set (db_snapshots db) \<Longrightarrow> min_snapshot db \<le> s"
  using assms by (fastforce simp: db_inv_def min_snapshot_def bt_ok_def split: list.splits)+

lemma db_inv_single_valued: "db_inv L ops db \<Longrightarrow> single_valued_versions (all_versions L db)"
  unfolding db_inv_def using single_valued_versions_subset single_valued_versions_of by blast

section \<open>Reads\<close>

lemma get_levels_newest:
  assumes "\<forall>t \<in> set (concat levels). good_table L opts files t"
    and "\<forall>ts \<in> set (if li = 0 then tl levels else levels). level_sorted ts"
    and "sorted_wrt up_closed (map (level_set L files) levels)"
  shows "\<exists>r. get_levels L files key sn li levels = Inr (live_value r) \<and>
     newest (\<Union> (set (map (level_set L files) levels))) key sn r"
  using assms
proof (induction levels arbitrary: li)
  case Nil
  then show ?case by (intro exI [of _ None]) simp
next
  case (Cons ts levels)
  have good: "\<forall>t \<in> set ts. good_table L opts files t" using Cons.prems(1) by simp
  obtain r where r: "(if li = 0 then best_l0 L files key sn ts None else best_deep L files key sn ts) = Inr r"
    and newest: "newest (level_set L files ts) key sn r"
  proof (cases "li = 0")
    case True
    have "newest {} key sn None" by simp
    from best_l0_newest [OF good this] show ?thesis using that True by auto
  next
    case False
    then have "level_sorted ts" using Cons.prems(2) by simp
    from best_deep_newest [OF good this, of key sn] show ?thesis using that False by auto
  qed
  have "\<forall>ts \<in> set levels. level_sorted ts" using Cons.prems(2) by (auto split: if_splits)
  then obtain r' where r': "get_levels L files key sn (Suc li) levels = Inr (live_value r')"
      "newest (\<Union> (set (map (level_set L files) levels))) key sn r'"
    using Cons.IH [of "Suc li"] Cons.prems by auto
  have "up_closed (level_set L files ts) (\<Union> (set (map (level_set L files) levels)))"
    using Cons.prems(3) by (intro up_closed_Union) simp
  then have "newest (\<Union> (set (map (level_set L files) (ts # levels)))) key sn (or_else r r')"
    using newest_union [OF newest r'(2)] by simp
  moreover have "get_levels L files key sn li (ts # levels) = Inr (live_value (or_else r r'))"
    using r r'(1) by (cases r) (auto split: prod.splits)
  ultimately show ?case by blast
qed

lemma get_at_newest:
  assumes inv: "db_inv L ops db"
  shows "\<exists>r. get_at L db key sn = Inr (live_value r) \<and> newest (all_versions L db) key sn r"
proof -
  let ?files = "db_files db"
  let ?deep = "map (level_set (lib_sst L) ?files) (db_levels db)"
  have ok: "mt_ok (db_mem db)" and tables: "tables_ok L db" and up: "sorted_wrt up_closed (sources L db)"
    using inv by (simp_all add: db_inv_def)
  obtain r where r: "get_levels (lib_sst L) ?files key sn 0 (db_levels db) = Inr (live_value r)"
      "newest (\<Union> (set ?deep)) key sn r"
    using get_levels_newest [of "db_levels db" "lib_sst L" "db_opts db" ?files 0 key sn] tables up
    by (auto simp: tables_ok_def sources_def)
  let ?m = "lookup_at (mt_iter (db_mem db)) key sn"
  have "up_closed (set (mt_iter (db_mem db))) (\<Union> (set ?deep))"
    using up by (intro up_closed_Union) (simp add: sources_def)
  then have "newest (all_versions L db) key sn (or_else ?m r)"
    using newest_union [OF newest_memtable [OF ok] r(2)] by (simp add: sources_def)
  moreover have "get_at L db key sn = Inr (live_value (or_else ?m r))"
    using r(1) by (cases ?m) (auto simp: get_at_def mt_get_lookup_at split: prod.splits)
  ultimately show ?thesis by blast
qed

lemma get_at_correct:
  "db_inv L ops db \<Longrightarrow> min_snapshot db \<le> sn \<Longrightarrow> get_at L db key sn = Inr (state_at ops sn key)"
  using get_at_newest [of L ops db key sn] by (auto simp: db_inv_def visible_ok_def)

lemma db_get_correct: "db_inv L ops db \<Longrightarrow> db_get L db key = Inr (state_at ops (length ops) key)"
  using get_at_correct [of L ops db "length ops" key] min_snapshot_le(1) [of L ops db]
  by (simp add: db_get_def db_inv_def)

section \<open>Scans\<close>

lemma iter_all_good:
  "\<forall>t \<in> set ts. good_table L opts files t \<Longrightarrow> iter_all L files ts = Inr (map (table_entries L files) ts)"
  by (induction ts) (simp_all add: good_table_iter [of L opts files])

text \<open>The live key-value pairs of a visible stream inside a range.\<close>

definition in_range :: "bytes \<Rightarrow> bytes option \<Rightarrow> bytes \<Rightarrow> bool" where
  "in_range start stop k \<longleftrightarrow> start \<le> k \<and> (case stop of None \<Rightarrow> True | Some e \<Rightarrow> k < e)"

definition live_pairs :: "bytes \<Rightarrow> bytes option \<Rightarrow> (bytes \<times> bytes option) list \<Rightarrow> (bytes \<times> bytes) list" where
  "live_pairs start stop vis =
     List.map_filter (\<lambda>(k, v). if in_range start stop k then map_option (Pair k) v else None) vis"

lemma live_pairs_simps [simp]:
  "live_pairs start stop [] = []"
  "live_pairs start stop ((k, v) # vis) =
     (if in_range start stop k then (case v of None \<Rightarrow> [] | Some v \<Rightarrow> [(k, v)]) else []) @
     live_pairs start stop vis"
  by (auto simp: live_pairs_def map_filter_simps split: option.splits)

lemma live_pairs_beyond:
  "\<forall>(k, v) \<in> set vis. \<not> in_range start stop k \<Longrightarrow> live_pairs start stop vis = []"
  by (induction vis) auto

lemma scan_visible_eq:
  assumes "sorted_wrt (<) (map fst vis)" "length out < max 1 limit"
  shows "scan_visible start stop limit out vis = take (max 1 limit) (out @ live_pairs start stop vis)"
  using assms
proof (induction start stop limit out vis rule: scan_visible.induct)
  case (1 start stop limit out)
  then show ?case by simp
next
  case (2 start stop limit out k v rest)
  consider (low) "k < start" | (high) "\<not> k < start" "\<not> in_range start stop k"
    | (mid) "\<not> k < start" "in_range start stop k" by blast
  then show ?case
  proof cases
    case low
    then have "\<not> in_range start stop k" by (auto simp: in_range_def)
    then show ?thesis using 2 low by simp
  next
    case high
    then obtain e where e: "stop = Some e" "e \<le> k" by (cases stop) (auto simp: in_range_def)
    have "live_pairs start stop rest = []"
      using "2.prems"(1) e by (intro live_pairs_beyond) (fastforce simp: in_range_def)
    then show ?thesis using high e "2.prems"(2) by simp
  next
    case mid
    then have stop: "\<not> (case stop of None \<Rightarrow> False | Some e \<Rightarrow> k \<ge> e)"
      by (auto simp: in_range_def split: option.splits)
    show ?thesis
    proof (cases v)
      case None
      then show ?thesis using "2.IH"(2) [OF mid(1) stop None] "2.prems" mid stop by simp
    next
      case (Some x)
      show ?thesis
      proof (cases "length (out @ [(k, x)]) \<ge> limit")
        case True
        then have "max 1 limit = length (out @ [(k, x)])" using "2.prems"(2) by (simp add: max_def split: if_splits)
        then show ?thesis using mid stop Some True by simp
      next
        case False
        then show ?thesis
          using "2.IH"(3) [OF mid(1) stop Some refl False] "2.prems" mid stop Some by (simp add: Let_def)
      qed
    qed
  qed
qed

lemma set_live_pairs:
  "(k, v) \<in> set (live_pairs start stop vis) \<longleftrightarrow> in_range start stop k \<and> (k, Some v) \<in> set vis"
proof (induction vis)
  case Nil
  then show ?case by simp
next
  case (Cons e vis)
  obtain k' v' where e: "e = (k', v')" by (cases e)
  show ?case
    unfolding e live_pairs_simps set_append Un_iff Cons.IH
    by (cases v'; cases "k = k'"; cases "in_range start stop k'") simp_all
qed

lemma sorted_live_pairs:
  "sorted_wrt (<) (map fst vis) \<Longrightarrow> sorted_wrt (<) (map fst (live_pairs start stop vis))"
proof (induction vis)
  case Nil
  then show ?case by simp
next
  case (Cons e vis)
  obtain k v where e: "e = (k, v)" by (cases e)
  have "k < k'" if "(k', v') \<in> set (live_pairs start stop vis)" for k' v'
    using Cons.prems that by (force simp: e set_live_pairs)
  then show ?case using Cons by (cases v) (auto simp: e)
qed

text \<open>
  A scan returns the first live pairs of the range in key order; a limit of zero returns one.
\<close>

lemma scan_at_correct:
  assumes inv: "db_inv L ops db" and sn: "min_snapshot db \<le> sn"
  shows "\<exists>pairs. scan_at L db start stop limit sn = Inr (take (max 1 limit) pairs) \<and>
     sorted_wrt (<) (map fst pairs) \<and>
     set pairs = {(k, v). in_range start stop k \<and> state_at ops sn k = Some v}"
proof -
  let ?files = "db_files db"
  let ?ts = "concat (db_levels db)"
  let ?srcs = "mt_iter (db_mem db) # map (table_entries (lib_sst L) ?files) ?ts"
  let ?es = "merge_iter ?srcs"
  let ?vis = "visible_iter sn None ?es"
  have good: "\<forall>t \<in> set ?ts. good_table (lib_sst L) (db_opts db) ?files t" and ok: "mt_ok (db_mem db)"
    using inv by (simp_all add: db_inv_def tables_ok_def)
  have "\<forall>src \<in> set ?srcs. entries_ordered src"
    using good ok good_table_facts(2) mt_iter_sorted entries_sorted_ordered by fastforce
  then have ord: "entries_ordered ?es" by (rule merge_iter_ordered)
  have all: "set ?es = all_versions L db"
    by (auto simp: set_merge_iter sources_def level_set_def)
  have look: "map_of ?vis k = map_option snd (lookup_at ?es k sn)" for k
    by (rule visible_iter_map_of [OF ord])
  have live: "(k, Some v) \<in> set ?vis \<longleftrightarrow> state_at ops sn k = Some v" for k v
  proof -
    have "newest (all_versions L db) k sn (lookup_at ?es k sn)"
      using newest_lookup_at [OF ord] unfolding all .
    then have st: "live_value (lookup_at ?es k sn) = state_at ops sn k"
      using inv sn by (simp add: db_inv_def visible_ok_def)
    have "(k, Some v) \<in> set ?vis \<longleftrightarrow> map_of ?vis k = Some (Some v)"
      using visible_iter_sorted [OF ord, of sn] by (simp add: map_of_eq_Some_iff strict_sorted_iff)
    also have "\<dots> \<longleftrightarrow> live_value (lookup_at ?es k sn) = Some v"
      unfolding look by (cases "lookup_at ?es k sn") auto
    finally show ?thesis by (simp add: st)
  qed
  let ?pairs = "live_pairs start stop ?vis"
  have "scan_at L db start stop limit sn = Inr (take (max 1 limit) ?pairs)"
    using scan_visible_eq [OF visible_iter_sorted [OF ord], of "[]" limit start stop sn]
    by (simp add: scan_at_def iter_all_good [OF good])
  moreover have "set ?pairs = {(k, v). in_range start stop k \<and> state_at ops sn k = Some v}"
    using live by (auto simp: set_live_pairs)
  ultimately show ?thesis
    using sorted_live_pairs [OF visible_iter_sorted [OF ord]] by blast
qed

end
