(* ===== verification/Db_Ops.thy ===== *)
theory Db_Ops
  imports Db_Inv
begin

text \<open>
  Every operation of the engine keeps the invariant: snapshots, writes and flushes here, with the
  argument about versions that a compaction rests on.
\<close>

section \<open>What the invariant depends on\<close>

lemma state_at_full: "length ops \<le> n \<Longrightarrow> state_at ops n = state_at ops (length ops)"
  by (simp add: state_at_def)

lemma db_inv_cong:
  assumes "db_mem db' = db_mem db" "db_levels db' = db_levels db" "db_files db' = db_files db"
    "db_opts db' = db_opts db" "db_seq db' = db_seq db" "db_snapshots db' = db_snapshots db"
    "next_table_id (db_manifest db') = next_table_id (db_manifest db)"
  shows "db_inv L ops db' \<longleftrightarrow> db_inv L ops db"
  by (simp only: db_inv_def tables_ok_def visible_ok_def sources_def min_snapshot_def assms)

section \<open>Snapshots\<close>

lemma min_snapshot_mem: "min_snapshot db = db_seq db \<or> min_snapshot db \<in> fst ` set (db_snapshots db)"
  by (auto simp: min_snapshot_def split: list.splits)

lemma snapshot_registry_inv:
  assumes inv: "db_inv L ops db" and ok: "bt_ok reg" and pos: "\<forall>(s, c) \<in> set reg. 0 < c"
    and keys: "fst ` set reg \<subseteq> insert (db_seq db) (fst ` set (db_snapshots db))"
  shows "db_inv L ops (db\<lparr>db_snapshots := reg\<rparr>)"
proof -
  have seq: "db_seq db = length ops" using inv by (simp add: db_inv_def)
  let ?db = "db\<lparr>db_snapshots := reg\<rparr>"
  have "min_snapshot db \<le> min_snapshot ?db"
    using min_snapshot_mem [of ?db] keys min_snapshot_le [OF inv] seq by fastforce
  then have "visible_ok L ops ?db"
    using inv by (auto simp: db_inv_def visible_ok_def sources_def)
  moreover have "s \<le> length ops" if "(s, c) \<in> set reg" for s c
  proof -
    have "s \<in> insert (db_seq db) (fst ` set (db_snapshots db))" using keys that by force
    then show ?thesis using inv seq by (fastforce simp: db_inv_def)
  qed
  ultimately show ?thesis
    using inv ok pos by (auto simp: db_inv_def tables_ok_def sources_def)
qed

lemma set_bt_insert: "set (bt_insert k v m) \<subseteq> insert (k, v) (set m)"
  by (induction m) auto

lemma db_snapshot_inv:
  assumes "db_inv L ops db"
  shows "fst (db_snapshot db) = length ops" "db_inv L ops (snd (db_snapshot db))"
    "bt_get (db_snapshots (snd (db_snapshot db))) (length ops) \<noteq> None"
proof -
  have seq: "db_seq db = length ops" and ok: "bt_ok (db_snapshots db)"
    and pos: "\<forall>(s, c) \<in> set (db_snapshots db). 0 < c"
    using assms by (auto simp: db_inv_def)
  show "fst (db_snapshot db) = length ops" by (simp add: db_snapshot_def Let_def seq)
  show "bt_get (db_snapshots (snd (db_snapshot db))) (length ops) \<noteq> None"
    by (simp add: db_snapshot_def Let_def seq)
  show "db_inv L ops (snd (db_snapshot db))"
    unfolding db_snapshot_def Let_def snd_conv
    using pos set_bt_insert
    by (intro snapshot_registry_inv [OF assms]) (auto simp: ok dest!: subsetD [OF set_bt_insert])
qed

lemma drop_snapshot_inv:
  assumes "db_inv L ops db"
  shows "db_inv L ops (drop_snapshot s db)"
proof (cases "bt_get (db_snapshots db) s")
  case None
  then show ?thesis using assms by (simp add: drop_snapshot_def)
next
  case (Some c)
  have ok: "bt_ok (db_snapshots db)" and pos: "\<forall>(s, c) \<in> set (db_snapshots db). 0 < c"
    using assms by (auto simp: db_inv_def)
  have mem: "(s, c) \<in> set (db_snapshots db)" using Some by (rule bt_get_in_set)
  let ?reg = "if c - 1 = 0 then bt_remove s (db_snapshots db) else bt_insert s (c - 1) (db_snapshots db)"
  have "\<forall>(s, c) \<in> set ?reg. 0 < c"
    using pos by (auto simp: bt_remove_def dest!: subsetD [OF set_bt_insert])
  moreover have "fst ` set ?reg \<subseteq> insert (db_seq db) (fst ` set (db_snapshots db))"
  proof (cases "c - 1 = 0")
    case True
    then show ?thesis by (auto simp: bt_remove_def)
  next
    case False
    have "s \<in> fst ` set (db_snapshots db)" using imageI [OF mem, of fst] by simp
    then show ?thesis using False by auto
  qed
  ultimately show ?thesis
    using snapshot_registry_inv [OF assms, of ?reg] ok Some by (simp add: drop_snapshot_def)
qed

section \<open>Writes\<close>

lemma newest_insert_latest:
  assumes V: "\<forall>k s v. (k, s, v) \<in> V \<longrightarrow> s \<le> n" and nw: "newest (insert (k, Suc n, v) V) k' sn r"
  shows "if k' = k \<and> Suc n \<le> sn then live_value r = v else newest V k' sn r"
proof (cases "k' = k \<and> Suc n \<le> sn")
  case True
  show ?thesis
  proof (cases r)
    case None
    then show ?thesis using nw True by auto
  next
    case (Some p)
    obtain s' v' where p: "p = (s', v')" by (cases p)
    have "Suc n \<le> s'" using nw True unfolding Some p newest.simps by blast
    moreover have "(k, s', v') \<in> insert (k, Suc n, v) V" using nw True unfolding Some p by simp
    ultimately have "v' = v" using V by fastforce
    then show ?thesis using True Some p by simp
  qed
next
  case False
  then show ?thesis using nw by (cases r) auto
qed

lemma insert_op_inv:
  assumes inv: "db_inv L ops db"
  shows "db_inv L (ops @ [(k, v)])
    (db\<lparr>db_mem := mt_insert k (Suc (db_seq db)) v (db_mem db), db_seq := Suc (db_seq db)\<rparr>)"
    (is "db_inv L ?ops ?db")
proof -
  let ?n = "length ops"
  have seq: "db_seq db = ?n" and mem: "mt_ok (db_mem db)" and sub: "all_versions L db \<subseteq> versions_of ops"
    using inv by (simp_all add: db_inv_def)
  have old: "s \<le> ?n" if "(k', s, v') \<in> all_versions L db" for k' s v'
    using that sub versions_of_seq by blast
  have src: "sources L ?db = insert (k, Suc ?n, v) (hd (sources L db)) # tl (sources L db)"
  proof -
    have "(k', Suc ?n, v') \<notin> set (mt_iter (db_mem db))" for k' v'
      using old [of k' "Suc ?n" v'] by (auto simp: sources_def)
    then show ?thesis by (auto simp: sources_def seq set_mt_iter_insert [OF mem])
  qed
  have hd_tl: "sources L db = hd (sources L db) # tl (sources L db)" by (simp add: sources_def)
  have all: "all_versions L ?db = insert (k, Suc ?n, v) (all_versions L db)"
    unfolding src by (subst (2) hd_tl) simp
  have "sorted_wrt up_closed (sources L ?db)"
  proof -
    have "up_closed (insert (k, Suc ?n, v) (hd (sources L db))) B" if B: "B \<in> set (tl (sources L db))" for B
    proof -
      have "up_closed (hd (sources L db)) B"
        using inv B unfolding db_inv_def by (subst (asm) hd_tl) simp
      moreover have "B \<in> set (sources L db)" using B by (simp add: list.set_sel(2) sources_def)
      then have "s' \<le> ?n" if "(k', s', v') \<in> B" for k' s' v' using old that by blast
      ultimately show ?thesis unfolding up_closed_def by fastforce
    qed
    moreover have "sorted_wrt up_closed (tl (sources L db))"
      using inv unfolding db_inv_def by (subst (asm) hd_tl) simp
    ultimately show ?thesis unfolding src by simp
  qed
  moreover have "visible_ok L ?ops ?db"
    unfolding visible_ok_def all
  proof (intro allI impI)
    fix k' sn r
    assume min: "min_snapshot ?db \<le> sn" and nw: "newest (insert (k, Suc ?n, v) (all_versions L db)) k' sn r"
    have min': "min_snapshot db \<le> sn"
      using min min_snapshot_le(1) [OF inv] by (auto simp: min_snapshot_def seq split: list.splits)
    have step: "if k' = k \<and> Suc ?n \<le> sn then live_value r = v else newest (all_versions L db) k' sn r"
      using old by (intro newest_insert_latest [OF _ nw]) blast
    have st: "state_at ?ops sn k' = (if k' = k \<and> Suc ?n \<le> sn then v else state_at ops sn k')"
    proof (cases "Suc ?n \<le> sn")
      case True
      then have "state_at ?ops sn = (state_at ops ?n)(k := v)"
        using state_at_full [of ?ops sn] state_at_snoc by simp
      then show ?thesis using True state_at_full [of ops sn] by simp
    next
      case False
      then show ?thesis by (simp add: state_at_append)
    qed
    show "live_value r = state_at ?ops sn k'"
      using step st inv min' by (auto simp: db_inv_def visible_ok_def split: if_splits)
  qed
  moreover have "all_versions L ?db \<subseteq> versions_of ?ops"
    unfolding all using sub by (auto simp: versions_of_snoc)
  moreover have "tables_ok L ?db" using inv by (simp add: db_inv_def tables_ok_def)
  moreover have "bt_ok (db_snapshots db)" "\<forall>(s, c) \<in> set (db_snapshots db). s \<le> length ?ops \<and> 0 < c"
    using inv unfolding db_inv_def by auto
  ultimately show ?thesis
    unfolding db_inv_def using mem seq by simp
qed

definition apply_ops :: "(bytes \<times> bytes option) list \<Rightarrow> db \<Rightarrow> db" where
  "apply_ops new db =
     db\<lparr>db_mem := insert_ops (Suc (db_seq db)) new (db_mem db), db_seq := db_seq db + length new\<rparr>"

lemma apply_ops_inv: "db_inv L ops db \<Longrightarrow> db_inv L (ops @ new) (apply_ops new db)"
proof (induction new arbitrary: ops db)
  case Nil
  then show ?case by (simp add: apply_ops_def)
next
  case (Cons op new)
  obtain k v where op: "op = (k, v)" by (cases op)
  from Cons.IH [OF insert_op_inv [OF Cons.prems, of k v]] show ?case
    by (simp add: apply_ops_def op)
qed

section \<open>Flush\<close>

text \<open>The size of the table that holds the given versions.\<close>

definition built_size :: "sst_lib \<Rightarrow> options \<Rightarrow> entry list \<Rightarrow> nat" where
  "built_size L opts es =
     (case build_table L (block_bytes opts) (bits_per_key opts) es of Inl _ \<Rightarrow> 0 | Inr (_, _, n, _, _) \<Rightarrow> n)"

text \<open>
  A level has room: tables that hold different versions of the history take, together and times the
  factor from one level to the next, less than \<open>2 ^ 64\<close> bytes.
\<close>

definition level_room :: "storage_lib \<Rightarrow> options \<Rightarrow> (bytes \<times> bytes option) list \<Rightarrow> bool" where
  "level_room L opts ops \<longleftrightarrow>
     (\<forall>ess. [] \<notin> set ess \<longrightarrow> distinct (concat ess) \<longrightarrow> set (concat ess) \<subseteq> versions_of ops \<longrightarrow>
        level_multiplier opts * sum_list (map (built_size (lib_sst L) opts) ess) < 2 ^ 64)"

text \<open>
  The table format can represent every sorted selection of the writes: what the 32-bit and 64-bit
  fields of a table and the index encoding require of the data. And the sizes of the levels stay
  within the 64 bits in which \<open>level_bytes\<close> and \<open>level_limit\<close> compute.
\<close>

definition history_fits :: "storage_lib \<Rightarrow> options \<Rightarrow> (bytes \<times> bytes option) list \<Rightarrow> bool" where
  "history_fits L opts ops \<longleftrightarrow>
     (\<forall>es. es \<noteq> [] \<longrightarrow> entries_sorted es \<longrightarrow> set es \<subseteq> versions_of ops \<longrightarrow>
        table_fits (lib_sst L) (block_bytes opts) (bits_per_key opts) es) \<and>
     level_room L opts ops"

lemma history_fits_mono:
  assumes "history_fits L opts ops" "versions_of ops' \<subseteq> versions_of ops"
  shows "history_fits L opts ops'"
  using assms unfolding history_fits_def level_room_def by (meson subset_trans)

lemma history_fits_Nil: "history_fits L opts []"
proof -
  have none: "versions_of [] = {}" by (auto simp: versions_of_def)
  have "ess = []" if "[] \<notin> set ess" "set (concat ess) \<subseteq> {}" for ess :: "Versions.entry list list"
    using that by (cases ess) auto
  then show ?thesis unfolding history_fits_def level_room_def none by fastforce
qed

lemma level_set_file:
  "\<forall>t \<in> set ts. files (st_id t) = files' (st_id t) \<Longrightarrow> level_set L files ts = level_set L files' ts"
  unfolding level_set_def using table_entries_file [of files _ files' L] by auto

lemma up_closed_Un: "up_closed A C \<Longrightarrow> up_closed B C \<Longrightarrow> up_closed (A \<union> B) C"
  unfolding up_closed_def by blast

text \<open>The database after a flush that wrote the file \<open>data\<close>, opened as \<open>t\<close>.\<close>

definition flushed :: "storage_lib \<Rightarrow> db \<Rightarrow> bytes \<Rightarrow> ss_table \<Rightarrow> db" where
  "flushed L db data t =
     (let es = mt_iter (db_mem db); m = db_manifest db; tid = next_table_id m;
          lvls = (if mf_levels m = [] then [[]] else mf_levels m);
          meta = \<lparr>tm_id = tid, tm_min_key = fst (hd es), tm_max_key = fst (last es),
                  tm_entries = length es, tm_bytes = length data\<rparr>;
          m' = m\<lparr>next_table_id := tid + 1, last_seq := db_seq db, mf_levels := lvls[0 := lvls ! 0 @ [meta]]\<rparr>
      in db\<lparr>db_files := (db_files db)(tid := Some data), db_manifest := m',
            db_mdir := manifest_save (lib_man L) m' (db_mdir db),
            db_levels := (db_levels db)[0 := db_levels db ! 0 @ [t]],
            db_mem := mt_new, db_wal := wal_reset (db_wal db)\<rparr>)"

definition flush_result :: "storage_lib \<Rightarrow> db \<Rightarrow> bytes \<Rightarrow> ss_table \<Rightarrow> bool" where
  "flush_result L db data t \<longleftrightarrow>
     (let opts = db_opts db; es = mt_iter (db_mem db); tid = next_table_id (db_manifest db)
      in es \<noteq> [] \<and> st_id t = tid \<and>
         build_table (lib_sst L) (block_bytes opts) (bits_per_key opts) es =
           Inr (data, length es, length data, fst (hd es), fst (last es)) \<and>
         table_holds (lib_sst L) (block_bytes opts) (bits_per_key opts) ((db_files db)(tid := Some data)) t es)"

lemma flush_cases:
  assumes inv: "db_inv L ops db" and fits: "history_fits L (db_opts db) ops"
  shows "mt_is_empty (db_mem db) \<and> flush L db = Inr db \<or>
     \<not> mt_is_empty (db_mem db) \<and> (\<exists>data t. flush_result L db data t \<and> flush L db = Inr (flushed L db data t))"
proof (cases "mt_is_empty (db_mem db)")
  case True
  then show ?thesis by (simp add: flush_def)
next
  case False
  let ?L = "lib_sst L" and ?opts = "db_opts db" and ?files = "db_files db"
  let ?es = "mt_iter (db_mem db)" and ?tid = "next_table_id (db_manifest db)"
  have ne: "?es \<noteq> []" using False by (simp add: mt_is_empty_def mt_iter_def)
  have sorted: "entries_sorted ?es" using inv by (simp add: db_inv_def mt_iter_sorted)
  have "set ?es \<subseteq> versions_of ops" using inv by (auto simp: db_inv_def sources_def)
  then have "table_fits ?L (block_bytes ?opts) (bits_per_key ?opts) ?es"
    using fits ne sorted by (simp add: history_fits_def)
  from build_table_ok [OF this ne sorted, of ?files ?tid] obtain data t where
    build: "build_table ?L (block_bytes ?opts) (bits_per_key ?opts) ?es =
      Inr (data, length ?es, length data, fst (hd ?es), fst (last ?es))"
    and opn: "sst_open ?L (?files(?tid := Some data)) ?tid = Inr t" "st_id t = ?tid"
    and holds: "table_holds ?L (block_bytes ?opts) (bits_per_key ?opts) (?files(?tid := Some data)) t ?es"
    by blast
  have "flush L db = Inr (flushed L db data t)"
    using build opn False unfolding flush_def build_table_def flushed_def
    by (auto simp: and_then_Inr_iff Let_def split: prod.splits)
  moreover have "flush_result L db data t"
    using ne build opn(2) holds by (simp add: flush_result_def Let_def)
  ultimately show ?thesis using False by blast
qed

lemma flushed_inv:
  assumes inv: "db_inv L ops db" and res: "flush_result L db data t"
  shows "db_inv L ops (flushed L db data t)"
proof -
  let ?L = "lib_sst L" and ?opts = "db_opts db" and ?files = "db_files db"
  let ?es = "mt_iter (db_mem db)" and ?tid = "next_table_id (db_manifest db)"
  obtain l0 ls where lv: "db_levels db = l0 # ls"
    using inv by (cases "db_levels db") (simp_all add: db_inv_def tables_ok_def)
  let ?f = "?files(?tid := Some data)"
  have opn: "st_id t = ?tid"
    and holds: "table_holds ?L (block_bytes ?opts) (bits_per_key ?opts) ?f t ?es"
    using res by (simp_all add: flush_result_def Let_def)
  define db' where "db' = flushed L db data t"
  have db': "db_levels db' = (l0 @ [t]) # ls" "db_files db' = ?f"
    "db_mem db' = mt_new" "db_opts db' = ?opts" "db_seq db' = db_seq db" "db_snapshots db' = db_snapshots db"
    "next_table_id (db_manifest db') = ?tid + 1"
    by (simp_all add: db'_def flushed_def Let_def lv)
  have ids: "st_id t' < ?tid" if "t' \<in> set (concat (db_levels db))" for t'
    using inv that by (auto simp: db_inv_def tables_ok_def)
  have same: "?f (st_id t') = ?files (st_id t')" if "t' \<in> set (concat (db_levels db))" for t'
    using ids [OF that] by simp
  have lev: "level_set ?L ?f ts = level_set ?L ?files ts" if "ts \<in> set (l0 # ls)" for ts
  proof (rule level_set_file, rule ballI)
    fix t' assume "t' \<in> set ts"
    then have "t' \<in> set (concat (db_levels db))" using that by (auto simp: lv)
    then show "?f (st_id t') = ?files (st_id t')" by (rule same)
  qed
  have new: "level_set ?L ?f (l0 @ [t]) = level_set ?L ?files l0 \<union> set ?es"
    using lev [of l0] table_holds_good(2) [OF holds] by (auto simp: level_set_def)
  have src: "sources L db' = {} # (level_set ?L ?files l0 \<union> set ?es) # map (level_set ?L ?files) ls"
    using lev by (simp add: sources_def db' new)
  have src0: "sources L db = set ?es # level_set ?L ?files l0 # map (level_set ?L ?files) ls"
    by (simp add: sources_def lv)
  have all: "all_versions L db' = all_versions L db" unfolding src src0 by auto
  have "sorted_wrt up_closed (sources L db')"
    using inv unfolding src src0 db_inv_def by (auto intro!: up_closed_Un)
  moreover have "min_snapshot db' = min_snapshot db" by (simp only: min_snapshot_def db')
  then have "visible_ok L ops db'" using inv by (simp add: visible_ok_def all db_inv_def)
  moreover have "tables_ok L db'"
  proof -
    have "good_table ?L ?opts ?f t'" if "t' \<in> set (concat (db_levels db))" for t'
      using inv that good_table_file [of ?f t' ?files] same [OF that] by (auto simp: db_inv_def tables_ok_def)
    moreover have "good_table ?L ?opts ?f t" using table_holds_good(1) [OF holds] .
    moreover have "distinct (map st_id (concat (db_levels db')))"
      using inv ids opn by (fastforce simp: db' lv db_inv_def tables_ok_def)
    ultimately show ?thesis
      using inv ids opn by (fastforce simp: tables_ok_def db' lv db_inv_def)
  qed
  ultimately show ?thesis unfolding db'_def [symmetric] using inv by (simp add: db_inv_def db' all)
qed

lemma flush_ok:
  assumes inv: "db_inv L ops db" and fits: "history_fits L (db_opts db) ops"
  shows "\<exists>db'. flush L db = Inr db' \<and> db_inv L ops db' \<and> db_opts db' = db_opts db"
  using flush_cases [OF inv fits] flushed_inv [OF inv] inv by (auto simp: flushed_def Let_def)


section \<open>What compaction does to versions\<close>

definition keys_of :: "entry set \<Rightarrow> bytes set" where
  "keys_of V = fst ` V"

lemma keys_ofI: "(k, s, v) \<in> V \<Longrightarrow> k \<in> keys_of V"
  unfolding keys_of_def by force

lemma newest_exists: "\<exists>r. newest V k sn r"
proof (cases "\<exists>s v. (k, s, v) \<in> V \<and> s \<le> sn")
  case False
  then have "newest V k sn None" by (auto simp: not_le)
  then show ?thesis by blast
next
  case True
  let ?P = "\<lambda>s. \<exists>v. (k, s, v) \<in> V \<and> s \<le> sn"
  obtain s where s: "?P s" using True by blast
  have bound: "y \<le> sn" if "?P y" for y using that by blast
  have "?P (Greatest ?P)" by (rule GreatestI_nat [of ?P, OF s bound])
  then obtain v where v: "(k, Greatest ?P, v) \<in> V" "Greatest ?P \<le> sn" by blast
  have "s' \<le> Greatest ?P" if "(k, s', v') \<in> V" "s' \<le> sn" for s' v'
    by (rule Greatest_le_nat [of ?P, OF _ bound]) (use that in blast)
  then have "newest V k sn (Some (Greatest ?P, v))" using v by auto
  then show ?thesis by blast
qed

text \<open>
  The setting of a compaction: \<open>S\<close> leaves its level, of which \<open>A\<close> stays; \<open>D\<close> is the part of the
  next level with overlapping keys, of which \<open>B\<close> stays; \<open>Us\<close> and \<open>Ds\<close> are the sources above and
  below.
\<close>

definition compaction_sets :: "entry set list \<Rightarrow> entry set list \<Rightarrow> entry set \<Rightarrow> entry set \<Rightarrow> entry set \<Rightarrow>
    entry set \<Rightarrow> bool \<Rightarrow> bool" where
  "compaction_sets Us Ds A S B D bottom \<longleftrightarrow>
     sorted_wrt up_closed (Us @ (A \<union> S) # (B \<union> D) # Ds) \<and>
     keys_of A \<inter> keys_of S = {} \<and> keys_of B \<inter> keys_of (S \<union> D) = {} \<and>
     single_valued_versions (\<Union> (set (Us @ (A \<union> S) # (B \<union> D) # Ds))) \<and>
     (bottom \<longrightarrow> (\<forall>W \<in> set Ds. W = {}))"

lemma survivors_subset: "survivors min_snap bottom V \<subseteq> V"
  by (auto simp: survivors_def)

lemma survivors_upward:
  assumes "(k, s, v) \<in> survivors min_snap bottom V" "(k, s', v') \<in> V" "s < s'"
  shows "(k, s', v') \<in> survivors min_snap bottom V"
  using assms unfolding survivors_def by fastforce

lemma same_key:
  "keys_of X \<inter> keys_of Y = {} \<Longrightarrow> (k, s, v) \<in> X \<union> Y \<Longrightarrow> (k, s', v') \<in> X \<Longrightarrow> (k, s, v) \<in> X"
  "keys_of X \<inter> keys_of Y = {} \<Longrightarrow> (k, s, v) \<in> X \<union> Y \<Longrightarrow> (k, s', v') \<in> Y \<Longrightarrow> (k, s, v) \<in> Y"
  using keys_ofI by blast+

text \<open>Searching the new sources in order still finds newer versions first.\<close>

lemma compaction_up_closed:
  assumes sets: "compaction_sets Us Ds A S B D bottom"
  shows "sorted_wrt up_closed (Us @ A # (B \<union> survivors min_snap bottom (S \<union> D)) # Ds)"
proof -
  let ?kept = "survivors min_snap bottom (S \<union> D)"
  note kept_subset = survivors_subset [of min_snap bottom "S \<union> D"]
  have up: "sorted_wrt up_closed (Us @ (A \<union> S) # (B \<union> D) # Ds)"
    and A_keys: "keys_of A \<inter> keys_of S = {}" and B_keys: "keys_of B \<inter> keys_of (S \<union> D) = {}"
    using sets by (simp_all add: compaction_sets_def)
  have up_Us: "up_closed U (A \<union> S)" "up_closed U (B \<union> D)" "W \<in> set Ds \<Longrightarrow> up_closed U W"
    if "U \<in> set Us" for U W
    using up that by (simp_all add: sorted_wrt_append)
  have up_levels: "up_closed (A \<union> S) (B \<union> D)" "W \<in> set Ds \<Longrightarrow> up_closed (A \<union> S) W"
    "W \<in> set Ds \<Longrightarrow> up_closed (B \<union> D) W" for W
    using up by (simp_all add: sorted_wrt_append)
  have U: "up_closed U A" "up_closed U (B \<union> ?kept)" if "U \<in> set Us" for U
    using up_Us(1,2) [OF that] kept_subset unfolding up_closed_def by blast+
  have A: "up_closed A (B \<union> ?kept)"
    unfolding up_closed_def
  proof (intro allI impI)
    fix k s v s' v'
    assume a: "(k, s, v) \<in> A" "(k, s', v') \<in> B \<union> ?kept" "s < s'"
    have "(k, s', v') \<in> B \<union> D"
      using a(2) kept_subset keys_ofI [OF a(1)] keys_ofI [of k s' v' S] A_keys by blast
    then have "(k, s', v') \<in> A \<union> S" using up_closedD [OF up_levels(1)] a(1,3) by blast
    then show "(k, s', v') \<in> A" using same_key(1) [OF A_keys _ a(1)] by blast
  qed
  have W: "up_closed A W" if "W \<in> set Ds" for W
    unfolding up_closed_def
  proof (intro allI impI)
    fix k s v s' v'
    assume a: "(k, s, v) \<in> A" "(k, s', v') \<in> W" "s < s'"
    have "(k, s', v') \<in> A \<union> S" using up_closedD [OF up_levels(2) [OF that]] a by blast
    then show "(k, s', v') \<in> A" using same_key(1) [OF A_keys _ a(1)] by blast
  qed
  have B: "up_closed (B \<union> ?kept) W" if W: "W \<in> set Ds" for W
    unfolding up_closed_def
  proof (intro allI impI)
    fix k s v s' v'
    assume a: "(k, s, v) \<in> B \<union> ?kept" "(k, s', v') \<in> W" "s < s'"
    show "(k, s', v') \<in> B \<union> ?kept"
    proof (cases "(k, s, v) \<in> B")
      case True
      then have "(k, s', v') \<in> B \<union> D" using up_closedD [OF up_levels(3) [OF W]] a by blast
      then show ?thesis using same_key(1) [OF B_keys _ True] by blast
    next
      case False
      then have kept: "(k, s, v) \<in> ?kept" using a(1) by blast
      then have "(k, s, v) \<in> S \<union> D" using kept_subset by blast
      then have "(k, s', v') \<in> S \<union> D"
      proof
        assume s: "(k, s, v) \<in> S"
        then have "(k, s', v') \<in> A \<union> S" using up_closedD [OF up_levels(2) [OF W], of k s v s' v'] a by blast
        then show ?thesis using same_key(2) [OF A_keys _ s] by blast
      next
        assume d: "(k, s, v) \<in> D"
        then have "(k, s', v') \<in> B \<union> D" using up_closedD [OF up_levels(3) [OF W], of k s v s' v'] a by blast
        then show ?thesis using keys_ofI [of k s v "S \<union> D"] keys_ofI [of k s' v' B] B_keys d by blast
      qed
      then show ?thesis using survivors_upward [OF kept _ a(3)] by blast
    qed
  qed
  show ?thesis using up U A W B by (simp add: sorted_wrt_append up_Us(3))
qed

text \<open>
  A version that disappears although it is the newest visible one was a tombstone, and no older
  version of its key is left anywhere.
\<close>

lemma compaction_dropped:
  assumes sets: "compaction_sets Us Ds A S B D bottom" and ms: "min_snap \<le> sn"
  defines "old \<equiv> \<Union> (set (Us @ (A \<union> S) # (B \<union> D) # Ds))"
    and "new \<equiv> \<Union> (set (Us @ A # (B \<union> survivors min_snap bottom (S \<union> D)) # Ds))"
  assumes nw: "newest old k sn (Some (s, v))" and lost: "(k, s, v) \<notin> new"
  shows "v = None" and "(k, s2, v2) \<in> new \<Longrightarrow> sn < s2"
proof -
  let ?kept = "survivors min_snap bottom (S \<union> D)"
  have up: "sorted_wrt up_closed (Us @ (A \<union> S) # (B \<union> D) # Ds)"
    and A_keys: "keys_of A \<inter> keys_of S = {}" and B_keys: "keys_of B \<inter> keys_of (S \<union> D) = {}"
    and sv: "single_valued_versions old" and below: "bottom \<longrightarrow> (\<forall>W \<in> set Ds. W = {})"
    using sets by (simp_all add: compaction_sets_def old_def)
  have max: "s' \<le> s" if "(k, s', v') \<in> old" "s' \<le> sn" for s' v'
    using nw that unfolding newest.simps by blast
  have in_old: "(k, s, v) \<in> old" using nw by simp
  have sd: "(k, s, v) \<in> S \<union> D" and nk: "(k, s, v) \<notin> ?kept"
    using in_old lost by (auto simp: old_def new_def)
  have low: "s \<le> min_snap" using nk sd by (auto simp: survivors_def)
  have old: "(k, s', v') \<in> S \<union> D \<Longrightarrow> (k, s', v') \<in> old" for s' v' by (auto simp: old_def)
  have "\<forall>s' v'. (k, s', v') \<in> S \<union> D \<longrightarrow> s' \<le> min_snap \<longrightarrow> s' \<le> s"
    using max old ms by (meson order.trans)
  then have tomb: "v = None" "bottom" using nk sd by (auto simp: survivors_def)
  show "v = None" by (rule tomb)
  show "sn < s2" if in2: "(k, s2, v2) \<in> new"
  proof (rule ccontr)
    assume "\<not> sn < s2"
    then have "s2 \<le> sn" by simp
    have old2: "(k, s2, v2) \<in> old"
      using in2 survivors_subset [of min_snap bottom "S \<union> D"] by (auto simp: old_def new_def)
    have "s2 \<noteq> s"
    proof
      assume "s2 = s"
      then have "v2 = v" using single_valuedD [OF sv, of k s v2 v] old2 in_old by blast
      then show False using in2 lost \<open>s2 = s\<close> by simp
    qed
    then have less: "s2 < s" using max [OF old2 \<open>s2 \<le> sn\<close>] by simp
    from in2 consider U where "U \<in> set Us" "(k, s2, v2) \<in> U" | "(k, s2, v2) \<in> A" | "(k, s2, v2) \<in> B"
      | "(k, s2, v2) \<in> ?kept" | W where "W \<in> set Ds" "(k, s2, v2) \<in> W" by (auto simp: new_def)
    then show False
    proof cases
      case 1
      have "up_closed U (A \<union> S)" "up_closed U (B \<union> D)" using up 1(1) by (simp_all add: sorted_wrt_append)
      then have "(k, s, v) \<in> U" using up_closedD [OF _ 1(2) _ less] sd by blast
      then show False using lost 1(1) by (auto simp: new_def)
    next
      case 2
      have "up_closed (A \<union> S) (B \<union> D)" using up by (simp add: sorted_wrt_append)
      then have "(k, s, v) \<in> A \<union> S" using up_closedD [of "A \<union> S" "B \<union> D" k s2 v2 s v] 2 less sd by blast
      then show False using same_key(1) [OF A_keys _ 2] lost by (auto simp: new_def)
    next
      case 3
      then show False using keys_ofI [OF 3] keys_ofI [OF sd] B_keys by blast
    next
      case 4
      then show False using sd less low unfolding survivors_def by fastforce
    next
      case 5
      then show False using below tomb(2) by blast
    qed
  qed
qed

text \<open>What a read at or above the oldest snapshot sees is unchanged.\<close>

lemma compaction_visible:
  assumes sets: "compaction_sets Us Ds A S B D bottom" and ms: "min_snap \<le> sn"
  defines "old \<equiv> \<Union> (set (Us @ (A \<union> S) # (B \<union> D) # Ds))"
    and "new \<equiv> \<Union> (set (Us @ A # (B \<union> survivors min_snap bottom (S \<union> D)) # Ds))"
  assumes nw: "newest new k sn r"
  shows "\<exists>r'. newest old k sn r' \<and> live_value r' = live_value r"
proof -
  have sub: "new \<subseteq> old"
    using survivors_subset [of min_snap bottom "S \<union> D"] by (auto simp: old_def new_def)
  have "single_valued_versions old" using sets by (simp add: compaction_sets_def old_def)
  then have sv: "single_valued_versions new" by (rule single_valued_versions_subset [OF sub])
  obtain r' where r': "newest old k sn r'" using newest_exists by blast
  have "live_value r' = live_value r"
  proof (cases r')
    case None
    then have "newest new k sn None" using r' sub by auto
    then have "r = None" by (rule newest_unique [OF sv nw])
    then show ?thesis using None by simp
  next
    case (Some p)
    obtain s v where p: "p = (s, v)" by (cases p)
    have nw': "newest old k sn (Some (s, v))" using r' by (simp only: Some p)
    show ?thesis
    proof (cases "(k, s, v) \<in> new")
      case True
      then have "newest new k sn (Some (s, v))" using nw' sub unfolding newest.simps by blast
      then have "r = Some (s, v)" by (rule newest_unique [OF sv nw])
      then show ?thesis using Some p by simp
    next
      case False
      note drop = compaction_dropped [OF sets ms nw' [unfolded old_def] False [unfolded new_def]]
      have "newest new k sn None" using drop(2) by (auto simp: new_def)
      then have "r = None" by (rule newest_unique [OF sv nw])
      then show ?thesis using drop(1) Some p by simp
    qed
  qed
  then show ?thesis using r' by blast
qed

end
