(* ===== verification/Db_Levels.thy ===== *)
theory Db_Levels
  imports Db_Ops
begin

text \<open>
  A compaction keeps the invariant: the tables it selects, the range argument that keeps deep
  levels disjoint, and the swap of tables.
\<close>

section \<open>Selecting tables\<close>

lemma filter_ids:
  assumes "distinct (map st_id ts)"
  shows "filter (\<lambda>t. st_id t \<in> set (map st_id (filter P ts))) ts = filter P ts"
    and "filter (\<lambda>t. st_id t \<notin> set (map st_id (filter P ts))) ts = filter (\<lambda>t. \<not> P t) ts"
proof -
  have "st_id t \<in> set (map st_id (filter P ts)) \<longleftrightarrow> P t" if "t \<in> set ts" for t
    using assms that by (auto simp: distinct_map inj_on_def)
  then show "filter (\<lambda>t. st_id t \<in> set (map st_id (filter P ts))) ts = filter P ts"
    and "filter (\<lambda>t. st_id t \<notin> set (map st_id (filter P ts))) ts = filter (\<lambda>t. \<not> P t) ts"
    by (auto intro: filter_cong)
qed

lemma level_set_filter: "level_set L files ts = level_set L files (filter (\<lambda>t. \<not> P t) ts) \<union> level_set L files (filter P ts)"
  by (auto simp: level_set_def)

lemma level_set_append: "level_set L files (xs @ ys) = level_set L files xs \<union> level_set L files ys"
  by (auto simp: level_set_def)

lemma level_set_cong: "set ts = set ts' \<Longrightarrow> level_set L files ts = level_set L files ts'"
  by (simp add: level_set_def)

lemma key_range_fold:
  "case fold (\<lambda>t (mn, mx).
       (if (case mn of None \<Rightarrow> True | Some m \<Rightarrow> st_min_key t < m) then Some (st_min_key t) else mn,
        if (case mx of None \<Rightarrow> True | Some m \<Rightarrow> st_max_key t > m) then Some (st_max_key t) else mx))
       ts (Some a, Some b) of
     (mn, mx) \<Rightarrow> \<exists>mn' mx'. mn = Some mn' \<and> mx = Some mx' \<and> mn' \<le> a \<and> b \<le> mx' \<and>
        (\<forall>t \<in> set ts. mn' \<le> st_min_key t \<and> st_max_key t \<le> mx')"
proof (induction ts arbitrary: a b)
  case Nil
  then show ?case by simp
next
  case (Cons t ts)
  show ?case
    using Cons.IH [of "min a (st_min_key t)" "max b (st_max_key t)"]
    by (auto simp: min_def max_def not_le not_less split: if_splits)
qed

lemma key_range_bounds:
  assumes "ts \<noteq> []"
  shows "\<exists>mn mx. key_range ts = (Some mn, Some mx) \<and>
     (\<forall>t \<in> set ts. mn \<le> st_min_key t \<and> st_max_key t \<le> mx)"
proof -
  obtain t ts' where ts: "ts = t # ts'" using assms by (cases ts) auto
  show ?thesis
    using key_range_fold [where a = "st_min_key t" and b = "st_max_key t" and ts = ts']
    by (auto simp: key_range_def ts)
qed

text \<open>The chosen source tables: all of level 0, one table of a deeper level.\<close>

lemma source_ids_facts:
  "source_ids level ts = [] \<longleftrightarrow> ts = []"
  "set (source_ids level ts) \<subseteq> st_id ` set ts"
  "level = 0 \<Longrightarrow> set (source_ids level ts) = st_id ` set ts"
proof -
  show "source_ids level ts = [] \<longleftrightarrow> ts = []" "level = 0 \<Longrightarrow> set (source_ids level ts) = st_id ` set ts"
    by (auto simp: source_ids_def split: list.splits)
  have "min_list (st_id t # map st_id ts') \<in> set (st_id t # map st_id ts')" for t ts'
    using min_list_Min [of "st_id t # map st_id ts'"] Min_in [of "set (st_id t # map st_id ts')"] by simp
  then show "set (source_ids level ts) \<subseteq> st_id ` set ts"
    by (cases ts) (auto simp: source_ids_def)
qed

section \<open>Disjoint tables\<close>

definition apart :: "ss_table \<Rightarrow> ss_table \<Rightarrow> bool" where
  "apart a b \<longleftrightarrow> st_max_key a < st_min_key b \<or> st_max_key b < st_min_key a"

lemma level_sorted_apart:
  assumes "level_sorted ts" "a \<in> set ts" "b \<in> set ts" "a \<noteq> b"
  shows "apart a b"
  using assms
proof (induction ts)
  case Nil
  then show ?case by simp
next
  case (Cons t ts)
  then show ?case by (auto simp: level_sorted_def apart_def)
qed

lemma level_sorted_filter: "level_sorted ts \<Longrightarrow> level_sorted (filter P ts)"
  unfolding level_sorted_def by (rule sorted_wrt_filter)

lemma sort_key_level_sorted:
  assumes "distinct ts" "\<forall>t \<in> set ts. st_min_key t \<le> st_max_key t"
    and "\<forall>a \<in> set ts. \<forall>b \<in> set ts. a \<noteq> b \<longrightarrow> apart a b"
  shows "level_sorted (sort_key st_min_key ts)"
proof -
  let ?ts = "sort_key st_min_key ts"
  have "sorted_wrt (\<lambda>a b. st_min_key a \<le> st_min_key b) ?ts"
    using sorted_sort_key [of st_min_key ts] by (simp add: sorted_map)
  then have 1: "st_min_key (?ts ! i) \<le> st_min_key (?ts ! j)" if "i < j" "j < length ?ts" for i j
    using that by (simp add: sorted_wrt_iff_nth_less)
  have "st_max_key (?ts ! i) < st_min_key (?ts ! j)" if ij: "i < j" "j < length ?ts" for i j
  proof -
    have ne: "?ts ! i \<noteq> ?ts ! j" using assms(1) ij by (simp add: nth_eq_iff_index_eq)
    have mem: "?ts ! i \<in> set ts" "?ts ! j \<in> set ts"
      using ij nth_mem [of i ?ts] nth_mem [of j ?ts] by simp_all
    have "apart (?ts ! i) (?ts ! j)" using assms(3) mem ne by blast
    moreover have "st_min_key (?ts ! j) \<le> st_max_key (?ts ! j)" using assms(2) mem by blast
    ultimately show ?thesis using 1 [OF ij] by (auto simp: apart_def)
  qed
  then show ?thesis by (simp add: level_sorted_def sorted_wrt_iff_nth_less)
qed

lemma good_table_min_max: "good_table L opts files t \<Longrightarrow> st_min_key t \<le> st_max_key t"
  using good_table_facts(3,5) by fastforce

lemma apart_keys:
  assumes "good_table L opts files a" "good_table L opts files b" "apart a b"
  shows "keys_of (set (table_entries L files a)) \<inter> keys_of (set (table_entries L files b)) = {}"
proof -
  have False if "x \<in> set (table_entries L files a)" "y \<in> set (table_entries L files b)" "fst x = fst y" for x y
    using good_table_facts(3) [OF assms(1) that(1)] good_table_facts(3) [OF assms(2) that(2)] that(3) assms(3)
    unfolding apart_def de_Morgan_disj by (elim disjE conjE; order)
  then show ?thesis unfolding keys_of_def by blast
qed

lemma level_set_keys_disjoint:
  assumes "\<forall>a \<in> set xs. good_table L opts files a" "\<forall>b \<in> set ys. good_table L opts files b"
    and "\<forall>a \<in> set xs. \<forall>b \<in> set ys. apart a b"
  shows "keys_of (level_set L files xs) \<inter> keys_of (level_set L files ys) = {}"
proof -
  have False if k: "k \<in> keys_of (level_set L files xs)" "k \<in> keys_of (level_set L files ys)" for k
  proof -
    obtain a x where a: "a \<in> set xs" "x \<in> set (table_entries L files a)" "fst x = k"
      using k(1) unfolding keys_of_def level_set_def by blast
    obtain b y where b: "b \<in> set ys" "y \<in> set (table_entries L files b)" "fst y = k"
      using k(2) unfolding keys_of_def level_set_def by blast
    have "k \<in> keys_of (set (table_entries L files a))" "k \<in> keys_of (set (table_entries L files b))"
      unfolding keys_of_def using imageI [OF a(2), of fst] imageI [OF b(2), of fst] a(3) b(3) by simp_all
    moreover note apart_keys [OF bspec [OF assms(1) a(1)] bspec [OF assms(2) b(1)]
        bspec [OF bspec [OF assms(3) a(1)] b(1)]]
    ultimately show False by blast
  qed
  then show ?thesis by blast
qed

text \<open>
  A table of the next level that does not meet the source range lies entirely on one side of the
  source tables and of every table that does meet it.
\<close>

lemma untouched_side:
  assumes sorted: "level_sorted dst" and wf: "\<forall>t \<in> set dst. st_min_key t \<le> st_max_key t"
    and b: "b \<in> set dst" "st_max_key b < mn \<or> st_min_key b > mx"
    and le: "mn \<le> mx"
  shows "(st_max_key b < mn \<and> (\<forall>d \<in> set dst. \<not> (st_max_key d < mn \<or> st_min_key d > mx) \<longrightarrow> st_max_key b < st_min_key d)) \<or>
     (mx < st_min_key b \<and> (\<forall>d \<in> set dst. \<not> (st_max_key d < mn \<or> st_min_key d > mx) \<longrightarrow> st_max_key d < st_min_key b))"
proof (cases "st_max_key b < mn")
  case True
  have "st_max_key b < st_min_key d"
    if "d \<in> set dst" "\<not> (st_max_key d < mn \<or> st_min_key d > mx)" for d
  proof -
    have "b \<noteq> d" using that b True by blast
    then have "apart b d" using level_sorted_apart [OF sorted] b(1) that(1) by blast
    moreover have "st_min_key b \<le> st_max_key b" using wf b(1) by blast
    ultimately show ?thesis using that(2) True unfolding apart_def de_Morgan_disj by (elim disjE conjE; order)
  qed
  then show ?thesis using True by blast
next
  case False
  then have gt: "mx < st_min_key b" using b(2) by blast
  have "st_max_key d < st_min_key b"
    if "d \<in> set dst" "\<not> (st_max_key d < mn \<or> st_min_key d > mx)" for d
  proof -
    have "b \<noteq> d" using that b gt by blast
    then have "apart b d" using level_sorted_apart [OF sorted] b(1) that(1) by blast
    moreover have "st_min_key b \<le> st_max_key b" using wf b(1) by blast
    ultimately show ?thesis using that(2) gt unfolding apart_def de_Morgan_disj by (elim disjE conjE; order)
  qed
  then show ?thesis using gt by blast
qed

end
