(* ===== verification/Db_Swap.thy ===== *)
theory Db_Swap
  imports Db_Levels
begin

text \<open>
  A compaction from end to end: it returns, keeps the invariant and changes nothing that a read
  at or above the oldest live snapshot can see; with it, so does every operation that compacts.
\<close>

section \<open>Opening the output tables\<close>

lemma open_all_outs:
  assumes "list_all2 (out_ok L opts files) outs metas"
    and "\<forall>o' \<in> set outs. table_fits L (block_bytes opts) (bits_per_key opts) (snd o') \<and> entries_sorted (snd o')"
  shows "\<exists>ts. open_all L files (map tm_id metas) = Inr ts \<and>
     list_all2 (\<lambda>o' t. st_id t = fst o' \<and>
        table_holds L (block_bytes opts) (bits_per_key opts) files t (snd o')) outs ts"
  using assms
proof (induction rule: list_all2_induct)
  case Nil
  then show ?case by simp
next
  case (Cons o' outs m metas)
  have ne: "snd o' \<noteq> []" and tid: "tm_id m = fst o'" using Cons.hyps(1) by (simp_all add: out_ok_def)
  obtain data where data: "files (fst o') = Some data"
    "build_table L (block_bytes opts) (bits_per_key opts) (snd o') =
       Inr (data, tm_entries m, tm_bytes m, tm_min_key m, tm_max_key m)"
    using Cons.hyps(1) by (auto simp: out_ok_def)
  have "files(fst o' := Some data) = files" using data(1) by auto
  then obtain t where t: "sst_open L files (fst o') = Inr t" "st_id t = fst o'"
      "table_holds L (block_bytes opts) (bits_per_key opts) files t (snd o')"
    using build_table_ok [of L "block_bytes opts" "bits_per_key opts" "snd o'" files "fst o'"]
      Cons.prems ne data(2) by auto
  obtain ts where "open_all L files (map tm_id metas) = Inr ts"
     "list_all2 (\<lambda>o' t. st_id t = fst o' \<and>
        table_holds L (block_bytes opts) (bits_per_key opts) files t (snd o')) outs ts"
    using Cons.IH Cons.prems by auto
  then show ?case using t tid by auto
qed

lemma sorted_concat_parts:
  "entries_sorted (concat ess) \<Longrightarrow> es \<in> set ess \<Longrightarrow> entries_sorted es"
  by (induction ess) (auto simp: sorted_wrt_append)

lemma fold_remove: "fold (\<lambda>i f. f(i := None)) ids files j = (if j \<in> set ids then None else files j)"
  by (induction ids arbitrary: files) auto

section \<open>Padding\<close>

lemma min_snapshot_cong:
  "db_seq db' = db_seq db \<Longrightarrow> db_snapshots db' = db_snapshots db \<Longrightarrow> min_snapshot db' = min_snapshot db"
  by (simp only: min_snapshot_def)

lemma pad_levels_inv:
  assumes "db_inv L ops db" "next_table_id m = next_table_id (db_manifest db)"
  shows "db_inv L ops (db\<lparr>db_levels := pad_levels n (db_levels db), db_manifest := m\<rparr>)"
proof -
  let ?db = "db\<lparr>db_levels := pad_levels n (db_levels db), db_manifest := m\<rparr>"
  let ?k = "Suc n - length (db_levels db)"
  have src: "sources L ?db = sources L db @ replicate ?k {}"
    by (simp add: sources_def pad_levels_def level_set_def)
  have all: "all_versions L ?db = all_versions L db" unfolding src by auto
  have lvl: "ts = [] \<or> ts \<in> set (tl (db_levels db))" if "ts \<in> set (tl (pad_levels n (db_levels db)))" for ts
    using that by (cases "db_levels db"; cases ?k) (auto simp: pad_levels_def)
  have "tables_ok L ?db"
    using assms lvl unfolding db_inv_def tables_ok_def
    by (auto simp: level_sorted_def) (auto simp: pad_levels_def)
  moreover have "sorted_wrt up_closed (sources L ?db)"
  proof -
    have "sorted_wrt up_closed (replicate k {})" for k by (induction k) auto
    then show ?thesis using assms(1) unfolding src db_inv_def by (auto simp: sorted_wrt_append)
  qed
  moreover have "visible_ok L ops ?db"
    using assms(1) min_snapshot_cong [of ?db db] unfolding db_inv_def visible_ok_def all by simp
  ultimately show ?thesis using assms(1) unfolding db_inv_def all by simp
qed

section \<open>The new level\<close>

lemma outs_apart:
  assumes outs: "list_all2 (\<lambda>o' t. st_id t = fst o' \<and> table_holds L n m files t (snd o')) outs ts"
    and sep: "sorted_wrt keys_below (map snd outs)"
  shows "\<forall>a \<in> set ts. \<forall>b \<in> set ts. a \<noteq> b \<longrightarrow> apart a b"
proof (intro ballI impI)
  fix a b assume "a \<in> set ts" "b \<in> set ts" and ne: "a \<noteq> b"
  then obtain i j where ij: "i < length ts" "j < length ts" "ts ! i = a" "ts ! j = b"
    by (metis in_set_conv_nth)
  have len: "length outs = length ts" using outs by (rule list_all2_lengthD)
  have holds: "table_holds L n m files (ts ! i) (snd (outs ! i))" if "i < length ts" for i
    using outs that by (simp add: list_all2_conv_all_nth)
  have less: "st_max_key (ts ! i) < st_min_key (ts ! j)" if "i < j" "j < length ts" for i j
  proof -
    have "keys_below (snd (outs ! i)) (snd (outs ! j))"
      using sep that len by (simp add: sorted_wrt_iff_nth_less)
    moreover note table_holds_entries [OF holds, of i] table_holds_entries [OF holds, of j]
    ultimately show ?thesis using that unfolding keys_below_def by simp
  qed
  consider "i < j" | "j < i" | "i = j" by linarith
  then show "apart a b" using less ij ne by cases (auto simp: apart_def)
qed

section \<open>The tables a compaction touches\<close>

text \<open>
  A database with its levels split at the compacted one, the key range of the chosen tables, and
  their parts: \<open>src\<close> into those that stay and those that move, \<open>dst\<close> likewise.
\<close>

definition compact_setting :: "storage_lib \<Rightarrow> (bytes \<times> bytes option) list \<Rightarrow> db \<Rightarrow> nat \<Rightarrow>
    ss_table list list \<Rightarrow> ss_table list \<Rightarrow> ss_table list \<Rightarrow> ss_table list list \<Rightarrow> bytes \<Rightarrow> bytes \<Rightarrow> bool" where
  "compact_setting L ops db level ups src dst downs mn mx \<longleftrightarrow>
     db_inv L ops db \<and> db_levels db = ups @ src # dst # downs \<and> length ups = level \<and> src \<noteq> [] \<and>
     key_range (filter (\<lambda>t. st_id t \<in> set (source_ids level src)) src) = (Some mn, Some mx)"

lemma ne_if_mem: "x \<in> set xs \<Longrightarrow> xs \<noteq> []"
  by auto

lemma compact_setting_ex:
  assumes "db_inv L ops db" "level + 2 \<le> length (db_levels db)" "db_levels db ! level \<noteq> []"
  shows "\<exists>ups src dst downs mn mx. compact_setting L ops db level ups src dst downs mn mx"
proof -
  let ?ls = "db_levels db"
  let ?ts = "filter (\<lambda>t. st_id t \<in> set (source_ids level (?ls ! level))) (?ls ! level)"
  have len: "level < length ?ls" "Suc level < length ?ls" using assms(2) by simp_all
  have "drop level ?ls = ?ls ! level # ?ls ! Suc level # drop (Suc (Suc level)) ?ls"
    using Cons_nth_drop_Suc [OF len(1)] Cons_nth_drop_Suc [OF len(2)] by simp
  then have split: "?ls = take level ?ls @ ?ls ! level # ?ls ! Suc level # drop (Suc (Suc level)) ?ls"
    using append_take_drop_id [of level ?ls] by simp
  have "source_ids level (?ls ! level) \<noteq> []" using source_ids_facts(1) assms(3) by blast
  then obtain i where i: "i \<in> set (source_ids level (?ls ! level))" by (meson list.set_sel(1))
  then obtain t where "t \<in> set (?ls ! level)" "i = st_id t" using source_ids_facts(2) by blast
  then have "t \<in> set ?ts" using i by simp
  then have "?ts \<noteq> []" by (rule ne_if_mem)
  then obtain mn mx where "key_range ?ts = (Some mn, Some mx)" using key_range_bounds by blast
  moreover have "length (take level ?ls) = level" using len(1) by simp
  ultimately have "compact_setting L ops db level (take level ?ls) (?ls ! level) (?ls ! Suc level)
      (drop (Suc (Suc level)) ?ls) mn mx"
    unfolding compact_setting_def using assms(1,3) split by blast
  then show ?thesis by blast
qed

lemma compact_setting_tables:
  assumes "compact_setting L ops db level ups src dst downs mn mx"
  shows "\<forall>t \<in> set (concat ups) \<union> set src \<union> set dst \<union> set (concat downs).
      good_table (lib_sst L) (db_opts db) (db_files db) t \<and> st_id t < next_table_id (db_manifest db)"
    and "distinct (map st_id (concat ups @ src @ dst @ concat downs))"
    and "level_sorted dst" and "0 < level \<Longrightarrow> level_sorted src"
    and "\<forall>ts \<in> set (tl ups) \<union> set downs. level_sorted ts"
proof -
  have lv: "db_levels db = ups @ src # dst # downs" and level: "length ups = level" and ok: "tables_ok L db"
    using assms by (simp_all add: compact_setting_def db_inv_def)
  show "\<forall>t \<in> set (concat ups) \<union> set src \<union> set dst \<union> set (concat downs).
      good_table (lib_sst L) (db_opts db) (db_files db) t \<and> st_id t < next_table_id (db_manifest db)"
    and "distinct (map st_id (concat ups @ src @ dst @ concat downs))"
    using ok unfolding tables_ok_def lv by auto
  show "level_sorted dst" "0 < level \<Longrightarrow> level_sorted src" "\<forall>ts \<in> set (tl ups) \<union> set downs. level_sorted ts"
    using ok level unfolding tables_ok_def lv by (cases ups; auto)+
qed

lemma compact_setting_range:
  assumes "compact_setting L ops db level ups src dst downs mn mx"
    and "t \<in> set src" "st_id t \<in> set (source_ids level src)"
  shows "mn \<le> st_min_key t" "st_max_key t \<le> mx"
proof -
  let ?ts = "filter (\<lambda>t. st_id t \<in> set (source_ids level src)) src"
  have mem: "t \<in> set ?ts" using assms(2,3) by simp
  then have "?ts \<noteq> []" by (rule ne_if_mem)
  from key_range_bounds [OF this] assms(1) mem show "mn \<le> st_min_key t" "st_max_key t \<le> mx"
    unfolding compact_setting_def by auto
qed

text \<open>The version sets of a setting meet the conditions of the argument on sets.\<close>

lemma setting_sets:
  fixes L :: storage_lib
  assumes set: "compact_setting L ops db level ups src dst downs mn mx"
  defines "lev \<equiv> level_set (lib_sst L) (db_files db)"
    and "mv \<equiv> \<lambda>t. st_id t \<in> set (source_ids level src)"
  assumes bottom: "bottom \<longrightarrow> (\<forall>ts \<in> set downs. ts = [])"
  shows "compaction_sets (set (mt_iter (db_mem db)) # map lev ups) (map lev downs)
     (lev (filter (\<lambda>t. \<not> mv t) src)) (lev (filter mv src))
     (lev (filter (\<lambda>t. \<not> overlaps mn mx t) dst)) (lev (filter (overlaps mn mx) dst)) bottom"
    and "sources L db = (set (mt_iter (db_mem db)) # map lev ups) @
      (lev (filter (\<lambda>t. \<not> mv t) src) \<union> lev (filter mv src)) #
      (lev (filter (\<lambda>t. \<not> overlaps mn mx t) dst) \<union> lev (filter (overlaps mn mx) dst)) # map lev downs"
proof -
  note tabs = compact_setting_tables [OF set]
  have inv: "db_inv L ops db" and lv: "db_levels db = ups @ src # dst # downs" and level: "length ups = level"
    using set by (simp_all add: compact_setting_def)
  have split: "lev src = lev (filter (\<lambda>t. \<not> mv t) src) \<union> lev (filter mv src)"
    "lev dst = lev (filter (\<lambda>t. \<not> overlaps mn mx t) dst) \<union> lev (filter (overlaps mn mx) dst)"
    unfolding lev_def by (rule level_set_filter)+
  show srcs: "sources L db = (set (mt_iter (db_mem db)) # map lev ups) @
      (lev (filter (\<lambda>t. \<not> mv t) src) \<union> lev (filter mv src)) #
      (lev (filter (\<lambda>t. \<not> overlaps mn mx t) dst) \<union> lev (filter (overlaps mn mx) dst)) # map lev downs"
    unfolding split [symmetric] by (simp add: sources_def lv lev_def)
  have good: "\<forall>t \<in> set ts. good_table (lib_sst L) (db_opts db) (db_files db) t"
    if "set ts \<subseteq> set src \<union> set dst" for ts
    using tabs(1) that by blast
  have A: "keys_of (lev (filter (\<lambda>t. \<not> mv t) src)) \<inter> keys_of (lev (filter mv src)) = {}"
    unfolding lev_def
  proof (rule level_set_keys_disjoint [where opts = "db_opts db"])
    show "\<forall>a \<in> set (filter (\<lambda>t. \<not> mv t) src). \<forall>b \<in> set (filter mv src). apart a b"
    proof (cases "level = 0")
      case True
      then show ?thesis using source_ids_facts(3) [of level src] by (auto simp: mv_def)
    next
      case False
      then show ?thesis using level_sorted_apart [OF tabs(4)] by auto
    qed
  qed (use good in auto)
  have B: "keys_of (lev (filter (\<lambda>t. \<not> overlaps mn mx t) dst)) \<inter>
      keys_of (lev (filter mv src @ filter (overlaps mn mx) dst)) = {}"
    unfolding lev_def
  proof (rule level_set_keys_disjoint [where opts = "db_opts db"])
    have "apart b t" if "b \<in> set dst" "\<not> overlaps mn mx b" "t \<in> set src" "mv t" for b t
      using that compact_setting_range [OF set, of t] by (auto simp: apart_def overlaps_def mv_def)
    moreover have "apart b t" if "b \<in> set dst" "\<not> overlaps mn mx b" "t \<in> set dst" "overlaps mn mx t" for b t
      using level_sorted_apart [OF tabs(3)] that by metis
    ultimately show "\<forall>a \<in> set (filter (\<lambda>t. \<not> overlaps mn mx t) dst).
        \<forall>b \<in> set (filter mv src @ filter (overlaps mn mx) dst). apart a b"
      by auto
  qed (use good in auto)
  have "\<forall>W \<in> set (map lev downs). W = {}" if bottom
    using bottom that by (auto simp: lev_def level_set_def)
  moreover have "sorted_wrt up_closed (sources L db)" "single_valued_versions (all_versions L db)"
    using inv db_inv_single_valued [OF inv] by (simp_all add: db_inv_def)
  ultimately show "compaction_sets (set (mt_iter (db_mem db)) # map lev ups) (map lev downs)
     (lev (filter (\<lambda>t. \<not> mv t) src)) (lev (filter mv src))
     (lev (filter (\<lambda>t. \<not> overlaps mn mx t) dst)) (lev (filter (overlaps mn mx) dst)) bottom"
    unfolding compaction_sets_def srcs [symmetric] using A B by (simp add: lev_def level_set_append)
qed

text \<open>The next level stays sorted and disjoint with the new tables in it.\<close>

lemma new_level_sorted:
  fixes L :: storage_lib
  assumes set: "compact_setting L ops db level ups src dst downs mn mx"
  defines "mv \<equiv> \<lambda>t. st_id t \<in> set (source_ids level src)"
  assumes outs: "list_all2 (\<lambda>o' t. st_id t = fst o' \<and> table_holds (lib_sst L) n m files t (snd o')) outs ts"
    and sep: "sorted_wrt keys_below (map snd outs)"
    and keys: "\<forall>x \<in> set (concat (map snd outs)).
      x \<in> level_set (lib_sst L) (db_files db) (filter mv src @ filter (overlaps mn mx) dst)"
    and dist: "distinct (filter (\<lambda>t. \<not> overlaps mn mx t) dst @ ts)"
  shows "level_sorted (sort_key st_min_key (filter (\<lambda>t. \<not> overlaps mn mx t) dst @ ts))"
proof (rule sort_key_level_sorted [OF dist])
  note tabs = compact_setting_tables [OF set]
  let ?B = "filter (\<lambda>t. \<not> overlaps mn mx t) dst"
  have good: "good_table (lib_sst L) (db_opts db) (db_files db) t" if "t \<in> set src \<union> set dst" for t
    using tabs(1) that by blast
  have ends: "\<exists>x y. x \<in> set (concat (map snd outs)) \<and> y \<in> set (concat (map snd outs)) \<and>
      fst x = st_min_key t \<and> fst y = st_max_key t \<and> fst x \<le> fst y" if tt: "t \<in> set ts" for t
  proof -
    obtain i where i: "i < length ts" "ts ! i = t" using tt by (auto simp: in_set_conv_nth)
    have len: "length outs = length ts" using outs by (rule list_all2_lengthD)
    have holds: "table_holds (lib_sst L) n m files t (snd (outs ! i))"
      using outs i by (auto simp: list_all2_conv_all_nth)
    note f = table_holds_entries [OF holds]
    let ?es = "snd (outs ! i)"
    have "hd ?es \<in> set (concat (map snd outs))" "last ?es \<in> set (concat (map snd outs))"
      using f(1) i len by (auto intro!: bexI [of _ "outs ! i"])
    moreover have "fst (hd ?es) \<le> fst (last ?es)"
      using entries_sorted_range [OF f(2), of "last ?es"] f(1) by simp
    ultimately show ?thesis using f(3,4) by metis
  qed
  show "\<forall>t \<in> set (?B @ ts). st_min_key t \<le> st_max_key t"
    using ends good_table_min_max [OF good] by fastforce
  have key_in: "\<exists>t. (t \<in> set src \<and> mv t \<or> t \<in> set dst \<and> overlaps mn mx t) \<and>
      st_min_key t \<le> fst x \<and> fst x \<le> st_max_key t" if xx: "x \<in> set (concat (map snd outs))" for x
  proof -
    obtain t where t: "t \<in> set (filter mv src @ filter (overlaps mn mx) dst)"
      "x \<in> set (table_entries (lib_sst L) (db_files db) t)"
      using keys xx unfolding level_set_def by blast
    then show ?thesis using good_table_facts(3) [OF good t(2)] by auto
  qed
  have bt: "apart b t" if b: "b \<in> set ?B" and t: "t \<in> set ts" for b t
  proof -
    obtain x y where xy: "x \<in> set (concat (map snd outs))" "y \<in> set (concat (map snd outs))"
      "fst x = st_min_key t" "fst y = st_max_key t"
      using ends [OF t] by blast
    obtain s0 where s0: "s0 \<in> set src" "mv s0"
      using source_ids_facts(1,2) [of level src] set
      by (auto simp: compact_setting_def mv_def) (metis imageE list.set_sel(1) subsetD)
    have le: "mn \<le> mx"
      using compact_setting_range [OF set s0(1)] s0(2) good_table_min_max [OF good, of s0] s0(1)
      unfolding mv_def by (metis UnI1 order.trans)
    have wf: "\<forall>t \<in> set dst. st_min_key t \<le> st_max_key t" using good_table_min_max [OF good] by blast
    have b': "b \<in> set dst" "st_max_key b < mn \<or> st_min_key b > mx" using b by (auto simp: overlaps_def)
    from untouched_side [OF tabs(3) wf b' le] show ?thesis
    proof
      assume low: "st_max_key b < mn \<and> (\<forall>d \<in> set dst. \<not> (st_max_key d < mn \<or> st_min_key d > mx) \<longrightarrow>
        st_max_key b < st_min_key d)"
      obtain u where u: "u \<in> set src \<and> mv u \<or> u \<in> set dst \<and> overlaps mn mx u" "st_min_key u \<le> fst x"
        using key_in [OF xy(1)] by blast
      have "st_max_key b < st_min_key u"
        using u(1) low compact_setting_range(1) [OF set, of u] unfolding mv_def overlaps_def
        by (meson less_le_trans)
      then show ?thesis using u(2) xy(3) by (auto simp: apart_def)
    next
      assume high: "mx < st_min_key b \<and> (\<forall>d \<in> set dst. \<not> (st_max_key d < mn \<or> st_min_key d > mx) \<longrightarrow>
        st_max_key d < st_min_key b)"
      obtain u where u: "u \<in> set src \<and> mv u \<or> u \<in> set dst \<and> overlaps mn mx u" "fst y \<le> st_max_key u"
        using key_in [OF xy(2)] by blast
      have "st_max_key u < st_min_key b"
        using u(1) high compact_setting_range(2) [OF set, of u] unfolding mv_def overlaps_def
        by (meson le_less_trans)
      then show ?thesis using u(2) xy(4) by (auto simp: apart_def)
    qed
  qed
  have "apart a b" if "a \<in> set ?B" "b \<in> set ?B" "a \<noteq> b" for a b
    using level_sorted_apart [OF tabs(3)] that by simp
  moreover have "apart a b" if "a \<in> set ts" "b \<in> set ts" "a \<noteq> b" for a b
    using outs_apart [OF outs sep] that by blast
  moreover have "apart a b \<longleftrightarrow> apart b a" for a b by (auto simp: apart_def)
  ultimately show "\<forall>a \<in> set (?B @ ts). \<forall>b \<in> set (?B @ ts). a \<noteq> b \<longrightarrow> apart a b"
    using bt unfolding set_append by blast
qed

section \<open>A compaction step\<close>

text \<open>The first state of the output loop.\<close>

abbreviation compact_start :: "nat \<Rightarrow> table_files \<Rightarrow> compact_state" where
  "compact_start tid files \<equiv>
     \<lparr>cs_builder = None, cs_builder_id = 0, cs_next_id = tid, cs_out_bytes = 0, cs_cur_key = None,
      cs_kept_baseline = False, cs_last_written = None, cs_outputs = [], cs_files = files\<rparr>"

text \<open>The manifest after a compaction of \<open>level\<close>.\<close>

definition swapped_levels :: "nat \<Rightarrow> nat list \<Rightarrow> nat list \<Rightarrow> table_meta list \<Rightarrow> table_meta list list \<Rightarrow> table_meta list list" where
  "swapped_levels level src_ids dst_ids outputs lvls =
     (let lvls = lvls[level := filter (\<lambda>t. tm_id t \<notin> set src_ids) (lvls ! level)]
      in lvls[level + 1 := sort_key tm_min_key
           (filter (\<lambda>t. tm_id t \<notin> set dst_ids) (lvls ! (level + 1)) @ outputs)])"

lemma iter_inputs:
  assumes set: "compact_setting L ops db level ups src dst downs mn mx"
  shows "iter_all (lib_sst L) (db_files db) (filter P src @ filter Q dst) =
     Inr (map (table_entries (lib_sst L) (db_files db)) (filter P src @ filter Q dst))"
    and "entries_ordered (merge_iter (map (table_entries (lib_sst L) (db_files db)) (filter P src @ filter Q dst)))"
    and "set (merge_iter (map (table_entries (lib_sst L) (db_files db)) (filter P src @ filter Q dst))) =
       level_set (lib_sst L) (db_files db) (filter P src @ filter Q dst)"
    and "level_set (lib_sst L) (db_files db) (filter P src @ filter Q dst) \<subseteq> versions_of ops"
proof -
  let ?ts = "filter P src @ filter Q dst"
  have good: "\<forall>t \<in> set ?ts. good_table (lib_sst L) (db_opts db) (db_files db) t"
    using compact_setting_tables(1) [OF set] by auto
  show "iter_all (lib_sst L) (db_files db) ?ts = Inr (map (table_entries (lib_sst L) (db_files db)) ?ts)"
    by (rule iter_all_good [OF good])
  show "entries_ordered (merge_iter (map (table_entries (lib_sst L) (db_files db)) ?ts))"
  proof (rule merge_iter_ordered, rule ballI)
    fix es assume "es \<in> set (map (table_entries (lib_sst L) (db_files db)) ?ts)"
    then obtain t where t: "t \<in> set ?ts" "es = table_entries (lib_sst L) (db_files db) t" by auto
    show "entries_ordered es"
      unfolding t(2) by (rule entries_sorted_ordered, rule good_table_facts(2), rule bspec [OF good t(1)])
  qed
  show "set (merge_iter (map (table_entries (lib_sst L) (db_files db)) ?ts)) =
      level_set (lib_sst L) (db_files db) ?ts"
    by (simp add: set_merge_iter level_set_def)
  have "level_set (lib_sst L) (db_files db) ?ts \<subseteq> all_versions L db"
    using set by (auto simp: compact_setting_def sources_def level_set_def)
  then show "level_set (lib_sst L) (db_files db) ?ts \<subseteq> versions_of ops"
    using set by (auto simp: compact_setting_def db_inv_def)
qed

lemma compact_level_run:
  fixes L :: storage_lib
  assumes set: "compact_setting L ops db level ups src dst downs mn mx"
    and fits: "history_fits L (db_opts db) ops"
  defines "mv \<equiv> \<lambda>t. st_id t \<in> set (source_ids level src)"
    and "lev \<equiv> level_set (lib_sst L) (db_files db)"
    and "bottom \<equiv> \<forall>l \<in> set [level + 2..<length (db_levels db)]. db_levels db ! l = []"
  shows "\<exists>st outs ts st1.
     each_ok (compact_entry (lib_sst L) (db_opts db) (min_snapshot db) bottom)
       (merge_iter (map (table_entries (lib_sst L) (db_files db)) (filter mv src @ filter (overlaps mn mx) dst)))
       (compact_start (next_table_id (db_manifest db)) (db_files db)) = Inr st1 \<and>
     finish_output (lib_sst L) st1 = Inr st \<and>
     cs_inv (lib_sst L) (db_opts db) (next_table_id (db_manifest db)) (db_files db) outs [] st \<and>
     open_all (lib_sst L) (cs_files st) (map tm_id (cs_outputs st)) = Inr ts \<and>
     list_all2 (\<lambda>o' t. st_id t = fst o' \<and>
        table_holds (lib_sst L) (block_bytes (db_opts db)) (bits_per_key (db_opts db)) (cs_files st) t (snd o')) outs ts \<and>
     set (concat (map snd outs)) = survivors (min_snapshot db) bottom (lev (filter mv src) \<union> lev (filter (overlaps mn mx) dst)) \<and>
     entries_sorted (concat (map snd outs)) \<and> sorted_wrt keys_below (map snd outs)"
proof -
  let ?in = "filter mv src @ filter (overlaps mn mx) dst"
  let ?es = "merge_iter (map (table_entries (lib_sst L) (db_files db)) ?in)"
  note it = iter_inputs [OF set, of mv "overlaps mn mx"]
  have sv: "single_valued_versions (set ?es)"
    unfolding it(3) using single_valued_versions_subset [OF it(4) single_valued_versions_of] .
  obtain st1 st outs where run:
    "each_ok (compact_entry (lib_sst L) (db_opts db) (min_snapshot db) bottom) ?es
       (compact_start (next_table_id (db_manifest db)) (db_files db)) = Inr st1"
    "finish_output (lib_sst L) st1 = Inr st"
    "cs_inv (lib_sst L) (db_opts db) (next_table_id (db_manifest db)) (db_files db) outs [] st"
    "entries_sorted (concat (map snd outs))"
    "set (concat (map snd outs)) = survivors (min_snapshot db) bottom (set ?es)"
    "sorted_wrt keys_below (map snd outs)"
    using compact_run [OF it(2) sv, of "lib_sst L" "db_opts db" "min_snapshot db" bottom
        "next_table_id (db_manifest db)" "db_files db"] by blast
  have outs: "list_all2 (out_ok (lib_sst L) (db_opts db) (cs_files st)) outs (cs_outputs st)"
    using run(3) by (simp add: cs_inv_def)
  have "table_fits (lib_sst L) (block_bytes (db_opts db)) (bits_per_key (db_opts db)) (snd o') \<and> entries_sorted (snd o')"
    if o': "o' \<in> set outs" for o'
  proof -
    have sorted: "entries_sorted (snd o')" using sorted_concat_parts [OF run(4)] o' by simp
    have "snd o' \<noteq> []" using outs o' by (auto simp: list_all2_conv_all_nth in_set_conv_nth out_ok_def)
    moreover have "set (snd o') \<subseteq> set (concat (map snd outs))" using o' by auto
    then have "set (snd o') \<subseteq> versions_of ops"
      using run(5) survivors_subset it(3,4) by blast
    ultimately show ?thesis using fits sorted by (simp add: history_fits_def)
  qed
  then obtain ts where ts: "open_all (lib_sst L) (cs_files st) (map tm_id (cs_outputs st)) = Inr ts"
     "list_all2 (\<lambda>o' t. st_id t = fst o' \<and>
        table_holds (lib_sst L) (block_bytes (db_opts db)) (bits_per_key (db_opts db)) (cs_files st) t (snd o')) outs ts"
    using open_all_outs [OF outs] by blast
  show ?thesis
    using run(1,2,3,4,5,6) ts unfolding it(3) level_set_append lev_def by blast
qed

abbreviation padded :: "nat \<Rightarrow> db \<Rightarrow> db" where
  "padded level db \<equiv>
     db\<lparr>db_levels := pad_levels (level + 1) (db_levels db),
        db_manifest := (db_manifest db)\<lparr>mf_levels := pad_levels (level + 1) (mf_levels (db_manifest db))\<rparr>\<rparr>"

text \<open>The database after the compaction, in terms of the run of the output loop.\<close>

definition compacted :: "storage_lib \<Rightarrow> nat \<Rightarrow> db \<Rightarrow> ss_table list list \<Rightarrow> ss_table list \<Rightarrow> ss_table list \<Rightarrow>
    ss_table list list \<Rightarrow> bytes \<Rightarrow> bytes \<Rightarrow> compact_state \<Rightarrow> ss_table list \<Rightarrow> db" where
  "compacted L level db ups src dst downs mn mx st ts =
     (let src_ids = source_ids level src; dst_ids = map st_id (filter (overlaps mn mx) dst);
          m = (db_manifest db)\<lparr>next_table_id := cs_next_id st,
                mf_levels := swapped_levels level src_ids dst_ids (cs_outputs st) (mf_levels (db_manifest db))\<rparr>
      in db\<lparr>db_manifest := m, db_mdir := manifest_save (lib_man L) m (db_mdir db),
            db_levels := ups @ filter (\<lambda>t. st_id t \<notin> set src_ids) src #
              sort_key st_min_key (filter (\<lambda>t. \<not> overlaps mn mx t) dst @ ts) # downs,
            db_files := fold (\<lambda>i f. f(i := None)) (src_ids @ dst_ids) (cs_files st)\<rparr>)"

lemma compact_level_eq:
  fixes L :: storage_lib
  assumes set: "compact_setting L ops db level ups src dst downs mn mx"
  defines "mv \<equiv> \<lambda>t. st_id t \<in> set (source_ids level src)"
  assumes db: "db = padded level db0"
    and run: "each_ok (compact_entry (lib_sst L) (db_opts db) (min_snapshot db)
         (\<forall>l \<in> set [level + 2..<length (db_levels db)]. db_levels db ! l = []))
       (merge_iter (map (table_entries (lib_sst L) (db_files db)) (filter mv src @ filter (overlaps mn mx) dst)))
       (compact_start (next_table_id (db_manifest db)) (db_files db)) = Inr st1"
    and fin: "finish_output (lib_sst L) st1 = Inr st"
    and opn: "open_all (lib_sst L) (cs_files st) (map tm_id (cs_outputs st)) = Inr ts"
  shows "compact_level L level db0 = Inr (compacted L level db ups src dst downs mn mx st ts)"
proof -
  have lv: "db_levels db = ups @ src # dst # downs" and level: "length ups = level" and ne: "src \<noteq> []"
    and range: "key_range (filter mv src) = (Some mn, Some mx)"
    using set by (simp_all add: compact_setting_def mv_def)
  have dist: "distinct (map st_id dst)" using compact_setting_tables(2) [OF set] by simp
  note ids = filter_ids [OF dist, of "overlaps mn mx"]
  have nth: "db_levels db ! level = src" "db_levels db ! (level + 1) = dst"
    using lv level by (simp_all add: nth_append)
  have src_ids: "source_ids level src \<noteq> []" using source_ids_facts(1) ne by blast
  have upd: "(db_levels db)[level := filter (\<lambda>t. \<not> mv t) src] = ups @ filter (\<lambda>t. \<not> mv t) src # dst # downs"
    using lv level by (simp add: list_update_append)
  have upd2: "(ups @ a # dst # downs)[level + 1 := x] = ups @ a # x # downs"
      "(ups @ a # dst # downs) ! (level + 1) = dst" for a x
    using level by (simp_all add: list_update_append nth_append)
  have iter: "iter_all (lib_sst L) (db_files db) (filter mv src @ filter (overlaps mn mx) dst) =
      Inr (map (table_entries (lib_sst L) (db_files db)) (filter mv src @ filter (overlaps mn mx) dst))"
    by (rule iter_inputs(1) [OF set])
  show ?thesis
    unfolding compact_level_def Let_def db [symmetric] nth
    by (simp only: range [unfolded mv_def] src_ids simp_thms if_False option.case prod.case ids
        iter [unfolded mv_def] run [unfolded mv_def] fin opn and_then.simps upd [unfolded mv_def] upd2
        compacted_def Let_def swapped_levels_def)
qed

lemma compacted_fields:
  "db_mem (compacted L level db ups src dst downs mn mx st ts) = db_mem db"
  "db_opts (compacted L level db ups src dst downs mn mx st ts) = db_opts db"
  "db_seq (compacted L level db ups src dst downs mn mx st ts) = db_seq db"
  "db_wal (compacted L level db ups src dst downs mn mx st ts) = db_wal db"
  "db_snapshots (compacted L level db ups src dst downs mn mx st ts) = db_snapshots db"
  "next_table_id (db_manifest (compacted L level db ups src dst downs mn mx st ts)) = cs_next_id st"
  "last_seq (db_manifest (compacted L level db ups src dst downs mn mx st ts)) = last_seq (db_manifest db)"
  "db_levels (compacted L level db ups src dst downs mn mx st ts) =
     ups @ filter (\<lambda>t. st_id t \<notin> set (source_ids level src)) src #
     sort_key st_min_key (filter (\<lambda>t. \<not> overlaps mn mx t) dst @ ts) # downs"
  "db_files (compacted L level db ups src dst downs mn mx st ts) =
     fold (\<lambda>i f. f(i := None)) (source_ids level src @ map st_id (filter (overlaps mn mx) dst)) (cs_files st)"
  by (simp_all add: compacted_def Let_def)

text \<open>The files of the tables that stay and of the new tables survive the clean-up.\<close>

lemma compacted_files:
  assumes set: "compact_setting L ops db level ups src dst downs mn mx"
    and inv: "cs_inv L' opts (next_table_id (db_manifest db)) (db_files db) outs [] st"
    and outs: "list_all2 (\<lambda>o' t. st_id t = fst o' \<and> Q o' t) outs ts"
  shows "t \<in> set (concat ups) \<union> set (filter (\<lambda>t. st_id t \<notin> set (source_ids level src)) src) \<union>
           set (filter (\<lambda>t. \<not> overlaps mn mx t) dst) \<union> set (concat downs) \<Longrightarrow>
         db_files (compacted L level db ups src dst downs mn mx st ts) (st_id t) = db_files db (st_id t)"
    and "t \<in> set ts \<Longrightarrow>
         db_files (compacted L level db ups src dst downs mn mx st ts) (st_id t) = cs_files st (st_id t)"
    and "t \<in> set ts \<Longrightarrow> next_table_id (db_manifest db) \<le> st_id t \<and> st_id t < cs_next_id st"
    and "distinct (map st_id ts)" and "next_table_id (db_manifest db) \<le> cs_next_id st"
proof -
  let ?id0 = "next_table_id (db_manifest db)"
  note tabs = compact_setting_tables [OF set]
  let ?del = "source_ids level src @ map st_id (filter (overlaps mn mx) dst)"
  let ?all = "concat ups @ src @ dst @ concat downs"
  have old: "set ?del \<subseteq> st_id ` (set src \<union> set dst)" using source_ids_facts(2) [of level src] by auto
  have less: "i < ?id0" if "i \<in> set ?del" for i using old that tabs(1) by fastforce
  have ids: "map st_id ts = map fst outs"
    using outs by (induction rule: list_all2_induct) auto
  have fresh: "map fst outs = [?id0..<?id0 + length outs]" "cs_next_id st = ?id0 + length outs"
    and files: "\<forall>i < ?id0. cs_files st i = db_files db i"
    using inv by (simp_all add: cs_inv_def)
  show "distinct (map st_id ts)" unfolding ids fresh(1) by simp
  show "?id0 \<le> cs_next_id st" using fresh(2) by simp
  show rng: "?id0 \<le> st_id t \<and> st_id t < cs_next_id st" if "t \<in> set ts" for t
  proof -
    have "st_id t \<in> set (map st_id ts)" using that by simp
    then show ?thesis unfolding ids fresh by simp
  qed
  show "db_files (compacted L level db ups src dst downs mn mx st ts) (st_id t) = cs_files st (st_id t)"
    if "t \<in> set ts" for t
    using rng [OF that] less [of "st_id t"] unfolding compacted_fields fold_remove by auto
  show "db_files (compacted L level db ups src dst downs mn mx st ts) (st_id t) = db_files db (st_id t)"
    if t: "t \<in> set (concat ups) \<union> set (filter (\<lambda>t. st_id t \<notin> set (source_ids level src)) src) \<union>
           set (filter (\<lambda>t. \<not> overlaps mn mx t) dst) \<union> set (concat downs)" for t
  proof -
    have "st_id t < ?id0" using tabs(1) t by auto
    then have same: "cs_files st (st_id t) = db_files db (st_id t)" using files by blast
    have all: "inj_on st_id (set ?all)" "distinct ?all" using tabs(2) unfolding distinct_map by blast+
    have "st_id t \<notin> set ?del"
    proof
      assume "st_id t \<in> set ?del"
      then obtain u where u: "st_id t = st_id u"
        "u \<in> set src \<and> st_id u \<in> set (source_ids level src) \<or> u \<in> set dst \<and> overlaps mn mx u"
        using source_ids_facts(2) [of level src] by auto
      have "t = u" using inj_onD [OF all(1) u(1)] t u(2) by auto
      then show False using t u all(2) by auto
    qed
    then show ?thesis unfolding compacted_fields fold_remove using same by simp
  qed
qed

lemma distinct_ids_filter:
  fixes f :: "'a \<Rightarrow> 'b"
  assumes "distinct (map f (a @ b @ c @ d))"
  shows "distinct (map f (a @ filter P b @ filter Q c @ d))"
proof -
  have d: "distinct (map f a)" "distinct (map f b)" "distinct (map f c)" "distinct (map f d)"
    "f ` set c \<inter> f ` set d = {}" "f ` set b \<inter> (f ` set c \<union> f ` set d) = {}"
    "f ` set a \<inter> (f ` set b \<union> (f ` set c \<union> f ` set d)) = {}"
    using assms by simp_all
  have sub: "f ` set (filter P b) \<subseteq> f ` set b" "f ` set (filter Q c) \<subseteq> f ` set c" by auto
  have mono: "X \<inter> Z = {}" if "Y \<inter> W = {}" "X \<subseteq> Y" "Z \<subseteq> W" for X Y Z W :: "'b set"
    using that by blast
  have "f ` set (filter Q c) \<inter> f ` set d = {}"
    by (rule mono [OF d(5) sub(2) order.refl])
  moreover have "f ` set (filter P b) \<inter> (f ` set (filter Q c) \<union> f ` set d) = {}"
    by (rule mono [OF d(6) sub(1) Un_mono [OF sub(2) order.refl]])
  moreover have "f ` set a \<inter> (f ` set (filter P b) \<union> (f ` set (filter Q c) \<union> f ` set d)) = {}"
    by (rule mono [OF d(7) order.refl Un_mono [OF sub(1) Un_mono [OF sub(2) order.refl]]])
  ultimately show ?thesis using d(1-4) by (simp add: distinct_map_filter del: set_filter)
qed

lemma compacted_tables_ok:
  fixes L :: storage_lib
  assumes set: "compact_setting L ops db level ups src dst downs mn mx"
    and inv: "cs_inv (lib_sst L) (db_opts db) (next_table_id (db_manifest db)) (db_files db) outs [] st"
    and outs: "list_all2 (\<lambda>o' t. st_id t = fst o' \<and>
        table_holds (lib_sst L) (block_bytes (db_opts db)) (bits_per_key (db_opts db)) (cs_files st) t (snd o')) outs ts"
    and sep: "sorted_wrt keys_below (map snd outs)"
    and keys: "\<forall>x \<in> set (concat (map snd outs)). x \<in> level_set (lib_sst L) (db_files db)
      (filter (\<lambda>t. st_id t \<in> set (source_ids level src)) src @ filter (overlaps mn mx) dst)"
  shows "tables_ok L (compacted L level db ups src dst downs mn mx st ts)"
proof -
  let ?db = "compacted L level db ups src dst downs mn mx st ts"
  let ?A = "filter (\<lambda>t. st_id t \<notin> set (source_ids level src)) src"
  let ?B = "filter (\<lambda>t. \<not> overlaps mn mx t) dst"
  let ?new = "sort_key st_min_key (?B @ ts)"
  note tabs = compact_setting_tables [OF set] and files = compacted_files [OF set inv outs]
  have opts: "db_opts ?db = db_opts db" by (rule compacted_fields)
  have kept: "good_table (lib_sst L) (db_opts db) (db_files ?db) t \<and> st_id t < cs_next_id st"
    if "t \<in> set (concat ups) \<union> set ?A \<union> set ?B \<union> set (concat downs)" for t
  proof -
    have "good_table (lib_sst L) (db_opts db) (db_files db) t" "st_id t < next_table_id (db_manifest db)"
      using tabs(1) that by auto
    then show ?thesis
      using good_table_file [of "db_files ?db" t "db_files db", OF files(1) [OF that]] files(5) by simp
  qed
  have new: "good_table (lib_sst L) (db_opts db) (db_files ?db) t \<and> st_id t < cs_next_id st" if t: "t \<in> set ts" for t
  proof -
    obtain i where i: "i < length ts" "ts ! i = t" using t by (auto simp: in_set_conv_nth)
    have "table_holds (lib_sst L) (block_bytes (db_opts db)) (bits_per_key (db_opts db)) (cs_files st) t (snd (outs ! i))"
      using outs i by (auto simp: list_all2_conv_all_nth)
    then have "good_table (lib_sst L) (db_opts db) (cs_files st) t" by (rule table_holds_good(1))
    then show ?thesis
      using good_table_file [of "db_files ?db" t "cs_files st", OF files(2) [OF t]] files(3) [OF t] by simp
  qed
  have old: "distinct (map st_id (concat ups @ ?A @ ?B @ concat downs))"
    using tabs(2) by (rule distinct_ids_filter)
  have low: "st_id t < next_table_id (db_manifest db)"
    if "t \<in> set (concat ups @ ?A @ ?B @ concat downs)" for t
    using tabs(1) that by auto
  let ?old = "concat ups @ ?A @ ?B @ concat downs"
  have apart: "st_id ` set xs \<inter> st_id ` set ts = {}" if xs: "set xs \<subseteq> set ?old" for xs
  proof -
    have "st_id x \<noteq> st_id t" if "x \<in> set xs" "t \<in> set ts" for x t
      using low [of x] files(3) [OF that(2)] subsetD [OF xs that(1)] by linarith
    then show ?thesis by blast
  qed
  have dist: "distinct (map st_id (?old @ ts))"
    unfolding map_append [of _ ?old] distinct_append set_map using old files(4) apart [OF subset_refl] by blast
  have "mset (concat ups @ ?A @ ?new @ concat downs) = mset (?old @ ts)" by simp
  then have "mset (map st_id (concat ups @ ?A @ ?new @ concat downs)) = mset (map st_id (?old @ ts))"
    by (simp only: mset_map)
  then have "distinct (map st_id (concat ups @ ?A @ ?new @ concat downs))"
    using dist mset_eq_imp_distinct_iff by blast
  then have "distinct (map st_id (concat (db_levels ?db)))" by (simp add: compacted_fields)
  moreover have "distinct (map st_id (?B @ ts))"
  proof -
    have "set ?B \<subseteq> set ?old" by auto
    from apart [OF this] show ?thesis using old files(4) by (simp add: distinct_map_filter)
  qed
  then have "distinct (?B @ ts)" unfolding distinct_map by blast
  then have "level_sorted ?new" by (rule new_level_sorted [OF set outs sep keys])
  then have "\<forall>ls \<in> set (tl (db_levels ?db)). level_sorted ls"
    using tabs(4,5) level_sorted_filter set
    by (cases ups) (auto simp: compacted_fields compact_setting_def)
  moreover have "\<forall>t \<in> set (concat (db_levels ?db)).
      good_table (lib_sst L) (db_opts ?db) (db_files ?db) t \<and> st_id t < next_table_id (db_manifest ?db)"
  proof
    fix t assume "t \<in> set (concat (db_levels ?db))"
    then have "t \<in> set (concat ups) \<union> set ?A \<union> set ?B \<union> set (concat downs) \<or> t \<in> set ts"
      by (auto simp: compacted_fields(8))
    then show "good_table (lib_sst L) (db_opts ?db) (db_files ?db) t \<and> st_id t < next_table_id (db_manifest ?db)"
      using kept new unfolding compacted_fields(2,6) by blast
  qed
  ultimately show ?thesis unfolding tables_ok_def by (simp add: compacted_fields(8))
qed

lemma compacted_sources:
  fixes L :: storage_lib
  assumes set: "compact_setting L ops db level ups src dst downs mn mx"
    and inv: "cs_inv (lib_sst L) (db_opts db) (next_table_id (db_manifest db)) (db_files db) outs [] st"
    and outs: "list_all2 (\<lambda>o' t. st_id t = fst o' \<and>
        table_holds (lib_sst L) (block_bytes (db_opts db)) (bits_per_key (db_opts db)) (cs_files st) t (snd o')) outs ts"
  defines "lev \<equiv> level_set (lib_sst L) (db_files db)"
  shows "sources L (compacted L level db ups src dst downs mn mx st ts) =
     (set (mt_iter (db_mem db)) # map lev ups) @
     lev (filter (\<lambda>t. st_id t \<notin> set (source_ids level src)) src) #
     (lev (filter (\<lambda>t. \<not> overlaps mn mx t) dst) \<union> set (concat (map snd outs))) # map lev downs"
proof -
  let ?db = "compacted L level db ups src dst downs mn mx st ts"
  let ?A = "filter (\<lambda>t. st_id t \<notin> set (source_ids level src)) src"
  let ?B = "filter (\<lambda>t. \<not> overlaps mn mx t) dst"
  let ?lev' = "level_set (lib_sst L) (db_files ?db)"
  note files = compacted_files [OF set inv outs]
  have same: "?lev' ls = lev ls" if "set ls \<subseteq> set (concat ups) \<union> set ?A \<union> set ?B \<union> set (concat downs)" for ls
    unfolding lev_def by (rule level_set_file, rule ballI, rule files(1)) (use that in blast)
  have "?lev' ts = (\<Union>t \<in> set ts. set (table_entries (lib_sst L) (cs_files st) t))"
    unfolding level_set_def using table_entries_file [of "db_files ?db" _ "cs_files st", OF files(2)] by simp
  also have "\<dots> = set (concat (map snd outs))"
  proof -
    have "map (table_entries (lib_sst L) (cs_files st)) ts = map snd outs"
      using outs by (induction rule: list_all2_induct) (auto dest: table_holds_good(2))
    then have "set (concat (map (table_entries (lib_sst L) (cs_files st)) ts)) = set (concat (map snd outs))"
      by simp
    then show ?thesis by simp
  qed
  finally have ts: "?lev' ts = set (concat (map snd outs))" .
  have "?lev' (sort_key st_min_key (?B @ ts)) = ?lev' ?B \<union> ?lev' ts"
    using level_set_cong [of "sort_key st_min_key (?B @ ts)" "?B @ ts"] level_set_append by simp
  moreover have "?lev' ?B = lev ?B" "?lev' ?A = lev ?A" by (rule same; auto)+
  moreover have "map ?lev' ups = map lev ups" "map ?lev' downs = map lev downs" by (auto intro!: same)
  ultimately show ?thesis by (simp add: sources_def compacted_fields(1,8) ts)
qed

text \<open>
  What is known of the database \<open>db'\<close> that a compaction of \<open>level\<close> makes of the padded database \<open>db\<close>.
\<close>

definition compact_result :: "storage_lib \<Rightarrow> (bytes \<times> bytes option) list \<Rightarrow> nat \<Rightarrow> db \<Rightarrow> db \<Rightarrow>
    ss_table list list \<Rightarrow> ss_table list \<Rightarrow> ss_table list \<Rightarrow> ss_table list list \<Rightarrow> bytes \<Rightarrow> bytes \<Rightarrow>
    compact_state \<Rightarrow> (nat \<times> entry list) list \<Rightarrow> ss_table list \<Rightarrow> bool" where
  "compact_result L ops level db db' ups src dst downs mn mx st outs ts \<longleftrightarrow>
     compact_setting L ops db level ups src dst downs mn mx \<and>
     cs_inv (lib_sst L) (db_opts db) (next_table_id (db_manifest db)) (db_files db) outs [] st \<and>
     list_all2 (\<lambda>o' t. st_id t = fst o' \<and>
        table_holds (lib_sst L) (block_bytes (db_opts db)) (bits_per_key (db_opts db)) (cs_files st) t (snd o')) outs ts \<and>
     set (concat (map snd outs)) = survivors (min_snapshot db)
        (\<forall>l \<in> set [level + 2..<length (db_levels db)]. db_levels db ! l = [])
        (level_set (lib_sst L) (db_files db) (filter (\<lambda>t. st_id t \<in> set (source_ids level src)) src) \<union>
         level_set (lib_sst L) (db_files db) (filter (overlaps mn mx) dst)) \<and>
     entries_sorted (concat (map snd outs)) \<and>
     sorted_wrt keys_below (map snd outs) \<and>
     db' = compacted L level db ups src dst downs mn mx st ts"

lemma compact_level_cases:
  assumes inv: "db_inv L ops db0" and fits: "history_fits L (db_opts db0) ops"
  shows "db_levels (padded level db0) ! level = [] \<and> compact_level L level db0 = Inr (padded level db0) \<or>
     db_levels (padded level db0) ! level \<noteq> [] \<and>
     (\<exists>db' ups src dst downs mn mx st outs ts. compact_level L level db0 = Inr db' \<and>
        compact_result L ops level (padded level db0) db' ups src dst downs mn mx st outs ts)"
proof -
  define db where "db = padded level db0"
  have inv': "db_inv L ops db" unfolding db_def by (rule pad_levels_inv [OF inv]) simp
  have opts: "db_opts db = db_opts db0" by (simp add: db_def)
  have len: "level + 2 \<le> length (db_levels db)" by (simp add: db_def pad_levels_def)
  show ?thesis
  proof (cases "db_levels db ! level = []")
    case True
    then have "compact_level L level db0 = Inr db"
      using source_ids_facts(1) [of level "[]"] by (simp add: compact_level_def Let_def db_def)
    then show ?thesis using True unfolding db_def by blast
  next
    case False
    obtain ups src dst downs mn mx where set: "compact_setting L ops db level ups src dst downs mn mx"
      using compact_setting_ex [OF inv' len False] by blast
    obtain st outs ts st1 where run:
      "each_ok (compact_entry (lib_sst L) (db_opts db) (min_snapshot db)
          (\<forall>l \<in> set [level + 2..<length (db_levels db)]. db_levels db ! l = []))
         (merge_iter (map (table_entries (lib_sst L) (db_files db))
            (filter (\<lambda>t. st_id t \<in> set (source_ids level src)) src @ filter (overlaps mn mx) dst)))
         (compact_start (next_table_id (db_manifest db)) (db_files db)) = Inr st1"
      "finish_output (lib_sst L) st1 = Inr st"
      and rest: "compact_result L ops level db (compacted L level db ups src dst downs mn mx st ts)
         ups src dst downs mn mx st outs ts"
      and opn: "open_all (lib_sst L) (cs_files st) (map tm_id (cs_outputs st)) = Inr ts"
      using compact_level_run [OF set fits [folded opts]] set unfolding compact_result_def by blast
    have "compact_level L level db0 = Inr (compacted L level db ups src dst downs mn mx st ts)"
      by (rule compact_level_eq [OF set db_def run opn])
    then show ?thesis using False rest unfolding db_def by blast
  qed
qed

lemma compact_result_inv:
  assumes res: "compact_result L ops level db db' ups src dst downs mn mx st outs ts"
  shows "db_inv L ops db'"
proof -
  let ?lev = "level_set (lib_sst L) (db_files db)"
  let ?mv = "\<lambda>t. st_id t \<in> set (source_ids level src)"
  define bottom where "bottom \<longleftrightarrow> (\<forall>l \<in> set [level + 2..<length (db_levels db)]. db_levels db ! l = [])"
  have set: "compact_setting L ops db level ups src dst downs mn mx"
    and cs: "cs_inv (lib_sst L) (db_opts db) (next_table_id (db_manifest db)) (db_files db) outs [] st"
    and outs: "list_all2 (\<lambda>o' t. st_id t = fst o' \<and>
      table_holds (lib_sst L) (block_bytes (db_opts db)) (bits_per_key (db_opts db)) (cs_files st) t (snd o')) outs ts"
    and surv: "set (concat (map snd outs)) =
      survivors (min_snapshot db) bottom (?lev (filter ?mv src) \<union> ?lev (filter (overlaps mn mx) dst))"
    and sep: "sorted_wrt keys_below (map snd outs)"
    and db': "db' = compacted L level db ups src dst downs mn mx st ts"
    using res by (simp_all add: compact_result_def bottom_def)
  have inv: "db_inv L ops db" and lv: "db_levels db = ups @ src # dst # downs" "length ups = level"
    using set by (simp_all add: compact_setting_def)
  have downs: "bottom \<longrightarrow> (\<forall>ls \<in> set downs. ls = [])"
  proof (intro impI ballI)
    fix ls assume b: bottom and "ls \<in> set downs"
    then obtain i where i: "i < length downs" "downs ! i = ls" by (auto simp: in_set_conv_nth)
    have "db_levels db ! (level + 2 + i) = ls" using lv i by (simp add: nth_append)
    moreover have "level + 2 + i < length (db_levels db)" using lv i by simp
    then have "level + 2 + i \<in> set [level + 2..<length (db_levels db)]" by simp
    ultimately show "ls = []" using b unfolding bottom_def by blast
  qed
  note sets = setting_sets [OF set downs]
  have src': "sources L db' = (set (mt_iter (db_mem db)) # map ?lev ups) @ ?lev (filter (\<lambda>t. \<not> ?mv t) src) #
      (?lev (filter (\<lambda>t. \<not> overlaps mn mx t) dst) \<union>
        survivors (min_snapshot db) bottom (?lev (filter ?mv src) \<union> ?lev (filter (overlaps mn mx) dst))) #
      map ?lev downs"
    using compacted_sources [OF set cs outs] surv by (simp add: db')
  have sub: "all_versions L db' \<subseteq> all_versions L db"
    unfolding src' sets(2) using survivors_subset [of "min_snapshot db" bottom] by fastforce
  have tabs: "tables_ok L db'"
    unfolding db'
  proof (rule compacted_tables_ok [OF set cs outs sep], rule ballI)
    fix x assume "x \<in> set (concat (map snd outs))"
    then have "x \<in> ?lev (filter ?mv src) \<union> ?lev (filter (overlaps mn mx) dst)"
      unfolding surv using survivors_subset by blast
    then show "x \<in> ?lev (filter ?mv src @ filter (overlaps mn mx) dst)" by (simp add: level_set_append)
  qed
  have fields: "db_seq db' = db_seq db" "db_snapshots db' = db_snapshots db" "db_mem db' = db_mem db"
    by (simp_all add: db' compacted_fields)
  have "visible_ok L ops db'"
    unfolding visible_ok_def
  proof (intro allI impI)
    fix k sn r assume ms: "min_snapshot db' \<le> sn" and nw: "newest (all_versions L db') k sn r"
    have ms': "min_snapshot db \<le> sn" using ms min_snapshot_cong [OF fields(1,2)] by simp
    obtain r' where r': "newest (all_versions L db) k sn r'" "live_value r' = live_value r"
      using compaction_visible [OF sets(1) ms' nw [unfolded src']] unfolding sets(2) by blast
    have "live_value r' = state_at ops sn k"
      using inv ms' r'(1) unfolding db_inv_def visible_ok_def by blast
    then show "live_value r = state_at ops sn k" using r'(2) by simp
  qed
  moreover have "sorted_wrt up_closed (sources L db')"
    unfolding src' by (rule compaction_up_closed [OF sets(1)])
  ultimately show ?thesis using inv tabs sub fields unfolding db_inv_def by auto
qed

text \<open>A compaction returns and keeps the invariant.\<close>

lemma compact_level_ok:
  assumes inv: "db_inv L ops db" and fits: "history_fits L (db_opts db) ops"
  shows "\<exists>db'. compact_level L level db = Inr db' \<and> db_inv L ops db' \<and> db_opts db' = db_opts db"
  using compact_level_cases [OF inv fits, of level]
proof
  assume "db_levels (padded level db) ! level = [] \<and> compact_level L level db = Inr (padded level db)"
  moreover have "db_inv L ops (padded level db)" by (rule pad_levels_inv [OF inv]) simp
  ultimately show ?thesis by auto
next
  assume "db_levels (padded level db) ! level \<noteq> [] \<and>
     (\<exists>db' ups src dst downs mn mx st outs ts. compact_level L level db = Inr db' \<and>
        compact_result L ops level (padded level db) db' ups src dst downs mn mx st outs ts)"
  then obtain db' ups src dst downs mn mx st outs ts where eq: "compact_level L level db = Inr db'"
    and res: "compact_result L ops level (padded level db) db' ups src dst downs mn mx st outs ts"
    by blast
  have "db_opts db' = db_opts db" using res by (simp add: compact_result_def compacted_fields)
  then show ?thesis using eq compact_result_inv [OF res] by blast
qed

section \<open>Compacting as long as a level is too big\<close>

lemma maybe_compact_inv:
  assumes ret: "maybe_compact L db = Some r" and inv: "db_inv L ops db" and fits: "history_fits L (db_opts db) ops"
  shows "\<exists>db'. r = Inr db' \<and> db_inv L ops db' \<and> db_opts db' = db_opts db"
proof -
  have "db_inv L ops db \<longrightarrow> history_fits L (db_opts db) ops \<longrightarrow>
      (\<exists>db'. r = Inr db' \<and> db_inv L ops db' \<and> db_opts db' = db_opts db)"
  proof (rule maybe_compact.raw_induct [where P = "\<lambda>L db r. db_inv L ops db \<longrightarrow> history_fits L (db_opts db) ops \<longrightarrow>
      (\<exists>db'. r = Inr db' \<and> db_inv L ops db' \<and> db_opts db' = db_opts db)", OF _ ret], intro impI)
    fix f L db r
    assume IH: "\<And>L db r. f L db = Some r \<Longrightarrow> db_inv L ops db \<longrightarrow> history_fits L (db_opts db) ops \<longrightarrow>
        (\<exists>db'. r = Inr db' \<and> db_inv L ops db' \<and> db_opts db' = db_opts db)"
      and eq: "(case compact_choice db of
        None \<Rightarrow> Some (Inr db)
      | Some level \<Rightarrow>
          (case compact_level L level db of
             Inl e \<Rightarrow> Some (Inl e)
           | Inr db' \<Rightarrow> f L db')) = Some r"
      and inv: "db_inv L ops db" and fits: "history_fits L (db_opts db) ops"
    show "\<exists>db'. r = Inr db' \<and> db_inv L ops db' \<and> db_opts db' = db_opts db"
    proof (cases "compact_choice db")
      case None
      then show ?thesis using eq inv by auto
    next
      case (Some level)
      obtain db1 where db1: "compact_level L level db = Inr db1" "db_inv L ops db1" "db_opts db1 = db_opts db"
        using compact_level_ok [OF inv fits] by blast
      then have "f L db1 = Some r" using eq Some by simp
      from IH [OF this] db1 fits show ?thesis by auto
    qed
  qed
  then show ?thesis using inv fits by blast
qed

end
