(* ===== verification/Db_Disk.thy ===== *)
theory Db_Disk
  imports Db_Swap
begin

text \<open>
  The catalogue of tables agrees with the open tables, and \<open>maybe_compact\<close> returns: every round
  moves versions to a deeper level, and a level that is deep enough is never over its limit. With
  it every writing operation of the engine returns and keeps the invariant.
\<close>

section \<open>The manifest describes the open tables\<close>

definition meta_matches :: "sst_lib \<Rightarrow> options \<Rightarrow> table_files \<Rightarrow> table_meta \<Rightarrow> ss_table \<Rightarrow> bool" where
  "meta_matches L opts files m t \<longleftrightarrow> out_ok L opts files (st_id t, table_entries L files t) m"

definition levels_match :: "storage_lib \<Rightarrow> db \<Rightarrow> bool" where
  "levels_match L db \<longleftrightarrow>
     mf_levels (db_manifest db) = [] \<and> db_levels db = [[]] \<or>
     list_all2 (list_all2 (meta_matches (lib_sst L) (db_opts db) (db_files db)))
       (mf_levels (db_manifest db)) (db_levels db)"

text \<open>No limit of the first \<open>n\<close> levels reaches \<open>2 ^ 64\<close>, where the computation of a limit would wrap.\<close>

definition limits_fit :: "options \<Rightarrow> nat \<Rightarrow> bool" where
  "limits_fit opts n \<longleftrightarrow> (\<forall>i < n. level_base_bytes opts * level_multiplier opts ^ (i - 1) < 2 ^ 64)"

definition db_ok :: "storage_lib \<Rightarrow> (bytes \<times> bytes option) list \<Rightarrow> db \<Rightarrow> bool" where
  "db_ok L ops db \<longleftrightarrow> db_inv L ops db \<and> history_fits L (db_opts db) ops \<and> levels_match L db \<and>
     limits_fit (db_opts db) (length (db_levels db))"

lemma meta_matches_file:
  "files (st_id t) = files' (st_id t) \<Longrightarrow> meta_matches L opts files m t \<longleftrightarrow> meta_matches L opts files' m t"
  using table_entries_file [of files t files' L] by (simp add: meta_matches_def out_ok_def)

lemma meta_matches_id: "meta_matches L opts files m t \<Longrightarrow> tm_id m = st_id t"
  by (simp add: meta_matches_def out_ok_def)

lemma meta_matches_build:
  assumes "meta_matches L opts files m t"
  shows "\<exists>data. build_table L (block_bytes opts) (bits_per_key opts) (table_entries L files t) =
    Inr (data, tm_entries m, tm_bytes m, tm_min_key m, tm_max_key m)"
  using assms by (auto simp: meta_matches_def out_ok_def)

lemma meta_matches_key:
  assumes m: "meta_matches (lib_sst L) opts files m t" and good: "good_table (lib_sst L) opts files t"
    and fits: "history_fits L opts ops" and sub: "set (table_entries (lib_sst L) files t) \<subseteq> versions_of ops"
  shows "tm_min_key m = st_min_key t"
proof -
  let ?es = "table_entries (lib_sst L) files t"
  note facts = table_holds_entries [OF good [unfolded good_table_def]]
  have "table_fits (lib_sst L) (block_bytes opts) (bits_per_key opts) ?es"
    using fits facts(1,2) sub by (simp add: history_fits_def)
  from build_table_ok [OF this facts(1,2)] meta_matches_build [OF m] facts(3) show ?thesis by auto
qed

section \<open>Flush and compaction keep the agreement\<close>

lemma list_all2_filter_sync:
  "list_all2 R xs ys \<Longrightarrow> (\<And>x y. x \<in> set xs \<Longrightarrow> y \<in> set ys \<Longrightarrow> R x y \<Longrightarrow> P x = Q y) \<Longrightarrow>
   list_all2 R (filter P xs) (filter Q ys)"
  by (induction rule: list_all2_induct) auto

lemma list_all2_insort_sync:
  assumes "list_all2 R xs ys" "R x y" "f x = g y" "\<forall>(a, b) \<in> set (zip xs ys). f a = g b"
  shows "list_all2 R (insort_key f x xs) (insort_key g y ys)"
  using assms by (induction rule: list_all2_induct) auto

lemma list_all2_sort_sync:
  assumes "list_all2 (\<lambda>x y. R x y \<and> f x = g y) xs ys"
  shows "list_all2 (\<lambda>x y. R x y \<and> f x = g y) (sort_key f xs) (sort_key g ys)"
  using assms
proof (induction rule: list_all2_induct)
  case Nil
  then show ?case by simp
next
  case (Cons x xs y ys)
  have "\<forall>(a, b) \<in> set (zip (sort_key f xs) (sort_key g ys)). f a = g b"
    using Cons.IH by (auto simp: list_all2_iff)
  with list_all2_insort_sync [OF Cons.IH, of x y f g] Cons.hyps show ?case by simp
qed

lemma flushed_match:
  assumes inv: "db_inv L ops db" and match: "levels_match L db" and res: "flush_result L db data t"
  shows "levels_match L (flushed L db data t)"
proof -
  let ?L = "lib_sst L" and ?tid = "next_table_id (db_manifest db)" and ?es = "mt_iter (db_mem db)"
  let ?f = "(db_files db)(?tid := Some data)"
  let ?R = "meta_matches ?L (db_opts db) (db_files db)" and ?R' = "meta_matches ?L (db_opts db) ?f"
  let ?m = "\<lparr>tm_id = ?tid, tm_min_key = fst (hd ?es), tm_max_key = fst (last ?es),
    tm_entries = length ?es, tm_bytes = length data\<rparr>"
  have ids: "st_id t' < ?tid" if "t' \<in> set (concat (db_levels db))" for t'
    using inv that by (auto simp: db_inv_def tables_ok_def)
  have "table_entries ?L ?f t = ?es" "st_id t = ?tid"
    using res table_holds_good(2) by (auto simp: flush_result_def Let_def)
  then have new: "?R' ?m t"
    using res by (simp add: meta_matches_def out_ok_def flush_result_def Let_def)
  define mss where "mss = (if mf_levels (db_manifest db) = [] then [[]] else mf_levels (db_manifest db))"
  have old: "list_all2 (list_all2 ?R) mss (db_levels db)"
    using match inv by (auto simp: levels_match_def mss_def db_inv_def tables_ok_def)
  have keep: "list_all2 ?R' ms ts" if "list_all2 ?R ms ts" "set ts \<subseteq> set (concat (db_levels db))" for ms ts
    using that(1)
  proof (rule list.rel_mono_strong)
    fix m u assume u: "u \<in> set ts" and R: "?R m u"
    have "?f (st_id u) = db_files db (st_id u)" using ids [OF subsetD [OF that(2) u]] by simp
    from meta_matches_file [of ?f u "db_files db", OF this] show "?R' m u" using R by blast
  qed
  have all: "list_all2 (list_all2 ?R') mss (db_levels db)"
    using old
  proof (rule list.rel_mono_strong)
    fix ms ts assume "ts \<in> set (db_levels db)" "list_all2 ?R ms ts"
    then show "list_all2 ?R' ms ts" using keep by auto
  qed
  obtain l0 ls where lv: "db_levels db = l0 # ls"
    using inv by (cases "db_levels db") (simp_all add: db_inv_def tables_ok_def)
  obtain m0 ms where mss: "mss = m0 # ms" "list_all2 ?R' m0 l0" "list_all2 (list_all2 ?R') ms ls"
    using all unfolding lv by (auto simp: list_all2_Cons2)
  then have "list_all2 (list_all2 ?R') (mss[0 := mss ! 0 @ [?m]]) ((db_levels db)[0 := db_levels db ! 0 @ [t]])"
    using new by (auto simp: lv intro: list_all2_appendI)
  then show ?thesis
    unfolding levels_match_def flushed_def Let_def mss_def by simp
qed

lemma padded_match:
  assumes match: "levels_match L db" and ne: "db_levels db \<noteq> []"
  shows "list_all2 (list_all2 (meta_matches (lib_sst L) (db_opts db) (db_files db)))
    (mf_levels (db_manifest (padded level db))) (db_levels (padded level db))"
proof -
  let ?R = "list_all2 (meta_matches (lib_sst L) (db_opts db) (db_files db))"
  have rep: "list_all2 ?R (replicate k []) (replicate k [])" for k by (induction k) simp_all
  show ?thesis
    using match unfolding levels_match_def
  proof
    assume empty: "mf_levels (db_manifest db) = [] \<and> db_levels db = [[]]"
    then show ?thesis using rep [of "Suc level"] by (simp add: pad_levels_def)
  next
    assume "list_all2 ?R (mf_levels (db_manifest db)) (db_levels db)"
    then show ?thesis using rep by (auto simp: pad_levels_def list_all2_lengthD intro!: list_all2_appendI)
  qed
qed

lemma outs_match:
  assumes cs: "list_all2 (out_ok L opts files) outs metas"
    and outs: "list_all2 (\<lambda>o' t. st_id t = fst o' \<and>
        table_holds L (block_bytes opts) (bits_per_key opts) files t (snd o')) outs ts"
  shows "list_all2 (meta_matches L opts files) metas ts"
proof (rule list_all2_all_nthI)
  have len: "length outs = length metas" "length outs = length ts"
    using list_all2_lengthD [OF cs] list_all2_lengthD [OF outs] by simp_all
  then show "length metas = length ts" by simp
  fix i assume "i < length metas"
  then have i: "i < length outs" using len by simp
  have "out_ok L opts files (outs ! i) (metas ! i)" by (rule list_all2_nthD [OF cs i])
  moreover have t: "st_id (ts ! i) = fst (outs ! i)"
    "table_holds L (block_bytes opts) (bits_per_key opts) files (ts ! i) (snd (outs ! i))"
    using list_all2_nthD [OF outs i] by simp_all
  moreover note table_holds_good(2) [OF t(2)]
  ultimately show "meta_matches L opts files (metas ! i) (ts ! i)" by (simp add: meta_matches_def)
qed

lemma level_set_mem: "t \<in> set ts \<Longrightarrow> set (table_entries L files t) \<subseteq> level_set L files ts"
  unfolding level_set_def by blast

lemma compact_result_match:
  assumes res: "compact_result L ops level db db' ups src dst downs mn mx st outs ts"
    and fits: "history_fits L (db_opts db) ops"
    and match: "list_all2 (list_all2 (meta_matches (lib_sst L) (db_opts db) (db_files db)))
       (mf_levels (db_manifest db)) (db_levels db)"
  shows "levels_match L db'"
proof -
  let ?L = "lib_sst L" and ?src = "set (source_ids level src)"
  let ?dst = "map st_id (filter (overlaps mn mx) dst)"
  let ?R = "meta_matches ?L (db_opts db) (db_files db)" and ?R' = "meta_matches ?L (db_opts db) (db_files db')"
  let ?S = "\<lambda>m t. ?R' m t \<and> tm_min_key m = st_min_key t"
  have set: "compact_setting L ops db level ups src dst downs mn mx"
    and cs: "cs_inv ?L (db_opts db) (next_table_id (db_manifest db)) (db_files db) outs [] st"
    and outs: "list_all2 (\<lambda>o' t. st_id t = fst o' \<and>
      table_holds ?L (block_bytes (db_opts db)) (bits_per_key (db_opts db)) (cs_files st) t (snd o')) outs ts"
    and db': "db' = compacted L level db ups src dst downs mn mx st ts"
    using res by (simp_all add: compact_result_def)
  have inv': "db_inv L ops db'" by (rule compact_result_inv [OF res])
  have lv: "db_levels db = ups @ src # dst # downs" "length ups = level"
    using set by (simp_all add: compact_setting_def)
  note files = compacted_files [OF set cs outs, folded db']
  have dist: "distinct (map st_id dst)" using compact_setting_tables(2) [OF set] by simp
  obtain mups msrc mdst mdowns where ms: "mf_levels (db_manifest db) = mups @ msrc # mdst # mdowns"
    and parts: "list_all2 (list_all2 ?R) mups ups" "list_all2 ?R msrc src" "list_all2 ?R mdst dst"
      "list_all2 (list_all2 ?R) mdowns downs"
    using match unfolding lv by (auto simp: list_all2_append2 list_all2_Cons2)
  have len: "length mups = level" using parts(1) lv(2) by (simp add: list_all2_lengthD)
  have keep: "list_all2 ?R' ms ls" if "list_all2 ?R ms ls"
    "set ls \<subseteq> set (concat ups) \<union> set (filter (\<lambda>t. st_id t \<notin> ?src) src) \<union>
      set (filter (\<lambda>t. \<not> overlaps mn mx t) dst) \<union> set (concat downs)" for ms ls
    using that(1)
  proof (rule list.rel_mono_strong)
    fix m u assume "u \<in> set ls" and R: "?R m u"
    from meta_matches_file [of "db_files db'" u "db_files db", OF files(1) [OF subsetD [OF that(2) this(1)]]] R show "?R' m u" by blast
  qed
  have keeps: "list_all2 (list_all2 ?R') mss lss" if "list_all2 (list_all2 ?R) mss lss"
    "lss = ups \<or> lss = downs" for mss lss
    using that(1)
  proof (rule list.rel_mono_strong)
    fix ms ls assume "ls \<in> set lss" "list_all2 ?R ms ls"
    then show "list_all2 ?R' ms ls" using keep that(2) by auto
  qed
  have A: "list_all2 ?R' (filter (\<lambda>m. tm_id m \<notin> ?src) msrc) (filter (\<lambda>t. st_id t \<notin> ?src) src)"
    by (rule keep, rule list_all2_filter_sync [OF parts(2)]) (auto simp: meta_matches_id)
  have "list_all2 ?R (filter (\<lambda>m. tm_id m \<notin> set ?dst) mdst) (filter (\<lambda>t. st_id t \<notin> set ?dst) dst)"
    by (rule list_all2_filter_sync [OF parts(3)]) (auto simp: meta_matches_id)
  then have B: "list_all2 ?R' (filter (\<lambda>m. tm_id m \<notin> set ?dst) mdst) (filter (\<lambda>t. \<not> overlaps mn mx t) dst)"
    unfolding filter_ids [OF dist] by (rule keep) auto
  have "list_all2 (meta_matches ?L (db_opts db) (cs_files st)) (cs_outputs st) ts"
    by (rule outs_match [OF _ outs]) (use cs in \<open>simp add: cs_inv_def\<close>)
  then have O: "list_all2 ?R' (cs_outputs st) ts"
  proof (rule list.rel_mono_strong)
    fix m u assume "u \<in> set ts" and R: "meta_matches ?L (db_opts db) (cs_files st) m u"
    from meta_matches_file [of "db_files db'" u "cs_files st", OF files(2) [OF this(1)]] R show "?R' m u" by blast
  qed
  have key: "tm_min_key m = st_min_key u" if R: "?R' m u" and u: "u \<in> set (filter (\<lambda>t. \<not> overlaps mn mx t) dst @ ts)" for m u
  proof -
    let ?lvl = "sort_key st_min_key (filter (\<lambda>t. \<not> overlaps mn mx t) dst @ ts)"
    have lvl: "?lvl \<in> set (db_levels db')" "u \<in> set ?lvl" using u by (simp_all add: db' compacted_fields(8))
    then have "good_table ?L (db_opts db') (db_files db') u"
      using inv' unfolding db_inv_def tables_ok_def by auto
    then have good: "good_table ?L (db_opts db) (db_files db') u" by (simp add: db' compacted_fields(2))
    have "level_set ?L (db_files db') ?lvl \<in> set (sources L db')" using lvl(1) by (simp add: sources_def)
    then have "level_set ?L (db_files db') ?lvl \<subseteq> all_versions L db'" by (rule Union_upper)
    then have "set (table_entries ?L (db_files db') u) \<subseteq> versions_of ops"
      using level_set_mem [OF lvl(2), of ?L "db_files db'"] inv' unfolding db_inv_def by blast
    from meta_matches_key [OF R good fits this] show ?thesis .
  qed
  have "list_all2 ?S (filter (\<lambda>m. tm_id m \<notin> set ?dst) mdst @ cs_outputs st) (filter (\<lambda>t. \<not> overlaps mn mx t) dst @ ts)"
    by (rule list.rel_mono_strong [OF list_all2_appendI [OF B O]]) (use key in blast)
  from list_all2_sort_sync [OF this]
  have N: "list_all2 ?R' (sort_key tm_min_key (filter (\<lambda>m. tm_id m \<notin> set ?dst) mdst @ cs_outputs st))
      (sort_key st_min_key (filter (\<lambda>t. \<not> overlaps mn mx t) dst @ ts))"
    by (rule list_all2_mono) blast
  have mf: "mf_levels (db_manifest db') = mups @ filter (\<lambda>m. tm_id m \<notin> ?src) msrc #
      sort_key tm_min_key (filter (\<lambda>m. tm_id m \<notin> set ?dst) mdst @ cs_outputs st) # mdowns"
    using len by (simp add: db' compacted_def Let_def swapped_levels_def ms list_update_append nth_append)
  have "db_opts db' = db_opts db" by (simp add: db' compacted_fields(2))
  moreover have "list_all2 (list_all2 ?R') (mf_levels (db_manifest db')) (db_levels db')"
    using keeps [OF parts(1)] keeps [OF parts(4)] A N
    unfolding mf by (auto simp: db' compacted_fields(8) intro!: list_all2_appendI)
  ultimately show ?thesis by (simp add: levels_match_def)
qed

section \<open>How big a level can be\<close>

definition level_count :: "sst_lib \<Rightarrow> table_files \<Rightarrow> ss_table list \<Rightarrow> nat" where
  "level_count L files ts = sum_list (map (\<lambda>t. length (table_entries L files t)) ts)"

definition counts :: "storage_lib \<Rightarrow> db \<Rightarrow> nat list" where
  "counts L db = map (level_count (lib_sst L) (db_files db)) (db_levels db)"

lemma level_count_append: "level_count L files (xs @ ys) = level_count L files xs + level_count L files ys"
  by (simp add: level_count_def)

lemma level_count_perm:
  assumes "mset xs = mset ys"
  shows "level_count L files xs = level_count L files ys"
proof -
  let ?f = "\<lambda>t. length (table_entries L files t)"
  have "sum_mset (mset (map ?f xs)) = sum_mset (mset (map ?f ys))" unfolding mset_map assms ..
  then show ?thesis unfolding level_count_def by (simp only: sum_mset_sum_list)
qed

lemma level_count_split:
  "level_count L files (filter (\<lambda>t. \<not> P t) ts) + level_count L files (filter P ts) = level_count L files ts"
  by (induction ts) (auto simp: level_count_def)

lemma level_count_file:
  "\<forall>t \<in> set ts. files (st_id t) = files' (st_id t) \<Longrightarrow> level_count L files ts = level_count L files' ts"
  unfolding level_count_def using table_entries_file [of files _ files' L]
  by (auto intro!: arg_cong [where f = sum_list])

lemma matched_bytes:
  assumes "list_all2 (meta_matches L opts files) ms ts"
  shows "sum_list (map tm_bytes ms) = sum_list (map (built_size L opts) (map (table_entries L files) ts))"
  using assms
proof (induction rule: list_all2_induct)
  case (Cons m ms t ts)
  then show ?case using meta_matches_build [OF Cons.hyps(1)] by (auto simp: built_size_def)
qed simp

text \<open>The tables of a level below level 0 hold different versions.\<close>

lemma level_distinct:
  assumes "\<forall>t \<in> set ts. good_table L opts files t" "level_sorted ts"
  shows "distinct (concat (map (table_entries L files) ts))"
  using assms
proof (induction ts)
  case (Cons t ts)
  note good = good_table_facts [of L opts files]
  have "e \<notin> set (table_entries L files t')" if e: "e \<in> set (table_entries L files t)" and t': "t' \<in> set ts" for e t'
  proof
    assume "e \<in> set (table_entries L files t')"
    then have "st_min_key t' \<le> fst e" using good(3) [of t' e] Cons.prems(1) t' by simp
    moreover have "fst e \<le> st_max_key t" using good(3) [of t e] Cons.prems(1) e by simp
    moreover have "st_max_key t < st_min_key t'" using Cons.prems(2) t' by (simp add: level_sorted_def)
    ultimately show False by simp
  qed
  moreover have "distinct (table_entries L files t)"
    using entries_sorted_distinct [OF good(2)] Cons.prems(1) by simp
  ultimately show ?case using Cons by (auto simp: level_sorted_def)
qed simp

lemma db_table_versions:
  assumes inv: "db_inv L ops db" and ts: "ts \<in> set (db_levels db)" and t: "t \<in> set ts"
  shows "good_table (lib_sst L) (db_opts db) (db_files db) t \<and>
    set (table_entries (lib_sst L) (db_files db) t) \<subseteq> versions_of ops"
proof -
  have "level_set (lib_sst L) (db_files db) ts \<in> set (sources L db)" using ts by (simp add: sources_def)
  then have "level_set (lib_sst L) (db_files db) ts \<subseteq> all_versions L db" by (rule Union_upper)
  then have "set (table_entries (lib_sst L) (db_files db) t) \<subseteq> versions_of ops"
    using level_set_mem [OF t, of "lib_sst L" "db_files db"] inv unfolding db_inv_def by blast
  then show ?thesis using inv ts t unfolding db_inv_def tables_ok_def by auto
qed

text \<open>What \<open>level_bytes\<close> computes of such a level is its size, and the next limit leaves room for it.\<close>

lemma level_bytes_bound:
  assumes ok: "db_ok L ops db" and deep: "0 < i"
  shows "level_multiplier (db_opts db) * level_bytes db i < 2 ^ 64"
proof (cases "i < length (mf_levels (db_manifest db))")
  case False
  then show ?thesis by (simp add: level_bytes_def)
next
  case True
  let ?ess = "map (table_entries (lib_sst L) (db_files db)) (db_levels db ! i)"
  have inv: "db_inv L ops db" using ok by (simp add: db_ok_def)
  have match: "list_all2 (list_all2 (meta_matches (lib_sst L) (db_opts db) (db_files db)))
      (mf_levels (db_manifest db)) (db_levels db)"
    using ok True by (auto simp: db_ok_def levels_match_def)
  have i: "i < length (db_levels db)" using True list_all2_lengthD [OF match] by simp
  note tab = db_table_versions [OF inv nth_mem [OF i]]
  have "db_levels db ! i \<in> set (tl (db_levels db))" using i deep nth_mem [of "i - 1" "tl (db_levels db)"] by (simp add: nth_tl)
  then have "level_sorted (db_levels db ! i)" using inv by (simp add: db_inv_def tables_ok_def)
  then have "distinct (concat ?ess)" using tab by (intro level_distinct) blast+
  moreover have "[] \<notin> set ?ess" using good_table_facts(1) tab by fastforce
  moreover have "set (concat ?ess) \<subseteq> versions_of ops" using tab by auto
  ultimately have "level_multiplier (db_opts db) * sum_list (map (built_size (lib_sst L) (db_opts db)) ?ess) < 2 ^ 64"
    using ok unfolding db_ok_def history_fits_def level_room_def by blast
  moreover have "level_bytes db i \<le> sum_list (map (built_size (lib_sst L) (db_opts db)) ?ess)"
    using True unfolding level_bytes_def matched_bytes [OF list_all2_nthD [OF match True]] by simp
  ultimately show ?thesis by (metis le_less_trans mult_le_mono2)
qed

section \<open>A compaction moves versions down\<close>

fun depth_weight :: "nat \<Rightarrow> nat list \<Rightarrow> nat" where
  "depth_weight n [] = 0"
| "depth_weight n (c # cs) = n * c + depth_weight (n - 1) cs"

lemma depth_weight_append:
  "depth_weight n (xs @ ys) = depth_weight n xs + depth_weight (n - length xs) ys"
  by (induction n xs rule: depth_weight.induct) auto

lemma depth_weight_zeros: "depth_weight n (replicate k 0) = 0"
  by (induction k arbitrary: n) auto

lemma depth_weight_moves:
  assumes "length ups < n" "1 \<le> s" "out \<le> s + d"
  shows "depth_weight n (ups @ a # (b + out) # downs) < depth_weight n (ups @ (a + s) # (b + d) # downs)"
proof -
  obtain c where c: "n - length ups = Suc c" using assms(1) by (metis Suc_diff_Suc)
  have "c * out \<le> c * (s + d)" using assms(3) by (rule mult_left_mono) simp
  then show ?thesis using assms(2) by (simp add: depth_weight_append c algebra_simps)
qed

lemma length_le_level_sets:
  assumes sorted: "entries_sorted es" and sub: "set es \<subseteq> level_set L files xs \<union> level_set L files ys"
  shows "length es \<le> level_count L files xs + level_count L files ys"
proof -
  let ?all = "concat (map (table_entries L files) (xs @ ys))"
  have "set es \<subseteq> set ?all" using sub by (auto simp: level_set_def)
  then have "card (set es) \<le> card (set ?all)" by (rule card_mono [OF finite_set])
  then have "card (set es) \<le> length ?all" using card_length by (rule le_trans)
  moreover have "card (set es) = length es" using entries_sorted_distinct [OF sorted] by (rule distinct_card)
  moreover have "length ?all = level_count L files xs + level_count L files ys"
    by (simp only: level_count_def length_concat map_map comp_def map_append sum_list_append)
  ultimately show ?thesis by (simp only:)
qed

lemma compact_result_counts:
  assumes res: "compact_result L ops level db db' ups src dst downs mn mx st outs ts"
  shows "\<exists>cu a s b d out cd. counts L db = cu @ (a + s) # (b + d) # cd \<and>
     counts L db' = cu @ a # (b + out) # cd \<and> length cu = level \<and> 1 \<le> s \<and> out \<le> s + d"
proof -
  let ?L = "lib_sst L" and ?mv = "\<lambda>t. st_id t \<in> set (source_ids level src)"
  let ?c = "level_count ?L (db_files db)" and ?c' = "level_count ?L (db_files db')"
  let ?A = "filter (\<lambda>t. \<not> ?mv t) src" and ?B = "filter (\<lambda>t. \<not> overlaps mn mx t) dst"
  have set: "compact_setting L ops db level ups src dst downs mn mx"
    and cs: "cs_inv ?L (db_opts db) (next_table_id (db_manifest db)) (db_files db) outs [] st"
    and outs: "list_all2 (\<lambda>o' t. st_id t = fst o' \<and>
      table_holds ?L (block_bytes (db_opts db)) (bits_per_key (db_opts db)) (cs_files st) t (snd o')) outs ts"
    and surv: "set (concat (map snd outs)) \<subseteq> level_set ?L (db_files db) (filter ?mv src) \<union>
      level_set ?L (db_files db) (filter (overlaps mn mx) dst)"
    and sorted: "entries_sorted (concat (map snd outs))"
    and db': "db' = compacted L level db ups src dst downs mn mx st ts"
    using res survivors_subset by (simp_all add: compact_result_def)
  have lv: "db_levels db = ups @ src # dst # downs" "length ups = level" and ne: "src \<noteq> []"
    using set by (simp_all add: compact_setting_def)
  note files = compacted_files [OF set cs outs, folded db']
  have same: "?c' ls = ?c ls" if "set ls \<subseteq> set (concat ups) \<union> set ?A \<union> set ?B \<union> set (concat downs)" for ls
    by (rule level_count_file, rule ballI, rule files(1)) (use that in blast)
  have new: "?c' ts = length (concat (map snd outs))"
  proof -
    have "?c' ts = level_count ?L (cs_files st) ts" by (rule level_count_file, rule ballI, rule files(2))
    also have "map (table_entries ?L (cs_files st)) ts = map snd outs"
      using outs by (induction rule: list_all2_induct) (auto dest: table_holds_good(2))
    then have "level_count ?L (cs_files st) ts = length (concat (map snd outs))"
      unfolding level_count_def length_concat map_map [of length "table_entries ?L (cs_files st)", symmetric, unfolded comp_def]
      by (simp only:)
    finally show ?thesis .
  qed
  have "1 \<le> ?c (filter ?mv src)"
  proof -
    obtain i where "i \<in> set (source_ids level src)"
      using source_ids_facts(1) [of level src] ne by (meson list.set_sel(1))
    then obtain t where t: "t \<in> set (filter ?mv src)" using source_ids_facts(2) [of level src] by fastforce
    then have "good_table ?L (db_opts db) (db_files db) t" using compact_setting_tables(1) [OF set] by auto
    then have "1 \<le> length (table_entries ?L (db_files db) t)" using good_table_facts(1) by (metis length_greater_0_conv less_eq_Suc_le One_nat_def)
    also have "\<dots> \<le> ?c (filter ?mv src)"
      unfolding level_count_def by (rule member_le_sum_list) (use t in auto)
    finally show ?thesis .
  qed
  moreover have "?c' ts \<le> ?c (filter ?mv src) + ?c (filter (overlaps mn mx) dst)"
    unfolding new by (rule length_le_level_sets [OF sorted surv])
  moreover have "counts L db = map ?c ups @ (?c ?A + ?c (filter ?mv src)) # (?c ?B + ?c (filter (overlaps mn mx) dst)) # map ?c downs"
    by (simp add: counts_def lv level_count_split)
  moreover have "counts L db' = map ?c ups @ ?c ?A # (?c ?B + ?c' ts) # map ?c downs"
  proof -
    have "?c' (sort_key st_min_key (?B @ ts)) = ?c' ?B + ?c' ts"
      using level_count_perm [of "sort_key st_min_key (?B @ ts)" "?B @ ts"] by (simp add: level_count_append)
    moreover have "?c' ?B = ?c ?B" "?c' ?A = ?c ?A" by (rule same; auto)+
    moreover have "map ?c' ups = map ?c ups" "map ?c' downs = map ?c downs" by (auto intro!: same)
    moreover have "db_levels db' = ups @ ?A # sort_key st_min_key (?B @ ts) # downs"
      by (simp add: db' compacted_fields(8))
    ultimately show ?thesis by (simp add: counts_def)
  qed
  ultimately show ?thesis using lv(2) by (metis length_map)
qed

section \<open>Compacting ends\<close>

text \<open>
  What the loop needs of its options: a level 0 without tables is not over its limit, the limit of
  level 1 is a positive 64-bit number, and the limits of the deeper levels grow.
\<close>

definition opts_ok :: "options \<Rightarrow> bool" where
  "opts_ok opts \<longleftrightarrow> 1 \<le> l0_trigger opts \<and> 1 \<le> level_base_bytes opts \<and> level_base_bytes opts < 2 ^ 64 \<and>
     2 \<le> level_multiplier opts"

lemma default_opts_ok: "opts_ok default_options"
  by (simp add: opts_ok_def default_options_def)

lemma limits_fit_depth:
  assumes opts: "opts_ok opts" and fit: "limits_fit opts n" and i: "i < n"
  shows "i \<le> 64"
proof -
  have "(2::nat) ^ (i - 1) \<le> level_multiplier opts ^ (i - 1)"
    using opts by (intro power_mono) (simp_all add: opts_ok_def)
  also have "\<dots> \<le> level_base_bytes opts * level_multiplier opts ^ (i - 1)" using opts by (simp add: opts_ok_def)
  also have "\<dots> < 2 ^ 64" using fit i by (simp add: limits_fit_def)
  finally have "i - 1 < 64" by (rule power_less_imp_less_exp [rotated]) simp
  then show ?thesis by simp
qed

lemma level_limit_exact:
  assumes "opts_ok (db_opts db)" "limits_fit (db_opts db) n" "i < n"
  shows "level_limit db i = level_base_bytes (db_opts db) * level_multiplier (db_opts db) ^ (i - 1)"
  using limits_fit_depth [OF assms] assms(2,3) by (simp add: level_limit_def limits_fit_def)

lemma compact_choice_facts:
  assumes opts: "opts_ok (db_opts db)" and ok: "db_ok L ops db" and choice: "compact_choice db = Some level"
  shows "level < length (db_levels db)" "db_levels db ! level \<noteq> []"
    "level = 0 \<or> level_bytes db level > level_limit db level"
proof -
  have ne: "db_levels db \<noteq> []" using ok by (simp add: db_ok_def db_inv_def tables_ok_def)
  show len: "level < length (db_levels db)"
    using choice ne by (auto simp: compact_choice_def find_Some_iff split: if_splits)
  show big: "level = 0 \<or> level_bytes db level > level_limit db level"
    using choice by (auto simp: compact_choice_def find_Some_iff split: if_splits)
  show "db_levels db ! level \<noteq> []"
  proof (cases "length (db_levels db ! 0) \<ge> l0_trigger (db_opts db)")
    case True
    then show ?thesis using choice opts by (auto simp: compact_choice_def opts_ok_def)
  next
    case False
    then have "level_bytes db level > 0"
      using choice by (auto simp: compact_choice_def find_Some_iff)
    then have len': "level < length (mf_levels (db_manifest db))" and pos: "mf_levels (db_manifest db) ! level \<noteq> []"
      by (auto simp: level_bytes_def split: if_splits)
    then have "list_all2 (list_all2 (meta_matches (lib_sst L) (db_opts db) (db_files db)))
        (mf_levels (db_manifest db)) (db_levels db)"
      using ok by (auto simp: db_ok_def levels_match_def)
    from list_all2_nthD [OF this len'] pos show ?thesis by auto
  qed
qed

lemma padded_nth: "level < length (db_levels db) \<Longrightarrow> db_levels (padded level db) ! level = db_levels db ! level"
  by (simp add: pad_levels_def nth_append)

lemma counts_padded: "counts L (padded level db) = counts L db @ replicate (level + 2 - length (db_levels db)) 0"
  by (simp add: counts_def pad_levels_def level_count_def)

text \<open>One round of the loop.\<close>

definition compaction_step :: "storage_lib \<Rightarrow> (bytes \<times> bytes option) list \<Rightarrow> db \<Rightarrow> db \<Rightarrow> bool" where
  "compaction_step L ops db db' \<longleftrightarrow>
     (\<exists>level ups src dst downs mn mx st outs ts. compact_choice db = Some level \<and>
        compact_level L level db = Inr db' \<and>
        compact_result L ops level (padded level db) db' ups src dst downs mn mx st outs ts)"

lemma compaction_stepE:
  assumes "compaction_step L ops db db'"
  obtains level ups src dst downs mn mx st outs ts where "compact_choice db = Some level"
    "compact_level L level db = Inr db'"
    "compact_result L ops level (padded level db) db' ups src dst downs mn mx st outs ts"
  using assms unfolding compaction_step_def by blast

lemma compaction_step_ex:
  assumes "opts_ok (db_opts db)" "db_ok L ops db" "compact_choice db = Some level"
  shows "\<exists>db'. compact_level L level db = Inr db' \<and> compaction_step L ops db db'"
proof -
  have inv: "db_inv L ops db" and fits: "history_fits L (db_opts db) ops" using assms(2) by (simp_all add: db_ok_def)
  have "db_levels (padded level db) ! level \<noteq> []"
    unfolding padded_nth [OF compact_choice_facts(1) [OF assms]] by (rule compact_choice_facts(2) [OF assms])
  then obtain db' ups src dst downs mn mx st outs ts where "compact_level L level db = Inr db'"
    "compact_result L ops level (padded level db) db' ups src dst downs mn mx st outs ts"
    using compact_level_cases [OF inv fits, of level] by blast
  then show ?thesis unfolding compaction_step_def using assms(3) by blast
qed

lemma compaction_step_fields:
  assumes "compaction_step L ops db db'"
  shows "db_mem db' = db_mem db" "db_opts db' = db_opts db" "db_seq db' = db_seq db" "db_wal db' = db_wal db"
    "db_snapshots db' = db_snapshots db" "last_seq (db_manifest db') = last_seq (db_manifest db)"
    "db_mdir db' = manifest_save (lib_man L) (db_manifest db') (db_mdir db)"
  using assms by (auto simp: compaction_step_def compact_result_def compacted_fields) (simp add: compacted_def Let_def)

text \<open>
  The level a compaction moves data to has an exact limit again: the level it comes from is over its
  own limit, and \<open>level_room\<close> bounds how far.
\<close>

lemma compaction_step_limits:
  assumes ok: "db_ok L ops db" and opts: "opts_ok (db_opts db)" and choice: "compact_choice db = Some level"
  shows "limits_fit (db_opts db) (length (db_levels (padded level db)))"
proof -
  let ?b = "level_base_bytes (db_opts db)" and ?m = "level_multiplier (db_opts db)"
  have fit: "limits_fit (db_opts db) (length (db_levels db))" using ok by (simp add: db_ok_def)
  note c = compact_choice_facts [OF opts ok choice]
  have "?b * ?m ^ level < 2 ^ 64"
  proof (cases level)
    case 0
    then show ?thesis using opts by (simp add: opts_ok_def)
  next
    case (Suc k)
    have "?b * ?m ^ k < level_bytes db level" using c(3) level_limit_exact [OF opts fit c(1)] Suc by simp
    then have "?m * (?b * ?m ^ k) \<le> ?m * level_bytes db level" by simp
    also have "\<dots> < 2 ^ 64" using level_bytes_bound [OF ok] Suc by simp
    finally show ?thesis by (simp add: Suc ac_simps)
  qed
  moreover have "i < length (db_levels db) \<or> i = level + 1" if "i < length (db_levels (padded level db))" for i
    using that c(1) by (simp add: pad_levels_def) linarith
  ultimately show ?thesis using fit unfolding limits_fit_def by fastforce
qed

lemma compaction_step_ok:
  assumes ok: "db_ok L ops db" and opts: "opts_ok (db_opts db)" and step: "compaction_step L ops db db'"
  shows "db_ok L ops db'"
proof -
  obtain level ups src dst downs mn mx st outs ts where choice: "compact_choice db = Some level"
    and res: "compact_result L ops level (padded level db) db' ups src dst downs mn mx st outs ts"
    using step by (rule compaction_stepE)
  have "length (counts L db') = length (counts L (padded level db))" using compact_result_counts [OF res] by auto
  then have len: "length (db_levels db') = length (db_levels (padded level db))" by (simp add: counts_def)
  have inv: "db_inv L ops db" and fits: "history_fits L (db_opts db) ops" and match: "levels_match L db"
    using ok by (simp_all add: db_ok_def)
  have "db_levels db \<noteq> []" using inv by (simp add: db_inv_def tables_ok_def)
  from padded_match [OF match this] have "levels_match L db'"
    by (intro compact_result_match [OF res]) (use fits in simp_all)
  moreover have "db_inv L ops db'" by (rule compact_result_inv [OF res])
  ultimately show ?thesis
    using fits compaction_step_fields(2) [OF step] compaction_step_limits [OF ok opts choice] len
    by (simp add: db_ok_def)
qed

text \<open>There are at most 66 levels, and every round moves versions down.\<close>

lemma compaction_step_weight:
  assumes ok: "db_ok L ops db" and opts: "opts_ok (db_opts db)" and step: "compaction_step L ops db db'"
  shows "depth_weight 66 (counts L db') < depth_weight 66 (counts L db)"
proof -
  obtain level ups src dst downs mn mx st outs ts where choice: "compact_choice db = Some level"
    and res: "compact_result L ops level (padded level db) db' ups src dst downs mn mx st outs ts"
    using step by (rule compaction_stepE)
  obtain cu a s b d out cd where c: "counts L (padded level db) = cu @ (a + s) # (b + d) # cd"
    "counts L db' = cu @ a # (b + out) # cd" "length cu = level" "1 \<le> s" "out \<le> s + d"
    using compact_result_counts [OF res] by blast
  have pad: "depth_weight 66 (counts L (padded level db)) = depth_weight 66 (counts L db)"
    unfolding counts_padded by (simp add: depth_weight_append depth_weight_zeros)
  have "limits_fit (db_opts db) (length (db_levels db))" using ok by (simp add: db_ok_def)
  from limits_fit_depth [OF opts this compact_choice_facts(1) [OF opts ok choice]] show ?thesis
    unfolding pad [symmetric] c(1,2) by (intro depth_weight_moves) (use c(3-5) in simp_all)
qed

text \<open>The loop returns, after finitely many rounds, with no level over its limit.\<close>

lemma maybe_compact_returns:
  assumes "db_ok L ops db" "opts_ok (db_opts db)"
  shows "\<exists>db'. maybe_compact L db = Some (Inr db') \<and> (compaction_step L ops)\<^sup>*\<^sup>* db db' \<and> compact_choice db' = None"
  using assms
proof (induction "depth_weight 66 (counts L db)" arbitrary: db rule: less_induct)
  case less
  show ?case
  proof (cases "compact_choice db")
    case None
    then show ?thesis by (auto simp: maybe_compact.simps)
  next
    case (Some level)
    obtain db1 where db1: "compact_level L level db = Inr db1" and step: "compaction_step L ops db db1"
      using compaction_step_ex [OF less.prems(2,1) Some] by blast
    note w = compaction_step_weight [OF less.prems step]
    note opts = compaction_step_fields(2) [OF step]
    obtain db' where "maybe_compact L db1 = Some (Inr db')" "(compaction_step L ops)\<^sup>*\<^sup>* db1 db'"
      "compact_choice db' = None"
      using less.hyps [OF w compaction_step_ok [OF less.prems step]] less.prems(2) opts by auto
    then show ?thesis
      using Some db1 step by (auto simp: maybe_compact.simps [of L db] intro: converse_rtranclp_into_rtranclp)
  qed
qed

end
