(* ===== verification/Db_Recover.thy ===== *)
theory Db_Recover
  imports Db_Disk
begin

text \<open>
  What the files of the directory hold, and opening it: after a crash at any point of a write, a
  flush or a compaction the directory opens to a database with the acknowledged writes.
\<close>

section \<open>Replaying a log into a memtable\<close>

text \<open>The batches carry consecutive sequence numbers, the first one after \<open>n\<close>.\<close>

fun consecutive :: "nat \<Rightarrow> wal_batch list \<Rightarrow> bool" where
  "consecutive n [] = True"
| "consecutive n (b # bs) =
     (wal_batch.first_seq b = Suc n \<and> wb_ops b \<noteq> [] \<and> consecutive (n + length (wb_ops b)) bs)"

abbreviation ops_of :: "wal_batch list \<Rightarrow> (bytes \<times> bytes option) list" where
  "ops_of bs \<equiv> concat (map wb_ops bs)"

lemma consecutive_append:
  "consecutive n (bs @ cs) \<longleftrightarrow> consecutive n bs \<and> consecutive (n + length (ops_of bs)) cs"
  by (induction n bs rule: consecutive.induct) (auto simp: add.assoc)

lemma insert_ops_append:
  "insert_ops s (xs @ ys) mem = insert_ops (s + length xs) ys (insert_ops s xs mem)"
  by (induction s xs mem rule: insert_ops.induct) auto

lemma replay_batches:
  "consecutive n bs \<Longrightarrow> fold replay_batch bs (mem, s) =
     (insert_ops (Suc n) (ops_of bs) mem, if bs = [] then s else max s (n + length (ops_of bs)))"
proof (induction n bs arbitrary: mem s rule: consecutive.induct)
  case (1 n)
  then show ?case by simp
next
  case (2 n b bs)
  have b: "wal_batch.first_seq b = Suc n" "wb_ops b \<noteq> []" and bs: "consecutive (n + length (wb_ops b)) bs"
    using 2 by simp_all
  have "replay_batch b (mem, s) = (insert_ops (Suc n) (wb_ops b) mem, max s (n + length (wb_ops b)))"
    using b by (simp add: replay_batch_def)
  then show ?case
    using b 2(1) [OF bs] by (cases bs) (simp_all add: insert_ops_append add.assoc)
qed

lemma insert_ops_facts:
  assumes "mt_ok mem" "\<forall>e \<in> set (mt_iter mem). fst (snd e) \<le> length ops"
  shows "mt_ok (insert_ops (Suc (length ops)) new mem) \<and>
     set (mt_iter (insert_ops (Suc (length ops)) new mem)) =
       set (mt_iter mem) \<union> {(k, s, v) \<in> versions_of (ops @ new). length ops < s}"
  using assms
proof (induction new arbitrary: ops mem)
  case Nil
  have "{(k, s, v) \<in> versions_of ops. length ops < s} = {}" using versions_of_seq [of _ _ _ ops] by fastforce
  then show ?case using Nil(1) by (simp only: insert_ops.simps append_Nil2 Un_empty_right)
next
  case (Cons op new)
  obtain k v where op: "op = (k, v)" by (cases op)
  let ?mem = "mt_insert k (Suc (length ops)) v mem"
  have set: "set (mt_iter ?mem) = insert (k, Suc (length ops), v) (set (mt_iter mem))"
    unfolding set_mt_iter_insert [OF Cons.prems(1)] using Cons.prems(2) by fastforce
  have "\<forall>e \<in> set (mt_iter ?mem). fst (snd e) \<le> length (ops @ [op])"
    unfolding set using Cons.prems(2) by fastforce
  moreover have "mt_ok ?mem" using Cons.prems(1) by simp
  ultimately have IH: "mt_ok (insert_ops (Suc (length (ops @ [op]))) new ?mem) \<and>
     set (mt_iter (insert_ops (Suc (length (ops @ [op]))) new ?mem)) =
       set (mt_iter ?mem) \<union> {(k, s, v) \<in> versions_of ((ops @ [op]) @ new). length (ops @ [op]) < s}"
    by (intro Cons.IH)
  have "(k', Suc (length ops), v') \<in> versions_of (ops @ op # new) \<longleftrightarrow> k' = k \<and> v' = v" for k' v'
    by (auto simp: versions_of_def op)
  moreover have "length ops < s \<longleftrightarrow> s = Suc (length ops) \<or> Suc (length ops) < s" for s by auto
  ultimately have "insert (k, Suc (length ops), v) {(k, s, v) \<in> versions_of (ops @ op # new). Suc (length ops) < s} =
      {(k, s, v) \<in> versions_of (ops @ op # new). length ops < s}"
    by auto
  then have "insert (k, Suc (length ops), v) (set (mt_iter mem) \<union>
      {(k, s, v) \<in> versions_of (ops @ op # new). Suc (length ops) < s}) =
      set (mt_iter mem) \<union> {(k, s, v) \<in> versions_of (ops @ op # new). length ops < s}"
    by (simp only: Un_insert_right [symmetric])
  then show ?case using IH by (simp add: op set)
qed

text \<open>The memtable that a log of the writes after \<open>start\<close> makes.\<close>

abbreviation log_mem :: "(bytes \<times> bytes option) list \<Rightarrow> nat \<Rightarrow> mem_table" where
  "log_mem ops start \<equiv> insert_ops (Suc start) (drop start ops) mt_new"

lemma log_mem_facts:
  assumes "start \<le> length ops"
  shows "mt_ok (log_mem ops start)"
    and "set (mt_iter (log_mem ops start)) = {(k, s, v) \<in> versions_of ops. start < s}"
  using insert_ops_facts [of mt_new "take start ops" "drop start ops"] assms by (simp_all add: min_absorb2)

section \<open>The files\<close>

definition loaded :: "manifest_lib \<Rightarrow> manifest_dir \<Rightarrow> manifest \<Rightarrow> bool" where
  "loaded L d m \<longleftrightarrow>
     (\<exists>om. manifest_load L d = Inr om \<and> (case om of None \<Rightarrow> manifest_default | Some m' \<Rightarrow> m') = m)"

text \<open>The log holds exactly the writes after \<open>start\<close>, in order.\<close>

definition log_holds :: "wal_lib \<Rightarrow> (bytes \<times> bytes option) list \<Rightarrow> nat \<Rightarrow> wal_batch list \<Rightarrow> bool" where
  "log_holds L ops start bs \<longleftrightarrow>
     start \<le> length ops \<and> drop start ops = ops_of bs \<and> consecutive start bs \<and> (\<forall>b \<in> set bs. wal_lib_ok L b)"

definition disk_ok :: "storage_lib \<Rightarrow> (bytes \<times> bytes option) list \<Rightarrow> db \<Rightarrow> bool" where
  "disk_ok L ops db \<longleftrightarrow>
     loaded (lib_man L) (db_mdir db) (db_manifest db) \<and>
     (\<exists>start bs. log_holds (lib_wal L) ops start bs \<and> db_mem db = log_mem ops start \<and>
        wal_data (db_wal db) = wal_frames (lib_wal L) bs \<and>
        start \<le> last_seq (db_manifest db) \<and> last_seq (db_manifest db) \<le> length ops)"

text \<open>\<open>bincode\<close> reads back every manifest it has written.\<close>

definition man_lib_ok :: "manifest_lib \<Rightarrow> bool" where
  "man_lib_ok L \<longleftrightarrow> (\<forall>m. dec_manifest L (enc_manifest L m) = Some m)"

lemma loaded_save: "man_lib_ok L \<Longrightarrow> loaded L (manifest_save L m d) m"
  using manifest_load_save [of L m d] by (simp add: loaded_def man_lib_ok_def)

lemma log_holds_append:
  assumes "log_holds L ops start bs" "new \<noteq> []" "wal_lib_ok L \<lparr>wal_batch.first_seq = Suc (length ops), wb_ops = new\<rparr>"
  shows "log_holds L (ops @ new) start (bs @ [\<lparr>wal_batch.first_seq = Suc (length ops), wb_ops = new\<rparr>])"
    and "log_mem (ops @ new) start = insert_ops (Suc (length ops)) new (log_mem ops start)"
proof -
  have start: "start \<le> length ops" and "ops_of bs = drop start ops" using assms(1) by (simp_all add: log_holds_def)
  then have "length (ops_of bs) = length ops - start" by simp
  then show "log_holds L (ops @ new) start (bs @ [\<lparr>wal_batch.first_seq = Suc (length ops), wb_ops = new\<rparr>])"
    using assms start by (auto simp: log_holds_def consecutive_append)
  show "log_mem (ops @ new) start = insert_ops (Suc (length ops)) new (log_mem ops start)"
    using start by (simp add: insert_ops_append)
qed

lemma log_holds_empty: "log_holds L ops (length ops) []"
  by (simp add: log_holds_def)

section \<open>Flushing and compacting\<close>

definition db_good :: "storage_lib \<Rightarrow> (bytes \<times> bytes option) list \<Rightarrow> db \<Rightarrow> bool" where
  "db_good L ops db \<longleftrightarrow> db_ok L ops db \<and> disk_ok L ops db \<and> opts_ok (db_opts db)"

lemma flushed_good:
  assumes man: "man_lib_ok (lib_man L)" and good: "db_good L ops db" and res: "flush_result L db data t"
  shows "db_good L ops (flushed L db data t)"
proof -
  have inv: "db_inv L ops db" and fits: "history_fits L (db_opts db) ops" and match: "levels_match L db"
    and limits: "limits_fit (db_opts db) (length (db_levels db))" and opts: "opts_ok (db_opts db)"
    using good by (simp_all add: db_good_def db_ok_def)
  let ?db = "flushed L db data t"
  have f: "length (db_levels ?db) = length (db_levels db)" "db_opts ?db = db_opts db" "db_mem ?db = mt_new" "wal_data (db_wal ?db) = []"
    "last_seq (db_manifest ?db) = db_seq db" "db_mdir ?db = manifest_save (lib_man L) (db_manifest ?db) (db_mdir db)"
    by (simp_all add: flushed_def Let_def wal_reset_def wal_sync_def)
  have "disk_ok L ops ?db"
    unfolding disk_ok_def f
    using loaded_save [OF man] log_holds_empty [of "lib_wal L" ops] inv
    by (intro conjI exI [of _ "length ops"] exI [of _ "[]"]) (simp_all add: db_inv_def)
  then show ?thesis
    using flushed_inv [OF inv res] flushed_match [OF inv match res] fits opts limits
    by (simp add: db_good_def db_ok_def f)
qed

lemma flush_good:
  assumes man: "man_lib_ok (lib_man L)" and good: "db_good L ops db"
  shows "\<exists>db'. flush L db = Inr db' \<and> db_good L ops db' \<and> db_opts db' = db_opts db \<and>
     db_snapshots db' = db_snapshots db"
proof -
  have inv: "db_inv L ops db" and fits: "history_fits L (db_opts db) ops"
    using good by (simp_all add: db_good_def db_ok_def)
  from flush_cases [OF inv fits] show ?thesis
    using good flushed_good [OF man good] by (auto simp: flushed_def Let_def)
qed

lemma compaction_step_good:
  assumes man: "man_lib_ok (lib_man L)" and good: "db_good L ops db" and step: "compaction_step L ops db db'"
  shows "db_good L ops db'"
proof -
  note f = compaction_step_fields [OF step]
  have "disk_ok L ops db'"
    using good loaded_save [OF man] unfolding db_good_def disk_ok_def f by blast
  then show ?thesis
    using good compaction_step_ok [OF _ _ step] by (simp add: db_good_def f(2))
qed

lemma maybe_compact_good:
  assumes man: "man_lib_ok (lib_man L)" and good: "db_good L ops db"
  shows "\<exists>db'. maybe_compact L db = Some (Inr db') \<and> db_good L ops db' \<and> compact_choice db' = None \<and>
     db_opts db' = db_opts db \<and> db_snapshots db' = db_snapshots db"
proof -
  obtain db' where db': "maybe_compact L db = Some (Inr db')" "(compaction_step L ops)\<^sup>*\<^sup>* db db'" "compact_choice db' = None"
    using maybe_compact_returns [of L ops db] good by (auto simp: db_good_def)
  have "db_good L ops db' \<and> db_opts db' = db_opts db \<and> db_snapshots db' = db_snapshots db"
    using db'(2)
  proof (induction rule: rtranclp_induct)
    case base
    then show ?case using good by simp
  next
    case (step y z)
    then show ?case using compaction_step_good [OF man _ step.hyps(2)] compaction_step_fields [OF step.hyps(2)] by simp
  qed
  then show ?thesis using db' by blast
qed

lemma maybe_flush_good:
  assumes man: "man_lib_ok (lib_man L)" and good: "db_good L ops db"
  shows "\<exists>db'. maybe_flush L db = Some (Inr db') \<and> db_good L ops db' \<and> db_opts db' = db_opts db \<and>
     db_snapshots db' = db_snapshots db"
proof (cases "mt_bytes (db_mem db) \<ge> memtable_bytes (db_opts db)")
  case False
  then show ?thesis using good by (simp add: maybe_flush_def)
next
  case True
  obtain db1 where db1: "flush L db = Inr db1" "db_good L ops db1" "db_opts db1 = db_opts db"
    "db_snapshots db1 = db_snapshots db"
    using flush_good [OF man good] by blast
  from maybe_compact_good [OF man db1(2)] show ?thesis using True db1 by (auto simp: maybe_flush_def)
qed

section \<open>Writing\<close>

definition batch_ok :: "storage_lib \<Rightarrow> (bytes \<times> bytes option) list \<Rightarrow> (bytes \<times> bytes option) list \<Rightarrow> bool" where
  "batch_ok L ops new \<longleftrightarrow> wal_lib_ok (lib_wal L) \<lparr>wal_batch.first_seq = Suc (length ops), wb_ops = new\<rparr>"

lemma log_batch_eq:
  "log_batch L new db =
     (apply_ops new db)\<lparr>db_wal :=
        wal_append (lib_wal L) \<lparr>wal_batch.first_seq = Suc (db_seq db), wb_ops = new\<rparr> (db_wal db)\<rparr>"
  by (cases db) (simp add: log_batch_def apply_ops_def Let_def)

lemma log_batch_good:
  assumes good: "db_good L ops db" and fits: "history_fits L (db_opts db) (ops @ new)" and ne: "new \<noteq> []"
    and batch: "batch_ok L ops new"
  shows "db_good L (ops @ new) (log_batch L new db)"
proof -
  have inv: "db_inv L ops db" and match: "levels_match L db" and disk: "disk_ok L ops db"
    and limits: "limits_fit (db_opts db) (length (db_levels db))" and opts: "opts_ok (db_opts db)"
    using good by (simp_all add: db_good_def db_ok_def)
  have seq: "db_seq db = length ops" using inv by (simp add: db_inv_def)
  let ?db = "log_batch L new db"
  have f: "db_opts ?db = db_opts db" "db_manifest ?db = db_manifest db" "db_mdir ?db = db_mdir db"
    "db_files ?db = db_files db" "db_levels ?db = db_levels db"
    "db_mem ?db = insert_ops (Suc (length ops)) new (db_mem db)"
    by (simp_all add: log_batch_eq apply_ops_def seq)
  have "db_inv L (ops @ new) (apply_ops new db)" by (rule apply_ops_inv [OF inv])
  then have "db_inv L (ops @ new) ?db"
    using db_inv_cong [of ?db "apply_ops new db" L "ops @ new"] by (simp add: log_batch_eq)
  moreover have "levels_match L ?db" using match unfolding levels_match_def f .
  moreover obtain start bs where s: "log_holds (lib_wal L) ops start bs" "db_mem db = log_mem ops start"
      "wal_data (db_wal db) = wal_frames (lib_wal L) bs" "start \<le> last_seq (db_manifest db)"
      "last_seq (db_manifest db) \<le> length ops"
    and load: "loaded (lib_man L) (db_mdir db) (db_manifest db)"
    using disk unfolding disk_ok_def by blast
  note ext = log_holds_append [OF s(1) ne batch [unfolded batch_ok_def]]
  have "wal_data (db_wal ?db) = wal_frames (lib_wal L) (bs @ [\<lparr>wal_batch.first_seq = Suc (length ops), wb_ops = new\<rparr>])"
    by (simp add: log_batch_eq wal_append_def wal_sync_def Let_def s(3) seq)
  then have "disk_ok L (ops @ new) ?db"
    unfolding disk_ok_def f using ext s load
    by (intro conjI exI [of _ start] exI [of _ "bs @ [\<lparr>wal_batch.first_seq = Suc (length ops), wb_ops = new\<rparr>]"]) simp_all
  ultimately show ?thesis using fits opts limits by (simp add: db_good_def db_ok_def f)
qed

lemma write_batch_good:
  assumes man: "man_lib_ok (lib_man L)" and good: "db_good L ops db"
    and fits: "history_fits L (db_opts db) (ops @ new)" and batch: "new \<noteq> [] \<longrightarrow> batch_ok L ops new"
  shows "\<exists>db'. write_batch L new db = Some (Inr db') \<and> db_good L (ops @ new) db' \<and> db_opts db' = db_opts db \<and>
     db_snapshots db' = db_snapshots db"
proof (cases "new = []")
  case True
  then show ?thesis using good by (simp add: write_batch_def)
next
  case False
  then have "db_good L (ops @ new) (log_batch L new db)" using log_batch_good [OF good fits] batch by blast
  from maybe_flush_good [OF man this] show ?thesis
    using False by (simp add: write_batch_def) (simp add: log_batch_eq apply_ops_def)
qed

section \<open>Opening a directory\<close>

text \<open>The tables, the manifest and the log of the directory stand for the database and its history.\<close>

definition dir_holds :: "storage_lib \<Rightarrow> (bytes \<times> bytes option) list \<Rightarrow> db \<Rightarrow> db_dir \<Rightarrow> bool" where
  "dir_holds L ops db d \<longleftrightarrow>
     loaded (lib_man L) (dir_manifest d) (db_manifest db) \<and>
     (\<forall>t \<in> set (concat (db_levels db)). dir_files d (st_id t) = db_files db (st_id t)) \<and>
     (\<exists>start bs f. wal_replay (lib_wal L) (dir_wal d) = (bs, f) \<and>
        (case f of None \<Rightarrow> [] | Some data \<Rightarrow> data) = wal_frames (lib_wal L) bs \<and>
        log_holds (lib_wal L) ops start bs \<and>
        (\<forall>e \<in> set (mt_iter (db_mem db)). start < fst (snd e)) \<and>
        start \<le> last_seq (db_manifest db) \<and> last_seq (db_manifest db) \<le> length ops)"

lemma open_all_match:
  assumes "list_all2 (meta_matches L opts files) ms ts" "\<forall>t \<in> set ts. good_table L opts files t"
    and "\<forall>t \<in> set ts. files' (st_id t) = files (st_id t)"
  shows "open_all L files' (map tm_id ms) = Inr ts"
  using assms
proof (induction rule: list_all2_induct)
  case Nil
  then show ?case by simp
next
  case (Cons m ms t ts)
  have "sst_open L files' (st_id t) = sst_open L files (st_id t)" using Cons.prems by (intro sst_open_file) simp
  then have "sst_open L files' (tm_id m) = Inr t"
    using good_table_facts(4) [of L opts files t] Cons.prems meta_matches_id [OF Cons.hyps(1)] by simp
  then show ?case using Cons by simp
qed

lemma open_levels_match:
  assumes "list_all2 (list_all2 (meta_matches L opts files)) mss tss" "\<forall>t \<in> set (concat tss). good_table L opts files t"
    and "\<forall>t \<in> set (concat tss). files' (st_id t) = files (st_id t)"
  shows "open_levels L files' mss = Inr tss"
  using assms
proof (induction rule: list_all2_induct)
  case Nil
  then show ?case by simp
next
  case (Cons ms mss ts tss)
  have "open_all L files' (map tm_id ms) = Inr ts"
    using Cons.prems by (intro open_all_match [OF Cons.hyps(1)]) auto
  then show ?case using Cons by simp
qed

text \<open>A set of versions that has every version after \<open>start\<close> shows the same state.\<close>

lemma newest_with_log:
  assumes vis: "\<forall>k r. newest V k sn r \<longrightarrow> live_value r = state_at ops sn k" and sn: "length ops \<le> sn"
    and V: "V \<subseteq> W" "W \<subseteq> versions_of ops" and log: "\<And>k s v. (k, s, v) \<in> versions_of ops \<Longrightarrow> start < s \<Longrightarrow> (k, s, v) \<in> W"
    and old: "\<And>k s v. (k, s, v) \<in> W \<Longrightarrow> s \<le> start \<Longrightarrow> (k, s, v) \<in> V"
    and nw: "newest W k sn r"
  shows "live_value r = state_at ops sn k"
proof (cases "\<exists>s v. (k, s, v) \<in> versions_of ops \<and> start < s")
  case True
  then obtain s0 v0 where s0: "(k, s0, v0) \<in> versions_of ops" "start < s0" by blast
  have le: "s \<le> sn" if "(k', s, v') \<in> versions_of ops" for k' s v' using versions_of_seq [OF that] sn by simp
  have "(k, s0, v0) \<in> W" using log [OF s0] .
  then obtain s v where r: "r = Some (s, v)" "(k, s, v) \<in> W" and max: "\<forall>s' v'. (k, s', v') \<in> W \<and> s' \<le> sn \<longrightarrow> s' \<le> s"
    using nw le [OF s0(1)] by (cases r) fastforce+
  have "s0 \<le> s" using max \<open>(k, s0, v0) \<in> W\<close> le [OF s0(1)] by blast
  then have "s' \<le> s" if v': "(k, s', v') \<in> versions_of ops" for s' v'
  proof (cases "start < s'")
    case True
    then show ?thesis using max log [OF v'] le [OF v'] by blast
  qed (use s0(2) in simp)
  then have "newest (versions_of ops) k (length ops) (Some (s, v))"
    using r(2) V(2) versions_of_seq [of k s v ops] by auto
  from newest_versions_of_upto [OF this] show ?thesis using state_at_full [OF sn] r(1) by simp
next
  case False
  have "(k, s, v) \<in> W \<longleftrightarrow> (k, s, v) \<in> V" for s v
    using V old [of k s v] False by (cases "start < s") auto
  then have "newest V k sn r" using nw by (cases r) auto
  then show ?thesis using vis by blast
qed

lemma opened_sources:
  assumes inv: "db_inv L ops db" and start: "start \<le> length ops"
    and mem: "\<forall>e \<in> set (mt_iter (db_mem db)). start < fst (snd e)"
  defines "lev \<equiv> map (level_set (lib_sst L) (db_files db)) (db_levels db)"
    and "log \<equiv> {(k, s, v) \<in> versions_of ops. start < s}"
  shows "log \<union> \<Union> (set lev) \<subseteq> versions_of ops" "sorted_wrt up_closed (log # lev)"
    and "newest (log \<union> \<Union> (set lev)) k sn r \<Longrightarrow> length ops \<le> sn \<Longrightarrow> live_value r = state_at ops sn k"
proof -
  have src: "sources L db = set (mt_iter (db_mem db)) # lev" by (simp add: sources_def lev_def)
  have sub: "set (mt_iter (db_mem db)) \<union> \<Union> (set lev) \<subseteq> versions_of ops"
    using inv unfolding db_inv_def src by simp
  moreover have "log \<subseteq> versions_of ops" unfolding log_def by blast
  ultimately show all: "log \<union> \<Union> (set lev) \<subseteq> versions_of ops" by blast
  have "up_closed log W" if "W \<in> set lev" for W
    unfolding up_closed_def
  proof (intro allI impI)
    fix k s v s' v' assume less: "(k, s, v) \<in> log" "s < s'" and "(k, s', v') \<in> W"
    then have "(k, s', v') \<in> \<Union> (set lev)" using that by (rule_tac UnionI)
    then have "(k, s', v') \<in> versions_of ops" using sub by blast
    then show "(k, s', v') \<in> log" using less unfolding log_def by simp
  qed
  then show "sorted_wrt up_closed (log # lev)" using inv unfolding db_inv_def src by simp
  assume nw: "newest (log \<union> \<Union> (set lev)) k sn r" and sn: "length ops \<le> sn"
  have "min_snapshot db \<le> sn" using min_snapshot_le(1) [OF inv] sn by simp
  then have vis: "\<forall>k r. newest (set (mt_iter (db_mem db)) \<union> \<Union> (set lev)) k sn r \<longrightarrow> live_value r = state_at ops sn k"
    using inv unfolding db_inv_def visible_ok_def src by simp
  show "live_value r = state_at ops sn k"
  proof (rule newest_with_log [OF vis sn _ all _ _ nw])
    have "e \<in> log" if "e \<in> set (mt_iter (db_mem db))" for e
      using bspec [OF mem that] subsetD [OF sub UnI1 [OF that]] unfolding log_def by (cases e) simp
    then show "set (mt_iter (db_mem db)) \<union> \<Union> (set lev) \<subseteq> log \<union> \<Union> (set lev)" by blast
    show "(k, s, v) \<in> log \<union> \<Union> (set lev)" if "(k, s, v) \<in> versions_of ops" "start < s" for k s v
      using that by (simp add: log_def)
    show "(k, s, v) \<in> set (mt_iter (db_mem db)) \<union> \<Union> (set lev)"
      if "(k, s, v) \<in> log \<union> \<Union> (set lev)" "s \<le> start" for k s v
      using that by (simp add: log_def)
  qed
qed

lemma dir_holds_open:
  assumes ok: "db_ok L ops db" and opts: "opts_ok (db_opts db)" and dir: "dir_holds L ops db d"
  shows "\<exists>db'. db_load L (db_opts db) d = Inr db' \<and> db_good L ops db' \<and> db_opts db' = db_opts db \<and>
    db_snapshots db' = bt_empty"
proof -
  let ?L = "lib_sst L" and ?m = "db_manifest db"
  have inv: "db_inv L ops db" and fits: "history_fits L (db_opts db) ops" and match: "levels_match L db"
    and limits: "limits_fit (db_opts db) (length (db_levels db))"
    using ok by (simp_all add: db_ok_def)
  have tabs: "\<forall>t \<in> set (concat (db_levels db)). good_table ?L (db_opts db) (db_files db) t"
    and next_id: "\<forall>t \<in> set (concat (db_levels db)). st_id t < next_table_id ?m"
    and dist: "distinct (map st_id (concat (db_levels db)))" and lvl: "\<forall>ts \<in> set (tl (db_levels db)). level_sorted ts"
    and ne: "db_levels db \<noteq> []"
    using inv by (auto simp: db_inv_def tables_ok_def)
  obtain om start bs f where load: "manifest_load (lib_man L) (dir_manifest d) = Inr om"
      "(case om of None \<Rightarrow> manifest_default | Some m' \<Rightarrow> m') = ?m"
    and files: "\<forall>t \<in> set (concat (db_levels db)). dir_files d (st_id t) = db_files db (st_id t)"
    and wal: "wal_replay (lib_wal L) (dir_wal d) = (bs, f)"
      "(case f of None \<Rightarrow> [] | Some data \<Rightarrow> data) = wal_frames (lib_wal L) bs"
    and log: "log_holds (lib_wal L) ops start bs"
    and mem: "\<forall>e \<in> set (mt_iter (db_mem db)). start < fst (snd e)"
    and last: "start \<le> last_seq ?m" "last_seq ?m \<le> length ops"
    using dir unfolding dir_holds_def loaded_def by blast
  have start: "start \<le> length ops" "drop start ops = ops_of bs" "consecutive start bs" using log by (simp_all add: log_holds_def)
  obtain lvls where lvls: "open_levels ?L (dir_files d) (mf_levels ?m) = Inr lvls" "(if lvls = [] then [[]] else lvls) = db_levels db"
    using match open_levels_match [OF _ tabs files] ne by (auto simp: levels_match_def)
  have seq: "(if bs = [] then last_seq ?m else max (last_seq ?m) (start + length (ops_of bs))) = length ops"
    using start last by (cases "bs = []") (auto simp: start(2) [symmetric])
  define db1 where "db1 = \<lparr>db_opts = db_opts db, db_mem = log_mem ops start,
      db_wal = wal_open (wal_frames (lib_wal L) bs) (sync (db_opts db)), db_levels = db_levels db, db_manifest = ?m,
      db_seq = length ops, db_snapshots = bt_empty, db_files = dir_files d, db_mdir = dir_manifest d\<rparr>"
  have opn: "db_load L (db_opts db) d = Inr db1"
    using load lvls wal replay_batches [OF start(3), of mt_new "last_seq ?m"] seq
    by (simp add: db_load_def db1_def start(2))
  have lev: "map (level_set ?L (dir_files d)) (db_levels db) = map (level_set ?L (db_files db)) (db_levels db)"
    using files by (intro map_cong refl level_set_file) auto
  note mem_facts = log_mem_facts [OF start(1)] and srcs = opened_sources [OF inv start(1) mem]
  have src: "sources L db1 = {(k, s, v) \<in> versions_of ops. start < s} # map (level_set ?L (db_files db)) (db_levels db)"
    by (simp only: sources_def db1_def db.simps mem_facts(2) lev)
  have "good_table ?L (db_opts db) (dir_files d) t" if "t \<in> set (concat (db_levels db))" for t
    using good_table_file [of "dir_files d" t "db_files db"] files tabs that by blast
  then have "tables_ok L db1"
    using next_id dist lvl ne by (simp add: tables_ok_def db1_def)
  moreover have "visible_ok L ops db1"
    using srcs(3) unfolding visible_ok_def src by (simp add: min_snapshot_def db1_def bt_empty_def)
  ultimately have "db_inv L ops db1"
    unfolding db_inv_def src using srcs(1,2) mem_facts(1) by (simp add: db1_def bt_empty_def)
  moreover have "levels_match L db1"
  proof -
    have "list_all2 (list_all2 (meta_matches ?L (db_opts db) (dir_files d))) mss tss"
      if "list_all2 (list_all2 (meta_matches ?L (db_opts db) (db_files db))) mss tss"
        "set (concat tss) \<subseteq> set (concat (db_levels db))" for mss tss
      using that(1)
    proof (rule list.rel_mono_strong)
      fix ms ts assume ts: "ts \<in> set tss" and "list_all2 (meta_matches ?L (db_opts db) (db_files db)) ms ts"
      then show "list_all2 (meta_matches ?L (db_opts db) (dir_files d)) ms ts"
      proof (rule_tac list.rel_mono_strong)
        fix m t assume t: "t \<in> set ts" and R: "meta_matches ?L (db_opts db) (db_files db) m t"
        have "dir_files d (st_id t) = db_files db (st_id t)" using files that(2) t ts by auto
        from meta_matches_file [of "dir_files d" t "db_files db", OF this] R
        show "meta_matches ?L (db_opts db) (dir_files d) m t" by blast
      qed
    qed
    then show ?thesis using match by (auto simp: levels_match_def db1_def)
  qed
  moreover have "disk_ok L ops db1"
    unfolding disk_ok_def loaded_def db1_def using load log last by (auto simp: wal_open_def)
  ultimately have "db_good L ops db1"
    using fits opts limits by (simp add: db_good_def db_ok_def db1_def)
  then show ?thesis unfolding opn by (simp add: db1_def)
qed

lemma db_open_good:
  assumes "man_lib_ok (lib_man L)" "db_load L opts d = Inr db" "db_good L ops db"
  shows "\<exists>db'. db_open L opts d = Some (Inr db') \<and> db_good L ops db' \<and> db_opts db' = db_opts db \<and>
    db_snapshots db' = db_snapshots db"
  using maybe_flush_good [OF assms(1,3)] by (simp add: db_open_def assms(2))

end
