(* ===== verification/Plain_Storage.thy ===== *)
theory Plain_Storage
  imports Db_Ops
begin

text \<open>
  Concrete serialisations of table indexes and manifests and a concrete checksum. They stand for
  \<open>bincode\<close> and \<open>crc32fast\<close> where a statement about the storage engine is instantiated: decoding
  inverts encoding for every value.
\<close>

definition put_block_meta :: "block_meta \<Rightarrow> bytes" where
  "put_block_meta m = put_bytes (first_key m) @ put_nat (bm_offset m) @ put_nat (bm_len m) @ put_nat (bm_crc m)"

definition get_block_meta :: "bytes \<Rightarrow> (block_meta \<times> bytes) option" where
  "get_block_meta bs =
     Option.bind (get_bytes bs) (\<lambda>(k, r). Option.bind (get_nat r) (\<lambda>(off, r).
       Option.bind (get_nat r) (\<lambda>(len, r). Option.bind (get_nat r) (\<lambda>(crc, r).
         Some (\<lparr>first_key = k, bm_offset = off, bm_len = len, bm_crc = crc\<rparr>, r)))))"

lemma get_put_block_meta: "get_block_meta (put_block_meta m @ r) = Some (m, r)"
  by (simp add: get_block_meta_def put_block_meta_def codec_simps)

definition put_index :: "table_index \<Rightarrow> bytes" where
  "put_index i =
     put_list put_block_meta (ti_blocks i) @ put_bytes (ti_bloom i) @ put_nat (ti_entry_count i) @
     put_bytes (ti_min_key i) @ put_bytes (ti_max_key i) @ put_nat (ti_max_seq i)"

definition get_index :: "bytes \<Rightarrow> table_index option" where
  "get_index bs =
     Option.bind (get_list get_block_meta bs) (\<lambda>(blocks, r). Option.bind (get_bytes r) (\<lambda>(bloom, r).
       Option.bind (get_nat r) (\<lambda>(n, r). Option.bind (get_bytes r) (\<lambda>(mn, r).
         Option.bind (get_bytes r) (\<lambda>(mx, r). Option.bind (get_nat r) (\<lambda>(s, _).
           Some \<lparr>ti_blocks = blocks, ti_bloom = bloom, ti_entry_count = n, ti_min_key = mn,
                 ti_max_key = mx, ti_max_seq = s\<rparr>))))))"

lemma get_put_index: "get_index (put_index i) = Some i"
proof -
  have "get_nat (put_nat n) = Some (n, [])" for n using get_put_nat [of n "[]"] by simp
  then show ?thesis
    by (simp add: get_index_def put_index_def codec_simps
        get_put_list [of get_block_meta put_block_meta, OF get_put_block_meta])
qed

definition put_table_meta :: "table_meta \<Rightarrow> bytes" where
  "put_table_meta m =
     put_nat (tm_id m) @ put_bytes (tm_min_key m) @ put_bytes (tm_max_key m) @ put_nat (tm_entries m) @
     put_nat (tm_bytes m)"

definition get_table_meta :: "bytes \<Rightarrow> (table_meta \<times> bytes) option" where
  "get_table_meta bs =
     Option.bind (get_nat bs) (\<lambda>(i, r). Option.bind (get_bytes r) (\<lambda>(mn, r).
       Option.bind (get_bytes r) (\<lambda>(mx, r). Option.bind (get_nat r) (\<lambda>(n, r).
         Option.bind (get_nat r) (\<lambda>(b, r).
           Some (\<lparr>tm_id = i, tm_min_key = mn, tm_max_key = mx, tm_entries = n, tm_bytes = b\<rparr>, r))))))"

lemma get_put_table_meta: "get_table_meta (put_table_meta m @ r) = Some (m, r)"
  by (simp add: get_table_meta_def put_table_meta_def codec_simps)

definition put_manifest :: "manifest \<Rightarrow> bytes" where
  "put_manifest m =
     put_list (put_list put_table_meta) (mf_levels m) @ put_nat (next_table_id m) @ put_nat (last_seq m)"

definition get_manifest :: "bytes \<Rightarrow> manifest option" where
  "get_manifest bs =
     Option.bind (get_list (get_list get_table_meta) bs) (\<lambda>(levels, r). Option.bind (get_nat r) (\<lambda>(i, r).
       Option.bind (get_nat r) (\<lambda>(s, _).
         Some \<lparr>mf_levels = levels, next_table_id = i, last_seq = s\<rparr>)))"

lemma get_put_manifest: "get_manifest (put_manifest m) = Some m"
proof -
  have "get_nat (put_nat n) = Some (n, [])" for n using get_put_nat [of n "[]"] by simp
  moreover note get_put_list [OF get_put_list [of get_table_meta put_table_meta, OF get_put_table_meta]]
  ultimately show ?thesis
    by (simp add: get_manifest_def put_manifest_def codec_simps)
qed

definition sum_crc :: "bytes \<Rightarrow> 32 word" where
  "sum_crc bs = word_of_nat (sum_list (map unat bs))"

definition plain_sst_lib :: sst_lib where
  "plain_sst_lib = \<lparr>enc_index = put_index, dec_index = get_index, block_crc = sum_crc\<rparr>"

definition plain_manifest_lib :: manifest_lib where
  "plain_manifest_lib = \<lparr>enc_manifest = put_manifest, dec_manifest = get_manifest, man_crc = sum_crc\<rparr>"

definition plain_storage_lib :: storage_lib where
  "plain_storage_lib = \<lparr>lib_wal = plain_wal_lib, lib_sst = plain_sst_lib, lib_man = plain_manifest_lib\<rparr>"

section \<open>Small histories fit\<close>

definition small_ops :: "(bytes \<times> bytes option) list \<Rightarrow> bool" where
  "small_ops ops \<longleftrightarrow> length ops \<le> 10 \<and> (\<forall>(k, v) \<in> set ops. length k + value_len v \<le> 100)"

definition small_entries :: "entry list \<Rightarrow> bool" where
  "small_entries es \<longleftrightarrow> length es \<le> 10 \<and> (\<forall>(k, s, v) \<in> set es. length k + value_len v \<le> 100 \<and> s \<le> 10)"

lemma length_from_hashes:
  "length (bf_bits (from_hashes hs n)) = (max (length hs * n) 64 + 7) div 8"
  by (simp add: from_hashes_def Let_def)

lemma small_encode: "small_entries es \<Longrightarrow> length (encode_block es) \<le> 1170"
proof -
  assume small: "small_entries es"
  have "length (encode_block es) \<le> 117 * length es"
  proof -
    have "length (encode_entry e) \<le> 117" if e: "e \<in> set es" for e
    proof -
      obtain k s v where kv: "e = (k, s, v)" by (cases e)
      then have "length k + value_len v \<le> 100" using small e by (auto simp: small_entries_def)
      then show ?thesis unfolding kv length_encode_entry by simp
    qed
    then show ?thesis by (induction es) (simp_all add: add_mono)
  qed
  then show ?thesis using small by (simp add: small_entries_def)
qed

text \<open>Entries that stay below the block size make one block.\<close>

lemma small_adds:
  assumes "length (tb_block b) + length (encode_block es) < tb_block_bytes b"
  shows "each_ok (tb_add L) es b = Inr (fold tb_note es b)"
  using assms
proof (induction es arbitrary: b)
  case Nil
  then show ?case by simp
next
  case (Cons e es)
  have note_fields: "tb_block (tb_note e b) = tb_block b @ encode_entry e" "tb_block_bytes (tb_note e b) = tb_block_bytes b"
    by (simp_all add: tb_note_def)
  have "tb_add L e b = Inr (tb_note e b)" using Cons.prems by (simp add: tb_add_note note_fields)
  moreover have "each_ok (tb_add L) es (tb_note e b) = Inr (fold tb_note es (tb_note e b))"
    using Cons.prems by (intro Cons.IH) (simp add: note_fields)
  ultimately show ?case by simp
qed

lemma notes_facts:
  "tb_inv L n m [] cur b \<Longrightarrow> tb_inv L n m [] (cur @ es) (fold tb_note es b)"
  "tb_summary xs b \<Longrightarrow> tb_summary (xs @ es) (fold tb_note es b)"
  "length (tb_key_hashes (fold tb_note es b)) \<le> length (tb_key_hashes b) + length es"
  "(\<forall>e \<in> set es. fst (snd e) \<le> N) \<Longrightarrow> tb_max_seq b \<le> N \<Longrightarrow> tb_max_seq (fold tb_note es b) \<le> N"
proof -
  show "tb_inv L n m [] cur b \<Longrightarrow> tb_inv L n m [] (cur @ es) (fold tb_note es b)"
    by (induction es arbitrary: cur b) (simp_all, metis append.assoc append_Cons append_Nil tb_inv_note)
  show "tb_summary xs b \<Longrightarrow> tb_summary (xs @ es) (fold tb_note es b)"
    by (induction es arbitrary: xs b) (simp_all, metis append.assoc append_Cons append_Nil tb_summary_note)
  show "length (tb_key_hashes (fold tb_note es b)) \<le> length (tb_key_hashes b) + length es"
  proof (induction es arbitrary: b)
    case (Cons e es)
    have "length (tb_key_hashes (tb_note e b)) \<le> Suc (length (tb_key_hashes b))" by (simp add: tb_note_def)
    then show ?case using Cons.IH [of "tb_note e b"] by simp
  qed simp
  show "(\<forall>e \<in> set es. fst (snd e) \<le> N) \<Longrightarrow> tb_max_seq b \<le> N \<Longrightarrow> tb_max_seq (fold tb_note es b) \<le> N"
  proof (induction es arbitrary: b)
    case (Cons e es)
    then show ?case by (simp add: tb_note_def)
  qed simp
qed

lemma sum_crc_le: "unat (sum_crc bs) \<le> 255 * length bs"
proof -
  have "unat b \<le> 255" for b :: byte using unat_byte_lt [of b] by simp
  then have "sum_list (map unat bs) \<le> 255 * length bs" by (induction bs) (simp_all add: add_mono)
  moreover have "unat (word_of_nat x :: 32 word) \<le> x" for x by (simp add: unat_of_nat)
  ultimately show ?thesis unfolding sum_crc_def by (rule le_trans [rotated])
qed

lemma length_put:
  "length (put_nat n) = Suc n" "length (put_bytes bs) = Suc (2 * length bs)"
  by (simp_all add: put_nat_def put_bytes_def)

lemma small_table_fits:
  assumes small: "small_entries es" and ne: "es \<noteq> []"
  shows "table_fits plain_sst_lib 4096 10 es"
    "block_bytes opts = 4096 \<Longrightarrow> bits_per_key opts = 10 \<Longrightarrow> built_size plain_sst_lib opts es < 2 ^ 33"
proof -
  let ?L = plain_sst_lib and ?b = "fold tb_note es (tb_create 4096 10)"
  note enc = small_encode [OF small]
  have len: "length es \<le> 10" using small by (simp add: small_entries_def)
  have entry: "length (encode_entry e) \<le> 117 \<and> fst (snd e) \<le> 10 \<and> length (fst e) \<le> 100" if e: "e \<in> set es" for e
  proof -
    obtain k s v where kv: "e = (k, s, v)" by (cases e)
    then have "length k + value_len v \<le> 100 \<and> s \<le> 10" using small e by (auto simp: small_entries_def)
    then show ?thesis unfolding kv length_encode_entry by simp
  qed
  have add: "each_ok (tb_add ?L) es (tb_create 4096 10) = Inr ?b"
    by (rule small_adds) (use enc in \<open>simp add: tb_create_def\<close>)
  have inv: "tb_inv ?L 4096 10 [] ([] @ es) ?b" by (rule notes_facts(1) [OF tb_inv_create])
  have sum: "tb_summary ([] @ es) ?b" by (rule notes_facts(2) [OF tb_summary_create])
  have hashes: "length (tb_key_hashes ?b) \<le> 10"
    using notes_facts(3) [of es "tb_create 4096 10"] len by (simp add: tb_create_def)
  have seq: "tb_max_seq ?b \<le> 10"
    by (rule notes_facts(4)) (use entry in \<open>auto simp: tb_create_def\<close>)
  obtain b where b: "flush_block ?L ?b = Inr b" "tb_inv ?L 4096 10 [es] [] b"
    using flush_block_inv [OF inv] ne by auto
  have seq': "tb_max_seq b \<le> 10"
    using b(1) seq by (auto simp: flush_block_def split: if_splits option.splits)
  have sum': "tb_summary es b" using tb_summary_flush [OF b(1)] sum by simp
  let ?m = "\<lparr>first_key = fst (hd es), bm_offset = 0, bm_len = length (encode_block es) mod 2 ^ 32,
    bm_crc = unat (block_crc ?L (encode_block es))\<rparr>"
  let ?bloom = "bf_encode (from_hashes (tb_key_hashes b) 10)"
  have idx: "index_of b = \<lparr>ti_blocks = [?m], ti_bloom = ?bloom, ti_entry_count = length es,
      ti_min_key = fst (hd es), ti_max_key = fst (last es), ti_max_seq = tb_max_seq b\<rparr>"
    using b(2) sum' ne by (simp add: index_of_def tb_inv_def tb_summary_def unwrap_or_default_def)
  have bloom: "length ?bloom \<le> 20"
    using hashes flush_block_fields(1) [OF b(1)] by (simp add: bf_encode_def length_from_hashes)
  have keys: "length (fst (hd es)) \<le> 100" "length (fst (last es)) \<le> 100" using entry ne by simp_all
  have crc: "unat (block_crc ?L (encode_block es)) \<le> 255 * 1170"
    using sum_crc_le [of "encode_block es"] enc by (simp add: plain_sst_lib_def)
  have "length (enc_index ?L (index_of b)) =
      length (put_nat 1) + length (put_block_meta ?m) + length (put_bytes ?bloom) + length (put_nat (length es)) +
      length (put_bytes (fst (hd es))) + length (put_bytes (fst (last es))) + length (put_nat (tb_max_seq b))"
    unfolding idx by (simp add: plain_sst_lib_def put_index_def put_list_def)
  also have "\<dots> \<le> 2 + (201 + 1 + 1171 + (255 * 1170 + 1)) + 41 + 11 + 201 + 201 + 11"
    using bloom keys crc enc len seq' by (simp add: length_put put_block_meta_def del: length_concat)
  finally have small_index: "length (enc_index ?L (index_of b)) < 2 ^ 32" by simp
  then have "length (enc_index ?L (index_of b)) < 2 ^ 32" .
  moreover have "dec_index ?L (enc_index ?L (index_of b)) = Some (index_of b)"
    by (simp add: plain_sst_lib_def get_put_index)
  moreover have "\<forall>e \<in> set es. entry_fits 4096 e" using entry by (fastforce simp: entry_fits_def)
  ultimately show "table_fits plain_sst_lib 4096 10 es" unfolding table_fits_def add and_then.simps b(1) using enc by simp
  have "tb_offset b \<le> 1170" using b(2) enc by (simp add: tb_inv_def)
  then show "built_size plain_sst_lib opts es < 2 ^ 33" if "block_bytes opts = 4096" "bits_per_key opts = 10"
    using small_index by (simp add: built_size_def that build_table_def add tb_finish_def b(1) Let_def)
qed

lemma small_versions:
  assumes small: "small_ops ops" and es: "distinct es" "set es \<subseteq> versions_of ops"
  shows "small_entries es"
proof -
  have "length es = card (set es)" using es(1) by (simp add: distinct_card)
  also have "\<dots> \<le> card ((\<lambda>i. (fst (ops ! i), Suc i, snd (ops ! i))) ` {..<length ops})"
  proof (rule card_mono)
    show "set es \<subseteq> (\<lambda>i. (fst (ops ! i), Suc i, snd (ops ! i))) ` {..<length ops}"
    proof
      fix e assume "e \<in> set es"
      then have "e \<in> versions_of ops" using es(2) by blast
      then show "e \<in> (\<lambda>i. (fst (ops ! i), Suc i, snd (ops ! i))) ` {..<length ops}"
        by (intro image_eqI [where x = "fst (snd e) - 1"]) (auto simp: versions_of_def)
    qed
  qed simp
  also have "\<dots> \<le> length ops" using card_image_le [of "{..<length ops}"] by simp
  finally have len: "length es \<le> 10" using small by (simp add: small_ops_def)
  have "length k + value_len v \<le> 100 \<and> s \<le> 10" if "(k, s, v) \<in> set es" for k s v
  proof -
    have v: "0 < s" "s \<le> length ops" "ops ! (s - 1) = (k, v)" using that es(2) by (auto simp: versions_of_def)
    then have "ops ! (s - 1) \<in> set ops" by (intro nth_mem) simp
    then have "(k, v) \<in> set ops" unfolding v(3) .
    then show ?thesis using v(2) small by (auto simp: small_ops_def)
  qed
  then show ?thesis using len by (auto simp: small_entries_def)
qed

lemma small_level_room:
  assumes small: "small_ops ops" and opts: "block_bytes opts = 4096" "bits_per_key opts = 10" "level_multiplier opts \<le> 10"
  shows "level_room plain_storage_lib opts ops"
  unfolding level_room_def
proof (intro allI impI)
  fix ess assume ess: "[] \<notin> set ess" "distinct (concat ess)" "set (concat ess) \<subseteq> versions_of ops"
  let ?size = "built_size (lib_sst plain_storage_lib) opts"
  have "?size es \<le> 2 ^ 33" if es: "es \<in> set ess" for es
  proof -
    have "distinct es" "set es \<subseteq> versions_of ops" using ess es by (auto simp: distinct_concat_iff)
    from small_table_fits(2) [OF small_versions [OF small this] _ opts(1,2)] es ess(1)
    show ?thesis by (force simp: plain_storage_lib_def)
  qed
  then have "sum_list (map ?size ess) \<le> length ess * 2 ^ 33"
    by (induction ess) (fastforce simp: add_mono)+
  also have "length ess \<le> length (concat ess)"
    using ess(1)
  proof (induction ess)
    case (Cons es ess)
    then show ?case by (cases es) simp_all
  qed simp
  then have "length ess * 2 ^ 33 \<le> 10 * 2 ^ (33 :: nat)"
    using small_versions [OF small ess(2,3)] by (simp add: small_entries_def)
  finally have "sum_list (map ?size ess) \<le> 10 * 2 ^ 33" .
  from mult_le_mono [OF opts(3) this] show "level_multiplier opts * sum_list (map ?size ess) < 2 ^ 64" by simp
qed

lemma small_history_fits:
  assumes small: "small_ops ops"
    and opts: "block_bytes opts = 4096" "bits_per_key opts = 10" "level_multiplier opts \<le> 10"
  shows "history_fits plain_storage_lib opts ops"
  unfolding history_fits_def
proof (intro conjI allI impI small_level_room [OF assms])
  fix es assume es: "es \<noteq> []" "entries_sorted es" "set es \<subseteq> versions_of ops"
  from small_table_fits(1) [OF small_versions [OF small entries_sorted_distinct [OF es(2)] es(3)] es(1)]
  show "table_fits (lib_sst plain_storage_lib) (block_bytes opts) (bits_per_key opts) es"
    by (simp add: plain_storage_lib_def opts)
qed

lemma small_batch:
  assumes "n \<le> 10" "small_ops ops"
  shows "wal_lib_ok (lib_wal plain_storage_lib) \<lparr>wal_batch.first_seq = n, wb_ops = ops\<rparr>"
proof -
  have pair: "length (put_op_pair (k, v)) \<le> 203" if "length k + value_len v \<le> 100" for k v
    using that by (cases v) (simp_all add: put_op_pair_def length_put value_len_def)
  have "length (concat (map put_op_pair ops)) \<le> 203 * length ops"
  proof -
    have "\<forall>e \<in> set ops. length (put_op_pair e) \<le> 203" using pair assms(2) by (auto simp: small_ops_def)
    then show ?thesis by (induction ops) (simp_all add: add_mono)
  qed
  then have "length (concat (map put_op_pair ops)) \<le> 2030" using assms(2) by (simp add: small_ops_def)
  moreover have "length ops \<le> 10" using assms(2) by (simp add: small_ops_def)
  ultimately have "length (enc_batch plain_wal_lib \<lparr>wal_batch.first_seq = n, wb_ops = ops\<rparr>) < 2 ^ 32"
    using assms(1) by (simp add: plain_wal_lib_def put_list_def length_put del: length_concat)
  then show ?thesis by (simp add: wal_lib_ok_def plain_storage_lib_def plain_wal_dec)
qed

abbreviation one_op :: "(bytes \<times> bytes option) list" where
  "one_op \<equiv> [([1], Some [2])]"

lemma one_op_fits: "history_fits plain_storage_lib default_options one_op"
  by (rule small_history_fits) (simp_all add: small_ops_def value_len_def default_options_def)

section \<open>Tables read back\<close>

text \<open>
  C28: Building a table from sorted entries succeeds, and the file it wrote, opened again next to any
  other files, yields exactly those entries in order; a point lookup at any sequence number answers
  what a search of all the entries answers, whatever the key range, the Bloom filter and the block
  index let it skip.
\<close>
theorem table_roundtrip:
  assumes "table_fits L n m es" "es \<noteq> []" "entries_sorted es"
  shows "\<exists>f t. build_table L n m es = Inr (f, length es, length f, fst (hd es), fst (last es)) \<and>
    sst_open L (files(i \<mapsto> f)) i = Inr t \<and> sst_iter L (files(i \<mapsto> f)) t = Inr es \<and>
    (\<forall>key sn. sst_get L (files(i \<mapsto> f)) t key sn = Inr (lookup_at es key sn))"
proof -
  obtain f t where "build_table L n m es = Inr (f, length es, length f, fst (hd es), fst (last es))"
    "sst_open L (files(i \<mapsto> f)) i = Inr t" and holds: "table_holds L n m (files(i \<mapsto> f)) t es"
    using build_table_ok [OF assms, of files i] by auto
  then show ?thesis using sst_iter_entries [OF holds] sst_get_lookup [OF holds] by blast
qed

theorem table_roundtrip_witness:
  "\<exists>f t. sst_open plain_sst_lib [7 \<mapsto> f] 7 = Inr t \<and>
    sst_get plain_sst_lib [7 \<mapsto> f] t [1] 5 = Inr (Some (2, Some [9])) \<and>
    sst_get plain_sst_lib [7 \<mapsto> f] t [2] 5 = Inr (Some (1, None))"
proof -
  let ?es = "[([1], 6, None), ([1], 2, Some [9]), ([2], 1, None)] :: entry list"
  have "table_fits plain_sst_lib 4096 10 ?es"
    by (rule small_table_fits) (simp_all add: small_entries_def value_len_def)
  moreover have "entries_sorted ?es" by simp
  ultimately obtain f t where "sst_open plain_sst_lib [7 \<mapsto> f] 7 = Inr t"
    "\<forall>key sn. sst_get plain_sst_lib [7 \<mapsto> f] t key sn = Inr (lookup_at ?es key sn)"
    using table_roundtrip [of plain_sst_lib 4096 10 ?es Map.empty 7] by auto
  then show ?thesis by (intro exI [of _ f] exI [of _ t]) (simp add: lookup_at_def)
qed

end
