(* ===== verification/Db_Runs.thy ===== *)
theory Db_Runs
  imports Db_Recover Plain_Storage
begin

text \<open>
  The life of a database: it is created in an empty directory, written, flushed, compacted, read
  through snapshots, and crashes, to be opened again from the files the crash left. Reads return the
  state after the acknowledged writes in every such life. One kind of crash is left out of a life,
  because the code does not survive it: a crash while the manifest is saved when \<open>MANIFEST.tmp\<close> is
  its only copy, which an earlier crash between the removal of \<open>MANIFEST\<close> and the renaming leaves
  behind. What is lost then is stated at the end.
\<close>

section \<open>The directory a crash leaves\<close>

definition empty_dir :: db_dir where
  "empty_dir = \<lparr>dir_files = (\<lambda>_. None), dir_manifest = \<lparr>md_main = None, md_tmp = None\<rparr>, dir_wal = None\<rparr>"

text \<open>
  A crash during a flush or a compaction that takes \<open>db\<close> to \<open>db'\<close>: while the new tables are written
  (whatever is in their files), while the manifest is saved, or after that, with some of the files
  removed and the log reset or not.
\<close>

definition crash_between :: "storage_lib \<Rightarrow> db \<Rightarrow> db \<Rightarrow> db_dir \<Rightarrow> bool" where
  "crash_between L db db' d \<longleftrightarrow>
     (let new = next_table_id (db_manifest db)
      in (\<forall>i < new. dir_files d i = db_files db i) \<and> dir_manifest d = db_mdir db \<and>
           dir_wal d = Some (wal_data (db_wal db)) \<or>
         (\<forall>i. dir_files d i = (if i < new then db_files db i else db_files db' i)) \<and>
           save_crash (lib_man L) (db_manifest db') (db_mdir db) (dir_manifest d) \<and>
           dir_wal d = Some (wal_data (db_wal db)) \<or>
         (\<forall>i. dir_files d i = db_files db' i \<or> i < new \<and> dir_files d i = db_files db i) \<and>
           dir_manifest d = db_mdir db' \<and>
           (dir_wal d = Some (wal_data (db_wal db)) \<or> dir_wal d = Some (wal_data (db_wal db'))))"

text \<open>A crash during the append of a batch: part of its frame is there.\<close>

definition crash_logging :: "storage_lib \<Rightarrow> (bytes \<times> bytes option) list \<Rightarrow> db \<Rightarrow> nat \<Rightarrow> db_dir \<Rightarrow> bool" where
  "crash_logging L new db n d \<longleftrightarrow>
     dir_files d = db_files db \<and> dir_manifest d = db_mdir db \<and>
     dir_wal d = Some (wal_data (db_wal db) @
       take n (wal_frame (lib_wal L) \<lparr>wal_batch.first_seq = Suc (db_seq db), wb_ops = new\<rparr>))"

text \<open>The checksum tells every beginning of a frame from a whole one.\<close>

definition torn_detected :: "manifest_lib \<Rightarrow> manifest \<Rightarrow> bool" where
  "torn_detected L m \<longleftrightarrow>
     (\<forall>n < length (manifest_frame L m). load_from L [Some (take n (manifest_frame L m))] = Inr None)"

text \<open>
  The crashes that a save survives: the save had not begun or was over, or the current manifest is in
  the file \<open>MANIFEST\<close>, or there is no manifest yet and the checksum tells a torn first one.
\<close>

definition save_safe :: "storage_lib \<Rightarrow> db \<Rightarrow> db \<Rightarrow> db_dir \<Rightarrow> bool" where
  "save_safe L db db' d \<longleftrightarrow>
     dir_manifest d = db_mdir db \<or> dir_manifest d = db_mdir db' \<or>
     md_main (db_mdir db) = Some (manifest_frame (lib_man L) (db_manifest db)) \<or>
     md_main (db_mdir db) = None \<and> db_manifest db = manifest_default \<and> torn_detected (lib_man L) (db_manifest db')"

lemma save_crash_loaded:
  assumes man: "man_lib_ok L" and crash: "save_crash L m' d d'" and load: "loaded L d m"
    and safe: "md_main d = Some (manifest_frame L m) \<or> md_main d = None \<and> m = manifest_default \<and> torn_detected L m'"
  shows "loaded L d' m \<or> loaded L d' m'"
  using safe
proof
  assume main: "md_main d = Some (manifest_frame L m)"
  have "dec_manifest L (enc_manifest L m) = Some m" "dec_manifest L (enc_manifest L m') = Some m'"
    using man by (simp_all add: man_lib_ok_def)
  from save_crash_load [OF this main crash] show ?thesis by (auto simp: loaded_def)
next
  assume d: "md_main d = None \<and> m = manifest_default \<and> torn_detected L m'"
  have m': "load_from L [Some (manifest_frame L m')] = Inr (Some m')"
    using load_from_frame [of L m' "[]"] man by (simp add: man_lib_ok_def del: load_from.simps)
  show ?thesis
    using crash
  proof (cases rule: save_crash_cases)
    case 1
    then show ?thesis using load by simp
  next
    case (2 n)
    have load': "manifest_load L d' = load_from L [Some (take n (manifest_frame L m'))]"
      using d 2 by (simp add: manifest_load_def del: load_from.simps(3))
    show ?thesis
    proof (cases "n < length (manifest_frame L m')")
      case True
      have "manifest_load L d' = Inr None" unfolding load' using d True by (simp add: torn_detected_def)
      then show ?thesis using d by (simp add: loaded_def)
    next
      case False
      then show ?thesis using m' load' by (simp add: loaded_def)
    qed
  next
    case 3
    then show ?thesis using m' by (simp add: loaded_def manifest_load_def del: load_from.simps(3))
  next
    case 4
    then show ?thesis using loaded_save [OF man] by simp
  qed
qed

lemma live_table_id:
  "db_good L ops db \<Longrightarrow> t \<in> set (concat (db_levels db)) \<Longrightarrow> st_id t < next_table_id (db_manifest db)"
  unfolding db_good_def db_ok_def db_inv_def tables_ok_def by blast

text \<open>The directory holds \<open>db'\<close> together with the log of \<open>db\<close>.\<close>

lemma dir_holds_log_of:
  assumes good: "db_good L ops db"
    and load: "loaded (lib_man L) (dir_manifest d) (db_manifest db')"
    and files: "\<forall>t \<in> set (concat (db_levels db')). dir_files d (st_id t) = db_files db' (st_id t)"
    and mem: "db_mem db' = mt_new \<or> db_mem db' = db_mem db"
    and wal: "dir_wal d = Some (wal_data (db_wal db))"
    and seq: "last_seq (db_manifest db) \<le> last_seq (db_manifest db')" "last_seq (db_manifest db') \<le> length ops"
  shows "dir_holds L ops db' d"
proof -
  obtain start bs where s: "log_holds (lib_wal L) ops start bs" "db_mem db = log_mem ops start"
      "wal_data (db_wal db) = wal_frames (lib_wal L) bs" "start \<le> last_seq (db_manifest db)"
    using good unfolding db_good_def disk_ok_def by blast
  have "start \<le> length ops" using s(1) by (simp add: log_holds_def)
  from log_mem_facts(2) [OF this] have "\<forall>e \<in> set (mt_iter (db_mem db')). start < fst (snd e)"
    using mem s(2) by auto
  moreover have "wal_replay (lib_wal L) (dir_wal d) = (bs, Some (wal_frames (lib_wal L) bs))"
    using wal_replay_frames_torn [of bs "lib_wal L" "[]"] s(1,3) wal by (simp add: log_holds_def)
  ultimately show ?thesis
    unfolding dir_holds_def using load files s(1,4) seq
    by (intro conjI exI [of _ start] exI [of _ bs] exI [of _ "Some (wal_frames (lib_wal L) bs)"]) simp_all
qed

text \<open>What flushes and compactions have in common.\<close>

definition table_step :: "db \<Rightarrow> db \<Rightarrow> bool" where
  "table_step db db' \<longleftrightarrow>
     db_opts db' = db_opts db \<and> (db_mem db' = mt_new \<or> db_mem db' = db_mem db) \<and>
     last_seq (db_manifest db) \<le> last_seq (db_manifest db') \<and>
     (\<forall>t \<in> set (concat (db_levels db')). st_id t < next_table_id (db_manifest db) \<longrightarrow>
        db_files db' (st_id t) = db_files db (st_id t))"

lemma disk_ok_last_seq: "db_good L ops db \<Longrightarrow> last_seq (db_manifest db) \<le> length ops"
  unfolding db_good_def disk_ok_def by blast

lemma disk_ok_loaded: "db_good L ops db \<Longrightarrow> loaded (lib_man L) (db_mdir db) (db_manifest db)"
  unfolding db_good_def disk_ok_def by blast

lemma crash_between_holds:
  assumes man: "man_lib_ok (lib_man L)" and good: "db_good L ops db" and good': "db_good L ops db'"
    and step: "table_step db db'" and crash: "crash_between L db db' d" and safe: "save_safe L db db' d"
  shows "dir_holds L ops db d \<or> dir_holds L ops db' d"
proof -
  let ?new = "next_table_id (db_manifest db)"
  note seq = disk_ok_last_seq [OF good] disk_ok_last_seq [OF good']
  have mem: "db_mem db' = mt_new \<or> db_mem db' = db_mem db"
    and less: "last_seq (db_manifest db) \<le> last_seq (db_manifest db')"
    using step by (simp_all add: table_step_def)
  have old: "dir_holds L ops db d" if "loaded (lib_man L) (dir_manifest d) (db_manifest db)"
    "\<forall>i < ?new. dir_files d i = db_files db i" "dir_wal d = Some (wal_data (db_wal db))"
    using that live_table_id [OF good] seq by (intro dir_holds_log_of [OF good]) auto
  have kept: "dir_files d (st_id t) = db_files db' (st_id t)" if "t \<in> set (concat (db_levels db'))"
    "dir_files d (st_id t) = db_files db' (st_id t) \<or> st_id t < ?new \<and> dir_files d (st_id t) = db_files db (st_id t)" for t
    using that step unfolding table_step_def by auto
  have new: "dir_holds L ops db' d" if "loaded (lib_man L) (dir_manifest d) (db_manifest db')"
    "\<forall>i. dir_files d i = db_files db' i \<or> i < ?new \<and> dir_files d i = db_files db i"
    "dir_wal d = Some (wal_data (db_wal db)) \<or> dir_wal d = Some (wal_data (db_wal db'))"
    using that(3)
  proof
    assume "dir_wal d = Some (wal_data (db_wal db))"
    then show ?thesis using that(1,2) kept mem less seq(2) by (intro dir_holds_log_of [OF good]) auto
  next
    assume "dir_wal d = Some (wal_data (db_wal db'))"
    then show ?thesis using that(1,2) kept seq(2) by (intro dir_holds_log_of [OF good']) auto
  qed
  consider (tables) "\<forall>i < ?new. dir_files d i = db_files db i" "dir_manifest d = db_mdir db"
      "dir_wal d = Some (wal_data (db_wal db))"
    | (save) "\<forall>i. dir_files d i = (if i < ?new then db_files db i else db_files db' i)"
      "save_crash (lib_man L) (db_manifest db') (db_mdir db) (dir_manifest d)"
      "dir_wal d = Some (wal_data (db_wal db))"
    | (clean) "\<forall>i. dir_files d i = db_files db' i \<or> i < ?new \<and> dir_files d i = db_files db i"
      "dir_manifest d = db_mdir db'"
      "dir_wal d = Some (wal_data (db_wal db)) \<or> dir_wal d = Some (wal_data (db_wal db'))"
    using crash unfolding crash_between_def Let_def by blast
  then show ?thesis
  proof cases
    case tables
    then show ?thesis using old disk_ok_loaded [OF good] by simp
  next
    case save
    have "\<forall>i < ?new. dir_files d i = db_files db i"
      "\<forall>i. dir_files d i = db_files db' i \<or> i < ?new \<and> dir_files d i = db_files db i"
      using save(1) by simp_all
    moreover have "loaded (lib_man L) (dir_manifest d) (db_manifest db) \<or> loaded (lib_man L) (dir_manifest d) (db_manifest db')"
      using safe disk_ok_loaded [OF good] disk_ok_loaded [OF good']
        save_crash_loaded [OF man save(2) disk_ok_loaded [OF good]] unfolding save_safe_def by auto
    ultimately show ?thesis
      using old [OF _ _ save(3)] new [OF _ _ disjI1 [OF save(3)]] by blast
  next
    case clean
    then show ?thesis using new disk_ok_loaded [OF good'] by simp
  qed
qed

lemma flush_table_step:
  assumes good: "db_good L ops db" and fl: "flush L db = Inr db'"
  shows "table_step db db'"
proof -
  have inv: "db_inv L ops db" and fits: "history_fits L (db_opts db) ops"
    using good by (simp_all add: db_good_def db_ok_def)
  have seq: "last_seq (db_manifest db) \<le> db_seq db"
    using disk_ok_last_seq [OF good] inv by (simp add: db_inv_def)
  from flush_cases [OF inv fits] show ?thesis
  proof
    assume "mt_is_empty (db_mem db) \<and> flush L db = Inr db"
    then show ?thesis using fl by (simp add: table_step_def)
  next
    assume "\<not> mt_is_empty (db_mem db) \<and> (\<exists>data t. flush_result L db data t \<and> flush L db = Inr (flushed L db data t))"
    then obtain data t where db': "db' = flushed L db data t" using fl by auto
    show ?thesis
      using seq unfolding db' by (simp add: table_step_def flushed_def Let_def)
  qed
qed

lemma compaction_table_step:
  assumes good: "db_good L ops db" and step: "compaction_step L ops db db'"
  shows "table_step db db'"
proof -
  obtain level ups src dst downs mn mx st outs ts
    where res: "compact_result L ops level (padded level db) db' ups src dst downs mn mx st outs ts"
    using step by (rule compaction_stepE)
  have set: "compact_setting L ops (padded level db) level ups src dst downs mn mx"
    and cs: "cs_inv (lib_sst L) (db_opts db) (next_table_id (db_manifest db)) (db_files db) outs [] st"
    and outs: "list_all2 (\<lambda>o' t. st_id t = fst o' \<and>
      table_holds (lib_sst L) (block_bytes (db_opts db)) (bits_per_key (db_opts db)) (cs_files st) t (snd o')) outs ts"
    and db': "db' = compacted L level (padded level db) ups src dst downs mn mx st ts"
    using res by (simp_all add: compact_result_def)
  note files = compacted_files [OF set, of "lib_sst L" "db_opts db" outs st _ ts, folded db', simplified, OF cs outs]
  have "db_files db' (st_id t) = db_files db (st_id t)"
    if t: "t \<in> set (concat (db_levels db'))" and less: "st_id t < next_table_id (db_manifest db)" for t
  proof (cases "t \<in> set ts")
    case True
    then show ?thesis using files(3) less by fastforce
  next
    case False
    then show ?thesis using t files(1) [of t] by (auto simp: db' compacted_fields(8))
  qed
  then show ?thesis
    using compaction_step_fields [OF step] by (simp add: table_step_def)
qed

lemma crash_logging_holds:
  assumes good: "db_good L ops db" and fits: "history_fits L (db_opts db) (ops @ new)" and ne: "new \<noteq> []"
    and batch: "batch_ok L ops new" and crash: "crash_logging L new db n d"
  shows "if n < length (wal_frame (lib_wal L) \<lparr>wal_batch.first_seq = Suc (db_seq db), wb_ops = new\<rparr>)
    then dir_holds L ops db d else dir_holds L (ops @ new) (log_batch L new db) d"
proof -
  let ?b = "\<lparr>wal_batch.first_seq = Suc (length ops), wb_ops = new\<rparr>" and ?W = "lib_wal L"
  have inv: "db_inv L ops db" using good by (simp add: db_good_def db_ok_def)
  have seq: "db_seq db = length ops" using inv by (simp add: db_inv_def)
  obtain start bs where s: "log_holds ?W ops start bs" "db_mem db = log_mem ops start"
      "wal_data (db_wal db) = wal_frames ?W bs" "start \<le> last_seq (db_manifest db)"
    using good unfolding db_good_def disk_ok_def by blast
  have d: "dir_files d = db_files db" "dir_manifest d = db_mdir db"
    "dir_wal d = Some (wal_frames ?W bs @ take n (wal_frame ?W ?b))"
    using crash s(3) by (simp_all add: crash_logging_def seq)
  show ?thesis
  proof (cases "n < length (wal_frame ?W ?b)")
    case True
    have "wal_replay ?W (dir_wal d) = (bs, Some (wal_frames ?W bs))"
      unfolding d(3) using s(1) batch True
      by (intro wal_replay_frames_torn) (auto simp: log_holds_def batch_ok_def wal_lib_ok_def)
    moreover have "start \<le> length ops" using s(1) by (simp add: log_holds_def)
    from log_mem_facts(2) [OF this] have "\<forall>e \<in> set (mt_iter (db_mem db)). start < fst (snd e)"
      using s(2) by auto
    ultimately have "dir_holds L ops db d"
      unfolding dir_holds_def using disk_ok_loaded [OF good] disk_ok_last_seq [OF good] s(1,4) d(1,2)
      by (intro conjI exI [of _ start] exI [of _ bs] exI [of _ "Some (wal_frames ?W bs)"]) simp_all
    then show ?thesis using True by (simp add: seq)
  next
    case False
    have "wal_data (db_wal (log_batch L new db)) = wal_frames ?W bs @ wal_frame ?W ?b"
      by (simp add: log_batch_def Let_def wal_append_def wal_sync_def s(3) seq)
    then have "dir_wal d = Some (wal_data (db_wal (log_batch L new db)))"
      using False by (simp add: d(3))
    moreover have good': "db_good L (ops @ new) (log_batch L new db)" by (rule log_batch_good [OF good fits ne batch])
    moreover have "db_files (log_batch L new db) = db_files db" "db_mdir (log_batch L new db) = db_mdir db"
      by (simp_all add: log_batch_def Let_def)
    ultimately have "dir_holds L (ops @ new) (log_batch L new db) d"
      using disk_ok_loaded [OF good'] disk_ok_last_seq [OF good'] d(1,2)
      by (intro dir_holds_log_of [OF good']) simp_all
    then show ?thesis using False by (simp add: seq)
  qed
qed

section \<open>Lives of a database\<close>

text \<open>
  \<open>db_life L opts ops db\<close>: a database opened with \<open>opts\<close> has the state \<open>db\<close> after the writes \<open>ops\<close>.
  The steps are the ones the operations are made of (\<open>write_batch\<close> logs, flushes and compacts, \<open>open\<close>
  loads, flushes and compacts), so that a crash may fall inside each and between any two; inside the
  saving of a manifest only where \<open>save_safe\<close> holds.
\<close>

inductive db_life :: "storage_lib \<Rightarrow> options \<Rightarrow> (bytes \<times> bytes option) list \<Rightarrow> db \<Rightarrow> bool"
  for L :: storage_lib and opts :: options where
  created: "db_load L opts empty_dir = Inr db \<Longrightarrow> db_life L opts [] db"
| logged: "db_life L opts ops db \<Longrightarrow> new \<noteq> [] \<Longrightarrow> history_fits L opts (ops @ new) \<Longrightarrow> batch_ok L ops new \<Longrightarrow>
    db_life L opts (ops @ new) (log_batch L new db)"
| flushed: "db_life L opts ops db \<Longrightarrow> flush L db = Inr db' \<Longrightarrow> db_life L opts ops db'"
| compacted: "db_life L opts ops db \<Longrightarrow> compact_choice db = Some level \<Longrightarrow> compact_level L level db = Inr db' \<Longrightarrow>
    db_life L opts ops db'"
| snapshot_taken: "db_life L opts ops db \<Longrightarrow> db_life L opts ops (snd (db_snapshot db))"
| snapshot_dropped: "db_life L opts ops db \<Longrightarrow> db_life L opts ops (drop_snapshot sn db)"
| crash_flush: "db_life L opts ops db \<Longrightarrow> flush L db = Inr db' \<Longrightarrow> save_safe L db db' d \<Longrightarrow>
    crash_between L db db' d \<Longrightarrow> db_load L opts d = Inr db'' \<Longrightarrow> db_life L opts ops db''"
| crash_compact: "db_life L opts ops db \<Longrightarrow> compact_choice db = Some level \<Longrightarrow> compact_level L level db = Inr db' \<Longrightarrow>
    save_safe L db db' d \<Longrightarrow> crash_between L db db' d \<Longrightarrow> db_load L opts d = Inr db'' \<Longrightarrow> db_life L opts ops db''"
| crash_log: "db_life L opts ops db \<Longrightarrow> new \<noteq> [] \<Longrightarrow> history_fits L opts (ops @ new) \<Longrightarrow> batch_ok L ops new \<Longrightarrow>
    crash_logging L new db n d \<Longrightarrow> db_load L opts d = Inr db'' \<Longrightarrow>
    db_life L opts (if n < length (wal_frame (lib_wal L) \<lparr>wal_batch.first_seq = Suc (db_seq db), wb_ops = new\<rparr>)
      then ops else ops @ new) db''"

text \<open>A created database is empty.\<close>

lemma created_good:
  assumes opts: "opts_ok opts"
  shows "\<exists>db. db_load L opts empty_dir = Inr db \<and> db_good L [] db \<and> db_opts db = opts"
proof -
  define db where "db = \<lparr>db_opts = opts, db_mem = mt_new, db_wal = wal_open [] (sync opts), db_levels = [[]],
    db_manifest = manifest_default, db_seq = 0, db_snapshots = bt_empty, db_files = (\<lambda>_. None),
    db_mdir = \<lparr>md_main = None, md_tmp = None\<rparr>\<rparr>"
  have src: "sources L db = [{}, {}]" by (simp add: sources_def db_def level_set_def)
  have "live_value r = state_at [] sn k" if "newest {} k sn r" for k sn r
    using that by (cases r) (auto simp: state_at_def)
  then have "db_inv L [] db"
    by (simp add: db_inv_def tables_ok_def visible_ok_def src) (simp add: db_def bt_empty_def)
  moreover have "history_fits L opts []" by (rule history_fits_Nil)
  moreover have "limits_fit opts 1" using opts by (simp add: limits_fit_def opts_ok_def)
  ultimately have ok: "db_ok L [] db" by (simp add: db_ok_def levels_match_def) (simp add: db_def manifest_default_def)
  have "wal_replay (lib_wal L) None = ([], None)" by (simp add: wal_replay_def)
  then have "dir_holds L [] db empty_dir"
    by (simp add: dir_holds_def loaded_def empty_dir_def manifest_load_def)
      (simp add: db_def manifest_default_def log_holds_def)
  from dir_holds_open [OF ok _ this] show ?thesis using opts by (auto simp: db_def)
qed

lemma registry_good:
  "db_good L ops db \<Longrightarrow> db_inv L ops (db\<lparr>db_snapshots := reg\<rparr>) \<Longrightarrow> db_good L ops (db\<lparr>db_snapshots := reg\<rparr>)"
  by (simp add: db_good_def db_ok_def levels_match_def disk_ok_def)

lemma holds_load:
  assumes "db_good L ops db" "dir_holds L ops db d" "db_load L (db_opts db) d = Inr db''"
  shows "db_good L ops db'' \<and> db_opts db'' = db_opts db"
  using dir_holds_open [of L ops db d] assms by (auto simp: db_good_def)

lemma crash_load:
  assumes man: "man_lib_ok (lib_man L)" and good: "db_good L ops db" and good': "db_good L ops db'"
    and step: "table_step db db'" and crash: "crash_between L db db' d" "save_safe L db db' d"
    and load: "db_load L (db_opts db) d = Inr db''"
  shows "db_good L ops db'' \<and> db_opts db'' = db_opts db"
proof -
  have opts: "db_opts db' = db_opts db" using step by (simp add: table_step_def)
  from crash_between_holds [OF man good good' step crash] show ?thesis
    using holds_load [OF good _ load] holds_load [OF good' _ load [folded opts]] opts by auto
qed

lemma crash_load_ex:
  assumes man: "man_lib_ok (lib_man L)" and good: "db_good L ops db" and good': "db_good L ops db'"
    and step: "table_step db db'" and crash: "crash_between L db db' d" "save_safe L db db' d"
  shows "\<exists>db''. db_load L (db_opts db) d = Inr db''"
proof -
  have opts: "db_opts db' = db_opts db" using step by (simp add: table_step_def)
  from crash_between_holds [OF man good good' step crash] show ?thesis
    using dir_holds_open [of L ops db d] dir_holds_open [of L ops db' d] good good' opts
    by (auto simp: db_good_def)
qed

lemma life_compaction:
  assumes "db_good L ops db" "compact_choice db = Some level" "compact_level L level db = Inr db'"
  shows "compaction_step L ops db db'"
  using compaction_step_ex [of db L ops level] assms by (auto simp: db_good_def)

lemma life_good:
  assumes "db_life L opts ops db" and man: "man_lib_ok (lib_man L)" and opts: "opts_ok opts"
  shows "db_good L ops db \<and> db_opts db = opts"
  using assms(1)
proof induction
  case (created db)
  then show ?case using created_good [OF opts, of L] by auto
next
  case (logged ops db new)
  then show ?case using log_batch_good [of L ops db new] by (simp add: log_batch_def Let_def)
next
  case (flushed ops db db')
  then show ?case using flush_good [OF man, of ops db] by auto
next
  case (compacted ops db level db')
  then have "compaction_step L ops db db'" using life_compaction by blast
  then show ?case
    using compaction_step_good [OF man _, of ops db db'] compaction_step_fields(2) [of L ops db db'] compacted.IH by simp
next
  case (snapshot_taken ops db)
  then have "db_inv L ops (snd (db_snapshot db))"
    using db_snapshot_inv(2) [of L ops db] by (simp add: db_good_def db_ok_def)
  then show ?case
    using snapshot_taken registry_good [of L ops db] by (simp add: db_snapshot_def Let_def)
next
  case (snapshot_dropped ops db sn)
  then have "db_inv L ops (drop_snapshot sn db)"
    using drop_snapshot_inv [of L ops db] by (simp add: db_good_def db_ok_def)
  then show ?case
    using snapshot_dropped registry_good [of L ops db] by (cases "bt_get (db_snapshots db) sn") (simp_all add: drop_snapshot_def)
next
  case (crash_flush ops db db' d db'')
  have good: "db_good L ops db" "db_opts db = opts" using crash_flush.IH by simp_all
  have good': "db_good L ops db'" using flush_good [OF man good(1)] crash_flush.hyps(2) by auto
  from crash_load [OF man good(1) good' flush_table_step [OF good(1) crash_flush.hyps(2)] crash_flush.hyps(4,3)]
  show ?case using crash_flush.hyps(5) good(2) by simp
next
  case (crash_compact ops db level db' d db'')
  have good: "db_good L ops db" "db_opts db = opts" using crash_compact.IH by simp_all
  have step: "compaction_step L ops db db'" by (rule life_compaction [OF good(1) crash_compact.hyps(2,3)])
  from crash_load [OF man good(1) compaction_step_good [OF man good(1) step] compaction_table_step [OF good(1) step]
      crash_compact.hyps(5,4)]
  show ?case using crash_compact.hyps(6) good(2) by simp
next
  case (crash_log ops db new n d db'')
  have good: "db_good L ops db" "db_opts db = opts" using crash_log.IH by simp_all
  have good': "db_good L (ops @ new) (log_batch L new db)"
    using log_batch_good [OF good(1)] crash_log.hyps good(2) by simp
  have opts': "db_opts (log_batch L new db) = opts" using good(2) by (simp add: log_batch_def Let_def)
  from crash_logging_holds [OF good(1) _ crash_log.hyps(2,4,5)] show ?case
    using holds_load [OF good(1), of d db''] holds_load [OF good', of d db''] crash_log.hyps(3,6) good(2) opts'
    by auto
qed

section \<open>The operations are steps of a life\<close>

lemma life_compact:
  assumes life: "db_life L opts ops db" and man: "man_lib_ok (lib_man L)" and opts: "opts_ok opts"
  shows "\<exists>db'. maybe_compact L db = Some (Inr db') \<and> db_life L opts ops db' \<and> compact_choice db' = None"
proof -
  have "db_ok L ops db" "opts_ok (db_opts db)" using life_good [OF life man opts] opts by (simp_all add: db_good_def)
  from maybe_compact_returns [OF this] obtain db' where db': "maybe_compact L db = Some (Inr db')"
    "(compaction_step L ops)\<^sup>*\<^sup>* db db'" "compact_choice db' = None" by blast
  have "db_life L opts ops db'"
    using db'(2) life
    by (induction rule: rtranclp_induct) (auto simp: compaction_step_def intro: db_life.compacted)
  then show ?thesis using db' by blast
qed

lemma life_flush:
  assumes life: "db_life L opts ops db" and man: "man_lib_ok (lib_man L)" and opts: "opts_ok opts"
  shows "\<exists>db'. flush L db = Inr db' \<and> db_life L opts ops db'"
  using flush_good [OF man, of ops db] life_good [OF life man opts] db_life.flushed [OF life] by blast

lemma life_maybe_flush:
  assumes life: "db_life L opts ops db" and man: "man_lib_ok (lib_man L)" and opts: "opts_ok opts"
  shows "\<exists>db'. maybe_flush L db = Some (Inr db') \<and> db_life L opts ops db'"
proof (cases "mt_bytes (db_mem db) \<ge> memtable_bytes (db_opts db)")
  case True
  obtain db1 where db1: "flush L db = Inr db1" "db_life L opts ops db1" using life_flush [OF assms] by blast
  from life_compact [OF db1(2) man opts] show ?thesis using True db1(1) by (auto simp: maybe_flush_def)
next
  case False
  then show ?thesis using life by (simp add: maybe_flush_def)
qed

lemma life_write:
  assumes life: "db_life L opts ops db" and man: "man_lib_ok (lib_man L)" and opts: "opts_ok opts"
    and fits: "history_fits L opts (ops @ new)" and batch: "new \<noteq> [] \<longrightarrow> batch_ok L ops new"
  shows "\<exists>db'. write_batch L new db = Some (Inr db') \<and> db_life L opts (ops @ new) db'"
proof (cases "new = []")
  case True
  then show ?thesis using life by (simp add: write_batch_def)
next
  case False
  then have "db_life L opts (ops @ new) (log_batch L new db)" using db_life.logged [OF life] fits batch by blast
  from life_maybe_flush [OF this man opts] show ?thesis using False by (simp add: write_batch_def)
qed

lemma life_open:
  assumes "db_load L opts d = Inr db" "db_life L opts ops db" "man_lib_ok (lib_man L)" "opts_ok opts"
  shows "\<exists>db'. db_open L opts d = Some (Inr db') \<and> db_life L opts ops db'"
  using life_maybe_flush [OF assms(2-4)] by (simp add: db_open_def assms(1))

lemma life_create:
  assumes "man_lib_ok (lib_man L)" "opts_ok opts"
  shows "\<exists>db. db_open L opts empty_dir = Some (Inr db) \<and> db_life L opts [] db"
  using created_good [OF assms(2), of L] life_open [OF _ db_life.created assms] by blast

lemma life_reads:
  assumes life: "db_life L opts ops db" and man: "man_lib_ok (lib_man L)" and opts: "opts_ok opts"
    and sn: "sn = db_seq db \<or> bt_get (db_snapshots db) sn \<noteq> None"
  shows "sn \<le> length ops" "get_at L db key sn = Inr (state_at ops sn key)"
    "\<exists>pairs. scan_at L db start stop limit sn = Inr (take (max 1 limit) pairs) \<and> sorted_wrt (<) (map fst pairs) \<and>
       set pairs = {(k, v). in_range start stop k \<and> state_at ops sn k = Some v}"
proof -
  have inv: "db_inv L ops db" using life_good [OF life man opts] by (simp add: db_good_def db_ok_def)
  have seq: "db_seq db = length ops" using inv by (simp add: db_inv_def)
  have reg: "\<exists>c. (sn, c) \<in> set (db_snapshots db)" if "bt_get (db_snapshots db) sn \<noteq> None"
    using that inv by (auto simp: db_inv_def bt_get_Some_iff)
  have "min_snapshot db \<le> sn \<and> sn \<le> length ops"
    using sn
  proof
    assume "sn = db_seq db"
    then show ?thesis using min_snapshot_le(1) [OF inv] seq by simp
  next
    assume "bt_get (db_snapshots db) sn \<noteq> None"
    then obtain c where c: "(sn, c) \<in> set (db_snapshots db)" using reg by blast
    then show ?thesis using min_snapshot_le(2) [OF inv c] inv by (auto simp: db_inv_def)
  qed
  then show "sn \<le> length ops" "get_at L db key sn = Inr (state_at ops sn key)"
    "\<exists>pairs. scan_at L db start stop limit sn = Inr (take (max 1 limit) pairs) \<and> sorted_wrt (<) (map fst pairs) \<and>
       set pairs = {(k, v). in_range start stop k \<and> state_at ops sn k = Some v}"
    using get_at_correct [OF inv] scan_at_correct [OF inv] by simp_all
qed

lemma life_crash:
  assumes man: "man_lib_ok (lib_man L)" and opts: "opts_ok opts" and life: "db_life L opts ops db"
    and step: "flush L db = Inr db' \<or> (\<exists>level. compact_choice db = Some level \<and> compact_level L level db = Inr db')"
    and crash: "crash_between L db db' d" and safe: "save_safe L db db' d"
  shows "\<exists>db''. db_load L opts d = Inr db'' \<and> db_life L opts ops db''"
proof -
  have good: "db_good L ops db" "db_opts db = opts" using life_good [OF life man opts] by simp_all
  have "db_good L ops db' \<and> table_step db db'"
    using step
  proof
    assume fl: "flush L db = Inr db'"
    then show ?thesis using flush_good [OF man good(1)] flush_table_step [OF good(1) fl] by auto
  next
    assume "\<exists>level. compact_choice db = Some level \<and> compact_level L level db = Inr db'"
    then have "compaction_step L ops db db'" using life_compaction [OF good(1)] by blast
    then show ?thesis using compaction_step_good [OF man good(1)] compaction_table_step [OF good(1)] by blast
  qed
  then obtain db'' where load: "db_load L opts d = Inr db''"
    using crash_load_ex [OF man good(1) _ _ crash safe] good(2) by blast
  moreover have "db_life L opts ops db''"
    using step db_life.crash_flush [OF life _ safe crash load] db_life.crash_compact [OF life _ _ safe crash load] by blast
  ultimately show ?thesis by blast
qed

text \<open>The files of a running database: what there is to open when its process ends between two calls.\<close>

definition dir_of :: "db \<Rightarrow> db_dir" where
  "dir_of db = \<lparr>dir_files = db_files db, dir_manifest = db_mdir db, dir_wal = Some (wal_data (db_wal db))\<rparr>"

lemma life_dir_of:
  assumes man: "man_lib_ok (lib_man L)" and opts: "opts_ok opts" and life: "db_life L opts ops db"
  shows "\<exists>db'. db_open L opts (dir_of db) = Some (Inr db') \<and> db_life L opts ops db'"
proof -
  obtain db' where "flush L db = Inr db'" using life_flush [OF life man opts] by blast
  moreover have "crash_between L db db' (dir_of db)" "save_safe L db db' (dir_of db)"
    by (simp_all add: crash_between_def save_safe_def dir_of_def Let_def)
  ultimately show ?thesis using life_crash [OF man opts life, of db'] life_open [OF _ _ man opts] by blast
qed

lemma life_crash_logging:
  assumes man: "man_lib_ok (lib_man L)" and opts: "opts_ok opts" and life: "db_life L opts ops db"
    and new: "new \<noteq> []" "history_fits L opts (ops @ new)" "batch_ok L ops new" and crash: "crash_logging L new db n d"
  shows "\<exists>db''. db_load L opts d = Inr db'' \<and>
    db_life L opts (if n < length (wal_frame (lib_wal L) \<lparr>wal_batch.first_seq = Suc (db_seq db), wb_ops = new\<rparr>)
      then ops else ops @ new) db''"
proof -
  have good: "db_good L ops db" "db_opts db = opts" using life_good [OF life man opts] by simp_all
  have good': "db_good L (ops @ new) (log_batch L new db)" using log_batch_good [OF good(1)] new good(2) by simp
  have opts': "db_opts (log_batch L new db) = opts" using good(2) by (simp add: log_batch_def Let_def)
  have "\<exists>db''. db_load L opts d = Inr db''"
    using crash_logging_holds [OF good(1) _ new(1,3) crash] new(2) good opts' good'
      dir_holds_open [of L ops db d] dir_holds_open [of L "ops @ new" "log_batch L new db" d]
    by (auto simp: db_good_def split: if_splits)
  then show ?thesis using db_life.crash_log [OF life new crash] by blast
qed

lemma life_get:
  assumes "db_life L opts ops db" "man_lib_ok (lib_man L)" "opts_ok opts"
  shows "db_get L db key = Inr (state_at ops (length ops) key)" "db_seq db = length ops"
proof -
  have inv: "db_inv L ops db" using life_good [OF assms] by (simp add: db_good_def db_ok_def)
  then show "db_get L db key = Inr (state_at ops (length ops) key)" by (rule db_get_correct)
  show "db_seq db = length ops" using inv by (simp add: db_inv_def)
qed

section \<open>A concrete life\<close>

lemma plain_man_lib_ok: "man_lib_ok (lib_man plain_storage_lib)"
  by (simp add: man_lib_ok_def plain_storage_lib_def plain_manifest_lib_def get_put_manifest)

lemma one_op_batch: "batch_ok plain_storage_lib [] one_op"
  unfolding batch_ok_def wal_lib_ok_def
  by (simp add: plain_storage_lib_def plain_wal_dec)
    (simp add: plain_wal_lib_def put_list_def put_op_pair_def put_nat_def put_bytes_def)

lemma created_life: "\<exists>db. db_life plain_storage_lib default_options [] db"
  using life_create [OF plain_man_lib_ok default_opts_ok] by blast

lemma one_op_life:
  "\<exists>db. db_life plain_storage_lib default_options one_op db \<and> db_seq db = 1 \<and> db_mem db = mt_new \<and>
     md_main (db_mdir db) = Some (manifest_frame plain_manifest_lib (db_manifest db))"
proof -
  let ?L = plain_storage_lib
  obtain db0 where db0: "db_life ?L default_options [] db0" using created_life by blast
  have life: "db_life ?L default_options one_op (log_batch ?L one_op db0)"
    using db_life.logged [OF db0, of one_op] one_op_fits one_op_batch by simp
  have good: "db_good ?L one_op (log_batch ?L one_op db0)" "db_opts (log_batch ?L one_op db0) = default_options"
    using life_good [OF life plain_man_lib_ok default_opts_ok] by simp_all
  have "bt_insert k v m \<noteq> []" for k :: "bytes \<times> nat reverse" and v :: "bytes option" and m
    by (cases m) auto
  then have "\<not> mt_is_empty (db_mem (log_batch ?L one_op db0))"
    by (simp add: log_batch_def Let_def mt_is_empty_def mt_insert_def)
  then obtain data t where fl: "flush ?L (log_batch ?L one_op db0) = Inr (flushed ?L (log_batch ?L one_op db0) data t)"
    using flush_cases [of ?L one_op "log_batch ?L one_op db0"] good one_op_fits by (auto simp: db_good_def db_ok_def)
  have "db_life ?L default_options one_op (flushed ?L (log_batch ?L one_op db0) data t)"
    by (rule db_life.flushed [OF life fl])
  moreover have "md_main (db_mdir (flushed ?L (log_batch ?L one_op db0) data t)) =
      Some (manifest_frame plain_manifest_lib (db_manifest (flushed ?L (log_batch ?L one_op db0) data t)))"
    by (simp add: flushed_def Let_def manifest_save_eq plain_storage_lib_def)
  moreover have "db_mem (flushed ?L (log_batch ?L one_op db0) data t) = mt_new" by (simp add: flushed_def Let_def)
  ultimately show ?thesis
    using life_get(2) [OF _ plain_man_lib_ok default_opts_ok] by fastforce
qed

text \<open>One write in a table, one in the memtable and the log.\<close>

abbreviation two_ops :: "(bytes \<times> bytes option) list" where
  "two_ops \<equiv> [([1], Some [2]), ([3], Some [4])]"

lemma two_op_life:
  "\<exists>db db'. db_life plain_storage_lib default_options two_ops db \<and> mt_iter (db_mem db) = [([3], 2, Some [4])] \<and>
     md_main (db_mdir db) = Some (manifest_frame plain_manifest_lib (db_manifest db)) \<and>
     flush plain_storage_lib db = Inr db'"
proof -
  let ?L = plain_storage_lib and ?op = "[([3], Some [4])] :: (bytes \<times> bytes option) list"
  obtain db where db: "db_life ?L default_options one_op db" "db_seq db = 1" "db_mem db = mt_new"
    "md_main (db_mdir db) = Some (manifest_frame plain_manifest_lib (db_manifest db))"
    using one_op_life by blast
  have "history_fits ?L default_options two_ops"
    by (rule small_history_fits) (simp_all add: small_ops_def value_len_def default_options_def)
  moreover have "batch_ok ?L one_op ?op"
    unfolding batch_ok_def by (rule small_batch) (simp_all add: small_ops_def value_len_def)
  ultimately have life: "db_life ?L default_options two_ops (log_batch ?L ?op db)"
    using db_life.logged [OF db(1), of ?op] by simp
  have "mt_iter (db_mem (log_batch ?L ?op db)) = [([3], 2, Some [4])]"
    by (simp add: log_batch_def Let_def db(2,3) mt_iter_def mt_insert_def mt_new_def bt_empty_def numeral_2_eq_2)
  moreover have "db_mdir (log_batch ?L ?op db) = db_mdir db" "db_manifest (log_batch ?L ?op db) = db_manifest db"
    by (simp_all add: log_batch_def Let_def)
  ultimately show ?thesis using life_flush [OF life plain_man_lib_ok default_opts_ok] life db(4) by fastforce
qed

text \<open>The directory when the flush that takes \<open>db\<close> to \<open>db'\<close> stops between the removal and the renaming.\<close>

definition unnamed_dir :: "storage_lib \<Rightarrow> db \<Rightarrow> db \<Rightarrow> db_dir" where
  "unnamed_dir L db db' =
     \<lparr>dir_files = (\<lambda>i. if i < next_table_id (db_manifest db) then db_files db i else db_files db' i),
      dir_manifest = \<lparr>md_main = None, md_tmp = Some (manifest_frame (lib_man L) (db_manifest db'))\<rparr>,
      dir_wal = Some (wal_data (db_wal db))\<rparr>"

lemma unnamed_dir_crash: "crash_between L db db' (unnamed_dir L db db')"
proof -
  have "fold (\<lambda>f. f) (take 3 (save_steps (lib_man L) (db_manifest db'))) (db_mdir db) = dir_manifest (unnamed_dir L db db')"
    by (cases "db_mdir db") (simp add: save_steps_def unnamed_dir_def numeral_3_eq_3)
  then have "save_crash (lib_man L) (db_manifest db') (db_mdir db) (dir_manifest (unnamed_dir L db db'))"
    unfolding save_crash_def by metis
  then show ?thesis by (simp add: crash_between_def Let_def unnamed_dir_def)
qed

section \<open>The contract of the engine\<close>

text \<open>C15: the engine refines a list of writes. In every life of a database (created in an empty
  directory, written in batches, flushed, compacted level by level, with snapshots taken and dropped,
  and crashed and opened again), a read at the current sequence number or at a live snapshot finds
  exactly the state after that many writes: \<open>get_at\<close> returns the value of the last write of the key,
  and \<open>scan_at\<close> the first pairs, in key order and without gaps, of the range. A crash may fall inside
  an append to the log, inside a flush or a compaction and between any two steps; but while a manifest
  is being saved only if the file \<open>MANIFEST\<close> holds the current one, or there is no manifest yet and the
  checksum tells a torn first one (\<open>save_safe\<close>). The options have a positive trigger, a positive
  64-bit base and a multiplier of at least two (\<open>opts_ok\<close>).\<close>

theorem db_refines_history:
  assumes "man_lib_ok (lib_man L)" and "opts_ok opts" and "db_life L opts ops db"
    and "sn = db_seq db \<or> bt_get (db_snapshots db) sn \<noteq> None"
  shows "sn \<le> length ops \<and> get_at L db key sn = Inr (state_at ops sn key) \<and>
    (\<exists>pairs. scan_at L db start stop limit sn = Inr (take (max 1 limit) pairs) \<and>
       sorted_wrt (<) (map fst pairs) \<and> set pairs = {(k, v). in_range start stop k \<and> state_at ops sn k = Some v})"
  using life_reads [OF assms(3,1,2,4)] by blast

theorem db_refines_history_witness:
  "\<exists>db. db_life plain_storage_lib default_options [([1], Some [2])] db \<and>
     get_at plain_storage_lib db [1] 1 = Inr (Some [2]) \<and> get_at plain_storage_lib db [3] 1 = Inr None"
proof -
  obtain db where db: "db_life plain_storage_lib default_options one_op db" "db_seq db = 1"
    using one_op_life by blast
  then show ?thesis
    using db_refines_history [OF plain_man_lib_ok default_opts_ok db(1), of 1] by (auto simp: state_at_def)
qed

text \<open>C17: a write returns. Whatever flushes and compactions it sets off, \<open>write_batch\<close> comes back
  without an error (every round of \<open>maybe_compact\<close> moves versions to a deeper level, and a deep enough
  level is never over its limit), with the whole batch applied: the history is longer by the batch and
  a read finds the new state. The limits are computed in 64 bits, as in the code, so this needs options
  whose trigger and base are positive and whose multiplier is at least two (\<open>opts_ok\<close>), and a history
  whose tables, times the multiplier, take less than \<open>2 ^ 64\<close> bytes in a level (part of
  \<open>history_fits\<close>); else a limit may wrap to zero.\<close>

theorem write_batch_returns:
  assumes "man_lib_ok (lib_man L)" and "opts_ok opts" and "db_life L opts ops db"
    and "history_fits L opts (ops @ new)" and "new \<noteq> [] \<longrightarrow> batch_ok L ops new"
  shows "\<exists>db'. write_batch L new db = Some (Inr db') \<and> db_life L opts (ops @ new) db' \<and>
    db_seq db' = length ops + length new \<and>
    db_get L db' key = Inr (state_at (ops @ new) (length ops + length new) key)"
proof -
  obtain db' where db': "write_batch L new db = Some (Inr db')" "db_life L opts (ops @ new) db'"
    using life_write [OF assms(3,1,2,4,5)] by blast
  from life_get [OF db'(2) assms(1,2)] db' show ?thesis by auto
qed

theorem write_batch_returns_witness:
  "\<exists>db db'. db_life plain_storage_lib default_options [] db \<and>
     write_batch plain_storage_lib [([1], Some [2])] db = Some (Inr db') \<and>
     db_get plain_storage_lib db' [1] = Inr (Some [2])"
proof -
  obtain db where db: "db_life plain_storage_lib default_options [] db" using created_life by blast
  have "\<exists>db'. write_batch plain_storage_lib one_op db = Some (Inr db') \<and> db_life plain_storage_lib default_options ([] @ one_op) db' \<and>
    db_seq db' = length ([] :: (bytes \<times> bytes option) list) + length one_op \<and>
    db_get plain_storage_lib db' [1] = Inr (state_at ([] @ one_op) (length ([] :: (bytes \<times> bytes option) list) + length one_op) [1])"
    by (rule write_batch_returns [OF plain_man_lib_ok default_opts_ok db]) (simp_all add: one_op_fits one_op_batch)
  then show ?thesis using db by (auto simp: state_at_def)
qed

text \<open>C16: a flush or a compaction is crash safe, as long as the file \<open>MANIFEST\<close> holds the current
  manifest when it starts (or there is none yet and the checksum tells a torn first one). Whether the
  process dies while the new tables are written, while the manifest is saved through its temporary
  file, before the log is reset or while the old tables are removed, opening the directory again
  succeeds and every read finds the state after all acknowledged writes. When \<open>MANIFEST.tmp\<close> is the
  only copy of the manifest, the statement covers the crashes before and after the save, not those
  inside it.\<close>

theorem flush_compact_crash_safe:
  assumes "man_lib_ok (lib_man L)" and "opts_ok opts" and "db_life L opts ops db"
    and "flush L db = Inr db' \<or> (\<exists>level. compact_choice db = Some level \<and> compact_level L level db = Inr db')"
    and "crash_between L db db' d" and "save_safe L db db' d"
  shows "\<exists>db''. db_open L opts d = Some (Inr db'') \<and> db_life L opts ops db'' \<and>
    db_get L db'' key = Inr (state_at ops (length ops) key)"
proof -
  obtain db1 where db1: "db_load L opts d = Inr db1" "db_life L opts ops db1" using life_crash [OF assms] by blast
  then obtain db2 where db2: "db_open L opts d = Some (Inr db2)" "db_life L opts ops db2"
    using life_open [OF db1 assms(1,2)] by blast
  then show ?thesis using life_get(1) [OF db2(2) assms(1,2)] by blast
qed

theorem flush_compact_crash_safe_witness:
  "\<exists>db db' db''. db_life plain_storage_lib default_options [([1], Some [2]), ([3], Some [4])] db \<and>
     mt_iter (db_mem db) = [([3], 2, Some [4])] \<and> flush plain_storage_lib db = Inr db' \<and>
     crash_between plain_storage_lib db db' (unnamed_dir plain_storage_lib db db') \<and>
     db_open plain_storage_lib default_options (unnamed_dir plain_storage_lib db db') = Some (Inr db'') \<and>
     db_get plain_storage_lib db'' [1] = Inr (Some [2])"
proof -
  let ?L = plain_storage_lib
  obtain db db' where db: "db_life ?L default_options two_ops db" "mt_iter (db_mem db) = [([3], 2, Some [4])]"
    "md_main (db_mdir db) = Some (manifest_frame plain_manifest_lib (db_manifest db))" "flush ?L db = Inr db'"
    using two_op_life by blast
  have "save_safe ?L db db' (unnamed_dir ?L db db')" using db(3) by (simp add: save_safe_def plain_storage_lib_def)
  from flush_compact_crash_safe [OF plain_man_lib_ok default_opts_ok db(1) disjI1 [OF db(4)] unnamed_dir_crash this, of "[1]"]
  show ?thesis using db unnamed_dir_crash [of ?L db db'] by (fastforce simp: state_at_def)
qed

text \<open>C18: a batch is atomic. When the process dies while the frame of a batch is appended to the log,
  opening the directory again succeeds, and the database then holds either all of the batch, when the
  frame is complete, or nothing of it, never a part.\<close>

theorem batch_atomic:
  assumes "man_lib_ok (lib_man L)" and "opts_ok opts" and "db_life L opts ops db" and "new \<noteq> []"
    and "history_fits L opts (ops @ new)" and "batch_ok L ops new" and "crash_logging L new db n d"
  shows "\<exists>db' ops'. db_open L opts d = Some (Inr db') \<and> db_life L opts ops' db' \<and>
    ops' = (if n < length (wal_frame (lib_wal L) \<lparr>wal_batch.first_seq = Suc (db_seq db), wb_ops = new\<rparr>)
      then ops else ops @ new) \<and>
    db_get L db' key = Inr (state_at ops' (length ops') key)"
proof -
  define ops' where "ops' = (if n < length (wal_frame (lib_wal L) \<lparr>wal_batch.first_seq = Suc (db_seq db), wb_ops = new\<rparr>)
      then ops else ops @ new)"
  obtain db1 where db1: "db_load L opts d = Inr db1" "db_life L opts ops' db1"
    using life_crash_logging [OF assms] unfolding ops'_def by blast
  then obtain db2 where db2: "db_open L opts d = Some (Inr db2)" "db_life L opts ops' db2"
    using life_open [OF db1 assms(1,2)] by blast
  then show ?thesis using life_get(1) [OF db2(2) assms(1,2)] ops'_def by blast
qed

theorem batch_atomic_witness:
  "\<exists>db d db'. db_life plain_storage_lib default_options [] db \<and>
     crash_logging plain_storage_lib [([1], Some [2])] db 3 d \<and>
     db_open plain_storage_lib default_options d = Some (Inr db') \<and> db_get plain_storage_lib db' [1] = Inr None"
proof -
  let ?L = plain_storage_lib
  obtain db where db: "db_life ?L default_options [] db" using created_life by blast
  let ?d = "\<lparr>dir_files = db_files db, dir_manifest = db_mdir db, dir_wal = Some (wal_data (db_wal db) @
    take 3 (wal_frame (lib_wal ?L) \<lparr>wal_batch.first_seq = Suc (db_seq db), wb_ops = one_op\<rparr>))\<rparr>"
  have crash: "crash_logging ?L one_op db 3 ?d" by (simp add: crash_logging_def)
  have fits: "history_fits ?L default_options ([] @ one_op)" using one_op_fits by simp
  have torn: "3 < length (wal_frame (lib_wal ?L) \<lparr>wal_batch.first_seq = Suc (db_seq db), wb_ops = one_op\<rparr>)"
    by (simp add: length_wal_frame)
  from batch_atomic [OF plain_man_lib_ok default_opts_ok db _ fits one_op_batch crash, of "[1]"]
  obtain db' where "db_open ?L default_options ?d = Some (Inr db')" "db_get ?L db' [1] = Inr None"
    unfolding if_P [OF torn] by (auto simp: state_at_def)
  then show ?thesis using db crash by blast
qed

text \<open>C37: \<open>scan_at\<close> never returns fewer rows than one when the range has any, not even with a limit of
  zero: the limit is compared after a row has been pushed.\<close>

theorem scan_limit_zero:
  assumes "man_lib_ok (lib_man L)" and "opts_ok opts" and "db_life L opts ops db"
    and "in_range start stop k" and "state_at ops (db_seq db) k = Some v"
  shows "\<exists>row. scan_at L db start stop 0 (db_seq db) = Inr [row]"
proof -
  obtain pairs where p: "scan_at L db start stop 0 (db_seq db) = Inr (take (max 1 0) pairs)"
    "set pairs = {(k, v). in_range start stop k \<and> state_at ops (db_seq db) k = Some v}"
    using life_reads(3) [OF assms(3,1,2), of "db_seq db" start stop 0] by blast
  then have "(k, v) \<in> set pairs" using assms(4,5) by simp
  then show ?thesis using p(1) by (cases pairs) auto
qed

theorem scan_limit_zero_witness:
  "\<exists>db row. db_life plain_storage_lib default_options [([1], Some [2])] db \<and>
     scan_at plain_storage_lib db [] None 0 (db_seq db) = Inr [row]"
proof -
  obtain db where db: "db_life plain_storage_lib default_options one_op db" "db_seq db = 1"
    using one_op_life by blast
  have "in_range [] None [1]" "state_at one_op (db_seq db) [1] = Some [2]"
    using db(2) by (simp_all add: in_range_def state_at_def)
  from scan_limit_zero [OF plain_man_lib_ok default_opts_ok db(1) this] show ?thesis using db(1) by blast
qed

section \<open>A save without a current \<open>MANIFEST\<close>\<close>

text \<open>What opening a directory takes from the log, whatever the manifest says.\<close>

lemma load_log:
  assumes good: "db_good L ops db" and wal: "dir_wal d = Some (wal_data (db_wal db))" and load: "db_load L opts d = Inr db''"
  shows "db_mem db'' = db_mem db" "db_mdir db'' = dir_manifest d"
proof -
  obtain start bs where s: "log_holds (lib_wal L) ops start bs" "db_mem db = log_mem ops start"
      "wal_data (db_wal db) = wal_frames (lib_wal L) bs"
    using good unfolding db_good_def disk_ok_def by blast
  then have ok: "\<forall>b \<in> set bs. wal_lib_ok (lib_wal L) b" "drop start ops = ops_of bs" "consecutive start bs"
    by (simp_all add: log_holds_def)
  have "wal_replay (lib_wal L) (dir_wal d) = (bs, Some (wal_frames (lib_wal L) bs))"
    using wal_replay_frames_torn [of bs "lib_wal L" "[]"] ok(1) wal s(3) by simp
  then show "db_mem db'' = db_mem db" "db_mdir db'' = dir_manifest d"
    using load replay_batches [OF ok(3), of mt_new] s(2) ok(2)
    by (auto simp: db_load_def Let_def and_then_Inr_iff split: prod.splits)
qed

text \<open>The same flush, stopped right after \<open>File::create\<close> has emptied the temporary file.\<close>

definition emptied_dir :: "storage_lib \<Rightarrow> db \<Rightarrow> db \<Rightarrow> db_dir" where
  "emptied_dir L db db' = (unnamed_dir L db db')\<lparr>dir_manifest := (db_mdir db)\<lparr>md_tmp := Some []\<rparr>\<rparr>"

lemma emptied_dir_crash: "crash_between L db db' (emptied_dir L db db')"
proof -
  have "dir_manifest (emptied_dir L db db') = (db_mdir db)\<lparr>md_tmp := Some (take 0 (manifest_frame (lib_man L) (db_manifest db')))\<rparr>"
    by (simp add: emptied_dir_def)
  then have "save_crash (lib_man L) (db_manifest db') (db_mdir db) (dir_manifest (emptied_dir L db db'))"
    unfolding save_crash_def by blast
  then show ?thesis by (simp add: crash_between_def Let_def emptied_dir_def unnamed_dir_def)
qed

lemma emptied_dir_load:
  assumes good: "db_good L ops db" and main: "md_main (db_mdir db) = None"
  shows "\<exists>db''. db_load L opts (emptied_dir L db db') = Inr db'' \<and> db_levels db'' = [[]] \<and> db_mem db'' = db_mem db"
proof -
  have "manifest_load (lib_man L) (dir_manifest (emptied_dir L db db')) = Inr None"
    using main by (simp add: manifest_load_def emptied_dir_def)
  then have "\<exists>db''. db_load L opts (emptied_dir L db db') = Inr db'' \<and> db_levels db'' = [[]]"
    by (simp add: db_load_def Let_def manifest_default_def case_prod_unfold)
  then obtain db'' where db'': "db_load L opts (emptied_dir L db db') = Inr db''" "db_levels db'' = [[]]" by blast
  moreover have "dir_wal (emptied_dir L db db') = Some (wal_data (db_wal db))"
    by (simp add: emptied_dir_def unnamed_dir_def)
  ultimately show ?thesis using load_log(1) [OF good] by blast
qed

text \<open>
  C39: saving the manifest is not crash safe when \<open>MANIFEST.tmp\<close> is its only copy. A crash between
  the removal of \<open>MANIFEST\<close> and the renaming leaves such a directory; opening it succeeds, and the next
  flush starts by emptying that file. If the process dies then, the next opening finds no manifest,
  takes the database for a new one and reads every key that is not in the log as absent, although it
  had been acknowledged, flushed and readable.
\<close>

theorem second_crash_loses_tables:
  assumes "man_lib_ok (lib_man L)" and "opts_ok opts" and "db_life L opts ops db"
    and "md_main (db_mdir db) = None" and "\<not> mt_is_empty (db_mem db)"
    and "state_at ops (length ops) key = Some v" and "key \<notin> fst ` set (mt_iter (db_mem db))"
  shows "db_get L db key = Inr (Some v) \<and>
    (\<exists>db' d db''. flush L db = Inr db' \<and> crash_between L db db' d \<and> db_load L opts d = Inr db'' \<and>
       db_get L db'' key = Inr None)"
proof -
  have good: "db_good L ops db" using life_good [OF assms(3,1,2)] by simp
  obtain db' where db': "flush L db = Inr db'" using life_flush [OF assms(3,1,2)] by blast
  obtain db'' where db'': "db_load L opts (emptied_dir L db db') = Inr db''" "db_levels db'' = [[]]" "db_mem db'' = db_mem db"
    using emptied_dir_load [OF good assms(4)] by blast
  have "db_get L db'' key = Inr None"
    using lookup_at_not_key [OF assms(7)] by (simp add: db_get_def get_at_def mt_get_lookup_at db''(2,3))
  then show ?thesis
    using life_get(1) [OF assms(3,1,2)] assms(6) db' emptied_dir_crash db''(1) by metis
qed

theorem second_crash_loses_tables_witness:
  "\<exists>db db' d db''. db_life plain_storage_lib default_options [([1], Some [2]), ([3], Some [4])] db \<and>
     db_get plain_storage_lib db [1] = Inr (Some [2]) \<and> flush plain_storage_lib db = Inr db' \<and>
     crash_between plain_storage_lib db db' d \<and> db_load plain_storage_lib default_options d = Inr db'' \<and>
     db_get plain_storage_lib db'' [1] = Inr None"
proof -
  let ?L = plain_storage_lib
  obtain db0 db1 where db0: "db_life ?L default_options two_ops db0" "mt_iter (db_mem db0) = [([3], 2, Some [4])]"
    "md_main (db_mdir db0) = Some (manifest_frame plain_manifest_lib (db_manifest db0))" "flush ?L db0 = Inr db1"
    using two_op_life by blast
  have safe: "save_safe ?L db0 db1 (unnamed_dir ?L db0 db1)" using db0(3) by (simp add: save_safe_def plain_storage_lib_def)
  obtain db where db: "db_load ?L default_options (unnamed_dir ?L db0 db1) = Inr db" "db_life ?L default_options two_ops db"
    using life_crash [OF plain_man_lib_ok default_opts_ok db0(1) disjI1 [OF db0(4)] unnamed_dir_crash safe] by blast
  have "db_good ?L two_ops db0" using life_good [OF db0(1) plain_man_lib_ok default_opts_ok] by simp
  from load_log [OF this _ db(1)] have mem: "db_mem db = db_mem db0" "md_main (db_mdir db) = None"
    by (simp_all add: unnamed_dir_def)
  have "\<not> mt_is_empty (db_mem db)" "[1] \<notin> fst ` set (mt_iter (db_mem db))"
    using db0(2) by (auto simp: mem mt_is_empty_def mt_iter_def)
  moreover have "state_at two_ops (length two_ops) [1] = Some [2]" by (simp add: state_at_def)
  ultimately show ?thesis
    using second_crash_loses_tables [OF plain_man_lib_ok default_opts_ok db(2) mem(2), of "[1]" "[2]"] db(2) by blast
qed

section \<open>A trigger of zero\<close>

lemma compact_empty_level:
  assumes "db_levels db = [] # ls"
  shows "compact_level L 0 db = Inr (padded 0 db)" "\<exists>ls'. db_levels (padded 0 db) = [] # ls'"
  using assms by (auto simp: compact_level_def Let_def source_ids_def pad_levels_def)

lemma zero_trigger_no_result:
  assumes ret: "maybe_compact L db = Some r"
  shows "l0_trigger (db_opts db) = 0 \<longrightarrow> (\<forall>ls. db_levels db \<noteq> [] # ls)"
proof (rule maybe_compact.raw_induct [where P = "\<lambda>L db r. l0_trigger (db_opts db) = 0 \<longrightarrow>
    (\<forall>ls. db_levels db \<noteq> [] # ls)", OF _ ret], intro impI allI notI)
  fix f L db r ls
  assume IH: "\<And>L db r. f L db = Some r \<Longrightarrow> l0_trigger (db_opts db) = 0 \<longrightarrow> (\<forall>ls. db_levels db \<noteq> [] # ls)"
    and eq: "(case compact_choice db of
        None \<Rightarrow> Some (Inr db)
      | Some level \<Rightarrow>
          (case compact_level L level db of
             Inl e \<Rightarrow> Some (Inl e)
           | Inr db' \<Rightarrow> f L db')) = Some r"
    and zero: "l0_trigger (db_opts db) = 0" and ls: "db_levels db = [] # ls"
  have "compact_choice db = Some 0" using zero by (simp add: compact_choice_def)
  then have "f L (padded 0 db) = Some r" using eq compact_empty_level(1) [OF ls] by simp
  from IH [OF this] compact_empty_level(2) [OF ls] zero show False by simp
qed

text \<open>C38: \<open>maybe_compact\<close> needs a positive trigger. With \<open>l0_trigger\<close> zero an empty level 0 is
  always over its limit, its compaction does nothing, and the loop never returns.\<close>

theorem maybe_compact_zero_trigger:
  assumes "l0_trigger (db_opts db) = 0" and "db_levels db = [] # ls"
  shows "maybe_compact L db = None"
  using zero_trigger_no_result [of L db] assms by (cases "maybe_compact L db") auto

theorem maybe_compact_zero_trigger_witness:
  "\<exists>db. db_load plain_storage_lib (default_options\<lparr>l0_trigger := 0\<rparr>) empty_dir = Inr db \<and>
     maybe_compact plain_storage_lib db = None"
proof -
  have "\<exists>db. db_load plain_storage_lib (default_options\<lparr>l0_trigger := 0\<rparr>) empty_dir = Inr db \<and>
      db_levels db = [[]] \<and> l0_trigger (db_opts db) = 0"
    by (simp add: db_load_def empty_dir_def manifest_load_def manifest_default_def wal_replay_def)
  then show ?thesis using maybe_compact_zero_trigger by blast
qed

end
