(* ===== verification/Backend.thy ===== *)
theory Backend
  imports Db_Runs
begin

text \<open>
  The key-value backend of the server on the storage engine (\<open>server/src/backend.rs\<close>). Its methods
  turn every storage error into a panic; they never meet one. The replicated state machine computes
  the same answers and the same contents on it as on the in-memory backend of the simulator.
\<close>

section \<open>The methods\<close>

text \<open>\<open>Result::expect\<close>.\<close>

fun expect_ok :: "'a storage_result \<Rightarrow> 'a storage_result" where
  "expect_ok (Inl _) = Inl Panic"
| "expect_ok (Inr x) = Inr x"

definition usize_max :: nat where
  "usize_max = 2 ^ 64 - 1"

definition backend_options :: options where
  "backend_options = default_options\<lparr>sync := Never\<rparr>"

definition dbb_open :: "storage_lib \<Rightarrow> db_dir \<Rightarrow> db storage_result option" where
  "dbb_open L d = db_open L backend_options d"

definition dbb_get :: "storage_lib \<Rightarrow> db \<Rightarrow> bytes \<Rightarrow> bytes option storage_result" where
  "dbb_get L db key = expect_ok (db_get L db key)"

definition dbb_set :: "storage_lib \<Rightarrow> bytes \<Rightarrow> bytes option \<Rightarrow> db \<Rightarrow> db storage_result option" where
  "dbb_set L key v db = map_option expect_ok (write_batch L [(key, v)] db)"

definition dbb_scan :: "storage_lib \<Rightarrow> db \<Rightarrow> bytes \<Rightarrow> bytes option \<Rightarrow> nat \<Rightarrow> (bytes \<times> bytes) list storage_result" where
  "dbb_scan L db start stop limit = expect_ok (db_scan L db start stop limit)"

definition dbb_dump :: "storage_lib \<Rightarrow> db \<Rightarrow> (bytes \<times> bytes) list storage_result" where
  "dbb_dump L db = expect_ok (db_scan L db [] None usize_max)"

definition load_ops :: "(bytes \<times> bytes) list \<Rightarrow> (bytes \<times> bytes) list \<Rightarrow> (bytes \<times> bytes option) list" where
  "load_ops existing kvs = map (\<lambda>(k, _). (k, None)) existing @ map (\<lambda>(k, v). (k, Some v)) kvs"

definition dbb_clear_and_load :: "storage_lib \<Rightarrow> (bytes \<times> bytes) list \<Rightarrow> db \<Rightarrow> db storage_result option" where
  "dbb_clear_and_load L kvs db =
     (case dbb_dump L db of
        Inl e \<Rightarrow> Some (Inl e)
      | Inr existing \<Rightarrow>
          if load_ops existing kvs \<noteq> []
          then map_option expect_ok (write_batch L (load_ops existing kvs) db)
          else Some (Inr db))"

text \<open>
  The trait as the state machine sees it: the values of the calls that have returned.
\<close>

definition dbb_view :: "storage_lib \<Rightarrow> db backend" where
  "dbb_view L =
     \<lparr>be_get = (\<lambda>db k. case dbb_get L db k of Inl _ \<Rightarrow> None | Inr v \<Rightarrow> v),
      be_set = (\<lambda>k v db. case dbb_set L k v db of Some (Inr db') \<Rightarrow> db' | _ \<Rightarrow> db),
      be_scan = (\<lambda>db s e n. case dbb_scan L db s e n of Inl _ \<Rightarrow> [] | Inr kvs \<Rightarrow> kvs),
      be_dump = (\<lambda>db. case dbb_dump L db of Inl _ \<Rightarrow> [] | Inr kvs \<Rightarrow> kvs),
      be_clear_and_load = (\<lambda>kvs db. case dbb_clear_and_load L kvs db of Some (Inr db') \<Rightarrow> db' | _ \<Rightarrow> db)\<rparr>"

section \<open>What the methods do\<close>

abbreviation contents :: "(bytes \<times> bytes option) list \<Rightarrow> bytes \<rightharpoonup> bytes" where
  "contents ops \<equiv> state_at ops (length ops)"

lemma contents_append: "contents (ops @ new) = fold (\<lambda>(k, v) m. m(k := v)) new (contents ops)"
  by (simp add: state_at_def)

lemma history_fits_prefix: "history_fits L opts (ops @ rest) \<Longrightarrow> history_fits L opts ops"
  using history_fits_mono versions_of_append [of ops rest] by blast

lemma contents_dom: "dom (contents ops) \<subseteq> fst ` set ops"
proof (induction ops rule: rev_induct)
  case Nil
  then show ?case by (simp add: state_at_def)
next
  case (snoc op ops)
  obtain k v where op: "op = (k, v)" by (cases op)
  have "dom (contents (ops @ [op])) \<subseteq> insert k (dom (contents ops))" by (auto simp: op state_at_snoc)
  then show ?case using snoc.IH op by auto
qed

lemma contents_card: "card (dom (contents ops)) \<le> length ops"
proof -
  have "card (dom (contents ops)) \<le> card (fst ` set ops)" by (rule card_mono [OF _ contents_dom]) simp
  also have "\<dots> \<le> length ops" using card_image_le [of "set ops" fst] card_length [of ops] by simp
  finally show ?thesis .
qed

text \<open>A sorted list of the pairs of a map is determined by the map.\<close>

lemma sorted_pairs_map_of:
  assumes "sorted_wrt (<) (map fst (pairs :: (bytes \<times> bytes) list))" "set pairs = {(k, v). m k = Some v}"
  shows "map_of pairs = m" "length pairs = card (dom m)"
proof -
  have "distinct (map fst pairs)" using assms(1) strict_sorted_iff by blast
  then show "map_of pairs = m"
    using assms(2) by (intro ext) (metis (mono_tags, lifting) case_prodD case_prodI map_of_eq_Some_iff mem_Collect_eq not_None_eq)
  have "length pairs = card (fst ` set pairs)"
    using \<open>distinct (map fst pairs)\<close> distinct_card [of "map fst pairs"] by simp
  also have "fst ` set pairs = dom m" unfolding assms(2) by (auto simp: dom_def image_iff)
  finally show "length pairs = card (dom m)" .
qed

lemma dump_life:
  assumes life: "db_life L opts ops db" and man: "man_lib_ok (lib_man L)" and opts: "opts_ok opts"
    and len: "length ops \<le> usize_max"
  shows "\<exists>pairs. dbb_dump L db = Inr pairs \<and> sorted_wrt (<) (map fst pairs) \<and> map_of pairs = contents ops"
proof -
  have seq: "db_seq db = length ops" by (rule life_get(2) [OF life man opts])
  obtain pairs where p: "scan_at L db [] None usize_max (db_seq db) = Inr (take (max 1 usize_max) pairs)"
    "sorted_wrt (<) (map fst pairs)" "set pairs = {(k, v). in_range [] None k \<and> contents ops k = Some v}"
    using life_reads(3) [OF life man opts disjI1 [OF refl], of "[]" None usize_max] unfolding seq by blast
  then have set: "set pairs = {(k, v). contents ops k = Some v}" by (simp add: in_range_def)
  note m = sorted_pairs_map_of [OF p(2) set]
  have "length pairs \<le> usize_max" using m(2) contents_card [of ops] len by simp
  then have "take (max 1 usize_max) pairs = pairs" by simp
  then show ?thesis using p(1,2) m(1) by (simp add: dbb_dump_def db_scan_def)
qed

lemma load_contents:
  assumes "map_of existing = contents ops" "distinct (map fst existing)"
  shows "contents (ops @ load_ops existing kvs) = map_of (rev kvs)"
proof -
  have del: "fold (\<lambda>(k, v) m. m(k := v)) (map (\<lambda>(k, _). (k, None)) xs) m =
      (\<lambda>k. if k \<in> fst ` set xs then None else m k)" for xs :: "(bytes \<times> bytes) list" and m :: "bytes \<rightharpoonup> bytes"
    by (induction xs arbitrary: m) (auto simp: fun_eq_iff)
  have put: "fold (\<lambda>(k, v) m. m(k := v)) (map (\<lambda>(k, v). (k, Some v)) xs) m = m ++ map_of (rev xs)"
    for xs :: "(bytes \<times> bytes) list" and m :: "bytes \<rightharpoonup> bytes"
    by (induction xs arbitrary: m) (auto simp: fun_eq_iff map_add_def split: option.splits)
  have "(\<lambda>k. if k \<in> fst ` set existing then None else contents ops k) = Map.empty"
    unfolding assms(1) [symmetric] by (auto simp: fun_eq_iff map_of_eq_None_iff)
  then show ?thesis unfolding contents_append load_ops_def fold_append comp_def del put by simp
qed

text \<open>No method panics, and each does what its name says.\<close>

lemma dbb_methods:
  assumes life: "db_life L opts ops db" and man: "man_lib_ok (lib_man L)" and opts: "opts_ok opts"
  shows "dbb_get L db key = Inr (contents ops key)"
    and "history_fits L opts (ops @ [(key, v)]) \<Longrightarrow> batch_ok L ops [(key, v)] \<Longrightarrow>
      \<exists>db'. dbb_set L key v db = Some (Inr db') \<and> db_life L opts (ops @ [(key, v)]) db' \<and>
        contents (ops @ [(key, v)]) = (contents ops)(key := v)"
    and "length ops \<le> usize_max \<Longrightarrow> dbb_dump L db = Inr existing \<Longrightarrow>
      history_fits L opts (ops @ load_ops existing kvs) \<Longrightarrow> batch_ok L ops (load_ops existing kvs) \<Longrightarrow>
      \<exists>db'. dbb_clear_and_load L kvs db = Some (Inr db') \<and> db_life L opts (ops @ load_ops existing kvs) db' \<and>
        contents (ops @ load_ops existing kvs) = map_of (rev kvs)"
proof -
  show "dbb_get L db key = Inr (contents ops key)"
    using life_get(1) [OF life man opts] by (simp add: dbb_get_def)
  show "\<exists>db'. dbb_set L key v db = Some (Inr db') \<and> db_life L opts (ops @ [(key, v)]) db' \<and>
        contents (ops @ [(key, v)]) = (contents ops)(key := v)"
    if "history_fits L opts (ops @ [(key, v)])" "batch_ok L ops [(key, v)]"
    using life_write [OF life man opts that(1)] that(2) by (auto simp: dbb_set_def state_at_snoc)
  show "\<exists>db'. dbb_clear_and_load L kvs db = Some (Inr db') \<and> db_life L opts (ops @ load_ops existing kvs) db' \<and>
        contents (ops @ load_ops existing kvs) = map_of (rev kvs)"
    if len: "length ops \<le> usize_max" and dump: "dbb_dump L db = Inr existing"
      and fits: "history_fits L opts (ops @ load_ops existing kvs)" and batch: "batch_ok L ops (load_ops existing kvs)"
  proof -
    have ex: "sorted_wrt (<) (map fst existing)" "map_of existing = contents ops"
      using dump_life [OF life man opts len] dump by auto
    have "distinct (map fst existing)" using ex(1) strict_sorted_iff by blast
    note cont = load_contents [OF ex(2) this, of kvs]
    show ?thesis
    proof (cases "load_ops existing kvs = []")
      case True
      then have "dbb_clear_and_load L kvs db = Some (Inr db)" by (simp add: dbb_clear_and_load_def dump)
      then show ?thesis using life cont True by simp
    next
      case False
      obtain db' where "write_batch L (load_ops existing kvs) db = Some (Inr db')"
        "db_life L opts (ops @ load_ops existing kvs) db'"
        using life_write [OF life man opts fits] batch by blast
      then show ?thesis using cont False by (simp add: dbb_clear_and_load_def dump)
    qed
  qed
qed

section \<open>The state machine on the two backends\<close>

text \<open>The writes a command causes in the abstract state \<open>st\<close>.\<close>

fun op_writes :: "op \<Rightarrow> (bytes \<rightharpoonup> bytes) \<Rightarrow> (bytes \<times> bytes option) list" where
  "op_writes (Put k v) m = [(k, Some v)]"
| "op_writes (Delete k) m = [(k, None)]"
| "op_writes (Cas k expect new) m = (if m k = expect then [(k, new)] else [])"
| "op_writes (Get k) m = []"

definition cmd_writes :: "command \<Rightarrow> kv_state \<Rightarrow> (bytes \<times> bytes option) list" where
  "cmd_writes c st =
     (case (if cmd_session c = 0 then None else snd st (cmd_session c)) of
        Some s \<Rightarrow> if cmd_seq c \<le> session_state.last_seq s then [] else op_writes (cmd_op c) (fst st)
      | None \<Rightarrow> op_writes (cmd_op c) (fst st))"

fun run_writes :: "command list \<Rightarrow> kv_state \<Rightarrow> (bytes \<times> bytes option) list" where
  "run_writes [] st = []"
| "run_writes (c # cs) st = cmd_writes c st @ run_writes cs (snd (kv_apply c st))"

text \<open>The answers to a list of commands, with the state machine after them.\<close>

fun sm_answers :: "'b backend \<Rightarrow> command list \<Rightarrow> 'b state_machine \<Rightarrow> op_result list \<times> 'b state_machine" where
  "sm_answers B [] sm = ([], sm)"
| "sm_answers B (c # cs) sm =
     (let (r, sm') = sm_apply B c sm; (rs, sm'') = sm_answers B cs sm' in (r # rs, sm''))"

fun kv_answers :: "command list \<Rightarrow> kv_state \<Rightarrow> op_result list \<times> kv_state" where
  "kv_answers [] st = ([], st)"
| "kv_answers (c # cs) st =
     (let (r, st') = kv_apply c st; (rs, st'') = kv_answers cs st' in (r # rs, st''))"

text \<open>Every write fits the formats of the log and of the tables.\<close>

definition writes_fit :: "storage_lib \<Rightarrow> options \<Rightarrow> (bytes \<times> bytes option) list \<Rightarrow>
    (bytes \<times> bytes option) list \<Rightarrow> bool" where
  "writes_fit L opts ops ws \<longleftrightarrow>
     history_fits L opts (ops @ ws) \<and> (\<forall>i < length ws. batch_ok L (ops @ take i ws) [ws ! i])"

lemma writes_fit_append:
  assumes "writes_fit L opts ops (ws @ vs)"
  shows "writes_fit L opts ops ws" "writes_fit L opts (ops @ ws) vs"
proof -
  have fits: "history_fits L opts ((ops @ ws) @ vs)"
    and b: "batch_ok L (ops @ take i (ws @ vs)) [(ws @ vs) ! i]" if "i < length (ws @ vs)" for i
    using assms that by (simp_all add: writes_fit_def)
  have "history_fits L opts ((ops @ ws) @ vs)" using assms by (simp add: writes_fit_def)
  moreover have "batch_ok L (ops @ take i ws) [ws ! i]" if "i < length ws" for i
    using b [of i] that by (simp add: nth_append)
  moreover have "batch_ok L ((ops @ ws) @ take i vs) [vs ! i]" if "i < length vs" for i
    using b [of "length ws + i"] that by (simp add: nth_append)
  ultimately show "writes_fit L opts ops ws" "writes_fit L opts (ops @ ws) vs"
    unfolding writes_fit_def using history_fits_prefix by blast+
qed

definition dbb_rel :: "storage_lib \<Rightarrow> options \<Rightarrow> (bytes \<times> bytes option) list \<Rightarrow> db state_machine \<Rightarrow> kv_state \<Rightarrow> bool" where
  "dbb_rel L opts ops sm st \<longleftrightarrow>
     db_life L opts ops (sm_backend sm) \<and> fst st = contents ops \<and> snd st = bt_get (sm_sessions sm) \<and> bt_ok (sm_sessions sm)"

lemma dbb_execute:
  assumes life: "db_life L opts ops db" and man: "man_lib_ok (lib_man L)" and opts: "opts_ok opts"
    and fit: "writes_fit L opts ops (op_writes x (contents ops))"
  shows "fst (execute (dbb_view L) x db) = fst (kv_execute x (contents ops)) \<and>
     db_life L opts (ops @ op_writes x (contents ops)) (snd (execute (dbb_view L) x db)) \<and>
     contents (ops @ op_writes x (contents ops)) = snd (kv_execute x (contents ops))"
proof -
  note meth = dbb_methods [OF life man opts]
  have get: "be_get (dbb_view L) db k = contents ops k" for k by (simp add: dbb_view_def meth(1))
  have set: "db_life L opts (ops @ [(k, v)]) (be_set (dbb_view L) k v db) \<and>
      contents (ops @ [(k, v)]) = (contents ops)(k := v)" if "writes_fit L opts ops [(k, v)]" for k v
  proof -
    have "history_fits L opts (ops @ [(k, v)])" "batch_ok L ops [(k, v)]" using that by (simp_all add: writes_fit_def)
    from meth(2) [OF this] show ?thesis by (auto simp: dbb_view_def)
  qed
  show ?thesis
    using fit set life by (cases x) (auto simp: get Let_def)
qed

lemma dbb_apply:
  assumes rel: "dbb_rel L opts ops sm st" and man: "man_lib_ok (lib_man L)" and opts: "opts_ok opts"
    and fit: "writes_fit L opts ops (cmd_writes c st)"
  shows "fst (sm_apply (dbb_view L) c sm) = fst (kv_apply c st) \<and>
     dbb_rel L opts (ops @ cmd_writes c st) (snd (sm_apply (dbb_view L) c sm)) (snd (kv_apply c st))"
proof (cases rule: sm_apply_cases [of c sm "dbb_view L"])
  case (dup s)
  then show ?thesis using rel by (simp add: kv_apply_def cmd_writes_def dbb_rel_def)
next
  case (stale s)
  then show ?thesis using rel by (simp add: kv_apply_def cmd_writes_def dbb_rel_def)
next
  case fresh
  have life: "db_life L opts ops (sm_backend sm)" and st: "fst st = contents ops" "snd st = bt_get (sm_sessions sm)"
    and ok: "bt_ok (sm_sessions sm)"
    using rel by (simp_all add: dbb_rel_def)
  have kv: "kv_apply c st = kv_record c st" and w: "cmd_writes c st = op_writes (cmd_op c) (contents ops)"
    using fresh(1) st by (auto simp: kv_apply_def cmd_writes_def)
  note e = dbb_execute [OF life man opts fit [unfolded w]]
  have upd: "bt_get (bt_insert k v m) = (bt_get m)(k \<mapsto> v)" for k v and m :: "(nat, session_state) btree_map"
    by (auto simp: fun_eq_iff)
  show ?thesis
    unfolding fresh(2) kv w using e ok
    by (simp add: execute_and_record_def kv_record_def dbb_rel_def Let_def split_beta st upd)
qed

lemma dbb_answers:
  assumes "dbb_rel L opts ops sm st" and man: "man_lib_ok (lib_man L)" and opts: "opts_ok opts"
    and "writes_fit L opts ops (run_writes cmds st)"
  shows "fst (sm_answers (dbb_view L) cmds sm) = fst (kv_answers cmds st) \<and>
     dbb_rel L opts (ops @ run_writes cmds st) (snd (sm_answers (dbb_view L) cmds sm)) (snd (kv_answers cmds st))"
  using assms(1,4)
proof (induction cmds arbitrary: ops sm st)
  case Nil
  then show ?case by simp
next
  case (Cons c cmds)
  note fit = writes_fit_append [OF Cons.prems(2) [unfolded run_writes.simps]]
  note a = dbb_apply [OF Cons.prems(1) man opts fit(1)]
  from Cons.IH [OF conjunct2 [OF a] fit(2)] a show ?case
    by (simp add: Let_def split_beta)
qed

lemma mem_answers:
  assumes "mem.sm_ok sm"
  shows "fst (sm_answers mem_backend cmds sm) = fst (kv_answers cmds (mem.sm_abs sm)) \<and>
     mem.sm_abs (snd (sm_answers mem_backend cmds sm)) = snd (kv_answers cmds (mem.sm_abs sm)) \<and>
     mem.sm_ok (snd (sm_answers mem_backend cmds sm))"
  using assms
proof (induction cmds arbitrary: sm)
  case Nil
  then show ?case by simp
next
  case (Cons c cmds)
  note a = mem.apply_refines [OF Cons.prems, of c]
  from Cons.IH [OF a(3)] a show ?case by (simp add: Let_def split_beta)
qed

lemma sorted_pairs_unique:
  assumes "sorted_wrt (<) (map fst (xs :: (bytes \<times> bytes) list))" "sorted_wrt (<) (map fst ys)" "map_of xs = map_of ys"
  shows "xs = ys"
  using assms by (intro bt_ok_eqI) (simp_all add: bt_ok_def bt_get_def)

lemma backends_agree_lemma:
  assumes rel: "dbb_rel L opts ops sm (mem.sm_abs msm)" and ok: "mem.sm_ok msm"
    and man: "man_lib_ok (lib_man L)" and opts: "opts_ok opts"
    and fit: "writes_fit L opts ops (run_writes cmds (mem.sm_abs msm))"
    and len: "length (ops @ run_writes cmds (mem.sm_abs msm)) \<le> usize_max"
  shows "fst (sm_answers (dbb_view L) cmds sm) = fst (sm_answers mem_backend cmds msm)"
    and "dbb_dump L (sm_backend (snd (sm_answers (dbb_view L) cmds sm))) =
      Inr (be_dump mem_backend (sm_backend (snd (sm_answers mem_backend cmds msm))))"
    and "bt_get (sm_sessions (snd (sm_answers (dbb_view L) cmds sm))) =
      bt_get (sm_sessions (snd (sm_answers mem_backend cmds msm)))"
proof -
  let ?sm = "snd (sm_answers (dbb_view L) cmds sm)" and ?msm = "snd (sm_answers mem_backend cmds msm)"
  let ?ops = "ops @ run_writes cmds (mem.sm_abs msm)"
  note d = dbb_answers [OF rel man opts fit] and m = mem_answers [OF ok, of cmds]
  show "fst (sm_answers (dbb_view L) cmds sm) = fst (sm_answers mem_backend cmds msm)" using d m by simp
  have rel': "dbb_rel L opts ?ops ?sm (mem.sm_abs ?msm)" and ok': "mem.sm_ok ?msm" using d m by simp_all
  then show "bt_get (sm_sessions ?sm) = bt_get (sm_sessions ?msm)" by (simp add: dbb_rel_def mem.sm_abs_def)
  have life: "db_life L opts ?ops (sm_backend ?sm)" and c: "contents ?ops = bt_get (sm_backend ?msm)"
    using rel' by (simp_all add: dbb_rel_def mem.sm_abs_def)
  obtain pairs where p: "dbb_dump L (sm_backend ?sm) = Inr pairs" "sorted_wrt (<) (map fst pairs)" "map_of pairs = contents ?ops"
    using dump_life [OF life man opts len] by blast
  have "bt_ok (sm_backend ?msm)" using ok' by (simp add: mem.sm_ok_def)
  then have "pairs = sm_backend ?msm"
    using p(2,3) c by (intro sorted_pairs_unique) (simp_all add: bt_ok_def fun_eq_iff bt_get_def)
  then show "dbb_dump L (sm_backend ?sm) = Inr (be_dump mem_backend (sm_backend ?msm))"
    using p(1) by (simp add: mem_backend_def)
qed

section \<open>The contract of the backend\<close>

lemma backend_opts_ok: "opts_ok backend_options"
  by (simp add: opts_ok_def backend_options_def default_options_def)

lemma backend_one_op_fits: "writes_fit plain_storage_lib backend_options [] one_op"
  using small_history_fits [of one_op backend_options] one_op_batch
  by (simp add: writes_fit_def small_ops_def value_len_def backend_options_def default_options_def)

lemma backend_created: "\<exists>db. db_life plain_storage_lib backend_options [] db"
  using life_create [OF plain_man_lib_ok backend_opts_ok] by blast

text \<open>C27: the server's backend never panics and never hangs. As long as the writes fit the formats,
  every \<open>expect\<close> of \<open>DbBackend\<close> meets a result: \<open>get\<close> returns the last value written, \<open>set\<close> returns and
  changes that key alone, \<open>dump\<close> lists the whole contents in key order, and \<open>clear_and_load\<close> returns
  with exactly the given pairs, whatever was there before.\<close>

theorem backend_never_panics:
  assumes "man_lib_ok (lib_man L)" and "opts_ok opts" and "db_life L opts ops db" and "length ops \<le> usize_max"
  shows "dbb_get L db key = Inr (contents ops key) \<and>
    (history_fits L opts (ops @ [(key, v)]) \<longrightarrow> batch_ok L ops [(key, v)] \<longrightarrow>
       (\<exists>db'. dbb_set L key v db = Some (Inr db') \<and> db_life L opts (ops @ [(key, v)]) db' \<and>
          contents (ops @ [(key, v)]) = (contents ops)(key := v))) \<and>
    (\<exists>pairs. dbb_dump L db = Inr pairs \<and> sorted_wrt (<) (map fst pairs) \<and> map_of pairs = contents ops \<and>
       (history_fits L opts (ops @ load_ops pairs kvs) \<longrightarrow> batch_ok L ops (load_ops pairs kvs) \<longrightarrow>
         (\<exists>db'. dbb_clear_and_load L kvs db = Some (Inr db') \<and> db_life L opts (ops @ load_ops pairs kvs) db' \<and>
            contents (ops @ load_ops pairs kvs) = map_of (rev kvs))))"
  using dbb_methods [OF assms(3,1,2)] dump_life [OF assms(3,1,2,4)] assms(4) by blast

theorem backend_never_panics_witness:
  "\<exists>db db'. db_life plain_storage_lib backend_options [] db \<and>
     dbb_set plain_storage_lib [1] (Some [2]) db = Some (Inr db') \<and> dbb_dump plain_storage_lib db = Inr []"
proof -
  obtain db where db: "db_life plain_storage_lib backend_options [] db" using backend_created by blast
  have fit: "history_fits plain_storage_lib backend_options ([] @ one_op)" "batch_ok plain_storage_lib [] one_op"
    using backend_one_op_fits by (simp_all add: writes_fit_def)
  have c: "contents [] = Map.empty" by (simp add: state_at_def)
  have len: "length ([] :: (bytes \<times> bytes option) list) \<le> usize_max" by simp
  from backend_never_panics [OF plain_man_lib_ok backend_opts_ok db len, of "[1]" "Some [2]" "[]"] fit
  obtain db' pairs where "dbb_set plain_storage_lib [1] (Some [2]) db = Some (Inr db')"
    "dbb_dump plain_storage_lib db = Inr pairs" "map_of pairs = Map.empty" unfolding c by blast
  then show ?thesis using db by auto
qed

text \<open>C26: the two backends are interchangeable. Started from equal contents and sessions, the state
  machine on the storage engine (the server's) and on the in-memory map (the simulator's) give the
  same answers to every list of commands, and end with the same dump and the same sessions.\<close>

theorem backends_agree:
  assumes "man_lib_ok (lib_man L)" and "opts_ok opts" and "db_life L opts ops (sm_backend sm)"
    and "contents ops = bt_get (sm_backend msm)" and "sm_sessions sm = sm_sessions msm"
    and "bt_ok (sm_backend msm)" and "bt_ok (sm_sessions msm)"
    and "writes_fit L opts ops (run_writes cmds (bt_get (sm_backend msm), bt_get (sm_sessions msm)))"
    and "length ops + length (run_writes cmds (bt_get (sm_backend msm), bt_get (sm_sessions msm))) \<le> usize_max"
  shows "fst (sm_answers (dbb_view L) cmds sm) = fst (sm_answers mem_backend cmds msm) \<and>
    dbb_dump L (sm_backend (snd (sm_answers (dbb_view L) cmds sm))) =
      Inr (be_dump mem_backend (sm_backend (snd (sm_answers mem_backend cmds msm)))) \<and>
    bt_get (sm_sessions (snd (sm_answers (dbb_view L) cmds sm))) =
      bt_get (sm_sessions (snd (sm_answers mem_backend cmds msm)))"
proof -
  have abs: "mem.sm_abs msm = (bt_get (sm_backend msm), bt_get (sm_sessions msm))" by (simp add: mem.sm_abs_def)
  have "dbb_rel L opts ops sm (mem.sm_abs msm)" "mem.sm_ok msm"
    using assms by (simp_all add: dbb_rel_def abs mem.sm_ok_def)
  from backends_agree_lemma [OF this assms(1,2), of cmds] assms(8,9) show ?thesis unfolding abs by simp
qed

theorem backends_agree_witness:
  "\<exists>db. db_life plain_storage_lib backend_options [] db \<and>
     fst (sm_answers (dbb_view plain_storage_lib)
       [\<lparr>cmd_session = 1, cmd_seq = 1, cmd_op = Put [1] [2]\<rparr>, \<lparr>cmd_session = 1, cmd_seq = 2, cmd_op = Get [1]\<rparr>]
       (sm_new db)) = [OpOk, OpValue (Some [2])]"
proof -
  let ?cmds = "[\<lparr>cmd_session = 1, cmd_seq = 1, cmd_op = Put [1] [2]\<rparr>, \<lparr>cmd_session = 1, cmd_seq = 2, cmd_op = Get [1]\<rparr>]"
  obtain db where db: "db_life plain_storage_lib backend_options [] db" using backend_created by blast
  let ?sm = "sm_new db" and ?msm = "sm_new bt_empty :: mem_backend state_machine"
  have c: "contents [] = bt_get (sm_backend ?msm)" by (simp add: state_at_def sm_new_def fun_eq_iff)
  have w: "run_writes ?cmds (bt_get (sm_backend ?msm), bt_get (sm_sessions ?msm)) = one_op"
    by (simp add: cmd_writes_def kv_apply_def kv_record_def sm_new_def)
  have "fst (sm_answers (dbb_view plain_storage_lib) ?cmds ?sm) = fst (sm_answers mem_backend ?cmds ?msm)"
    by (rule conjunct1 [OF backends_agree [OF plain_man_lib_ok backend_opts_ok _ c, of ?sm]])
      (unfold w, simp_all add: sm_new_def db backend_one_op_fits usize_max_def)
  also have "\<dots> = [OpOk, OpValue (Some [2])]"
    by (simp add: sm_apply_def execute_and_record_def sm_new_def mem_backend_def mem_set_def)
  finally show ?thesis using db by blast
qed

end
