(* ===== verification/Logstore.thy ===== *)
theory Logstore
  imports Backend Sim_Disk
begin

text \<open>
  The server's raft log on the storage engine (\<open>server/src/logstore.rs\<close>): the hard state, the
  snapshot and the entries under keys of one database. It implements the simulated disk of the
  simulator for the outputs the raft core makes between two drains, as long as the entries of one
  output are contiguous. \<open>bincode\<close> is a parameter.
\<close>

section \<open>Keys\<close>

definition key_hs :: bytes where "key_hs = [109, 47, 104, 115]"

definition key_snap :: bytes where "key_snap = [109, 47, 115, 110, 97, 112]"

definition entry_prefix :: bytes where "entry_prefix = [101, 47]"

definition entry_end :: bytes where "entry_end = [101, 48]"

definition entry_key :: "index \<Rightarrow> bytes" where
  "entry_key i = entry_prefix @ u64_be i"

record log_lib =
  enc_hs :: "hard_state \<Rightarrow> bytes"
  dec_hs :: "bytes \<Rightarrow> hard_state option"
  enc_snap_val :: "snapshot \<Rightarrow> bytes"
  dec_snap_val :: "bytes \<Rightarrow> snapshot option"
  enc_log_entry :: "Raft_Types.entry \<Rightarrow> bytes"
  dec_log_entry :: "bytes \<Rightarrow> Raft_Types.entry option"

text \<open>\<open>bincode\<close> reads back what it has written.\<close>

definition log_lib_ok :: "log_lib \<Rightarrow> bool" where
  "log_lib_ok B \<longleftrightarrow>
     (\<forall>h. dec_hs B (enc_hs B h) = Some h) \<and> (\<forall>s. dec_snap_val B (enc_snap_val B s) = Some s) \<and>
     (\<forall>e. dec_log_entry B (enc_log_entry B e) = Some e)"

section \<open>The store\<close>

record log_store =
  ls_db :: db
  ls_first_index :: index
  ls_last_index :: index

definition log_options :: options where
  "log_options = default_options\<lparr>sync := Always\<rparr>"

text \<open>\<open>decode\<close> with its error mapped to \<open>Corruption\<close>.\<close>

definition decoded :: "string \<Rightarrow> 'a option \<Rightarrow> 'a storage_result" where
  "decoded what r = (case r of None \<Rightarrow> Inl (Corruption what) | Some x \<Rightarrow> Inr x)"

fun decode_entries :: "log_lib \<Rightarrow> (bytes \<times> bytes) list \<Rightarrow> Raft_Types.entry list storage_result" where
  "decode_entries B [] = Inr []"
| "decode_entries B ((k, v) # kvs) =
     and_then (decoded ''log entry'' (dec_log_entry B v)) (\<lambda>e.
       and_then (decode_entries B kvs) (\<lambda>es. Inr (e # es)))"

text \<open>\<open>LogStore::open\<close> after it has opened its database.\<close>

definition ls_read :: "storage_lib \<Rightarrow> log_lib \<Rightarrow> db \<Rightarrow> (log_store \<times> persisted) storage_result" where
  "ls_read L B db =
     and_then (db_get L db key_hs) (\<lambda>h.
     and_then (case h of None \<Rightarrow> Inr hard_state_default | Some b \<Rightarrow> decoded ''hard state'' (dec_hs B b)) (\<lambda>hs.
     and_then (db_get L db key_snap) (\<lambda>s.
     and_then (case s of None \<Rightarrow> Inr None
               | Some b \<Rightarrow> and_then (decoded ''snapshot'' (dec_snap_val B b)) (\<lambda>x. Inr (Some x))) (\<lambda>snap.
     and_then (db_scan L db entry_prefix (Some entry_end) usize_max) (\<lambda>kvs.
     and_then (decode_entries B kvs) (\<lambda>entries.
       Inr (\<lparr>ls_db = db,
             ls_first_index = (if entries = [] then 0 else e_index (hd entries)),
             ls_last_index = (if entries = [] then 0 else e_index (last entries))\<rparr>,
            \<lparr>p_hard_state = hs, p_entries = entries, p_snapshot = snap\<rparr>)))))))"

definition ls_open :: "storage_lib \<Rightarrow> log_lib \<Rightarrow> db_dir \<Rightarrow> (log_store \<times> persisted) storage_result option" where
  "ls_open L B d = map_option (\<lambda>r. and_then r (ls_read L B)) (db_open L log_options d)"

definition del_range :: "index \<Rightarrow> index \<Rightarrow> (bytes \<times> bytes option) list" where
  "del_range a b = map (\<lambda>i. (entry_key i, None)) [a..<Suc b]"

definition put_entries :: "log_lib \<Rightarrow> Raft_Types.entry list \<Rightarrow> (bytes \<times> bytes option) list" where
  "put_entries B es = map (\<lambda>e. (entry_key (e_index e), Some (enc_log_entry B e))) es"

text \<open>The three parts of \<open>persist\<close>: each adds to the batch and moves the bounds.\<close>

definition snap_part :: "log_lib \<Rightarrow> snapshot option \<Rightarrow> index \<times> index \<Rightarrow>
    (bytes \<times> bytes option) list \<times> index \<times> index" where
  "snap_part B snap fl =
     (case snap of
        None \<Rightarrow> ([], fl)
      | Some s \<Rightarrow>
          ((key_snap, Some (enc_snap_val B s)) # (if snd fl \<noteq> 0 then del_range (fst fl) (snd fl) else []), 0, 0))"

definition append_part :: "log_lib \<Rightarrow> Raft_Types.entry list \<Rightarrow> index \<times> index \<Rightarrow>
    (bytes \<times> bytes option) list \<times> index \<times> index" where
  "append_part B es fl =
     (case es of
        [] \<Rightarrow> ([], fl)
      | e # _ \<Rightarrow>
          let first_new = e_index e
          in ((if snd fl \<noteq> 0 \<and> first_new \<le> snd fl then del_range first_new (snd fl) else []) @ put_entries B es,
              if fst fl = 0 \<or> first_new < fst fl then first_new else fst fl,
              e_index (last es)))"

definition persist_ops :: "log_lib \<Rightarrow> hard_state option \<Rightarrow> Raft_Types.entry list \<Rightarrow> snapshot option \<Rightarrow>
    index \<times> index \<Rightarrow> (bytes \<times> bytes option) list \<times> index \<times> index" where
  "persist_ops B hs es snap fl0 =
     (let ops0 = (case hs of None \<Rightarrow> [] | Some h \<Rightarrow> [(key_hs, Some (enc_hs B h))]);
          (ops1, fl1) = snap_part B snap fl0;
          (ops2, fl2) = append_part B es fl1
      in (ops0 @ ops1 @ ops2, fl2))"

definition ls_persist :: "storage_lib \<Rightarrow> log_lib \<Rightarrow> hard_state option \<Rightarrow> Raft_Types.entry list \<Rightarrow>
    snapshot option \<Rightarrow> log_store \<Rightarrow> log_store storage_result option" where
  "ls_persist L B hs es snap ls =
     (let (ops, fl) = persist_ops B hs es snap (ls_first_index ls, ls_last_index ls)
      in if ops \<noteq> []
         then map_option (\<lambda>r. and_then r (\<lambda>db.
                Inr \<lparr>ls_db = db, ls_first_index = fst fl, ls_last_index = snd fl\<rparr>)) (write_batch L ops (ls_db ls))
         else Some (Inr (ls\<lparr>ls_first_index := fst fl, ls_last_index := snd fl\<rparr>)))"

definition compact_ops :: "log_lib \<Rightarrow> snapshot \<Rightarrow> index \<times> index \<Rightarrow> (bytes \<times> bytes option) list \<times> index \<times> index" where
  "compact_ops B snap fl =
     (let put = (key_snap, Some (enc_snap_val B snap))
      in if snd fl \<noteq> 0 \<and> fst fl \<le> s_last_index snap
         then (put # del_range (fst fl) (min (s_last_index snap) (snd fl)),
               if s_last_index snap \<ge> snd fl then (0, 0) else (s_last_index snap + 1, snd fl))
         else ([put], fl))"

definition ls_compact_to :: "storage_lib \<Rightarrow> log_lib \<Rightarrow> snapshot \<Rightarrow> log_store \<Rightarrow> log_store storage_result option" where
  "ls_compact_to L B snap ls =
     (let (ops, fl) = compact_ops B snap (ls_first_index ls, ls_last_index ls)
      in map_option (\<lambda>r. and_then r (\<lambda>db.
           Inr \<lparr>ls_db = db, ls_first_index = fst fl, ls_last_index = snd fl\<rparr>)) (write_batch L ops (ls_db ls)))"

section \<open>Big-endian keys sort by index\<close>

lemma list_less_append:
  fixes xs ys :: "'a::linorder list"
  assumes "xs < ys" "length xs = length ys"
  shows "xs @ as < ys @ bs"
  using assms(2,1) by (induction xs ys rule: list_induct2) auto

lemma list_append_less_iff:
  fixes xs as bs :: "'a::linorder list"
  shows "xs @ as < xs @ bs \<longleftrightarrow> as < bs"
  by (induction xs) simp_all

lemma be_bytes_Suc: "be_bytes (Suc n) x = be_bytes n (x div 256) @ [word_of_nat (x mod 256)]"
  by (simp add: be_bytes_def)

lemma be_bytes_mono:
  assumes "x < y" "y < 256 ^ n"
  shows "be_bytes n x < be_bytes n y"
  using assms
proof (induction n arbitrary: x y)
  case 0
  then show ?case by simp
next
  case (Suc n)
  show ?case
  proof (cases "x div 256 = y div 256")
    case True
    then have less: "x mod 256 < y mod 256"
      using Suc.prems(1) by (metis add_less_cancel_left mult_div_mod_eq)
    have "(word_of_nat (x mod 256) :: byte) < word_of_nat (y mod 256)"
      unfolding word_less_nat_alt using less by simp
    then show ?thesis unfolding be_bytes_Suc True list_append_less_iff by simp
  next
    case False
    then have "x div 256 < y div 256" using Suc.prems(1) by (meson div_le_mono le_neq_implies_less less_imp_le)
    moreover have "y div 256 < 256 ^ n" using Suc.prems(2) by (simp add: div_less_iff_less_mult mult.commute)
    ultimately have "be_bytes n (x div 256) < be_bytes n (y div 256)" by (rule Suc.IH)
    then show ?thesis unfolding be_bytes_Suc by (rule list_less_append) simp
  qed
qed

lemma entry_key_mono: "i < j \<Longrightarrow> j < 2 ^ 64 \<Longrightarrow> entry_key i < entry_key j"
  unfolding entry_key_def list_append_less_iff by (rule be_bytes_mono) simp_all

lemma entry_key_inject: "i < 2 ^ 64 \<Longrightarrow> j < 2 ^ 64 \<Longrightarrow> entry_key i = entry_key j \<longleftrightarrow> i = j"
  using be_bytes_inject [of i 8 j] by (simp add: entry_key_def)

lemma entry_key_neq: "entry_key i \<noteq> key_hs" "entry_key i \<noteq> key_snap" "key_hs \<noteq> key_snap"
  by (simp_all add: entry_key_def entry_prefix_def key_hs_def key_snap_def)

lemma entry_key_range:
  "in_range entry_prefix (Some entry_end) (entry_key i)"
  "\<not> in_range entry_prefix (Some entry_end) key_hs" "\<not> in_range entry_prefix (Some entry_end) key_snap"
  by (simp_all add: in_range_def entry_key_def entry_prefix_def entry_end_def key_hs_def key_snap_def)

section \<open>What the database holds\<close>

definition entry_pairs :: "log_lib \<Rightarrow> Raft_Types.entry list \<Rightarrow> (bytes \<times> bytes) list" where
  "entry_pairs B es = map (\<lambda>e. (entry_key (e_index e), enc_log_entry B e)) es"

definition log_map :: "log_lib \<Rightarrow> hard_state option \<Rightarrow> snapshot option \<Rightarrow> Raft_Types.entry list \<Rightarrow> bytes \<rightharpoonup> bytes" where
  "log_map B h snap es =
     (map_of (entry_pairs B es))(key_hs := map_option (enc_hs B) h, key_snap := map_option (enc_snap_val B) snap)"

lemma entry_pairs_Nil [simp]: "entry_pairs B [] = []"
  by (simp add: entry_pairs_def)

text \<open>Consecutive indexes, from one on, that fit 64 bits.\<close>

definition contig :: "Raft_Types.entry list \<Rightarrow> bool" where
  "contig es \<longleftrightarrow> (\<forall>k < length es. e_index (es ! k) = e_index (hd es) + k \<and> 1 \<le> e_index (es ! k) \<and> e_index (es ! k) < 2 ^ 64)"

definition bounds :: "Raft_Types.entry list \<Rightarrow> index \<times> index" where
  "bounds es = (if es = [] then (0, 0) else (e_index (hd es), e_index (last es)))"

definition ls_holds :: "storage_lib \<Rightarrow> log_lib \<Rightarrow> (bytes \<times> bytes option) list \<Rightarrow> log_store \<Rightarrow> persisted \<Rightarrow> bool" where
  "ls_holds L B ops ls d \<longleftrightarrow>
     db_life L log_options ops (ls_db ls) \<and> contig (p_entries d) \<and>
     (ls_first_index ls, ls_last_index ls) = bounds (p_entries d) \<and>
     (\<exists>h. contents ops = log_map B h (p_snapshot d) (p_entries d) \<and>
        p_hard_state d = (case h of None \<Rightarrow> hard_state_default | Some x \<Rightarrow> x))"

lemma contig_index:
  assumes "contig es" "k < length es"
  shows "e_index (es ! k) = e_index (hd es) + k" "1 \<le> e_index (es ! k)" "e_index (es ! k) < 2 ^ 64"
  using assms unfolding contig_def by blast+

lemma contig_last: "contig es \<Longrightarrow> es \<noteq> [] \<Longrightarrow> e_index (last es) = e_index (hd es) + (length es - 1)"
  using contig_index(1) [of es "length es - 1"] by (simp add: last_conv_nth)

lemma contig_indexes:
  assumes "contig es" "es \<noteq> []"
  shows "e_index ` set es = {e_index (hd es)..e_index (last es)}"
proof -
  have "map e_index es = [e_index (hd es)..<e_index (hd es) + length es]"
    by (rule nth_equalityI) (simp_all add: contig_index(1) [OF assms(1)])
  then have "e_index ` set es = {e_index (hd es)..<e_index (hd es) + length es}" by (metis set_map set_upt)
  also have "\<dots> = {e_index (hd es)..e_index (hd es) + (length es - 1)}" using assms(2) by (cases es) auto
  finally show ?thesis unfolding contig_last [OF assms] .
qed

lemma contig_mem: "contig es \<Longrightarrow> e \<in> set es \<Longrightarrow> 1 \<le> e_index e \<and> e_index e < 2 ^ 64"
  using contig_index(2,3) by (metis in_set_conv_nth)

lemma contig_increasing: "contig es \<Longrightarrow> sorted_wrt (\<lambda>a b. e_index a < e_index b) es"
  by (auto simp: sorted_wrt_iff_nth_less contig_def)

lemma sorted_entry_pairs:
  assumes "contig es"
  shows "sorted_wrt (<) (map fst (entry_pairs B es))"
proof -
  have "entry_key (e_index (es ! i)) < entry_key (e_index (es ! j))" if "i < j" "j < length es" for i j
    using contig_index [OF assms, of i] contig_index [OF assms, of j] that by (intro entry_key_mono) simp_all
  then show ?thesis by (simp add: sorted_wrt_iff_nth_less entry_pairs_def)
qed

lemma map_of_entry_pairs:
  assumes "contig es"
  shows "map_of (entry_pairs B es) k = Some v \<longleftrightarrow> (k, v) \<in> set (entry_pairs B es)"
proof -
  have "distinct (map fst (entry_pairs B es))" using sorted_entry_pairs [OF assms] strict_sorted_iff by blast
  then show ?thesis by simp
qed

lemma entry_pairs_keys: "map_of (entry_pairs B es) key_hs = None" "map_of (entry_pairs B es) key_snap = None"
  by (auto simp: map_of_eq_None_iff entry_pairs_def image_iff entry_key_neq [symmetric])

lemma log_map_simps:
  "log_map B h snap es key_hs = map_option (enc_hs B) h"
  "log_map B h snap es key_snap = map_option (enc_snap_val B) snap"
  "k \<noteq> key_hs \<Longrightarrow> k \<noteq> key_snap \<Longrightarrow> log_map B h snap es k = map_of (entry_pairs B es) k"
  using entry_key_neq by (simp_all add: log_map_def)

lemma log_map_range:
  assumes "contig es"
  shows "{(k, v). in_range entry_prefix (Some entry_end) k \<and> log_map B h snap es k = Some v} = set (entry_pairs B es)"
proof -
  have "in_range entry_prefix (Some entry_end) k \<and> log_map B h snap es k = Some v \<longleftrightarrow> (k, v) \<in> set (entry_pairs B es)" for k v
  proof (cases "k = key_hs \<or> k = key_snap")
    case True
    then show ?thesis
      using entry_key_range entry_pairs_keys [of B es] map_of_entry_pairs [OF assms, of B k v] by auto
  next
    case False
    then show ?thesis
      using map_of_entry_pairs [OF assms, of B k v] log_map_simps(3) [of k B h snap es] entry_key_range(1)
      by (auto simp: entry_pairs_def)
  qed
  then show ?thesis by auto
qed

section \<open>Reading back\<close>

lemma decode_entry_pairs: "log_lib_ok B \<Longrightarrow> decode_entries B (entry_pairs B es) = Inr es"
  by (induction es) (simp_all add: entry_pairs_def decoded_def log_lib_ok_def)

lemma scan_log:
  assumes life: "db_life L opts ops db" and man: "man_lib_ok (lib_man L)" and opts: "opts_ok opts"
    and len: "length ops \<le> usize_max" and m: "contents ops = log_map B h snap es" and c: "contig es"
  shows "db_scan L db entry_prefix (Some entry_end) usize_max = Inr (entry_pairs B es)"
proof -
  have seq: "db_seq db = length ops" by (rule life_get(2) [OF life man opts])
  obtain pairs where p: "db_scan L db entry_prefix (Some entry_end) usize_max = Inr (take (max 1 usize_max) pairs)"
    "sorted_wrt (<) (map fst pairs)" "set pairs = set (entry_pairs B es)"
    using life_reads(3) [OF life man opts disjI1 [OF refl], of entry_prefix "Some entry_end" usize_max]
    unfolding seq db_scan_def m log_map_range [OF c] by blast
  have dist: "distinct (map fst pairs)" using p(2) strict_sorted_iff by blast
  have "pairs = entry_pairs B es"
  proof (rule sorted_pairs_unique [OF p(2) sorted_entry_pairs [OF c]])
    show "map_of pairs = map_of (entry_pairs B es)"
      using p(3) dist sorted_entry_pairs [OF c, of B] strict_sorted_iff map_of_inject_set by metis
  qed
  moreover have "length pairs \<le> usize_max"
  proof -
    have fin: "finite (dom (contents ops))" by (rule finite_subset [OF contents_dom]) simp
    have "length pairs = card (fst ` set pairs)" using dist distinct_card [of "map fst pairs"] by simp
    also have "fst ` set pairs \<subseteq> dom (contents ops)"
      unfolding p(3) m log_map_range [OF c, of B h snap, symmetric] by auto
    then have "card (fst ` set pairs) \<le> card (dom (contents ops))"
      by (rule card_mono [OF fin])
    also have "\<dots> \<le> length ops" by (rule contents_card)
    finally show ?thesis using len by simp
  qed
  ultimately show ?thesis using p(1) by simp
qed

lemma ls_read_holds:
  assumes holds: "ls_holds L B ops ls d" and lib: "log_lib_ok B" and man: "man_lib_ok (lib_man L)"
    and len: "length ops \<le> usize_max"
  shows "ls_read L B (ls_db ls) = Inr (ls, d)"
proof -
  have opts: "opts_ok log_options" by (simp add: opts_ok_def log_options_def default_options_def)
  obtain h where life: "db_life L log_options ops (ls_db ls)" and c: "contig (p_entries d)"
    and b: "(ls_first_index ls, ls_last_index ls) = bounds (p_entries d)"
    and m: "contents ops = log_map B h (p_snapshot d) (p_entries d)"
    and h: "p_hard_state d = (case h of None \<Rightarrow> hard_state_default | Some x \<Rightarrow> x)"
    using holds unfolding ls_holds_def by blast
  have get: "db_get L (ls_db ls) k = Inr (log_map B h (p_snapshot d) (p_entries d) k)" for k
    using life_get(1) [OF life man opts] m by simp
  show ?thesis
    unfolding ls_read_def get log_map_simps
    using scan_log [OF life man opts len m c] decode_entry_pairs [OF lib, of "p_entries d"] lib h b
    by (cases h; cases "p_snapshot d"; cases ls; cases d) (auto simp: decoded_def log_lib_ok_def bounds_def split: if_splits)
qed

section \<open>Writing\<close>

abbreviation upd :: "(bytes \<times> bytes option) list \<Rightarrow> (bytes \<rightharpoonup> bytes) \<Rightarrow> bytes \<rightharpoonup> bytes" where
  "upd ops m \<equiv> fold (\<lambda>(k, v) m. m(k := v)) ops m"

lemma upd_del_range: "upd (del_range a b) m = (\<lambda>k. if k \<in> entry_key ` {a..b} then None else m k)"
proof -
  have "upd (map (\<lambda>i. (entry_key i, None)) is) m = (\<lambda>k. if k \<in> entry_key ` set is then None else m k)" for "is" m
    by (induction "is" arbitrary: m) (auto simp: fun_eq_iff)
  then show ?thesis by (simp add: del_range_def atLeastLessThanSuc_atLeastAtMost del: upt_Suc)
qed

lemma upd_put_entries: "upd (put_entries B es) m = m ++ map_of (rev (entry_pairs B es))"
  unfolding put_entries_def entry_pairs_def
  by (induction es arbitrary: m) (auto simp: fun_eq_iff map_add_def split: option.splits)

lemma map_of_rev_pairs: "contig es \<Longrightarrow> map_of (rev (entry_pairs B es)) = map_of (entry_pairs B es)"
  using sorted_entry_pairs [of es B] strict_sorted_iff by (intro mem.map_of_rev_distinct) blast

text \<open>Deleting a range of keys leaves the entries outside it.\<close>

lemma map_of_filter_keys:
  assumes "\<forall>e \<in> set es. entry_key (e_index e) \<in> S \<longleftrightarrow> P e"
  shows "(\<lambda>k. if k \<in> S then None else map_of (entry_pairs B es) k) = map_of (entry_pairs B (filter (\<lambda>e. \<not> P e) es))"
  using assms
proof (induction es)
  case Nil
  then show ?case by (auto simp: entry_pairs_def fun_eq_iff)
next
  case (Cons e es)
  then have IH: "(if k \<in> S then None else map_of (entry_pairs B es) k) = map_of (entry_pairs B (filter (\<lambda>e. \<not> P e) es)) k" for k
    by (simp add: fun_eq_iff)
  have e: "entry_key (e_index e) \<in> S \<longleftrightarrow> P e" using Cons.prems by simp
  have pairs: "map_of (entry_pairs B (x # xs)) k =
      (if k = entry_key (e_index x) then Some (enc_log_entry B x) else map_of (entry_pairs B xs) k)" for x xs k
    by (simp add: entry_pairs_def)
  show ?case
  proof
    fix k
    show "(if k \<in> S then None else map_of (entry_pairs B (e # es)) k) = map_of (entry_pairs B (filter (\<lambda>e. \<not> P e) (e # es))) k"
      using e IH [of k] by (cases "P e") (auto simp: pairs)
  qed
qed

lemma map_of_deleted:
  assumes c: "contig es" and b: "b < 2 ^ 64"
  shows "(\<lambda>k. if k \<in> entry_key ` {a..b} then None else map_of (entry_pairs B es) k) =
    map_of (entry_pairs B (filter (\<lambda>e. \<not> (a \<le> e_index e \<and> e_index e \<le> b)) es))"
proof (rule map_of_filter_keys, rule ballI)
  fix e assume e: "e \<in> set es"
  have less: "e_index e < 2 ^ 64" using contig_mem [OF c e] by simp
  show "entry_key (e_index e) \<in> entry_key ` {a..b} \<longleftrightarrow> a \<le> e_index e \<and> e_index e \<le> b"
  proof
    assume "entry_key (e_index e) \<in> entry_key ` {a..b}"
    then obtain i where "entry_key (e_index e) = entry_key i" "a \<le> i" "i \<le> b" by auto
    then show "a \<le> e_index e \<and> e_index e \<le> b" using entry_key_inject [OF less, of i] b by simp
  qed auto
qed

lemma bounds_range:
  assumes "contig es" "es \<noteq> []"
  shows "fst (bounds es) = e_index (hd es)" "snd (bounds es) = e_index (last es)" "snd (bounds es) \<noteq> 0"
    "snd (bounds es) < 2 ^ 64" "e \<in> set es \<Longrightarrow> fst (bounds es) \<le> e_index e \<and> e_index e \<le> snd (bounds es)"
proof -
  have "last es \<in> set es" using assms(2) by simp
  from contig_mem [OF assms(1) this] show "snd (bounds es) \<noteq> 0" "snd (bounds es) < 2 ^ 64"
    using assms(2) by (simp_all add: bounds_def)
  show "fst (bounds es) = e_index (hd es)" "snd (bounds es) = e_index (last es)" using assms(2) by (simp_all add: bounds_def)
  show "fst (bounds es) \<le> e_index e \<and> e_index e \<le> snd (bounds es)" if "e \<in> set es"
    using contig_indexes [OF assms] that assms(2) by (auto simp: bounds_def)
qed

text \<open>A snapshot replaces the entries.\<close>

lemma snap_part_map:
  assumes c: "contig es"
  shows "upd (fst (snap_part B (Some s) (bounds es))) (log_map B h snap es) = log_map B h (Some s) []"
    and "snd (snap_part B (Some s) (bounds es)) = bounds []"
proof -
  show "snd (snap_part B (Some s) (bounds es)) = bounds []" by (simp add: snap_part_def bounds_def)
  show "upd (fst (snap_part B (Some s) (bounds es))) (log_map B h snap es) = log_map B h (Some s) []"
  proof (cases "es = []")
    case True
    then show ?thesis by (simp add: snap_part_def bounds_def log_map_def)
  next
    case False
    note b = bounds_range [OF c False]
    have "filter (\<lambda>e. \<not> (fst (bounds es) \<le> e_index e \<and> e_index e \<le> snd (bounds es))) es = []"
      using b(5) by (auto simp: filter_empty_conv)
    note del = map_of_deleted [OF c b(4), of "fst (bounds es)" B, unfolded this]
    have "k \<notin> entry_key ` {fst (bounds es)..snd (bounds es)}" if "k = key_hs \<or> k = key_snap" for k
      using that entry_key_neq by (auto simp: image_iff)
    moreover have "map_of (entry_pairs B es) k = None" if "k \<notin> entry_key ` {fst (bounds es)..snd (bounds es)}" for k
      using fun_cong [OF del, of k] that by simp
    ultimately show ?thesis
      using b(3) by (auto simp: snap_part_def upd_del_range log_map_def fun_eq_iff)
  qed
qed

text \<open>Contiguous new entries replace the entries from their first index on.\<close>

lemma filter_below:
  assumes "contig es" "es \<noteq> []"
  shows "filter (\<lambda>e. \<not> (i \<le> e_index e \<and> e_index e \<le> snd (bounds es))) es = takeWhile (\<lambda>e. e_index e < i) es"
proof -
  have "filter (\<lambda>e. \<not> (i \<le> e_index e \<and> e_index e \<le> snd (bounds es))) es = filter (\<lambda>e. e_index e < i) es"
    using bounds_range(5) [OF assms] by (intro filter_cong) auto
  also have "\<dots> = takeWhile (\<lambda>e. e_index e < i) es"
    using contig_increasing [OF assms(1)]
  proof (induction es)
    case (Cons e es)
    have "filter (\<lambda>e. e_index e < i) es = []" if "\<not> e_index e < i"
      using Cons.prems that by (auto simp: filter_empty_conv)
    then show ?case using Cons by auto
  qed simp
  finally show ?thesis .
qed

lemma map_of_pairs_append: "map_of (entry_pairs B (xs @ ys)) = map_of (entry_pairs B ys) ++ map_of (entry_pairs B xs)"
  by (simp add: entry_pairs_def)

lemma map_of_pairs_disjoint:
  assumes "\<forall>a \<in> set xs. \<forall>b \<in> set ys. e_index a \<noteq> e_index b" "\<forall>e \<in> set xs \<union> set ys. e_index e < 2 ^ 64"
  shows "map_of (entry_pairs B xs) ++ map_of (entry_pairs B ys) = map_of (entry_pairs B (xs @ ys))"
proof -
  have "entry_key (e_index a) \<noteq> entry_key (e_index b)" if "a \<in> set xs" "b \<in> set ys" for a b
    using assms that entry_key_inject [of "e_index a" "e_index b"] by blast
  then have "dom (map_of (entry_pairs B xs)) \<inter> dom (map_of (entry_pairs B ys)) = {}"
    by (auto simp: dom_map_of_conv_image_fst entry_pairs_def)
  then show ?thesis unfolding map_of_pairs_append by (rule map_add_comm)
qed

text \<open>New entries that do not leave a gap after the old ones.\<close>

definition joins :: "Raft_Types.entry list \<Rightarrow> Raft_Types.entry list \<Rightarrow> bool" where
  "joins es new \<longleftrightarrow> contig new \<and> (new \<noteq> [] \<longrightarrow> es \<noteq> [] \<longrightarrow> e_index (hd new) \<le> Suc (e_index (last es)))"

abbreviation replaced :: "Raft_Types.entry list \<Rightarrow> Raft_Types.entry list \<Rightarrow> Raft_Types.entry list" where
  "replaced es new \<equiv> takeWhile (\<lambda>e. e_index e < e_index (hd new)) es @ new"

lemma takeWhile_below:
  assumes "contig es"
  shows "takeWhile (\<lambda>e. e_index e < i) es = take (i - e_index (hd es)) es"
  using takeWhile_contiguous [of es "e_index (hd es)" i] contig_index(1) [OF assms] by blast

lemma replaced_contig:
  assumes c: "contig es" and j: "joins es new" and ne: "new \<noteq> []"
  shows "contig (replaced es new)"
    "bounds (replaced es new) =
      (if fst (bounds es) = 0 \<or> e_index (hd new) < fst (bounds es) then e_index (hd new) else fst (bounds es), e_index (last new))"
proof -
  let ?p = "e_index (hd new) - e_index (hd es)" and ?i = "e_index (hd new)"
  have new: "contig new" using j by (simp add: joins_def)
  have i: "1 \<le> ?i" "?i < 2 ^ 64" using contig_mem [OF new] ne by simp_all
  have t: "takeWhile (\<lambda>e. e_index e < ?i) es = take ?p es" by (rule takeWhile_below [OF c])
  consider (drop) "es = [] \<or> ?i \<le> e_index (hd es)" | (keep) "es \<noteq> []" "e_index (hd es) < ?i" by fastforce
  then show "contig (replaced es new)"
    "bounds (replaced es new) =
      (if fst (bounds es) = 0 \<or> ?i < fst (bounds es) then ?i else fst (bounds es), e_index (last new))"
  proof (atomize (full), cases)
    case drop
    then have "replaced es new = new" using t by auto
    moreover have "?i = e_index (hd es)" if "es \<noteq> []" "\<not> ?i < e_index (hd es)" using drop that by auto
    ultimately show "contig (replaced es new) \<and> bounds (replaced es new) =
      (if fst (bounds es) = 0 \<or> ?i < fst (bounds es) then ?i else fst (bounds es), e_index (last new))"
      using new ne by (auto simp: bounds_def)
  next
    case keep
    have le: "?i \<le> Suc (e_index (hd es) + (length es - 1))"
      using j ne keep(1) contig_last [OF c keep(1)] by (simp add: joins_def)
    then have p: "?p \<le> length es" "1 \<le> ?p" using keep by (cases es; simp)+
    have len: "length (take ?p es) = ?p" using p(1) by simp
    have hd: "hd (take ?p es @ new) = hd es" using p keep(1) by (cases es) (auto simp: take_Cons')
    have idx: "e_index ((take ?p es @ new) ! k) = e_index (hd es) + k \<and> 1 \<le> e_index ((take ?p es @ new) ! k) \<and>
        e_index ((take ?p es @ new) ! k) < 2 ^ 64" if k: "k < length (take ?p es @ new)" for k
    proof (cases "k < ?p")
      case True
      then show ?thesis using contig_index [OF c, of k] p(1) len by (simp add: nth_append)
    next
      case False
      then have "k - ?p < length new" using k len by simp
      then show ?thesis using contig_index [OF new, of "k - ?p"] False len keep(2) by (simp add: nth_append)
    qed
    have "contig (take ?p es @ new)" unfolding contig_def hd using idx by blast
    moreover have "bounds (take ?p es @ new) = (e_index (hd es), e_index (last new))"
      using ne hd by (simp add: bounds_def)
    moreover have "e_index (hd es) \<noteq> 0" using contig_mem [OF c, of "hd es"] keep(1) by simp
    ultimately show "contig (replaced es new) \<and> bounds (replaced es new) =
      (if fst (bounds es) = 0 \<or> ?i < fst (bounds es) then ?i else fst (bounds es), e_index (last new))"
      unfolding t using keep by (simp add: bounds_def)
  qed
qed

lemma append_part_map:
  assumes c: "contig es" and j: "joins es new" and ne: "new \<noteq> []"
  shows "upd (fst (append_part B new (bounds es))) (log_map B h snap es) = log_map B h snap (replaced es new)"
    and "snd (append_part B new (bounds es)) = bounds (replaced es new)"
proof -
  let ?i = "e_index (hd new)"
  have new: "contig new" using j by (simp add: joins_def)
  have app: "append_part B new (bounds es) =
      ((if snd (bounds es) \<noteq> 0 \<and> ?i \<le> snd (bounds es) then del_range ?i (snd (bounds es)) else []) @ put_entries B new,
       if fst (bounds es) = 0 \<or> ?i < fst (bounds es) then ?i else fst (bounds es), e_index (last new))"
    using ne by (cases new) (simp_all add: append_part_def Let_def)
  show "snd (append_part B new (bounds es)) = bounds (replaced es new)"
    unfolding app replaced_contig(2) [OF assms] by simp
  define dels where "dels = (if snd (bounds es) \<noteq> 0 \<and> ?i \<le> snd (bounds es) then del_range ?i (snd (bounds es)) else [])"
  have special: "key_hs \<notin> entry_key ` S" "key_snap \<notin> entry_key ` S" for S
    by (auto simp: image_iff entry_key_neq [symmetric])
  have del: "upd dels (log_map B h snap es) = log_map B h snap (takeWhile (\<lambda>e. e_index e < ?i) es)"
  proof (cases "es \<noteq> [] \<and> ?i \<le> snd (bounds es)")
    case True
    then have ne': "es \<noteq> []" by simp
    note b = bounds_range [OF c ne']
    have "map_of (entry_pairs B (takeWhile (\<lambda>e. e_index e < ?i) es)) k =
        (if k \<in> entry_key ` {?i..snd (bounds es)} then None else map_of (entry_pairs B es) k)" for k
      using fun_cong [OF map_of_deleted [OF c b(4), of ?i B, unfolded filter_below [OF c ne']], of k] by simp
    then show ?thesis
      using True b(3) special by (auto simp: dels_def upd_del_range log_map_def fun_eq_iff)
  next
    case False
    have "e_index e < ?i" if e: "e \<in> set es" for e
    proof -
      have "es \<noteq> []" using e by auto
      then show ?thesis using False bounds_range(5) [OF c _ e] by simp
    qed
    then have tw: "takeWhile (\<lambda>e. e_index e < ?i) es = es" by (simp add: takeWhile_eq_all_conv)
    have "dels = []" using False by (auto simp: dels_def bounds_def)
    then show ?thesis unfolding tw by simp
  qed
  have small: "\<forall>e \<in> set (takeWhile (\<lambda>e. e_index e < ?i) es) \<union> set new. e_index e < 2 ^ 64"
    using contig_mem [OF c] contig_mem [OF new] by (auto dest: set_takeWhileD)
  have disj: "\<forall>a \<in> set (takeWhile (\<lambda>e. e_index e < ?i) es). \<forall>b \<in> set new. e_index a \<noteq> e_index b"
  proof (intro ballI)
    fix a b assume a: "a \<in> set (takeWhile (\<lambda>e. e_index e < ?i) es)" and "b \<in> set new"
    then have "e_index b \<in> {?i..e_index (last new)}" using contig_indexes [OF new ne] by blast
    then show "e_index a \<noteq> e_index b" using set_takeWhileD [OF a] by simp
  qed
  have none: "map_of (entry_pairs B new) key_hs = None" "map_of (entry_pairs B new) key_snap = None"
    by (rule entry_pairs_keys)+
  have "upd (put_entries B new) (log_map B h snap (takeWhile (\<lambda>e. e_index e < ?i) es)) = log_map B h snap (replaced es new)"
    unfolding upd_put_entries map_of_rev_pairs [OF new] log_map_def map_of_pairs_disjoint [OF disj small, symmetric]
    using none by (auto simp: fun_eq_iff map_add_def split: option.splits)
  then show "upd (fst (append_part B new (bounds es))) (log_map B h snap es) = log_map B h snap (replaced es new)"
    unfolding app using del by (simp add: dels_def)
qed

text \<open>A local snapshot drops the entries it covers.\<close>

lemma compact_ops_map:
  assumes c: "contig es"
  shows "upd (fst (compact_ops B s (bounds es))) (log_map B h snap es) =
      log_map B h (Some s) (filter (\<lambda>e. s_last_index s < e_index e) es)"
    and "snd (compact_ops B s (bounds es)) = bounds (filter (\<lambda>e. s_last_index s < e_index e) es)"
    and "contig (filter (\<lambda>e. s_last_index s < e_index e) es)"
proof -
  let ?n = "s_last_index s" and ?keep = "filter (\<lambda>e. s_last_index s < e_index e) es"
  have drop: "?keep = drop (Suc ?n - e_index (hd es)) es"
  proof -
    have "?keep = dropWhile (\<lambda>e. e_index e < Suc ?n) es"
      using contig_increasing [OF c]
    proof (induction es)
      case (Cons e es)
      have "filter (\<lambda>e. ?n < e_index e) es = es" if "?n < e_index e"
        using Cons.prems that by (auto simp: filter_id_conv)
      then show ?case using Cons by auto
    qed simp
    then show ?thesis unfolding dropWhile_eq_drop takeWhile_below [OF c] by (cases "Suc ?n - e_index (hd es) \<le> length es") simp_all
  qed
  define p where "p = Suc ?n - e_index (hd es)"
  have keep: "?keep = drop p es" unfolding drop p_def ..
  have hd: "e_index (hd ?keep) = e_index (hd es) + p" if "p < length es"
    unfolding keep using contig_index(1) [OF c that] that by (simp add: hd_drop_conv_nth)
  show "contig ?keep"
    unfolding contig_def
  proof (intro allI impI)
    fix k assume k: "k < length ?keep"
    then have p: "p < length es" and i: "p + k < length es" unfolding keep by simp_all
    have "?keep ! k = es ! (p + k)" unfolding keep using p by simp
    then show "e_index (?keep ! k) = e_index (hd ?keep) + k \<and> 1 \<le> e_index (?keep ! k) \<and> e_index (?keep ! k) < 2 ^ 64"
      using contig_index [OF c i] hd [OF p] by simp
  qed
  have none: "compact_ops B s (bounds es) = ([(key_snap, Some (enc_snap_val B s))], bounds es)"
    if "\<not> (es \<noteq> [] \<and> fst (bounds es) \<le> ?n)"
  proof (cases "es = []")
    case True
    then show ?thesis by (simp add: compact_ops_def bounds_def)
  next
    case False
    then show ?thesis using that by (simp add: compact_ops_def Let_def)
  qed
  show "snd (compact_ops B s (bounds es)) = bounds ?keep"
  proof (cases "es \<noteq> [] \<and> fst (bounds es) \<le> ?n")
    case False
    then have "?keep = es"
      using bounds_range(5) [OF c] by (cases "es = []") (fastforce simp: filter_id_conv)+
    then show ?thesis using none [OF False] by simp
  next
    case True
    then have ne: "es \<noteq> []" by simp
    note b = bounds_range [OF c ne]
    show ?thesis
    proof (cases "snd (bounds es) \<le> ?n")
      case all: True
      then have "?keep = []" using b(5) by (fastforce simp: filter_empty_conv)
      moreover have "bounds [] = (0, 0)" by (simp add: bounds_def)
      ultimately show ?thesis using True b(3) all by (simp add: compact_ops_def Let_def)
    next
      case some: False
      have "0 < length es" using ne by simp
      then have p: "p < length es" using some True contig_last [OF c ne] b(1,2) unfolding p_def by linarith
      then have "?keep \<noteq> []" "last ?keep = last es" unfolding keep by simp_all
      moreover have "e_index (hd ?keep) = Suc ?n" using hd [OF p] True b(1) by (simp add: p_def)
      ultimately have "bounds ?keep = (Suc ?n, e_index (last es))" by (simp add: bounds_def)
      then show ?thesis using True some b(2,3) by (simp add: compact_ops_def Let_def)
    qed
  qed
  have special: "key_hs \<notin> entry_key ` S" "key_snap \<notin> entry_key ` S" for S
    by (auto simp: image_iff entry_key_neq [symmetric])
  show "upd (fst (compact_ops B s (bounds es))) (log_map B h snap es) = log_map B h (Some s) ?keep"
  proof (cases "es \<noteq> [] \<and> fst (bounds es) \<le> ?n")
    case False
    then have "?keep = es"
      using bounds_range(5) [OF c] by (cases "es = []") (fastforce simp: filter_id_conv)+
    then show ?thesis using none [OF False] by (simp add: log_map_def)
  next
    case True
    then have ne: "es \<noteq> []" by simp
    note b = bounds_range [OF c ne]
    let ?hi = "min ?n (snd (bounds es))"
    have "filter (\<lambda>e. \<not> (fst (bounds es) \<le> e_index e \<and> e_index e \<le> ?hi)) es = ?keep"
      using b(5) by (intro filter_cong) auto
    then have "map_of (entry_pairs B ?keep) k = (if k \<in> entry_key ` {fst (bounds es)..?hi} then None else map_of (entry_pairs B es) k)" for k
      using fun_cong [OF map_of_deleted [OF c, of ?hi "fst (bounds es)" B], of k] b(4) by simp
    then show ?thesis
      using True b(3) special by (auto simp: compact_ops_def Let_def upd_del_range log_map_def fun_eq_iff)
  qed
qed

section \<open>The store implements the simulated disk\<close>

lemma fold_disk_append_above:
  assumes "sorted_wrt (\<lambda>a b. e_index a < e_index b) (xs @ new)"
  shows "fold disk_append new xs = xs @ new"
  using assms
proof (induction new arbitrary: xs)
  case (Cons e new)
  have "takeWhile (\<lambda>x. e_index x < e_index e) xs = xs"
    using Cons.prems by (auto simp: sorted_wrt_append takeWhile_eq_all_conv)
  then have "disk_append e xs = xs @ [e]" unfolding disk_append_def by (simp only:)
  then show ?case using Cons.IH [of "xs @ [e]"] Cons.prems by simp
qed simp

lemma fold_disk_append_replaced:
  assumes c: "contig es" and j: "joins es new" and ne: "new \<noteq> []"
  shows "fold disk_append new es = replaced es new"
proof -
  obtain e rest where new: "new = e # rest" using ne by (cases new) auto
  have "sorted_wrt (\<lambda>a b. e_index a < e_index b) (replaced es new)"
    by (rule contig_increasing [OF replaced_contig(1) [OF assms]])
  then have "fold disk_append rest (takeWhile (\<lambda>x. e_index x < e_index e) es @ [e]) = replaced es new"
    using fold_disk_append_above [of "takeWhile (\<lambda>x. e_index x < e_index e) es @ [e]" rest] new by simp
  then show ?thesis by (simp add: new disk_append_def)
qed

text \<open>The writes of one output, and the condition under which they implement it.\<close>

abbreviation output_ops :: "log_lib \<Rightarrow> raft_output \<Rightarrow> log_store \<Rightarrow> (bytes \<times> bytes option) list" where
  "output_ops B o' ls \<equiv> fst (persist_ops B (o_hard_state o') (o_append o') (o_snapshot o') (ls_first_index ls, ls_last_index ls))"

definition output_joins :: "raft_output \<Rightarrow> persisted \<Rightarrow> bool" where
  "output_joins o' d \<longleftrightarrow> joins (case o_snapshot o' of None \<Rightarrow> p_entries d | Some _ \<Rightarrow> []) (o_append o')"

lemma persist_ops_map:
  assumes c: "contig (p_entries d)" and j: "output_joins o' d"
    and m: "m = log_map B h (p_snapshot d) (p_entries d)" "p_hard_state d = (case h of None \<Rightarrow> hard_state_default | Some x \<Rightarrow> x)"
  defines "r \<equiv> persist_ops B (o_hard_state o') (o_append o') (o_snapshot o') (bounds (p_entries d))"
    and "d' \<equiv> persist_output o' d"
  shows "contig (p_entries d')" "snd r = bounds (p_entries d')"
    "\<exists>h'. upd (fst r) m = log_map B h' (p_snapshot d') (p_entries d') \<and>
       p_hard_state d' = (case h' of None \<Rightarrow> hard_state_default | Some x \<Rightarrow> x)"
proof -
  define es1 where "es1 = (case o_snapshot o' of None \<Rightarrow> p_entries d | Some _ \<Rightarrow> [])"
  define snap1 where "snap1 = (case o_snapshot o' of None \<Rightarrow> p_snapshot d | Some s \<Rightarrow> Some s)"
  define h1 where "h1 = (case o_hard_state o' of None \<Rightarrow> h | Some x \<Rightarrow> Some x)"
  define ops0 where "ops0 = (case o_hard_state o' of None \<Rightarrow> [] | Some h \<Rightarrow> [(key_hs, Some (enc_hs B h))])"
  have ne: "key_hs \<noteq> key_snap" by (rule entry_key_neq)
  have "contig []" by (simp add: contig_def)
  then have c1: "contig es1" using c by (cases "o_snapshot o'") (simp_all add: es1_def)
  have j1: "joins es1 (o_append o')" using j by (simp add: output_joins_def es1_def)
  have m0: "upd ops0 m = log_map B h1 (p_snapshot d) (p_entries d)"
    using ne by (auto simp: ops0_def h1_def m(1) log_map_def fun_upd_twist split: option.splits)
  have m1: "upd (fst (snap_part B (o_snapshot o') (bounds (p_entries d)))) (log_map B h1 (p_snapshot d) (p_entries d)) =
      log_map B h1 snap1 es1" and b1: "snd (snap_part B (o_snapshot o') (bounds (p_entries d))) = bounds es1"
    using snap_part_map [OF c] by (auto simp: es1_def snap1_def snap_part_def split: option.splits)
  define es2 where "es2 = (if o_append o' = [] then es1 else replaced es1 (o_append o'))"
  have m2: "upd (fst (append_part B (o_append o') (bounds es1))) (log_map B h1 snap1 es1) = log_map B h1 snap1 es2"
    and b2: "snd (append_part B (o_append o') (bounds es1)) = bounds es2" and c2: "contig es2"
    using append_part_map [OF c1 j1] replaced_contig(1) [OF c1 j1] c1
    by (auto simp: es2_def append_part_def split: list.splits)
  have r: "r = (ops0 @ fst (snap_part B (o_snapshot o') (bounds (p_entries d))) @ fst (append_part B (o_append o') (bounds es1)),
      bounds es2)"
    using b1 b2 by (simp add: r_def persist_ops_def ops0_def Let_def split_beta)
  have d': "p_entries d' = es2" "p_snapshot d' = snap1" "p_hard_state d' = (case h1 of None \<Rightarrow> hard_state_default | Some x \<Rightarrow> x)"
    using fold_disk_append_replaced [OF c1 j1] m(2)
    by (auto simp: d'_def persist_output_def es2_def es1_def snap1_def h1_def Let_def split: option.splits)
  show "contig (p_entries d')" "snd r = bounds (p_entries d')" using c2 d'(1) r by simp_all
  have "upd (fst r) m = log_map B h1 snap1 es2" using m0 m1 m2 r by simp
  then show "\<exists>h'. upd (fst r) m = log_map B h' (p_snapshot d') (p_entries d') \<and>
      p_hard_state d' = (case h' of None \<Rightarrow> hard_state_default | Some x \<Rightarrow> x)"
    using d' by auto
qed

lemma log_opts_ok: "opts_ok log_options"
  by (simp add: opts_ok_def log_options_def default_options_def)

lemma ls_persist_holds:
  assumes holds: "ls_holds L B ops ls d" and man: "man_lib_ok (lib_man L)" and j: "output_joins o' d"
    and fits: "history_fits L log_options (ops @ output_ops B o' ls)"
    and batch: "output_ops B o' ls \<noteq> [] \<longrightarrow> batch_ok L ops (output_ops B o' ls)"
  shows "\<exists>ls'. ls_persist L B (o_hard_state o') (o_append o') (o_snapshot o') ls = Some (Inr ls') \<and>
     ls_holds L B (ops @ output_ops B o' ls) ls' (persist_output o' d)"
proof -
  obtain h where life: "db_life L log_options ops (ls_db ls)" and c: "contig (p_entries d)"
    and b: "(ls_first_index ls, ls_last_index ls) = bounds (p_entries d)"
    and m: "contents ops = log_map B h (p_snapshot d) (p_entries d)"
      "p_hard_state d = (case h of None \<Rightarrow> hard_state_default | Some x \<Rightarrow> x)"
    using holds unfolding ls_holds_def by blast
  note p = persist_ops_map [OF c j m, folded b]
  let ?new = "output_ops B o' ls"
  let ?fl = "snd (persist_ops B (o_hard_state o') (o_append o') (o_snapshot o') (ls_first_index ls, ls_last_index ls))"
  obtain db' where db': "write_batch L ?new (ls_db ls) = Some (Inr db')" "db_life L log_options (ops @ ?new) db'"
    using life_write [OF life man log_opts_ok fits batch] by blast
  have empty: "db' = ls_db ls" if "?new = []" using db'(1) that by (simp add: write_batch_def)
  let ?ls = "\<lparr>ls_db = db', ls_first_index = fst ?fl, ls_last_index = snd ?fl\<rparr>"
  have "ls_persist L B (o_hard_state o') (o_append o') (o_snapshot o') ls = Some (Inr ?ls)"
    using db'(1) empty by (cases ls) (auto simp: ls_persist_def Let_def split_beta)
  moreover have "ls_holds L B (ops @ ?new) ?ls (persist_output o' d)"
    unfolding ls_holds_def contents_append using db'(2) p by simp
  ultimately show ?thesis by blast
qed

lemma ls_compact_holds:
  fixes s :: snapshot
  assumes holds: "ls_holds L B ops ls d" and man: "man_lib_ok (lib_man L)"
  defines "new \<equiv> fst (compact_ops B s (ls_first_index ls, ls_last_index ls))"
  assumes fits: "history_fits L log_options (ops @ new)" and batch: "batch_ok L ops new"
  shows "\<exists>ls'. ls_compact_to L B s ls = Some (Inr ls') \<and> ls_holds L B (ops @ new) ls' (disk_compact s d)"
proof -
  obtain h where life: "db_life L log_options ops (ls_db ls)" and c: "contig (p_entries d)"
    and b: "(ls_first_index ls, ls_last_index ls) = bounds (p_entries d)"
    and m: "contents ops = log_map B h (p_snapshot d) (p_entries d)"
      "p_hard_state d = (case h of None \<Rightarrow> hard_state_default | Some x \<Rightarrow> x)"
    using holds unfolding ls_holds_def by blast
  note p = compact_ops_map(1) [OF c, of B s h "p_snapshot d", folded b] compact_ops_map(2) [OF c, of B s, folded b]
    compact_ops_map(3) [OF c, of s]
  obtain db' where db': "write_batch L new (ls_db ls) = Some (Inr db')" "db_life L log_options (ops @ new) db'"
    using life_write [OF life man log_opts_ok fits] batch by blast
  let ?fl = "snd (compact_ops B s (ls_first_index ls, ls_last_index ls))"
  let ?ls = "\<lparr>ls_db = db', ls_first_index = fst ?fl, ls_last_index = snd ?fl\<rparr>"
  have "ls_compact_to L B s ls = Some (Inr ?ls)"
    using db'(1) by (simp add: ls_compact_to_def Let_def split_beta new_def)
  moreover have "ls_holds L B (ops @ new) ?ls (disk_compact s d)"
    unfolding ls_holds_def contents_append m(1)
    using db'(2) p m(2)
    by (intro conjI exI [of _ h]) (simp_all add: disk_compact_def new_def)
  ultimately show ?thesis by blast
qed

section \<open>Runs of the store\<close>

datatype ls_event = LsPersist raft_output | LsCompact snapshot

fun disk_step :: "ls_event \<Rightarrow> persisted \<Rightarrow> persisted" where
  "disk_step (LsPersist o') d = persist_output o' d"
| "disk_step (LsCompact s) d = disk_compact s d"

fun ls_step :: "storage_lib \<Rightarrow> log_lib \<Rightarrow> ls_event \<Rightarrow> log_store \<Rightarrow> log_store storage_result option" where
  "ls_step L B (LsPersist o') ls = ls_persist L B (o_hard_state o') (o_append o') (o_snapshot o') ls"
| "ls_step L B (LsCompact s) ls = ls_compact_to L B s ls"

fun ls_run :: "storage_lib \<Rightarrow> log_lib \<Rightarrow> ls_event list \<Rightarrow> log_store \<Rightarrow> log_store storage_result option" where
  "ls_run L B [] ls = Some (Inr ls)"
| "ls_run L B (e # es) ls =
     (case ls_step L B e ls of
        None \<Rightarrow> None
      | Some (Inl err) \<Rightarrow> Some (Inl err)
      | Some (Inr ls') \<Rightarrow> ls_run L B es ls')"

fun step_writes :: "log_lib \<Rightarrow> ls_event \<Rightarrow> log_store \<Rightarrow> (bytes \<times> bytes option) list" where
  "step_writes B (LsPersist o') ls = output_ops B o' ls"
| "step_writes B (LsCompact s) ls = fst (compact_ops B s (ls_first_index ls, ls_last_index ls))"

text \<open>The events join the log and their batches fit the formats of the storage engine.\<close>

fun events_fit :: "storage_lib \<Rightarrow> log_lib \<Rightarrow> (bytes \<times> bytes option) list \<Rightarrow> log_store \<Rightarrow> persisted \<Rightarrow> ls_event list \<Rightarrow> bool" where
  "events_fit L B ops ls d [] \<longleftrightarrow> length ops \<le> usize_max"
| "events_fit L B ops ls d (e # es) \<longleftrightarrow>
     (case e of LsPersist o' \<Rightarrow> output_joins o' d | LsCompact _ \<Rightarrow> True) \<and>
     history_fits L log_options (ops @ step_writes B e ls) \<and>
     (step_writes B e ls \<noteq> [] \<longrightarrow> batch_ok L ops (step_writes B e ls)) \<and>
     (case ls_step L B e ls of
        Some (Inr ls') \<Rightarrow> events_fit L B (ops @ step_writes B e ls) ls' (disk_step e d) es
      | _ \<Rightarrow> True)"

lemma ls_step_holds:
  assumes "ls_holds L B ops ls d" "man_lib_ok (lib_man L)"
    "case e of LsPersist o' \<Rightarrow> output_joins o' d | LsCompact _ \<Rightarrow> True"
    "history_fits L log_options (ops @ step_writes B e ls)"
    "step_writes B e ls \<noteq> [] \<longrightarrow> batch_ok L ops (step_writes B e ls)"
  shows "\<exists>ls'. ls_step L B e ls = Some (Inr ls') \<and> ls_holds L B (ops @ step_writes B e ls) ls' (disk_step e d)"
proof (cases e)
  case (LsPersist o')
  then show ?thesis using ls_persist_holds [of L B ops ls d o'] assms by simp
next
  case (LsCompact s)
  have "step_writes B e ls \<noteq> []" by (simp add: LsCompact compact_ops_def Let_def)
  then show ?thesis using ls_compact_holds [of L B ops ls d s] assms LsCompact by simp
qed

lemma ls_run_holds:
  assumes "ls_holds L B ops ls d" and man: "man_lib_ok (lib_man L)" and "events_fit L B ops ls d es"
  shows "\<exists>ls' ops'. ls_run L B es ls = Some (Inr ls') \<and> ls_holds L B ops' ls' (fold disk_step es d) \<and>
     length ops' \<le> usize_max"
  using assms(1,3)
proof (induction es arbitrary: ops ls d)
  case Nil
  then show ?case by auto
next
  case (Cons e es)
  obtain ls' where ls': "ls_step L B e ls = Some (Inr ls')" "ls_holds L B (ops @ step_writes B e ls) ls' (disk_step e d)"
    using ls_step_holds [OF Cons.prems(1) man] Cons.prems(2) by auto
  then have "events_fit L B (ops @ step_writes B e ls) ls' (disk_step e d) es" using Cons.prems(2) by simp
  from Cons.IH [OF ls'(2) this] ls'(1) show ?case by simp
qed

lemma fresh_store:
  assumes life: "db_life L log_options [] db"
  shows "ls_holds L B [] \<lparr>ls_db = db, ls_first_index = 0, ls_last_index = 0\<rparr> persisted_default"
proof -
  have "contents [] = log_map B None None []" by (simp add: state_at_def log_map_def)
  then show ?thesis
    using life by (auto simp: ls_holds_def persisted_default_def contig_def bounds_def intro!: exI [of _ None])
qed

lemma ls_open_life:
  assumes "db_open L log_options dir = Some (Inr db)" "db_life L log_options ops db"
    and holds: "ls_holds L B ops ls d" and lib: "log_lib_ok B" and man: "man_lib_ok (lib_man L)" and len: "length ops \<le> usize_max"
  shows "ls_open L B dir = Some (Inr (ls\<lparr>ls_db := db\<rparr>, d)) \<and> ls_holds L B ops (ls\<lparr>ls_db := db\<rparr>) d"
proof -
  have "ls_holds L B ops (ls\<lparr>ls_db := db\<rparr>) d" using holds assms(2) by (simp add: ls_holds_def)
  with ls_read_holds [OF this lib man len] show ?thesis by (simp add: ls_open_def assms(1))
qed

lemma ls_open_empty:
  assumes lib: "log_lib_ok B" and man: "man_lib_ok (lib_man L)"
  shows "\<exists>db. db_life L log_options [] db \<and>
    ls_open L B empty_dir = Some (Inr (\<lparr>ls_db = db, ls_first_index = 0, ls_last_index = 0\<rparr>, persisted_default))"
proof -
  obtain db where db: "db_open L log_options empty_dir = Some (Inr db)" "db_life L log_options [] db"
    using life_create [OF man log_opts_ok] by blast
  from ls_open_life [OF db fresh_store [OF db(2)] lib man] db(2) show ?thesis by auto
qed

text \<open>Opening the files of a running store.\<close>

lemma ls_reopen:
  assumes holds: "ls_holds L B ops ls d" and lib: "log_lib_ok B" and man: "man_lib_ok (lib_man L)" and len: "length ops \<le> usize_max"
  shows "\<exists>db. ls_open L B (dir_of (ls_db ls)) = Some (Inr (ls\<lparr>ls_db := db\<rparr>, d))"
proof -
  have "db_life L log_options ops (ls_db ls)" using holds by (simp add: ls_holds_def)
  from life_dir_of [OF man log_opts_ok this] show ?thesis using ls_open_life [OF _ _ holds lib man len] by blast
qed

section \<open>A concrete serialisation\<close>

definition put_hard_state :: "hard_state \<Rightarrow> bytes" where
  "put_hard_state h = put_nat (hs_term h) @ put_nat (case hs_voted_for h of None \<Rightarrow> 0 | Some n \<Rightarrow> Suc n)"

definition get_hard_state :: "bytes \<Rightarrow> hard_state option" where
  "get_hard_state bs =
     Option.bind (get_nat bs) (\<lambda>(t, r). Option.bind (get_nat r) (\<lambda>(v, _).
       Some \<lparr>hs_term = t, hs_voted_for = (if v = 0 then None else Some (v - 1))\<rparr>))"

definition put_raft_snapshot :: "snapshot \<Rightarrow> bytes" where
  "put_raft_snapshot s =
     put_nat (s_last_index s) @ put_nat (s_last_term s) @ put_list put_nat (s_voters s) @ put_bytes (s_data s)"

definition get_raft_snapshot :: "bytes \<Rightarrow> snapshot option" where
  "get_raft_snapshot bs =
     Option.bind (get_nat bs) (\<lambda>(i, r). Option.bind (get_nat r) (\<lambda>(t, r).
       Option.bind (get_list get_nat r) (\<lambda>(vs, r). Option.bind (get_bytes r) (\<lambda>(d, _).
         Some \<lparr>s_last_index = i, s_last_term = t, s_voters = vs, s_data = d\<rparr>))))"

fun put_entry_payload :: "entry_payload \<Rightarrow> bytes" where
  "put_entry_payload Noop = [0]"
| "put_entry_payload (Normal d) = 1 # put_bytes d"
| "put_entry_payload (ConfChange (AddNode n)) = 2 # put_nat n"
| "put_entry_payload (ConfChange (RemoveNode n)) = 3 # put_nat n"

fun get_entry_payload :: "bytes \<Rightarrow> entry_payload option" where
  "get_entry_payload [] = None"
| "get_entry_payload (t # bs) =
     (if t = 0 then Some Noop
      else if t = 1 then map_option (\<lambda>(d, _). Normal d) (get_bytes bs)
      else map_option (\<lambda>(n, _). ConfChange (if t = 2 then AddNode n else RemoveNode n)) (get_nat bs))"

definition put_log_entry :: "Raft_Types.entry \<Rightarrow> bytes" where
  "put_log_entry e = put_nat (e_term e) @ put_nat (e_index e) @ put_entry_payload (e_payload e)"

definition get_log_entry :: "bytes \<Rightarrow> Raft_Types.entry option" where
  "get_log_entry bs =
     Option.bind (get_nat bs) (\<lambda>(t, r). Option.bind (get_nat r) (\<lambda>(i, r).
       map_option (\<lambda>p. \<lparr>e_term = t, e_index = i, e_payload = p\<rparr>) (get_entry_payload r)))"

definition plain_log_lib :: log_lib where
  "plain_log_lib =
     \<lparr>enc_hs = put_hard_state, dec_hs = get_hard_state, enc_snap_val = put_raft_snapshot,
      dec_snap_val = get_raft_snapshot, enc_log_entry = put_log_entry, dec_log_entry = get_log_entry\<rparr>"

lemma plain_log_lib_ok: "log_lib_ok plain_log_lib"
proof -
  have nat: "get_nat (put_nat n) = Some (n, [])" for n using get_put_nat [of n "[]"] by simp
  have bytes: "get_bytes (put_bytes d) = Some (d, [])" for d using get_put_bytes [of d "[]"] by simp
  have "get_hard_state (put_hard_state h) = Some h" for h
    by (cases h; cases "hs_voted_for h") (simp_all add: get_hard_state_def put_hard_state_def codec_simps nat)
  moreover have "get_raft_snapshot (put_raft_snapshot s) = Some s" for s
    by (simp add: get_raft_snapshot_def put_raft_snapshot_def codec_simps bytes get_put_list [of get_nat put_nat, OF get_put_nat])
  moreover have "get_entry_payload (put_entry_payload p) = Some p" for p
    by (cases p rule: put_entry_payload.cases) (simp_all add: bytes nat)
  then have "get_log_entry (put_log_entry e) = Some e" for e
    by (simp add: get_log_entry_def put_log_entry_def codec_simps)
  ultimately show ?thesis by (simp add: log_lib_ok_def plain_log_lib_def)
qed

lemma log_history_fits: "small_ops ops \<Longrightarrow> history_fits plain_storage_lib log_options ops"
  by (rule small_history_fits) (simp_all add: log_options_def default_options_def)

lemma log_batch_ok: "length ops < 10 \<Longrightarrow> small_ops new \<Longrightarrow> batch_ok plain_storage_lib ops new"
  unfolding batch_ok_def by (rule small_batch) simp_all

lemma fresh_log: "\<exists>db. db_life plain_storage_lib log_options [] db"
  using life_create [OF plain_man_lib_ok log_opts_ok] by blast

abbreviation noop :: "raft_term \<Rightarrow> index \<Rightarrow> Raft_Types.entry" where
  "noop t i \<equiv> \<lparr>e_term = t, e_index = i, e_payload = Noop\<rparr>"

lemma noop_put_small: "t \<le> 9 \<Longrightarrow> i \<le> 9 \<Longrightarrow>
  length (entry_key i) + value_len (Some (enc_log_entry plain_log_lib (noop t i))) \<le> 100"
  by (simp add: entry_key_def entry_prefix_def value_len_def plain_log_lib_def put_log_entry_def length_put)

section \<open>The contract of the log store\<close>

text \<open>C19: the server's log store implements the simulator's disk. Opened on an empty directory it is
  empty; then, through every sequence of persisted outputs and local compactions whose entries join
  the log and whose batches fit the formats (\<open>events_fit\<close>), each call returns, and \<open>LogStore::open\<close> on
  the files the store then has returns exactly the disk the simulator would have: the last hard state,
  the last snapshot, and the entries after truncation and compaction, in index order, with the bounds
  of the log as they were.\<close>

theorem logstore_refines_disk:
  assumes "log_lib_ok B" and "man_lib_ok (lib_man L)" and "ls_open L B empty_dir = Some (Inr (ls0, d0))"
    and "events_fit L B [] ls0 d0 es"
  shows "d0 = persisted_default \<and>
    (\<exists>ls ls'. ls_run L B es ls0 = Some (Inr ls) \<and>
       ls_open L B (dir_of (ls_db ls)) = Some (Inr (ls', fold disk_step es persisted_default)) \<and>
       ls_first_index ls' = ls_first_index ls \<and> ls_last_index ls' = ls_last_index ls)"
proof -
  obtain db where db: "db_life L log_options [] db"
    "ls0 = \<lparr>ls_db = db, ls_first_index = 0, ls_last_index = 0\<rparr>" "d0 = persisted_default"
    using ls_open_empty [OF assms(1,2)] assms(3) by auto
  obtain ls ops where ls: "ls_run L B es ls0 = Some (Inr ls)"
    "ls_holds L B ops ls (fold disk_step es persisted_default)" "length ops \<le> usize_max"
    using ls_run_holds [OF fresh_store [OF db(1)] assms(2)] assms(4) db(2,3) by blast
  from ls_reopen [OF ls(2) assms(1,2) ls(3)] ls(1) db(3) show ?thesis by force
qed

theorem logstore_refines_disk_witness:
  "\<exists>ls0 ls ls'. ls_open plain_storage_lib plain_log_lib empty_dir = Some (Inr (ls0, persisted_default)) \<and>
     ls_run plain_storage_lib plain_log_lib
       [LsPersist (output_default\<lparr>o_append := [\<lparr>e_term = 1, e_index = 1, e_payload = Noop\<rparr>]\<rparr>)] ls0 = Some (Inr ls) \<and>
     ls_open plain_storage_lib plain_log_lib (dir_of (ls_db ls)) =
       Some (Inr (ls', \<lparr>p_hard_state = hard_state_default, p_entries = [\<lparr>e_term = 1, e_index = 1, e_payload = Noop\<rparr>],
                        p_snapshot = None\<rparr>))"
proof -
  let ?L = plain_storage_lib and ?B = plain_log_lib and ?o = "output_default\<lparr>o_append := [noop 1 1]\<rparr>"
  obtain db where db: "ls_open ?L ?B empty_dir = Some (Inr (\<lparr>ls_db = db, ls_first_index = 0, ls_last_index = 0\<rparr>, persisted_default))"
    using ls_open_empty [OF plain_log_lib_ok plain_man_lib_ok] by blast
  let ?ls = "\<lparr>ls_db = db, ls_first_index = 0, ls_last_index = 0\<rparr>"
  have w: "output_ops ?B ?o ?ls = [(entry_key 1, Some (enc_log_entry ?B (noop 1 1)))]"
    by (simp add: persist_ops_def snap_part_def append_part_def put_entries_def output_default_def Let_def)
  have small: "small_ops (output_ops ?B ?o ?ls)"
    unfolding w using noop_put_small [of 1 1] by (simp add: small_ops_def)
  have j: "output_joins ?o persisted_default"
    by (simp add: output_joins_def joins_def contig_def output_default_def persisted_default_def)
  have "length (output_ops ?B ?o ?ls) \<le> usize_max" unfolding w by (simp add: usize_max_def)
  then have "events_fit ?L ?B [] ?ls persisted_default [LsPersist ?o]"
    using j log_history_fits [OF small] log_batch_ok [of "[]", OF _ small]
    by (simp split: option.splits sum.splits)
  from logstore_refines_disk [OF plain_log_lib_ok plain_man_lib_ok db this] db show ?thesis
    by (auto simp: persist_output_def persisted_default_def output_default_def disk_append_def)
qed

text \<open>C20: \<open>persist\<close> is atomic. When the process dies while the batch of one output, whose entries join
  the log (\<open>output_joins\<close>), is written to the log, \<open>LogStore::open\<close> afterwards returns either the state
  before the output, when the frame is torn, or the state after it: a vote, its term and the entries
  of one output are durable together.\<close>

theorem persist_crash_atomic:
  assumes "log_lib_ok B" and "man_lib_ok (lib_man L)" and "ls_holds L B ops ls d" and "output_joins o' d"
    and "history_fits L log_options (ops @ output_ops B o' ls)" and "output_ops B o' ls \<noteq> []"
    and "batch_ok L ops (output_ops B o' ls)" and "length (ops @ output_ops B o' ls) \<le> usize_max"
    and "crash_logging L (output_ops B o' ls) (ls_db ls) n dir"
  shows "\<exists>ls'. ls_open L B dir = Some (Inr (ls',
    if n < length (wal_frame (lib_wal L) \<lparr>wal_batch.first_seq = Suc (db_seq (ls_db ls)), wb_ops = output_ops B o' ls\<rparr>)
    then d else persist_output o' d))"
proof -
  let ?torn = "n < length (wal_frame (lib_wal L) \<lparr>wal_batch.first_seq = Suc (db_seq (ls_db ls)), wb_ops = output_ops B o' ls\<rparr>)"
  let ?new = "output_ops B o' ls"
  have life: "db_life L log_options ops (ls_db ls)" using assms(3) by (simp add: ls_holds_def)
  obtain ls1 where after: "ls_holds L B (ops @ ?new) ls1 (persist_output o' d)"
    using ls_persist_holds [OF assms(3,2,4,5)] assms(7) by blast
  obtain db1 where db1: "db_load L log_options dir = Inr db1" "db_life L log_options (if ?torn then ops else ops @ ?new) db1"
    using life_crash_logging [OF assms(2) log_opts_ok life assms(6,5,7,9)] by blast
  obtain db2 where db2: "db_open L log_options dir = Some (Inr db2)" "db_life L log_options (if ?torn then ops else ops @ ?new) db2"
    using life_open [OF db1 assms(2) log_opts_ok] by blast
  show ?thesis
  proof (cases ?torn)
    case True
    then have "db_life L log_options ops db2" using db2(2) by simp
    from ls_open_life [OF db2(1) this assms(3,1,2)] assms(8) True show ?thesis by auto
  next
    case False
    then have "db_life L log_options (ops @ ?new) db2" using db2(2) by simp
    from ls_open_life [OF db2(1) this after assms(1,2)] assms(8) False show ?thesis by auto
  qed
qed

theorem persist_crash_atomic_witness:
  "\<exists>db dir ls'. db_life plain_storage_lib log_options [] db \<and>
     crash_logging plain_storage_lib [(entry_key 1, Some (put_log_entry \<lparr>e_term = 1, e_index = 1, e_payload = Noop\<rparr>))]
       db 3 dir \<and>
     ls_open plain_storage_lib plain_log_lib dir = Some (Inr (ls', persisted_default))"
proof -
  let ?L = plain_storage_lib and ?B = plain_log_lib and ?o = "output_default\<lparr>o_append := [noop 1 1]\<rparr>"
  obtain db where db: "db_life ?L log_options [] db" using fresh_log by blast
  let ?ls = "\<lparr>ls_db = db, ls_first_index = 0, ls_last_index = 0\<rparr>"
  let ?new = "[(entry_key 1, Some (put_log_entry (noop 1 1)))]"
  have w: "output_ops ?B ?o ?ls = ?new"
    by (simp add: persist_ops_def snap_part_def append_part_def put_entries_def output_default_def Let_def plain_log_lib_def)
  have small: "small_ops ?new"
    using noop_put_small [of 1 1] by (simp add: small_ops_def plain_log_lib_def)
  have j: "output_joins ?o persisted_default"
    by (simp add: output_joins_def joins_def contig_def output_default_def persisted_default_def)
  let ?d = "\<lparr>dir_files = db_files db, dir_manifest = db_mdir db, dir_wal = Some (wal_data (db_wal db) @
    take 3 (wal_frame (lib_wal ?L) \<lparr>wal_batch.first_seq = Suc (db_seq db), wb_ops = ?new\<rparr>))\<rparr>"
  have crash: "crash_logging ?L ?new db 3 ?d" by (simp add: crash_logging_def)
  have torn: "3 < length (wal_frame (lib_wal ?L) \<lparr>wal_batch.first_seq = Suc (db_seq db), wb_ops = ?new\<rparr>)"
    by (simp add: length_wal_frame)
  have "history_fits ?L log_options ([] @ ?new)" "batch_ok ?L [] ?new" "length ([] @ ?new) \<le> usize_max"
    using log_history_fits [OF small] log_batch_ok [of "[]", OF _ small] by (simp_all add: usize_max_def)
  from persist_crash_atomic [OF plain_log_lib_ok plain_man_lib_ok fresh_store [OF db] j, unfolded w, OF this(1) _ this(2,3), of 3 ?d] crash
  have "\<exists>ls'. ls_open ?L ?B ?d = Some (Inr (ls', persisted_default))" using torn by simp
  then show ?thesis using db crash by blast
qed

section \<open>Grouped outputs\<close>

text \<open>
  The store truncates once, at the first index of the output. An output that collects the appends
  of two messages, of which the second replaces entries of the first, leaves the replaced tail.
\<close>

lemma grouped_map:
  assumes "e_index a = i" "e_index b = Suc i" "e_index c = i" "1 \<le> i" "Suc i < 2 ^ 64"
  shows "upd (put_entries B [a, b, c]) (log_map B h snap []) = log_map B h snap [c, b]"
proof -
  have ne: "entry_key (Suc i) \<noteq> entry_key i" using entry_key_inject [of "Suc i" i] assms(5) by simp
  have "upd (put_entries B [a, b, c]) m = m(entry_key i \<mapsto> enc_log_entry B c, entry_key (Suc i) \<mapsto> enc_log_entry B b)" for m
    using assms ne by (auto simp: put_entries_def fun_eq_iff)
  then show ?thesis
    using assms ne by (auto simp: log_map_def entry_pairs_def fun_eq_iff entry_key_neq entry_key_neq [symmetric])
qed

lemma grouped_persist:
  assumes lib: "log_lib_ok B" and man: "man_lib_ok (lib_man L)" and holds: "ls_holds L B ops ls d"
    and none: "p_entries d = []" "o_snapshot o' = None" and app: "o_append o' = [a, b, c]"
    and i: "e_index a = i" "e_index b = Suc i" "e_index c = i" "1 \<le> i" "Suc i < 2 ^ 64"
    and fits: "history_fits L log_options (ops @ output_ops B o' ls)" and batch: "batch_ok L ops (output_ops B o' ls)"
    and len: "length (ops @ output_ops B o' ls) \<le> usize_max"
  shows "\<exists>ls' ls'' d'. ls_persist L B (o_hard_state o') (o_append o') (o_snapshot o') ls = Some (Inr ls') \<and>
    ls_open L B (dir_of (ls_db ls')) = Some (Inr (ls'', d')) \<and> p_entries d' = [c, b] \<and> p_snapshot d' = p_snapshot d \<and>
    (\<forall>h. o_hard_state o' = Some h \<longrightarrow> p_hard_state d' = h)"
proof -
  let ?new = "output_ops B o' ls"
  obtain h where life: "db_life L log_options ops (ls_db ls)" and bd: "ls_first_index ls = 0" "ls_last_index ls = 0"
    and m: "contents ops = log_map B h (p_snapshot d) []"
    using holds none(1) unfolding ls_holds_def bounds_def by auto
  define h1 where "h1 = (case o_hard_state o' of None \<Rightarrow> h | Some x \<Rightarrow> Some x)"
  have ops: "?new = (case o_hard_state o' of None \<Rightarrow> [] | Some h \<Rightarrow> [(key_hs, Some (enc_hs B h))]) @ put_entries B [a, b, c]"
    by (simp add: persist_ops_def snap_part_def append_part_def none app bd Let_def)
  have ne: "?new \<noteq> []" by (simp add: ops put_entries_def)
  have "upd (case o_hard_state o' of None \<Rightarrow> [] | Some h \<Rightarrow> [(key_hs, Some (enc_hs B h))]) (log_map B h (p_snapshot d) []) =
      log_map B h1 (p_snapshot d) []"
    using entry_key_neq(3) by (auto simp: h1_def log_map_def fun_upd_twist split: option.splits)
  then have m': "contents (ops @ ?new) = log_map B h1 (p_snapshot d) [c, b]"
    unfolding contents_append m ops fold_append comp_def using grouped_map [OF i] by simp
  obtain db' where db': "write_batch L ?new (ls_db ls) = Some (Inr db')" "db_life L log_options (ops @ ?new) db'"
    using life_write [OF life man log_opts_ok fits] batch by blast
  have "contig [c, b]" using i by (auto simp: contig_def less_Suc_eq nth_Cons' numeral_2_eq_2)
  then have "ls_holds L B (ops @ ?new) \<lparr>ls_db = db', ls_first_index = i, ls_last_index = Suc i\<rparr>
      \<lparr>p_hard_state = (case h1 of None \<Rightarrow> hard_state_default | Some x \<Rightarrow> x), p_entries = [c, b], p_snapshot = p_snapshot d\<rparr>"
    using db'(2) m' i by (auto simp: ls_holds_def bounds_def)
  from ls_reopen [OF this lib man len] show ?thesis
    using db'(1) ne by (auto simp: ls_persist_def Let_def split_beta h1_def)
qed

end
