(* ===== verification/Proto.thy ===== *)
theory Proto
  imports Raft_Types Byte_Codec
begin

text \<open>
  \<open>crates/proto/src/lib.rs\<close>: the messages between clients, servers and peers, and the framing. A
  byte stream is the list of bytes that arrive before the connection ends; \<open>read_frame\<close> returns
  what it read and the rest of the stream. \<open>bincode\<close> is a parameter: an encoder that may fail and
  a decoder.
\<close>

section \<open>Messages\<close>

datatype peer_frame = Hello node_id | PeerMsg message

datatype consistency = Linearizable | LeaderLease | Stale

datatype request =
    RqPut nat nat bytes bytes
  | RqDelete nat nat bytes
  | RqCas nat nat bytes "bytes option" "bytes option"
  | RqGet bytes consistency
  | RqScan bytes "bytes option" nat consistency
  | RqStatus

record node_status =
  ns_id :: node_id
  ns_role :: role
  ns_term :: raft_term
  ns_leader :: "node_id option"
  ns_commit :: index
  ns_applied :: index
  ns_last_log_index :: index
  ns_voters :: "node_id list"

datatype response =
    RsOk
  | RsValue "bytes option"
  | RsCas bool "bytes option"
  | RsKvs "(bytes \<times> bytes) list"
  | RsNotLeader "node_id option"
  | RsRetry string
  | RsStatus node_status
  | RsErr string

section \<open>Framing\<close>

definition max_frame :: nat where
  "max_frame = 64 * 2 ^ 20"

datatype frame_error = FrameEncode | FrameTooLong | FrameEof | FrameDecode

text \<open>The bytes one call writes; \<open>body.len() as u32\<close> keeps the low 32 bits of the length.\<close>

definition write_frame :: "('a \<Rightarrow> bytes option) \<Rightarrow> 'a \<Rightarrow> frame_error + bytes" where
  "write_frame enc msg =
     (case enc msg of
        None \<Rightarrow> Inl FrameEncode
      | Some body \<Rightarrow>
          let len = length body mod 2 ^ 32
          in if max_frame < len then Inl FrameTooLong else Inr (u32_le len @ body))"

definition read_frame :: "(bytes \<Rightarrow> 'a option) \<Rightarrow> bytes \<Rightarrow> (frame_error + 'a option) \<times> bytes" where
  "read_frame dec bs =
     (if length bs < 4 then (Inr None, [])
      else let len = le_nat (take 4 bs); rest = drop 4 bs
           in if max_frame < len then (Inl FrameTooLong, rest)
              else if length rest < len then (Inl FrameEof, [])
              else (case dec (take len rest) of
                      None \<Rightarrow> Inl FrameDecode
                    | Some m \<Rightarrow> Inr (Some m), drop len rest))"

text \<open>
  What the code relies on for a message it sends: when \<open>bincode\<close> encodes it, it decodes what it
  encoded, and the length of the encoding is a 32-bit number.
\<close>

definition frame_ok :: "('a \<Rightarrow> bytes option) \<Rightarrow> (bytes \<Rightarrow> 'a option) \<Rightarrow> 'a \<Rightarrow> bool" where
  "frame_ok enc dec m \<longleftrightarrow> (\<forall>body. enc m = Some body \<longrightarrow> dec body = Some m \<and> length body < 2 ^ 32)"

lemma write_frame_ok:
  assumes "frame_ok enc dec m" "write_frame enc m = Inr bs"
  obtains body where "enc m = Some body" "bs = u32_le (length body) @ body" "length body \<le> max_frame"
    "dec body = Some m"
  using assms by (auto simp: frame_ok_def write_frame_def Let_def split: option.splits if_splits)

lemma read_write_frame:
  assumes "frame_ok enc dec m" "write_frame enc m = Inr bs"
  shows "read_frame dec (bs @ rest) = (Inr (Some m), rest)"
proof -
  obtain body where b: "bs = u32_le (length body) @ body" "length body \<le> max_frame" "dec body = Some m"
    using write_frame_ok [OF assms] by metis
  then have "length body < 2 ^ 32" by (simp add: max_frame_def)
  then have "le_nat (take 4 (bs @ rest)) = length body" using u32_of_le_bytes by (simp add: b(1))
  then show ?thesis using b by (simp add: read_frame_def)
qed

lemma length_write_frame: "write_frame enc m = Inr bs \<Longrightarrow> 4 \<le> length bs"
  by (auto simp: write_frame_def Let_def split: option.splits if_splits)

text \<open>A frame that was cut off is never taken for a message.\<close>

lemma read_torn_frame:
  assumes "frame_ok enc dec m" "write_frame enc m = Inr bs" "k < length bs"
  shows "fst (read_frame dec (take k bs)) = Inr None \<or> fst (read_frame dec (take k bs)) = Inl FrameEof"
proof -
  obtain body where b: "bs = u32_le (length body) @ body" "length body \<le> max_frame"
    using write_frame_ok [OF assms(1,2)] by metis
  then have "length body < 2 ^ 32" by (simp add: max_frame_def)
  then have "le_nat (u32_le (length body)) = length body" by (rule u32_of_le_bytes)
  moreover have "length body \<le> k - 4 \<Longrightarrow> k < 4" using b assms(3) by auto
  ultimately show ?thesis using b assms(3) by (auto simp: read_frame_def min_def)
qed

lemma length_read_frame: "read_frame dec bs = (Inr (Some m), rest) \<Longrightarrow> length rest < length bs"
  by (auto simp: read_frame_def Let_def split: if_splits option.splits)

text \<open>All the messages of a stream, until it ends or a frame is bad.\<close>

function read_frames :: "(bytes \<Rightarrow> 'a option) \<Rightarrow> bytes \<Rightarrow> 'a list \<times> (frame_error + unit)" where
  "read_frames dec bs =
     (case read_frame dec bs of
        (Inl e, _) \<Rightarrow> ([], Inl e)
      | (Inr None, _) \<Rightarrow> ([], Inr ())
      | (Inr (Some m), rest) \<Rightarrow> let (ms, e) = read_frames dec rest in (m # ms, e))"
  by pat_completeness auto
termination by (relation "measure (\<lambda>(dec, bs). length bs)") (auto dest: length_read_frame [OF sym])

declare read_frames.simps [simp del]

fun write_frames :: "('a \<Rightarrow> bytes option) \<Rightarrow> 'a list \<Rightarrow> frame_error + bytes" where
  "write_frames enc [] = Inr []"
| "write_frames enc (m # ms) =
     (case write_frame enc m of
        Inl e \<Rightarrow> Inl e
      | Inr bs \<Rightarrow> (case write_frames enc ms of Inl e \<Rightarrow> Inl e | Inr bs' \<Rightarrow> Inr (bs @ bs')))"

lemma read_write_frames:
  assumes "\<forall>m \<in> set ms. frame_ok enc dec m" "write_frames enc ms = Inr bs"
  shows "read_frames dec (bs @ rest) = (ms @ fst (read_frames dec rest), snd (read_frames dec rest))"
  using assms
proof (induction ms arbitrary: bs)
  case (Cons m ms)
  obtain b bs' where b: "write_frame enc m = Inr b" "write_frames enc ms = Inr bs'" "bs = b @ bs'"
    using Cons.prems(2) by (auto split: sum.splits)
  have "read_frame dec (b @ bs' @ rest) = (Inr (Some m), bs' @ rest)"
    by (rule read_write_frame) (use Cons.prems(1) b in auto)
  then show ?case
    using Cons.IH [OF _ b(2)] Cons.prems(1) b(3) by (subst read_frames.simps) simp
qed simp

lemma read_frames_Nil [simp]: "read_frames dec [] = ([], Inr ())"
  by (simp add: read_frames.simps read_frame_def)

lemma read_frames_torn:
  assumes "\<forall>m \<in> set ms. frame_ok enc dec m" "write_frames enc ms = Inr bs" "k \<le> length bs"
  shows "\<exists>j e. read_frames dec (take k bs) = (take j ms, e) \<and> (k = length bs \<longrightarrow> j = length ms)"
  using assms
proof (induction ms arbitrary: bs k)
  case Nil
  then show ?case by simp
next
  case (Cons m ms)
  obtain b bs' where b: "write_frame enc m = Inr b" "write_frames enc ms = Inr bs'" "bs = b @ bs'"
    using Cons.prems(2) by (auto split: sum.splits)
  have ok: "frame_ok enc dec m" using Cons.prems(1) by simp
  show ?case
  proof (cases "length b \<le> k")
    case True
    have "k - length b \<le> length bs'" using Cons.prems(3) b(3) by simp
    then obtain j e where j: "read_frames dec (take (k - length b) bs') = (take j ms, e)"
      "k - length b = length bs' \<longrightarrow> j = length ms"
      using Cons.IH [OF _ b(2), of "k - length b"] Cons.prems(1) by auto
    have "read_frame dec (take k bs) = (Inr (Some m), take (k - length b) bs')"
      using read_write_frame [OF ok b(1)] True by (simp add: b(3))
    then have "read_frames dec (take k bs) = (take (Suc j) (m # ms), e)"
      using j(1) by (subst read_frames.simps) simp
    moreover have "k = length bs \<longrightarrow> Suc j = length (m # ms)" using j(2) b(3) True by simp
    ultimately show ?thesis by blast
  next
    case False
    then have "take k bs = take k b" by (simp add: b(3))
    then have "\<exists>e. read_frames dec (take k bs) = ([], e)"
      using read_torn_frame [OF ok b(1), of k] False
      by (subst read_frames.simps) (auto split: prod.splits sum.splits option.splits)
    then show ?thesis using False b(3) by (metis le_add1 length_append take0)
  qed
qed

section \<open>A concrete encoding\<close>

text \<open>Requests, as a stand-in for \<open>bincode\<close>: decoding inverts encoding for each of them.\<close>

fun put_consistency :: "consistency \<Rightarrow> byte" where
  "put_consistency Linearizable = 0"
| "put_consistency LeaderLease = 1"
| "put_consistency Stale = 2"

definition get_consistency :: "byte \<Rightarrow> consistency" where
  "get_consistency b = (if b = 0 then Linearizable else if b = 1 then LeaderLease else Stale)"

lemma get_put_consistency [simp]: "get_consistency (put_consistency c) = c"
  by (cases c) (simp_all add: get_consistency_def)

fun put_request :: "request \<Rightarrow> bytes option" where
  "put_request (RqGet k c) = Some (0 # put_consistency c # k)"
| "put_request RqStatus = Some [1]"
| "put_request r = None"

fun get_request :: "bytes \<Rightarrow> request option" where
  "get_request (t # c # k) = (if t = 0 then Some (RqGet k (get_consistency c)) else None)"
| "get_request [t] = (if t = 1 then Some RqStatus else None)"
| "get_request [] = None"

section \<open>Properties\<close>

text \<open>
  C30: What \<open>write_frame\<close> writes for a sequence of messages, each of a body under \<open>2\<^sup>32\<close> bytes,
  \<open>read_frame\<close> reads back as exactly that
  sequence and then a clean end; when the connection breaks after any number of bytes, the reader
  gets a prefix of the sequence, never a message that was not sent.
\<close>
theorem frames_roundtrip:
  assumes "\<forall>m \<in> set ms. frame_ok enc dec m" "write_frames enc ms = Inr bs" "k \<le> length bs"
  shows "read_frames dec bs = (ms, Inr ()) \<and> (\<exists>j e. read_frames dec (take k bs) = (take j ms, e))"
  using read_write_frames [OF assms(1,2), of "[]"] read_frames_torn [OF assms] by auto

theorem frames_roundtrip_witness:
  "read_frames get_request [3, 0, 0, 0, 0, 2, 9, 1, 0, 0, 0, 1] = ([RqGet [9] Stale, RqStatus], Inr ())"
proof -
  let ?ms = "[RqGet [9] Stale, RqStatus]"
  have "\<forall>m \<in> set ?ms. frame_ok put_request get_request m" by (simp add: frame_ok_def get_consistency_def)
  moreover have "u32_le 3 = [3, 0, 0, 0]" "u32_le 1 = [1, 0, 0, 0]" by code_simp+
  then have "write_frames put_request ?ms = Inr [3, 0, 0, 0, 0, 2, 9, 1, 0, 0, 0, 1]"
    by (simp add: write_frame_def max_frame_def)
  ultimately show ?thesis using frames_roundtrip [of ?ms put_request get_request _ 0] by simp
qed

text \<open>
  C36: The length field is 32 bits wide and the cap is tested on it, not on the length itself: a
  message of at least \<open>2\<^sup>32\<close> bytes passes the test of the 64 MiB cap when its length
  modulo \<open>2\<^sup>32\<close> does, the frame announces only that remainder, and the reader takes the first bytes of the body for
  the message and the others for the frames that follow.
\<close>
theorem frame_length_wraps:
  assumes "enc m = Some body" "2 ^ 32 \<le> length body" "length body mod 2 ^ 32 \<le> max_frame"
  shows "\<exists>bs. write_frame enc m = Inr bs \<and> max_frame < length bs - 4 \<and>
    read_frame dec bs =
      (case dec (take (length body mod 2 ^ 32) body) of None \<Rightarrow> Inl FrameDecode | Some m' \<Rightarrow> Inr (Some m'),
       drop (length body mod 2 ^ 32) body)"
proof (intro exI conjI)
  let ?len = "length body mod 2 ^ 32"
  let ?bs = "u32_le ?len @ body"
  show "write_frame enc m = Inr ?bs" using assms by (simp add: write_frame_def)
  show "max_frame < length ?bs - 4" using assms(2) by (simp add: max_frame_def)
  have "le_nat (u32_le ?len) = ?len" by (rule u32_of_le_bytes) simp
  moreover have "(length body < ?len) = False" by (simp add: not_less)
  ultimately show "read_frame dec ?bs =
      (case dec (take ?len body) of None \<Rightarrow> Inl FrameDecode | Some m' \<Rightarrow> Inr (Some m'), drop ?len body)"
    using assms(3) by (simp add: read_frame_def Let_def)
qed

theorem frame_length_wraps_witness:
  "\<exists>bs. write_frame put_request (RqGet (replicate (2 ^ 32 - 1) 0) Linearizable) = Inr bs \<and>
    fst (read_frame get_request bs) = Inl FrameDecode"
proof -
  let ?body = "0 # 0 # replicate (2 ^ 32 - 1) (0 :: byte)"
  have len: "length ?body = 2 ^ 32 + 1" by simp
  have e: "put_request (RqGet (replicate (2 ^ 32 - 1) 0) Linearizable) = Some ?body" by simp
  have m: "length ?body mod 2 ^ 32 = 1" unfolding len by simp
  have "2 ^ 32 \<le> length ?body" "length ?body mod 2 ^ 32 \<le> max_frame"
    unfolding m unfolding len by (simp_all add: max_frame_def)
  from frame_length_wraps [of put_request, OF e this, of get_request] show ?thesis unfolding m by auto
qed

end
