(* ===== verification/Server_Core.thy ===== *)
theory Server_Core
  imports Logstore Sim_Cluster Proto
begin

text \<open>
  \<open>crates/server/src/core.rs\<close> and the counters of \<open>metrics.rs\<close>: the task that owns the raft node, the
  log store and the state machine. The oneshot channel of a client request is a handle (a number);
  \<open>co_answers\<close> lists what was sent on the handles, with \<open>None\<close> for a sender that was dropped, and
  \<open>co_sent\<close> the messages handed to the peers' queues. A panic is a value of \<open>core_abort\<close>; so is,
  inside one drain, a storage call that does not return (\<open>CoreStuck\<close>), and the drain loop and the
  turns of the event loop then have no result (\<open>None\<close>). The state machine runs on the values of the
  backend's calls that return (\<open>dbb_view\<close>), after a check that the calls it makes do return: the
  functions \<open>..._stop\<close> say which call stops the core instead.
\<close>

section \<open>Metrics\<close>

record metrics =
  mt_proposals_total :: nat
  mt_applied_total :: nat
  mt_reads_linearizable_total :: nat
  mt_reads_lease_total :: nat
  mt_reads_stale_total :: nat
  mt_not_leader_total :: nat
  mt_retries_total :: nat
  mt_term :: nat
  mt_commit_index :: nat
  mt_applied_index :: nat
  mt_is_leader :: nat
  mt_snapshots_taken_total :: nat

definition metrics_default :: metrics where
  "metrics_default =
     \<lparr>mt_proposals_total = 0, mt_applied_total = 0, mt_reads_linearizable_total = 0, mt_reads_lease_total = 0,
      mt_reads_stale_total = 0, mt_not_leader_total = 0, mt_retries_total = 0, mt_term = 0, mt_commit_index = 0,
      mt_applied_index = 0, mt_is_leader = 0, mt_snapshots_taken_total = 0\<rparr>"

text \<open>The gauge \<open>raftkv_apply_lag\<close> of \<open>render\<close>; \<open>-\<close> saturates.\<close>

definition apply_lag :: "metrics \<Rightarrow> nat" where
  "apply_lag m = mt_commit_index m - mt_applied_index m"

section \<open>State\<close>

datatype core_event = EvTick | EvPeer message | EvClient request nat

definition pending_timeout_ticks :: nat where "pending_timeout_ticks = 50"

datatype read_req = ReadGet bytes | ReadScan bytes "bytes option" nat

record pending_write =
  pw_tx :: nat
  pw_deadline :: nat

record pending_read =
  rd_req :: read_req
  rd_tx :: nat
  rd_deadline :: nat

record core =
  co_raft :: raft_node
  co_log :: log_store
  co_sm :: "db state_machine"
  co_applied :: index
  co_applied_since_snap :: nat
  co_snapshot_every :: nat
  co_peers :: "node_id list"
  co_writes :: "(nat \<times> nat, pending_write) btree_map"
  co_reads :: "(nat, pending_read) btree_map"
  co_ready :: "(nat \<times> index) list"
  co_next_read_id :: nat
  co_tick :: nat
  co_metrics :: metrics
  co_answers :: "(nat \<times> response option) list"
  co_sent :: "message list"

text \<open>The code the core calls that is not part of the sources: storage encodings, log encodings, commands.\<close>

record core_lib =
  cl_storage :: storage_lib
  cl_log :: log_lib
  cl_env :: sim_env

datatype core_abort =
    CoreRaft raft_panic
  | CoreOpen storage_error
  | CorePersist storage_error
  | CoreBackend storage_error
  | CoreStuck
  | CoreSnapshotDecode
  | CoreCommandDecode

abbreviation core_backend :: "core_lib \<Rightarrow> db backend" where
  "core_backend K \<equiv> dbb_view (cl_storage K)"

definition answer :: "nat \<Rightarrow> response \<Rightarrow> core \<Rightarrow> core" where
  "answer tx r c = c\<lparr>co_answers := co_answers c @ [(tx, Some r)]\<rparr>"

definition drop_txs :: "nat list \<Rightarrow> core \<Rightarrow> core" where
  "drop_txs txs c = c\<lparr>co_answers := co_answers c @ map (\<lambda>tx. (tx, None)) txs\<rparr>"

definition bump :: "(metrics \<Rightarrow> metrics) \<Rightarrow> core \<Rightarrow> core" where
  "bump f c = c\<lparr>co_metrics := f (co_metrics c)\<rparr>"

section \<open>Calls of the backend\<close>

text \<open>An \<open>expect\<close> of \<open>DbBackend\<close> that fails, and a call that never returns.\<close>

definition read_stop :: "'a storage_result \<Rightarrow> core_abort option" where
  "read_stop r = (case r of Inl e \<Rightarrow> Some (CoreBackend e) | Inr _ \<Rightarrow> None)"

definition write_stop :: "'a storage_result option \<Rightarrow> core_abort option" where
  "write_stop r = (case r of None \<Rightarrow> Some CoreStuck | Some r \<Rightarrow> read_stop r)"

definition unless_stop :: "core_abort option \<Rightarrow> 'a \<Rightarrow> core_abort + 'a" where
  "unless_stop st x = (case st of None \<Rightarrow> Inr x | Some a \<Rightarrow> Inl a)"

text \<open>The calls that \<open>StateMachine::apply\<close> makes for a command.\<close>

fun op_stop :: "storage_lib \<Rightarrow> op \<Rightarrow> db \<Rightarrow> core_abort option" where
  "op_stop L (Put key v) b = write_stop (dbb_set L key (Some v) b)"
| "op_stop L (Delete key) b = write_stop (dbb_set L key None b)"
| "op_stop L (Cas key expect new) b =
     (case dbb_get L b key of
        Inl e \<Rightarrow> Some (CoreBackend e)
      | Inr actual \<Rightarrow> if actual = expect then write_stop (dbb_set L key new b) else None)"
| "op_stop L (Get key) b = read_stop (dbb_get L b key)"

definition apply_stop :: "storage_lib \<Rightarrow> command \<Rightarrow> db state_machine \<Rightarrow> core_abort option" where
  "apply_stop L cmd sm =
     (case (if cmd_session cmd = 0 then None else bt_get (sm_sessions sm) (cmd_session cmd)) of
        Some s \<Rightarrow> if cmd_seq cmd \<le> session_state.last_seq s then None else op_stop L (cmd_op cmd) (sm_backend sm)
      | None \<Rightarrow> op_stop L (cmd_op cmd) (sm_backend sm))"

text \<open>\<open>StateMachine::restore\<close>: decode, then \<open>clear_and_load\<close>.\<close>

definition restore_stop :: "core_lib \<Rightarrow> bytes \<Rightarrow> db state_machine \<Rightarrow> core_abort option" where
  "restore_stop K data sm =
     (case dec_snap (cl_env K) data of
        None \<Rightarrow> None
      | Some p \<Rightarrow> write_stop (dbb_clear_and_load (cl_storage K) (pl_kvs p) (sm_backend sm)))"

definition restore_sm :: "core_lib \<Rightarrow> bytes \<Rightarrow> db state_machine \<Rightarrow> core_abort + db state_machine" where
  "restore_sm K data sm =
     (case sm_restore (core_backend K) (dec_snap (cl_env K)) data sm of
        None \<Rightarrow> Inl CoreSnapshotDecode
      | Some sm' \<Rightarrow> unless_stop (restore_stop K data sm) sm')"

section \<open>Opening\<close>

definition core_restore :: "core_lib \<Rightarrow> snapshot option \<Rightarrow> db \<Rightarrow> core_abort + db state_machine \<times> index" where
  "core_restore K snap b =
     (let E = cl_env K;
          (data, applied) =
            (case snap of
               Some s \<Rightarrow> (s_data s, s_last_index s)
             | None \<Rightarrow> (sm_snapshot mem_backend (enc_snap E) (hash_iter E) (sm_new bt_empty), 0))
      in case restore_sm K data (sm_new b) of
           Inl a \<Rightarrow> Inl a
         | Inr sm \<Rightarrow> Inr (sm, applied))"

definition core_new :: "raft_node \<Rightarrow> log_store \<Rightarrow> db state_machine \<Rightarrow> index \<Rightarrow> nat \<Rightarrow> node_id list \<Rightarrow> core" where
  "core_new r log sm applied every peers =
     \<lparr>co_raft = r, co_log = log, co_sm = sm, co_applied = applied, co_applied_since_snap = 0,
      co_snapshot_every = every, co_peers = peers, co_writes = bt_empty, co_reads = bt_empty,
      co_ready = [], co_next_read_id = 1, co_tick = 0, co_metrics = metrics_default, co_answers = [], co_sent = []\<rparr>"

definition core_open :: "core_lib \<Rightarrow> config \<Rightarrow> node_id list \<Rightarrow> nat \<Rightarrow> node_id list \<Rightarrow> db_dir \<Rightarrow> db_dir \<Rightarrow> core_abort + core" where
  "core_open K conf initial_voters every peers raft_dir sm_dir =
     (case ls_open (cl_storage K) (cl_log K) raft_dir of
        None \<Rightarrow> Inl CoreStuck
      | Some (Inl e) \<Rightarrow> Inl (CoreOpen e)
      | Some (Inr (log, persisted)) \<Rightarrow>
          (case dbb_open (cl_storage K) sm_dir of
             None \<Rightarrow> Inl CoreStuck
           | Some (Inl e) \<Rightarrow> Inl (CoreOpen e)
           | Some (Inr b) \<Rightarrow>
               (case core_restore K (p_snapshot persisted) b of
                  Inl a \<Rightarrow> Inl a
                | Inr (sm, applied) \<Rightarrow>
                    Inr (core_new (raft_node_new conf initial_voters persisted) log sm applied every peers))))"

section \<open>Clients\<close>

definition propose_err :: "propose_error \<Rightarrow> core \<Rightarrow> response \<times> core" where
  "propose_err e c =
     (case e of
        NotLeader hint \<Rightarrow>
          (RsNotLeader hint, bump (\<lambda>m. m\<lparr>mt_not_leader_total := mt_not_leader_total m + 1\<rparr>) c)
      | NotReady \<Rightarrow>
          (RsRetry ''leader not ready (no commit in current term yet)'',
           bump (\<lambda>m. m\<lparr>mt_retries_total := mt_retries_total m + 1\<rparr>) c)
      | ConfChangeInFlight \<Rightarrow> (RsErr ''conf change in flight'', c))"

text \<open>A second request with the same session and number replaces the first waiter, whose sender is dropped.\<close>

definition add_write :: "nat \<times> nat \<Rightarrow> pending_write \<Rightarrow> core \<Rightarrow> core" where
  "add_write key w c =
     (let c1 = (case bt_get (co_writes c) key of None \<Rightarrow> c | Some old \<Rightarrow> drop_txs [pw_tx old] c)
      in c1\<lparr>co_writes := bt_insert key w (co_writes c1)\<rparr>)"

definition propose_write :: "core_lib \<Rightarrow> nat \<Rightarrow> nat \<Rightarrow> op \<Rightarrow> nat \<Rightarrow> core \<Rightarrow> core" where
  "propose_write K session_id sq x tx c =
     (if session_id = 0 then answer tx (RsErr ''session_id must be nonzero'') c
      else let cmd = \<lparr>cmd_session = session_id, cmd_seq = sq, cmd_op = x\<rparr> in
        case propose (enc_cmd (cl_env K) cmd) (co_raft c) of
          (Inr idx, r) \<Rightarrow>
            add_write (session_id, sq) \<lparr>pw_tx = tx, pw_deadline = co_tick c + pending_timeout_ticks\<rparr>
              (bump (\<lambda>m. m\<lparr>mt_proposals_total := mt_proposals_total m + 1\<rparr>) (c\<lparr>co_raft := r\<rparr>))
        | (Inl e, r) \<Rightarrow> (let (resp, c1) = propose_err e (c\<lparr>co_raft := r\<rparr>) in answer tx resp c1))"

fun serve_read :: "core_lib \<Rightarrow> core \<Rightarrow> read_req \<Rightarrow> core_abort + response" where
  "serve_read K c (ReadGet key) =
     unless_stop (read_stop (dbb_get (cl_storage K) (sm_backend (co_sm c)) key))
       (RsValue (sm_read (core_backend K) (co_sm c) key))"
| "serve_read K c (ReadScan start e limit) =
     unless_stop (read_stop (dbb_scan (cl_storage K) (sm_backend (co_sm c)) start e limit))
       (RsKvs (sm_read_range (core_backend K) (co_sm c) start e limit))"

definition answer_read :: "core_lib \<Rightarrow> read_req \<Rightarrow> nat \<Rightarrow> core \<Rightarrow> core_abort + core" where
  "answer_read K req tx c = (case serve_read K c req of Inl a \<Rightarrow> Inl a | Inr resp \<Rightarrow> Inr (answer tx resp c))"

text \<open>Read identifiers are never reused, so inserting a pending read never replaces one.\<close>

definition handle_read :: "core_lib \<Rightarrow> read_req \<Rightarrow> consistency \<Rightarrow> nat \<Rightarrow> core \<Rightarrow> core_abort + core" where
  "handle_read K req cons tx c =
     (case cons of
        Stale \<Rightarrow>
          answer_read K req tx (bump (\<lambda>m. m\<lparr>mt_reads_stale_total := mt_reads_stale_total m + 1\<rparr>) c)
      | LeaderLease \<Rightarrow>
          if role (co_raft c) \<noteq> Leader
          then Inr (answer tx (RsNotLeader (leader_id (co_raft c)))
                 (bump (\<lambda>m. m\<lparr>mt_not_leader_total := mt_not_leader_total m + 1\<rparr>) c))
          else if lease_valid (co_raft c)
          then answer_read K req tx (bump (\<lambda>m. m\<lparr>mt_reads_lease_total := mt_reads_lease_total m + 1\<rparr>) c)
          else Inr (answer tx (RsRetry ''leader lease not established'')
                 (bump (\<lambda>m. m\<lparr>mt_retries_total := mt_retries_total m + 1\<rparr>) c))
      | Linearizable \<Rightarrow>
          (let rid = co_next_read_id c; c1 = c\<lparr>co_next_read_id := rid + 1\<rparr> in
           case read_index rid (co_raft c1) of
             (Inr u, r) \<Rightarrow>
               (let c2 = bump (\<lambda>m. m\<lparr>mt_reads_linearizable_total := mt_reads_linearizable_total m + 1\<rparr>)
                           (c1\<lparr>co_raft := r\<rparr>)
                in Inr (c2\<lparr>co_reads := bt_insert rid
                        \<lparr>rd_req = req, rd_tx = tx, rd_deadline = co_tick c2 + pending_timeout_ticks\<rparr> (co_reads c2)\<rparr>))
           | (Inl e, r) \<Rightarrow> (let (resp, c2) = propose_err e (c1\<lparr>co_raft := r\<rparr>) in Inr (answer tx resp c2))))"

definition core_status :: "core \<Rightarrow> node_status" where
  "core_status c =
     (let r = co_raft c in
      \<lparr>ns_id = nid r, ns_role = role r, ns_term = cur_term r, ns_leader = leader_id r, ns_commit = commit r,
       ns_applied = co_applied c, ns_last_log_index = last_index (rlog r), ns_voters = voters r\<rparr>)"

fun handle_client :: "core_lib \<Rightarrow> request \<Rightarrow> nat \<Rightarrow> core \<Rightarrow> core_abort + core" where
  "handle_client K (RqPut s q k v) tx c = Inr (propose_write K s q (Put k v) tx c)"
| "handle_client K (RqDelete s q k) tx c = Inr (propose_write K s q (Delete k) tx c)"
| "handle_client K (RqCas s q k e n) tx c = Inr (propose_write K s q (Cas k e n) tx c)"
| "handle_client K (RqGet k cons) tx c = handle_read K (ReadGet k) cons tx c"
| "handle_client K (RqScan s e l cons) tx c = handle_read K (ReadScan s e l) cons tx c"
| "handle_client K RqStatus tx c = Inr (answer tx (RsStatus (core_status c)) c)"

section \<open>Ticks\<close>

definition sweep_timeouts :: "core \<Rightarrow> core" where
  "sweep_timeouts c =
     (let now = co_tick c;
          late_writes = filter (\<lambda>(_, w). pw_deadline w \<le> now) (co_writes c);
          late_reads = filter (\<lambda>(_, r). \<not> now < rd_deadline r) (co_reads c);
          c1 = bump (\<lambda>m. m\<lparr>mt_retries_total := mt_retries_total m + length late_writes\<rparr>) c;
          c2 = c1\<lparr>co_writes := bt_retain (\<lambda>_ w. \<not> pw_deadline w \<le> now) (co_writes c1),
                  co_reads := bt_retain (\<lambda>_ r. now < rd_deadline r) (co_reads c1)\<rparr>;
          c3 = c2\<lparr>co_ready := filter (\<lambda>(rid, _). bt_get (co_reads c2) rid \<noteq> None) (co_ready c2)\<rparr>
      in drop_txs (map (\<lambda>(_, w). pw_tx w) late_writes @ map (\<lambda>(_, r). rd_tx r) late_reads) c3)"

definition stamp_gauges :: "core \<Rightarrow> core" where
  "stamp_gauges c =
     bump (\<lambda>m. m\<lparr>mt_term := cur_term (co_raft c), mt_commit_index := commit (co_raft c),
                  mt_applied_index := co_applied c,
                  mt_is_leader := (if role (co_raft c) = Leader then 1 else 0)\<rparr>) c"

fun handle_event :: "core_lib \<Rightarrow> core_event \<Rightarrow> core \<Rightarrow> core_abort + core" where
  "handle_event K EvTick c =
     (let c1 = c\<lparr>co_tick := co_tick c + 1\<rparr>; c2 = c1\<lparr>co_raft := tick (co_raft c1)\<rparr>
      in Inr (stamp_gauges (sweep_timeouts c2)))"
| "handle_event K (EvPeer m) c =
     (case step m (co_raft c) of
        Inl p \<Rightarrow> Inl (CoreRaft p)
      | Inr r \<Rightarrow> Inr (c\<lparr>co_raft := r\<rparr>))"
| "handle_event K (EvClient req tx) c = handle_client K req tx c"

section \<open>Draining the raft output\<close>

fun op_result_response :: "op_result \<Rightarrow> response" where
  "op_result_response OpOk = RsOk"
| "op_result_response (OpValue v) = RsValue v"
| "op_result_response (OpCas ok actual) = RsCas ok actual"
| "op_result_response OpStale = RsErr ''stale sequence number''"

text \<open>(1) Durable state, before anything leaves the node.\<close>

definition core_persist :: "core_lib \<Rightarrow> raft_output \<Rightarrow> core \<Rightarrow> core_abort + core" where
  "core_persist K o' c =
     (if o_hard_state o' \<noteq> None \<or> o_append o' \<noteq> [] \<or> o_snapshot o' \<noteq> None
      then case ls_persist (cl_storage K) (cl_log K) (o_hard_state o') (o_append o') (o_snapshot o') (co_log c) of
             None \<Rightarrow> Inl CoreStuck
           | Some (Inl e) \<Rightarrow> Inl (CorePersist e)
           | Some (Inr log) \<Rightarrow> Inr (c\<lparr>co_log := log\<rparr>)
      else Inr c)"

definition core_install :: "core_lib \<Rightarrow> raft_output \<Rightarrow> core \<Rightarrow> core_abort + core" where
  "core_install K o' c =
     (case o_snapshot o' of
        None \<Rightarrow> Inr c
      | Some snap \<Rightarrow>
          (case restore_sm K (s_data snap) (co_sm c) of
             Inl a \<Rightarrow> Inl a
           | Inr sm \<Rightarrow> Inr (c\<lparr>co_sm := sm, co_applied := s_last_index snap, co_applied_since_snap := 0\<rparr>)))"

text \<open>(2) One committed entry: apply it and answer the client that waits for it.\<close>

definition core_apply_cmd :: "core_lib \<Rightarrow> command \<Rightarrow> core \<Rightarrow> core_abort + core" where
  "core_apply_cmd K cmd c =
     unless_stop (apply_stop (cl_storage K) cmd (co_sm c))
       (let (result, sm) = sm_apply (core_backend K) cmd (co_sm c);
            c1 = bump (\<lambda>m. m\<lparr>mt_applied_total := mt_applied_total m + 1\<rparr>) (c\<lparr>co_sm := sm\<rparr>);
            key = (cmd_session cmd, cmd_seq cmd)
        in case bt_get (co_writes c1) key of
             None \<Rightarrow> c1
           | Some w \<Rightarrow> answer (pw_tx w) (op_result_response result) (c1\<lparr>co_writes := bt_remove key (co_writes c1)\<rparr>))"

definition core_apply :: "core_lib \<Rightarrow> Raft_Types.entry \<Rightarrow> core \<Rightarrow> core_abort + core" where
  "core_apply K e c =
     (let done = (\<lambda>c1. Inr (c1\<lparr>co_applied := e_index e, co_applied_since_snap := co_applied_since_snap c1 + 1\<rparr>))
      in case e_payload e of
           Normal data \<Rightarrow>
             (case dec_cmd (cl_env K) data of
                None \<Rightarrow> Inl CoreCommandDecode
              | Some cmd \<Rightarrow> (case core_apply_cmd K cmd c of Inl a \<Rightarrow> Inl a | Inr c1 \<Rightarrow> done c1))
         | _ \<Rightarrow> done c)"

fun core_apply_all :: "core_lib \<Rightarrow> Raft_Types.entry list \<Rightarrow> core \<Rightarrow> core_abort + core" where
  "core_apply_all K [] c = Inr c"
| "core_apply_all K (e # es) c =
     (case core_apply K e c of Inl a \<Rightarrow> Inl a | Inr c' \<Rightarrow> core_apply_all K es c')"

definition core_compact :: "core_lib \<Rightarrow> core \<Rightarrow> core_abort + core" where
  "core_compact K c =
     (if co_snapshot_every c \<le> co_applied_since_snap c
      then case read_stop (dbb_dump (cl_storage K) (sm_backend (co_sm c))) of
             Some a \<Rightarrow> Inl a
           | None \<Rightarrow>
               (let data = sm_snapshot (core_backend K) (enc_snap (cl_env K)) (hash_iter (cl_env K)) (co_sm c)
                in case compact (co_applied c) data (co_raft c) of
                     (None, r) \<Rightarrow> Inr (c\<lparr>co_raft := r, co_applied_since_snap := 0\<rparr>)
                   | (Some snap, r) \<Rightarrow>
                       (case ls_compact_to (cl_storage K) (cl_log K) snap (co_log c) of
                          None \<Rightarrow> Inl CoreStuck
                        | Some (Inl e) \<Rightarrow> Inl (CorePersist e)
                        | Some (Inr log) \<Rightarrow>
                            Inr (bump (\<lambda>m. m\<lparr>mt_snapshots_taken_total := mt_snapshots_taken_total m + 1\<rparr>)
                                   (c\<lparr>co_raft := r, co_log := log, co_applied_since_snap := 0\<rparr>))))
      else Inr c)"

text \<open>(3) Reads whose round completed, served once their index is applied.\<close>

fun serve_ready :: "core_lib \<Rightarrow> (nat \<times> index) list \<Rightarrow> core \<Rightarrow> core_abort + core" where
  "serve_ready K [] c = Inr c"
| "serve_ready K ((rid, idx) # rest) c =
     (if idx \<le> co_applied c
      then case bt_get (co_reads c) rid of
             Some r \<Rightarrow>
               (case answer_read K (rd_req r) (rd_tx r) (c\<lparr>co_reads := bt_remove rid (co_reads c)\<rparr>) of
                  Inl a \<Rightarrow> Inl a
                | Inr c1 \<Rightarrow> serve_ready K rest c1)
           | None \<Rightarrow> serve_ready K rest c
      else serve_ready K rest (c\<lparr>co_ready := co_ready c @ [(rid, idx)]\<rparr>))"

definition core_reads_stage :: "core_lib \<Rightarrow> raft_output \<Rightarrow> core \<Rightarrow> core_abort + core" where
  "core_reads_stage K o' c = serve_ready K (co_ready c @ o_read_states o') (c\<lparr>co_ready := []\<rparr>)"

text \<open>(4) Messages last; there is a queue for every peer but not for this node.\<close>

definition core_send :: "raft_output \<Rightarrow> core \<Rightarrow> core" where
  "core_send o' c = c\<lparr>co_sent := co_sent c @ filter (\<lambda>m. m_to m \<in> set (co_peers c)) (o_messages o')\<rparr>"

definition core_drain :: "core_lib \<Rightarrow> raft_output \<Rightarrow> core \<Rightarrow> core_abort + core" where
  "core_drain K o' c =
     (case core_persist K o' c of
        Inl a \<Rightarrow> Inl a
      | Inr c1 \<Rightarrow>
          (case core_install K o' c1 of
             Inl a \<Rightarrow> Inl a
           | Inr c2 \<Rightarrow>
               (case core_apply_all K (o_committed o') c2 of
                  Inl a \<Rightarrow> Inl a
                | Inr c3 \<Rightarrow>
                    (case core_compact K c3 of
                       Inl a \<Rightarrow> Inl a
                     | Inr c4 \<Rightarrow>
                         (case core_reads_stage K o' c4 of
                            Inl a \<Rightarrow> Inl a
                          | Inr c5 \<Rightarrow> Inr (core_send o' c5))))))"

text \<open>
  The loop that drains until the output is empty; \<open>None\<close> is a loop that never ends, or a storage call
  in it that does not.
\<close>

partial_function (option) core_process_output :: "core_lib \<Rightarrow> core \<Rightarrow> (core_abort + core) option" where
  "core_process_output K c =
     (case take_output (co_raft c) of
        (o', r) \<Rightarrow>
          if output_is_empty o' then Some (Inr (c\<lparr>co_raft := r\<rparr>))
          else (case core_drain K o' (c\<lparr>co_raft := r\<rparr>) of
                  Inl a \<Rightarrow> if a = CoreStuck then None else Some (Inl a)
                | Inr c' \<Rightarrow> core_process_output K c'))"

section \<open>The event loop\<close>

fun handle_events :: "core_lib \<Rightarrow> core_event list \<Rightarrow> core \<Rightarrow> core_abort + core" where
  "handle_events K [] c = Inr c"
| "handle_events K (ev # evs) c =
     (case handle_event K ev c of Inl a \<Rightarrow> Inl a | Inr c' \<Rightarrow> handle_events K evs c')"

text \<open>
  One turn of \<open>run\<close>: the event received, the events already queued, up to a budget of 512 more, and
  then the output. How many are queued is up to the other tasks.
\<close>

definition group_budget :: nat where "group_budget = 512"

definition group_ok :: "core_event list \<Rightarrow> bool" where
  "group_ok g \<longleftrightarrow> g \<noteq> [] \<and> length g \<le> 1 + group_budget"

definition core_turn :: "core_lib \<Rightarrow> core_event list \<Rightarrow> core \<Rightarrow> (core_abort + core) option" where
  "core_turn K g c =
     (case handle_events K g c of Inl a \<Rightarrow> Some (Inl a) | Inr c' \<Rightarrow> core_process_output K c')"

fun core_run :: "core_lib \<Rightarrow> core_event list list \<Rightarrow> core \<Rightarrow> (core_abort + core) option" where
  "core_run K [] c = Some (Inr c)"
| "core_run K (g # gs) c =
     (case core_turn K g c of
        None \<Rightarrow> None
      | Some (Inl a) \<Rightarrow> Some (Inl a)
      | Some (Inr c') \<Rightarrow> core_run K gs c')"

end
