(* ===== verification/Core_Clients.thy ===== *)
theory Core_Clients
  imports Server_Core
begin

text \<open>
  What the server core (\<open>crates/server/src/core.rs\<close>) does with its clients: every request is answered
  or dropped exactly once, whatever the groups of events, and within the timeout. The handles of the
  requests are followed as a multiset through the pending tables and the list of answers.
\<close>

section \<open>Entries of a map as a multiset\<close>

lemma mset_bt_remove:
  assumes "bt_ok m" "bt_get m k = Some v"
  shows "mset m = add_mset (k, v) (mset (bt_remove k m))"
  using assms
proof (induction m)
  case (Cons e m)
  show ?case
  proof (cases "fst e = k")
    case True
    then have "bt_remove k m = m" using Cons.prems(1) by (auto simp: bt_ok_Cons bt_remove_def filter_id_conv)
    then show ?thesis using True Cons.prems(2) by (cases e) (simp add: bt_remove_def bt_get_def)
  next
    case False
    then have "bt_get m k = Some v" using Cons.prems(2) by (cases e) (simp add: bt_get_def)
    then show ?thesis using Cons False by (simp add: bt_ok_Cons bt_remove_def)
  qed
qed simp

lemma bt_remove_None: "bt_get m k = None \<Longrightarrow> bt_remove k m = m"
  by (force simp: bt_remove_def bt_get_def map_of_eq_None_iff filter_id_conv)

lemma mset_bt_insert: "bt_ok m \<Longrightarrow> mset (bt_insert k v m) = add_mset (k, v) (mset (bt_remove k m))"
proof (induction m)
  case (Cons e m)
  consider "fst e < k" | "fst e = k" | "k < fst e" by (rule linorder_cases)
  then show ?case
  proof cases
    case 1
    then have "fst e \<noteq> k" by simp
    then show ?thesis using 1 Cons by (simp add: bt_ok_Cons bt_remove_def)
  next
    case 2
    then have "bt_remove k m = m" using Cons.prems by (auto simp: bt_ok_Cons bt_remove_def filter_id_conv)
    then show ?thesis using 2 by (simp add: bt_remove_def)
  next
    case 3
    then have "bt_remove k (e # m) = e # m" using Cons.prems by (force simp: bt_ok_Cons bt_remove_def filter_id_conv)
    moreover have "\<not> fst e < k" "fst e \<noteq> k" using 3 by auto
    ultimately show ?thesis by simp
  qed
qed (simp add: bt_remove_def)

lemma mset_retain: "mset m = mset (bt_retain P m) + mset (filter (\<lambda>(k, v). \<not> P k v) m)"
proof -
  have "filter (\<lambda>(k, v). \<not> P k v) m = filter (\<lambda>x. \<not> (case x of (k, v) \<Rightarrow> P k v)) m"
    by (rule filter_cong) auto
  then show ?thesis unfolding bt_retain_def by (simp add: multiset_partition)
qed

section \<open>Handles\<close>

text \<open>The waiting requests with their deadlines, and every handle the core still holds or has used up.\<close>

definition waiting :: "core \<Rightarrow> (nat \<times> nat) multiset" where
  "waiting c = image_mset (\<lambda>(_, w). (pw_tx w, pw_deadline w)) (mset (co_writes c)) +
     image_mset (\<lambda>(_, r). (rd_tx r, rd_deadline r)) (mset (co_reads c))"

definition handles :: "core \<Rightarrow> nat multiset" where
  "handles c = image_mset fst (waiting c) + mset (map fst (co_answers c))"

definition core_ok :: "core \<Rightarrow> bool" where
  "core_ok c \<longleftrightarrow> bt_ok (co_writes c) \<and> bt_ok (co_reads c) \<and> (\<forall>rid \<in> fst ` set (co_reads c). rid < co_next_read_id c) \<and>
     (\<forall>(tx, d) \<in> set_mset (waiting c). co_tick c < d \<and> d \<le> co_tick c + pending_timeout_ticks)"

text \<open>What a step may do to the clients: take the handles \<open>new\<close> and let \<open>n\<close> ticks pass.\<close>

definition client_step :: "nat multiset \<Rightarrow> nat \<Rightarrow> core \<Rightarrow> core \<Rightarrow> bool" where
  "client_step new n c c' \<longleftrightarrow> core_ok c' \<and> handles c' = handles c + new \<and> co_tick c' = co_tick c + n \<and>
     (\<forall>(tx, d) \<in> set_mset (waiting c'). (tx, d) \<in># waiting c \<or> tx \<in># new) \<and>
     (\<exists>more. co_answers c' = co_answers c @ more)"

lemma client_step_refl: "core_ok c \<Longrightarrow> client_step {#} 0 c c"
  by (auto simp: client_step_def)

lemma client_step_trans:
  "client_step new n c c1 \<Longrightarrow> client_step new' n' c1 c2 \<Longrightarrow> client_step (new + new') (n + n') c c2"
  by (fastforce simp: client_step_def)

text \<open>Fields the clients do not see.\<close>

definition same_clients :: "core \<Rightarrow> core \<Rightarrow> bool" where
  "same_clients c c' \<longleftrightarrow> co_writes c' = co_writes c \<and> co_reads c' = co_reads c \<and> co_answers c' = co_answers c \<and>
     co_tick c' = co_tick c \<and> co_next_read_id c \<le> co_next_read_id c'"

lemma same_clients_step: "core_ok c \<Longrightarrow> same_clients c c' \<Longrightarrow> client_step {#} 0 c c'"
  by (fastforce simp: client_step_def same_clients_def core_ok_def handles_def waiting_def)

lemma client_step_same:
  "client_step new n c1 c2 \<Longrightarrow> same_clients c c1 \<Longrightarrow> client_step new n c c2"
  by (simp add: client_step_def same_clients_def handles_def waiting_def)

lemma same_clients_refl [simp]: "same_clients c c"
  by (simp add: same_clients_def)

lemma same_clients_bump [simp]: "same_clients c (bump f c)"
  by (simp add: same_clients_def bump_def)

lemma same_clients_trans: "same_clients a b \<Longrightarrow> same_clients b c \<Longrightarrow> same_clients a c"
  by (simp add: same_clients_def)

lemma bump_fields [simp]:
  "co_writes (bump f c) = co_writes c" "co_reads (bump f c) = co_reads c" "co_answers (bump f c) = co_answers c"
  "co_tick (bump f c) = co_tick c" "co_next_read_id (bump f c) = co_next_read_id c" "co_raft (bump f c) = co_raft c"
  "co_ready (bump f c) = co_ready c" "co_log (bump f c) = co_log c" "co_sm (bump f c) = co_sm c"
  "co_applied (bump f c) = co_applied c" "co_applied_since_snap (bump f c) = co_applied_since_snap c"
  "co_snapshot_every (bump f c) = co_snapshot_every c" "co_peers (bump f c) = co_peers c" "co_sent (bump f c) = co_sent c"
  by (simp_all add: bump_def)

subsection \<open>Answering\<close>

lemma answer_new: "core_ok c \<Longrightarrow> client_step {#tx#} 0 c (answer tx r c)"
  by (auto simp: client_step_def core_ok_def handles_def waiting_def answer_def)

lemma answer_write:
  assumes ok: "core_ok c" and w: "bt_get (co_writes c) key = Some w"
  shows "client_step {#} 0 c (answer (pw_tx w) r (c\<lparr>co_writes := bt_remove key (co_writes c)\<rparr>))"
proof -
  have "mset (co_writes c) = add_mset (key, w) (mset (bt_remove key (co_writes c)))"
    using ok w by (intro mset_bt_remove) (simp_all add: core_ok_def)
  then show ?thesis using ok by (fastforce simp: client_step_def core_ok_def handles_def waiting_def answer_def)
qed

lemma answer_waiting_read:
  assumes ok: "core_ok c" and w: "bt_get (co_reads c) rid = Some w"
  shows "client_step {#} 0 c (answer (rd_tx w) r (c\<lparr>co_reads := bt_remove rid (co_reads c)\<rparr>))"
proof -
  have "mset (co_reads c) = add_mset (rid, w) (mset (bt_remove rid (co_reads c)))"
    using ok w by (intro mset_bt_remove) (simp_all add: core_ok_def)
  moreover have "\<forall>i \<in> fst ` set (bt_remove rid (co_reads c)). i < co_next_read_id c"
    using ok by (auto simp: core_ok_def bt_remove_def)
  ultimately show ?thesis
    using ok by (fastforce simp: client_step_def core_ok_def handles_def waiting_def answer_def)
qed

lemma add_write_step:
  assumes ok: "core_ok c" and d: "d = co_tick c + pending_timeout_ticks"
  shows "client_step {#tx#} 0 c (add_write key \<lparr>pw_tx = tx, pw_deadline = d\<rparr> c)"
proof -
  let ?w = "\<lparr>pw_tx = tx, pw_deadline = d\<rparr>"
  have bt: "bt_ok (co_writes c)" using ok by (simp add: core_ok_def)
  note ins = mset_bt_insert [OF bt, of key ?w]
  have t: "0 < pending_timeout_ticks" by (simp add: pending_timeout_ticks_def)
  show ?thesis
  proof (cases "bt_get (co_writes c) key")
    case None
    then show ?thesis
      using ok ins bt_remove_None [OF None] d t
      by (fastforce simp: client_step_def core_ok_def handles_def waiting_def add_write_def)
  next
    case (Some w)
    then have "mset (co_writes c) = add_mset (key, w) (mset (bt_remove key (co_writes c)))"
      using bt by (intro mset_bt_remove) simp_all
    then show ?thesis
      using ok ins Some d t
      by (fastforce simp: client_step_def core_ok_def handles_def waiting_def add_write_def drop_txs_def Let_def)
  qed
qed

subsection \<open>Requests\<close>

lemma propose_err_same: "propose_err e c = (resp, c') \<Longrightarrow> same_clients c c'"
  by (cases e) (auto simp: propose_err_def)

lemma same_clients_ok: "core_ok c \<Longrightarrow> same_clients c c' \<Longrightarrow> core_ok c'"
  by (fastforce simp: same_clients_def core_ok_def waiting_def)

lemma propose_write_step:
  assumes "core_ok c"
  shows "client_step {#tx#} 0 c (propose_write K s q x tx c)"
proof (cases "s = 0")
  case True
  then show ?thesis using assms by (simp add: propose_write_def answer_new)
next
  case False
  let ?cmd = "\<lparr>cmd_session = s, cmd_seq = q, cmd_op = x\<rparr>"
  obtain res r where p: "propose (enc_cmd (cl_env K) ?cmd) (co_raft c) = (res, r)" by fastforce
  show ?thesis
  proof (cases res)
    case (Inl e)
    obtain resp c1 where e: "propose_err e (c\<lparr>co_raft := r\<rparr>) = (resp, c1)" by fastforce
    have "same_clients c (c\<lparr>co_raft := r\<rparr>)" by (simp add: same_clients_def)
    then have same: "same_clients c c1" using propose_err_same [OF e] by (rule same_clients_trans)
    have "propose_write K s q x tx c = answer tx resp c1" using False p Inl e by (simp add: propose_write_def)
    then show ?thesis
      using client_step_same [OF answer_new [OF same_clients_ok [OF assms same]] same] by simp
  next
    case (Inr idx)
    let ?c = "bump (\<lambda>m. m\<lparr>mt_proposals_total := mt_proposals_total m + 1\<rparr>) (c\<lparr>co_raft := r\<rparr>)"
    have same: "same_clients c ?c" by (simp add: same_clients_def)
    have "propose_write K s q x tx c = add_write (s, q) \<lparr>pw_tx = tx, pw_deadline = co_tick ?c + pending_timeout_ticks\<rparr> ?c"
      using False p Inr by (simp add: propose_write_def)
    then show ?thesis
      using client_step_same [OF add_write_step [OF same_clients_ok [OF assms same] refl] same] by simp
  qed
qed

lemma add_read_step:
  assumes ok: "core_ok c" and d: "d = co_tick c + pending_timeout_ticks"
  shows "client_step {#tx#} 0 c
    (c\<lparr>co_next_read_id := co_next_read_id c + 1, co_reads := bt_insert (co_next_read_id c) \<lparr>rd_req = req, rd_tx = tx, rd_deadline = d\<rparr> (co_reads c)\<rparr>)"
proof -
  let ?rid = "co_next_read_id c"
  have "?rid \<notin> fst ` set (co_reads c)" using ok by (auto simp: core_ok_def)
  then have "bt_get (co_reads c) ?rid = None" by (simp add: bt_get_def map_of_eq_None_iff)
  note rm = bt_remove_None [OF this]
  have "mset (bt_insert ?rid \<lparr>rd_req = req, rd_tx = tx, rd_deadline = d\<rparr> (co_reads c)) =
      add_mset (?rid, \<lparr>rd_req = req, rd_tx = tx, rd_deadline = d\<rparr>) (mset (co_reads c))"
    using mset_bt_insert [of "co_reads c"] ok rm by (simp add: core_ok_def)
  moreover have "0 < pending_timeout_ticks" by (simp add: pending_timeout_ticks_def)
  ultimately show ?thesis using ok d
    by (fastforce simp: client_step_def core_ok_def handles_def waiting_def)
qed

lemma answer_read_Inr: "answer_read K req tx c = Inr c' \<Longrightarrow> \<exists>resp. c' = answer tx resp c"
  by (auto simp: answer_read_def split: sum.splits)

lemma handle_read_step:
  assumes ok: "core_ok c" and h: "handle_read K req cons tx c = Inr c'"
  shows "client_step {#tx#} 0 c c'"
proof -
  have ans: "client_step {#tx#} 0 c (answer tx r (bump f c))" for r f
    using client_step_same [OF answer_new [OF same_clients_ok [OF ok same_clients_bump]] same_clients_bump] .
  show ?thesis
  proof (cases cons)
    case Linearizable
    let ?c1 = "c\<lparr>co_next_read_id := co_next_read_id c + 1\<rparr>"
    obtain res r where p: "read_index (co_next_read_id c) (co_raft c) = (res, r)" by fastforce
    show ?thesis
    proof (cases res)
      case (Inl e)
      obtain resp c2 where e: "propose_err e (?c1\<lparr>co_raft := r\<rparr>) = (resp, c2)" by fastforce
      have "same_clients c (?c1\<lparr>co_raft := r\<rparr>)" by (simp add: same_clients_def)
      then have same: "same_clients c c2" using propose_err_same [OF e] by (rule same_clients_trans)
      have "c' = answer tx resp c2"
        using h Linearizable p Inl e by (simp add: handle_read_def Let_def)
      then show ?thesis
        using client_step_same [OF answer_new [OF same_clients_ok [OF ok same]] same] by simp
    next
      case (Inr u)
      let ?c = "bump (\<lambda>m. m\<lparr>mt_reads_linearizable_total := mt_reads_linearizable_total m + 1\<rparr>) (c\<lparr>co_raft := r\<rparr>)"
      have same: "same_clients c ?c" by (simp add: same_clients_def)
      have "c' =
          ?c\<lparr>co_next_read_id := co_next_read_id ?c + 1,
             co_reads := bt_insert (co_next_read_id ?c)
               \<lparr>rd_req = req, rd_tx = tx, rd_deadline = co_tick ?c + pending_timeout_ticks\<rparr> (co_reads ?c)\<rparr>"
        using h Linearizable p Inr by (auto simp: handle_read_def Let_def bump_def)
      then show ?thesis
        using client_step_same [OF add_read_step [OF same_clients_ok [OF ok same] refl] same] by simp
    qed
  qed (use h ans in \<open>auto simp: handle_read_def split: if_splits dest!: answer_read_Inr\<close>)
qed

lemma handle_client_step: "core_ok c \<Longrightarrow> handle_client K req tx c = Inr c' \<Longrightarrow> client_step {#tx#} 0 c c'"
  by (cases req) (auto simp: propose_write_step answer_new intro: handle_read_step)

subsection \<open>Ticks\<close>

lemma sweep_fields:
  "co_writes (sweep_timeouts c) = bt_retain (\<lambda>_ w. \<not> pw_deadline w \<le> co_tick c) (co_writes c)"
  "co_reads (sweep_timeouts c) = bt_retain (\<lambda>_ r. co_tick c < rd_deadline r) (co_reads c)"
  "co_answers (sweep_timeouts c) = co_answers c @ map (\<lambda>tx. (tx, None))
     (map (\<lambda>(_, w). pw_tx w) (filter (\<lambda>(_, w). pw_deadline w \<le> co_tick c) (co_writes c)) @
      map (\<lambda>(_, r). rd_tx r) (filter (\<lambda>(_, r). \<not> co_tick c < rd_deadline r) (co_reads c)))"
  "co_tick (sweep_timeouts c) = co_tick c" "co_next_read_id (sweep_timeouts c) = co_next_read_id c"
  by (simp_all add: sweep_timeouts_def drop_txs_def Let_def)

lemma sweep_waiting:
  "waiting (sweep_timeouts c) = filter_mset (\<lambda>(tx, d). co_tick c < d) (waiting c)"
  by (simp add: waiting_def sweep_fields bt_retain_def filter_mset_image_mset case_prod_unfold not_le)

lemma sweep_handles: "handles (sweep_timeouts c) = handles c"
proof -
  define P where "P = (\<lambda>(tx :: nat, d). co_tick c < d)"
  have gone: "mset (map fst (co_answers (sweep_timeouts c))) = mset (map fst (co_answers c)) +
      image_mset fst (filter_mset (\<lambda>x. \<not> P x) (waiting c))"
    by (simp add: P_def sweep_fields waiting_def filter_mset_image_mset case_prod_unfold not_less comp_def
        image_mset.compositionality)
  have "image_mset fst (waiting c) =
      image_mset fst (filter_mset P (waiting c)) + image_mset fst (filter_mset (\<lambda>x. \<not> P x) (waiting c))"
    unfolding image_mset_union [symmetric] multiset_partition [symmetric] by (rule refl)
  then show ?thesis unfolding handles_def sweep_waiting gone P_def [symmetric] by simp
qed

lemma tick_step:
  assumes ok: "core_ok c" and same: "co_writes c1 = co_writes c" "co_reads c1 = co_reads c" "co_answers c1 = co_answers c"
    "co_next_read_id c1 = co_next_read_id c" "co_tick c1 = co_tick c + 1"
  shows "client_step {#} 1 c (stamp_gauges (sweep_timeouts c1))"
proof -
  have w: "waiting c1 = waiting c" "handles c1 = handles c" using same by (simp_all add: waiting_def handles_def)
  let ?c = "sweep_timeouts c1"
  have wait: "waiting ?c = filter_mset (\<lambda>(tx, d). co_tick c + 1 < d) (waiting c)" by (simp add: sweep_waiting same w)
  have "d \<le> co_tick c + pending_timeout_ticks" if "(tx, d) \<in># waiting c" for tx d
    using ok that by (auto simp: core_ok_def)
  then have "\<forall>(tx, d) \<in> set_mset (waiting ?c). co_tick ?c < d \<and> d \<le> co_tick ?c + pending_timeout_ticks"
    unfolding wait sweep_fields same by fastforce
  moreover have "\<forall>rid \<in> fst ` set (co_reads ?c). rid < co_next_read_id ?c"
    using ok by (auto simp: core_ok_def sweep_fields same bt_retain_def)
  moreover have "bt_ok (co_writes ?c)" "bt_ok (co_reads ?c)"
    using ok by (simp_all add: core_ok_def sweep_fields same)
  ultimately have ok': "core_ok ?c" unfolding core_ok_def by blast
  have "handles ?c = handles c + {#}" using sweep_handles [of c1] w by simp
  moreover have "co_tick ?c = co_tick c + 1" by (simp add: sweep_fields same)
  moreover have "\<exists>more. co_answers ?c = co_answers c @ more" by (simp add: sweep_fields same)
  moreover have "\<forall>(tx, d) \<in> set_mset (waiting ?c). (tx, d) \<in># waiting c \<or> tx \<in># {#}" unfolding wait by auto
  ultimately have "client_step {#} 1 c ?c" using ok' unfolding client_step_def by blast
  from client_step_trans [OF this same_clients_step [OF ok']] show ?thesis by (simp add: stamp_gauges_def)
qed

lemma handle_event_step:
  assumes "core_ok c" "handle_event K ev c = Inr c'"
  shows "client_step (case ev of EvClient req tx \<Rightarrow> {#tx#} | _ \<Rightarrow> {#}) (if ev = EvTick then 1 else 0) c c'"
proof (cases ev)
  case EvTick
  let ?c = "c\<lparr>co_tick := co_tick c + 1, co_raft := tick (co_raft c)\<rparr>"
  have "client_step {#} 1 c (stamp_gauges (sweep_timeouts ?c))" by (rule tick_step [OF assms(1)]) simp_all
  then show ?thesis using assms EvTick by (auto simp: Let_def)
next
  case (EvPeer m)
  then show ?thesis using assms
    by (auto split: sum.splits intro!: same_clients_step simp: same_clients_def)
next
  case (EvClient req tx)
  then show ?thesis using assms by (auto intro: handle_client_step)
qed

subsection \<open>Output\<close>

lemma core_apply_step:
  assumes "core_ok c" "core_apply K e c = Inr c'"
  shows "client_step {#} 0 c c'"
proof -
  have cmd: "client_step {#} 0 c c1" if run: "core_apply_cmd K cmd c = Inr c1" for cmd c1
  proof -
    obtain result sm where a: "sm_apply (core_backend K) cmd (co_sm c) = (result, sm)" by fastforce
    let ?c = "bump (\<lambda>m. m\<lparr>mt_applied_total := mt_applied_total m + 1\<rparr>) (c\<lparr>co_sm := sm\<rparr>)"
    let ?key = "(cmd_session cmd, cmd_seq cmd)"
    have same: "same_clients c ?c" by (simp add: same_clients_def)
    show ?thesis
    proof (cases "bt_get (co_writes ?c) ?key")
      case None
      then show ?thesis using run same_clients_step [OF assms(1) same] a
        by (simp add: core_apply_cmd_def unless_stop_def split: option.splits)
    next
      case (Some w)
      have "client_step {#} 0 c (answer (pw_tx w) (op_result_response result) (?c\<lparr>co_writes := bt_remove ?key (co_writes ?c)\<rparr>))"
        using client_step_same [OF answer_write [OF same_clients_ok [OF assms(1) same] Some] same] .
      then show ?thesis using run Some a by (simp add: core_apply_cmd_def unless_stop_def Let_def split: option.splits)
    qed
  qed
  have fin: "client_step {#} 0 c (c1\<lparr>co_applied := i, co_applied_since_snap := j\<rparr>)" if "client_step {#} 0 c c1" for c1 i j
    using that by (fastforce simp: client_step_def core_ok_def handles_def waiting_def)
  show ?thesis
    using assms(2) fin [OF cmd] fin [OF client_step_refl [OF assms(1)]]
    by (auto simp: core_apply_def Let_def split: entry_payload.splits option.splits sum.splits)
qed

lemma core_apply_all_step: "core_ok c \<Longrightarrow> core_apply_all K es c = Inr c' \<Longrightarrow> client_step {#} 0 c c'"
proof (induction es arbitrary: c)
  case (Cons e es)
  then obtain c1 where 1: "core_apply K e c = Inr c1" "core_apply_all K es c1 = Inr c'" by (auto split: sum.splits)
  have s: "client_step {#} 0 c c1" by (rule core_apply_step [OF Cons.prems(1) 1(1)])
  then have "core_ok c1" by (simp add: client_step_def)
  from client_step_trans [OF s Cons.IH [OF this 1(2)]] show ?case by simp
qed (simp add: client_step_refl)

lemma serve_ready_step: "core_ok c \<Longrightarrow> serve_ready K rs c = Inr c' \<Longrightarrow> client_step {#} 0 c c'"
proof (induction K rs c rule: serve_ready.induct)
  case (1 K c)
  then show ?case by (simp add: client_step_refl)
next
  case (2 K rid idx rest c)
  show ?case
  proof (cases "idx \<le> co_applied c")
    case False
    have s: "same_clients c (c\<lparr>co_ready := co_ready c @ [(rid, idx)]\<rparr>)" by (simp add: same_clients_def)
    show ?thesis using 2(3) [OF False same_clients_ok [OF 2(4) s]] 2(5) False client_step_same [OF _ s] by simp
  next
    case True
    show ?thesis
    proof (cases "bt_get (co_reads c) rid")
      case None
      then show ?thesis using 2 True by simp
    next
      case (Some r)
      obtain c1 where c1: "answer_read K (rd_req r) (rd_tx r) (c\<lparr>co_reads := bt_remove rid (co_reads c)\<rparr>) = Inr c1"
        "serve_ready K rest c1 = Inr c'"
        using 2(5) True Some by (auto split: sum.splits)
      obtain resp where resp: "c1 = answer (rd_tx r) resp (c\<lparr>co_reads := bt_remove rid (co_reads c)\<rparr>)"
        using answer_read_Inr [OF c1(1)] by blast
      have s: "client_step {#} 0 c c1" unfolding resp by (rule answer_waiting_read [OF 2(4) Some])
      then have "core_ok c1" by (simp add: client_step_def)
      from client_step_trans [OF s 2(2) [OF True Some c1(1) this c1(2)]] show ?thesis by simp
    qed
  qed
qed

lemma core_drain_stages:
  assumes "core_drain K o' c = Inr c'"
  obtains c1 c2 c3 c4 c5 where "core_persist K o' c = Inr c1" "core_install K o' c1 = Inr c2"
    "core_apply_all K (o_committed o') c2 = Inr c3" "core_compact K c3 = Inr c4"
    "core_reads_stage K o' c4 = Inr c5" "c' = core_send o' c5"
  using assms by (auto simp: core_drain_def split: sum.splits)

lemma core_drain_step:
  assumes ok: "core_ok c" and d: "core_drain K o' c = Inr c'"
  shows "client_step {#} 0 c c'"
proof -
  obtain c1 c2 c3 c4 c5 where c: "core_persist K o' c = Inr c1" "core_install K o' c1 = Inr c2"
    "core_apply_all K (o_committed o') c2 = Inr c3" "core_compact K c3 = Inr c4"
    "core_reads_stage K o' c4 = Inr c5" "c' = core_send o' c5"
    using d by (rule core_drain_stages)
  have "same_clients c c1"
    using c(1) by (auto simp: core_persist_def same_clients_def split: if_splits option.splits sum.splits)
  moreover have "same_clients c1 c2"
    using c(2) by (auto simp: core_install_def same_clients_def split: option.splits sum.splits)
  ultimately have s2: "same_clients c c2" by (rule same_clients_trans)
  have ok2: "core_ok c2" by (rule same_clients_ok [OF ok s2])
  have s3: "client_step {#} 0 c c3" by (rule client_step_same [OF core_apply_all_step [OF ok2 c(3)] s2])
  have "same_clients c3 c4"
    using c(4) by (auto simp: core_compact_def same_clients_def Let_def split: if_splits option.splits sum.splits prod.splits)
  moreover have "same_clients c4 (c4\<lparr>co_ready := []\<rparr>)" by (simp add: same_clients_def)
  ultimately have s4: "same_clients c3 (c4\<lparr>co_ready := []\<rparr>)" by (rule same_clients_trans)
  have ok3: "core_ok c3" using s3 by (simp add: client_step_def)
  have "client_step {#} 0 c3 c5"
    by (rule client_step_same [OF serve_ready_step [OF same_clients_ok [OF ok3 s4] c(5) [unfolded core_reads_stage_def]] s4])
  then have s5: "client_step {#} 0 c c5" using client_step_trans [OF s3] by fastforce
  have "same_clients c5 c'" by (simp add: c(6) core_send_def same_clients_def)
  then have "client_step {#} 0 c5 c'"
    using s5 by (intro same_clients_step) (simp_all add: client_step_def)
  from client_step_trans [OF s5 this] show ?thesis by simp
qed

section \<open>The event loop\<close>

lemma core_apply_all_raft: "core_apply_all K es c = Inr c' \<Longrightarrow> co_raft c' = co_raft c"
proof (induction es arbitrary: c)
  case (Cons e es)
  then obtain c1 where 1: "core_apply K e c = Inr c1" "core_apply_all K es c1 = Inr c'" by (auto split: sum.splits)
  have "co_raft c1 = co_raft c"
    using 1(1) by (auto simp: core_apply_def core_apply_cmd_def unless_stop_def answer_def Let_def case_prod_beta
        split: entry_payload.splits option.splits sum.splits)
  then show ?case using Cons.IH [OF 1(2)] by simp
qed simp

text \<open>The parts that serving reads leaves alone.\<close>

definition same_parts :: "core \<Rightarrow> core \<Rightarrow> bool" where
  "same_parts c c' \<longleftrightarrow> co_raft c' = co_raft c \<and> co_log c' = co_log c \<and> co_sm c' = co_sm c \<and> co_applied c' = co_applied c \<and>
     co_applied_since_snap c' = co_applied_since_snap c \<and> co_peers c' = co_peers c \<and> co_sent c' = co_sent c \<and>
     co_snapshot_every c' = co_snapshot_every c"

lemma answer_same_parts: "same_parts c (answer tx resp (c\<lparr>co_reads := m\<rparr>))" "same_parts c (c\<lparr>co_ready := rs\<rparr>)"
  by (simp_all add: same_parts_def answer_def)

lemma same_parts_trans: "same_parts a b \<Longrightarrow> same_parts b c \<Longrightarrow> same_parts a c"
  by (simp add: same_parts_def)

lemma serve_ready_frame: "serve_ready K rs c = Inr c' \<Longrightarrow> same_parts c c'"
proof (induction K rs c rule: serve_ready.induct)
  case (1 K c)
  then show ?case by (simp add: same_parts_def)
next
  case (2 K rid idx rest c)
  show ?case
  proof (cases "idx \<le> co_applied c")
    case False
    then show ?thesis using 2(3) [OF False] 2(4) same_parts_trans [OF answer_same_parts(2)] by simp
  next
    case True
    show ?thesis
    proof (cases "bt_get (co_reads c) rid")
      case None
      then show ?thesis using 2(1) [OF True None] 2(4) True by simp
    next
      case (Some r)
      obtain c1 where c1: "answer_read K (rd_req r) (rd_tx r) (c\<lparr>co_reads := bt_remove rid (co_reads c)\<rparr>) = Inr c1"
        "serve_ready K rest c1 = Inr c'"
        using 2(4) True Some by (auto split: sum.splits)
      then have "same_parts c c1" using answer_read_Inr answer_same_parts(1) by metis
      then show ?thesis using 2(2) [OF True Some c1] by (rule same_parts_trans)
    qed
  qed
qed

lemma core_drain_out:
  assumes "core_drain K o' c = Inr c'" "out (co_raft c) = output_default"
  shows "out (co_raft c') = output_default"
proof -
  obtain c1 c2 c3 c4 c5 where c: "core_persist K o' c = Inr c1" "core_install K o' c1 = Inr c2"
    "core_apply_all K (o_committed o') c2 = Inr c3" "core_compact K c3 = Inr c4"
    "core_reads_stage K o' c4 = Inr c5" "c' = core_send o' c5"
    using assms(1) by (rule core_drain_stages)
  have "co_raft c1 = co_raft c" using c(1) by (auto simp: core_persist_def split: if_splits option.splits sum.splits)
  moreover have "co_raft c2 = co_raft c1" using c(2) by (auto simp: core_install_def split: option.splits sum.splits)
  ultimately have "out (co_raft c3) = output_default" using core_apply_all_raft [OF c(3)] assms(2) by simp
  then have "out (co_raft c4) = output_default"
    using c(4) by (auto simp: core_compact_def compact_def Let_def split: if_splits option.splits sum.splits prod.splits)
  moreover have "co_raft c5 = co_raft c4"
    using serve_ready_frame [OF c(5) [unfolded core_reads_stage_def]] by (simp add: same_parts_def)
  ultimately show ?thesis by (simp add: c(6) core_send_def)
qed

text \<open>The loop drains once: the second look at the output finds it empty.\<close>

lemma core_process_output_once:
  "core_process_output K c =
     (let r = (co_raft c)\<lparr>out := output_default\<rparr> in
      if output_is_empty (out (co_raft c)) then Some (Inr (c\<lparr>co_raft := r\<rparr>))
      else case core_drain K (out (co_raft c)) (c\<lparr>co_raft := r\<rparr>) of
             Inl a \<Rightarrow> if a = CoreStuck then None else Some (Inl a)
           | Inr c' \<Rightarrow> Some (Inr c'))"
proof (cases "output_is_empty (out (co_raft c))")
  case True
  then show ?thesis by (subst core_process_output.simps) (simp add: take_output_def)
next
  case False
  let ?c = "c\<lparr>co_raft := (co_raft c)\<lparr>out := output_default\<rparr>\<rparr>"
  have stop: "core_process_output K c' = Some (Inr c')" if "core_drain K (out (co_raft c)) ?c = Inr c'" for c'
  proof -
    have "out (co_raft c') = output_default" using core_drain_out [OF that] by simp
    then have "co_raft c' = (co_raft c')\<lparr>out := output_default\<rparr>" by simp
    then show ?thesis using \<open>out (co_raft c') = output_default\<close>
      by (subst core_process_output.simps) (simp add: take_output_def output_is_empty_iff)
  qed
  show ?thesis
    using False stop by (subst core_process_output.simps) (auto simp: take_output_def Let_def split: sum.splits)
qed

fun event_txs :: "core_event list \<Rightarrow> nat list" where
  "event_txs [] = []"
| "event_txs (EvClient _ tx # evs) = tx # event_txs evs"
| "event_txs (_ # evs) = event_txs evs"

definition event_ticks :: "core_event list \<Rightarrow> nat" where
  "event_ticks evs = length (filter (\<lambda>ev. ev = EvTick) evs)"

lemma event_txs_append [simp]: "event_txs (a @ b) = event_txs a @ event_txs b"
  by (induction a rule: event_txs.induct) simp_all

lemma handle_events_step:
  assumes "core_ok c" "handle_events K evs c = Inr c'"
  shows "client_step (mset (event_txs evs)) (event_ticks evs) c c'"
  using assms
proof (induction evs arbitrary: c)
  case Nil
  then show ?case by (simp add: client_step_refl event_ticks_def)
next
  case (Cons ev evs)
  then obtain c1 where 1: "handle_event K ev c = Inr c1" "handle_events K evs c1 = Inr c'" by (auto split: sum.splits)
  note s = handle_event_step [OF Cons.prems(1) 1(1)]
  then have "core_ok c1" by (simp add: client_step_def)
  from client_step_trans [OF s Cons.IH [OF this 1(2)]] show ?case by (cases ev) (simp_all add: event_ticks_def)
qed

lemma core_turn_step:
  assumes "core_ok c" "core_turn K g c = Some (Inr c')"
  shows "client_step (mset (event_txs g)) (event_ticks g) c c'"
proof -
  obtain c1 where 1: "handle_events K g c = Inr c1" "core_process_output K c1 = Some (Inr c')"
    using assms(2) by (auto simp: core_turn_def split: sum.splits)
  note s = handle_events_step [OF assms(1) 1(1)]
  then have ok1: "core_ok c1" by (simp add: client_step_def)
  let ?c = "c1\<lparr>co_raft := (co_raft c1)\<lparr>out := output_default\<rparr>\<rparr>"
  have same: "same_clients c1 ?c" by (simp add: same_clients_def)
  have "client_step {#} 0 c1 c'"
  proof (cases "output_is_empty (out (co_raft c1))")
    case True
    then have "c' = ?c" using 1(2) by (simp add: core_process_output_once)
    then show ?thesis using same_clients_step [OF ok1 same] by simp
  next
    case False
    then have "core_drain K (out (co_raft c1)) ?c = Inr c'"
      using 1(2) by (auto simp: core_process_output_once Let_def split: sum.splits if_splits)
    from client_step_same [OF core_drain_step [OF same_clients_ok [OF ok1 same] this] same] show ?thesis .
  qed
  from client_step_trans [OF s this] show ?thesis by simp
qed

lemma core_run_step:
  assumes "core_ok c" "core_run K gs c = Some (Inr c')"
  shows "client_step (mset (event_txs (concat gs))) (event_ticks (concat gs)) c c'"
  using assms
proof (induction gs arbitrary: c)
  case Nil
  then show ?case by (simp add: client_step_refl event_ticks_def)
next
  case (Cons g gs)
  then obtain c1 where 1: "core_turn K g c = Some (Inr c1)" "core_run K gs c1 = Some (Inr c')"
    by (auto split: option.splits sum.splits)
  note s = core_turn_step [OF Cons.prems(1) 1(1)]
  then have "core_ok c1" by (simp add: client_step_def)
  from client_step_trans [OF s Cons.IH [OF this 1(2)]] show ?case by (simp add: event_ticks_def)
qed

lemma core_new_ok: "core_ok (core_new r log sm applied every peers)" "handles (core_new r log sm applied every peers) = {#}"
  by (simp_all add: core_ok_def core_new_def handles_def waiting_def bt_empty_def)

lemma core_open_ok: "core_open K conf vs every peers d1 d2 = Inr c \<Longrightarrow> core_ok c \<and> handles c = {#}"
  using core_new_ok by (auto simp: core_open_def split: option.splits sum.splits)

end
