(* ===== verification/Core_Refine.thy ===== *)
theory Core_Refine
  imports Core_Clients Sim_Safety
begin

text \<open>
  The server's core against the simulator's node: the same raft node, a log store that holds the
  simulated disk, a state machine on the storage engine with the contents of the one in memory. Each
  stage of \<open>Core::process_output\<close> keeps this relation to the corresponding stage of the simulator's
  \<open>process_output\<close>, so a server that drains after every event behaves as the node the simulator
  checks.
\<close>

section \<open>The relation\<close>

definition core_sim :: "core_lib \<Rightarrow> (bytes \<times> bytes option) list \<Rightarrow> (bytes \<times> bytes option) list \<Rightarrow> core \<Rightarrow> sim_node \<Rightarrow> bool" where
  "core_sim K lops sops c n \<longleftrightarrow>
     sn_raft n = Some (co_raft c) \<and> ls_holds (cl_storage K) (cl_log K) lops (co_log c) (sn_disk n) \<and>
     dbb_rel (cl_storage K) backend_options sops (co_sm c) (mem.sm_abs (sn_sm n)) \<and> mem.sm_ok (sn_sm n) \<and>
     co_applied c = sn_applied n \<and> co_applied_since_snap c = sn_applied_since_snap n \<and> length sops \<le> usize_max"

definition core_lib_ok :: "core_lib \<Rightarrow> bool" where
  "core_lib_ok K \<longleftrightarrow> log_lib_ok (cl_log K) \<and> man_lib_ok (lib_man (cl_storage K)) \<and> env_ok (cl_env K)"

text \<open>One more batch fits the formats of the storage engine.\<close>

definition room_for :: "storage_lib \<Rightarrow> options \<Rightarrow> (bytes \<times> bytes option) list \<Rightarrow> (bytes \<times> bytes option) list \<Rightarrow> bool" where
  "room_for L opts ops new \<longleftrightarrow>
     history_fits L opts (ops @ new) \<and> (new \<noteq> [] \<longrightarrow> batch_ok L ops new) \<and> length (ops @ new) \<le> usize_max"

section \<open>The calls of the backend return\<close>

lemma op_stop_None:
  assumes life: "db_life L opts ops db" and man: "man_lib_ok (lib_man L)" and opts: "opts_ok opts"
    and fit: "writes_fit L opts ops (op_writes x (contents ops))"
  shows "op_stop L x db = None"
proof -
  note meth = dbb_methods [OF life man opts]
  have set: "write_stop (dbb_set L k v db) = None" if "writes_fit L opts ops [(k, v)]" for k v
  proof -
    have "history_fits L opts (ops @ [(k, v)])" "batch_ok L ops [(k, v)]" using that by (simp_all add: writes_fit_def)
    from meth(2) [OF this] show ?thesis by (auto simp: write_stop_def read_stop_def)
  qed
  show ?thesis using fit set by (cases x) (auto simp: meth(1) read_stop_def)
qed

lemma apply_stop_None:
  assumes rel: "dbb_rel L opts ops sm st" and man: "man_lib_ok (lib_man L)" and opts: "opts_ok opts"
    and fit: "writes_fit L opts ops (cmd_writes cmd st)"
  shows "apply_stop L cmd sm = None"
proof -
  have life: "db_life L opts ops (sm_backend sm)" and st: "fst st = contents ops" "snd st = bt_get (sm_sessions sm)"
    using rel by (simp_all add: dbb_rel_def)
  show ?thesis
    using fit op_stop_None [OF life man opts, of "cmd_op cmd"]
    by (auto simp: apply_stop_def cmd_writes_def st split: option.splits if_splits)
qed

lemma serve_read_returns:
  assumes life: "db_life (cl_storage K) opts sops (sm_backend (co_sm c))" and man: "man_lib_ok (lib_man (cl_storage K))"
    and opts: "opts_ok opts"
  shows "\<exists>resp. serve_read K c req = Inr resp"
proof (cases req)
  case (ReadGet key)
  then show ?thesis using dbb_methods(1) [OF life man opts] by (simp add: read_stop_def unless_stop_def)
next
  case (ReadScan start e limit)
  have "\<exists>kvs. scan_at (cl_storage K) (sm_backend (co_sm c)) start e limit (db_seq (sm_backend (co_sm c))) = Inr kvs"
    using life_reads(3) [OF life man opts disjI1 [OF refl]] by blast
  then show ?thesis using ReadScan by (auto simp: dbb_scan_def db_scan_def read_stop_def unless_stop_def)
qed

lemma serve_ready_returns:
  assumes "db_life (cl_storage K) opts sops (sm_backend (co_sm c))" and "man_lib_ok (lib_man (cl_storage K))"
    and opts: "opts_ok opts"
  shows "\<exists>c'. serve_ready K rs c = Inr c'"
  using assms(1,2)
proof (induction K rs c rule: serve_ready.induct)
  case (2 K rid idx rest c)
  show ?case
  proof (cases "idx \<le> co_applied c")
    case False
    then show ?thesis using 2(3) [OF False] 2(4,5) by simp
  next
    case True
    show ?thesis
    proof (cases "bt_get (co_reads c) rid")
      case None
      then show ?thesis using 2(1) [OF True None 2(4,5)] True by simp
    next
      case (Some r)
      let ?c = "c\<lparr>co_reads := bt_remove rid (co_reads c)\<rparr>"
      have "db_life (cl_storage K) opts sops (sm_backend (co_sm ?c))" using 2(4) by simp
      from serve_read_returns [OF this 2(5) opts] obtain resp where "serve_read K ?c (rd_req r) = Inr resp" by blast
      then have ans: "answer_read K (rd_req r) (rd_tx r) ?c = Inr (answer (rd_tx r) resp ?c)" by (simp only: answer_read_def sum.case)
      have "db_life (cl_storage K) opts sops (sm_backend (co_sm (answer (rd_tx r) resp ?c)))"
        using 2(4) by (simp add: answer_def)
      from 2(2) [OF True Some ans this 2(5)] show ?thesis using True Some ans by (simp only: serve_ready.simps if_True option.case sum.case)
    qed
  qed
qed simp

section \<open>The stages\<close>

lemma core_persist_sim:
  assumes lib: "core_lib_ok K" and sim: "core_sim K lops sops c n"
    and j: "output_joins o' (sn_disk n)" and room: "room_for (cl_storage K) log_options lops (output_ops (cl_log K) o' (co_log c))"
  shows "\<exists>log. core_persist K o' c = Inr (c\<lparr>co_log := log\<rparr>) \<and>
    ls_holds (cl_storage K) (cl_log K) (lops @ output_ops (cl_log K) o' (co_log c)) log (persist_output o' (sn_disk n))"
proof -
  let ?L = "cl_storage K" and ?B = "cl_log K"
  have holds: "ls_holds ?L ?B lops (co_log c) (sn_disk n)" using sim by (simp add: core_sim_def)
  obtain log where log: "ls_persist ?L ?B (o_hard_state o') (o_append o') (o_snapshot o') (co_log c) = Some (Inr log)"
    "ls_holds ?L ?B (lops @ output_ops ?B o' (co_log c)) log (persist_output o' (sn_disk n))"
    using ls_persist_holds [OF holds _ j] lib room by (auto simp: core_lib_ok_def room_for_def)
  show ?thesis
  proof (cases "o_hard_state o' \<noteq> None \<or> o_append o' \<noteq> [] \<or> o_snapshot o' \<noteq> None")
    case True
    then show ?thesis using log by (intro exI [of _ log]) (simp add: core_persist_def)
  next
    case False
    then have "log = co_log c" using log(1)
      by (cases "co_log c") (simp add: ls_persist_def persist_ops_def snap_part_def append_part_def)
    then show ?thesis using log(2) False by (intro exI [of _ log]) (simp add: core_persist_def)
  qed
qed

text \<open>The writes of a restore, and the relation after it.\<close>

definition restore_writes :: "core_lib \<Rightarrow> raft_output \<Rightarrow> core \<Rightarrow> (bytes \<times> bytes option) list" where
  "restore_writes K o' c =
     (case o_snapshot o' of
        None \<Rightarrow> []
      | Some snap \<Rightarrow>
          (case dec_snap (cl_env K) (s_data snap) of
             None \<Rightarrow> []
           | Some p \<Rightarrow>
               (case dbb_dump (cl_storage K) (sm_backend (co_sm c)) of
                  Inl _ \<Rightarrow> []
                | Inr existing \<Rightarrow> load_ops existing (pl_kvs p))))"

lemma dbb_restore:
  assumes rel: "dbb_rel L opts sops sm st" and man: "man_lib_ok (lib_man L)" and opts: "opts_ok opts"
    and len: "length sops \<le> usize_max" and dec: "dec data = Some p"
    and dump: "dbb_dump L (sm_backend sm) = Inr existing" and room: "room_for L opts sops (load_ops existing (pl_kvs p))"
  shows "\<exists>sm'. sm_restore (dbb_view L) dec data sm = Some sm' \<and>
    write_stop (dbb_clear_and_load L (pl_kvs p) (sm_backend sm)) = None \<and>
    dbb_rel L opts (sops @ load_ops existing (pl_kvs p)) sm' (map_of (rev (pl_kvs p)), bt_get (bt_collect (pl_sessions p)))"
proof -
  let ?W = "load_ops existing (pl_kvs p)"
  have life: "db_life L opts sops (sm_backend sm)" using rel by (simp add: dbb_rel_def)
  have ex: "map_of existing = contents sops" "distinct (map fst existing)"
    using dump_life [OF life man opts len] dump by (auto simp: strict_sorted_iff)
  have "\<exists>db'. dbb_clear_and_load L (pl_kvs p) (sm_backend sm) = Some (Inr db') \<and> db_life L opts (sops @ ?W) db' \<and>
      contents (sops @ ?W) = map_of (rev (pl_kvs p))"
  proof (cases "?W = []")
    case True
    then have "dbb_clear_and_load L (pl_kvs p) (sm_backend sm) = Some (Inr (sm_backend sm))"
      by (simp add: dbb_clear_and_load_def dump)
    then show ?thesis using life True load_contents [OF ex, of "pl_kvs p"] by simp
  next
    case False
    then show ?thesis
      using dbb_methods(3) [OF life man opts len dump, of "pl_kvs p"] room by (simp add: room_for_def)
  qed
  then show ?thesis
    by (auto simp: sm_restore_def dec dbb_rel_def dbb_view_def mem_load write_stop_def read_stop_def)
qed

lemma restore_sm_sim:
  assumes rel: "dbb_rel (cl_storage K) opts sops sm st" and man: "man_lib_ok (lib_man (cl_storage K))" and opts: "opts_ok opts"
    and len: "length sops \<le> usize_max" and dec: "dec_snap (cl_env K) data = Some p"
    and dump: "dbb_dump (cl_storage K) (sm_backend sm) = Inr existing"
    and room: "room_for (cl_storage K) opts sops (load_ops existing (pl_kvs p))"
  shows "\<exists>sm'. restore_sm K data sm = Inr sm' \<and>
    dbb_rel (cl_storage K) opts (sops @ load_ops existing (pl_kvs p)) sm' (map_of (rev (pl_kvs p)), bt_get (bt_collect (pl_sessions p)))"
  using dbb_restore [where dec = "dec_snap (cl_env K)" and data = data, OF rel man opts len dec dump room] dec
  by (auto simp: restore_sm_def restore_stop_def unless_stop_def)

lemma core_install_sim:
  assumes lib: "core_lib_ok K" and E: "cl_env K = E"
    and rel: "dbb_rel (cl_storage K) backend_options sops (co_sm c) (mem.sm_abs (sn_sm n))" "mem.sm_ok (sn_sm n)" "length sops \<le> usize_max"
    and holds: "ls_holds (cl_storage K) (cl_log K) lops (co_log c) (persist_output o' (sn_disk n))"
    and r: "sn_raft n = Some (co_raft c)" and ap: "co_applied c = sn_applied n" "co_applied_since_snap c = sn_applied_since_snap n"
    and st: "persist_stage E o' n = Inr n1" and room: "room_for (cl_storage K) backend_options sops (restore_writes K o' c)"
  shows "\<exists>c'. core_install K o' c = Inr c' \<and> core_sim K lops (sops @ restore_writes K o' c) c' n1 \<and>
    (\<exists>sm i j. c' = c\<lparr>co_sm := sm, co_applied := i, co_applied_since_snap := j\<rparr>)"
proof (cases "o_snapshot o'")
  case None
  then have n1: "n1 = n\<lparr>sn_disk := persist_output o' (sn_disk n)\<rparr>" using st by (simp add: persist_stage_def)
  have "core_install K o' c = Inr c" "restore_writes K o' c = []" using None by (simp_all add: core_install_def restore_writes_def)
  moreover have "core_sim K lops sops c n1" using n1 rel holds r ap by (simp add: core_sim_def)
  moreover have "c = c\<lparr>co_sm := co_sm c, co_applied := co_applied c, co_applied_since_snap := co_applied_since_snap c\<rparr>" by simp
  ultimately show ?thesis by (metis append_Nil2)
next
  case (Some snap)
  let ?L = "cl_storage K"
  obtain p where p: "dec_snap E (s_data snap) = Some p"
    using st Some by (auto simp: persist_stage_def sm_restore_def Let_def split: option.splits)
  let ?msm = "\<lparr>sm_backend = bt_collect (pl_kvs p), sm_sessions = bt_collect (pl_sessions p)\<rparr> :: mem_backend state_machine"
  have n1: "n1 = n\<lparr>sn_disk := persist_output o' (sn_disk n), sn_sm := ?msm, sn_applied := s_last_index snap, sn_applied_since_snap := 0\<rparr>"
    using st Some p by (auto simp: persist_stage_def sm_restore_def mem_backend_def mem_clear_and_load_def Let_def)
  have man: "man_lib_ok (lib_man ?L)" using lib by (simp add: core_lib_ok_def)
  have life: "db_life ?L backend_options sops (sm_backend (co_sm c))" using rel(1) by (simp add: dbb_rel_def)
  obtain existing where ex: "dbb_dump ?L (sm_backend (co_sm c)) = Inr existing"
    using dump_life [OF life man backend_opts_ok rel(3)] by blast
  have w: "restore_writes K o' c = load_ops existing (pl_kvs p)" using Some p ex E by (simp add: restore_writes_def)
  obtain sm' where sm': "restore_sm K (s_data snap) (co_sm c) = Inr sm'"
    "dbb_rel ?L backend_options (sops @ restore_writes K o' c) sm' (map_of (rev (pl_kvs p)), bt_get (bt_collect (pl_sessions p)))"
    using restore_sm_sim [OF rel(1) man backend_opts_ok rel(3) p [folded E] ex] room w by auto
  let ?c = "c\<lparr>co_sm := sm', co_applied := s_last_index snap, co_applied_since_snap := 0\<rparr>"
  have abs: "mem.sm_abs ?msm = (map_of (rev (pl_kvs p)), bt_get (bt_collect (pl_sessions p)))"
    by (simp add: mem.sm_abs_def mem_load)
  have "mem.sm_ok ?msm" by (simp add: mem.sm_ok_def mem_load)
  then have "core_sim K lops (sops @ restore_writes K o' c) ?c n1"
    using sm'(2) holds r room by (simp add: core_sim_def n1 abs room_for_def)
  moreover have "core_install K o' c = Inr ?c" using Some sm'(1) by (simp add: core_install_def)
  ultimately show ?thesis by blast
qed

subsection \<open>Applying\<close>

definition committed_cmds :: "sim_env \<Rightarrow> Raft_Types.entry list \<Rightarrow> command list" where
  "committed_cmds E es = concat (map (entry_cmds E \<circ> e_payload) es)"

lemma committed_cmds_simps [simp]:
  "committed_cmds E [] = []"
  "committed_cmds E (e # es) = entry_cmds E (e_payload e) @ committed_cmds E es"
  by (simp_all add: committed_cmds_def)

lemma run_writes_append:
  "run_writes (cs @ ds) st = run_writes cs st @ run_writes ds (snd (kv_answers cs st))"
  by (induction cs arbitrary: st) (simp_all add: Let_def split_beta)

lemma core_apply_sim:
  assumes lib: "core_lib_ok K" and E: "cl_env K = E" and sim: "core_sim K lops sops c n"
    and st: "apply_entry E e (n, ag, rs) = Inr (n', ag', rs')"
    and fit: "writes_fit (cl_storage K) backend_options sops (run_writes (entry_cmds E (e_payload e)) (mem.sm_abs (sn_sm n)))"
    and len: "length (sops @ run_writes (entry_cmds E (e_payload e)) (mem.sm_abs (sn_sm n))) \<le> usize_max"
  shows "\<exists>c'. core_apply K e c = Inr c' \<and>
    core_sim K lops (sops @ run_writes (entry_cmds E (e_payload e)) (mem.sm_abs (sn_sm n))) c' n' \<and>
    mem.sm_abs (sn_sm n') = snd (kv_answers (entry_cmds E (e_payload e)) (mem.sm_abs (sn_sm n))) \<and>
    co_peers c' = co_peers c \<and> co_sent c' = co_sent c \<and> co_snapshot_every c' = co_snapshot_every c"
proof (cases "\<exists>data. e_payload e = Normal data")
  case False
  then have "core_apply K e c = Inr (c\<lparr>co_applied := e_index e, co_applied_since_snap := co_applied_since_snap c + 1\<rparr>)"
    "entry_cmds E (e_payload e) = []"
    by (cases "e_payload e"; simp add: core_apply_def)+
  moreover have "n' = n\<lparr>sn_applied := e_index e, sn_applied_since_snap := sn_applied_since_snap n + 1\<rparr>"
    using st False by (cases "e_payload e") (auto simp: apply_entry_def split: sum.splits)
  ultimately show ?thesis using sim by (simp add: core_sim_def)
next
  case True
  then obtain data cmd where d: "e_payload e = Normal data" "dec_cmd E data = Some cmd"
    using st by (auto simp: apply_entry_def split: sum.splits option.splits)
  let ?n = "fst (apply_cmd cmd n)"
  have n': "n' = ?n\<lparr>sn_applied := e_index e, sn_applied_since_snap := sn_applied_since_snap ?n + 1\<rparr>"
    using st d by (auto simp: apply_entry_def split: sum.splits prod.splits)
  have since: "sn_applied_since_snap ?n = sn_applied_since_snap n" by (simp add: apply_cmd_def Let_def case_prod_beta)
  have cmds: "entry_cmds E (e_payload e) = [cmd]" using d by simp
  let ?st = "mem.sm_abs (sn_sm n)" and ?L = "cl_storage K"
  have rel: "dbb_rel ?L backend_options sops (co_sm c) ?st" and mok: "mem.sm_ok (sn_sm n)"
    using sim by (simp_all add: core_sim_def)
  have man: "man_lib_ok (lib_man ?L)" using lib by (simp add: core_lib_ok_def)
  have fits: "writes_fit ?L backend_options sops (cmd_writes cmd ?st)" using fit by (simp add: cmds)
  note a = dbb_apply [OF rel man backend_opts_ok fits] and m = mem.apply_refines [OF mok, of cmd]
  obtain c1 where run: "core_apply_cmd K cmd c = Inr c1"
    using apply_stop_None [OF rel man backend_opts_ok fits] by (simp add: core_apply_cmd_def unless_stop_def)
  let ?c = c1
  have f: "co_sm ?c = snd (sm_apply (dbb_view ?L) cmd (co_sm c))" "co_raft ?c = co_raft c" "co_log ?c = co_log c"
    "co_applied_since_snap ?c = co_applied_since_snap c" "co_peers ?c = co_peers c" "co_sent ?c = co_sent c"
    "co_snapshot_every ?c = co_snapshot_every c"
    using run by (auto simp: core_apply_cmd_def unless_stop_def answer_def Let_def case_prod_beta split: option.splits)
  have "core_apply K e c = Inr (?c\<lparr>co_applied := e_index e, co_applied_since_snap := co_applied_since_snap ?c + 1\<rparr>)"
    using d E run by (simp add: core_apply_def)
  moreover have "core_sim K lops (sops @ run_writes [cmd] ?st)
      (?c\<lparr>co_applied := e_index e, co_applied_since_snap := co_applied_since_snap ?c + 1\<rparr>) n'"
    using sim a m len unfolding core_sim_def n' cmds by (simp add: f apply_cmd_sel since)
  moreover have "mem.sm_abs (sn_sm n') = snd (kv_answers [cmd] ?st)"
    using m by (simp add: n' apply_cmd_sel Let_def split_beta)
  ultimately show ?thesis unfolding cmds by (simp add: f)
qed

lemma core_apply_all_sim:
  assumes lib: "core_lib_ok K" and E: "cl_env K = E" and sim: "core_sim K lops sops c n"
    and st: "apply_entries E es (n, ag, rs) = Inr (n', ag', rs')"
    and fit: "writes_fit (cl_storage K) backend_options sops (run_writes (committed_cmds E es) (mem.sm_abs (sn_sm n)))"
    and len: "length (sops @ run_writes (committed_cmds E es) (mem.sm_abs (sn_sm n))) \<le> usize_max"
  shows "\<exists>c'. core_apply_all K es c = Inr c' \<and>
    core_sim K lops (sops @ run_writes (committed_cmds E es) (mem.sm_abs (sn_sm n))) c' n' \<and>
    co_peers c' = co_peers c \<and> co_sent c' = co_sent c \<and> co_snapshot_every c' = co_snapshot_every c"
  using sim st fit len
proof (induction es arbitrary: sops c n ag rs)
  case Nil
  then show ?case by simp
next
  case (Cons e es)
  obtain n1 ag1 rs1 where 1: "apply_entry E e (n, ag, rs) = Inr (n1, ag1, rs1)" "apply_entries E es (n1, ag1, rs1) = Inr (n', ag', rs')"
    using Cons.prems(2) by (auto split: sum.splits)
  let ?st = "mem.sm_abs (sn_sm n)"
  let ?W = "run_writes (entry_cmds E (e_payload e)) ?st"
  let ?st1 = "snd (kv_answers (entry_cmds E (e_payload e)) ?st)"
  have w: "run_writes (committed_cmds E (e # es)) ?st = ?W @ run_writes (committed_cmds E es) ?st1"
    by (simp add: run_writes_append)
  note fit = writes_fit_append [OF Cons.prems(3) [unfolded w]]
  have len: "length (sops @ ?W) \<le> usize_max" using Cons.prems(4) w by simp
  obtain c1 where c1: "core_apply K e c = Inr c1" "core_sim K lops (sops @ ?W) c1 n1" "mem.sm_abs (sn_sm n1) = ?st1"
    "co_peers c1 = co_peers c" "co_sent c1 = co_sent c" "co_snapshot_every c1 = co_snapshot_every c"
    using core_apply_sim [OF lib E Cons.prems(1) 1(1) fit(1) len] by blast
  from Cons.IH [OF c1(2) 1(2)] fit(2) Cons.prems(4) w c1(3)
  obtain c' where "core_apply_all K es c1 = Inr c'"
    "core_sim K lops ((sops @ ?W) @ run_writes (committed_cmds E es) ?st1) c' n'"
    "co_peers c' = co_peers c1" "co_sent c' = co_sent c1" "co_snapshot_every c' = co_snapshot_every c1" by auto
  then show ?case using c1 w by simp
qed

subsection \<open>Compaction and reads\<close>

text \<open>Both state machines serialise to the same snapshot.\<close>

lemma snapshots_equal:
  assumes rel: "dbb_rel L opts sops sm (mem.sm_abs msm)" and ok: "mem.sm_ok msm" and man: "man_lib_ok (lib_man L)"
    and opts: "opts_ok opts" and len: "length sops \<le> usize_max"
  shows "sm_snapshot (dbb_view L) enc iter sm = sm_snapshot mem_backend enc iter msm"
proof -
  have life: "db_life L opts sops (sm_backend sm)" and c: "contents sops = bt_get (sm_backend msm)"
    and s: "bt_get (sm_sessions sm) = bt_get (sm_sessions msm)" "bt_ok (sm_sessions sm)"
    using rel by (simp_all add: dbb_rel_def mem.sm_abs_def)
  obtain pairs where p: "dbb_dump L (sm_backend sm) = Inr pairs" "sorted_wrt (<) (map fst pairs)" "map_of pairs = contents sops"
    using dump_life [OF life man opts len] by blast
  have "pairs = sm_backend msm"
    using ok p(2,3) c by (intro sorted_pairs_unique) (simp_all add: mem.sm_ok_def bt_ok_def fun_eq_iff bt_get_def)
  moreover have "sm_sessions sm = sm_sessions msm"
    using s ok by (intro bt_ok_eqI) (simp_all add: mem.sm_ok_def)
  ultimately show ?thesis using p(1) by (simp add: sm_snapshot_def sm_payload_def dbb_view_def mem_backend_def)
qed

definition compact_writes :: "core_lib \<Rightarrow> core \<Rightarrow> (bytes \<times> bytes option) list" where
  "compact_writes K c =
     (if co_snapshot_every c \<le> co_applied_since_snap c
      then case fst (compact (co_applied c)
                  (sm_snapshot (core_backend K) (enc_snap (cl_env K)) (hash_iter (cl_env K)) (co_sm c)) (co_raft c)) of
             None \<Rightarrow> []
           | Some snap \<Rightarrow> fst (compact_ops (cl_log K) snap (ls_first_index (co_log c), ls_last_index (co_log c)))
      else [])"

lemma core_compact_sim:
  assumes lib: "core_lib_ok K" and E: "cl_env K = E" and sim: "core_sim K lops sops c n"
    and st: "compact_stage E cf n = Inr n'" and every: "co_snapshot_every c = sc_snapshot_every cf"
    and room: "room_for (cl_storage K) log_options lops (compact_writes K c)"
  shows "\<exists>c'. core_compact K c = Inr c' \<and> core_sim K (lops @ compact_writes K c) sops c' n' \<and>
    co_peers c' = co_peers c \<and> co_sent c' = co_sent c \<and> co_snapshot_every c' = co_snapshot_every c"
proof (cases "co_snapshot_every c \<le> co_applied_since_snap c")
  case False
  then show ?thesis using sim st every by (auto simp: core_compact_def compact_stage_def core_sim_def compact_writes_def)
next
  case True
  have f: "sn_raft n = Some (co_raft c)" "co_applied c = sn_applied n" "co_applied_since_snap c = sn_applied_since_snap n"
    and rel: "dbb_rel (cl_storage K) backend_options sops (co_sm c) (mem.sm_abs (sn_sm n))" "mem.sm_ok (sn_sm n)" "length sops \<le> usize_max"
    and holds: "ls_holds (cl_storage K) (cl_log K) lops (co_log c) (sn_disk n)"
    using sim by (simp_all add: core_sim_def)
  have man: "man_lib_ok (lib_man (cl_storage K))" using lib by (simp add: core_lib_ok_def)
  define data where "data = sm_snapshot mem_backend (enc_snap E) (hash_iter E) (sn_sm n)"
  have data: "sm_snapshot (core_backend K) (enc_snap E) (hash_iter E) (co_sm c) = data"
    unfolding data_def by (rule snapshots_equal [OF rel(1,2) man backend_opts_ok rel(3)])
  have "db_life (cl_storage K) backend_options sops (sm_backend (co_sm c))" using rel(1) by (simp add: dbb_rel_def)
  from dump_life [OF this man backend_opts_ok rel(3)] have dump: "read_stop (dbb_dump (cl_storage K) (sm_backend (co_sm c))) = None"
    by (auto simp: read_stop_def)
  obtain so r where cp: "compact (co_applied c) data (co_raft c) = (so, r)" by fastforce
  show ?thesis
  proof (cases so)
    case None
    then have "n' = n\<lparr>sn_raft := Some r, sn_applied_since_snap := 0\<rparr>"
      using st True every f cp by (simp add: compact_stage_def data_def [symmetric])
    then show ?thesis
      using True None cp rel holds f E data dump by (simp add: core_compact_def core_sim_def compact_writes_def)
  next
    case (Some snap)
    then have n': "n' = n\<lparr>sn_raft := Some r, sn_disk := disk_compact snap (sn_disk n), sn_applied_since_snap := 0\<rparr>"
      using st True every f cp by (simp add: compact_stage_def data_def [symmetric])
    have w: "compact_writes K c = fst (compact_ops (cl_log K) snap (ls_first_index (co_log c), ls_last_index (co_log c)))"
      using True Some cp E data by (simp add: compact_writes_def)
    have "compact_writes K c \<noteq> []" by (simp add: w compact_ops_def Let_def)
    then obtain log where log: "ls_compact_to (cl_storage K) (cl_log K) snap (co_log c) = Some (Inr log)"
      "ls_holds (cl_storage K) (cl_log K) (lops @ compact_writes K c) log (disk_compact snap (sn_disk n))"
      using ls_compact_holds [OF holds man, of snap] room by (auto simp: room_for_def w)
    then show ?thesis
      using True Some cp rel f E data dump by (simp add: core_compact_def core_sim_def n')
  qed
qed

section \<open>Opening\<close>

text \<open>The state \<open>Core::open\<close> restores: the snapshot's, or the empty one.\<close>

definition restart_payload :: "sim_env \<Rightarrow> persisted \<Rightarrow> snapshot_payload option" where
  "restart_payload E d =
     (case p_snapshot d of
        None \<Rightarrow> Some (sm_payload mem_backend (hash_iter E) (sm_new bt_empty))
      | Some s \<Rightarrow> dec_snap E (s_data s))"

definition restart_applied :: "persisted \<Rightarrow> index" where
  "restart_applied d = (case p_snapshot d of None \<Rightarrow> 0 | Some s \<Rightarrow> s_last_index s)"

lemma core_open_sim:
  assumes lib: "core_lib_ok K" and log: "ls_open (cl_storage K) (cl_log K) raft_dir = Some (Inr (log, d))"
    and b: "db_open (cl_storage K) backend_options sm_dir = Some (Inr b)" "db_life (cl_storage K) backend_options sops b"
    and len: "length sops \<le> usize_max" and p: "restart_payload (cl_env K) d = Some p"
    and dump: "dbb_dump (cl_storage K) b = Inr existing"
    and room: "room_for (cl_storage K) backend_options sops (load_ops existing (pl_kvs p))"
  shows "\<exists>sm. core_open K conf vs every peers raft_dir sm_dir =
      Inr (core_new (raft_node_new conf vs d) log sm (restart_applied d) every peers) \<and>
    dbb_rel (cl_storage K) backend_options (sops @ load_ops existing (pl_kvs p)) sm
      (map_of (rev (pl_kvs p)), bt_get (bt_collect (pl_sessions p)))"
proof -
  let ?E = "cl_env K" and ?L = "cl_storage K"
  have man: "man_lib_ok (lib_man ?L)" and env: "\<And>p. dec_snap ?E (enc_snap ?E p) = Some p"
    using lib by (simp_all add: core_lib_ok_def env_ok_def)
  let ?data = "case p_snapshot d of Some s \<Rightarrow> s_data s | None \<Rightarrow> sm_snapshot mem_backend (enc_snap ?E) (hash_iter ?E) (sm_new bt_empty)"
  have dec: "dec_snap ?E ?data = Some p"
    using p env by (auto simp: restart_payload_def sm_snapshot_def split: option.splits)
  have rel: "dbb_rel ?L backend_options sops (sm_new b) (contents sops, bt_get bt_empty)"
    using b(2) by (simp add: dbb_rel_def sm_new_def)
  obtain sm where sm: "restore_sm K ?data (sm_new b) = Inr sm"
    "dbb_rel ?L backend_options (sops @ load_ops existing (pl_kvs p)) sm (map_of (rev (pl_kvs p)), bt_get (bt_collect (pl_sessions p)))"
    using restore_sm_sim [OF rel man backend_opts_ok len dec] dump room by (auto simp: sm_new_def)
  have "core_restore K (p_snapshot d) b = Inr (sm, restart_applied d)"
    using sm(1) by (cases "p_snapshot d") (simp_all add: core_restore_def restart_applied_def)
  then have "core_open K conf vs every peers raft_dir sm_dir =
      Inr (core_new (raft_node_new conf vs d) log sm (restart_applied d) every peers)"
    by (simp add: core_open_def log dbb_open_def b(1))
  then show ?thesis using sm(2) by blast
qed

lemma empty_life_dump:
  assumes "db_life L opts [] b" "man_lib_ok (lib_man L)" "opts_ok opts"
  shows "dbb_dump L b = Inr []"
proof -
  obtain existing where ex: "dbb_dump L b = Inr existing" "map_of existing = contents []"
    using dump_life [OF assms] by auto
  have "existing = []" using ex(2) by (cases existing) (auto simp: state_at_def fun_eq_iff split: if_splits)
  then show ?thesis using ex(1) by simp
qed

lemma core_open_fresh:
  assumes lib: "core_lib_ok K"
  shows "\<exists>log sm. core_open K conf vs every peers empty_dir empty_dir =
      Inr (core_new (raft_node_new conf vs persisted_default) log sm 0 every peers) \<and>
    ls_holds (cl_storage K) (cl_log K) [] log persisted_default \<and>
    dbb_rel (cl_storage K) backend_options [] sm (mem.sm_abs (sm_new bt_empty))"
proof -
  let ?L = "cl_storage K" and ?B = "cl_log K" and ?E = "cl_env K"
  have man: "man_lib_ok (lib_man ?L)" and B: "log_lib_ok ?B" and it: "\<And>xs. mset (hash_iter ?E xs) = mset xs"
    using lib by (simp_all add: core_lib_ok_def env_ok_def)
  obtain db where db: "db_open ?L log_options empty_dir = Some (Inr db)" "db_life ?L log_options [] db"
    using life_create [OF man log_opts_ok] by blast
  obtain b where b: "db_open ?L backend_options empty_dir = Some (Inr b)" "db_life ?L backend_options [] b"
    using life_create [OF man backend_opts_ok] by blast
  define log where "log = \<lparr>ls_db = db, ls_first_index = 0, ls_last_index = 0\<rparr>"
  have log: "ls_open ?L ?B empty_dir = Some (Inr (log, persisted_default))" "ls_holds ?L ?B [] log persisted_default"
    using ls_open_life [OF db fresh_store [OF db(2)] B man] by (simp_all add: log_def)
  have "hash_iter ?E [] = []" using it [of "[]"] by simp
  then have p: "restart_payload ?E persisted_default = Some \<lparr>pl_kvs = [], pl_sessions = []\<rparr>"
    by (simp add: restart_payload_def persisted_default_def sm_payload_def mem_backend_def sm_new_def bt_empty_def)
  note ex = empty_life_dump [OF b(2) man backend_opts_ok]
  have w: "load_ops [] [] = []" by (simp add: load_ops_def)
  obtain sm where "core_open K conf vs every peers empty_dir empty_dir =
      Inr (core_new (raft_node_new conf vs persisted_default) log sm (restart_applied persisted_default) every peers)"
    "dbb_rel ?L backend_options [] sm (Map.empty, bt_get bt_empty)"
    using core_open_sim [OF lib log(1) b _ p ex, of conf vs every peers]
    by (auto simp: w room_for_def history_fits_Nil bt_collect_def)
  moreover have "restart_applied persisted_default = 0" by (simp add: restart_applied_def persisted_default_def)
  moreover have "mem.sm_abs (sm_new bt_empty) = (Map.empty, bt_get bt_empty)"
    by (simp add: mem.sm_abs_def sm_new_def fun_eq_iff)
  ultimately show ?thesis using log(2) by auto
qed

end
