(* ===== verification/Raft_Appends.thy ===== *)
theory Raft_Appends
  imports Raft_Node
begin

text \<open>
  What a raft node hands its driver to append to the log: one event yields entries with consecutive
  indexes that join the log as it was before the event. The log store of the server relies on it.
\<close>

section \<open>Operations that leave the log and the appended entries alone\<close>

abbreviation appended :: "raft_node \<Rightarrow> entry list" where
  "appended n \<equiv> o_append (out n)"

definition same_log :: "raft_node \<Rightarrow> raft_node \<Rightarrow> bool" where
  "same_log n n' \<longleftrightarrow> rlog n' = rlog n \<and> appended n' = appended n"

lemma same_log_refl: "same_log n n"
  by (simp add: same_log_def)

lemma same_log_trans: "same_log a b \<Longrightarrow> same_log b c \<Longrightarrow> same_log a c"
  by (simp add: same_log_def)

lemma same_log_fold: "(\<And>x m. same_log m (f x m)) \<Longrightarrow> same_log n (fold f xs n)"
  by (induction xs arbitrary: n) (auto intro: same_log_refl same_log_trans)

lemma reset_timer_log: "same_log n (reset_election_timer n)"
  by (simp add: same_log_def reset_election_timer_def next_rand_def Let_def)

lemma push_msg_log: "same_log n (push_msg dst t b n)"
  by (simp add: same_log_def push_msg_def)

lemma set_progress_log: "same_log n (set_progress peer p n)"
  by (simp add: same_log_def set_progress_def)

lemma hard_state_log: "same_log n (set_term t n)" "same_log n (set_vote v n)"
  by (simp_all add: same_log_def set_term_def set_vote_def Let_def)

lemma send_append_log: "same_log n (send_append peer n)"
  by (auto simp: send_append_def send_entries_def Let_def push_msg_def set_progress_def same_log_def split: option.splits)

lemma sync_progress_log: "same_log n (sync_progress_with_voters n)"
  by (simp add: sync_progress_with_voters_def same_log_def Let_def)

lemma broadcast_log: "same_log n (broadcast_append n)"
  unfolding broadcast_append_def Let_def
  by (rule same_log_trans [OF sync_progress_log same_log_fold]) (rule send_append_log)

lemma become_follower_log: "same_log n (become_follower t ldr n)"
  using hard_state_log(1) [of n t] hard_state_log(2) [of "set_term t n" None]
  by (auto simp: become_follower_def same_log_def Let_def reset_timer_log [unfolded same_log_def])

lemma commit_one_log: "same_log (fst st) (fst (commit_one idx st))"
  by (auto simp: commit_one_def same_log_def split: prod.splits option.splits)

lemma commit_all_log: "same_log (fst st) (fst (fold commit_one is st))"
proof (induction "is" arbitrary: st)
  case (Cons i "is")
  show ?case using same_log_trans [OF commit_one_log Cons.IH [of "commit_one i st"]] by simp
qed (simp add: same_log_refl)

lemma advance_commit_log: "same_log n (advance_commit_to k n)"
proof -
  obtain n1 b where f: "fold commit_one [commit n + 1..<k + 1] (n\<lparr>commit := k\<rparr>, False) = (n1, b)" by fastforce
  have "same_log n n1" using commit_all_log [of "(n\<lparr>commit := k\<rparr>, False)" "[commit n + 1..<k + 1]"] f by (simp add: same_log_def)
  then show ?thesis using same_log_trans [OF _ become_follower_log] unfolding advance_commit_to_def Let_def f by simp
qed

lemma maybe_advance_log: "same_log n (maybe_advance_commit n)"
  by (simp add: maybe_advance_commit_def Let_def same_log_refl advance_commit_log)

lemma read_acks_log: "same_log n (process_read_acks n)"
  by (simp add: process_read_acks_def release_reads_def same_log_def Let_def)

lemma handle_append_resp_log: "same_log n (handle_append_resp src ok mi ci rc n)"
proof -
  let ?acks = "\<lambda>p. process_read_acks (maybe_advance_commit (set_progress src p n))"
  have "same_log n (?acks p)" for p
    by (meson same_log_trans set_progress_log maybe_advance_log read_acks_log)
  then have "same_log n (?acks p)" "same_log n (send_append src (?acks p))" "same_log n (send_append src (set_progress src p n))" for p
    by (meson same_log_trans set_progress_log send_append_log)+
  then show ?thesis
    by (auto simp: handle_append_resp_def Let_def same_log_refl set_progress_log split: option.splits)
qed

lemma handle_snapshot_resp_log: "same_log n (handle_install_snapshot_resp src li n)"
proof -
  have "same_log n (send_append src (maybe_advance_commit (set_progress src p n)))" for p
    by (meson same_log_trans set_progress_log maybe_advance_log send_append_log)
  then show ?thesis by (auto simp: handle_install_snapshot_resp_def Let_def same_log_refl split: option.splits)
qed

section \<open>The shape of the appended entries\<close>

definition in_sequence :: "entry list \<Rightarrow> bool" where
  "in_sequence es \<longleftrightarrow> (\<forall>k < length es. e_index (es ! k) = e_index (hd es) + k)"

lemma in_sequence_drop: "in_sequence es \<Longrightarrow> in_sequence (drop k es)"
  by (cases "k < length es") (simp_all add: in_sequence_def hd_drop_conv_nth)

lemma in_sequence_tl:
  assumes "in_sequence (e # es)"
  shows "in_sequence es" "es \<noteq> [] \<Longrightarrow> e_index (hd es) = Suc (e_index e)"
proof -
  show "in_sequence es" using in_sequence_drop [OF assms, of 1] by simp
  show "e_index (hd es) = Suc (e_index e)" if "es \<noteq> []"
    using assms [unfolded in_sequence_def, THEN spec, of 1] that by (simp add: hd_conv_nth)
qed

lemma in_sequence_snoc:
  assumes "in_sequence es" "es \<noteq> [] \<Longrightarrow> e_index e = e_index (hd es) + length es"
  shows "in_sequence (es @ [e])"
  using assms by (auto simp: in_sequence_def nth_append less_Suc_eq hd_append)

text \<open>The entries appended since the log ended at \<open>l\<close>.\<close>

definition joined :: "index \<Rightarrow> raft_node \<Rightarrow> bool" where
  "joined l n \<longleftrightarrow> in_sequence (appended n) \<and>
     (if appended n = [] then last_index (rlog n) = l
      else 0 < e_index (hd (appended n)) \<and> e_index (hd (appended n)) \<le> Suc l \<and> Suc (last_index (rlog n)) = e_index (hd (appended n)) + length (appended n))"

definition append_shape :: "index \<Rightarrow> raft_node \<Rightarrow> bool" where
  "append_shape l n \<longleftrightarrow> in_sequence (appended n) \<and> (appended n \<noteq> [] \<longrightarrow> 0 < e_index (hd (appended n)) \<and> e_index (hd (appended n)) \<le> Suc l)"

lemma joined_same: "joined l n \<Longrightarrow> same_log n n' \<Longrightarrow> joined l n'"
  by (simp add: joined_def same_log_def)

lemma joined_cong: "rlog n' = rlog n \<Longrightarrow> out n' = out n \<Longrightarrow> joined l n' = joined l n"
  by (simp add: joined_def)

lemma append_local_joined:
  assumes "joined l n"
  shows "joined l (snd (append_local pl n))"
proof -
  let ?e = "\<lparr>e_term = cur_term n, e_index = last_index (rlog n) + 1, e_payload = pl\<rparr>"
  let ?n = "n\<lparr>rlog := log_push ?e (rlog n), out := (out n)\<lparr>o_append := appended n @ [?e]\<rparr>\<rparr>"
  have "in_sequence (appended n @ [?e])"
    by (rule in_sequence_snoc) (use assms in \<open>auto simp: joined_def split: if_splits\<close>)
  then have "joined l ?n"
    using assms by (auto simp: joined_def last_index_push hd_append split: if_splits)
  moreover have "same_log ?n (broadcast_append (maybe_advance_commit ?n))"
    by (rule same_log_trans [OF maybe_advance_log broadcast_log])
  ultimately show ?thesis using joined_same by (simp add: append_local_def Let_def)
qed

lemma propose_joined: "joined l n \<Longrightarrow> joined l (snd (propose data n))"
  using append_local_joined [of l n "Normal data"] by (simp add: propose_def split_beta)

lemma become_leader_joined:
  assumes "joined l n"
  shows "joined l (become_leader n)"
proof -
  define n2 where "n2 = (let n1 = n\<lparr>role := Leader, leader_id := Some (nid n), heartbeat_elapsed := 0,
                 prs := bt_empty, pending_reads := [], read_ctx_counter := 0\<rparr>;
          nxt = last_index (rlog n1) + 1
       in n1\<lparr>prs := fold (\<lambda>peer m. if peer \<noteq> nid n1
                                          then bt_insert peer (progress_new nxt) m else m)
                             (voters n1) (prs n1)\<rparr>)"
  have "joined l n2" using assms by (simp add: n2_def Let_def joined_def)
  from joined_same [OF append_local_joined [OF this] broadcast_log]
  show ?thesis by (simp add: become_leader_def n2_def Let_def split_beta)
qed

lemma campaign_joined:
  assumes "joined l n"
  shows "joined l (campaign n)"
proof -
  define n2 where "n2 = (set_vote (Some (nid n)) (set_term (cur_term n + 1) n))\<lparr>role := Candidate, leader_id := None,
                  votes := bt_insert (nid n) True bt_empty\<rparr>"
  have "same_log n (set_vote (Some (nid n)) (set_term (cur_term n + 1) n))"
    by (rule same_log_trans [OF hard_state_log])
  then have "joined l n2" using assms by (simp add: n2_def same_log_def joined_def)
  moreover have "same_log n2 (fold (\<lambda>peer m. if peer = nid n2 then m
      else push_msg peer (cur_term m) (RequestVote (last_index (rlog n2)) (last_term (rlog n2))) m) (voters n2) n2)"
    by (rule same_log_fold) (simp add: push_msg_log same_log_refl)
  ultimately show ?thesis
    using become_leader_joined joined_same unfolding campaign_def Let_def n2_def [symmetric] by simp
qed

lemma campaign_pre_joined:
  assumes "joined l n"
  shows "joined l (campaign_pre n)"
proof -
  define n1 where "n1 = n\<lparr>role := PreCandidate, votes := bt_insert (nid n) True bt_empty\<rparr>"
  have "joined l n1" using assms by (simp add: n1_def joined_def)
  moreover have "same_log n1 (fold (\<lambda>peer m. if peer = nid n1 then m
      else push_msg peer (cur_term m + 1) (PreVote (last_index (rlog n1)) (last_term (rlog n1))) m) (voters n1) n1)"
    by (rule same_log_fold) (simp add: push_msg_log same_log_refl)
  ultimately show ?thesis
    using campaign_joined joined_same unfolding campaign_pre_def Let_def n1_def [symmetric] by simp
qed

lemma tick_joined:
  assumes "joined l n"
  shows "joined l (tick n)"
proof -
  have j: "joined l (n\<lparr>tick_counter := a, heartbeat_elapsed := b\<rparr>)" "joined l (n\<lparr>tick_counter := a, election_elapsed := b\<rparr>)" for a b
    using assms by (simp_all add: joined_def)
  have hb: "joined l (broadcast_append (n\<lparr>tick_counter := a, heartbeat_elapsed := b\<rparr>))" for a b
    by (rule joined_same [OF j(1) broadcast_log])
  have el: "joined l (reset_election_timer (n\<lparr>tick_counter := a, election_elapsed := b\<rparr>))" for a b
    by (rule joined_same [OF j(2) reset_timer_log])
  then show ?thesis using hb j campaign_joined campaign_pre_joined by (simp add: tick_def Let_def)
qed

section \<open>Messages\<close>

text \<open>The entries of an append request follow its \<open>prev_log_index\<close>.\<close>

fun entries_follow :: "message_body \<Rightarrow> bool" where
  "entries_follow (AppendEntries p pt es lc rc) \<longleftrightarrow> in_sequence es \<and> (es \<noteq> [] \<longrightarrow> e_index (hd es) = Suc p)"
| "entries_follow _ = True"

lemma find_new_shape:
  assumes "find_new src me cmt l es = Inr (l', new)" "in_sequence es"
    and "es \<noteq> [] \<Longrightarrow> 0 < e_index (hd es) \<and> e_index (hd es) \<le> Suc (last_index l)"
  shows "in_sequence new \<and> (new \<noteq> [] \<longrightarrow> 0 < e_index (hd new) \<and> e_index (hd new) \<le> Suc (last_index l))"
  using assms
proof (induction src me cmt l es rule: find_new.induct)
  case (2 src me cmt l e es)
  show ?case
  proof (cases "log_term l (e_index e) = Some (e_term e)")
    case True
    then have f: "find_new src me cmt l es = Inr (l', new)" using "2.prems"(1) by simp
    have "e_index e \<le> last_index l" using True by (auto simp: log_term_def log_get_def last_index_def split: if_splits)
    then show ?thesis using "2.IH" [OF True refl f] in_sequence_tl [OF "2.prems"(2)] f
      by (cases "es = []") (auto simp: in_sequence_def)
  next
    case False
    then have "new = e # es" using "2.prems"(1) by (auto split: option.splits if_splits)
    then show ?thesis using "2.prems"(2,3) by simp
  qed
qed (simp add: in_sequence_def)

lemma append_shape_same: "append_shape l n \<Longrightarrow> same_log n n' \<Longrightarrow> append_shape l n'"
  by (simp add: append_shape_def same_log_def)

lemma append_shape_Nil: "appended n = [] \<Longrightarrow> append_shape l n"
  by (simp add: append_shape_def in_sequence_def)

lemma joined_shape: "joined l n \<Longrightarrow> append_shape l n"
  by (auto simp: joined_def append_shape_def split: if_splits)

lemma append_verified_shape:
  assumes f: "append_verified src p es lc rc n = Inr n'" and d: "appended n = []" and es: "in_sequence es"
    "es \<noteq> [] \<Longrightarrow> 0 < e_index (hd es) \<and> e_index (hd es) \<le> Suc (last_index (rlog n))"
  shows "append_shape (last_index (rlog n)) n'"
proof -
  obtain l new where fn: "find_new src (nid n) (commit n) (rlog n) es = Inr (l, new)"
    using f by (auto simp: append_verified_def split: sum.splits)
  let ?n = "n\<lparr>rlog := fold log_push new l, out := (out n)\<lparr>o_append := appended n @ new\<rparr>\<rparr>"
  have "append_shape (last_index (rlog n)) ?n" using find_new_shape [OF fn es] d by (simp add: append_shape_def)
  moreover have "same_log ?n n'"
    using f fn by (auto simp: append_verified_def Let_def reply_append_def intro: same_log_trans [OF advance_commit_log push_msg_log] push_msg_log)
  ultimately show ?thesis by (rule append_shape_same)
qed

lemma handle_append_entries_shape:
  assumes h: "handle_append_entries src p pt es0 lc rc n0 = Inr n'" and d: "appended n0 = []"
    and es0: "in_sequence es0" "es0 \<noteq> [] \<Longrightarrow> e_index (hd es0) = Suc p"
  shows "append_shape (last_index (rlog n0)) n'"
proof -
  let ?n = "n0\<lparr>role := Follower, leader_id := Some src, election_elapsed := 0\<rparr>" and ?si = "snap_index (rlog n0)"
  define es where "es = (if p < ?si then drop (?si - p) es0 else es0)"
  define p' where "p' = (if p < ?si then ?si else p)"
  have es: "in_sequence es" "es \<noteq> [] \<Longrightarrow> e_index (hd es) = Suc p'"
  proof -
    show "in_sequence es" using es0(1) by (simp add: es_def in_sequence_drop)
    show "e_index (hd es) = Suc p'" if "es \<noteq> []"
    proof (cases "p < ?si")
      case True
      then have k: "?si - p < length es0" using that by (simp add: es_def)
      then have "e_index (es0 ! (?si - p)) = e_index (hd es0) + (?si - p)" using es0(1) by (simp add: in_sequence_def)
      moreover have "e_index (hd es0) = Suc p" using k es0(2) by (cases es0) simp_all
      ultimately show ?thesis using True k by (simp add: es_def p'_def hd_drop_conv_nth)
    qed (use es0(2) that in \<open>simp add: es_def p'_def\<close>)
  qed
  have push: "append_shape (last_index (rlog n0)) (reply_append src ok i j rc ?n)" for ok i j
    using d by (intro append_shape_Nil) (simp add: reply_append_def push_msg_def)
  show ?thesis
  proof (cases "append_verified src p' es lc rc ?n = Inr n' \<and> log_term (rlog n0) p' \<noteq> None")
    case True
    then have "p' \<le> last_index (rlog n0)"
      by (auto simp: log_term_def log_get_def last_index_def split: if_splits)
    then show ?thesis using append_verified_shape [of src p' es lc rc ?n n'] True d es by simp
  next
    case False
    then show ?thesis
      using h push by (auto simp: handle_append_entries_def Let_def es_def p'_def split: if_splits option.splits)
  qed
qed

lemma install_snapshot_appended: "appended (handle_install_snapshot src snap n) = appended n"
  using advance_commit_log [of "n\<lparr>role := Follower, leader_id := Some src, election_elapsed := 0\<rparr>" "s_last_index snap"]
  by (simp add: handle_install_snapshot_def Let_def push_msg_def same_log_def)

lemma step_shape:
  assumes s: "step m n = Inr n'" and d: "appended n = []" and m: "entries_follow (m_body m)"
  shows "append_shape (last_index (rlog n)) n'"
proof -
  let ?l = "last_index (rlog n)"
  have jn: "joined ?l n" using d by (simp add: joined_def in_sequence_def)
  have same: "append_shape ?l n'" if "same_log n n'"
    using that d by (intro append_shape_Nil) (simp add: same_log_def)
  have votes: "joined ?l (n1\<lparr>votes := v\<rparr>)" if "same_log n n1" for n1 v
    using joined_same [OF jn that] by (simp add: joined_def)
  define n1 where "n1 = (if cur_term n < m_term m then become_follower (m_term m) (leader_of_msg m) n else n)"
  have n1: "same_log n n1" by (simp add: n1_def same_log_refl become_follower_log)
  then have n1': "rlog n1 = rlog n" "appended n1 = []" using d by (simp_all add: same_log_def)
  have main: "append_shape ?l n'" if di: "dispatch m n1 = Inr n'"
  proof (cases "m_body m")
    case (RequestVote lli llt)
    then have "n' = handle_request_vote (m_from m) lli llt n1" using di by (simp add: dispatch_def)
    then have "same_log n1 n'"
      using same_log_trans [OF same_log_trans [OF hard_state_log(2) reset_timer_log] push_msg_log]
      by (auto simp: handle_request_vote_def Let_def push_msg_log)
    then show ?thesis using same same_log_trans [OF n1] by blast
  next
    case (RequestVoteResp g)
    then have "n' = handle_request_vote_resp (m_from m) g n1" using di by (simp add: dispatch_def)
    then have "joined ?l n'"
      using votes [OF n1] joined_same [OF jn n1] become_leader_joined by (simp add: handle_request_vote_resp_def Let_def)
    then show ?thesis using joined_shape by blast
  next
    case (AppendEntries p pt es lc rc)
    then show ?thesis
      using handle_append_entries_shape [of "m_from m" p pt es lc rc n1 n'] di m n1' by (simp add: dispatch_def)
  next
    case (InstallSnapshot snap)
    then have "n' = handle_install_snapshot (m_from m) snap n1" using di by (simp add: dispatch_def)
    then show ?thesis using install_snapshot_appended n1' by (intro append_shape_Nil) simp
  qed (use di same same_log_trans [OF n1] handle_append_resp_log handle_snapshot_resp_log n1 in \<open>auto simp: dispatch_def\<close>)
  show ?thesis
  proof (cases "m_body m")
    case (PreVote lli llt)
    then show ?thesis using s same by (auto simp: step_def handle_pre_vote_def Let_def push_msg_log)
  next
    case (PreVoteResp g)
    then have "n' = handle_pre_vote_resp (m_from m) (m_term m) g n" using s by (simp add: step_def)
    then have "joined ?l n'"
      using votes [OF same_log_refl] jn joined_same [OF jn become_follower_log] campaign_joined
      by (simp add: handle_pre_vote_resp_def Let_def)
    then show ?thesis using joined_shape by blast
  qed (use s main same n1_def in \<open>auto simp: step_def answer_stale_def push_msg_log same_log_refl split: if_splits\<close>)
qed

lemma tick_shape:
  assumes "appended n = []"
  shows "append_shape (last_index (rlog n)) (tick n)"
  using assms by (intro joined_shape tick_joined) (simp_all add: joined_def in_sequence_def)

lemma propose_shape:
  assumes "appended n = []"
  shows "append_shape (last_index (rlog n)) (snd (propose data n))"
  using assms by (intro joined_shape propose_joined) (simp_all add: joined_def in_sequence_def)

end
