(* ===== verification/Core_Sim.thy ===== *)
theory Core_Sim
  imports Core_Refine Raft_Appends Cluster_Facts
begin

text \<open>
  The forward simulation between the server's core and a node of the simulated cluster, one event at
  a time. It says that what is proved of the simulator's nodes holds of a server that drains its raft
  output after every event.
\<close>

section \<open>What a turn writes\<close>

definition core_rel :: "core_lib \<Rightarrow> sim_config \<Rightarrow> (bytes \<times> bytes option) list \<Rightarrow> (bytes \<times> bytes option) list \<Rightarrow> core \<Rightarrow> sim_node \<Rightarrow> bool" where
  "core_rel K cf lops sops c n \<longleftrightarrow> core_sim K lops sops c n \<and>
     co_snapshot_every c = sc_snapshot_every cf \<and> co_applied_since_snap c < co_snapshot_every c"

text \<open>
  The writes of one drain fit the formats of the two databases: the persisted output, a restored
  snapshot, the applied commands and a compaction.
\<close>

definition drain_fits :: "core_lib \<Rightarrow> (bytes \<times> bytes option) list \<Rightarrow> (bytes \<times> bytes option) list \<Rightarrow> raft_output \<Rightarrow> core \<Rightarrow> sim_node \<Rightarrow> bool" where
  "drain_fits K lops sops o' c n \<longleftrightarrow>
     (let L = cl_storage K; E = cl_env K; lw = output_ops (cl_log K) o' (co_log c); rw = restore_writes K o' c in
      (\<forall>e \<in> set (o_append o'). e_index e < 2 ^ 64) \<and>
      room_for L log_options lops lw \<and> room_for L backend_options sops rw \<and>
      (\<forall>n1. persist_stage E o' n = Inr n1 \<longrightarrow>
         (let ws = run_writes (committed_cmds E (o_committed o')) (mem.sm_abs (sn_sm n1))
          in writes_fit L backend_options (sops @ rw) ws \<and> length (sops @ rw @ ws) \<le> usize_max)) \<and>
      (\<forall>c1 c2 c3. core_persist K o' c = Inr c1 \<longrightarrow> core_install K o' c1 = Inr c2 \<longrightarrow>
         core_apply_all K (o_committed o') c2 = Inr c3 \<longrightarrow> room_for L log_options (lops @ lw) (compact_writes K c3)))"

section \<open>One drain\<close>

lemma core_drain_sim:
  assumes lib: "core_lib_ok K" and E: "cl_env K = E" and sim: "core_sim K lops sops c n"
    and every: "co_snapshot_every c = sc_snapshot_every cf" and j: "output_joins o' (sn_disk n)"
    and fits: "drain_fits K lops sops o' c n"
    and st: "persist_stage E o' n = Inr n1" "apply_entries E (o_committed o') (n1, ag, []) = Inr (n2, ag', rs)"
      "compact_stage E cf n2 = Inr n3"
  shows "\<exists>c' lw sw. core_drain K o' c = Inr c' \<and> core_sim K (lops @ lw) (sops @ sw) c' n3 \<and>
    co_sent c' = co_sent c @ filter (\<lambda>m. m_to m \<in> set (co_peers c)) (o_messages o') \<and>
    co_snapshot_every c' = co_snapshot_every c \<and> co_peers c' = co_peers c"
proof -
  let ?L = "cl_storage K" and ?lw = "output_ops (cl_log K) o' (co_log c)" and ?rw = "restore_writes K o' c"
  let ?ws = "run_writes (committed_cmds E (o_committed o')) (mem.sm_abs (sn_sm n1))"
  have fit: "room_for ?L log_options lops ?lw" "room_for ?L backend_options sops ?rw"
    "writes_fit ?L backend_options (sops @ ?rw) ?ws" "length ((sops @ ?rw) @ ?ws) \<le> usize_max"
    "\<And>c1 c2 c3. core_persist K o' c = Inr c1 \<Longrightarrow> core_install K o' c1 = Inr c2 \<Longrightarrow>
       core_apply_all K (o_committed o') c2 = Inr c3 \<Longrightarrow> room_for ?L log_options (lops @ ?lw) (compact_writes K c3)"
    using fits E st(1) by (simp_all add: drain_fits_def Let_def)
  obtain log where p: "core_persist K o' c = Inr (c\<lparr>co_log := log\<rparr>)" "ls_holds ?L (cl_log K) (lops @ ?lw) log (persist_output o' (sn_disk n))"
    using core_persist_sim [OF lib sim j fit(1)] by blast
  let ?c1 = "c\<lparr>co_log := log\<rparr>"
  have rw: "restore_writes K o' ?c1 = ?rw" by (simp add: restore_writes_def cong: option.case_cong)
  obtain c2 where c2: "core_install K o' ?c1 = Inr c2" "core_sim K (lops @ ?lw) (sops @ ?rw) c2 n1"
    "\<exists>sm i j. c2 = ?c1\<lparr>co_sm := sm, co_applied := i, co_applied_since_snap := j\<rparr>"
    using core_install_sim [OF lib E, of sops ?c1 n "lops @ ?lw" o' n1] sim p(2) st(1) fit(2) rw
    by (auto simp: core_sim_def)
  obtain c3 where c3: "core_apply_all K (o_committed o') c2 = Inr c3" "core_sim K (lops @ ?lw) ((sops @ ?rw) @ ?ws) c3 n2"
    "co_peers c3 = co_peers c2" "co_sent c3 = co_sent c2" "co_snapshot_every c3 = co_snapshot_every c2"
    using core_apply_all_sim [OF lib E c2(2) st(2) fit(3,4)] by blast
  have e3: "co_peers c3 = co_peers c" "co_sent c3 = co_sent c" "co_snapshot_every c3 = co_snapshot_every c" using c2(3) c3(3-5) by auto
  obtain c4 where c4: "core_compact K c3 = Inr c4" "core_sim K ((lops @ ?lw) @ compact_writes K c3) ((sops @ ?rw) @ ?ws) c4 n3"
    "co_peers c4 = co_peers c3" "co_sent c4 = co_sent c3" "co_snapshot_every c4 = co_snapshot_every c3"
    using core_compact_sim [OF lib E c3(2) st(3)] e3(3) every fit(5) [OF p(1) c2(1) c3(1)] by auto
  have "db_life ?L backend_options ((sops @ ?rw) @ ?ws) (sm_backend (co_sm (c4\<lparr>co_ready := []\<rparr>)))"
    using c4(2) by (simp add: core_sim_def dbb_rel_def)
  then obtain c5 where c5: "core_reads_stage K o' c4 = Inr c5"
    using serve_ready_returns [OF _ _ backend_opts_ok] lib unfolding core_reads_stage_def core_lib_ok_def by blast
  have same: "same_parts c4 c5"
    using same_parts_trans [OF answer_same_parts(2) serve_ready_frame [OF c5 [unfolded core_reads_stage_def]]] .
  let ?c = "core_send o' c5"
  have "core_drain K o' c = Inr ?c" using p(1) c2(1) c3(1) c4(1) c5 by (simp add: core_drain_def)
  moreover have "core_sim K (lops @ ?lw @ compact_writes K c3) (sops @ ?rw @ ?ws) ?c n3"
    using c4(2) same by (simp add: core_sim_def core_send_def same_parts_def)
  moreover have "co_sent ?c = co_sent c @ filter (\<lambda>m. m_to m \<in> set (co_peers c)) (o_messages o')"
    "co_snapshot_every ?c = co_snapshot_every c" "co_peers ?c = co_peers c"
    using c4(3-5) e3 same by (simp_all add: core_send_def same_parts_def)
  ultimately show ?thesis by blast
qed

lemma compact_stage_since:
  assumes "compact_stage E cf n = Inr n'" "0 < sc_snapshot_every cf"
  shows "sn_applied_since_snap n' < sc_snapshot_every cf"
  using assms by (auto simp: compact_stage_def Let_def split: if_splits option.splits prod.splits)

section \<open>The drain of an event\<close>

lemma read_stage_since: "sn_applied_since_snap (fst (read_stage o' n)) = sn_applied_since_snap n"
  by (simp add: read_stage_def Let_def case_prod_beta)

lemma core_sim_reads: "core_sim K lops sops c (fst (read_stage o' n)) = core_sim K lops sops c n"
  by (simp add: core_sim_def read_stage_sel read_stage_since)

lemma process_output_stages:
  assumes p: "process_output E cf i s = Inr s'" and i: "i < length (sim_nodes s)"
    and n: "n = sim_nodes s ! i" "sn_raft n = Some r"
  obtains n1 ag rs n2 n3 where
    "persist_stage E (out r) (n\<lparr>sn_raft := Some (r\<lparr>out := output_default\<rparr>)\<rparr>) = Inr n1"
    "apply_entries E (o_committed (out r)) (n1, sim_applied s, []) = Inr (n2, ag, rs)"
    "compact_stage E cf n2 = Inr n3" "sim_nodes s' ! i = fst (read_stage (out r) n3)"
    "sim_net s' = sim_net s \<union> set (o_messages (out r))"
proof -
  have n': "sn_raft (sim_nodes s ! i) = Some r" using n by simp
  obtain n1 where 1: "persist_stage E (out r) (n\<lparr>sn_raft := Some (r\<lparr>out := output_default\<rparr>)\<rparr>) = Inr n1"
    using p n by (auto simp: process_output_def n' take_output_def Let_def split: sum.splits)
  obtain n2 ag rs where 2: "apply_entries E (o_committed (out r)) (n1, sim_applied s, []) = Inr (n2, ag, rs)"
    using p n 1 by (auto simp: process_output_def n' take_output_def Let_def split: sum.splits)
  obtain n3 where 3: "compact_stage E cf n2 = Inr n3"
    using p n 1 2 by (auto simp: process_output_def n' take_output_def Let_def split: sum.splits)
  have "sim_nodes s' ! i = fst (read_stage (out r) n3) \<and> sim_net s' = sim_net s \<union> set (o_messages (out r))"
    using p n 1 2 3 i
    by (auto simp: process_output_def n' take_output_def Let_def split: sum.splits option.splits prod.splits)
  then show thesis using that 1 2 3 by blast
qed

lemma empty_output: "output_is_empty o' \<longleftrightarrow> o' = output_default"
  by (cases o') (auto simp: output_is_empty_def output_default_def)

lemma empty_drain_sim:
  assumes rel: "core_rel K cf lops sops c (sim_nodes s ! i)" and i: "i < length (sim_nodes s)"
    and o: "out (co_raft c) = output_default" and p: "process_output E cf i s = Inr s'"
  shows "core_rel K cf lops sops c (sim_nodes s' ! i)" "sim_net s' = sim_net s"
proof -
  let ?n = "sim_nodes s ! i" and ?r = "(co_raft c)\<lparr>out := output_default\<rparr>"
  have raft: "sn_raft ?n = Some (co_raft c)" and r: "?r = co_raft c" using rel o by (simp_all add: core_rel_def core_sim_def)
  obtain n1 ag rs n2 n3 where st: "persist_stage E output_default (?n\<lparr>sn_raft := Some ?r\<rparr>) = Inr n1"
    "apply_entries E (o_committed output_default) (n1, sim_applied s, []) = Inr (n2, ag, rs)" "compact_stage E cf n2 = Inr n3"
    and s': "sim_nodes s' ! i = fst (read_stage output_default n3)" "sim_net s' = sim_net s \<union> set (o_messages output_default)"
    using process_output_stages [OF p i refl raft] unfolding o by metis
  have "n3 = ?n"
    using st rel raft unfolding r
    by (auto simp: persist_stage_def output_default_def compact_stage_def core_rel_def core_sim_def persist_output_def
        split: if_splits)
  then show "core_rel K cf lops sops c (sim_nodes s' ! i)" using rel unfolding s'(1) core_rel_def core_sim_reads by simp
  show "sim_net s' = sim_net s" using s'(2) by (simp add: output_default_def)
qed

lemma process_output_sim:
  assumes lib: "core_lib_ok K" and E: "cl_env K = E" and rel: "core_rel K cf lops sops c (sim_nodes s ! i)"
    and i: "i < length (sim_nodes s)" and j: "output_joins (out (co_raft c)) (sn_disk (sim_nodes s ! i))"
    and fits: "drain_fits K lops sops (out (co_raft c)) (c\<lparr>co_raft := (co_raft c)\<lparr>out := output_default\<rparr>\<rparr>)
      ((sim_nodes s ! i)\<lparr>sn_raft := Some ((co_raft c)\<lparr>out := output_default\<rparr>)\<rparr>)"
    and p: "process_output E cf i s = Inr s'"
  shows "\<exists>c' lw sw. core_process_output K c = Some (Inr c') \<and> core_rel K cf (lops @ lw) (sops @ sw) c' (sim_nodes s' ! i) \<and>
    sim_net s' = sim_net s \<union> set (o_messages (out (co_raft c))) \<and>
    co_sent c' = co_sent c @ filter (\<lambda>m. m_to m \<in> set (co_peers c)) (o_messages (out (co_raft c))) \<and> co_peers c' = co_peers c"
proof -
  let ?n = "sim_nodes s ! i" and ?o = "out (co_raft c)" and ?r = "(co_raft c)\<lparr>out := output_default\<rparr>"
  let ?c = "c\<lparr>co_raft := ?r\<rparr>"
  have raft: "sn_raft ?n = Some (co_raft c)" and sim: "core_sim K lops sops ?c (?n\<lparr>sn_raft := Some ?r\<rparr>)"
    and every: "co_snapshot_every ?c = sc_snapshot_every cf" "0 < sc_snapshot_every cf"
    using rel by (simp_all add: core_rel_def core_sim_def)
  obtain n1 ag rs n2 n3 where st: "persist_stage E ?o (?n\<lparr>sn_raft := Some ?r\<rparr>) = Inr n1"
    "apply_entries E (o_committed ?o) (n1, sim_applied s, []) = Inr (n2, ag, rs)" "compact_stage E cf n2 = Inr n3"
    and s': "sim_nodes s' ! i = fst (read_stage ?o n3)" "sim_net s' = sim_net s \<union> set (o_messages ?o)"
    by (rule process_output_stages [OF p i refl raft])
  show ?thesis
  proof (cases "?o = output_default")
    case True
    then have "?r = co_raft c" by simp
    then show ?thesis using empty_drain_sim [OF rel i True p] True
      by (intro exI [of _ c] exI [of _ "[]"]) (simp add: core_process_output_once Let_def empty_output output_default_def)
  next
    case False
    obtain c' lw sw where c': "core_drain K ?o ?c = Inr c'" "core_sim K (lops @ lw) (sops @ sw) c' n3"
      "co_sent c' = co_sent c @ filter (\<lambda>m. m_to m \<in> set (co_peers c)) (o_messages ?o)"
      "co_snapshot_every c' = co_snapshot_every c" "co_peers c' = co_peers c"
      using core_drain_sim [OF lib E sim every(1) _ fits st] j by auto
    have "core_rel K cf (lops @ lw) (sops @ sw) c' (sim_nodes s' ! i)"
      using c'(2,4) every compact_stage_since [OF st(3) every(2)]
      unfolding s'(1) core_rel_def core_sim_reads by (simp add: core_sim_def)
    then show ?thesis using c' s'(2) False by (auto simp: core_process_output_once Let_def empty_output)
  qed
qed

section \<open>Appended entries join the stored log\<close>

lemma net_entries_follow:
  assumes inv: "sim_inv E c s A" and m: "m \<in> sim_net s"
  shows "entries_follow (m_body m)"
proof (cases "m_body m")
  case (AppendEntries p pt es lc rc)
  have a: "ainv (voter_set c) A" and mr: "msg_rel (sim_ctx E c 0 persisted_default 0) (anet A) m"
    using inv m unfolding sim_inv_def world_inv_def by auto
  then have "AAppend (m_from m) (m_to m) (m_term m) p pt es lc \<in> anet A" using AppendEntries by (simp add: msg_rel_def)
  then have ok: "h_leader A (m_term m) = Some (m_from m)" "p + length es \<le> length (h_llog A (m_term m))"
    "es = take (length es) (drop p (h_llog A (m_term m)))"
    using a unfolding ainv_def by (fastforce dest: bspec)+
  have "leader_ok (voter_set c) A (m_term m) (m_from m)" using a ok(1) unfolding ainv_def by blast
  then have idx: "e_index (h_llog A (m_term m) ! k) = Suc k" if "k < length (h_llog A (m_term m))" for k
    using that by (simp add: leader_ok_def wf_log_def)
  have nth: "es ! k = h_llog A (m_term m) ! (p + k)" if "k < length es" for k
    using ok(2) that by (subst ok(3)) simp
  have "e_index (es ! k) = Suc (p + k)" if "k < length es" for k
    using nth [OF that] idx [of "p + k"] ok(2) that by simp
  moreover from this [of 0] have "es \<noteq> [] \<Longrightarrow> e_index (hd es) = Suc p" by (simp add: hd_conv_nth)
  ultimately show ?thesis using AppendEntries by (cases "es = []") (simp_all add: in_sequence_def)
qed simp_all

lemma shape_joins:
  assumes inv: "sim_inv E c s A" and n: "n \<in> set (sim_nodes s)" and r: "sn_raft n = Some r"
    and sh: "append_shape (last_index (rlog r)) r'" and small: "\<forall>e \<in> set (appended r'). e_index e < 2 ^ 64"
  shows "output_joins (out r') (sn_disk n)"
proof -
  let ?g = "a_log (an A (sn_id n))" and ?es = "log_entries (rlog r)" and ?new = "appended r'"
  have d: "p_entries (sn_disk n) = ?es" using running_disk [OF inv n r] by simp
  have lr: "log_rel (rlog r) ?g" and wf: "wf_log (cur_term r) ?g" using running_log [OF inv n r] by simp_all
  have last: "e_index (last ?es) = last_index (rlog r)" if "?es \<noteq> []"
  proof -
    have e: "?es = drop (snap_index (rlog r)) ?g" "snap_index (rlog r) \<le> length ?g" using lr by (simp_all add: log_rel_def)
    then have "last ?es = ?g ! (length ?g - 1)" "?g \<noteq> []" using that by (auto simp: last_drop last_conv_nth)
    then have "e_index (last ?es) = length ?g" using wf by (auto simp: wf_log_def)
    then show ?thesis using e by (simp add: last_index_def)
  qed
  have "contig ?new"
    unfolding contig_def
  proof (intro allI impI)
    fix k assume k: "k < length ?new"
    then have "e_index (?new ! k) = e_index (hd ?new) + k" "0 < e_index (hd ?new)"
      using sh by (auto simp: append_shape_def in_sequence_def)
    then show "e_index (?new ! k) = e_index (hd ?new) + k \<and> 1 \<le> e_index (?new ! k) \<and> e_index (?new ! k) < 2 ^ 64"
      using bspec [OF small nth_mem [OF k]] by simp
  qed
  then show ?thesis
    using sh last unfolding output_joins_def joins_def d by (auto simp: append_shape_def split: option.splits)
qed

section \<open>Events\<close>

text \<open>The event the server sees, for an event of the simulator that a server can see.\<close>

fun server_event :: "core \<Rightarrow> sim_node \<Rightarrow> sim_event \<Rightarrow> nat \<Rightarrow> core_event option" where
  "server_event c n (NodeTick i) tx = Some EvTick"
| "server_event c n (RaftMsg m) tx = Some (EvPeer m)"
| "server_event c n (ClientReq client node (ReqWrite sq key v)) tx =
     Some (EvClient (RqPut (100 + client + 1) sq [key] (encode_val v)) tx)"
| "server_event c n (ClientReq client node (ReqCas sq key expect new)) tx =
     Some (EvClient (RqCas (100 + client + 1) sq [key] (map_option encode_val expect) (Some (encode_val new))) tx)"
| "server_event c n (ClientReq client node (ReqRead op_ts key)) tx =
     (if co_next_read_id c = sn_next_read_id n then Some (EvClient (RqGet [key] Linearizable) tx) else None)"
| "server_event c n _ tx = None"

fun event_node :: "sim_event \<Rightarrow> node_id" where
  "event_node (NodeTick i) = i"
| "event_node (RaftMsg m) = m_to m"
| "event_node (ClientReq _ node _) = node"
| "event_node (Crash i) = i"
| "event_node (Restart i) = i"
| "event_node _ = 0"

fun delivered :: "sim \<Rightarrow> sim_event \<Rightarrow> bool" where
  "delivered s (RaftMsg m) \<longleftrightarrow> (m_from m, m_to m) \<notin> sim_blocked s"
| "delivered s _ \<longleftrightarrow> True"

definition turn_fits :: "core_lib \<Rightarrow> (bytes \<times> bytes option) list \<Rightarrow> (bytes \<times> bytes option) list \<Rightarrow> core_event \<Rightarrow> core \<Rightarrow> sim_node \<Rightarrow> bool" where
  "turn_fits K lops sops cev c n \<longleftrightarrow>
     (\<forall>c1. handle_event K cev c = Inr c1 \<longrightarrow>
        drain_fits K lops sops (out (co_raft c1)) (c1\<lparr>co_raft := (co_raft c1)\<lparr>out := output_default\<rparr>\<rparr>) n)"

lemma drain_fits_node:
  assumes "sn_sm n' = sn_sm n"
  shows "drain_fits K lops sops o' c n' = drain_fits K lops sops o' c n"
proof -
  have "(\<forall>n1. persist_stage E o' n' = Inr n1 \<longrightarrow> P (sn_sm n1)) = (\<forall>n1. persist_stage E o' n = Inr n1 \<longrightarrow> P (sn_sm n1))" for E P
    using assms by (auto simp: persist_stage_def Let_def split: option.splits)
  note eq = this [of "cl_env K" "\<lambda>sm. writes_fit (cl_storage K) backend_options (sops @ restore_writes K o' c)
      (run_writes (committed_cmds (cl_env K) (o_committed o')) (mem.sm_abs sm)) \<and>
      length (sops @ restore_writes K o' c @ run_writes (committed_cmds (cl_env K) (o_committed o')) (mem.sm_abs sm)) \<le> usize_max"]
  show ?thesis unfolding drain_fits_def Let_def eq ..
qed

text \<open>The parts of the core that only a drain changes.\<close>

definition same_storage :: "core \<Rightarrow> core \<Rightarrow> bool" where
  "same_storage c c1 \<longleftrightarrow> co_log c1 = co_log c \<and> co_sm c1 = co_sm c \<and> co_applied c1 = co_applied c \<and>
     co_applied_since_snap c1 = co_applied_since_snap c \<and> co_snapshot_every c1 = co_snapshot_every c \<and>
     co_peers c1 = co_peers c \<and> co_sent c1 = co_sent c"

definition same_state :: "sim_node \<Rightarrow> sim_node \<Rightarrow> bool" where
  "same_state n n1 \<longleftrightarrow> sn_disk n1 = sn_disk n \<and> sn_sm n1 = sn_sm n \<and> sn_applied n1 = sn_applied n \<and>
     sn_applied_since_snap n1 = sn_applied_since_snap n"

abbreviation turn_result where
  "turn_result K cf lops sops c cev i s s' \<equiv>
     \<exists>c' lw sw ms. core_turn K [cev] c = Some (Inr c') \<and> core_rel K cf (lops @ lw) (sops @ sw) c' (sim_nodes s' ! i) \<and>
       sim_net s' = sim_net s \<union> set ms \<and>
       co_sent c' = co_sent c @ filter (\<lambda>m. m_to m \<in> set (co_peers c)) ms \<and> co_peers c' = co_peers c"

lemma drained_event_sim:
  assumes lib: "core_lib_ok K" and E: "cl_env K = E" and inv: "sim_inv E cf s A" and i: "i < length (sim_nodes s)"
    and rel: "core_rel K cf lops sops c (sim_nodes s ! i)" and fits: "turn_fits K lops sops cev c (sim_nodes s ! i)"
    and h: "handle_event K cev c = Inr c1" "same_storage c c1"
    and sh: "append_shape (last_index (rlog (co_raft c))) (co_raft c1)"
    and n1: "sn_raft n1 = Some (co_raft c1)" "same_state (sim_nodes s ! i) n1"
    and p: "process_output E cf i (s\<lparr>sim_nodes := (sim_nodes s)[i := n1]\<rparr>) = Inr s'"
  shows "turn_result K cf lops sops c cev i s s'"
proof -
  let ?n = "sim_nodes s ! i" and ?s = "s\<lparr>sim_nodes := (sim_nodes s)[i := n1]\<rparr>"
  have r: "sn_raft ?n = Some (co_raft c)" using rel by (simp add: core_rel_def core_sim_def)
  have df: "drain_fits K lops sops (out (co_raft c1)) (c1\<lparr>co_raft := (co_raft c1)\<lparr>out := output_default\<rparr>\<rparr>) ?n"
    using fits h(1) by (simp add: turn_fits_def)
  then have small: "\<forall>e \<in> set (appended (co_raft c1)). e_index e < 2 ^ 64" by (simp add: drain_fits_def Let_def)
  have j: "output_joins (out (co_raft c1)) (sn_disk n1)"
    using shape_joins [OF inv nth_mem [OF i] r sh small] n1(2) by (simp add: same_state_def)
  have rel1: "core_rel K cf lops sops c1 (sim_nodes ?s ! i)"
    using rel h(2) n1 i by (simp add: core_rel_def core_sim_def same_storage_def same_state_def)
  have df1: "drain_fits K lops sops (out (co_raft c1)) (c1\<lparr>co_raft := (co_raft c1)\<lparr>out := output_default\<rparr>\<rparr>)
      ((sim_nodes ?s ! i)\<lparr>sn_raft := Some ((co_raft c1)\<lparr>out := output_default\<rparr>)\<rparr>)"
    using df n1(2) i by (subst drain_fits_node [where n = ?n]) (simp_all add: same_state_def)
  obtain c' lw sw where "core_process_output K c1 = Some (Inr c')" "core_rel K cf (lops @ lw) (sops @ sw) c' (sim_nodes s' ! i)"
    "sim_net s' = sim_net s \<union> set (o_messages (out (co_raft c1)))"
    "co_sent c' = co_sent c1 @ filter (\<lambda>m. m_to m \<in> set (co_peers c1)) (o_messages (out (co_raft c1)))" "co_peers c' = co_peers c1"
    using process_output_sim [OF lib E rel1 _ _ df1 p] i j by auto
  then show ?thesis using h by (auto simp: core_turn_def same_storage_def)
qed

lemma answered_event_sim:
  assumes rel: "core_rel K cf lops sops c (sim_nodes s ! i)" and i: "i < length (sim_nodes s)"
    and o: "out (co_raft c) = output_default" and h: "handle_event K cev c = Inr c1" "same_storage c c1" "co_raft c1 = co_raft c"
    and n1: "sn_raft n1 = Some (co_raft c)" "same_state (sim_nodes s ! i) n1"
    and s': "sim_nodes s' = (sim_nodes s)[i := n1]" "sim_net s' = sim_net s"
  shows "turn_result K cf lops sops c cev i s s'"
proof -
  have "(co_raft c1)\<lparr>out := output_default\<rparr> = co_raft c1" using o h(3) by simp
  then have "core_turn K [cev] c = Some (Inr c1)"
    using h(1,3) o by (simp add: core_turn_def core_process_output_once Let_def empty_output)
  moreover have "core_rel K cf (lops @ []) (sops @ []) c1 (sim_nodes s' ! i)"
    using rel h n1 i unfolding s'(1) by (simp add: core_rel_def core_sim_def same_storage_def same_state_def)
  ultimately show ?thesis using h(2) s'(2)
    by (intro exI [of _ c1] exI [of _ "[]"]) (simp add: same_storage_def)
qed

lemma tick_storage:
  "\<exists>c1. handle_event K EvTick c = Inr c1 \<and> co_raft c1 = tick (co_raft c) \<and> same_storage c c1"
  by (simp add: stamp_gauges_def sweep_timeouts_def drop_txs_def bump_def Let_def same_storage_def)

lemma client_parts_storage:
  "co_raft (add_write key w c) = co_raft c" "same_storage c0 (add_write key w c) = same_storage c0 c"
  "co_raft (snd (propose_err e c)) = co_raft c" "same_storage c0 (snd (propose_err e c)) = same_storage c0 c"
  "co_raft (answer tx resp c) = co_raft c" "same_storage c0 (answer tx resp c) = same_storage c0 c"
  "co_raft (bump f c) = co_raft c" "same_storage c0 (bump f c) = same_storage c0 c"
  by (simp_all add: add_write_def propose_err_def answer_def drop_txs_def bump_def same_storage_def Let_def
      split: option.splits propose_error.splits)

lemma propose_write_storage:
  assumes "session \<noteq> 0"
  shows "co_raft (propose_write K session sq x tx c) =
      snd (propose (enc_cmd (cl_env K) \<lparr>cmd_session = session, cmd_seq = sq, cmd_op = x\<rparr>) (co_raft c))"
    "same_storage c (propose_write K session sq x tx c)"
  using assms
  by (simp_all add: propose_write_def client_parts_storage Let_def split_beta split: sum.split)
    (simp_all add: same_storage_def)

lemma linearizable_storage:
  "\<exists>c'. handle_read K req Linearizable tx c = Inr c' \<and>
     co_raft c' = snd (read_index (co_next_read_id c) (co_raft c)) \<and> same_storage c c'"
proof -
  let ?p = "read_index (co_next_read_id c) (co_raft c)"
  have e: "co_raft (snd (propose_err err (c\<lparr>co_next_read_id := i, co_raft := r\<rparr>))) = r"
    "same_storage c (snd (propose_err err (c\<lparr>co_next_read_id := i, co_raft := r\<rparr>)))" for err i r
    by (simp_all add: client_parts_storage) (simp add: same_storage_def)
  show ?thesis
  proof (cases "fst ?p")
    case (Inl err)
    then show ?thesis using e by (cases ?p) (simp add: handle_read_def client_parts_storage split_beta Let_def)
  next
    case (Inr u)
    then show ?thesis by (cases ?p) (simp add: handle_read_def Let_def bump_def same_storage_def)
  qed
qed

lemma read_index_log: "same_log n (snd (read_index rid n))"
  using broadcast_log [of "n\<lparr>read_ctx_counter := read_ctx_counter n + 1, pending_reads := pending_reads n @ [(read_ctx_counter n + 1, rid, commit n)]\<rparr>"]
  by (auto simp: read_index_def release_reads_def same_log_def Let_def)

lemma write_event_sim:
  assumes lib: "core_lib_ok K" and E: "cl_env K = E" and inv: "sim_inv E cf s A" and i: "node \<in> set (sim_voters cf)"
    and up: "sn_up (sim_nodes s ! (node - 1))" and rel: "core_rel K cf lops sops c (sim_nodes s ! (node - 1))"
    and fits: "turn_fits K lops sops cev c (sim_nodes s ! (node - 1))"
    and h: "handle_event K cev c = Inr (propose_write K (100 + client + 1) sq x tx c)"
    and cmd_def: "cmd = \<lparr>cmd_session = 100 + client + 1, cmd_seq = sq, cmd_op = x\<rparr>"
  shows "\<exists>s'. try_propose E cf (node - 1) client (100 + client + 1) sq cmd s = Inr s' \<and>
    turn_result K cf lops sops c cev (node - 1) s s'"
proof -
  let ?n = "sim_nodes s ! (node - 1)" and ?c1 = "propose_write K (100 + client + 1) sq x tx c"
  have len: "node - 1 < length (sim_nodes s)" using voters_index [OF i] inv unfolding sim_inv_def world_inv_def by blast
  have r: "sn_raft ?n = Some (co_raft c)" using rel by (simp add: core_rel_def core_sim_def)
  have o: "out (co_raft c) = output_default" using running_node(2) [OF inv nth_mem [OF len] r] .
  have env: "env_ok E" using lib E by (simp add: core_lib_ok_def)
  obtain s' where s': "try_propose E cf (node - 1) client (100 + client + 1) sq cmd s = Inr s'"
    using try_propose_ok [OF env inv i up] by blast
  define res where "res = propose (enc_cmd E cmd) (co_raft c)"
  have c1: "co_raft ?c1 = snd res" "same_storage c ?c1"
    using propose_write_storage [where session = "100 + client + 1" and K = K and sq = sq and x = x and tx = tx and c = c] E by (simp_all add: res_def cmd_def)
  have "turn_result K cf lops sops c cev (node - 1) s s'"
  proof (cases "fst res")
    case (Inr idx)
    have sh: "append_shape (last_index (rlog (co_raft c))) (co_raft ?c1)"
      using propose_shape [of "co_raft c"] o c1(1) by (simp add: res_def output_default_def)
    have "process_output E cf (node - 1) (s\<lparr>sim_nodes := (sim_nodes s)[node - 1 := ?n\<lparr>sn_raft := Some (snd res),
        sn_waiting_writes := bt_insert (100 + client + 1, sq) () (sn_waiting_writes ?n)\<rparr>]\<rparr>) = Inr s'"
      using s' r Inr by (cases res) (simp add: try_propose_def Let_def res_def)
    from drained_event_sim [OF lib E inv len rel fits h c1(2) sh _ _ this] c1(1) show ?thesis
      by (simp add: same_state_def)
  next
    case (Inl err)
    then have same: "snd res = co_raft c" "\<exists>hint. err = NotLeader hint"
      by (auto simp: res_def propose_def Let_def split: if_splits prod.splits)
    then have "sim_nodes s' = (sim_nodes s)[node - 1 := ?n\<lparr>sn_raft := Some (co_raft c)\<rparr>] \<and> sim_net s' = sim_net s"
      using s' r Inl by (cases res) (auto simp: try_propose_def Let_def res_def send_client_resp_def set_raft_def)
    from answered_event_sim [OF rel len o h c1(2) _ _ _ conjunct1 [OF this] conjunct2 [OF this]] c1(1) same
    show ?thesis by (simp add: same_state_def)
  qed
  then show ?thesis using s' by blast
qed

lemma read_event_sim:
  assumes lib: "core_lib_ok K" and E: "cl_env K = E" and inv: "sim_inv E cf s A" and i: "node \<in> set (sim_voters cf)"
    and up: "sn_up (sim_nodes s ! (node - 1))" and rel: "core_rel K cf lops sops c (sim_nodes s ! (node - 1))"
    and fits: "turn_fits K lops sops cev c (sim_nodes s ! (node - 1))"
    and h: "handle_event K cev c = handle_read K req Linearizable tx c"
    and rid: "co_next_read_id c = sn_next_read_id (sim_nodes s ! (node - 1))"
  shows "\<exists>s'. on_client_read E cf client node op_ts key s = Inr s' \<and> turn_result K cf lops sops c cev (node - 1) s s'"
proof -
  let ?n = "sim_nodes s ! (node - 1)" and ?rid = "sn_next_read_id (sim_nodes s ! (node - 1))"
  have len: "node - 1 < length (sim_nodes s)" using voters_index [OF i] inv unfolding sim_inv_def world_inv_def by blast
  have r: "sn_raft ?n = Some (co_raft c)" using rel by (simp add: core_rel_def core_sim_def)
  have o: "out (co_raft c) = output_default" using running_node(2) [OF inv nth_mem [OF len] r] .
  have env: "env_ok E" using lib E by (simp add: core_lib_ok_def)
  obtain s' where s': "on_client_read E cf client node op_ts key s = Inr s'"
    using on_client_read_ok [OF env inv i up] by blast
  define res where "res = read_index ?rid (co_raft c)"
  obtain c1 where c1: "handle_event K cev c = Inr c1" "same_storage c c1" "co_raft c1 = snd res"
    using linearizable_storage [where K = K and req = req and tx = tx and c = c] rid h by (auto simp: res_def)
  have "turn_result K cf lops sops c cev (node - 1) s s'"
  proof (cases "fst res")
    case (Inr u)
    have sh: "append_shape (last_index (rlog (co_raft c))) (co_raft c1)"
      using read_index_log [of "co_raft c" ?rid] o c1(3) by (intro append_shape_Nil) (simp add: res_def output_default_def same_log_def)
    have "process_output E cf (node - 1) (s\<lparr>sim_nodes := (sim_nodes s)[node - 1 := ?n\<lparr>sn_raft := Some (snd res),
        sn_next_read_id := ?rid + 1, sn_pending_reads := bt_insert ?rid (client, op_ts, key) (sn_pending_reads ?n)\<rparr>]\<rparr>) = Inr s'"
      using s' r Inr by (cases res) (simp add: on_client_read_def Let_def res_def)
    from drained_event_sim [OF lib E inv len rel fits c1(1,2) sh _ _ this] c1(3) show ?thesis
      by (simp add: same_state_def)
  next
    case (Inl err)
    then have same: "snd res = co_raft c"
      by (auto simp: res_def read_index_def Let_def split: if_splits prod.splits)
    then have "sim_nodes s' = (sim_nodes s)[node - 1 := ?n\<lparr>sn_raft := Some (co_raft c), sn_next_read_id := ?rid + 1\<rparr>] \<and> sim_net s' = sim_net s"
      using s' r Inl by (cases res) (auto simp: on_client_read_def Let_def res_def send_client_resp_def)
    from answered_event_sim [OF rel len o c1(1,2) _ _ _ conjunct1 [OF this] conjunct2 [OF this]] c1(3) same
    show ?thesis by (simp add: same_state_def)
  qed
  then show ?thesis using s' by blast
qed

lemma core_event_sim:
  assumes lib: "core_lib_ok K" and E: "cl_env K = E" and inv: "sim_inv E cf s A" and en: "enabled cf s ev"
    and cev: "server_event c (sim_nodes s ! (event_node ev - 1)) ev tx = Some cev"
    and up: "sn_up (sim_nodes s ! (event_node ev - 1))" and del: "delivered s ev"
    and rel: "core_rel K cf lops sops c (sim_nodes s ! (event_node ev - 1))"
    and fits: "turn_fits K lops sops cev c (sim_nodes s ! (event_node ev - 1))"
  shows "\<exists>s'. sim_handle E cf ev s = Inr s' \<and> turn_result K cf lops sops c cev (event_node ev - 1) s s'"
proof (cases ev)
  case (NodeTick i)
  let ?n = "sim_nodes s ! (i - 1)"
  have i: "i \<in> set (sim_voters cf)" using en NodeTick by simp
  have len: "i - 1 < length (sim_nodes s)" using voters_index [OF i] inv unfolding sim_inv_def world_inv_def by blast
  have r: "sn_raft ?n = Some (co_raft c)" and rel': "core_rel K cf lops sops c ?n" and u: "sn_up ?n"
    using rel up NodeTick by (simp_all add: core_rel_def core_sim_def)
  have o: "out (co_raft c) = output_default" using running_node(2) [OF inv nth_mem [OF len] r] .
  obtain s' where s': "sim_handle E cf ev s = Inr s'"
    using sim_handle_ok [OF _ inv en] lib E unfolding core_lib_ok_def by blast
  obtain c1 where c1: "handle_event K EvTick c = Inr c1" "co_raft c1 = tick (co_raft c)" "same_storage c c1"
    using tick_storage by blast
  have sh: "append_shape (last_index (rlog (co_raft c))) (co_raft c1)"
    using tick_shape [of "co_raft c"] o c1(2) by (simp add: output_default_def)
  have "process_output E cf (i - 1) (s\<lparr>sim_nodes := (sim_nodes s)[i - 1 := ?n\<lparr>sn_raft := Some (tick (co_raft c))\<rparr>]\<rparr>) = Inr s'"
    using s' r u NodeTick by (simp add: on_node_tick_def set_raft_def Let_def)
  from drained_event_sim [OF lib E inv len rel' _ c1(1,3) sh _ _ this] fits cev c1(2) NodeTick s' show ?thesis
    by (simp add: same_state_def)
next
  case (RaftMsg m)
  let ?i = "m_to m" and ?n = "sim_nodes s ! (m_to m - 1)"
  have m: "m \<in> sim_net s" using en RaftMsg by simp
  then have mr: "msg_rel (sim_ctx E cf 0 persisted_default 0) (anet A) m"
    using inv unfolding sim_inv_def world_inv_def by blast
  then have i: "?i \<in> set (sim_voters cf)" by (simp add: msg_rel_def)
  have len: "?i - 1 < length (sim_nodes s)" using voters_index [OF i] inv unfolding sim_inv_def world_inv_def by blast
  have r: "sn_raft ?n = Some (co_raft c)" and rel': "core_rel K cf lops sops c ?n" and u: "sn_up ?n"
    using rel up RaftMsg by (simp_all add: core_rel_def core_sim_def)
  have o: "out (co_raft c) = output_default" using running_node(2) [OF inv nth_mem [OF len] r] .
  obtain s' where s': "sim_handle E cf ev s = Inr s'"
    using sim_handle_ok [OF _ inv en] lib E unfolding core_lib_ok_def by blast
  obtain r' where r': "step m (co_raft c) = Inr r'"
    "process_output E cf (?i - 1) (s\<lparr>sim_nodes := (sim_nodes s)[?i - 1 := ?n\<lparr>sn_raft := Some r'\<rparr>]\<rparr>) = Inr s'"
    using s' r u del RaftMsg by (auto simp: on_raft_msg_def set_raft_def Let_def split: sum.splits)
  let ?c1 = "c\<lparr>co_raft := r'\<rparr>"
  have h: "handle_event K (EvPeer m) c = Inr ?c1" "same_storage c ?c1" using r'(1) by (simp_all add: same_storage_def)
  have sh: "append_shape (last_index (rlog (co_raft c))) (co_raft ?c1)"
    using step_shape [OF r'(1) _ net_entries_follow [OF inv m]] o by (simp add: output_default_def)
  from drained_event_sim [OF lib E inv len rel' _ h sh _ _ r'(2)] fits cev RaftMsg s' show ?thesis
    by (simp add: same_state_def)
next
  case (ClientReq client node req)
  then have i: "node \<in> set (sim_voters cf)" using en by simp
  have u: "sn_up (sim_nodes s ! (node - 1))" and rel': "core_rel K cf lops sops c (sim_nodes s ! (node - 1))"
    and fits': "turn_fits K lops sops cev c (sim_nodes s ! (node - 1))" using up rel fits ClientReq by simp_all
  show ?thesis
  proof (cases req)
    case (ReqWrite sq key v)
    then show ?thesis
      using write_event_sim [OF lib E inv i u rel' fits' _ refl, of client sq "Put [key] (encode_val v)" tx] cev u ClientReq
      by (auto simp: on_client_req_def Let_def)
  next
    case (ReqCas sq key expect new)
    then show ?thesis
      using write_event_sim [OF lib E inv i u rel' fits' _ refl, of client sq "Cas [key] (map_option encode_val expect) (Some (encode_val new))" tx]
        cev u ClientReq by (auto simp: on_client_req_def Let_def)
  next
    case (ReqRead op_ts key)
    then show ?thesis
      using read_event_sim [OF lib E inv i u rel' fits', of "ReadGet [key]" tx client op_ts key] cev u ClientReq
      by (auto simp: on_client_req_def Let_def split: if_splits)
  qed
qed (use cev in simp_all)

section \<open>Restart\<close>

text \<open>
  A server opened on the directories a stopped one left is related to the simulated node after its
  restart.
\<close>

lemma core_restart_sim:
  assumes lib: "core_lib_ok K" and E: "cl_env K = E" and inv: "sim_inv E cf s A" and i: "i \<in> set (sim_voters cf)"
    and n: "n = sim_nodes s ! (i - 1)" "\<not> sn_up n" and since: "sn_applied_since_snap n = 0" and every: "0 < sc_snapshot_every cf"
    and db: "db_open (cl_storage K) log_options raft_dir = Some (Inr db)" "db_life (cl_storage K) log_options lops db"
    and holds: "ls_holds (cl_storage K) (cl_log K) lops ls (sn_disk n)" and llen: "length lops \<le> usize_max"
    and b: "db_open (cl_storage K) backend_options sm_dir = Some (Inr b)" "db_life (cl_storage K) backend_options sops b"
    and slen: "length sops \<le> usize_max" and dump: "dbb_dump (cl_storage K) b = Inr existing"
    and p: "restart_payload E (sn_disk n) = Some p"
    and room: "room_for (cl_storage K) backend_options sops (load_ops existing (pl_kvs p))"
  shows "\<exists>s' c. sim_handle E cf (Restart i) s = Inr s' \<and>
    core_open K (node_cfg cf i (sn_restarts n + 1)) (sim_voters cf) (sc_snapshot_every cf) peers raft_dir sm_dir = Inr c \<and>
    core_rel K cf lops (sops @ load_ops existing (pl_kvs p)) c (sim_nodes s' ! (i - 1))"
proof -
  let ?L = "cl_storage K" and ?B = "cl_log K" and ?d = "sn_disk n"
  let ?r = "raft_node_new (node_cfg cf i (sn_restarts n + 1)) (sim_voters cf) ?d"
  have env: "env_ok E" and man: "man_lib_ok (lib_man ?L)" and B: "log_lib_ok ?B" using lib E by (simp_all add: core_lib_ok_def)
  have log: "ls_open ?L ?B raft_dir = Some (Inr (ls\<lparr>ls_db := db\<rparr>, ?d))" "ls_holds ?L ?B lops (ls\<lparr>ls_db := db\<rparr>) ?d"
    using ls_open_life [OF db holds B man llen] by simp_all
  let ?log = "ls\<lparr>ls_db := db\<rparr>"
  obtain sm where sm: "core_open K (node_cfg cf i (sn_restarts n + 1)) (sim_voters cf) (sc_snapshot_every cf) peers raft_dir sm_dir =
      Inr (core_new ?r ?log sm (restart_applied ?d) (sc_snapshot_every cf) peers)"
    "dbb_rel ?L backend_options (sops @ load_ops existing (pl_kvs p)) sm (map_of (rev (pl_kvs p)), bt_get (bt_collect (pl_sessions p)))"
    using core_open_sim [OF lib log(1) b slen _ dump room] p E by blast
  let ?c = "core_new ?r ?log sm (restart_applied ?d) (sc_snapshot_every cf) peers"
  have len: "i - 1 < length (sim_nodes s)" using voters_index [OF i] inv unfolding sim_inv_def world_inv_def by blast
  have down: "sn_sm n = sm_new bt_empty" "sn_applied n = 0" using inv i n unfolding sim_inv_def node_inv_def by auto
  obtain s' where s': "sim_handle E cf (Restart i) s = Inr s'"
    using sim_handle_ok [OF env inv, of "Restart i"] i by auto
  let ?msm = "\<lparr>sm_backend = bt_collect (pl_kvs p), sm_sessions = bt_collect (pl_sessions p)\<rparr> :: mem_backend state_machine"
  define n2 where "n2 = n\<lparr>sn_restarts := sn_restarts n + 1, sn_raft := Some ?r, sn_sm := ?msm, sn_applied := restart_applied ?d, sn_up := True\<rparr>"
  have msm: "mem.sm_abs ?msm = (map_of (rev (pl_kvs p)), bt_get (bt_collect (pl_sessions p)))" "mem.sm_ok ?msm"
    by (simp_all add: mem.sm_abs_def mem.sm_ok_def mem_load)
  have po: "process_output E cf (i - 1) (s\<lparr>sim_nodes := (sim_nodes s)[i - 1 := n2]\<rparr>) = Inr s'"
  proof (cases "p_snapshot ?d")
    case None
    have "hash_iter E [] = []" using env unfolding env_ok_def by (metis mset_zero_iff mset.simps(1))
    then have "p = \<lparr>pl_kvs = [], pl_sessions = []\<rparr>"
      using p None by (simp add: restart_payload_def sm_payload_def mem_backend_def sm_new_def bt_empty_def)
    then have "n2 = n\<lparr>sn_restarts := sn_restarts n + 1, sn_raft := Some ?r, sn_up := True\<rparr>"
      using down None by (simp add: n2_def restart_applied_def sm_new_def bt_collect_def)
    then show ?thesis using s' n None by (simp add: on_restart_def Let_def)
  next
    case (Some snap)
    then have "dec_snap E (s_data snap) = Some p" using p by (simp add: restart_payload_def)
    then show ?thesis using s' n Some
      by (simp add: on_restart_def Let_def sm_restore_def mem_backend_def mem_clear_and_load_def n2_def restart_applied_def)
  qed
  have out: "out ?r = output_default" by (auto simp: raft_node_new_def Let_def split: option.splits)
  have rel: "core_rel K cf lops (sops @ load_ops existing (pl_kvs p)) ?c n2"
    using every sm(2) log(2) msm room since by (simp add: core_rel_def core_sim_def core_new_def n2_def room_for_def)
  have "core_rel K cf lops (sops @ load_ops existing (pl_kvs p)) ?c (sim_nodes s' ! (i - 1))"
    by (rule empty_drain_sim(1) [OF _ _ _ po]) (use rel len out in \<open>simp_all add: core_new_def\<close>)
  then show ?thesis using s' sm(1) by blast
qed

lemma apply_entries_up:
  "apply_entries E es (n, ag, rs) = Inr (n', ag', rs') \<Longrightarrow> sn_up n' = sn_up n"
proof (induction es arbitrary: n ag rs)
  case (Cons e es)
  obtain n1 ag1 rs1 where 1: "apply_entry E e (n, ag, rs) = Inr (n1, ag1, rs1)" "apply_entries E es (n1, ag1, rs1) = Inr (n', ag', rs')"
    using Cons.prems by (auto split: sum.splits)
  have "sn_up n1 = sn_up n"
    using 1(1) by (auto simp: apply_entry_def apply_cmd_def Let_def case_prod_beta split: sum.splits entry_payload.splits option.splits if_splits)
  then show ?case using Cons.IH [OF 1(2)] by simp
qed simp

text \<open>A node that is down has applied nothing since its last snapshot.\<close>

lemma process_output_up:
  assumes p: "process_output E cf i s = Inr s'" and i: "i < length (sim_nodes s)" and up: "sn_up (sim_nodes s ! i)"
  shows "\<exists>n'. sim_nodes s' = (sim_nodes s)[i := n'] \<and> sn_up n'"
proof -
  obtain r where r: "sn_raft (sim_nodes s ! i) = Some r" using p by (cases "sn_raft (sim_nodes s ! i)") (auto simp: process_output_def)
  obtain n1 ag rs n2 n3 where st: "persist_stage E (out r) ((sim_nodes s ! i)\<lparr>sn_raft := Some (r\<lparr>out := output_default\<rparr>)\<rparr>) = Inr n1"
    "apply_entries E (o_committed (out r)) (n1, sim_applied s, []) = Inr (n2, ag, rs)" "compact_stage E cf n2 = Inr n3"
    and s': "sim_nodes s' ! i = fst (read_stage (out r) n3)"
    by (rule process_output_stages [OF p i refl r])
  have "sn_up n1" using st(1) up by (auto simp: persist_stage_def Let_def split: option.splits)
  moreover have "sn_up n2 = sn_up n1"
    using st(2) by (rule apply_entries_up)
  moreover have "sn_up n3 = sn_up n2" using st(3) by (auto simp: compact_stage_def Let_def split: if_splits option.splits prod.splits)
  ultimately have "sn_up (sim_nodes s' ! i)" by (simp add: s' read_stage_sel)
  moreover have "sim_nodes s' = (sim_nodes s)[i := sim_nodes s' ! i]"
    using p i by (auto simp: process_output_def Let_def r take_output_def split: sum.splits option.splits prod.splits)
  ultimately show ?thesis by blast
qed

definition down_fresh :: "sim \<Rightarrow> bool" where
  "down_fresh s \<longleftrightarrow> (\<forall>n \<in> set (sim_nodes s). sn_up n \<or> sn_applied_since_snap n = 0)"

lemma down_fresh_update:
  "down_fresh s \<Longrightarrow> sim_nodes s' = (sim_nodes s)[i := n] \<Longrightarrow> sn_up n \<or> sn_applied_since_snap n = 0 \<Longrightarrow> down_fresh s'"
  unfolding down_fresh_def by (metis in_mono insert_iff set_update_subset_insert)

lemma down_fresh_drain:
  assumes d: "down_fresh s" and p: "process_output E cf i (s\<lparr>sim_nodes := (sim_nodes s)[i := n]\<rparr>) = Inr s'"
    and i: "i < length (sim_nodes s)" and up: "sn_up n"
  shows "down_fresh s'"
proof -
  obtain n' where "sim_nodes s' = (sim_nodes s)[i := n, i := n']" "sn_up n'"
    using process_output_up [OF p] i up by auto
  then show ?thesis using down_fresh_update [OF d, of s' i n'] by simp
qed

lemma down_fresh_write:
  assumes d: "down_fresh s" and p: "try_propose E cf i client session sq cmd s = Inr s'"
    and i: "i < length (sim_nodes s)" and up: "sn_up (sim_nodes s ! i)"
  shows "down_fresh s'"
proof -
  obtain r where r: "sn_raft (sim_nodes s ! i) = Some r" using p by (cases "sn_raft (sim_nodes s ! i)") (auto simp: try_propose_def)
  obtain res r' where pr: "propose (enc_cmd E cmd) r = (res, r')" by fastforce
  show ?thesis
  proof (cases res)
    case (Inr idx)
    then show ?thesis using p r pr by (intro down_fresh_drain [OF d _ i]) (auto simp: try_propose_def Let_def up)
  next
    case (Inl err)
    then have "sim_nodes s' = (sim_nodes s)[i := (sim_nodes s ! i)\<lparr>sn_raft := Some r'\<rparr>]"
      using p r pr by (auto simp: try_propose_def Let_def send_client_resp_def set_raft_def split: propose_error.splits)
    then show ?thesis by (rule down_fresh_update [OF d]) (simp add: up)
  qed
qed

lemma down_fresh_read:
  assumes d: "down_fresh s" and p: "on_client_read E cf client node op_ts key s = Inr s'"
    and i: "node - 1 < length (sim_nodes s)" and up: "sn_up (sim_nodes s ! (node - 1))"
  shows "down_fresh s'"
proof -
  let ?n = "sim_nodes s ! (node - 1)"
  obtain r where r: "sn_raft ?n = Some r" using p by (cases "sn_raft ?n") (auto simp: on_client_read_def)
  obtain res r' where pr: "read_index (sn_next_read_id ?n) r = (res, r')" by fastforce
  show ?thesis
  proof (cases res)
    case (Inr u)
    then have "process_output E cf (node - 1) (s\<lparr>sim_nodes := (sim_nodes s)[node - 1 := ?n\<lparr>sn_raft := Some r',
        sn_next_read_id := sn_next_read_id ?n + 1,
        sn_pending_reads := bt_insert (sn_next_read_id ?n) (client, op_ts, key) (sn_pending_reads ?n)\<rparr>]\<rparr>) = Inr s'"
      using p r pr by (simp add: on_client_read_def Let_def)
    then show ?thesis by (rule down_fresh_drain [OF d _ i]) (use up in simp)
  next
    case (Inl err)
    then have "sim_nodes s' = (sim_nodes s)[node - 1 := ?n\<lparr>sn_raft := Some r', sn_next_read_id := sn_next_read_id ?n + 1\<rparr>]"
      using p r pr by (auto simp: on_client_read_def Let_def send_client_resp_def)
    then show ?thesis by (rule down_fresh_update [OF d]) (use up in simp)
  qed
qed

lemma down_fresh_restart:
  assumes d: "down_fresh s" and p: "on_restart E cf node s = Inr s'" and i: "node - 1 < length (sim_nodes s)"
  shows "down_fresh s'"
proof (cases "sn_up (sim_nodes s ! (node - 1))")
  case False
  then obtain n2 where "process_output E cf (node - 1) (s\<lparr>sim_nodes := (sim_nodes s)[node - 1 := n2\<lparr>sn_up := True\<rparr>]\<rparr>) = Inr s'"
    using p by (auto simp: on_restart_def Let_def split: sum.splits)
  then show ?thesis by (rule down_fresh_drain [OF d _ i]) simp
qed (use d p in \<open>simp add: on_restart_def Let_def\<close>)

lemma down_fresh_event:
  assumes d: "down_fresh s" and h: "sim_handle E cf ev s = Inr s'" and en: "enabled cf s ev"
    and len: "length (sim_nodes s) = sc_nodes cf" and net: "\<forall>m \<in> sim_net s. m_to m \<in> set (sim_voters cf)"
  shows "down_fresh s'"
proof (cases ev)
  case (NodeTick i)
  then have i: "i - 1 < length (sim_nodes s)" using en voters_index [OF _ len] by simp
  show ?thesis
    using h NodeTick d down_fresh_drain [OF d _ i]
    by (auto simp: on_node_tick_def set_raft_def Let_def split: if_splits option.splits)
next
  case (RaftMsg m)
  then have i: "m_to m - 1 < length (sim_nodes s)" using en net voters_index [OF _ len] by simp
  show ?thesis
    using h RaftMsg d down_fresh_drain [OF d _ i]
    by (auto simp: on_raft_msg_def set_raft_def Let_def split: if_splits option.splits sum.splits)
next
  case (ClientReq client node req)
  then have i: "node - 1 < length (sim_nodes s)" using en voters_index [OF _ len] by simp
  show ?thesis
    using h ClientReq d down_fresh_write [OF d _ i] down_fresh_read [OF d _ i]
    by (auto simp: on_client_req_def Let_def split: if_splits c_req.splits)
next
  case (Crash i)
  let ?n = "(sim_nodes s ! (i - 1))\<lparr>sn_up := False, sn_raft := None, sn_sm := sm_new bt_empty,
               sn_applied := 0, sn_applied_since_snap := 0, sn_pending_reads := bt_empty,
               sn_ready_reads := [], sn_waiting_writes := bt_empty\<rparr>"
  have "s' = s \<or> sim_nodes s' = (sim_nodes s)[i - 1 := ?n]" using h Crash by (auto simp: crash_def Let_def)
  then show ?thesis using d down_fresh_update [OF d, of s' "i - 1" ?n] by auto
next
  case (Restart i)
  then have "i - 1 < length (sim_nodes s)" using en voters_index [OF _ len] by simp
  then show ?thesis using h Restart down_fresh_restart [OF d] by simp
qed (use h d in \<open>auto simp: down_fresh_def start_partition_def\<close>)

lemma reach_down_fresh:
  assumes "sim_reach E cf s" "env_ok E"
  shows "down_fresh s"
  using assms
proof (induction rule: sim_reach.induct)
  case boot
  then show ?case by (auto simp: down_fresh_def boot_def boot_node_def)
next
  case (event s ev s')
  obtain A where "sim_inv E cf s A" using sim_reach_inv [OF event(1) event.prems] by blast
  then have "length (sim_nodes s) = sc_nodes cf" "\<forall>m \<in> sim_net s. m_to m \<in> set (sim_voters cf)"
    unfolding sim_inv_def world_inv_def by (auto simp: msg_rel_def)
  then show ?case using down_fresh_event [OF event.IH [OF event.prems] event(3,2)] by simp
qed

end
