(* ===== verification/Core_Runs.thy ===== *)
theory Core_Runs
  imports Core_Sim Sim_Runs
begin

text \<open>
  Runs of the server's core. A core that drains after every event does what the simulated node does,
  and it restarts as that node does. Whatever the grouping of events, every request handed to the core
  is answered, or its channel closed, exactly once, and no later than the fifty ticks that
  \<open>sweep_timeouts\<close> allows.
\<close>

definition demo_lib :: core_lib where
  "demo_lib = \<lparr>cl_storage = plain_storage_lib, cl_log = plain_log_lib, cl_env = demo_env\<rparr>"

lemma demo_lib_ok: "core_lib_ok demo_lib"
  by (simp add: core_lib_ok_def demo_lib_def plain_log_lib_ok plain_man_lib_ok demo_env_ok)

section \<open>A node that is not a voter\<close>

definition idle :: "raft_node \<Rightarrow> bool" where
  "idle r \<longleftrightarrow> role r = Follower \<and> nid r \<notin> set (voters r) \<and> out r = output_default"

lemma idle_tick: "idle r \<Longrightarrow> idle (tick r)"
  by (auto simp: idle_def tick_def Let_def voters_def voters_at_def)

lemma tick_event:
  "\<exists>c'. handle_event K EvTick c = Inr c' \<and> co_raft c' = tick (co_raft c)"
  by (simp add: stamp_gauges_def sweep_timeouts_def drop_txs_def bump_def Let_def)

lemma idle_ticks: "idle (co_raft c) \<Longrightarrow> \<exists>c'. handle_events K (replicate k EvTick) c = Inr c' \<and> idle (co_raft c')"
proof (induction k arbitrary: c)
  case (Suc k)
  obtain c1 where c1: "handle_event K EvTick c = Inr c1" "co_raft c1 = tick (co_raft c)" using tick_event by blast
  then show ?case using Suc.IH [of c1] idle_tick [OF Suc.prems] by (simp del: handle_event.simps)
qed simp

lemma idle_turn:
  assumes "handle_events K g c = Inr c1" "idle (co_raft c1)"
  shows "core_turn K g c = Some (Inr c1)"
proof -
  have "co_raft c1 = (co_raft c1)\<lparr>out := output_default\<rparr>" using assms(2) by (simp add: idle_def)
  then show ?thesis
    using assms by (simp add: core_turn_def core_process_output_once Let_def idle_def output_is_empty_iff)
qed

lemma idle_open:
  assumes "core_lib_ok K" "c_id conf \<notin> set vs"
  shows "\<exists>c. core_open K conf vs every peers empty_dir empty_dir = Inr c \<and> idle (co_raft c)"
  using core_open_fresh [OF assms(1), of conf vs every peers] assms(2)
  by (auto simp: core_new_def idle_def raft_node_new_def persisted_default_def voters_def voters_at_def log_new_def)

lemma idle_request:
  assumes "idle (co_raft c)" "session \<noteq> 0"
  shows "\<exists>c'. handle_events K [EvClient (RqPut session q k v) tx] c = Inr c' \<and> co_raft c' = co_raft c"
  using assms by (simp add: idle_def propose_write_def propose_def propose_err_def answer_def bump_def)

lemma demo_run:
  "\<exists>c0 c c'. core_open demo_lib (config_new 9 7) [1, 2, 3] 1000 [1, 2, 3] empty_dir empty_dir = Inr c0 \<and>
     core_run demo_lib [[EvClient (RqPut 1 1 [107] [118]) 4]] c0 = Some (Inr c) \<and>
     core_run demo_lib [replicate 50 EvTick] c = Some (Inr c')"
proof -
  obtain c0 where c0: "core_open demo_lib (config_new 9 7) [1, 2, 3] 1000 [1, 2, 3] empty_dir empty_dir = Inr c0" "idle (co_raft c0)"
    using idle_open [OF demo_lib_ok, of "config_new 9 7" "[1, 2, 3]"] by (auto simp: config_new_def)
  obtain c where c: "handle_events demo_lib [EvClient (RqPut 1 1 [107] [118]) 4] c0 = Inr c" "co_raft c = co_raft c0"
    using idle_request [OF c0(2), of 1] by auto
  then have t: "core_turn demo_lib [EvClient (RqPut 1 1 [107] [118]) 4] c0 = Some (Inr c)" using c0(2) by (intro idle_turn) simp_all
  obtain c' where "handle_events demo_lib (replicate 50 EvTick) c = Inr c'" "idle (co_raft c')"
    using idle_ticks [of c demo_lib 50] c(2) c0(2) by auto
  then have "core_turn demo_lib (replicate 50 EvTick) c = Some (Inr c')" by (rule idle_turn)
  then show ?thesis using c0(1) t by auto
qed

section \<open>Answers\<close>

lemma waiting_tx: "tx \<in># image_mset fst (waiting c) \<longleftrightarrow> (\<exists>d. (tx, d) \<in># waiting c)"
  by force

text \<open>
  C21: no request is lost and none is answered twice. Let the core have handled any groups of events
  without stopping (no panic, no failed call into storage and none that never returns). Then every
  request handed to it either still waits in one of the two tables or was answered (or had its channel
  closed), and exactly one of these; and nothing else was answered. This holds after every further
  group as well, and the answers given before it stay as they are.
\<close>

theorem requests_answered_once:
  assumes "core_open K conf vs every peers d1 d2 = Inr c0" and "core_run K gs c0 = Some (Inr c)"
  shows "image_mset fst (waiting c) + mset (map fst (co_answers c)) = mset (event_txs (concat gs)) \<and>
    (\<forall>g c'. core_turn K g c = Some (Inr c') \<longrightarrow>
       image_mset fst (waiting c') + mset (map fst (co_answers c')) = mset (event_txs (concat gs @ g)) \<and>
       (\<exists>more. co_answers c' = co_answers c @ more))"
proof -
  have ok: "core_ok c0" "handles c0 = {#}" using core_open_ok [OF assms(1)] by simp_all
  have c: "core_ok c" "handles c = mset (event_txs (concat gs))"
    using core_run_step [OF ok(1) assms(2)] ok(2) by (simp_all add: client_step_def)
  have "handles c' = mset (event_txs (concat gs @ g)) \<and> (\<exists>more. co_answers c' = co_answers c @ more)"
    if "core_turn K g c = Some (Inr c')" for g c'
    using core_turn_step [OF c(1) that] c(2) by (simp add: client_step_def)
  then show ?thesis using c(2) unfolding handles_def by blast
qed

theorem requests_answered_once_witness:
  "\<exists>c0 c. core_open demo_lib (config_new 9 7) [1, 2, 3] 1000 [1, 2, 3] empty_dir empty_dir = Inr c0 \<and>
     core_run demo_lib [[EvClient (RqPut 1 1 [107] [118]) 4]] c0 = Some (Inr c) \<and>
     image_mset fst (waiting c) + mset (map fst (co_answers c)) = {#4#}"
proof -
  obtain c0 c where c0: "core_open demo_lib (config_new 9 7) [1, 2, 3] 1000 [1, 2, 3] empty_dir empty_dir = Inr c0"
    and c: "core_run demo_lib [[EvClient (RqPut 1 1 [107] [118]) 4]] c0 = Some (Inr c)"
    using demo_run by blast
  from requests_answered_once [OF c0 c]
  have "image_mset fst (waiting c) + mset (map fst (co_answers c)) = {#4#}" by simp
  then show ?thesis using c0 c by blast
qed

text \<open>
  C22: a request does not wait for ever. Once a core that has not stopped has handled fifty more ticks,
  every request handed to it before them was answered or had its channel closed, whatever became of
  the proposal or of the read.
\<close>

theorem requests_answered_in_time:
  assumes "core_open K conf vs every peers d1 d2 = Inr c0"
    and "core_run K gs c0 = Some (Inr c)" and "core_run K gs' c = Some (Inr c')"
    and "50 \<le> event_ticks (concat gs')" and "distinct (event_txs (concat gs @ concat gs'))"
  shows "set (event_txs (concat gs)) \<subseteq> fst ` set (co_answers c')"
proof
  fix tx
  assume tx: "tx \<in> set (event_txs (concat gs))"
  have ok: "core_ok c0" "handles c0 = {#}" using core_open_ok [OF assms(1)] by simp_all
  note s = core_run_step [OF ok(1) assms(2)]
  then have c: "core_ok c" "handles c = mset (event_txs (concat gs))" using ok(2) by (simp_all add: client_step_def)
  note s' = core_run_step [OF c(1) assms(3)]
  have "handles c' = mset (event_txs (concat gs @ concat gs'))" using s' c(2) by (simp add: client_step_def)
  then have "tx \<in># handles c'" using tx by simp
  moreover have False if w: "tx \<in># image_mset fst (waiting c')"
  proof -
    obtain d where d: "(tx, d) \<in># waiting c'" using w unfolding waiting_tx by blast
    have "tx \<notin># mset (event_txs (concat gs'))" using tx assms(5) by auto
    then have "(tx, d) \<in># waiting c" using s' d unfolding client_step_def by blast
    then have "d \<le> co_tick c + 50" using c(1) unfolding core_ok_def pending_timeout_ticks_def by blast
    moreover have "co_tick c' < d" using s' d unfolding client_step_def core_ok_def by blast
    moreover have "co_tick c' = co_tick c + event_ticks (concat gs')" using s' by (simp add: client_step_def)
    ultimately show False using assms(4) by linarith
  qed
  ultimately show "tx \<in> fst ` set (co_answers c')" by (auto simp: handles_def)
qed

theorem requests_answered_in_time_witness:
  "\<exists>c0 c c'. core_open demo_lib (config_new 9 7) [1, 2, 3] 1000 [1, 2, 3] empty_dir empty_dir = Inr c0 \<and>
     core_run demo_lib [[EvClient (RqPut 1 1 [107] [118]) 4]] c0 = Some (Inr c) \<and>
     core_run demo_lib [replicate 50 EvTick] c = Some (Inr c') \<and> 4 \<in> fst ` set (co_answers c')"
proof -
  obtain c0 c c' where c0: "core_open demo_lib (config_new 9 7) [1, 2, 3] 1000 [1, 2, 3] empty_dir empty_dir = Inr c0"
    and c: "core_run demo_lib [[EvClient (RqPut 1 1 [107] [118]) 4]] c0 = Some (Inr c)"
    and c': "core_run demo_lib [replicate 50 EvTick] c = Some (Inr c')"
    using demo_run by blast
  have "event_txs (replicate k EvTick) = []" for k by (induction k) simp_all
  moreover have "event_ticks (concat [replicate 50 EvTick]) = 50" by (simp add: event_ticks_def)
  ultimately have "4 \<in> fst ` set (co_answers c')" using requests_answered_in_time [OF c0 c c'] by simp
  then show ?thesis using c0 c c' by blast
qed

section \<open>The simulated node\<close>

lemma quiet_fits:
  assumes "o_hard_state o' = None" "o_append o' = []" "o_snapshot o' = None" "o_committed o' = []"
    and "co_applied_since_snap c < co_snapshot_every c"
  shows "drain_fits K [] [] o' c n"
proof -
  have "output_ops (cl_log K) o' (co_log c) = []" "restore_writes K o' c = []"
    using assms by (simp_all add: persist_ops_def snap_part_def append_part_def restore_writes_def)
  moreover have "core_persist K o' c = Inr c" "core_install K o' c = Inr c" using assms by (simp_all add: core_persist_def core_install_def)
  moreover have "compact_writes K c = []" using assms(5) by (simp add: compact_writes_def)
  ultimately show ?thesis
    using assms by (simp add: drain_fits_def room_for_def history_fits_Nil writes_fit_def committed_cmds_def)
qed

lemma open_node_rel:
  assumes lib: "core_lib_ok K" and every: "0 < sc_snapshot_every cf"
  shows "\<exists>c. core_open K (node_cfg cf i 0) (sim_voters cf) (sc_snapshot_every cf) peers empty_dir empty_dir = Inr c \<and>
    core_rel K cf [] [] c (boot_node cf i)"
  using core_open_fresh [OF lib, of "node_cfg cf i 0" "sim_voters cf" "sc_snapshot_every cf" peers] every
  by (auto simp: core_rel_def core_sim_def core_new_def boot_node_def mem.sm_ok_def sm_new_def)

text \<open>
  C9: a server that drains its raft output after every event does what the simulated node does. Let a
  cluster state be reachable in the simulator and a server's core be related to one of its running
  nodes: the same raft node, a log store that holds the node's disk, a state machine on the storage
  engine with the contents of the node's, the same applied index. Then a tick, a delivered message, a
  write, or a linearizable read when the server's next read id is the node's, takes both to related
  states again; neither aborts, while the stores have room for the writes of the turn; and the server
  sends its peers exactly the messages the simulated node sends.
\<close>

theorem core_refines_node:
  assumes "core_lib_ok K" and "sim_reach (cl_env K) cf s" and "enabled cf s ev" and "delivered s ev"
    and "n = sim_nodes s ! (event_node ev - 1)" and "sn_up n" and "server_event c n ev tx = Some cev"
    and "core_rel K cf lops sops c n" and "turn_fits K lops sops cev c n"
  shows "\<exists>s' c' lw sw ms. sim_handle (cl_env K) cf ev s = Inr s' \<and> core_turn K [cev] c = Some (Inr c') \<and>
    core_rel K cf (lops @ lw) (sops @ sw) c' (sim_nodes s' ! (event_node ev - 1)) \<and>
    sim_net s' = sim_net s \<union> set ms \<and> co_sent c' = co_sent c @ filter (\<lambda>m. m_to m \<in> set (co_peers c)) ms"
proof -
  have env: "env_ok (cl_env K)" using assms(1) by (simp add: core_lib_ok_def)
  obtain A where A: "sim_inv (cl_env K) cf s A" using sim_reach_inv [OF assms(2) env] by blast
  show ?thesis using core_event_sim [OF assms(1) refl A assms(3) _ _ assms(4)] assms(5-9) by blast
qed

definition demo_ticks :: "sim_event list" where
  "demo_ticks = [NodeTick 2, NodeTick 2, NodeTick 2, NodeTick 2, NodeTick 2, NodeTick 2, NodeTick 2, NodeTick 2,
     NodeTick 2, NodeTick 2]"

definition demo_prevote :: message where
  "demo_prevote = \<lparr>m_from = 2, m_to = 1, m_term = 1, m_body = PreVote 0 0\<rparr>"

lemma demo_ticks_eval:
  "case sim_exec demo_env demo_cfg demo_ticks (boot demo_cfg) of
     None \<Rightarrow> False
   | Some s \<Rightarrow> demo_prevote \<in> sim_net s \<and> sim_nodes s ! 0 = boot_node demo_cfg 1 \<and> sim_blocked s = {}"
  by (simp add: sim_eval demo_cfg_def demo_ticks_def demo_prevote_def cong: let_weak_cong prod.case_cong_weak)

theorem core_refines_node_witness:
  "\<exists>s s' c c' ms. demo_prevote \<in> sim_net s \<and> sim_handle demo_env demo_cfg (RaftMsg demo_prevote) s = Inr s' \<and>
     core_turn demo_lib [EvPeer demo_prevote] c = Some (Inr c') \<and> sn_raft (sim_nodes s' ! 0) = Some (co_raft c') \<and>
     sim_net s' = sim_net s \<union> set ms \<and> co_sent c' = co_sent c @ filter (\<lambda>m. m_to m \<in> set (co_peers c)) ms"
proof -
  obtain s where s: "sim_exec demo_env demo_cfg demo_ticks (boot demo_cfg) = Some s" "demo_prevote \<in> sim_net s"
    "sim_nodes s ! 0 = boot_node demo_cfg 1" "sim_blocked s = {}"
    using demo_ticks_eval by (auto split: option.splits)
  have reach: "sim_reach demo_env demo_cfg s" by (rule sim_reach_step [OF sim_exec_steps [OF s(1)] sim_reach.boot])
  obtain c where c: "core_rel demo_lib demo_cfg [] [] c (boot_node demo_cfg 1)"
    using open_node_rel [OF demo_lib_ok, of demo_cfg] by (auto simp: demo_cfg_def)
  have "co_raft c = raft_node_new (node_cfg demo_cfg 1 0) (sim_voters demo_cfg) persisted_default"
    using c by (simp add: core_rel_def core_sim_def boot_node_def)
  then have o: "out (co_raft c) = output_default" by (simp add: raft_node_new_def persisted_default_def)
  have "turn_fits demo_lib [] [] (EvPeer demo_prevote) c (boot_node demo_cfg 1)"
    unfolding turn_fits_def
  proof (intro allI impI)
    fix c1 assume "handle_event demo_lib (EvPeer demo_prevote) c = Inr c1"
    then have "c1 = c\<lparr>co_raft := handle_pre_vote 2 1 0 0 (co_raft c)\<rparr>" by (simp add: demo_prevote_def step_def)
    then show "drain_fits demo_lib [] [] (out (co_raft c1)) (c1\<lparr>co_raft := (co_raft c1)\<lparr>out := output_default\<rparr>\<rparr>) (boot_node demo_cfg 1)"
      using o c by (intro quiet_fits) (simp_all add: handle_pre_vote_def push_msg_def Let_def output_default_def core_rel_def)
  qed
  from core_refines_node [OF demo_lib_ok, of demo_cfg s "RaftMsg demo_prevote" "boot_node demo_cfg 1" c 0 "EvPeer demo_prevote" "[]" "[]"] this
  obtain s' c' lw sw ms where "sim_handle demo_env demo_cfg (RaftMsg demo_prevote) s = Inr s'"
    "core_turn demo_lib [EvPeer demo_prevote] c = Some (Inr c')" "core_rel demo_lib demo_cfg lw sw c' (sim_nodes s' ! 0)"
    "sim_net s' = sim_net s \<union> set ms" "co_sent c' = co_sent c @ filter (\<lambda>m. m_to m \<in> set (co_peers c)) ms"
    using reach s(2-4) c by (auto simp: demo_lib_def demo_prevote_def boot_node_def)
  moreover from this(3) have "sn_raft (sim_nodes s' ! 0) = Some (co_raft c')" by (simp add: core_rel_def core_sim_def)
  ultimately show ?thesis using s(2) by blast
qed

text \<open>
  C10: a server restarts as the simulated node does. Open the core on a log directory and a
  state-machine directory that recover to the histories of the stopped server, whatever the
  state-machine directory still holds beyond the snapshot: the core starts with the raft node and the
  disk of the restarted node, and with the contents and the applied index of its last snapshot, so it
  is related to that node again.
\<close>

theorem core_restart_refines:
  assumes "core_lib_ok K" and "sim_reach (cl_env K) cf s" and "i \<in> set (sim_voters cf)"
    and "n = sim_nodes s ! (i - 1)" and "\<not> sn_up n" and "0 < sc_snapshot_every cf"
    and "db_open (cl_storage K) log_options raft_dir = Some (Inr db)" and "db_life (cl_storage K) log_options lops db"
    and "ls_holds (cl_storage K) (cl_log K) lops ls (sn_disk n)" and "length lops \<le> usize_max"
    and "db_open (cl_storage K) backend_options sm_dir = Some (Inr b)" and "db_life (cl_storage K) backend_options sops b"
    and "length sops \<le> usize_max" and "dbb_dump (cl_storage K) b = Inr existing"
    and "restart_payload (cl_env K) (sn_disk n) = Some p"
    and "room_for (cl_storage K) backend_options sops (load_ops existing (pl_kvs p))"
  shows "\<exists>s' c. sim_handle (cl_env K) cf (Restart i) s = Inr s' \<and>
    core_open K (node_cfg cf i (sn_restarts n + 1)) (sim_voters cf) (sc_snapshot_every cf) peers raft_dir sm_dir = Inr c \<and>
    core_rel K cf lops (sops @ load_ops existing (pl_kvs p)) c (sim_nodes s' ! (i - 1))"
proof -
  have env: "env_ok (cl_env K)" using assms(1) by (simp add: core_lib_ok_def)
  obtain A where A: "sim_inv (cl_env K) cf s A" using sim_reach_inv [OF assms(2) env] by blast
  have "i - 1 < length (sim_nodes s)" using voters_index [OF assms(3)] A unfolding sim_inv_def world_inv_def by blast
  then have "n \<in> set (sim_nodes s)" using assms(4) by simp
  then have "sn_applied_since_snap n = 0"
    using reach_down_fresh [OF assms(2) env] assms(5) unfolding down_fresh_def by blast
  from core_restart_sim [OF assms(1) refl A assms(3-5) this assms(6-14) assms(15,16)] show ?thesis .
qed

theorem core_restart_refines_witness:
  "\<exists>s' c. sim_handle demo_env demo_cfg (Restart 1) (crash 1 (boot demo_cfg)) = Inr s' \<and>
     core_open demo_lib (node_cfg demo_cfg 1 1) (sim_voters demo_cfg) 2 [2, 3] empty_dir empty_dir = Inr c \<and>
     core_rel demo_lib demo_cfg [] [] c (sim_nodes s' ! 0)"
proof -
  let ?L = plain_storage_lib and ?s = "crash 1 (boot demo_cfg)"
  define n where "n = sim_nodes ?s ! 0"
  have n: "\<not> sn_up n" "sn_disk n = persisted_default" "sn_restarts n = 0"
    by (simp_all add: n_def crash_def boot_def boot_node_def sim_voters_def demo_cfg_def upt_conv_Cons)
  have reach: "sim_reach demo_env demo_cfg ?s"
    by (rule sim_reach.event [OF sim_reach.boot, where ev = "Crash 1"]) (simp_all add: sim_voters_def demo_cfg_def)
  obtain db where db: "db_open ?L log_options empty_dir = Some (Inr db)" "db_life ?L log_options [] db"
    using life_create [OF plain_man_lib_ok log_opts_ok] by blast
  obtain b where b: "db_open ?L backend_options empty_dir = Some (Inr b)" "db_life ?L backend_options [] b"
    using life_create [OF plain_man_lib_ok backend_opts_ok] by blast
  note ex = empty_life_dump [OF b(2) plain_man_lib_ok backend_opts_ok]
  have w: "load_ops [] [] = []" by (simp add: load_ops_def)
  have p: "restart_payload demo_env (sn_disk n) = Some \<lparr>pl_kvs = [], pl_sessions = []\<rparr>"
    by (simp add: n restart_payload_def persisted_default_def sm_payload_def mem_backend_def sm_new_def bt_empty_def demo_env_def)
  show ?thesis
    using core_restart_refines [OF demo_lib_ok, of demo_cfg ?s 1 n empty_dir db "[]" "\<lparr>ls_db = db, ls_first_index = 0, ls_last_index = 0\<rparr>"
        empty_dir b "[]" "[]" "\<lparr>pl_kvs = [], pl_sessions = []\<rparr>" "[2, 3]"]
      reach db b ex p w fresh_store [OF db(2), of plain_log_lib] n
    by (simp add: demo_lib_def demo_cfg_def sim_voters_def n_def room_for_def history_fits_Nil)
qed

end
