(* ===== verification/Core_Groups.thy ===== *)
theory Core_Groups
  imports Core_Runs
begin

text \<open>
  Group commit. The event loop handles up to 513 queued events before it drains the raft output once,
  so one output can collect the appends of several messages. \<open>LogStore::persist\<close> assumes that the
  entries of an output join the log; two messages in one group are enough to break that.
\<close>

section \<open>Two messages of a group\<close>

definition group_node :: raft_node where
  "group_node = raft_node_new (config_new 3 7) [1, 2, 3, 4, 5] persisted_default"

definition append_msg :: "node_id \<Rightarrow> raft_term \<Rightarrow> Raft_Types.entry list \<Rightarrow> message" where
  "append_msg ldr t es = \<lparr>m_from = ldr, m_to = 3, m_term = t, m_body = AppendEntries 0 0 es 0 0\<rparr>"

definition stale_group :: "core_event list" where
  "stale_group = [EvPeer (append_msg 1 2 [noop 1 1, noop 2 2]), EvPeer (append_msg 2 3 [noop 3 1])]"

definition group_snapshot :: snapshot where
  "group_snapshot = \<lparr>s_last_index = 5, s_last_term = 1, s_voters = [1, 2, 3, 4, 5], s_data = put_payload \<lparr>pl_kvs = [], pl_sessions = []\<rparr>\<rparr>"

definition snapshot_group :: "core_event list" where
  "snapshot_group = [EvPeer (append_msg 1 1 [noop 1 1]),
     EvPeer \<lparr>m_from = 1, m_to = 3, m_term = 1, m_body = InstallSnapshot group_snapshot\<rparr>]"

text \<open>A request for a vote in term 4, by a candidate whose log ends with the entry of term 2, and its answer.\<close>

definition vote_request :: message where
  "vote_request = \<lparr>m_from = 4, m_to = 3, m_term = 4, m_body = RequestVote 2 2\<rparr>"

definition grants_vote :: "raft_node \<Rightarrow> bool" where
  "grants_vote r =
     (case step vote_request r of
        Inl _ \<Rightarrow> False
      | Inr r' \<Rightarrow> \<lparr>m_from = 3, m_to = 4, m_term = 4, m_body = RequestVoteResp True\<rparr> \<in> set (o_messages (out r')))"

fun step_all :: "core_event list \<Rightarrow> raft_node \<Rightarrow> raft_node option" where
  "step_all [] r = Some r"
| "step_all (EvPeer m # evs) r = (case step m r of Inl _ \<Rightarrow> None | Inr r' \<Rightarrow> step_all evs r')"
| "step_all _ r = None"

lemma step_all_events:
  "step_all evs (co_raft c) = Some r \<Longrightarrow> handle_events K evs c = Inr (c\<lparr>co_raft := r\<rparr>)"
proof (induction evs "co_raft c" arbitrary: c rule: step_all.induct)
  case (2 m evs)
  then obtain r' where r': "step m (co_raft c) = Inr r'" "step_all evs r' = Some r" by (auto split: sum.splits)
  then show ?case using "2.hyps" [of "c\<lparr>co_raft := r'\<rparr>"] by simp
qed simp_all

lemma stale_group_eval:
  "case step_all stale_group group_node of
     None \<Rightarrow> False
   | Some r \<Rightarrow> o_append (out r) = [noop 1 1, noop 2 2, noop 3 1] \<and> o_snapshot (out r) = None \<and>
       o_committed (out r) = [] \<and> o_hard_state (out r) = Some \<lparr>hs_term = 3, hs_voted_for = None\<rparr> \<and>
       rlog r = \<lparr>snap_index = 0, snap_term = 0, log_entries = [noop 3 1]\<rparr> \<and> \<not> grants_vote (r\<lparr>out := output_default\<rparr>)"
  by (simp add: sim_eval group_node_def stale_group_def append_msg_def grants_vote_def vote_request_def
      cong: let_weak_cong prod.case_cong_weak)

lemma stale_vote:
  assumes "d = \<lparr>p_hard_state = \<lparr>hs_term = 3, hs_voted_for = None\<rparr>, p_entries = [noop 3 1, noop 2 2], p_snapshot = None\<rparr>"
  shows "grants_vote (raft_node_new (config_new 3 7) [1, 2, 3, 4, 5] d)"
  unfolding assms by (simp add: sim_eval grants_vote_def vote_request_def cong: let_weak_cong prod.case_cong_weak)

lemma snapshot_group_eval:
  "case step_all snapshot_group group_node of
     None \<Rightarrow> False
   | Some r \<Rightarrow> o_append (out r) = [noop 1 1] \<and> o_snapshot (out r) = Some group_snapshot \<and>
       o_committed (out r) = [] \<and> o_hard_state (out r) = Some \<lparr>hs_term = 1, hs_voted_for = None\<rparr> \<and>
       rlog r = \<lparr>snap_index = 5, snap_term = 1, log_entries = []\<rparr>"
  by (simp add: sim_eval group_node_def snapshot_group_def append_msg_def group_snapshot_def cong: let_weak_cong prod.case_cong_weak)

section \<open>A fresh follower\<close>

definition group_open :: "core_abort + core" where
  "group_open = core_open demo_lib (config_new 3 7) [1, 2, 3, 4, 5] 1000 [1, 2, 4, 5] empty_dir empty_dir"

lemma group_core:
  obtains c where "group_open = Inr c" "co_raft c = group_node"
    "ls_holds plain_storage_lib plain_log_lib [] (co_log c) persisted_default"
    "dbb_rel plain_storage_lib backend_options [] (co_sm c) (mem.sm_abs (sm_new bt_empty))"
    "co_applied_since_snap c = 0" "co_snapshot_every c = 1000"
proof -
  obtain log sm where "group_open = Inr (core_new group_node log sm 0 1000 [1, 2, 4, 5])"
    "ls_holds plain_storage_lib plain_log_lib [] log persisted_default"
    "dbb_rel plain_storage_lib backend_options [] sm (mem.sm_abs (sm_new bt_empty))"
    using core_open_fresh [OF demo_lib_ok, of "config_new 3 7" "[1, 2, 3, 4, 5]" 1000 "[1, 2, 4, 5]"]
    by (auto simp: group_open_def group_node_def demo_lib_def)
  then show thesis using that [of "core_new group_node log sm 0 1000 [1, 2, 4, 5]"] by (simp add: core_new_def)
qed

lemma group_turn:
  assumes st: "step_all g (co_raft c) = Some r" and ne: "o_append (out r) \<noteq> []" and no: "o_committed (out r) = []"
    and p: "core_persist demo_lib (out r) (c\<lparr>co_raft := r\<lparr>out := output_default\<rparr>\<rparr>) = Inr c1"
    and i: "core_install demo_lib (out r) c1 = Inr c2" and few: "co_applied_since_snap c2 < co_snapshot_every c2"
    and life: "db_life plain_storage_lib backend_options sops (sm_backend (co_sm c2))"
  shows "\<exists>c'. core_turn demo_lib g c = Some (Inr c') \<and> co_raft c' = co_raft c2 \<and> co_log c' = co_log c2"
proof -
  have "out r \<noteq> output_default" using ne by (auto simp: output_default_def)
  moreover have "core_compact demo_lib c2 = Inr c2" using few by (simp add: core_compact_def)
  moreover obtain c3 where c3: "core_reads_stage demo_lib (out r) c2 = Inr c3"
    using serve_ready_returns [of demo_lib backend_options sops "c2\<lparr>co_ready := []\<rparr>"] life plain_man_lib_ok backend_opts_ok
    by (auto simp: core_reads_stage_def demo_lib_def)
  ultimately have "core_turn demo_lib g c = Some (Inr (core_send (out r) c3))"
    using step_all_events [OF st, of demo_lib] p i no
    by (simp add: core_turn_def core_process_output_once Let_def empty_output core_drain_def)
  then show ?thesis
    using serve_ready_frame [OF c3 [unfolded core_reads_stage_def]] by (simp add: core_send_def same_parts_def)
qed

lemma group_ops_fit:
  assumes "small_ops ws"
  shows "history_fits plain_storage_lib log_options ([] @ ws)" "batch_ok plain_storage_lib [] ws" "length ([] @ ws) \<le> usize_max"
proof -
  have "length ws \<le> 10" using assms by (simp add: small_ops_def)
  then show "length ([] @ ws) \<le> usize_max" by (simp add: usize_max_def)
  show "history_fits plain_storage_lib log_options ([] @ ws)" using log_history_fits [OF assms] by simp
  show "batch_ok plain_storage_lib [] ws" by (rule log_batch_ok [OF _ assms]) simp
qed

lemma group_restore:
  assumes "dbb_rel plain_storage_lib backend_options [] sm st"
  shows "\<exists>sm'. restore_sm demo_lib (s_data group_snapshot) sm = Inr sm' \<and>
    db_life plain_storage_lib backend_options [] (sm_backend sm')"
proof -
  have ex: "dbb_dump plain_storage_lib (sm_backend sm) = Inr []"
    using empty_life_dump [OF _ plain_man_lib_ok backend_opts_ok] assms by (simp add: dbb_rel_def)
  have w: "load_ops [] [] = []" by (simp add: load_ops_def)
  have dec: "dec_snap (cl_env demo_lib) (s_data group_snapshot) = Some \<lparr>pl_kvs = [], pl_sessions = []\<rparr>"
    by (simp add: group_snapshot_def demo_lib_def demo_env_def get_put_payload)
  show ?thesis
    using restore_sm_sim [OF _ _ backend_opts_ok _ dec, of "[]" sm st "[]"] assms ex plain_man_lib_ok
    by (auto simp: demo_lib_def room_for_def history_fits_Nil w dbb_rel_def)
qed

section \<open>What the group leaves on disk\<close>

text \<open>
  C34: a group of two append requests can leave a log on disk that the node never had. A follower that
  takes, in one turn, the entries of the leader of term 2 and then the conflicting entry of the leader
  of term 3 ends with that one entry; but the batch truncates only at the first index of the output,
  so the store keeps the replaced entry of term 2 behind it. \<open>LogStore::open\<close> on the files of the store
  reads it back: the node then counts the last term of its log as 2, and grants its vote to a candidate
  that the running node refuses.
\<close>

theorem grouped_appends_stale_tail:
  "\<exists>c c' ls d. group_open = Inr c \<and> core_turn demo_lib stale_group c = Some (Inr c') \<and>
     log_entries (rlog (co_raft c')) = [noop 3 1] \<and>
     ls_open plain_storage_lib plain_log_lib (dir_of (ls_db (co_log c'))) = Some (Inr (ls, d)) \<and>
     p_entries d = [noop 3 1, noop 2 2] \<and>
     \<not> log_up_to_date (co_raft c') 2 2 \<and> \<not> grants_vote (co_raft c') \<and>
     log_up_to_date (raft_node_new (config_new 3 7) [1, 2, 3, 4, 5] d) 2 2 \<and>
     grants_vote (raft_node_new (config_new 3 7) [1, 2, 3, 4, 5] d)"
proof -
  let ?L = plain_storage_lib and ?B = plain_log_lib
  obtain c where c: "group_open = Inr c" "co_raft c = group_node" "ls_holds ?L ?B [] (co_log c) persisted_default"
    "co_applied_since_snap c = 0" "co_snapshot_every c = 1000"
    "dbb_rel ?L backend_options [] (co_sm c) (mem.sm_abs (sm_new bt_empty))" using group_core by blast
  obtain r where st: "step_all stale_group (co_raft c) = Some r" and o: "o_append (out r) = [noop 1 1, noop 2 2, noop 3 1]"
    "o_snapshot (out r) = None" "o_committed (out r) = []" "o_hard_state (out r) = Some \<lparr>hs_term = 3, hs_voted_for = None\<rparr>"
    "rlog r = \<lparr>snap_index = 0, snap_term = 0, log_entries = [noop 3 1]\<rparr>" "\<not> grants_vote (r\<lparr>out := output_default\<rparr>)"
    using stale_group_eval c(2) by (auto split: option.splits)
  have lb: "ls_first_index (co_log c) = 0" "ls_last_index (co_log c) = 0"
    using c(3) by (auto simp: ls_holds_def bounds_def persisted_default_def)
  have "output_ops ?B (out r) (co_log c) =
      [(key_hs, Some (put_hard_state \<lparr>hs_term = 3, hs_voted_for = None\<rparr>)), (entry_key 1, Some (put_log_entry (noop 1 1))),
       (entry_key 2, Some (put_log_entry (noop 2 2))), (entry_key 1, Some (put_log_entry (noop 3 1)))]"
    by (simp add: o lb persist_ops_def snap_part_def append_part_def put_entries_def Let_def plain_log_lib_def)
  then have small: "small_ops (output_ops ?B (out r) (co_log c))"
    by (simp add: small_ops_def value_len_def put_hard_state_def put_log_entry_def key_hs_def entry_key_def entry_prefix_def length_put)
  obtain ls' ls'' d where ls: "ls_persist ?L ?B (o_hard_state (out r)) (o_append (out r)) (o_snapshot (out r)) (co_log c) = Some (Inr ls')"
    "ls_open ?L ?B (dir_of (ls_db ls')) = Some (Inr (ls'', d))" "p_entries d = [noop 3 1, noop 2 2]" "p_snapshot d = None"
    "p_hard_state d = \<lparr>hs_term = 3, hs_voted_for = None\<rparr>"
    using grouped_persist [OF plain_log_lib_ok plain_man_lib_ok c(3) _ o(2,1), of 1] group_ops_fit [OF small] o(4)
    by (auto simp: persisted_default_def)
  then have d: "d = \<lparr>p_hard_state = \<lparr>hs_term = 3, hs_voted_for = None\<rparr>, p_entries = [noop 3 1, noop 2 2], p_snapshot = None\<rparr>"
    by (cases d) simp
  obtain c' where c': "core_turn demo_lib stale_group c = Some (Inr c')" "co_raft c' = r\<lparr>out := output_default\<rparr>" "co_log c' = ls'"
    using group_turn [OF st, of "c\<lparr>co_raft := r\<lparr>out := output_default\<rparr>, co_log := ls'\<rparr>"
        "c\<lparr>co_raft := r\<lparr>out := output_default\<rparr>, co_log := ls'\<rparr>" "[]"] ls(1) o c(4-6)
    by (auto simp: core_persist_def core_install_def demo_lib_def dbb_rel_def)
  have "\<not> log_up_to_date (co_raft c') 2 2" using o(5) by (simp add: c'(2) log_up_to_date_def last_term_def last_index_def)
  moreover have "log_up_to_date (raft_node_new (config_new 3 7) [1, 2, 3, 4, 5] d) 2 2"
    using ls(3,4) by (simp add: raft_node_new_def log_up_to_date_def last_term_def last_index_def log_new_def)
  ultimately show ?thesis using c(1) c' ls(2,3) o(5,6) stale_vote [OF d] by auto
qed

text \<open>
  C35: a group of an append request and a snapshot can leave an entry on disk under the wrong index. The
  running node drops its log when it installs the snapshot; the output still carries the entry appended
  before, and the batch writes it after the snapshot. \<open>LogStore::open\<close> on the files of the store reads
  both back, and the node takes the entry of index 1 for the entry that follows the snapshot, at index 6.
\<close>

theorem grouped_snapshot_misplaced_entry:
  "\<exists>c c' ls d. group_open = Inr c \<and> core_turn demo_lib snapshot_group c = Some (Inr c') \<and>
     rlog (co_raft c') = \<lparr>snap_index = 5, snap_term = 1, log_entries = []\<rparr> \<and>
     ls_open plain_storage_lib plain_log_lib (dir_of (ls_db (co_log c'))) = Some (Inr (ls, d)) \<and>
     p_snapshot d = Some group_snapshot \<and> p_entries d = [noop 1 1] \<and>
     log_get (rlog (co_raft c')) 6 = None \<and>
     log_get (rlog (raft_node_new (config_new 3 7) [1, 2, 3, 4, 5] d)) 6 = Some (noop 1 1)"
proof -
  let ?L = plain_storage_lib and ?B = plain_log_lib
  obtain c where c: "group_open = Inr c" "co_raft c = group_node" "ls_holds ?L ?B [] (co_log c) persisted_default"
    "dbb_rel ?L backend_options [] (co_sm c) (mem.sm_abs (sm_new bt_empty))"
    "co_applied_since_snap c = 0" "co_snapshot_every c = 1000" using group_core by blast
  obtain r where st: "step_all snapshot_group (co_raft c) = Some r" and o: "o_append (out r) = [noop 1 1]"
    "o_snapshot (out r) = Some group_snapshot" "o_committed (out r) = []" "o_hard_state (out r) = Some \<lparr>hs_term = 1, hs_voted_for = None\<rparr>"
    "rlog r = \<lparr>snap_index = 5, snap_term = 1, log_entries = []\<rparr>"
    using snapshot_group_eval c(2) by (auto split: option.splits)
  have lb: "ls_first_index (co_log c) = 0" "ls_last_index (co_log c) = 0"
    using c(3) by (auto simp: ls_holds_def bounds_def persisted_default_def)
  have "output_ops ?B (out r) (co_log c) =
      [(key_hs, Some (put_hard_state \<lparr>hs_term = 1, hs_voted_for = None\<rparr>)), (key_snap, Some (put_raft_snapshot group_snapshot)),
       (entry_key 1, Some (put_log_entry (noop 1 1)))]"
    by (simp add: o lb persist_ops_def snap_part_def append_part_def put_entries_def Let_def plain_log_lib_def)
  then have small: "small_ops (output_ops ?B (out r) (co_log c))"
    by (simp add: small_ops_def value_len_def put_hard_state_def put_log_entry_def put_raft_snapshot_def group_snapshot_def
        key_hs_def key_snap_def entry_key_def entry_prefix_def length_put put_payload_def put_list_def)
  have j: "output_joins (out r) persisted_default" by (simp add: output_joins_def joins_def contig_def o)
  note fit = group_ops_fit [OF small]
  obtain ls where ls: "ls_persist ?L ?B (o_hard_state (out r)) (o_append (out r)) (o_snapshot (out r)) (co_log c) = Some (Inr ls)"
    "ls_holds ?L ?B ([] @ output_ops ?B (out r) (co_log c)) ls (persist_output (out r) persisted_default)"
    using ls_persist_holds [OF c(3) plain_man_lib_ok j fit(1)] fit(2) by blast
  note rd = ls_reopen [OF ls(2) plain_log_lib_ok plain_man_lib_ok fit(3)]
  have d: "p_snapshot (persist_output (out r) persisted_default) = Some group_snapshot"
    "p_entries (persist_output (out r) persisted_default) = [noop 1 1]"
    using o by (simp_all add: persist_output_def disk_append_def persisted_default_def)
  let ?c1 = "c\<lparr>co_raft := r\<lparr>out := output_default\<rparr>, co_log := ls\<rparr>"
  obtain sm where sm: "restore_sm demo_lib (s_data group_snapshot) (co_sm c) = Inr sm"
    "db_life ?L backend_options [] (sm_backend sm)"
    using group_restore [OF c(4)] by blast
  obtain c' where c': "core_turn demo_lib snapshot_group c = Some (Inr c')" "co_raft c' = r\<lparr>out := output_default\<rparr>" "co_log c' = ls"
    using group_turn [OF st, of ?c1 "?c1\<lparr>co_sm := sm, co_applied := 5, co_applied_since_snap := 0\<rparr>" "[]"] ls(1) o c(5,6) sm
    by (auto simp: core_persist_def core_install_def demo_lib_def group_snapshot_def)
  have "log_get (rlog (raft_node_new (config_new 3 7) [1, 2, 3, 4, 5] (persist_output (out r) persisted_default))) 6 = Some (noop 1 1)"
    by (simp add: raft_node_new_def d log_get_def last_index_def log_new_def group_snapshot_def)
  moreover have "rlog (co_raft c') = \<lparr>snap_index = 5, snap_term = 1, log_entries = []\<rparr>" using c'(2) o(5) by simp
  moreover from this have "log_get (rlog (co_raft c')) 6 = None" by (simp add: log_get_def last_index_def)
  ultimately show ?thesis using c(1) c'(1,3) rd d by auto
qed

end
