(* ===== verification/Net.thy ===== *)
theory Net
  imports Proto "HOL-Library.Sublist"
begin

text \<open>
  \<open>crates/server/src/net.rs\<close>: the outbound pipe to a peer, the loop that serves an inbound peer
  connection and the loop that serves a client connection. What the operating system decides (a
  dial that fails, a write that breaks off, the time since the last attempt) is an argument of each
  step.
\<close>

section \<open>Queues between tasks\<close>

definition peer_queue :: nat where "peer_queue = 1024"

text \<open>\<open>mpsc::Sender::try_send\<close> on a bounded channel: a full queue drops the message.\<close>

definition try_send :: "message \<Rightarrow> message list \<Rightarrow> message list" where
  "try_send m q = (if length q < peer_queue then q @ [m] else q)"

section \<open>The outbound pipe\<close>

text \<open>
  The environment of one message: whether the cooldown since the last attempt is over, whether the
  dial succeeds in time, and for each of the two possible writes after how many bytes it breaks off
  (\<open>None\<close>: not at all).
\<close>

record pipe_env =
  pe_cooled :: bool
  pe_dial :: bool
  pe_hello :: "nat option"
  pe_write :: "nat option"

text \<open>The bytes on the current connection, and those of the connections before it.\<close>

record peer_pipe =
  pp_conn :: "bytes option"
  pp_closed :: "bytes list"

definition pipe_new :: peer_pipe where
  "pipe_new = \<lparr>pp_conn = None, pp_closed = []\<rparr>"

text \<open>A write of a frame to a connection: all its bytes, or some of them and an error.\<close>

definition write_conn :: "(peer_frame \<Rightarrow> bytes option) \<Rightarrow> peer_frame \<Rightarrow> nat option \<Rightarrow> bytes \<Rightarrow> bool \<times> bytes" where
  "write_conn enc f broken written =
     (case write_frame enc f of
        Inl _ \<Rightarrow> (False, written)
      | Inr bs \<Rightarrow> (case broken of None \<Rightarrow> (True, written @ bs) | Some k \<Rightarrow> (False, written @ take k bs)))"

definition pipe_dial :: "(peer_frame \<Rightarrow> bytes option) \<Rightarrow> node_id \<Rightarrow> pipe_env \<Rightarrow> peer_pipe \<Rightarrow> peer_pipe" where
  "pipe_dial enc my_id ev p =
     (if pp_conn p = None \<and> pe_cooled ev \<and> pe_dial ev
      then case write_conn enc (Hello my_id) (pe_hello ev) [] of
             (True, s) \<Rightarrow> p\<lparr>pp_conn := Some s\<rparr>
           | (False, s) \<Rightarrow> p\<lparr>pp_closed := pp_closed p @ [s]\<rparr>
      else p)"

definition pipe_send :: "(peer_frame \<Rightarrow> bytes option) \<Rightarrow> node_id \<Rightarrow> pipe_env \<times> message \<Rightarrow> peer_pipe \<Rightarrow> peer_pipe" where
  "pipe_send enc my_id em p =
     (let p1 = pipe_dial enc my_id (fst em) p in
      case pp_conn p1 of
        None \<Rightarrow> p1
      | Some s \<Rightarrow>
          (case write_conn enc (PeerMsg (snd em)) (pe_write (fst em)) s of
             (True, s') \<Rightarrow> p1\<lparr>pp_conn := Some s'\<rparr>
           | (False, s') \<Rightarrow> \<lparr>pp_conn = None, pp_closed = pp_closed p1 @ [s']\<rparr>))"

definition pipe_run :: "(peer_frame \<Rightarrow> bytes option) \<Rightarrow> node_id \<Rightarrow> (pipe_env \<times> message) list \<Rightarrow> peer_pipe" where
  "pipe_run enc my_id ems = fold (pipe_send enc my_id) ems pipe_new"

text \<open>One pipe for every other node.\<close>

definition spawn_peer_senders :: "node_id \<Rightarrow> (node_id \<times> string) list \<Rightarrow> node_id list" where
  "spawn_peer_senders my_id peers = filter (\<lambda>i. i \<noteq> my_id) (map fst peers)"

section \<open>Inbound connections\<close>

text \<open>The messages one inbound peer connection hands to the core.\<close>

function peer_loop :: "(bytes \<Rightarrow> peer_frame option) \<Rightarrow> bytes \<Rightarrow> message list" where
  "peer_loop dec bs =
     (case read_frame dec bs of
        (Inr (Some (PeerMsg m)), rest) \<Rightarrow> m # peer_loop dec rest
      | (Inr (Some (Hello _)), rest) \<Rightarrow> peer_loop dec rest
      | (Inr None, _) \<Rightarrow> []
      | (Inl _, _) \<Rightarrow> [])"
  by pat_completeness auto
termination by (relation "measure (\<lambda>(dec, bs). length bs)") (auto dest: length_read_frame [OF sym])

declare peer_loop.simps [simp del]

definition peer_conn :: "(bytes \<Rightarrow> peer_frame option) \<Rightarrow> bytes \<Rightarrow> message list" where
  "peer_conn dec bs =
     (case read_frame dec bs of
        (Inr (Some (Hello _)), rest) \<Rightarrow> peer_loop dec rest
      | _ \<Rightarrow> [])"

text \<open>
  A client connection: one request at a time. The core answers the \<open>k\<close>-th request or drops its
  sender; a dropped sender becomes a retry. The result is the requests the core received and the
  bytes written back.
\<close>

definition timed_out :: response where
  "timed_out = RsRetry ''request timed out waiting for commit''"

definition core_answer :: "(nat \<Rightarrow> request \<Rightarrow> response option) \<Rightarrow> nat \<Rightarrow> request \<Rightarrow> response" where
  "core_answer core k req = (case core k req of Some r \<Rightarrow> r | None \<Rightarrow> timed_out)"

function client_conn :: "(bytes \<Rightarrow> request option) \<Rightarrow> (response \<Rightarrow> bytes option) \<Rightarrow>
    (nat \<Rightarrow> request \<Rightarrow> response option) \<Rightarrow> nat \<Rightarrow> bytes \<Rightarrow> request list \<times> bytes" where
  "client_conn dec enc core k bs =
     (case read_frame dec bs of
        (Inr (Some req), rest) \<Rightarrow>
          (case write_frame enc (core_answer core k req) of
             Inl _ \<Rightarrow> ([req], [])
           | Inr bs' \<Rightarrow> let (reqs, bs'') = client_conn dec enc core (k + 1) rest in (req # reqs, bs' @ bs''))
      | (Inr None, _) \<Rightarrow> ([], [])
      | (Inl _, _) \<Rightarrow> ([], []))"
  by pat_completeness auto
termination by (relation "measure (\<lambda>(dec, enc, core, k, bs). length bs)") (auto dest: length_read_frame [OF sym])

declare client_conn.simps [simp del]

section \<open>What a pipe delivers\<close>

fun msgs_of :: "peer_frame list \<Rightarrow> message list" where
  "msgs_of [] = []"
| "msgs_of (Hello _ # fs) = msgs_of fs"
| "msgs_of (PeerMsg m # fs) = m # msgs_of fs"

lemma msgs_of_append [simp]: "msgs_of (fs @ gs) = msgs_of fs @ msgs_of gs"
  by (induction fs rule: msgs_of.induct) simp_all

lemma msgs_of_map [simp]: "msgs_of (map PeerMsg ms) = ms"
  by (induction ms) simp_all

lemma peer_loop_frames: "peer_loop dec bs = msgs_of (fst (read_frames dec bs))"
proof (induction "length bs" arbitrary: bs rule: less_induct)
  case less
  have "peer_loop dec rest = msgs_of (fst (read_frames dec rest))"
    if "read_frame dec bs = (Inr (Some f), rest)" for f rest
    using less [of rest] length_read_frame [OF that] by simp
  then show ?case
    by (subst peer_loop.simps, subst read_frames.simps)
      (auto split: prod.splits sum.splits option.splits peer_frame.splits)
qed

lemma peer_conn_frames:
  "peer_conn dec bs = [] \<or> peer_conn dec bs = msgs_of (fst (read_frames dec bs))"
  by (auto simp: peer_conn_def peer_loop_frames read_frames.simps [of dec bs] split: prod.splits sum.splits option.splits peer_frame.splits)

lemma write_frames_snoc:
  "write_frames enc (fs @ [f]) =
     (case write_frames enc fs of
        Inl e \<Rightarrow> Inl e
      | Inr bs \<Rightarrow> (case write_frame enc f of Inl e \<Rightarrow> Inl e | Inr bs' \<Rightarrow> Inr (bs @ bs')))"
  by (induction fs) (auto split: sum.splits)

text \<open>Bytes that start a stream of whole frames deliver a subsequence of their messages, in order.\<close>

definition stream_of :: "(peer_frame \<Rightarrow> bytes option) \<Rightarrow> message list \<Rightarrow> bytes \<Rightarrow> bool" where
  "stream_of enc ms s \<longleftrightarrow> s = [] \<or>
     (\<exists>i ns bs k. subseq ns ms \<and> write_frames enc (Hello i # map PeerMsg ns) = Inr bs \<and> s = take k bs)"

lemma subseq_take: "subseq (take j xs) xs"
  by (metis append_take_drop_id list_emb_append_mono list_emb_Nil append_Nil2 subseq_order.order_refl)

lemma set_subseq: "subseq xs ys \<Longrightarrow> set xs \<subseteq> set ys"
  by (auto elim: list_emb_set)

lemma msgs_of_take: "subseq (msgs_of (take j (Hello i # map PeerMsg ns))) ns"
  by (cases j) (simp_all add: take_map subseq_take)

lemma stream_delivers:
  assumes "stream_of enc ms s" "\<forall>m \<in> set ms. frame_ok enc dec (PeerMsg m)" "\<forall>i. frame_ok enc dec (Hello i)"
  shows "subseq (peer_conn dec (take k s)) ms"
proof (cases "s = []")
  case True
  then show ?thesis by (simp add: peer_conn_def read_frame_def)
next
  case False
  then obtain i ns bs k' where s: "subseq ns ms" "write_frames enc (Hello i # map PeerMsg ns) = Inr bs" "s = take k' bs"
    using assms(1) unfolding stream_of_def by blast
  let ?fs = "Hello i # map PeerMsg ns"
  have "set ns \<subseteq> set ms" using s(1) by (rule set_subseq)
  then have ok: "\<forall>f \<in> set ?fs. frame_ok enc dec f" using assms(2,3) by auto
  let ?k = "min (min k k') (length bs)"
  have t: "take k s = take ?k bs" by (simp add: s(3) take_all_iff min_def)
  obtain j e where "read_frames dec (take ?k bs) = (take j ?fs, e)"
    using read_frames_torn [OF ok s(2), of ?k] by auto
  then have "peer_conn dec (take k s) = [] \<or> peer_conn dec (take k s) = msgs_of (take j ?fs)"
    using peer_conn_frames [of dec "take k s"] by (simp add: t)
  then have "subseq (peer_conn dec (take k s)) ns" using msgs_of_take by auto
  then show ?thesis using s(1) by (rule subseq_order.trans)
qed

text \<open>
  The pipe cuts the messages it was given into one block per connection: each connection carries a
  subsequence of its block.
\<close>

definition pipe_ok :: "(peer_frame \<Rightarrow> bytes option) \<Rightarrow> message list \<Rightarrow> peer_pipe \<Rightarrow> bool" where
  "pipe_ok enc ms p \<longleftrightarrow>
     (\<exists>blocks cur. concat blocks @ cur = ms \<and> list_all2 (stream_of enc) blocks (pp_closed p) \<and>
        (\<forall>s. pp_conn p = Some s \<longrightarrow>
           (\<exists>i ns. subseq ns cur \<and> write_frames enc (Hello i # map PeerMsg ns) = Inr s)))"

lemma pipe_ok_new: "pipe_ok enc [] pipe_new"
  by (simp add: pipe_ok_def pipe_new_def)

text \<open>What a write leaves on the connection is a start of the frames before it and its own.\<close>

lemma write_conn_stream:
  assumes "write_frames enc (Hello i # map PeerMsg ns) = Inr s" "write_conn enc (PeerMsg m) b s = (ok, s')" "subseq ns ms"
  shows "ok \<Longrightarrow> write_frames enc (Hello i # map PeerMsg (ns @ [m])) = Inr s'" "stream_of enc (ms @ [m]) s'"
proof -
  have snoc: "write_frames enc (Hello i # map PeerMsg (ns @ [m])) =
      (case write_frame enc (PeerMsg m) of Inl e \<Rightarrow> Inl e | Inr bs \<Rightarrow> Inr (s @ bs))"
    using write_frames_snoc [of enc "Hello i # map PeerMsg ns" "PeerMsg m"] assms(1) by simp
  show "ok \<Longrightarrow> write_frames enc (Hello i # map PeerMsg (ns @ [m])) = Inr s'"
    using assms(2) unfolding snoc by (auto simp: write_conn_def split: sum.splits option.splits)
  show "stream_of enc (ms @ [m]) s'"
  proof (cases "write_frame enc (PeerMsg m)")
    case (Inl e)
    then have "s' = take (length s) s" using assms(2) by (simp add: write_conn_def)
    moreover have "subseq ns (ms @ [m])" using assms(3) by (simp add: subseq_order.order_trans subseq_rev_drop_many)
    ultimately show ?thesis using assms(1) unfolding stream_of_def by blast
  next
    case (Inr bs)
    let ?k = "length s + (case b of None \<Rightarrow> length bs | Some k \<Rightarrow> k)"
    have "s' = take ?k (s @ bs)" using assms(2) Inr by (auto simp: write_conn_def split: option.splits)
    moreover have "write_frames enc (Hello i # map PeerMsg (ns @ [m])) = Inr (s @ bs)" using snoc Inr by simp
    moreover have "subseq (ns @ [m]) (ms @ [m])" using assms(3) by simp
    ultimately show ?thesis unfolding stream_of_def by blast
  qed
qed

lemma write_hello_stream:
  assumes "write_conn enc (Hello i) b [] = (ok, s)"
  shows "ok \<Longrightarrow> write_frames enc [Hello i] = Inr s" "stream_of enc [] s"
proof -
  show "ok \<Longrightarrow> write_frames enc [Hello i] = Inr s"
    using assms by (auto simp: write_conn_def split: sum.splits option.splits)
  show "stream_of enc [] s"
  proof (cases "write_frame enc (Hello i)")
    case (Inl e)
    then show ?thesis using assms by (simp add: write_conn_def stream_of_def)
  next
    case (Inr bs)
    then have "s = take (case b of None \<Rightarrow> length bs | Some k \<Rightarrow> k) bs"
      using assms by (auto simp: write_conn_def split: option.splits)
    moreover have "write_frames enc (Hello i # map PeerMsg []) = Inr bs" using Inr by simp
    moreover have "subseq [] ([] :: message list)" by simp
    ultimately show ?thesis unfolding stream_of_def by blast
  qed
qed

lemma pipe_ok_dial: "pipe_ok enc ms p \<Longrightarrow> pipe_ok enc ms (pipe_dial enc i ev p)"
proof -
  assume ok: "pipe_ok enc ms p"
  show ?thesis
  proof (cases "pp_conn p = None \<and> pe_cooled ev \<and> pe_dial ev")
    case False
    then show ?thesis using ok by (auto simp: pipe_dial_def)
  next
    case True
    obtain blocks cur where b: "concat blocks @ cur = ms" "list_all2 (stream_of enc) blocks (pp_closed p)"
      using ok unfolding pipe_ok_def by blast
    obtain w s where w: "write_conn enc (Hello i) (pe_hello ev) [] = (w, s)" by fastforce
    note hello = write_hello_stream [OF w]
    show ?thesis
    proof (cases w)
      case t: True
      have "write_frames enc (Hello i # map PeerMsg []) = Inr s" using hello(1) t by simp
      then have "\<exists>i ns. subseq ns cur \<and> write_frames enc (Hello i # map PeerMsg ns) = Inr s"
        by (intro exI [of _ i] exI [of _ "[]"]) simp
      then show ?thesis using True t w b by (auto simp: pipe_dial_def pipe_ok_def)
    next
      case False
      then have p: "pipe_dial enc i ev p = p\<lparr>pp_closed := pp_closed p @ [s]\<rparr>"
        using True w by (simp add: pipe_dial_def)
      have "list_all2 (stream_of enc) (blocks @ [[]]) (pp_closed p @ [s])"
        using b(2) hello(2) by (simp add: list_all2_appendI)
      then show ?thesis unfolding pipe_ok_def p using b(1) True
        by (intro exI [of _ "blocks @ [[]]"] exI [of _ cur]) simp
    qed
  qed
qed

lemma pipe_ok_send: "pipe_ok enc ms p \<Longrightarrow> pipe_ok enc (ms @ [m]) (pipe_send enc i (ev, m) p)"
proof -
  assume "pipe_ok enc ms p"
  then have ok: "pipe_ok enc ms (pipe_dial enc i ev p)" by (rule pipe_ok_dial)
  let ?p = "pipe_dial enc i ev p"
  obtain blocks cur where b: "concat blocks @ cur = ms" "list_all2 (stream_of enc) blocks (pp_closed ?p)"
    "\<And>s. pp_conn ?p = Some s \<Longrightarrow> \<exists>i ns. subseq ns cur \<and> write_frames enc (Hello i # map PeerMsg ns) = Inr s"
    using ok unfolding pipe_ok_def by blast
  show ?thesis
  proof (cases "pp_conn ?p")
    case None
    then have "pipe_send enc i (ev, m) p = ?p" by (simp add: pipe_send_def)
    then show ?thesis unfolding pipe_ok_def using b(1,2) None
      by (intro exI [of _ blocks] exI [of _ "cur @ [m]"]) simp
  next
    case (Some s)
    obtain j ns where ns: "subseq ns cur" "write_frames enc (Hello j # map PeerMsg ns) = Inr s" using b(3) [OF Some] by blast
    obtain w s' where w: "write_conn enc (PeerMsg m) (pe_write ev) s = (w, s')" by fastforce
    note str = write_conn_stream [OF ns(2) w ns(1)]
    show ?thesis
    proof (cases w)
      case True
      then have p: "pipe_send enc i (ev, m) p = ?p\<lparr>pp_conn := Some s'\<rparr>" using Some w by (simp add: pipe_send_def)
      have "subseq (ns @ [m]) (cur @ [m])" using ns(1) by simp
      then have "\<exists>i ns. subseq ns (cur @ [m]) \<and> write_frames enc (Hello i # map PeerMsg ns) = Inr s'"
        using str(1) [OF True] by blast
      then show ?thesis unfolding pipe_ok_def p using b(1,2)
        by (intro exI [of _ blocks] exI [of _ "cur @ [m]"]) simp
    next
      case False
      then have p: "pipe_send enc i (ev, m) p = \<lparr>pp_conn = None, pp_closed = pp_closed ?p @ [s']\<rparr>"
        using Some w by (simp add: pipe_send_def)
      have "list_all2 (stream_of enc) (blocks @ [cur @ [m]]) (pp_closed ?p @ [s'])"
        using b(2) str(2) by (simp add: list_all2_appendI)
      then show ?thesis unfolding pipe_ok_def p using b(1)
        by (intro exI [of _ "blocks @ [cur @ [m]]"] exI [of _ "[]"]) simp
    qed
  qed
qed

lemma pipe_ok_run: "pipe_ok enc (map snd ems) (pipe_run enc i ems)"
proof -
  have "pipe_ok enc (ms @ map snd ems) (fold (pipe_send enc i) ems p)" if "pipe_ok enc ms p" for ms p
    using that
  proof (induction ems arbitrary: ms p)
    case (Cons em ems)
    then have "pipe_ok enc (ms @ [snd em]) (pipe_send enc i em p)" by (cases em) (simp add: pipe_ok_send)
    from Cons.IH [OF this] show ?case by simp
  qed simp
  from this [OF pipe_ok_new] show ?thesis by (simp add: pipe_run_def)
qed

lemma streams_deliver:
  assumes "list_all2 (stream_of enc) blocks ss" "length ks = length ss"
    and "\<forall>m \<in> set (concat blocks). frame_ok enc dec (PeerMsg m)" "\<forall>i. frame_ok enc dec (Hello i)"
  shows "subseq (concat (map2 (\<lambda>k s. peer_conn dec (take k s)) ks ss)) (concat blocks)"
  using assms
proof (induction blocks ss arbitrary: ks rule: list_all2_induct)
  case (Cons b bs s ss)
  obtain k ks' where ks: "ks = k # ks'" using Cons.prems(1) by (cases ks) auto
  have "subseq (peer_conn dec (take k s)) b"
    by (rule stream_delivers [OF Cons.hyps(1)]) (use Cons.prems in auto)
  moreover have "subseq (concat (map2 (\<lambda>k s. peer_conn dec (take k s)) ks' ss)) (concat bs)"
    by (rule Cons.IH) (use Cons.prems ks in auto)
  ultimately show ?case by (simp add: ks list_emb_append_mono)
qed simp

section \<open>Properties\<close>

text \<open>All the streams of a pipe, the open one last.\<close>

definition pipe_streams :: "peer_pipe \<Rightarrow> bytes list" where
  "pipe_streams p = pp_closed p @ (case pp_conn p of None \<Rightarrow> [] | Some s \<Rightarrow> [s])"

lemma pipe_delivers:
  assumes "\<forall>m \<in> set (map snd ems). frame_ok enc dec (PeerMsg m)" "\<forall>i. frame_ok enc dec (Hello i)"
    and "length ks = length (pipe_streams (pipe_run enc me ems))"
  shows "subseq (concat (map2 (\<lambda>k s. peer_conn dec (take k s)) ks (pipe_streams (pipe_run enc me ems)))) (map snd ems)"
proof -
  let ?p = "pipe_run enc me ems"
  obtain blocks cur where b: "concat blocks @ cur = map snd ems" "list_all2 (stream_of enc) blocks (pp_closed ?p)"
    "\<And>s. pp_conn ?p = Some s \<Longrightarrow> \<exists>i ns. subseq ns cur \<and> write_frames enc (Hello i # map PeerMsg ns) = Inr s"
    using pipe_ok_run [of enc ems me] unfolding pipe_ok_def by blast
  define blocks' where "blocks' = blocks @ (case pp_conn ?p of None \<Rightarrow> [] | Some s \<Rightarrow> [cur])"
  have "stream_of enc cur s" if "pp_conn ?p = Some s" for s
    using b(3) [OF that] unfolding stream_of_def by (metis take_all order_refl)
  then have l: "list_all2 (stream_of enc) blocks' (pipe_streams ?p)"
    using b(2) by (auto simp: blocks'_def pipe_streams_def list_all2_appendI split: option.splits)
  have sub: "subseq (concat blocks') (map snd ems)"
    unfolding b(1) [symmetric] by (auto simp: blocks'_def subseq_rev_drop_many split: option.splits)
  then have "\<forall>m \<in> set (concat blocks'). frame_ok enc dec (PeerMsg m)"
    using assms(1) set_subseq [OF sub] by blast
  from streams_deliver [OF l assms(3) this assms(2)] sub show ?thesis by (rule subseq_order.trans)
qed

text \<open>A stand-in for \<open>bincode\<close> on greetings and vote answers: eight bytes for each number.\<close>

fun put_peer :: "peer_frame \<Rightarrow> bytes option" where
  "put_peer (Hello i) = (if i < 2 ^ 64 then Some (0 # u64_le i) else None)"
| "put_peer (PeerMsg m) =
     (case m_body m of
        RequestVoteResp g \<Rightarrow>
          if m_from m < 2 ^ 64 \<and> m_to m < 2 ^ 64 \<and> m_term m < 2 ^ 64
          then Some ((if g then 1 else 2) # u64_le (m_from m) @ u64_le (m_to m) @ u64_le (m_term m))
          else None
      | _ \<Rightarrow> None)"

fun get_peer :: "bytes \<Rightarrow> peer_frame option" where
  "get_peer [] = None"
| "get_peer (t # bs) =
     (if t = 0 then Some (Hello (le_nat bs))
      else Some (PeerMsg \<lparr>m_from = le_nat (take 8 bs), m_to = le_nat (take 8 (drop 8 bs)),
        m_term = le_nat (drop 16 bs), m_body = RequestVoteResp (t = 1)\<rparr>))"

lemma peer_codec_ok: "frame_ok put_peer get_peer f"
proof (cases f)
  case (Hello i)
  then show ?thesis by (simp add: frame_ok_def u64_of_le_bytes)
next
  case (PeerMsg m)
  show ?thesis
  proof (cases "\<exists>g. m_body m = RequestVoteResp g")
    case True
    then obtain g where "m_body m = RequestVoteResp g" by blast
    then show ?thesis using PeerMsg by (cases m) (simp add: frame_ok_def u64_of_le_bytes)
  next
    case False
    then show ?thesis using PeerMsg by (cases "m_body m") (simp_all add: frame_ok_def)
  qed
qed

text \<open>
  C29: Whatever the dials and writes of an outbound pipe do and wherever its connections break, the
  messages its peer's accept loop hands to the core, over all connections in the order in which they
  were opened, are a subsequence of the messages the core queued: messages may be lost, but the pipe
  neither reorders nor repeats nor invents one.
\<close>
theorem peer_pipe_order:
  assumes "\<forall>m \<in> set (map snd ems). frame_ok enc dec (PeerMsg m)" "\<forall>i. frame_ok enc dec (Hello i)"
    and "length ks = length (pipe_streams (pipe_run enc me ems))"
  shows "subseq (concat (map2 (\<lambda>k s. peer_conn dec (take k s)) ks (pipe_streams (pipe_run enc me ems)))) (map snd ems)"
  using assms by (rule pipe_delivers)

text \<open>Of three messages the first is written whole, the second breaks off, and the third opens a new connection.\<close>

theorem peer_pipe_order_witness:
  "\<exists>ks. let e = (\<lambda>w. \<lparr>pe_cooled = True, pe_dial = True, pe_hello = None, pe_write = w\<rparr>);
        m = (\<lambda>t. \<lparr>m_from = 1, m_to = 2, m_term = t, m_body = RequestVoteResp True\<rparr>);
        p = pipe_run put_peer 1 [(e None, m 1), (e (Some 5), m 2), (e None, m 3)]
    in length (pipe_streams p) = 2 \<and>
       subseq (concat (map2 (\<lambda>k s. peer_conn get_peer (take k s)) ks (pipe_streams p))) [m 1, m 2, m 3]"
proof -
  let ?e = "\<lambda>w. \<lparr>pe_cooled = True, pe_dial = True, pe_hello = None, pe_write = w\<rparr>"
  let ?m = "\<lambda>t. \<lparr>m_from = 1, m_to = 2, m_term = t, m_body = RequestVoteResp True\<rparr>"
  let ?ems = "[(?e None, ?m 1), (?e (Some 5), ?m 2), (?e None, ?m 3)]"
  have len: "length (pipe_streams (pipe_run put_peer 1 ?ems)) = 2"
    by (simp add: pipe_run_def pipe_send_def pipe_dial_def pipe_new_def pipe_streams_def write_conn_def
        write_frame_def max_frame_def)
  from peer_pipe_order [of ?ems put_peer get_peer "[99, 99]" 1] len show ?thesis
    by (intro exI [of _ "[99, 99]"]) (simp add: peer_codec_ok Let_def)
qed

text \<open>
  A client connection answers its requests one by one and in order: when every request decodes
  and every answer encodes, the client reads back, for each request it sent, the answer of the core,
  or a retry where the core dropped the request.
\<close>
lemma client_conn_answers:
  assumes "\<forall>r \<in> set reqs. frame_ok enc_rq dec_rq r" "write_frames enc_rq reqs = Inr bs"
    and "\<forall>r \<in> set reqs. \<forall>i. frame_ok enc_rs dec_rs (core_answer core i r) \<and> (\<exists>b. write_frame enc_rs (core_answer core i r) = Inr b)"
  shows "fst (client_conn dec_rq enc_rs core k bs) = reqs \<and>
    read_frames dec_rs (snd (client_conn dec_rq enc_rs core k bs)) =
      (map2 (core_answer core) [k..<k + length reqs] reqs, Inr ())"
  using assms
proof (induction reqs arbitrary: bs k)
  case Nil
  then have "client_conn dec_rq enc_rs core k bs = ([], [])" by (subst client_conn.simps) (simp add: read_frame_def)
  then show ?case by simp
next
  case (Cons r reqs)
  obtain b bs' where b: "write_frame enc_rq r = Inr b" "write_frames enc_rq reqs = Inr bs'" "bs = b @ bs'"
    using Cons.prems(2) by (auto split: sum.splits)
  let ?a = "core_answer core k r"
  obtain a where a: "write_frame enc_rs ?a = Inr a" using Cons.prems(3) by (meson list.set_intros(1))
  have rd: "read_frame dec_rq bs = (Inr (Some r), bs')"
    unfolding b(3) by (rule read_write_frame) (use Cons.prems(1) b in auto)
  let ?rest = "client_conn dec_rq enc_rs core (k + 1) bs'"
  have IH: "fst ?rest = reqs" "read_frames dec_rs (snd ?rest) =
      (map2 (core_answer core) [k + 1..<k + 1 + length reqs] reqs, Inr ())"
    using Cons.IH [OF _ b(2)] Cons.prems(1,3) by auto
  have "client_conn dec_rq enc_rs core k bs = (r # fst ?rest, a @ snd ?rest)"
    by (subst client_conn.simps) (simp add: rd a case_prod_beta)
  moreover have "read_frames dec_rs (a @ snd ?rest) = (?a # fst (read_frames dec_rs (snd ?rest)), Inr ())"
    using read_write_frame [OF _ a, of dec_rs] Cons.prems(3) IH(2) by (subst read_frames.simps) simp
  moreover have "[k..<k + length (r # reqs)] = k # [k + 1..<k + 1 + length reqs]" by (simp add: upt_rec)
  ultimately show ?case using IH by simp
qed

end
