(* ===== verification/Client.thy ===== *)
theory Client
  imports Proto "HOL-Library.Sublist"
begin

unbundle bit_operations_syntax

text \<open>
  \<open>crates/client/src/lib.rs\<close>: the client with leader routing, retries and the session discipline.
  What the network does with the \<open>a\<close>-th attempt of a call (connect, write, read, time out) is the
  argument \<open>link\<close>: it returns the response that was read or the text of the error. Indexing
  \<open>addrs\<close> out of range is the panic it is in the code. The field \<open>kc_sent\<close> is an observation the code
  does not keep: the requests handed to the network, with their targets.
\<close>

section \<open>Configuration and state\<close>

datatype client_error = Unavailable string | Server string | Unexpected response

datatype client_panic = AddrOutOfRange | SessionZero

record client_config =
  cc_addrs :: "string list"
  cc_request_timeout :: nat
  cc_max_attempts :: nat
  cc_backoff_base :: nat
  cc_backoff_cap :: nat

text \<open>Times in milliseconds; the arguments are what the environment variables parse to.\<close>

definition client_config_new :: "nat option \<Rightarrow> nat option \<Rightarrow> nat option \<Rightarrow> string list \<Rightarrow> client_config" where
  "client_config_new attempts base cap addrs =
     (let env_ms = (\<lambda>v d. case v of Some x \<Rightarrow> x | None \<Rightarrow> d)
      in \<lparr>cc_addrs = addrs, cc_request_timeout = 8000, cc_max_attempts = env_ms attempts 12 mod 2 ^ 32,
          cc_backoff_base = env_ms base 50, cc_backoff_cap = env_ms cap 2000\<rparr>)"

record kv_client =
  kc_cfg :: client_config
  kc_session :: nat
  kc_seq :: nat
  kc_target :: nat
  kc_conn :: bool
  kc_rng :: "64 word"
  kc_sent :: "(nat \<times> request) list"

definition splitmix :: "64 word \<Rightarrow> 64 word" where
  "splitmix x0 =
     (let x1 = x0 + 0x9E3779B97F4A7C15;
          x2 = (x1 XOR drop_bit 30 x1) * 0xBF58476D1CE4E5B9;
          x3 = (x2 XOR drop_bit 27 x2) * 0x94D049BB133111EB
      in x3 XOR drop_bit 31 x3)"

definition with_session :: "client_config \<Rightarrow> nat \<Rightarrow> client_panic + kv_client" where
  "with_session c session_id =
     (if session_id = 0 then Inl SessionZero
      else Inr \<lparr>kc_cfg = c, kc_session = session_id, kc_seq = 0, kc_target = 0, kc_conn = False,
                kc_rng = splitmix (word_of_nat session_id), kc_sent = []\<rparr>)"

text \<open>The session id from the clock, the process id and the process-wide counter.\<close>

definition session_of :: "64 word \<Rightarrow> 64 word \<Rightarrow> 64 word \<Rightarrow> 64 word" where
  "session_of nanos pid n =
     splitmix (nanos XOR push_bit 32 pid XOR push_bit 48 n XOR n) OR 1"

definition client_connect :: "client_config \<Rightarrow> 64 word \<Rightarrow> 64 word \<Rightarrow> 64 word \<Rightarrow> client_panic + kv_client" where
  "client_connect c nanos pid n = with_session c (unat (session_of nanos pid n))"

section \<open>One attempt\<close>

definition next_target :: "kv_client \<Rightarrow> kv_client" where
  "next_target c = c\<lparr>kc_target := (kc_target c + 1) mod length (cc_addrs (kc_cfg c))\<rparr>"

text \<open>The capped exponential window; the sleep is a fraction of it.\<close>

definition backoff_window :: "client_config \<Rightarrow> nat \<Rightarrow> nat" where
  "backoff_window c attempt = min (cc_backoff_base c * 2 ^ min attempt 6) (cc_backoff_cap c)"

definition backoff :: "nat \<Rightarrow> kv_client \<Rightarrow> kv_client" where
  "backoff attempt c = c\<lparr>kc_rng := splitmix (kc_rng c)\<rparr>"

type_synonym client_link = "nat \<Rightarrow> nat \<Rightarrow> request \<Rightarrow> string + response"

definition try_once :: "client_link \<Rightarrow> nat \<Rightarrow> request \<Rightarrow> kv_client \<Rightarrow> client_panic + (string + response) \<times> kv_client" where
  "try_once link a req c =
     (if \<not> kc_conn c \<and> length (cc_addrs (kc_cfg c)) \<le> kc_target c then Inl AddrOutOfRange
      else Inr (link a (kc_target c) req,
                c\<lparr>kc_conn := True, kc_sent := kc_sent c @ [(kc_target c, req)]\<rparr>))"

section \<open>The retry loop\<close>

definition reroute :: "node_id option \<Rightarrow> kv_client \<Rightarrow> kv_client" where
  "reroute hint c =
     (case hint of
        Some i \<Rightarrow> if i \<le> length (cc_addrs (kc_cfg c)) \<and> 1 \<le> i then c\<lparr>kc_target := i - 1\<rparr> else next_target c
      | None \<Rightarrow> next_target c)"

fun call_loop :: "client_link \<Rightarrow> request \<Rightarrow> nat \<Rightarrow> nat \<Rightarrow> string \<Rightarrow> kv_client \<Rightarrow>
    client_panic + (client_error + response) \<times> kv_client" where
  "call_loop link req attempt 0 last_err c = Inr (Inl (Unavailable last_err), c)"
| "call_loop link req attempt (Suc left) last_err c =
     (case try_once link attempt req (if 0 < attempt then backoff attempt c else c) of
        Inl p \<Rightarrow> Inl p
      | Inr (Inl e, c1) \<Rightarrow>
          call_loop link req (attempt + 1) left e (next_target (c1\<lparr>kc_conn := False\<rparr>))
      | Inr (Inr resp, c1) \<Rightarrow>
          (case resp of
             RsNotLeader hint \<Rightarrow>
               call_loop link req (attempt + 1) left ''not leader'' (reroute hint (c1\<lparr>kc_conn := False\<rparr>))
           | RsRetry reason \<Rightarrow> call_loop link req (attempt + 1) left reason c1
           | RsErr e \<Rightarrow> Inr (Inl (Server e), c1)
           | r \<Rightarrow> Inr (Inr r, c1)))"

definition client_call :: "client_link \<Rightarrow> request \<Rightarrow> kv_client \<Rightarrow> client_panic + (client_error + response) \<times> kv_client" where
  "client_call link req c = call_loop link req 0 (cc_max_attempts (kc_cfg c)) '''' c"

section \<open>The API\<close>

datatype client_api =
    ApiPut bytes bytes
  | ApiDelete bytes
  | ApiCas bytes "bytes option" "bytes option"
  | ApiGet bytes consistency
  | ApiScan bytes "bytes option" nat consistency

text \<open>What an API call returns: unit, a compare-and-swap result, a value, pairs.\<close>

datatype client_result =
    ResUnit
  | ResCas bool "bytes option"
  | ResValue "bytes option"
  | ResKvs "(bytes \<times> bytes) list"

fun api_request :: "client_api \<Rightarrow> kv_client \<Rightarrow> request \<times> kv_client" where
  "api_request (ApiPut k v) c =
     (let c1 = c\<lparr>kc_seq := kc_seq c + 1\<rparr> in (RqPut (kc_session c1) (kc_seq c1) k v, c1))"
| "api_request (ApiDelete k) c =
     (let c1 = c\<lparr>kc_seq := kc_seq c + 1\<rparr> in (RqDelete (kc_session c1) (kc_seq c1) k, c1))"
| "api_request (ApiCas k e n) c =
     (let c1 = c\<lparr>kc_seq := kc_seq c + 1\<rparr> in (RqCas (kc_session c1) (kc_seq c1) k e n, c1))"
| "api_request (ApiGet k cons) c = (RqGet k cons, c)"
| "api_request (ApiScan s e l cons) c = (RqScan s e l cons, c)"

fun api_result :: "client_api \<Rightarrow> response \<Rightarrow> client_error + client_result" where
  "api_result (ApiPut _ _) RsOk = Inr ResUnit"
| "api_result (ApiDelete _) RsOk = Inr ResUnit"
| "api_result (ApiCas _ _ _) (RsCas ok v) = Inr (ResCas ok v)"
| "api_result (ApiGet _ _) (RsValue v) = Inr (ResValue v)"
| "api_result (ApiScan _ _ _ _) (RsKvs kvs) = Inr (ResKvs kvs)"
| "api_result _ r = Inl (Unexpected r)"

definition api_call :: "client_link \<Rightarrow> client_api \<Rightarrow> kv_client \<Rightarrow> client_panic + (client_error + client_result) \<times> kv_client" where
  "api_call link api c =
     (let (req, c1) = api_request api c in
      case client_call link req c1 of
        Inl p \<Rightarrow> Inl p
      | Inr (Inl e, c2) \<Rightarrow> Inr (Inl e, c2)
      | Inr (Inr r, c2) \<Rightarrow> Inr (api_result api r, c2))"

text \<open>A client's life: one call after the other, each with its own network.\<close>

fun client_run :: "(client_link \<times> client_api) list \<Rightarrow> kv_client \<Rightarrow> client_panic + kv_client" where
  "client_run [] c = Inr c"
| "client_run ((link, api) # rest) c =
     (case api_call link api c of Inl p \<Rightarrow> Inl p | Inr (_, c') \<Rightarrow> client_run rest c')"

section \<open>Backoff and sessions\<close>

lemma backoff_window_cap: "backoff_window c a \<le> cc_backoff_cap c"
  by (simp add: backoff_window_def)

lemma backoff_window_mono: "a \<le> b \<Longrightarrow> backoff_window c a \<le> backoff_window c b"
proof -
  assume "a \<le> b"
  then have "cc_backoff_base c * 2 ^ min a 6 \<le> cc_backoff_base c * 2 ^ min b 6"
    by (intro mult_left_mono power_increasing) (auto simp: min_def)
  then show ?thesis unfolding backoff_window_def by (rule min.mono) simp
qed

lemma session_of_nonzero: "unat (session_of nanos pid n) \<noteq> 0"
proof
  assume "unat (session_of nanos pid n) = 0"
  then have "session_of nanos pid n = 0" by (simp add: unat_eq_zero)
  then have "bit (session_of nanos pid n) 0 = False" by simp
  then show False by (simp add: session_of_def bit_or_iff)
qed

lemma client_connect_ok: "\<exists>c. client_connect cc nanos pid n = Inr c"
  using session_of_nonzero by (simp add: client_connect_def with_session_def)

section \<open>The retry loop\<close>

definition client_ok :: "kv_client \<Rightarrow> bool" where
  "client_ok c \<longleftrightarrow> kc_target c < length (cc_addrs (kc_cfg c))"

definition definitive :: "response \<Rightarrow> bool" where
  "definitive r \<longleftrightarrow> (\<nexists>h. r = RsNotLeader h) \<and> (\<nexists>s. r = RsRetry s) \<and> (\<nexists>e. r = RsErr e)"

text \<open>The attempts of a loop: the same request each time; the targets are addresses of the configuration.\<close>

definition loop_post :: "client_link \<Rightarrow> request \<Rightarrow> nat \<Rightarrow> nat \<Rightarrow> kv_client \<Rightarrow> (client_error + response) \<Rightarrow> kv_client \<Rightarrow> bool" where
  "loop_post link req attempt left c res c' \<longleftrightarrow>
     client_ok c' \<and> kc_cfg c' = kc_cfg c \<and> kc_session c' = kc_session c \<and> kc_seq c' = kc_seq c \<and>
     (\<exists>ts. kc_sent c' = kc_sent c @ map (\<lambda>t. (t, req)) ts \<and> length ts \<le> left \<and>
        (\<forall>t \<in> set ts. t < length (cc_addrs (kc_cfg c))) \<and>
        (\<forall>r. res = Inr r \<longrightarrow> definitive r \<and> ts \<noteq> [] \<and> link (attempt + length ts - 1) (last ts) req = Inr r) \<and>
        (\<forall>e. res = Inl (Server e) \<longrightarrow> ts \<noteq> [] \<and> link (attempt + length ts - 1) (last ts) req = Inr (RsErr e)) \<and>
        (\<forall>e. res = Inl (Unavailable e) \<longrightarrow> length ts = left) \<and> (\<forall>r. res \<noteq> Inl (Unexpected r)))"

lemma loop_post_step:
  assumes "loop_post link req (attempt + 1) left c1 res c'"
    and "kc_cfg c1 = kc_cfg c" "kc_session c1 = kc_session c" "kc_seq c1 = kc_seq c"
    and "kc_sent c1 = kc_sent c @ [(kc_target c, req)]" "client_ok c"
  shows "loop_post link req attempt (Suc left) c res c'"
proof -
  obtain ts where ts: "kc_sent c' = kc_sent c1 @ map (\<lambda>t. (t, req)) ts" "length ts \<le> left"
    "\<forall>t \<in> set ts. t < length (cc_addrs (kc_cfg c))"
    "\<forall>r. res = Inr r \<longrightarrow> definitive r \<and> ts \<noteq> [] \<and> link (attempt + 1 + length ts - 1) (last ts) req = Inr r"
    "\<forall>e. res = Inl (Server e) \<longrightarrow> ts \<noteq> [] \<and> link (attempt + 1 + length ts - 1) (last ts) req = Inr (RsErr e)"
    "\<forall>e. res = Inl (Unavailable e) \<longrightarrow> length ts = left" "\<forall>r. res \<noteq> Inl (Unexpected r)"
    using assms(1,2) unfolding loop_post_def by auto
  have "client_ok c'" "kc_cfg c' = kc_cfg c" "kc_session c' = kc_session c" "kc_seq c' = kc_seq c"
    using assms(1-4) by (simp_all add: loop_post_def)
  then show ?thesis
    unfolding loop_post_def using ts assms(5,6)
    by (intro conjI exI [of _ "kc_target c # ts"]) (auto simp: client_ok_def)
qed

lemma next_target_ok: "client_ok c \<Longrightarrow> client_ok (next_target c)"
  by (simp add: client_ok_def next_target_def) (metis gr_implies_not0 length_0_conv mod_less_divisor neq0_conv)

lemma reroute_ok: "client_ok c \<Longrightarrow> client_ok (reroute hint c)"
  using next_target_ok by (cases hint) (auto simp: reroute_def client_ok_def)

lemma reroute_fields [simp]:
  "kc_cfg (next_target c) = kc_cfg c" "kc_session (next_target c) = kc_session c"
  "kc_seq (next_target c) = kc_seq c" "kc_sent (next_target c) = kc_sent c"
  "kc_cfg (reroute h c) = kc_cfg c" "kc_session (reroute h c) = kc_session c"
  "kc_seq (reroute h c) = kc_seq c" "kc_sent (reroute h c) = kc_sent c"
  by (auto simp: next_target_def reroute_def split: option.splits)

lemma call_loop_post:
  assumes "client_ok c"
  shows "\<exists>res c'. call_loop link req attempt left last_err c = Inr (res, c') \<and> loop_post link req attempt left c res c'"
  using assms
proof (induction left arbitrary: attempt last_err c)
  case 0
  then show ?case by (simp add: loop_post_def)
next
  case (Suc left)
  let ?c0 = "if 0 < attempt then backoff attempt c else c"
  let ?c1 = "?c0\<lparr>kc_conn := True, kc_sent := kc_sent c @ [(kc_target c, req)]\<rparr>"
  have f: "kc_target ?c0 = kc_target c" "kc_sent ?c0 = kc_sent c" "kc_cfg ?c0 = kc_cfg c" "kc_session ?c0 = kc_session c"
    "kc_seq ?c0 = kc_seq c" by (simp_all add: backoff_def)
  have t: "try_once link attempt req ?c0 = Inr (link attempt (kc_target c) req, ?c1)"
    using Suc.prems unfolding try_once_def f client_ok_def by simp
  have ok1: "client_ok ?c1" "client_ok (?c1\<lparr>kc_conn := False\<rparr>)" using Suc.prems f by (simp_all add: client_ok_def)
  have retry: "\<exists>res c'. call_loop link req (attempt + 1) left e c2 = Inr (res, c') \<and> loop_post link req attempt (Suc left) c res c'"
    if "client_ok c2" "kc_cfg c2 = kc_cfg c" "kc_session c2 = kc_session c" "kc_seq c2 = kc_seq c"
      "kc_sent c2 = kc_sent c @ [(kc_target c, req)]" for c2 e
    using Suc.IH [OF that(1), of "attempt + 1" e] loop_post_step [OF _ that(2-5) Suc.prems] by blast
  have stop: "loop_post link req attempt (Suc left) c res ?c1"
    if "link attempt (kc_target c) req = Inr r" "res = Inr r \<and> definitive r \<or> (\<exists>e. r = RsErr e \<and> res = Inl (Server e))" for r res
    unfolding loop_post_def using ok1 f Suc.prems that
    by (intro conjI exI [of _ "[kc_target c]"]) (auto simp: client_ok_def)
  show ?case
  proof (cases "link attempt (kc_target c) req")
    case (Inl e)
    have "\<exists>res c'. call_loop link req (attempt + 1) left e (next_target (?c1\<lparr>kc_conn := False\<rparr>)) = Inr (res, c') \<and>
        loop_post link req attempt (Suc left) c res c'"
      by (rule retry) (use next_target_ok [OF ok1(2)] f in simp_all)
    then show ?thesis using t Inl by simp
  next
    case (Inr r)
    show ?thesis
    proof (cases r)
      case (RsNotLeader h)
      have "\<exists>res c'. call_loop link req (attempt + 1) left ''not leader'' (reroute h (?c1\<lparr>kc_conn := False\<rparr>)) = Inr (res, c') \<and>
          loop_post link req attempt (Suc left) c res c'"
        by (rule retry) (use reroute_ok [OF ok1(2)] f in simp_all)
      then show ?thesis using t Inr RsNotLeader by simp
    next
      case (RsRetry s)
      have "\<exists>res c'. call_loop link req (attempt + 1) left s ?c1 = Inr (res, c') \<and> loop_post link req attempt (Suc left) c res c'"
        by (rule retry) (use ok1 f in simp_all)
      then show ?thesis using t Inr RsRetry by simp
    qed (use stop [OF Inr] t Inr in \<open>auto simp: definitive_def\<close>)
  qed
qed

section \<open>The session discipline\<close>

text \<open>The command a write request becomes.\<close>

fun cmd_of :: "request \<Rightarrow> command option" where
  "cmd_of (RqPut s q k v) = Some \<lparr>cmd_session = s, cmd_seq = q, cmd_op = Put k v\<rparr>"
| "cmd_of (RqDelete s q k) = Some \<lparr>cmd_session = s, cmd_seq = q, cmd_op = Delete k\<rparr>"
| "cmd_of (RqCas s q k e n) = Some \<lparr>cmd_session = s, cmd_seq = q, cmd_op = Cas k e n\<rparr>"
| "cmd_of _ = None"

definition sent_cmds :: "kv_client \<Rightarrow> command set" where
  "sent_cmds c = {cmd. \<exists>t r. (t, r) \<in> set (kc_sent c) \<and> cmd_of r = Some cmd}"

definition session_ok :: "kv_client \<Rightarrow> bool" where
  "session_ok c \<longleftrightarrow>
     (\<forall>cmd \<in> sent_cmds c. cmd_session cmd = kc_session c \<and> cmd_seq cmd \<le> kc_seq c) \<and>
     (\<forall>a \<in> sent_cmds c. \<forall>b \<in> sent_cmds c. cmd_seq a = cmd_seq b \<longrightarrow> a = b)"

lemma api_request_fields:
  "kc_sent (snd (api_request api c)) = kc_sent c" "kc_session (snd (api_request api c)) = kc_session c"
  "kc_cfg (snd (api_request api c)) = kc_cfg c" "kc_target (snd (api_request api c)) = kc_target c"
  "kc_seq c \<le> kc_seq (snd (api_request api c))"
  by (cases api; simp add: Let_def)+

lemma api_request_cmd:
  "cmd_of (fst (api_request api c)) = Some cmd \<Longrightarrow>
   cmd_session cmd = kc_session c \<and> cmd_seq cmd = kc_seq c + 1 \<and> kc_seq (snd (api_request api c)) = kc_seq c + 1"
  by (cases api) (auto simp: Let_def)

lemma api_call_ok:
  assumes ok: "client_ok c" and ses: "session_ok c"
  shows "\<exists>res c'. api_call link api c = Inr (res, c') \<and> client_ok c' \<and> session_ok c' \<and> kc_session c' = kc_session c"
proof -
  obtain req c1 where r: "api_request api c = (req, c1)" by fastforce
  note f = api_request_fields [where api = api and c = c, unfolded r snd_conv] and new = api_request_cmd [of api c, unfolded r fst_conv snd_conv]
  have ok1: "client_ok c1" using ok f by (simp add: client_ok_def)
  obtain res c' where call: "client_call link req c1 = Inr (res, c')"
    and post: "loop_post link req 0 (cc_max_attempts (kc_cfg c1)) c1 res c'"
    using call_loop_post [OF ok1] unfolding client_call_def by metis
  have p: "client_ok c'" "kc_session c' = kc_session c" "kc_seq c' = kc_seq c1"
    using post f by (auto simp: loop_post_def)
  have "\<exists>ts. kc_sent c' = kc_sent c1 @ map (\<lambda>t. (t, req)) ts" using post unfolding loop_post_def by blast
  then have sent: "sent_cmds c' \<subseteq> sent_cmds c \<union> {cmd. cmd_of req = Some cmd}"
    using f(1) by (fastforce simp: sent_cmds_def)
  have old: "cmd_session a = kc_session c \<and> cmd_seq a \<le> kc_seq c" if "a \<in> sent_cmds c" for a
    using ses that by (simp add: session_ok_def)
  have "session_ok c'"
    unfolding session_ok_def p(2,3)
  proof (intro conjI ballI impI)
    fix a assume "a \<in> sent_cmds c'"
    then show "cmd_session a = kc_session c" "cmd_seq a \<le> kc_seq c1"
      using sent old [of a] f(5) new [of a] by auto
  next
    fix a b assume ab: "a \<in> sent_cmds c'" "b \<in> sent_cmds c'" "cmd_seq a = cmd_seq b"
    show "a = b"
    proof (cases "a \<in> sent_cmds c \<and> b \<in> sent_cmds c")
      case True
      then show ?thesis using ses ab(3) unfolding session_ok_def by blast
    next
      case False
      then have "cmd_of req = Some a \<or> cmd_of req = Some b" using sent ab by auto
      then have eq: "cmd_seq a = kc_seq c + 1" "cmd_seq b = kc_seq c + 1"
        using new [of a] new [of b] ab(3) by auto
      have "a \<notin> sent_cmds c" "b \<notin> sent_cmds c" using old [of a] old [of b] eq by auto
      then have "cmd_of req = Some a" "cmd_of req = Some b" using sent ab by auto
      then show ?thesis by simp
    qed
  qed
  then show ?thesis using p call r by (cases res) (auto simp: api_call_def)
qed

lemma client_run_ok:
  assumes "client_ok c" "session_ok c"
  shows "\<exists>c'. client_run calls c = Inr c' \<and> client_ok c' \<and> session_ok c' \<and> kc_session c' = kc_session c"
  using assms
proof (induction calls arbitrary: c)
  case (Cons call calls)
  obtain link api where l: "call = (link, api)" by fastforce
  obtain res c1 where 1: "api_call link api c = Inr (res, c1)" "client_ok c1" "session_ok c1" "kc_session c1 = kc_session c"
    using api_call_ok [OF Cons.prems, of link api] by blast
  from Cons.IH [OF 1(2,3)] show ?case using 1 l by auto
qed simp

section \<open>Applying retried commands once\<close>

lemma effective_subseq: "subseq (effective seqs cs) cs"
  by (induction seqs cs rule: effective.induct) (auto simp: fun_upd_def split: option.splits)

lemma effective_increasing:
  assumes "s \<noteq> 0"
  shows "sorted_wrt (\<lambda>a b. cmd_seq a < cmd_seq b) (filter (\<lambda>c. cmd_session c = s) (effective seqs cs)) \<and>
    (\<forall>c \<in> set (effective seqs cs). cmd_session c = s \<longrightarrow> (\<forall>q. seqs s = Some q \<longrightarrow> q < cmd_seq c))"
proof (induction seqs cs rule: effective.induct)
  case (2 seqs c cs)
  show ?case
  proof (cases "cmd_session c = 0 \<or> (\<exists>q. seqs (cmd_session c) = Some q \<and> cmd_seq c \<le> q)")
    case True
    then show ?thesis using 2 assms by auto
  next
    case False
    let ?seqs = "seqs(cmd_session c \<mapsto> cmd_seq c)"
    have e: "effective seqs (c # cs) = c # effective ?seqs cs" using False by (auto split: option.splits)
    have IH: "sorted_wrt (\<lambda>a b. cmd_seq a < cmd_seq b) (filter (\<lambda>c. cmd_session c = s) (effective ?seqs cs)) \<and>
      (\<forall>c \<in> set (effective ?seqs cs). cmd_session c = s \<longrightarrow> (\<forall>q. ?seqs s = Some q \<longrightarrow> q < cmd_seq c))"
      using 2 False by (cases "seqs (cmd_session c)") (auto simp: fun_upd_def)
    have gt: "q < cmd_seq c" if "seqs (cmd_session c) = Some q" for q using False that by auto
    show ?thesis unfolding e using IH gt by (cases "cmd_session c = s") (force simp: order.strict_trans)+
  qed
qed simp

text \<open>A session's entry stays while no newer command of the session is applied.\<close>

lemma session_entry_stays:
  assumes "s \<noteq> 0" "bt_get (sm_sessions sm) s = Some e"
    and "\<forall>c \<in> set cs. cmd_session c = s \<longrightarrow> cmd_seq c \<le> session_state.last_seq e"
  shows "bt_get (sm_sessions (sm_run B cs sm)) s = Some e"
  using assms(2,3)
proof (induction cs arbitrary: sm)
  case (Cons c cs)
  have "bt_get (sm_sessions (snd (sm_apply B c sm))) s = Some e"
  proof (cases rule: sm_apply_cases [of c sm B])
    case fresh
    show ?thesis
    proof (cases "cmd_session c = s")
      case True
      then show ?thesis using fresh(1) Cons.prems assms(1) by auto
    next
      case False
      then show ?thesis using fresh(2) Cons.prems(1) by (simp add: execute_and_record_sessions)
    qed
  qed (use Cons.prems(1) in simp_all)
  then show ?case using Cons by (simp add: sm_run_def)
qed (simp add: sm_run_def)

lemma applied_entry:
  assumes "cmd_session c \<noteq> 0" "\<forall>q. seqs_of sm (cmd_session c) = Some q \<longrightarrow> q < cmd_seq c"
  shows "bt_get (sm_sessions (snd (sm_apply B c sm))) (cmd_session c) =
    Some \<lparr>last_seq = cmd_seq c, last_result = fst (sm_apply B c sm)\<rparr>"
proof (cases rule: sm_apply_cases [of c sm B])
  case fresh
  then show ?thesis using assms(1) by (simp add: execute_and_record_sessions)
qed (use assms in \<open>auto simp: seqs_of_def\<close>)

text \<open>The sequence number on record is one of an applied command, or was there before.\<close>

lemma seqs_of_run:
  assumes "seqs_of (sm_run B cs sm) s = Some q"
  shows "seqs_of sm s = Some q \<or> (\<exists>d \<in> set cs. cmd_session d = s \<and> cmd_seq d = q)"
  using assms
proof (induction cs arbitrary: sm)
  case (Cons c cs)
  then have "seqs_of (snd (sm_apply B c sm)) s = Some q \<or> (\<exists>d \<in> set cs. cmd_session d = s \<and> cmd_seq d = q)"
    by (simp add: sm_run_def)
  moreover have "seqs_of sm s = Some q \<or> cmd_session c = s \<and> cmd_seq c = q"
    if "seqs_of (snd (sm_apply B c sm)) s = Some q"
    using that
  proof (cases rule: sm_apply_cases [of c sm B])
    case fresh
    then show ?thesis using that
      by (cases "cmd_session c = 0") (auto simp: seqs_of_record0 seqs_of_record split: if_splits)
  qed simp_all
  ultimately show ?case by auto
qed (simp add: sm_run_def)

lemma retry_answer:
  assumes "cmd_session c \<noteq> 0" "\<forall>q. seqs_of sm (cmd_session c) = Some q \<longrightarrow> q < cmd_seq c"
    and "\<forall>d \<in> set cs. cmd_session d = cmd_session c \<longrightarrow> cmd_seq d \<le> cmd_seq c"
  shows "sm_apply B c (sm_run B (c # cs) sm) = (fst (sm_apply B c sm), sm_run B (c # cs) sm)"
proof -
  let ?e = "\<lparr>last_seq = cmd_seq c, last_result = fst (sm_apply B c sm)\<rparr>"
  have "bt_get (sm_sessions (sm_run B cs (snd (sm_apply B c sm)))) (cmd_session c) = Some ?e"
    by (rule session_entry_stays [OF assms(1) applied_entry [OF assms(1,2)]]) (use assms(3) in simp)
  moreover have "sm_run B (c # cs) sm = sm_run B cs (snd (sm_apply B c sm))" by (simp add: sm_run_def)
  ultimately show ?thesis using assms(1) by (simp add: sm_apply_def)
qed

section \<open>Properties\<close>

text \<open>
  C24: A call of the client with at least one address never panics and makes at most
  \<open>max_attempts\<close> attempts. Every attempt sends the same request, to an address of the configuration; the call returns
  a response only if that response answered its last attempt and is neither a redirection nor a retry,
  a server error only if the server said so, and \<open>Unavailable\<close> only after all its attempts.
\<close>
theorem client_call_spec:
  assumes "kc_target c < length (cc_addrs (kc_cfg c))"
  shows "\<exists>res c' ts. client_call link req c = Inr (res, c') \<and>
    kc_sent c' = kc_sent c @ map (\<lambda>t. (t, req)) ts \<and> length ts \<le> cc_max_attempts (kc_cfg c) \<and>
    (\<forall>t \<in> set ts. t < length (cc_addrs (kc_cfg c))) \<and>
    kc_target c' < length (cc_addrs (kc_cfg c')) \<and> kc_session c' = kc_session c \<and> kc_seq c' = kc_seq c \<and>
    (\<forall>r. res = Inr r \<longrightarrow> ts \<noteq> [] \<and> link (length ts - 1) (last ts) req = Inr r \<and>
       (\<forall>h. r \<noteq> RsNotLeader h) \<and> (\<forall>s. r \<noteq> RsRetry s)) \<and>
    (\<forall>e. res = Inl (Server e) \<longrightarrow> ts \<noteq> [] \<and> link (length ts - 1) (last ts) req = Inr (RsErr e)) \<and>
    (\<forall>e. res = Inl (Unavailable e) \<longrightarrow> length ts = cc_max_attempts (kc_cfg c))"
proof -
  have "client_ok c" using assms by (simp add: client_ok_def)
  then obtain res c' where "client_call link req c = Inr (res, c')"
    "loop_post link req 0 (cc_max_attempts (kc_cfg c)) c res c'"
    using call_loop_post unfolding client_call_def by blast
  then show ?thesis unfolding loop_post_def client_ok_def definitive_def by auto
qed

text \<open>The first node redirects the client to node 2, which answers.\<close>

theorem client_call_spec_witness:
  "\<exists>c res c'. with_session (client_config_new (Some 2) None None [''a'', ''b'']) 7 = Inr c \<and>
    client_call (\<lambda>a t r. if t = 0 then Inr (RsNotLeader (Some 2)) else Inr RsOk) (RqPut 7 1 [1] [2]) c = Inr (res, c') \<and>
    res = Inr RsOk \<and> kc_sent c' = [(0, RqPut 7 1 [1] [2]), (1, RqPut 7 1 [1] [2])]"
proof -
  let ?link = "\<lambda>a t r. if t = 0 then Inr (RsNotLeader (Some 2)) else Inr RsOk :: string + response"
  obtain c where c: "with_session (client_config_new (Some 2) None None [''a'', ''b'']) 7 = Inr c"
    by (simp add: with_session_def)
  then have "kc_target c < length (cc_addrs (kc_cfg c))" and m: "cc_max_attempts (kc_cfg c) = Suc (Suc 0)"
    and s: "kc_sent c = []" "kc_target c = 0" "kc_conn c = False" "cc_addrs (kc_cfg c) = [''a'', ''b'']"
    by (auto simp: with_session_def client_config_new_def)
  from client_call_spec [OF this(1), of ?link "RqPut 7 1 [1] [2]"] obtain res c'
    where call: "client_call ?link (RqPut 7 1 [1] [2]) c = Inr (res, c')" by blast
  moreover have "res = Inr RsOk \<and> kc_sent c' = [(0, RqPut 7 1 [1] [2]), (1, RqPut 7 1 [1] [2])]"
    using call unfolding client_call_def m by (auto simp: s try_once_def reroute_def backoff_def)
  ultimately show ?thesis using c by blast
qed

text \<open>
  C23: Retries are applied once. Let a client make any calls over any network, and let a log hold its
  write commands in any order and any number of copies, among the commands of other sessions. Then
  equal sequence numbers of the session mean equal commands, and applying the log gives the state of
  a subsequence of it in which each sequence number of the session occurs at most once, in increasing
  order. A copy applied after its original, with no newer command of the session between them, changes
  nothing and returns the original's result.
\<close>
theorem retries_apply_once:
  assumes "with_session cc s = Inr c0" "cc_addrs cc \<noteq> []" "client_run calls c0 = Inr c"
    and "\<forall>cmd \<in> set log. cmd_session cmd = s \<longrightarrow> cmd \<in> sent_cmds c"
  shows "(\<forall>a \<in> set log. \<forall>b \<in> set log. cmd_session a = s \<and> cmd_session b = s \<and> cmd_seq a = cmd_seq b \<longrightarrow> a = b) \<and>
    (\<exists>once. subseq once log \<and> sm_run B log (sm_new b0) = sm_run B once (sm_new b0) \<and>
       sorted_wrt (\<lambda>a b. cmd_seq a < cmd_seq b) (filter (\<lambda>cmd. cmd_session cmd = s) once)) \<and>
    (\<forall>cmd older between rest. log = older @ cmd # between @ cmd # rest \<and> cmd_session cmd = s \<and>
       (\<forall>d \<in> set older. cmd_session d = s \<longrightarrow> cmd_seq d < cmd_seq cmd) \<and>
       (\<forall>d \<in> set between. cmd_session d = s \<longrightarrow> cmd_seq d \<le> cmd_seq cmd) \<longrightarrow>
       sm_apply B cmd (sm_run B (older @ cmd # between) (sm_new b0)) =
         (fst (sm_apply B cmd (sm_run B older (sm_new b0))), sm_run B (older @ cmd # between) (sm_new b0)))"
proof (intro conjI allI impI)
  have s: "s \<noteq> 0" "kc_session c0 = s" using assms(1) by (auto simp: with_session_def split: if_splits)
  have "client_ok c0" "session_ok c0"
    using assms(1,2) by (auto simp: with_session_def client_ok_def session_ok_def sent_cmds_def split: if_splits)
  then have ses: "session_ok c" using client_run_ok [of c0 calls] assms(3) by auto
  show "\<forall>a \<in> set log. \<forall>b \<in> set log. cmd_session a = s \<and> cmd_session b = s \<and> cmd_seq a = cmd_seq b \<longrightarrow> a = b"
    using ses assms(4) unfolding session_ok_def by blast
  let ?once = "effective (seqs_of (sm_new b0)) log"
  have "subseq ?once log" "sm_run B log (sm_new b0) = sm_run B ?once (sm_new b0)"
    "sorted_wrt (\<lambda>a b. cmd_seq a < cmd_seq b) (filter (\<lambda>cmd. cmd_session cmd = s) ?once)"
    using effective_subseq sm_run_effective effective_increasing [OF s(1)] by auto
  then show "\<exists>once. subseq once log \<and> sm_run B log (sm_new b0) = sm_run B once (sm_new b0) \<and>
       sorted_wrt (\<lambda>a b. cmd_seq a < cmd_seq b) (filter (\<lambda>cmd. cmd_session cmd = s) once)" by blast
  fix cmd older between rest
  assume h: "log = older @ cmd # between @ cmd # rest \<and> cmd_session cmd = s \<and>
       (\<forall>d \<in> set older. cmd_session d = s \<longrightarrow> cmd_seq d < cmd_seq cmd) \<and>
       (\<forall>d \<in> set between. cmd_session d = s \<longrightarrow> cmd_seq d \<le> cmd_seq cmd)"
  let ?sm = "sm_run B older (sm_new b0)"
  have "seqs_of (sm_new b0) s = None" by (simp add: seqs_of_def sm_new_def)
  then have "\<forall>q. seqs_of ?sm (cmd_session cmd) = Some q \<longrightarrow> q < cmd_seq cmd"
    using seqs_of_run [of B older "sm_new b0" s] h by fastforce
  from retry_answer [OF _ this, of between B] h s(1)
  show "sm_apply B cmd (sm_run B (older @ cmd # between) (sm_new b0)) =
      (fst (sm_apply B cmd ?sm), sm_run B (older @ cmd # between) (sm_new b0))"
    by (simp add: sm_run_def)
qed

theorem retries_apply_once_witness:
  "\<exists>c0 c. with_session (client_config_new (Some 2) None None [''a'']) 7 = Inr c0 \<and>
    client_run [(\<lambda>a t r. if a = 0 then Inl ''reset'' else Inr RsOk, ApiPut [1] [2])] c0 = Inr c \<and>
    (let w = \<lparr>cmd_session = 7, cmd_seq = 1, cmd_op = Put [1] [2]\<rparr>;
         other = \<lparr>cmd_session = 8, cmd_seq = 1, cmd_op = Put [1] [3]\<rparr>
     in sm_apply mem_backend w (sm_run mem_backend [w, other] (sm_new bt_empty)) =
          (OpOk, sm_run mem_backend [w, other] (sm_new bt_empty)))"
proof -
  let ?w = "\<lparr>cmd_session = 7, cmd_seq = 1, cmd_op = Put [1] [2]\<rparr>"
  let ?other = "\<lparr>cmd_session = 8, cmd_seq = 1, cmd_op = Put [1] [3]\<rparr>"
  let ?calls = "[(\<lambda>a t r. if a = 0 then Inl ''reset'' else Inr RsOk, ApiPut [1] [2])]"
  let ?cc = "client_config_new (Some 2) None None [''a'']"
  obtain c0 where c0: "with_session ?cc 7 = Inr c0" by (simp add: with_session_def)
  then have f: "kc_sent c0 = []" "kc_target c0 = 0" "kc_conn c0 = False" "cc_addrs (kc_cfg c0) = [''a'']"
    "cc_max_attempts (kc_cfg c0) = Suc (Suc 0)" "kc_session c0 = 7" "kc_seq c0 = 0"
    by (auto simp: with_session_def client_config_new_def)
  have "\<exists>c. client_run ?calls c0 = Inr c \<and> kc_sent c = [(0, RqPut 7 1 [1] [2]), (0, RqPut 7 1 [1] [2])]"
    by (simp add: api_call_def client_call_def f try_once_def backoff_def next_target_def Let_def)
  then obtain c where c: "client_run ?calls c0 = Inr c" "kc_sent c = [(0, RqPut 7 1 [1] [2]), (0, RqPut 7 1 [1] [2])]"
    by blast
  have log: "\<forall>cmd \<in> set [?w, ?other, ?w]. cmd_session cmd = 7 \<longrightarrow> cmd \<in> sent_cmds c" by (simp add: sent_cmds_def c(2))
  have ne: "cc_addrs ?cc \<noteq> []" by (simp add: client_config_new_def)
  have "sm_apply mem_backend ?w (sm_run mem_backend ([] @ ?w # [?other]) (sm_new bt_empty)) =
      (fst (sm_apply mem_backend ?w (sm_run mem_backend [] (sm_new bt_empty))),
       sm_run mem_backend ([] @ ?w # [?other]) (sm_new bt_empty))"
    by (rule retries_apply_once [OF c0 ne c(1) log, THEN conjunct2, THEN conjunct2, THEN spec [of _ ?w],
          THEN spec [of _ "[]"], THEN spec [of _ "[?other]"], THEN spec [of _ "[]"], THEN mp]) simp
  moreover have "fst (sm_apply mem_backend ?w (sm_run mem_backend [] (sm_new bt_empty))) = OpOk"
    by (simp add: sm_run_def sm_apply_def sm_new_def execute_and_record_def)
  ultimately have "sm_apply mem_backend ?w (sm_run mem_backend [?w, ?other] (sm_new bt_empty)) =
      (OpOk, sm_run mem_backend [?w, ?other] (sm_new bt_empty))" by simp
  then show ?thesis unfolding Let_def using c0 c(1) by blast
qed

end
