(* ===== verification/Raft_Timers.thy ===== *)
theory Raft_Timers
  imports Raft_Node
begin

text \<open>
  The election timer of \<open>crates/raft/src/node.rs\<close>: the range of the randomised timeout, and what a
  node does that hears from nobody.
\<close>

section \<open>The randomised timeout\<close>

lemma reset_timer_bounds:
  assumes "c_election_tick_min (cfg n) < c_election_tick_max (cfg n)" "c_election_tick_max (cfg n) < 2 ^ 32"
  shows "c_election_tick_min (cfg n) \<le> randomized_timeout (reset_election_timer n)"
    "randomized_timeout (reset_election_timer n) < c_election_tick_max (cfg n)"
proof -
  let ?mn = "c_election_tick_min (cfg n)" and ?mx = "c_election_tick_max (cfg n)"
  have "?mx + 2 ^ 32 - ?mn = (?mx - ?mn) + 2 ^ 32" using assms by simp
  then have "(?mx + 2 ^ 32 - ?mn) mod 2 ^ 32 = (?mx - ?mn) mod 2 ^ 32" by (simp only: mod_add_self2)
  then have "(?mx + 2 ^ 32 - ?mn) mod 2 ^ 32 = ?mx - ?mn" using assms by simp
  moreover obtain r n1 where r: "next_rand n = (r, n1)" by (cases "next_rand n")
  ultimately have eq: "randomized_timeout (reset_election_timer n) =
      (?mn + (unat r mod (?mx - ?mn)) mod 2 ^ 32) mod 2 ^ 32"
    using assms by (simp add: reset_election_timer_def Let_def)
  have lt: "unat r mod (?mx - ?mn) < ?mx - ?mn" using assms by simp
  then have "randomized_timeout (reset_election_timer n) = ?mn + unat r mod (?mx - ?mn)"
    using assms unfolding eq by (simp only: mod_less)
  then show "?mn \<le> randomized_timeout (reset_election_timer n)"
    "randomized_timeout (reset_election_timer n) < ?mx"
    using lt by simp_all
qed

lemma reset_timer_frame [simp]:
  "cfg (reset_election_timer n) = cfg n" "role (reset_election_timer n) = role n"
  "rlog (reset_election_timer n) = rlog n" "voters_base (reset_election_timer n) = voters_base n"
  "out (reset_election_timer n) = out n" "election_elapsed (reset_election_timer n) = 0"
  "hs (reset_election_timer n) = hs n"
  by (simp_all add: reset_election_timer_def next_rand_def Let_def)

section \<open>Ticks without messages\<close>

text \<open>A quiet node only counts until its timeout.\<close>

lemma tick_quiet:
  assumes "role n \<noteq> Leader" "election_elapsed n + 1 < randomized_timeout n"
  shows "tick n = n\<lparr>tick_counter := tick_counter n + 1, election_elapsed := election_elapsed n + 1\<rparr>"
  using assms by (simp add: tick_def Let_def)

lemma ticks_quiet:
  assumes "role n \<noteq> Leader" "election_elapsed n + j < randomized_timeout n"
  shows "(tick ^^ j) n = n\<lparr>tick_counter := tick_counter n + j, election_elapsed := election_elapsed n + j\<rparr>"
  using assms
proof (induction j)
  case (Suc j)
  then show ?case by (simp add: tick_quiet)
qed simp

lemma fold_pre_votes:
  "fold (\<lambda>peer m. if peer = me then m else push_msg peer (cur_term m + 1) (PreVote lli llt) m) vs n =
     n\<lparr>out := (out n)\<lparr>o_messages := o_messages (out n) @
       map (\<lambda>v. \<lparr>m_from = nid n, m_to = v, m_term = cur_term n + 1, m_body = PreVote lli llt\<rparr>)
         (filter (\<lambda>v. v \<noteq> me) vs)\<rparr>\<rparr>"
  by (induction vs arbitrary: n) (simp_all add: push_msg_def)

text \<open>The tick that reaches the timeout asks every other voter for a pre-vote.\<close>

lemma tick_times_out:
  assumes "role n \<noteq> Leader" "randomized_timeout n \<le> election_elapsed n + 1"
    and "nid n \<in> set (voters n)" "2 \<le> length (voters n)" "c_pre_vote (cfg n)"
  shows "role (tick n) = PreCandidate \<and> cur_term (tick n) = cur_term n \<and>
    o_messages (out (tick n)) = o_messages (out n) @
      map (\<lambda>v. \<lparr>m_from = nid n, m_to = v, m_term = cur_term n + 1,
                m_body = PreVote (last_index (rlog n)) (last_term (rlog n))\<rparr>)
        (filter (\<lambda>v. v \<noteq> nid n) (voters n))"
proof -
  let ?n = "reset_election_timer (n\<lparr>tick_counter := tick_counter n + 1, election_elapsed := election_elapsed n + 1\<rparr>)"
  let ?m = "?n\<lparr>role := PreCandidate, votes := bt_insert (nid n) True bt_empty\<rparr>"
  have vs: "voters ?n = voters n" "voters ?m = voters n" by (simp_all add: voters_def voters_at_def)
  have "count_granted ?m \<le> 1" by (simp add: count_granted_def bt_empty_def)
  moreover have "2 \<le> quorum ?m" using assms(4) vs by (simp add: quorum_def)
  ultimately have q: "\<not> quorum ?m \<le> count_granted ?m" by simp
  have t: "tick n = campaign_pre ?n"
    using assms vs by (simp add: tick_def Let_def)
  show ?thesis
    unfolding t campaign_pre_def Let_def reset_timer_frame using q vs by (simp add: fold_pre_votes)
qed

lemma new_node_fields:
  "cfg (raft_node_new c vs p) = c" "role (raft_node_new c vs p) = Follower"
  "out (raft_node_new c vs p) = output_default" "election_elapsed (raft_node_new c vs p) = 0"
  by (simp_all add: raft_node_new_def Let_def split: option.splits)

lemma new_node_timeout:
  assumes "c_election_tick_min c < c_election_tick_max c" "c_election_tick_max c < 2 ^ 32"
  shows "c_election_tick_min c \<le> randomized_timeout (raft_node_new c vs p)"
    "randomized_timeout (raft_node_new c vs p) < c_election_tick_max c"
proof -
  obtain m where m: "raft_node_new c vs p = reset_election_timer m" "cfg m = c"
    by (cases "p_snapshot p") (simp_all add: raft_node_new_def Let_def)
  show "c_election_tick_min c \<le> randomized_timeout (raft_node_new c vs p)"
    "randomized_timeout (raft_node_new c vs p) < c_election_tick_max c"
    using reset_timer_bounds [of m] assms by (simp_all add: m)
qed

text \<open>
  C25: A node with pre-vote on, a voter among at least two, that starts or restarts and hears from
  nobody stays silent for at least the minimal election timeout and, before the maximal one has passed,
  becomes a pre-candidate and asks every other voter for a pre-vote in the next term, without having
  moved its own term.
\<close>
theorem silence_starts_election:
  assumes "0 < c_election_tick_min c" "c_election_tick_min c < c_election_tick_max c" "c_election_tick_max c < 2 ^ 32"
    and "c_pre_vote c" "n = raft_node_new c vs p" "c_id c \<in> set (voters n)" "2 \<le> length (voters n)"
  shows "\<exists>k. c_election_tick_min c \<le> k \<and> k < c_election_tick_max c \<and>
    (\<forall>j<k. role ((tick ^^ j) n) = Follower \<and> out ((tick ^^ j) n) = output_default) \<and>
    role ((tick ^^ k) n) = PreCandidate \<and> cur_term ((tick ^^ k) n) = cur_term n \<and>
    o_messages (out ((tick ^^ k) n)) =
      map (\<lambda>v. \<lparr>m_from = c_id c, m_to = v, m_term = cur_term n + 1,
                m_body = PreVote (last_index (rlog n)) (last_term (rlog n))\<rparr>)
        (filter (\<lambda>v. v \<noteq> c_id c) (voters n))"
proof (intro exI conjI)
  let ?k = "randomized_timeout n"
  have f: "cfg n = c" "role n = Follower" "out n = output_default" "election_elapsed n = 0"
    using new_node_fields by (simp_all add: assms(5))
  show k: "c_election_tick_min c \<le> ?k" "?k < c_election_tick_max c"
    using new_node_timeout [OF assms(2,3)] by (simp_all add: assms(5))
  have quiet: "(tick ^^ j) n = n\<lparr>tick_counter := tick_counter n + j, election_elapsed := j\<rparr>" if "j < ?k" for j
    using ticks_quiet [of n j] that f by simp
  show "\<forall>j<?k. role ((tick ^^ j) n) = Follower \<and> out ((tick ^^ j) n) = output_default"
    using f by (simp add: quiet)
  obtain j where j: "?k = Suc j" using k assms(1) by (cases ?k) auto
  let ?m = "(tick ^^ j) n"
  have m: "?m = n\<lparr>tick_counter := tick_counter n + j, election_elapsed := j\<rparr>" using quiet [of j] j by simp
  have vs: "voters ?m = voters n" by (simp add: m voters_def voters_at_def)
  have "role ?m \<noteq> Leader" "randomized_timeout ?m \<le> election_elapsed ?m + 1" "nid ?m \<in> set (voters ?m)"
    "2 \<le> length (voters ?m)" "c_pre_vote (cfg ?m)"
    using f j assms(4,6,7) by (simp_all add: vs) (simp_all add: m f)
  note t = tick_times_out [OF this]
  show "role ((tick ^^ ?k) n) = PreCandidate" "cur_term ((tick ^^ ?k) n) = cur_term n"
    using t by (simp_all add: j m)
  show "o_messages (out ((tick ^^ ?k) n)) =
      map (\<lambda>v. \<lparr>m_from = c_id c, m_to = v, m_term = cur_term n + 1,
                m_body = PreVote (last_index (rlog n)) (last_term (rlog n))\<rparr>)
        (filter (\<lambda>v. v \<noteq> c_id c) (voters n))"
    using t f vs by (simp add: j) (simp add: m output_default_def)
qed

theorem silence_starts_election_witness:
  "\<exists>k. 10 \<le> k \<and> k < 20 \<and> role ((tick ^^ k) (raft_node_new (config_new 1 7) [1, 2, 3] persisted_default)) = PreCandidate"
proof -
  let ?n = "raft_node_new (config_new 1 7) [1, 2, 3] persisted_default"
  have "voters ?n = [1, 2, 3]"
    by (simp add: voters_def voters_at_def raft_node_new_def Let_def persisted_default_def log_new_def)
  then have "\<exists>k. c_election_tick_min (config_new 1 7) \<le> k \<and> k < c_election_tick_max (config_new 1 7) \<and>
      role ((tick ^^ k) ?n) = PreCandidate"
    using silence_starts_election [of "config_new 1 7" ?n "[1, 2, 3]" persisted_default]
    by (auto simp: config_new_def)
  then show ?thesis by (simp add: config_new_def)
qed

end
