(* ===== verification/Spec2Isabelle.thy ===== *)
theory Spec2Isabelle
  imports Sim_Runs Wgl Core_Groups Net Client Raft_Timers
begin

text \<open>
  A verification of a replicated key-value store: a raft core without I/O, the state machine it
  replicates, an LSM storage engine, the server that runs the core on real disks and sockets, the
  client library, and the simulator and linearizability checker that test all of it. The sources are
  the Rust crates under \<open>src/crates\<close>.

  \<^bold>\<open>The parts and how they interact.\<close> A \<open>RaftNode\<close> (\<open>raft\<close>) takes ticks, messages and proposals
  and collects an output: hard state, entries and snapshot to persist, committed entries, completed
  reads, messages to send. A driver drains the output in that order. There are two drivers: the
  simulator (\<open>sim/src/cluster.rs\<close>), which keeps a whole cluster with simulated disks, and the server's
  core (\<open>server/src/core.rs\<close>), which persists to a log store (\<open>logstore.rs\<close>) and applies to a backend
  (\<open>backend.rs\<close>), both on the storage engine (\<open>storage\<close>). Both drivers apply commands to the same
  state machine (\<open>kvsm\<close>). Clients (\<open>client\<close>) reach servers over frames (\<open>proto\<close>, \<open>net.rs\<close>).

  \<^bold>\<open>Which theory models which part.\<close>
  \<^item> \<open>Prelude\<close>, \<open>Ordered_Map\<close>, \<open>Byte_Codec\<close>: bytes and integer codecs, \<open>BTreeMap\<close> with its locale
    \<open>ordered_map\<close>, and a concrete codec that stands for \<open>bincode\<close> in the witnesses.
  \<^item> \<open>Raft_Types\<close>, \<open>Raft_Log\<close>, \<open>Raft_Node\<close>: \<open>types.rs\<close>, \<open>log.rs\<close>, \<open>node.rs\<close>, one record per struct, one
    definition per method; panics are values of \<open>raft_panic\<close>. \<open>Raft_Timers\<close>: the election timer.
    \<open>Raft_Appends\<close>: the entries one event hands to the driver join the log.
  \<^item> \<open>Raft_Spec\<close>, \<open>Raft_Safety\<close>: the abstract protocol with history variables and its invariant.
    \<open>Raft_Refine\<close>, \<open>Raft_Refine_Ops\<close>, \<open>Raft_Refine_Step\<close>: every method of the node is matched by steps
    of the protocol.
  \<^item> \<open>Kvsm\<close>: \<open>kvsm/src/lib.rs\<close>; the trait \<open>Backend\<close> is a record of operations, its contract the locale
    \<open>kv_backend\<close>, interpreted by the in-memory backend.
  \<^item> \<open>Sim_History\<close>, \<open>Sim_Disk\<close>, \<open>Sim_Cluster\<close>: \<open>history.rs\<close> and \<open>cluster.rs\<close> as a state machine over
    clusters, \<open>sim_handle\<close> with one equation per event. \<open>Sim_Safety\<close>, \<open>Cluster_Facts\<close>: the invariant of
    reachable clusters and its consequences. \<open>Sim_Runs\<close>: executable runs. \<open>Wgl\<close>: \<open>wgl.rs\<close>.
  \<^item> \<open>Versions\<close>, \<open>Wal\<close>, \<open>Memtable\<close>, \<open>Merge_Iter\<close>, \<open>Bloom\<close>, \<open>Manifest\<close>, \<open>Sstable\<close>, \<open>Db\<close>: the storage engine,
    file by file, on the bytes of its files. \<open>Db_Inv\<close>, \<open>Db_Ops\<close>, \<open>Db_Compact\<close>, \<open>Db_Levels\<close>, \<open>Db_Swap\<close>,
    \<open>Db_Disk\<close>, \<open>Db_Recover\<close>, \<open>Db_Runs\<close>: its invariant, every operation, compaction, termination, recovery
    and whole lives with crashes. \<open>Plain_Storage\<close>: concrete codecs and checksum for the witnesses.
  \<^item> \<open>Backend\<close>, \<open>Logstore\<close>, \<open>Server_Core\<close>: \<open>backend.rs\<close>, \<open>logstore.rs\<close>, \<open>core.rs\<close> with the counters of
    \<open>metrics.rs\<close>. \<open>Core_Clients\<close>: what the core owes its clients. \<open>Core_Refine\<close>, \<open>Core_Sim\<close>: the core
    against the simulated node. \<open>Core_Runs\<close>, \<open>Core_Groups\<close>: runs of the core, and group commit.
  \<^item> \<open>Proto\<close>, \<open>Net\<close>, \<open>Client\<close>: \<open>proto/src/lib.rs\<close>, \<open>net.rs\<close>, \<open>client/src/lib.rs\<close>.

  \<^bold>\<open>What is shown.\<close> In every reachable state of the simulated cluster no event panics and none of the
  simulator's assertions fires; one leader per term, log matching, leader completeness, agreement of
  committed entries and of state machines; votes and applied entries are durable, and a restart
  recovers them. A server that drains after every event simulates a node of that cluster and restarts
  as it does; the files of its log store, opened again, give the simulated disk, and its backend is the
  in-memory one. Whatever the grouping of events, a request that the core has taken is waiting or has
  been answered or dropped exactly once, as long as the core runs, and is settled within fifty ticks.
  The storage engine returns the state after the acknowledged writes, through flushes, compactions,
  snapshots and crashes, and its loops return. The checker's verdicts are right: a history it accepts
  is linearizable and one it rejects is not, where linearizability is stated on the records themselves
  (\<open>history_linearizable\<close>: one order of the operations on a register per key, which respects real time
  and explains every recorded result). Frames and tables round-trip; a peer's messages arrive in order;
  a client's retries are applied once; a voter that hears from nobody starts an election.

  \<^bold>\<open>What is shown to fail.\<close> Group commit breaks the log store: two messages handled in one turn can
  leave a log on disk that the node never had, and a node that opens it grants a vote that the running
  node refuses. Saving the manifest is not safe against two crashes: while \<open>MANIFEST.tmp\<close> is the only
  copy, left by a crash between the removal of \<open>MANIFEST\<close> and the renaming, the next save empties it,
  and a crash then loses the tables. The crash theorems of the engine therefore assume \<open>save_safe\<close> of
  every crash inside a save: the manifest is still the old one or already the new one, or \<open>MANIFEST\<close>
  itself was current, or there was none yet and the checksum rejects the torn file.

  \<^bold>\<open>Conventions.\<close> \<open>u64\<close> counters are natural numbers; where a width matters (hashes, generators, bit
  masks, \<open>u32\<close> timeouts and frame lengths, length fields of the file formats) the model has words or
  writes the modulus out. Fallible code returns a sum; a loop that may not return is a
  \<open>partial_function\<close> whose value \<open>None\<close> is the endless run, and its return is a theorem
  (\<open>maybe_compact\<close>, \<open>core_process_output\<close>); the retry loop of the client and the search of the checker
  count down the bound the code itself has. \<open>bincode\<close>, \<open>crc32fast\<close>, the iteration order of a \<open>HashMap\<close>
  and the network are parameters; what is needed of them (decoding inverts encoding, a checksum
  detects the torn frame at hand, an iteration lists every element once) is a named hypothesis, and
  the witnesses instantiate it with \<open>Byte_Codec\<close> and \<open>Plain_Storage\<close>. The sizes that the file formats
  can represent are hypotheses too (\<open>history_fits\<close>, \<open>batch_ok\<close>, \<open>room_for\<close>). The byte counts and
  limits of the levels are computed modulo \<open>2\<^sup>64\<close>, as in a release build; \<open>history_fits\<close> includes
  \<open>level_room\<close>, that the multiplier times the size of all tables stays below \<open>2\<^sup>64\<close>, and \<open>opts_ok\<close> asks
  for a positive trigger, a positive base below \<open>2\<^sup>64\<close> and a multiplier of at least two.

  \<^bold>\<open>Stops of the server.\<close> A panic of the raft core, a failing \<open>expect\<close> of the backend, a failing
  persist or decode end the core with a value of \<open>core_abort\<close>; a storage call that does not return
  gives the core no result. \<open>core_refines_node\<close> shows that neither occurs in a drained turn.

  \<^bold>\<open>Simplifications.\<close> The simulated network is the set of all messages sent, so that loss,
  duplication, delay and reordering are all covered; the draws of the simulator's generator choose
  among the events that the model allows. A \<open>oneshot\<close> sender of the server is a handle, and answering
  or dropping it is recorded. The cluster theorems are for a fixed voter set, since neither driver
  proposes a membership change; \<open>propose_conf_change\<close> is modelled but not part of a run.

  \<^bold>\<open>Not modelled.\<close> The client actors, virtual time, statistics and the final convergence check of
  \<open>cluster.rs\<close> and the generator \<open>rng.rs\<close>: they choose events and report, with floating-point
  probabilities. The text and HTTP endpoint of \<open>metrics.rs\<close>, listening sockets, the binaries \<open>kvd\<close>,
  \<open>kvctl\<close>, \<open>simulate\<close> and the load generator \<open>bench\<close>: command lines, printing, wall-clock time and
  floating point around the modelled code. The sleep between the attempts of a client.
\<close>

section \<open>The simulated cluster\<close>

text \<open>
  C1: no event of the simulator aborts. In every state the cluster can reach, every event that can
  occur is handled without a panic of the raft core, without a violated assertion (election safety,
  state machine safety) and without a failed decode of a command or snapshot.
\<close>

theorem sim_never_aborts:
  assumes "sim_reach E c s" and "env_ok E" and "enabled c s ev"
  shows "\<exists>s'. sim_handle E c ev s = Inr s'"
  using sim_reach_inv [OF assms(1,2)] sim_handle_ok [OF assms(2) _ assms(3)] by blast

theorem sim_never_aborts_witness:
  "\<exists>s'. sim_handle demo_env demo_cfg (ClientReq 0 2 (ReqRead 5 7)) demo_s2 = Inr s'"
  by (rule sim_never_aborts [OF demo_reach(2) demo_env_ok]) (simp add: sim_voters_def demo_cfg_def)

text \<open>
  C2: election safety. Whatever happens in between, crashes and restarts included, two nodes that
  lead the same term, one now and one later, are the same node.
\<close>

theorem election_safety:
  assumes "sim_reach E c s" and "env_ok E" and "(sim_step E c)\<^sup>*\<^sup>* s s'"
    and "n \<in> set (sim_nodes s)" and "sn_raft n = Some r" and "role r = Leader"
    and "n' \<in> set (sim_nodes s')" and "sn_raft n' = Some r'" and "role r' = Leader"
    and "cur_term r = cur_term r'"
  shows "sn_id n = sn_id n'"
proof -
  obtain A A' where A: "sim_inv E c s A" "sim_inv E c s' A'" "ext A A'"
    by (rule sim_reach_steps [OF assms(1-3)])
  have "h_leader A' (cur_term r) = Some (sn_id n)"
    using leader_ext [OF A(3)] running_log(6) [OF A(1) assms(4-6)] by blast
  then show ?thesis using running_log(6) [OF A(2) assms(7-9)] assms(10) by simp
qed

theorem election_safety_witness:
  "\<exists>n r n' r'. n \<in> set (sim_nodes demo_s1) \<and> sn_raft n = Some r \<and> role r = Leader \<and>
     n' \<in> set (sim_nodes demo_s2) \<and> sn_raft n' = Some r' \<and> role r' = Leader \<and> cur_term r' = 1 \<and> sn_id n = sn_id n'"
proof -
  obtain l rl m rm where n: "l \<in> set (sim_nodes demo_s1)" "sn_raft l = Some rl" "role rl = Leader" "cur_term rl = 1"
    "m \<in> set (sim_nodes demo_s2)" "sn_raft m = Some rm" "role rm = Leader" "cur_term rm = 1"
    by (rule demo_nodes)
  show ?thesis
    using n election_safety [OF demo_reach(1) demo_env_ok demo_reach(3) n(1-3,5-7)] by auto
qed

text \<open>
  C3: state machine safety. An index committed on a node and, at the same time or later, on any
  node never holds two different entries.
\<close>

theorem committed_entries_agree:
  assumes "sim_reach E c s" and "env_ok E" and "(sim_step E c)\<^sup>*\<^sup>* s s'"
    and "n \<in> set (sim_nodes s)" and "sn_raft n = Some r" and "n' \<in> set (sim_nodes s')" and "sn_raft n' = Some r'"
    and "idx \<le> commit r" and "idx \<le> commit r'"
    and "log_get (rlog r) idx = Some e" and "log_get (rlog r') idx = Some e'"
  shows "e = e'"
proof -
  obtain A A' where A: "sim_inv E c s A" "sim_inv E c s' A'" "ext A A'"
    by (rule sim_reach_steps [OF assms(1-3)])
  show ?thesis by (rule committed_entry_agree [OF A assms(4-11)])
qed

theorem committed_entries_agree_witness:
  "\<exists>n r n' r' e. n \<in> set (sim_nodes demo_s2) \<and> n' \<in> set (sim_nodes demo_s2) \<and> sn_id n \<noteq> sn_id n' \<and>
     sn_raft n = Some r \<and> sn_raft n' = Some r' \<and> log_get (rlog r) 3 = Some e \<and> log_get (rlog r') 3 = Some e"
proof -
  obtain f rf m rm where n: "f \<in> set (sim_nodes demo_s2)" "sn_raft f = Some rf" "commit rf = 3"
    "log_get (rlog rf) 3 = Some (demo_entry 2 43)" "sn_id f = 1"
    "m \<in> set (sim_nodes demo_s2)" "sn_raft m = Some rm" "commit rm = 3"
    "log_get (rlog rm) 3 = Some (demo_entry 2 43)" "sn_id m = 2"
    by (rule demo_nodes)
  have "demo_entry 2 43 = demo_entry 2 43"
    by (rule committed_entries_agree [OF demo_reach(2) demo_env_ok rtranclp.rtrancl_refl n(1,2,6,7) _ _ n(4,9)])
      (simp_all add: n)
  then show ?thesis using n by (intro exI [of _ f] exI [of _ rf] exI [of _ m] exI [of _ rm]) auto
qed

text \<open>
  C4: leader completeness. An entry committed on some node is, from then on, in the log of every
  leader of the same or a later term, or covered by that leader's snapshot.
\<close>

theorem leader_has_committed:
  assumes "sim_reach E c s" and "env_ok E" and "(sim_step E c)\<^sup>*\<^sup>* s s'"
    and "n \<in> set (sim_nodes s)" and "sn_raft n = Some r" and "n' \<in> set (sim_nodes s')" and "sn_raft n' = Some r'"
    and "idx \<le> commit r" and "log_get (rlog r) idx = Some e" and "role r' = Leader" and "cur_term r \<le> cur_term r'"
  shows "idx \<le> snap_index (rlog r') \<or> log_get (rlog r') idx = Some e"
proof -
  obtain A A' where A: "sim_inv E c s A" "sim_inv E c s' A'" "ext A A'"
    by (rule sim_reach_steps [OF assms(1-3)])
  show ?thesis by (rule committed_in_later_leader [OF A assms(4-11)])
qed

theorem leader_has_committed_witness:
  "\<exists>n r. n \<in> set (sim_nodes demo_s2) \<and> sn_raft n = Some r \<and> role r = Leader \<and>
     (3 \<le> snap_index (rlog r) \<or> log_get (rlog r) 3 = Some (demo_entry 2 43))"
proof -
  obtain f rf m rm where n: "f \<in> set (sim_nodes demo_s2)" "sn_raft f = Some rf" "commit rf = 3"
    "log_get (rlog rf) 3 = Some (demo_entry 2 43)"
    "m \<in> set (sim_nodes demo_s2)" "sn_raft m = Some rm" "commit rm = 3" "role rm = Leader" "cur_term rm = 1"
    "log_get (rlog rm) 3 = Some (demo_entry 2 43)"
    by (rule demo_nodes)
  have "3 \<le> snap_index (rlog rm) \<or> log_get (rlog rm) 3 = Some (demo_entry 2 43)"
    by (rule leader_has_committed [OF demo_reach(2) demo_env_ok rtranclp.rtrancl_refl n(5,6,5,6) _ n(10,8) order_refl])
      (simp add: n(7))
  then show ?thesis using n by (intro exI [of _ m] exI [of _ rm]) auto
qed

text \<open>
  C5: replicas agree. Two running nodes, now or later, that have applied the same number of entries
  have the same state machine: the same data and the same session table.
\<close>

theorem state_machines_agree:
  assumes "sim_reach E c s" and "env_ok E" and "(sim_step E c)\<^sup>*\<^sup>* s s'"
    and "n \<in> set (sim_nodes s)" and "sn_raft n = Some r" and "n' \<in> set (sim_nodes s')" and "sn_raft n' = Some r'"
    and "sn_applied n = sn_applied n'"
  shows "sn_sm n = sn_sm n'"
proof -
  obtain A A' where A: "sim_inv E c s A" "sim_inv E c s' A'" "ext A A'"
    by (rule sim_reach_steps [OF assms(1-3)])
  have "commit r = commit r'"
    using running_node(3) [OF A(1) assms(4,5)] running_node(3) [OF A(2) assms(6,7)] assms(8) by simp
  then show ?thesis
    using running_node(5) [OF A(1) assms(4,5)] running_node(5) [OF A(2) assms(6,7)]
      committed_prefix_agree [OF A assms(4-7), of "commit r"] by simp
qed

theorem state_machines_agree_witness:
  "\<exists>n n'. n \<in> set (sim_nodes demo_s2) \<and> n' \<in> set (sim_nodes demo_s2) \<and> sn_id n \<noteq> sn_id n' \<and>
     sn_applied n = 3 \<and> sn_applied n' = 3 \<and> sn_sm n = sn_sm n'"
proof -
  obtain f rf m rm where n: "f \<in> set (sim_nodes demo_s2)" "sn_raft f = Some rf" "sn_applied f = 3" "sn_id f = 1"
    "m \<in> set (sim_nodes demo_s2)" "sn_raft m = Some rm" "sn_applied m = 3" "sn_id m = 2"
    by (rule demo_nodes)
  have "sn_sm f = sn_sm m"
    by (rule state_machines_agree [OF demo_reach(2) demo_env_ok rtranclp.rtrancl_refl n(1,2,5,6)]) (simp add: n)
  then show ?thesis using n by (intro exI [of _ f] exI [of _ m]) auto
qed

text \<open>
  C6: durability. Every entry that any node has ever applied is on the disks of a majority of the
  nodes, running or down, in the log or covered by the snapshot.
\<close>

theorem applied_entries_durable:
  assumes "sim_reach E c s" and "env_ok E" and "bt_get (sim_applied s) idx = Some e"
  shows "majority (set (sim_voters c))
    {i \<in> set (sim_voters c). disk_covers (sn_disk (sim_nodes s ! (i - 1))) idx e}"
proof -
  obtain A where "sim_inv E c s A" using sim_reach_inv [OF assms(1,2)] by blast
  then show ?thesis using applied_durable [OF _ assms(3)] by blast
qed

theorem applied_entries_durable_witness:
  "majority {1, 2, 3} {i \<in> {1, 2, 3}. disk_covers (sn_disk (sim_nodes demo_s2 ! (i - 1))) 3 (demo_entry 2 43)}"
proof -
  have v: "set (sim_voters demo_cfg) = {1, 2, 3}" by (auto simp: sim_voters_def demo_cfg_def)
  have a: "bt_get (sim_applied demo_s2) 3 = Some (demo_entry 2 43)"
    using demo_exec(4) unfolding demo_check_def by (elim conjE)
  show ?thesis using applied_entries_durable [OF demo_reach(2) demo_env_ok a, unfolded v] .
qed

text \<open>
  C7: a vote is durable before it is sent. A granted vote that was ever put on the network is on the
  voter's disk, unless the voter has moved on to a later term.
\<close>

theorem votes_durable:
  assumes "sim_reach E c s" and "env_ok E" and "m \<in> sim_net s" and "m_body m = RequestVoteResp True"
    and "n \<in> set (sim_nodes s)" and "sn_id n = m_from m"
  shows "m_term m < hs_term (p_hard_state (sn_disk n)) \<or>
    p_hard_state (sn_disk n) = \<lparr>hs_term = m_term m, hs_voted_for = Some (m_to m)\<rparr>"
proof -
  obtain A where "sim_inv E c s A" using sim_reach_inv [OF assms(1,2)] by blast
  then show ?thesis by (rule vote_durable [OF _ assms(3-6)])
qed

theorem votes_durable_witness:
  "1 < hs_term (p_hard_state (sn_disk (sim_nodes demo_s2 ! 0))) \<or>
   p_hard_state (sn_disk (sim_nodes demo_s2 ! 0)) = \<lparr>hs_term = 1, hs_voted_for = Some 2\<rparr>"
proof -
  have m: "\<lparr>m_from = 1, m_to = 2, m_term = 1, m_body = RequestVoteResp True\<rparr> \<in> sim_net demo_s2"
    using demo_exec(4) unfolding demo_check_def by (elim conjE)
  obtain f where n: "f \<in> set (sim_nodes demo_s2)" "f = sim_nodes demo_s2 ! 0" "sn_id f = 1"
    by (rule demo_nodes)
  show ?thesis using votes_durable [OF demo_reach(2) demo_env_ok m _ n(1)] n(2,3) by simp
qed

text \<open>
  C8: crash recovery. Killing a running node and restarting it from its disk gives back its term,
  its vote, its log and its snapshot; it comes back as a follower.
\<close>

theorem crash_restart_recovers:
  assumes "sim_reach E c s" and "env_ok E" and "i \<in> set (sim_voters c)"
    and "sn_raft (sim_nodes s ! (i - 1)) = Some r"
  shows "\<exists>s' r'. on_restart E c i (crash i s) = Inr s' \<and> sn_raft (sim_nodes s' ! (i - 1)) = Some r' \<and>
    hs r' = hs r \<and> rlog r' = rlog r \<and> node_snapshot r' = node_snapshot r \<and> role r' = Follower"
proof -
  obtain A where A: "sim_inv E c s A" using sim_reach_inv [OF assms(1,2)] by blast
  obtain s' where s': "on_restart E c i (crash i s) = Inr s'"
    using on_restart_ok [OF assms(2) crash_ok [OF A assms(3)] assms(3)] by blast
  then show ?thesis using crash_restart_node [OF A assms(3,4) s'] by blast
qed

theorem crash_restart_recovers_witness:
  "\<exists>r s' r'. sn_raft (sim_nodes demo_s2 ! 1) = Some r \<and> role r = Leader \<and>
     on_restart demo_env demo_cfg 2 (crash 2 demo_s2) = Inr s' \<and> sn_raft (sim_nodes s' ! 1) = Some r' \<and>
     hs r' = hs r \<and> rlog r' = rlog r \<and> role r' = Follower"
proof -
  obtain m rm where n: "m = sim_nodes demo_s2 ! 1" "sn_raft m = Some rm" "role rm = Leader"
    by (rule demo_nodes)
  have i: "2 \<in> set (sim_voters demo_cfg)" by (simp add: sim_voters_def demo_cfg_def)
  show ?thesis
    using n crash_restart_recovers [OF demo_reach(2) demo_env_ok i, of rm] by auto
qed

text \<open>
  C11: log matching. If the logs of two running nodes hold entries of the same term at an index, they
  hold the same entries at that index and at every earlier index both still retain.
\<close>

theorem log_matching:
  assumes "sim_reach E c s" and "env_ok E"
    and "n \<in> set (sim_nodes s)" and "sn_raft n = Some r" and "n' \<in> set (sim_nodes s)" and "sn_raft n' = Some r'"
    and "log_get (rlog r) idx = Some e" and "log_get (rlog r') idx = Some e'" and "e_term e = e_term e'"
    and "k \<le> idx" and "log_get (rlog r) k = Some x" and "log_get (rlog r') k = Some y"
  shows "x = y"
proof -
  obtain A where "sim_inv E c s A" using sim_reach_inv [OF assms(1,2)] by blast
  then show ?thesis by (rule log_matching_facts [OF _ assms(3-12)])
qed

theorem log_matching_witness:
  "\<exists>n r n' r' e. n \<in> set (sim_nodes demo_s2) \<and> sn_raft n = Some r \<and> n' \<in> set (sim_nodes demo_s2) \<and>
     sn_raft n' = Some r' \<and> sn_id n \<noteq> sn_id n' \<and> log_get (rlog r) 3 = Some e \<and> log_get (rlog r') 3 = Some e"
proof -
  obtain f rf m rm where n: "f \<in> set (sim_nodes demo_s2)" "sn_raft f = Some rf"
    "log_get (rlog rf) 3 = Some (demo_entry 2 43)" "sn_id f = 1"
    "m \<in> set (sim_nodes demo_s2)" "sn_raft m = Some rm"
    "log_get (rlog rm) 3 = Some (demo_entry 2 43)" "sn_id m = 2"
    by (rule demo_nodes)
  have "demo_entry 2 43 = demo_entry 2 43"
    by (rule log_matching [OF demo_reach(2) demo_env_ok n(1,2,5,6,3,7) refl order_refl n(3,7)])
  then show ?thesis using n by (intro exI [of _ f] exI [of _ rf] exI [of _ m] exI [of _ rm]) auto
qed

text \<open>
  C12: the simulator's sampled log matching check passes in every reachable state.
\<close>

theorem log_matching_check_passes:
  assumes "sim_reach E c s" and "env_ok E"
  shows "\<exists>seen. check_log_matching s = Inr seen"
  using sim_reach_inv [OF assms] check_log_matching_ok by blast

theorem log_matching_check_passes_witness: "\<exists>seen. check_log_matching demo_s2 = Inr seen"
  by (rule log_matching_check_passes [OF demo_reach(2) demo_env_ok])

text \<open>
  C13: snapshots are interchangeable. The snapshot on a node's disk restores, on any empty store, to
  the state machine that any running node has, now or later, after applying the same entries.
\<close>

theorem snapshots_interchangeable:
  assumes "sim_reach E c s" and "env_ok E" and "(sim_step E c)\<^sup>*\<^sup>* s s'"
    and "n \<in> set (sim_nodes s)" and "p_snapshot (sn_disk n) = Some snap"
    and "n' \<in> set (sim_nodes s')" and "sn_raft n' = Some r'" and "sn_applied n' = s_last_index snap"
  shows "sm_restore mem_backend (dec_snap E) (s_data snap) (sm_new bt_empty) = Some (sn_sm n')"
proof -
  obtain A A' where A: "sim_inv E c s A" "sim_inv E c s' A'" "ext A A'"
    by (rule sim_reach_steps [OF assms(1-3)])
  show ?thesis by (rule snapshot_state [OF assms(2) A assms(4-8)])
qed

theorem snapshots_interchangeable_witness:
  "\<exists>n snap n'. n \<in> set (sim_nodes demo_mid) \<and> p_snapshot (sn_disk n) = Some snap \<and> n' \<in> set (sim_nodes demo_mid) \<and>
     sm_restore mem_backend get_payload (s_data snap) (sm_new bt_empty) = Some (sn_sm n')"
proof -
  obtain f m r snap where n: "f \<in> set (sim_nodes demo_mid)" "m \<in> set (sim_nodes demo_mid)" "sn_raft m = Some r"
    "p_snapshot (sn_disk f) = Some snap" "s_last_index snap = 2" "sn_applied m = 2"
    by (rule demo_mid_nodes)
  have "sm_restore mem_backend (dec_snap demo_env) (s_data snap) (sm_new bt_empty) = Some (sn_sm m)"
    by (rule snapshots_interchangeable [OF demo_reach(4) demo_env_ok rtranclp.rtrancl_refl n(1,4,2,3)]) (simp add: n)
  then show ?thesis using n by (auto simp: demo_env_def)
qed

text \<open>
  C14: between events the simulated disk of a running node holds exactly its term and vote, its log
  and its latest snapshot.
\<close>

theorem disk_is_durable_state:
  assumes "sim_reach E c s" and "env_ok E" and "n \<in> set (sim_nodes s)" and "sn_raft n = Some r"
  shows "sn_disk n = \<lparr>p_hard_state = hs r, p_entries = log_entries (rlog r), p_snapshot = node_snapshot r\<rparr>"
proof -
  obtain A where "sim_inv E c s A" using sim_reach_inv [OF assms(1,2)] by blast
  then show ?thesis by (rule running_disk [OF _ assms(3,4)])
qed

theorem disk_is_durable_state_witness:
  "\<exists>r. sn_raft (sim_nodes demo_s2 ! 1) = Some r \<and>
     sn_disk (sim_nodes demo_s2 ! 1) = \<lparr>p_hard_state = hs r, p_entries = log_entries (rlog r), p_snapshot = node_snapshot r\<rparr>"
proof -
  obtain m rm where n: "m \<in> set (sim_nodes demo_s2)" "m = sim_nodes demo_s2 ! 1" "sn_raft m = Some rm"
    by (rule demo_nodes)
  show ?thesis using n disk_is_durable_state [OF demo_reach(2) demo_env_ok n(1,3)] by auto
qed

end
